(* ===== verification/Bionic_Prelude.thy ===== *)
theory Bionic_Prelude
  imports Main "HOL-Library.Word" "HOL-Library.Monad_Syntax"
begin

unbundle bit_operations_syntax

text \<open>
  Shared vocabulary of the development: the machine types of the 32-bit targets, the
  \<open>errno\<close> codes the modelled functions return, reads from a buffer, a generic notion of reachable state with a
  locale for inductive invariants, and the word lemmas used by the packed 32-bit
  representations of mutexes, semaphores, condition variables and thread attributes.
\<close>

section \<open>Machine types\<close>

type_synonym u8 = "8 word"
type_synonym u16 = "16 word"
type_synonym u32 = "32 word"

text \<open>Kernel thread ids, as stored in the \<open>kernel_id\<close> field of a thread descriptor.\<close>

type_synonym tid = u32

section \<open>Error codes\<close>

text \<open>The values of the kernel headers under \<open>libc/kernel/common/asm-generic\<close>.\<close>

abbreviation (input) EPERM :: int where "EPERM \<equiv> 1"

abbreviation (input) ESRCH :: int where "ESRCH \<equiv> 3"

abbreviation (input) EINTR :: int where "EINTR \<equiv> 4"

abbreviation (input) EAGAIN :: int where "EAGAIN \<equiv> 11"

abbreviation (input) ENOMEM :: int where "ENOMEM \<equiv> 12"

abbreviation (input) EBUSY :: int where "EBUSY \<equiv> 16"

abbreviation (input) EINVAL :: int where "EINVAL \<equiv> 22"

abbreviation (input) EDEADLK :: int where "EDEADLK \<equiv> 35"

abbreviation (input) ENOSYS :: int where "ENOSYS \<equiv> 38"

abbreviation (input) EOVERFLOW :: int where "EOVERFLOW \<equiv> 75"

abbreviation (input) EOPNOTSUPP :: int where "EOPNOTSUPP \<equiv> 95"

abbreviation (input) ETIMEDOUT :: int where "ETIMEDOUT \<equiv> 110"

section \<open>Reads from a buffer\<close>

text \<open>A buffer is the list of its cells; reading outside it is \<open>None\<close>.\<close>

definition rd :: "'a list \<Rightarrow> nat \<Rightarrow> 'a option" where
  "rd b i = (if i < length b then Some (b ! i) else None)"

lemma rd_Some_iff: "rd b i = Some x \<longleftrightarrow> i < length b \<and> b ! i = x"
  by (auto simp: rd_def)

lemma rd_None_iff: "rd b i = None \<longleftrightarrow> length b \<le> i"
  by (auto simp: rd_def)

text \<open>
  Writing an element, reading \<open>n\<close> of them and overwriting with the elements \<open>bs\<close>, at the position \<open>p\<close>
  of an array.
\<close>

definition wr :: "'a list \<Rightarrow> nat \<Rightarrow> 'a \<Rightarrow> 'a list option" where
  "wr b i v = (if i < length b then Some (b[i := v]) else None)"

definition rdn :: "'a list \<Rightarrow> nat \<Rightarrow> nat \<Rightarrow> 'a list option" where
  "rdn b p n = (if p + n \<le> length b then Some (take n (drop p b)) else None)"

definition blit :: "'a list \<Rightarrow> nat \<Rightarrow> 'a list \<Rightarrow> 'a list option" where
  "blit b p bs =
    (if p + length bs \<le> length b then Some (take p b @ bs @ drop (p + length bs) b) else None)"

lemma blit_ok:
  assumes "p + length bs \<le> length b"
  obtains b' where "blit b p bs = Some b'" "length b' = length b" "take p b' = take p b"
    "drop (p + length bs) b' = drop (p + length bs) b" "take (length bs) (drop p b') = bs"
  using assms by (intro that[of "take p b @ bs @ drop (p + length bs) b"]) (auto simp: blit_def)

section \<open>Reachable states and inductive invariants\<close>

text \<open>
  Every concurrent component is a start condition and a step relation. The states it can
  be in are the least set closed under steps.
\<close>

inductive reachable :: "('s \<Rightarrow> bool) \<Rightarrow> ('s \<Rightarrow> 's \<Rightarrow> bool) \<Rightarrow> 's \<Rightarrow> bool"
  for init :: "'s \<Rightarrow> bool" and step :: "'s \<Rightarrow> 's \<Rightarrow> bool" where
  start: "init s \<Longrightarrow> reachable init step s"
| step: "reachable init step s \<Longrightarrow> step s t \<Longrightarrow> reachable init step t"

text \<open>
  The contract between a component and the properties stated about it: an invariant that
  the start states satisfy and every step keeps.
\<close>

locale invariant_system =
  fixes init :: "'s \<Rightarrow> bool" and step :: "'s \<Rightarrow> 's \<Rightarrow> bool" and inv :: "'s \<Rightarrow> bool"
  assumes inv_init: "init s \<Longrightarrow> inv s"
    and inv_step: "inv s \<Longrightarrow> step s t \<Longrightarrow> inv t"
begin

lemma reachable_inv: "reachable init step s \<Longrightarrow> inv s"
  by (induction rule: reachable.induct) (auto intro: inv_init inv_step)

lemma reachable_step_inv: "reachable init step s \<Longrightarrow> step s t \<Longrightarrow> inv s \<and> inv t"
  by (auto intro: reachable_inv inv_step)

end

lemma reachable_steps:
  assumes "step\<^sup>*\<^sup>* s t" and "reachable init step s"
  shows "reachable init step t"
  using assms by (induction rule: rtranclp_induct) (auto intro: reachable.step)

section \<open>Bits of the masks used by the packed representations\<close>

named_theorems mask_bits \<open>positions of the set bits of constant masks\<close>

lemma bit_3 [mask_bits]: "bit (3 :: int) n \<longleftrightarrow> n = 0 \<or> n = 1"
  by (auto simp: bit_numeral_rec bit_1_iff split: nat.splits)

lemma bit_2 [mask_bits]: "bit (2 :: int) n \<longleftrightarrow> n = 1"
  by (auto simp: bit_numeral_rec bit_1_iff split: nat.splits)

lemma bit_4000 [mask_bits]: "bit (0x4000 :: int) n \<longleftrightarrow> n = 14"
  by (auto simp: bit_numeral_rec bit_1_iff split: nat.splits)

lemma bit_8000 [mask_bits]: "bit (0x8000 :: int) n \<longleftrightarrow> n = 15"
  by (auto simp: bit_numeral_rec bit_1_iff split: nat.splits)

lemma bit_2000 [mask_bits]: "bit (0x2000 :: int) n \<longleftrightarrow> n = 13"
  by (auto simp: bit_numeral_rec bit_1_iff split: nat.splits)

lemma bit_6000 [mask_bits]: "bit (0x6000 :: int) n \<longleftrightarrow> n = 13 \<or> n = 14"
  by (auto simp: bit_numeral_rec bit_1_iff split: nat.splits)

lemma bit_A000 [mask_bits]: "bit (0xA000 :: int) n \<longleftrightarrow> n = 13 \<or> n = 15"
  by (auto simp: bit_numeral_rec bit_1_iff split: nat.splits)

lemma bit_C000 [mask_bits]: "bit (0xC000 :: int) n \<longleftrightarrow> n = 14 \<or> n = 15"
  by (auto simp: bit_numeral_rec bit_1_iff split: nat.splits)

lemma bit_1ffc [mask_bits]: "bit (0x1ffc :: int) n \<longleftrightarrow> 2 \<le> n \<and> n < 13"
  by (auto simp: bit_numeral_rec bit_1_iff split: nat.splits)

lemma bit_ffff [mask_bits]: "bit (0xffff :: int) n \<longleftrightarrow> n < 16"
proof -
  have "(0xffff :: int) = mask 16"
    by (simp add: mask_eq_exp_minus_1)
  then show ?thesis
    by (metis bit_mask_iff possible_bit_int)
qed

text \<open>A word below a power of two has no bit from there on.\<close>

lemma bit_lt_2p: "w < 2 ^ k \<Longrightarrow> bit w n \<Longrightarrow> n < k" for w :: "'a::len word"
  by (metis bit_and_iff bit_mask_iff less_mask_eq)

lemma bit_lt_0x10000: "(t :: u32) < 0x10000 \<Longrightarrow> bit t n \<Longrightarrow> n < 16"
  using bit_lt_2p[of t 16 n] by simp

lemma bit_lt_0x800: "(t :: u32) < 0x800 \<Longrightarrow> bit t n \<Longrightarrow> n < 11"
  using bit_lt_2p[of t 11 n] by simp

end
