(* ===== verification/Pthread_Time.thy ===== *)
theory Pthread_Time
  imports Bionic_Prelude
begin

text \<open>
  The time arithmetic of the thread library: the helpers on \<open>struct timespec\<close> of
  \<open>libc/bionic/pthread_internal.h\<close> and the two deadline conversions of
  \<open>libc/bionic/pthread.c\<close>. The reading of the clock that \<open>clock_gettime\<close> stores is an argument.
  Seconds and nanoseconds are integers: overflow of \<open>time_t\<close> is undefined in the source.
\<close>

record timespec =
  tv_sec :: int
  tv_nsec :: int

definition ts_norm :: "timespec \<Rightarrow> bool" where
  "ts_norm t \<longleftrightarrow> 0 \<le> tv_nsec t \<and> tv_nsec t < 1000000000"

text \<open>The instant or duration a \<open>timespec\<close> denotes, in nanoseconds.\<close>

definition ts_ns :: "timespec \<Rightarrow> int" where
  "ts_ns t = tv_sec t * 1000000000 + tv_nsec t"

section \<open>The helpers of pthread_internal.h\<close>

definition timespec_add :: "timespec \<Rightarrow> timespec \<Rightarrow> timespec" where
  "timespec_add a b =
     (let s = tv_sec a + tv_sec b; n = tv_nsec a + tv_nsec b
      in if n \<ge> 1000000000 then \<lparr>tv_sec = s + 1, tv_nsec = n - 1000000000\<rparr>
         else \<lparr>tv_sec = s, tv_nsec = n\<rparr>)"

definition timespec_sub :: "timespec \<Rightarrow> timespec \<Rightarrow> timespec" where
  "timespec_sub a b =
     (let s = tv_sec a - tv_sec b; n = tv_nsec a - tv_nsec b
      in if n < 0 then \<lparr>tv_sec = s - 1, tv_nsec = n + 1000000000\<rparr>
         else \<lparr>tv_sec = s, tv_nsec = n\<rparr>)"

definition timespec_zero :: timespec where
  "timespec_zero = \<lparr>tv_sec = 0, tv_nsec = 0\<rparr>"

definition timespec_is_zero :: "timespec \<Rightarrow> bool" where
  "timespec_is_zero a \<longleftrightarrow> tv_sec a = 0 \<and> tv_nsec a = 0"

definition timespec_cmp :: "timespec \<Rightarrow> timespec \<Rightarrow> int" where
  "timespec_cmp a b =
     (if tv_sec a < tv_sec b then - 1
      else if tv_sec a > tv_sec b then 1
      else if tv_nsec a < tv_nsec b then - 1
      else if tv_nsec a > tv_nsec b then 1
      else 0)"

definition timespec_cmp0 :: "timespec \<Rightarrow> int" where
  "timespec_cmp0 a =
     (if tv_sec a < 0 then - 1
      else if tv_sec a > 0 then 1
      else if tv_nsec a < 0 then - 1
      else if tv_nsec a > 0 then 1
      else 0)"

section \<open>Deadlines\<close>

definition timespec_to_absolute :: "timespec \<Rightarrow> timespec \<Rightarrow> int \<times> timespec" where
  \<comment> \<open>arguments: what \<open>clock_gettime\<close> stored, and \<open>abstime\<close>\<close>
  "timespec_to_absolute now abstime =
     (let s = tv_sec abstime - tv_sec now;
          n = tv_nsec abstime - tv_nsec now;
          ts = (if n < 0 then \<lparr>tv_sec = s - 1, tv_nsec = n + 1000000000\<rparr>
                else \<lparr>tv_sec = s, tv_nsec = n\<rparr>)
      in (if tv_nsec ts < 0 \<or> tv_sec ts < 0 then - 1 else 0, ts))"

definition timespec_to_relative_msec :: "timespec \<Rightarrow> u32 \<Rightarrow> timespec" where
  "timespec_to_relative_msec now msecs =
     (let s = tv_sec now + uint (msecs div 1000);
          n = tv_nsec now + uint ((msecs mod 1000) * 1000000)
      in if n \<ge> 1000000000 then \<lparr>tv_sec = s + 1, tv_nsec = n - 1000000000\<rparr>
         else \<lparr>tv_sec = s, tv_nsec = n\<rparr>)"

section \<open>Properties\<close>

lemma ts_ns_cmp:
  assumes "ts_norm a" and "ts_norm b"
  shows "ts_ns a < ts_ns b \<longleftrightarrow> tv_sec a < tv_sec b \<or> tv_sec a = tv_sec b \<and> tv_nsec a < tv_nsec b"
  using assms by (auto simp: ts_norm_def ts_ns_def)

lemma timespec_add_ns:
  assumes "ts_norm a" and "ts_norm b"
  shows "ts_norm (timespec_add a b) \<and> ts_ns (timespec_add a b) = ts_ns a + ts_ns b"
  using assms by (auto simp: timespec_add_def ts_norm_def ts_ns_def Let_def)

lemma timespec_sub_ns:
  assumes "ts_norm a" and "ts_norm b"
  shows "ts_norm (timespec_sub a b) \<and> ts_ns (timespec_sub a b) = ts_ns a - ts_ns b"
  using assms by (auto simp: timespec_sub_def ts_norm_def ts_ns_def Let_def)

lemma timespec_cmp_sgn:
  assumes "ts_norm a" and "ts_norm b"
  shows "timespec_cmp a b = sgn (ts_ns a - ts_ns b)"
  using assms by (auto simp: timespec_cmp_def ts_norm_def ts_ns_def sgn_if)

lemma timespec_cmp0_cmp: "timespec_cmp0 a = timespec_cmp a timespec_zero"
  by (simp add: timespec_cmp0_def timespec_cmp_def timespec_zero_def)

lemma timespec_to_absolute_ns:
  assumes "ts_norm now" and "ts_norm abstime"
  shows "ts_norm (snd (timespec_to_absolute now abstime))"
    and "ts_ns now + ts_ns (snd (timespec_to_absolute now abstime)) = ts_ns abstime"
    and "fst (timespec_to_absolute now abstime) = (if ts_ns abstime < ts_ns now then - 1 else 0)"
  using assms by (auto simp: timespec_to_absolute_def ts_norm_def ts_ns_def Let_def)

lemma uint_msecs_mod: "uint ((msecs mod 1000) * 1000000 :: u32) = uint msecs mod 1000 * 1000000"
proof -
  have "uint msecs mod 1000 * 1000000 < 2 ^ 32"
    using pos_mod_bound[of 1000 "uint msecs"] by simp
  then show ?thesis
    by (simp add: uint_word_ariths uint_mod)
qed

lemma timespec_to_relative_msec_ns:
  assumes "ts_norm now"
  shows "ts_norm (timespec_to_relative_msec now msecs) \<and>
    ts_ns (timespec_to_relative_msec now msecs) = ts_ns now + uint msecs * 1000000"
proof -
  have "uint msecs * 1000000 = uint msecs div 1000 * 1000000000 + uint msecs mod 1000 * 1000000"
    using div_mult_mod_eq[of "uint msecs" 1000] by linarith
  moreover have "0 \<le> uint msecs mod 1000" and "uint msecs mod 1000 < 1000"
    by simp_all
  ultimately show ?thesis
    using assms
    by (auto simp: timespec_to_relative_msec_def ts_norm_def ts_ns_def Let_def uint_div
        uint_msecs_mod)
qed

end
