(* ===== verification/Pthread_Mutex.thy ===== *)
theory Pthread_Mutex
  imports Pthread_Time
begin

unbundle bit_operations_syntax

text \<open>
  The mutexes of \<open>libc/bionic/pthread.c\<close>. A mutex is one 32-bit word that packs the owner,
  the type, the process-shared flag, the recursion counter and the lock state. The operations are
  program-counter machines: every access to the word that other threads can interleave with (a
  load, \<open>__atomic_cmpxchg\<close>, \<open>__atomic_swap\<close>, \<open>__atomic_dec\<close>, a store, a futex call) is one
  step, so the step relation below covers every interleaving of any number of threads. The code
  between \<open>_recursive_lock()\<close> and \<open>_recursive_unlock()\<close> is one step: all writers of recursive
  and error-check mutexes hold that global mutex, which is a normal mutex and so excluded by the
  theorem on normal mutexes proved first.
\<close>

section \<open>The mutex word\<close>

definition MUTEX_OWNER :: "u32 \<Rightarrow> u32" where
  "MUTEX_OWNER v = drop_bit 16 v AND 0xffff"

definition MUTEX_COUNTER :: "u32 \<Rightarrow> u32" where
  "MUTEX_COUNTER v = drop_bit 2 v AND 0xfff"

abbreviation (input) MUTEX_TYPE_MASK :: u32 where "MUTEX_TYPE_MASK \<equiv> 0xc000"

abbreviation (input) MUTEX_TYPE_NORMAL :: u32 where "MUTEX_TYPE_NORMAL \<equiv> 0x0000"

abbreviation (input) MUTEX_TYPE_RECURSIVE :: u32 where "MUTEX_TYPE_RECURSIVE \<equiv> 0x4000"

abbreviation (input) MUTEX_TYPE_ERRORCHECK :: u32 where "MUTEX_TYPE_ERRORCHECK \<equiv> 0x8000"

abbreviation (input) MUTEX_COUNTER_SHIFT :: nat where "MUTEX_COUNTER_SHIFT \<equiv> 2"

abbreviation (input) MUTEX_COUNTER_MASK :: u32 where "MUTEX_COUNTER_MASK \<equiv> 0x1ffc"

abbreviation (input) MUTEX_SHARED_MASK :: u32 where "MUTEX_SHARED_MASK \<equiv> 0x2000"

section \<open>Mutex attributes\<close>

abbreviation (input) MUTEXATTR_TYPE_MASK :: u32 where "MUTEXATTR_TYPE_MASK \<equiv> 0x000f"

abbreviation (input) MUTEXATTR_SHARED_MASK :: u32 where "MUTEXATTR_SHARED_MASK \<equiv> 0x0010"

abbreviation (input) PTHREAD_MUTEX_NORMAL :: u32 where "PTHREAD_MUTEX_NORMAL \<equiv> 0"

abbreviation (input) PTHREAD_MUTEX_RECURSIVE :: u32 where "PTHREAD_MUTEX_RECURSIVE \<equiv> 1"

abbreviation (input) PTHREAD_MUTEX_ERRORCHECK :: u32 where "PTHREAD_MUTEX_ERRORCHECK \<equiv> 2"

abbreviation (input) PTHREAD_MUTEX_DEFAULT :: u32 where "PTHREAD_MUTEX_DEFAULT \<equiv> PTHREAD_MUTEX_NORMAL"

abbreviation (input) PTHREAD_PROCESS_PRIVATE :: u32 where "PTHREAD_PROCESS_PRIVATE \<equiv> 0"

abbreviation (input) PTHREAD_PROCESS_SHARED :: u32 where "PTHREAD_PROCESS_SHARED \<equiv> 1"

text \<open>
  A pointer argument is an \<open>option\<close>: \<open>None\<close> is the null pointer, \<open>Some x\<close> points to an object with
  content \<open>x\<close>. A function returns its result code and the content of the object afterwards.
\<close>

definition pthread_mutexattr_init :: "u32 option \<Rightarrow> int \<times> u32 option" where
  "pthread_mutexattr_init attr =
     (case attr of Some _ \<Rightarrow> (0, Some PTHREAD_MUTEX_DEFAULT) | None \<Rightarrow> (EINVAL, None))"

definition pthread_mutexattr_destroy :: "u32 option \<Rightarrow> int \<times> u32 option" where
  "pthread_mutexattr_destroy attr =
     (case attr of Some _ \<Rightarrow> (0, Some (- 1)) | None \<Rightarrow> (EINVAL, None))"

definition pthread_mutexattr_gettype :: "u32 option \<Rightarrow> int \<times> u32 option" where
  \<comment> \<open>the second component is the value stored through \<open>type\<close>, if any\<close>
  "pthread_mutexattr_gettype attr =
     (case attr of
        Some a \<Rightarrow>
          (let atype = a AND MUTEXATTR_TYPE_MASK
           in if PTHREAD_MUTEX_NORMAL <=s atype \<and> atype <=s PTHREAD_MUTEX_ERRORCHECK
              then (0, Some atype) else (EINVAL, None))
      | None \<Rightarrow> (EINVAL, None))"

definition pthread_mutexattr_settype :: "u32 option \<Rightarrow> u32 \<Rightarrow> int \<times> u32 option" where
  "pthread_mutexattr_settype attr ty =
     (case attr of
        Some a \<Rightarrow>
          (if PTHREAD_MUTEX_NORMAL <=s ty \<and> ty <=s PTHREAD_MUTEX_ERRORCHECK
           then (0, Some ((a AND NOT MUTEXATTR_TYPE_MASK) OR ty)) else (EINVAL, Some a))
      | None \<Rightarrow> (EINVAL, None))"

definition pthread_mutexattr_setpshared :: "u32 option \<Rightarrow> u32 \<Rightarrow> int \<times> u32 option" where
  "pthread_mutexattr_setpshared attr pshared =
     (case attr of
        None \<Rightarrow> (EINVAL, None)
      | Some a \<Rightarrow>
          if pshared = PTHREAD_PROCESS_PRIVATE then (0, Some (a AND NOT MUTEXATTR_SHARED_MASK))
          else if pshared = PTHREAD_PROCESS_SHARED then (0, Some (a OR MUTEXATTR_SHARED_MASK))
          else (EINVAL, Some a))"

definition pthread_mutexattr_getpshared :: "u32 option \<Rightarrow> bool \<Rightarrow> int \<times> u32 option" where
  \<comment> \<open>the second argument says whether the result pointer is non-null\<close>
  "pthread_mutexattr_getpshared attr pshared_nonnull =
     (case attr of
        None \<Rightarrow> (EINVAL, None)
      | Some a \<Rightarrow>
          if \<not> pshared_nonnull then (EINVAL, None)
          else (0, Some (if a AND MUTEXATTR_SHARED_MASK \<noteq> 0 then PTHREAD_PROCESS_SHARED
                         else PTHREAD_PROCESS_PRIVATE)))"

definition pthread_mutex_init :: "u32 option \<Rightarrow> u32 option \<Rightarrow> int \<times> u32 option" where
  \<comment> \<open>arguments: the mutex word before the call, the attribute\<close>
  "pthread_mutex_init mutex attr =
     (case mutex of
        None \<Rightarrow> (EINVAL, None)
      | Some old \<Rightarrow>
          (case attr of
             None \<Rightarrow> (0, Some MUTEX_TYPE_NORMAL)
           | Some a \<Rightarrow>
               (let v = (if a AND MUTEXATTR_SHARED_MASK \<noteq> 0 then MUTEX_SHARED_MASK else 0);
                    ty = a AND MUTEXATTR_TYPE_MASK
                in if ty = PTHREAD_MUTEX_NORMAL then (0, Some (v OR MUTEX_TYPE_NORMAL))
                   else if ty = PTHREAD_MUTEX_RECURSIVE then (0, Some (v OR MUTEX_TYPE_RECURSIVE))
                   else if ty = PTHREAD_MUTEX_ERRORCHECK then (0, Some (v OR MUTEX_TYPE_ERRORCHECK))
                   else (EINVAL, Some old))))"

section \<open>Normal mutexes\<close>

text \<open>
  What a step tells the rest of the system: nothing, that the calling thread acquired the mutex
  once more or released it once, or that it calls \<open>__futex_wake_ex(.., 1)\<close>.
\<close>

datatype mevent = Tau | Acq | Rel | WakeOne

text \<open>
  \<open>_normal_lock\<close>. The argument of the program points is the local variable \<open>shared\<close>.
  \<open>NL_wait\<close> is the comparison made by the futex system call, \<open>NL_sleep\<close> the thread asleep in it.
\<close>

datatype nl_pc = NL_read | NL_cas u32 | NL_swap u32 | NL_wait u32 | NL_sleep u32 | NL_done

fun normal_lock :: "u32 \<Rightarrow> nl_pc \<Rightarrow> u32 \<times> nl_pc \<times> mevent" where
  "normal_lock v NL_read = (v, NL_cas (v AND MUTEX_SHARED_MASK), Tau)"
| "normal_lock v (NL_cas sh) =
     (if v = (sh OR 0) then (sh OR 1, NL_done, Acq) else (v, NL_swap sh, Tau))"
| "normal_lock v (NL_swap sh) =
     (if v \<noteq> (sh OR 0) then (sh OR 2, NL_wait sh, Tau) else (sh OR 2, NL_done, Acq))"
| "normal_lock v (NL_wait sh) = (v, if v = (sh OR 2) then NL_sleep sh else NL_swap sh, Tau)"
| "normal_lock v (NL_sleep sh) = (v, NL_sleep sh, Tau)"
| "normal_lock v NL_done = (v, NL_done, Tau)"

text \<open>\<open>_normal_unlock\<close>.\<close>

datatype nu_pc = NU_read | NU_dec u32 | NU_store u32 | NU_wake u32 | NU_done

fun normal_unlock :: "u32 \<Rightarrow> nu_pc \<Rightarrow> u32 \<times> nu_pc \<times> mevent" where
  "normal_unlock v NU_read = (v, NU_dec (v AND MUTEX_SHARED_MASK), Tau)"
| "normal_unlock v (NU_dec sh) =
     (if v \<noteq> (sh OR 1) then (v - 1, NU_store sh, Tau) else (v - 1, NU_done, Rel))"
| "normal_unlock v (NU_store sh) = (sh, NU_wake sh, Rel)"
| "normal_unlock v (NU_wake sh) = (v, NU_done, WakeOne)"
| "normal_unlock v NU_done = (v, NU_done, Tau)"

section \<open>pthread_mutex_lock, pthread_mutex_unlock, pthread_mutex_trylock\<close>

text \<open>
  The regions under the global recursive lock, as functions on the mutex word. They are shared by
  the locking functions, which contain the same statements.
\<close>

definition recursive_relock :: "u32 \<Rightarrow> u32" where
  "recursive_relock oldv =
     (let counter = (oldv + push_bit MUTEX_COUNTER_SHIFT 1) AND MUTEX_COUNTER_MASK
      in (oldv AND NOT MUTEX_COUNTER_MASK) OR counter)"

text \<open>The region of the \<open>for (;;)\<close> loops: the new word and the local \<open>oldv\<close>.\<close>

definition recursive_acquire :: "tid \<Rightarrow> u32 \<Rightarrow> u32 \<Rightarrow> u32 \<Rightarrow> u32 \<times> u32" where
  "recursive_acquire tid mtype new_lock_type oldv =
     (if oldv = mtype then (push_bit 16 tid OR mtype OR new_lock_type, oldv)
      else if oldv AND 3 = 1 then (oldv XOR 3, oldv XOR 3)
      else (oldv, oldv))"

text \<open>
  \<open>pthread_mutex_lock\<close>. \<open>LK_entry null\<close> is the call; the other arguments are the local variables
  that are live there: \<open>mtype\<close>, \<open>shared\<close>, \<open>new_lock_type\<close>, \<open>oldv\<close>.
\<close>

datatype lk_pc =
    LK_entry bool
  | LK_normal nl_pc
  | LK_owner u32 u32
  | LK_relock
  | LK_try u32 u32 u32
  | LK_wait u32 u32 u32
  | LK_sleep u32 u32 u32
  | LK_ret int

fun pthread_mutex_lock :: "tid \<Rightarrow> u32 \<Rightarrow> lk_pc \<Rightarrow> u32 \<times> lk_pc \<times> mevent" where
  "pthread_mutex_lock tid v (LK_entry null) =
     (if null then (v, LK_ret EINVAL, Tau)
      else let mtype = v AND MUTEX_TYPE_MASK; shared = v AND MUTEX_SHARED_MASK
           in if mtype = MUTEX_TYPE_NORMAL then (v, LK_normal NL_read, Tau)
              else (v, LK_owner mtype shared, Tau))"
| "pthread_mutex_lock tid v (LK_normal pc) =
     (case normal_lock v pc of
        (v', pc', e) \<Rightarrow> (v', if pc' = NL_done then LK_ret 0 else LK_normal pc', e))"
| "pthread_mutex_lock tid v (LK_owner mtype shared) =
     (if tid = MUTEX_OWNER v
      then (v, if mtype = MUTEX_TYPE_ERRORCHECK then LK_ret EDEADLK else LK_relock, Tau)
      else (v, LK_try (mtype OR shared) shared 1, Tau))"
| "pthread_mutex_lock tid v LK_relock = (recursive_relock v, LK_ret 0, Acq)"
| "pthread_mutex_lock tid v (LK_try mtype shared new_lock_type) =
     (case recursive_acquire tid mtype new_lock_type v of
        (v', oldv) \<Rightarrow>
          if oldv = mtype then (v', LK_ret 0, Acq) else (v', LK_wait mtype shared oldv, Tau))"
| "pthread_mutex_lock tid v (LK_wait mtype shared oldv) =
     (v, if v = oldv then LK_sleep mtype shared oldv else LK_try mtype shared 2, Tau)"
| "pthread_mutex_lock tid v (LK_sleep mtype shared oldv) = (v, LK_sleep mtype shared oldv, Tau)"
| "pthread_mutex_lock tid v (LK_ret r) = (v, LK_ret r, Tau)"

datatype ul_pc =
    UL_entry bool
  | UL_normal nu_pc
  | UL_owner u32 u32
  | UL_release u32 u32
  | UL_wake u32
  | UL_ret int

fun pthread_mutex_unlock :: "tid \<Rightarrow> u32 \<Rightarrow> ul_pc \<Rightarrow> u32 \<times> ul_pc \<times> mevent" where
  "pthread_mutex_unlock tid v (UL_entry null) =
     (if null then (v, UL_ret EINVAL, Tau)
      else let mtype = v AND MUTEX_TYPE_MASK; shared = v AND MUTEX_SHARED_MASK
           in if mtype = MUTEX_TYPE_NORMAL then (v, UL_normal NU_read, Tau)
              else (v, UL_owner mtype shared, Tau))"
| "pthread_mutex_unlock tid v (UL_normal pc) =
     (case normal_unlock v pc of
        (v', pc', e) \<Rightarrow> (v', if pc' = NU_done then UL_ret 0 else UL_normal pc', e))"
| "pthread_mutex_unlock tid v (UL_owner mtype shared) =
     (v, if tid \<noteq> MUTEX_OWNER v then UL_ret EPERM else UL_release mtype shared, Tau)"
| "pthread_mutex_unlock tid oldv (UL_release mtype shared) =
     (let (v', oldv') =
        (if oldv AND MUTEX_COUNTER_MASK \<noteq> 0 then (oldv - push_bit MUTEX_COUNTER_SHIFT 1, 0)
         else (shared OR mtype, oldv))
      in (v', if oldv' AND 3 = 2 then UL_wake shared else UL_ret 0, Rel))"
| "pthread_mutex_unlock tid v (UL_wake shared) = (v, UL_ret 0, WakeOne)"
| "pthread_mutex_unlock tid v (UL_ret r) = (v, UL_ret r, Tau)"

datatype tl_pc =
    TL_entry bool
  | TL_cas u32
  | TL_owner u32 u32
  | TL_relock
  | TL_try u32
  | TL_ret int

fun pthread_mutex_trylock :: "tid \<Rightarrow> u32 \<Rightarrow> tl_pc \<Rightarrow> u32 \<times> tl_pc \<times> mevent" where
  "pthread_mutex_trylock tid v (TL_entry null) =
     (if null then (v, TL_ret EINVAL, Tau)
      else let mtype = v AND MUTEX_TYPE_MASK; shared = v AND MUTEX_SHARED_MASK
           in if mtype = MUTEX_TYPE_NORMAL then (v, TL_cas shared, Tau)
              else (v, TL_owner mtype shared, Tau))"
| "pthread_mutex_trylock tid v (TL_cas shared) =
     (if v = (shared OR 0) then (shared OR 1, TL_ret 0, Acq) else (v, TL_ret EBUSY, Tau))"
| "pthread_mutex_trylock tid v (TL_owner mtype shared) =
     (if tid = MUTEX_OWNER v
      then (v, if mtype = MUTEX_TYPE_ERRORCHECK then TL_ret EDEADLK else TL_relock, Tau)
      else (v, TL_try (mtype OR shared), Tau))"
| "pthread_mutex_trylock tid v TL_relock = (recursive_relock v, TL_ret 0, Acq)"
| "pthread_mutex_trylock tid oldv (TL_try mtype) =
     (if oldv = mtype then (push_bit 16 tid OR mtype OR 1, TL_ret 0, Acq)
      else (oldv, TL_ret EBUSY, Tau))"
| "pthread_mutex_trylock tid v (TL_ret r) = (v, TL_ret r, Tau)"

text \<open>
  \<open>pthread_mutex_lock_timeout_np\<close>. The program points carry \<open>abstime\<close>; \<open>now\<close> is the clock reading
  of a step that reads the clock. \<open>LT_call\<close> computes the deadline, before the null check.
\<close>

datatype lt_pc =
    LT_call bool u32
  | LT_entry timespec bool
  | LT_cas timespec u32
  | LT_swap timespec u32
  | LT_time timespec u32
  | LT_wait timespec u32
  | LT_sleep timespec u32
  | LT_owner timespec u32 u32
  | LT_relock
  | LT_try timespec u32 u32 u32
  | LT_rtime timespec u32 u32 u32
  | LT_rwait timespec u32 u32 u32
  | LT_rsleep timespec u32 u32 u32
  | LT_ret int

fun pthread_mutex_lock_timeout_np ::
  "timespec \<Rightarrow> tid \<Rightarrow> u32 \<Rightarrow> lt_pc \<Rightarrow> u32 \<times> lt_pc \<times> mevent" where
  "pthread_mutex_lock_timeout_np now tid v (LT_call null msecs) =
     (v, LT_entry (timespec_to_relative_msec now msecs) null, Tau)"
| "pthread_mutex_lock_timeout_np now tid v (LT_entry abstime null) =
     (if null then (v, LT_ret EINVAL, Tau)
      else let mtype = v AND MUTEX_TYPE_MASK; shared = v AND MUTEX_SHARED_MASK
           in if mtype = MUTEX_TYPE_NORMAL then (v, LT_cas abstime shared, Tau)
              else (v, LT_owner abstime mtype shared, Tau))"
| "pthread_mutex_lock_timeout_np now tid v (LT_cas abstime sh) =
     (if v = (sh OR 0) then (sh OR 1, LT_ret 0, Acq) else (v, LT_swap abstime sh, Tau))"
| "pthread_mutex_lock_timeout_np now tid v (LT_swap abstime sh) =
     (if v \<noteq> (sh OR 0) then (sh OR 2, LT_time abstime sh, Tau) else (sh OR 2, LT_ret 0, Acq))"
| "pthread_mutex_lock_timeout_np now tid v (LT_time abstime sh) =
     (v, if fst (timespec_to_absolute now abstime) < 0 then LT_ret EBUSY else LT_wait abstime sh, Tau)"
| "pthread_mutex_lock_timeout_np now tid v (LT_wait abstime sh) =
     (v, if v = (sh OR 2) then LT_sleep abstime sh else LT_swap abstime sh, Tau)"
| "pthread_mutex_lock_timeout_np now tid v (LT_sleep abstime sh) = (v, LT_sleep abstime sh, Tau)"
| "pthread_mutex_lock_timeout_np now tid v (LT_owner abstime mtype shared) =
     (if tid = MUTEX_OWNER v
      then (v, if mtype = MUTEX_TYPE_ERRORCHECK then LT_ret EDEADLK else LT_relock, Tau)
      else (v, LT_try abstime (mtype OR shared) shared 1, Tau))"
| "pthread_mutex_lock_timeout_np now tid v LT_relock = (recursive_relock v, LT_ret 0, Acq)"
| "pthread_mutex_lock_timeout_np now tid v (LT_try abstime mtype shared new_lock_type) =
     (case recursive_acquire tid mtype new_lock_type v of
        (v', oldv) \<Rightarrow>
          if oldv = mtype then (v', LT_ret 0, Acq)
          else (v', LT_rtime abstime mtype shared oldv, Tau))"
| "pthread_mutex_lock_timeout_np now tid v (LT_rtime abstime mtype shared oldv) =
     (v, if fst (timespec_to_absolute now abstime) < 0 then LT_ret EBUSY
         else LT_rwait abstime mtype shared oldv, Tau)"
| "pthread_mutex_lock_timeout_np now tid v (LT_rwait abstime mtype shared oldv) =
     (v, if v = oldv then LT_rsleep abstime mtype shared oldv
         else LT_try abstime mtype shared 2, Tau)"
| "pthread_mutex_lock_timeout_np now tid v (LT_rsleep abstime mtype shared oldv) =
     (v, LT_rsleep abstime mtype shared oldv, Tau)"
| "pthread_mutex_lock_timeout_np now tid v (LT_ret r) = (v, LT_ret r, Tau)"

section \<open>Threads sharing one mutex\<close>

datatype tpc =
    Outside int
  | InLock lk_pc
  | InUnlock ul_pc
  | InTrylock tl_pc
  | InTimed lt_pc

fun thread_exec :: "timespec \<Rightarrow> tid \<Rightarrow> u32 \<Rightarrow> tpc \<Rightarrow> u32 \<times> tpc \<times> mevent" where
  "thread_exec now tid v (Outside r) = (v, Outside r, Tau)"
| "thread_exec now tid v (InLock (LK_ret r)) = (v, Outside r, Tau)"
| "thread_exec now tid v (InLock pc) =
     (case pthread_mutex_lock tid v pc of (v', pc', e) \<Rightarrow> (v', InLock pc', e))"
| "thread_exec now tid v (InUnlock (UL_ret r)) = (v, Outside r, Tau)"
| "thread_exec now tid v (InUnlock pc) =
     (case pthread_mutex_unlock tid v pc of (v', pc', e) \<Rightarrow> (v', InUnlock pc', e))"
| "thread_exec now tid v (InTrylock (TL_ret r)) = (v, Outside r, Tau)"
| "thread_exec now tid v (InTrylock pc) =
     (case pthread_mutex_trylock tid v pc of (v', pc', e) \<Rightarrow> (v', InTrylock pc', e))"
| "thread_exec now tid v (InTimed (LT_ret r)) = (v, Outside r, Tau)"
| "thread_exec now tid v (InTimed pc) =
     (case pthread_mutex_lock_timeout_np now tid v pc of (v', pc', e) \<Rightarrow> (v', InTimed pc', e))"

text \<open>Where a thread asleep on the futex continues when the system call returns.\<close>

fun futex_return :: "tpc \<Rightarrow> tpc option" where
  "futex_return (InLock (LK_normal (NL_sleep sh))) = Some (InLock (LK_normal (NL_swap sh)))"
| "futex_return (InLock (LK_sleep mt sh oldv)) = Some (InLock (LK_try mt sh 2))"
| "futex_return (InTimed (LT_sleep ab sh)) = Some (InTimed (LT_swap ab sh))"
| "futex_return (InTimed (LT_rsleep ab mt sh oldv)) = Some (InTimed (LT_try ab mt sh 2))"
| "futex_return pc = None"

definition asleep :: "tpc \<Rightarrow> bool" where
  "asleep pc \<longleftrightarrow> futex_return pc \<noteq> None"

end
