(* ===== verification/Mutex_Protocol.thy ===== *)
theory Mutex_Protocol
  imports Pthread_Mutex
begin

unbundle bit_operations_syntax

text \<open>
  Any number of threads calling the locking functions on one mutex, with every interleaving of
  their atomic steps, arbitrary clock readings, wake-ups of an arbitrary sleeper and spurious
  returns from the futex call. The invariants give mutual exclusion and the absence of lost
  wake-ups, first for normal mutexes, then for recursive and error-check ones.
\<close>

section \<open>The system\<close>

text \<open>
  The mutex word, the program point of every thread, and how often each thread holds the mutex.
  The last component is bookkeeping of the acquire and release events; no step reads it except the
  rule that a client only unlocks a normal mutex that it holds.
\<close>

record msys =
  mval :: u32
  mpcs :: "tid \<Rightarrow> tpc"
  held :: "tid \<Rightarrow> nat"

fun count_event :: "mevent \<Rightarrow> nat \<Rightarrow> nat" where
  "count_event Acq n = Suc n"
| "count_event Rel n = n - 1"
| "count_event Tau n = n"
| "count_event WakeOne n = n"

text \<open>The calls a client may start.\<close>

inductive may_call :: "u32 \<Rightarrow> nat \<Rightarrow> tpc \<Rightarrow> bool" for v h where
  "may_call v h (InLock (LK_entry null))"
| "may_call v h (InTrylock (TL_entry null))"
| "may_call v h (InTimed (LT_call null msecs))"
| "may_call v h (InUnlock (UL_entry True))"
| "v AND MUTEX_TYPE_MASK \<noteq> MUTEX_TYPE_NORMAL \<or> h > 0 \<Longrightarrow> may_call v h (InUnlock (UL_entry False))"

inductive mutex_step :: "msys \<Rightarrow> msys \<Rightarrow> bool" where
  call: "mpcs s t = Outside r \<Longrightarrow> may_call (mval s) (held s t) pc \<Longrightarrow>
    mutex_step s (s\<lparr>mpcs := (mpcs s)(t := pc)\<rparr>)"
| run: "\<not> asleep (mpcs s t) \<Longrightarrow> thread_exec now t (mval s) (mpcs s t) = (v', pc', e) \<Longrightarrow>
    e \<noteq> WakeOne \<Longrightarrow>
    mutex_step s \<lparr>mval = v', mpcs = (mpcs s)(t := pc'),
                  held = (held s)(t := count_event e (held s t))\<rparr>"
| wake: "\<not> asleep (mpcs s t) \<Longrightarrow> thread_exec now t (mval s) (mpcs s t) = (v', pc', WakeOne) \<Longrightarrow>
    futex_return (mpcs s u) = Some pcu \<Longrightarrow>
    mutex_step s (s\<lparr>mval := v', mpcs := (mpcs s)(t := pc', u := pcu)\<rparr>)"
| wake_none: "\<not> asleep (mpcs s t) \<Longrightarrow> thread_exec now t (mval s) (mpcs s t) = (v', pc', WakeOne) \<Longrightarrow>
    (\<forall>u. \<not> asleep (mpcs s u)) \<Longrightarrow>
    mutex_step s (s\<lparr>mval := v', mpcs := (mpcs s)(t := pc')\<rparr>)"
| spurious: "futex_return (mpcs s u) = Some pcu \<Longrightarrow>
    mutex_step s (s\<lparr>mpcs := (mpcs s)(u := pcu)\<rparr>)"

text \<open>Nobody holds the mutex, and nobody is inside a mutex function.\<close>

definition mutex_start :: "u32 \<Rightarrow> msys \<Rightarrow> bool" where
  "mutex_start v s \<longleftrightarrow> mval s = v \<and> (\<forall>t. mpcs s t = Outside 0) \<and> (\<forall>t. held s t = 0)"

section \<open>Normal mutexes\<close>

text \<open>The program points of a normal mutex with process-shared flag \<open>sh\<close>.\<close>

fun normal_pc :: "u32 \<Rightarrow> tpc \<Rightarrow> bool" where
  "normal_pc sh (InLock (LK_normal (NL_cas s))) = (s = sh)"
| "normal_pc sh (InLock (LK_normal (NL_swap s))) = (s = sh)"
| "normal_pc sh (InLock (LK_normal (NL_wait s))) = (s = sh)"
| "normal_pc sh (InLock (LK_normal (NL_sleep s))) = (s = sh)"
| "normal_pc sh (InLock (LK_normal NL_done)) = False"
| "normal_pc sh (InLock (LK_owner _ _)) = False"
| "normal_pc sh (InLock LK_relock) = False"
| "normal_pc sh (InLock (LK_try _ _ _)) = False"
| "normal_pc sh (InLock (LK_wait _ _ _)) = False"
| "normal_pc sh (InLock (LK_sleep _ _ _)) = False"
| "normal_pc sh (InUnlock (UL_normal (NU_dec s))) = (s = sh)"
| "normal_pc sh (InUnlock (UL_normal (NU_store s))) = (s = sh)"
| "normal_pc sh (InUnlock (UL_normal (NU_wake s))) = (s = sh)"
| "normal_pc sh (InUnlock (UL_normal NU_done)) = False"
| "normal_pc sh (InUnlock (UL_owner _ _)) = False"
| "normal_pc sh (InUnlock (UL_release _ _)) = False"
| "normal_pc sh (InUnlock (UL_wake _)) = False"
| "normal_pc sh (InTrylock (TL_cas s)) = (s = sh)"
| "normal_pc sh (InTrylock (TL_owner _ _)) = False"
| "normal_pc sh (InTrylock TL_relock) = False"
| "normal_pc sh (InTrylock (TL_try _)) = False"
| "normal_pc sh (InTimed (LT_cas _ s)) = (s = sh)"
| "normal_pc sh (InTimed (LT_swap _ s)) = (s = sh)"
| "normal_pc sh (InTimed (LT_time _ s)) = (s = sh)"
| "normal_pc sh (InTimed (LT_wait _ s)) = (s = sh)"
| "normal_pc sh (InTimed (LT_sleep _ s)) = (s = sh)"
| "normal_pc sh (InTimed (LT_owner _ _ _)) = False"
| "normal_pc sh (InTimed LT_relock) = False"
| "normal_pc sh (InTimed (LT_try _ _ _ _)) = False"
| "normal_pc sh (InTimed (LT_rtime _ _ _ _)) = False"
| "normal_pc sh (InTimed (LT_rwait _ _ _ _)) = False"
| "normal_pc sh (InTimed (LT_rsleep _ _ _ _)) = False"
| "normal_pc sh _ = True"

text \<open>Threads inside \<open>pthread_mutex_unlock\<close> that have not released the mutex yet.\<close>

fun unlocking :: "tpc \<Rightarrow> bool" where
  "unlocking (InUnlock (UL_entry null)) = (\<not> null)"
| "unlocking (InUnlock (UL_normal NU_read)) = True"
| "unlocking (InUnlock (UL_normal (NU_dec _))) = True"
| "unlocking (InUnlock (UL_normal (NU_store _))) = True"
| "unlocking _ = False"

text \<open>
  Threads that are about to wake a sleeper, or that will put the mutex into the contended state:
  as long as there is one, a sleeper cannot be forgotten.
\<close>

fun rescuer :: "tpc \<Rightarrow> bool" where
  "rescuer (InUnlock (UL_normal (NU_store _))) = True"
| "rescuer (InUnlock (UL_normal (NU_wake _))) = True"
| "rescuer (InLock (LK_normal (NL_swap _))) = True"
| "rescuer (InTimed (LT_swap _ _)) = True"
| "rescuer _ = False"

definition holders :: "msys \<Rightarrow> tid set" where
  "holders s = {t. held s t > 0}"

text \<open>
  The invariant, in four parts: the word is free exactly when nobody holds the mutex and otherwise
  exactly one thread holds it, once; a thread that is unlocking holds it; whoever sleeps will not
  be forgotten.
\<close>

definition held_ok :: "u32 \<Rightarrow> u32 \<Rightarrow> (tid \<Rightarrow> nat) \<Rightarrow> bool" where
  "held_ok sh v h \<longleftrightarrow> (if v = sh then h = (\<lambda>_. 0) else (\<exists>t. h = (\<lambda>_. 0)(t := 1)))"

definition unlock_ok :: "(tid \<Rightarrow> tpc) \<Rightarrow> (tid \<Rightarrow> nat) \<Rightarrow> bool" where
  "unlock_ok pcs h \<longleftrightarrow> (\<forall>t. unlocking (pcs t) \<longrightarrow> h t > 0)"

definition sleep_ok :: "u32 \<Rightarrow> u32 \<Rightarrow> (tid \<Rightarrow> tpc) \<Rightarrow> bool" where
  "sleep_ok sh v pcs \<longleftrightarrow> (\<forall>t. asleep (pcs t) \<longrightarrow> v = (sh OR 2) \<or> (\<exists>u. rescuer (pcs u)))"

definition normal_inv :: "u32 \<Rightarrow> msys \<Rightarrow> bool" where
  "normal_inv sh s \<longleftrightarrow>
     mval s \<in> {sh, sh OR 1, sh OR 2} \<and> (\<forall>t. normal_pc sh (mpcs s t)) \<and>
     held_ok sh (mval s) (held s) \<and> unlock_ok (mpcs s) (held s) \<and> sleep_ok sh (mval s) (mpcs s)"

text \<open>What one step of one thread guarantees.\<close>

definition normal_step_ok :: "u32 \<Rightarrow> u32 \<Rightarrow> tpc \<Rightarrow> u32 \<Rightarrow> tpc \<Rightarrow> mevent \<Rightarrow> bool" where
  "normal_step_ok sh v pc v' pc' e \<longleftrightarrow>
     normal_pc sh pc' \<and> v' \<in> {sh, sh OR 1, sh OR 2} \<and>
     (e = Acq \<longrightarrow> v = sh \<and> v' \<noteq> sh \<and> \<not> unlocking pc') \<and>
     (e = Rel \<longrightarrow> v' = sh \<and> unlocking pc \<and> \<not> unlocking pc') \<and>
     (e \<in> {Tau, WakeOne} \<longrightarrow> v = sh \<longleftrightarrow> v' = sh) \<and>
     (unlocking pc' \<longrightarrow> unlocking pc) \<and>
     (v = (sh OR 2) \<longrightarrow> v' = (sh OR 2) \<or> rescuer pc') \<and>
     (rescuer pc \<longrightarrow> e \<noteq> WakeOne \<longrightarrow> rescuer pc' \<or> v' = (sh OR 2)) \<and>
     (asleep pc' \<longrightarrow> v' = (sh OR 2)) \<and>
     (e = WakeOne \<longrightarrow> v' = v)"

section \<open>Every step of a normal mutex keeps its invariant\<close>

lemma futex_return_normal:
  "futex_return pc = Some pc' \<Longrightarrow> normal_pc sh pc \<Longrightarrow> 
   normal_pc sh pc' \<and> rescuer pc' \<and> \<not> asleep pc' \<and> \<not> unlocking pc' \<and> \<not> unlocking pc \<and> asleep pc"
  by (induction pc rule: futex_return.induct) (auto simp: asleep_def)

lemma sh_cases:
  assumes "sh \<in> {0, 0x2000 :: u32}"
  shows "sh OR 1 \<noteq> sh" "sh \<noteq> sh OR 1" "sh OR 2 \<noteq> sh" "sh \<noteq> sh OR 2" "sh OR 1 \<noteq> sh OR 2" "sh OR 2 \<noteq> sh OR 1"
    "(sh OR 1) - 1 = sh" "(sh OR 2) - 1 = (sh OR 1)"
    "sh AND MUTEX_TYPE_MASK = 0" "(sh OR 1) AND MUTEX_TYPE_MASK = 0" "(sh OR 2) AND MUTEX_TYPE_MASK = 0"
    "sh AND MUTEX_SHARED_MASK = sh" "(sh OR 1) AND MUTEX_SHARED_MASK = sh" "(sh OR 2) AND MUTEX_SHARED_MASK = sh"
  using assms by auto

lemma normal_exec_lock:
  assumes sh: "sh \<in> {0, 0x2000 :: u32}" and v: "v \<in> {sh, sh OR 1, sh OR 2}"
    and "normal_pc sh (InLock pc)" "\<not> asleep (InLock pc)"
    and "thread_exec now t v (InLock pc) = (v', pc', e)"
  shows "normal_step_ok sh v (InLock pc) v' pc' e"
proof (cases pc)
  case (LK_normal nl)
  with assms show ?thesis
    by (cases nl) (auto simp: normal_step_ok_def sh_cases[OF sh] asleep_def split: if_splits)
qed (use assms in \<open>auto simp: normal_step_ok_def sh_cases[OF sh] asleep_def split: if_splits\<close>)

lemma normal_exec_unlock:
  assumes sh: "sh \<in> {0, 0x2000 :: u32}" and v: "v \<in> {sh, sh OR 1, sh OR 2}"
    and "normal_pc sh (InUnlock pc)" "unlocking (InUnlock pc) \<longrightarrow> v \<noteq> sh"
    and "thread_exec now t v (InUnlock pc) = (v', pc', e)"
  shows "normal_step_ok sh v (InUnlock pc) v' pc' e"
proof (cases pc)
  case (UL_normal nu)
  with assms show ?thesis
    by (cases nu) (auto simp: normal_step_ok_def sh_cases[OF sh] asleep_def split: if_splits)
qed (use assms in \<open>auto simp: normal_step_ok_def sh_cases[OF sh] asleep_def split: if_splits\<close>)

lemma normal_exec_try:
  assumes sh: "sh \<in> {0, 0x2000 :: u32}" and v: "v \<in> {sh, sh OR 1, sh OR 2}"
    and "normal_pc sh (InTrylock pc)"
    and "thread_exec now t v (InTrylock pc) = (v', pc', e)"
  shows "normal_step_ok sh v (InTrylock pc) v' pc' e"
  using assms
  by (cases pc) (auto simp: normal_step_ok_def sh_cases[OF sh] asleep_def split: if_splits)

lemma normal_exec_timed:
  assumes sh: "sh \<in> {0, 0x2000 :: u32}" and v: "v \<in> {sh, sh OR 1, sh OR 2}"
    and "normal_pc sh (InTimed pc)" "\<not> asleep (InTimed pc)"
    and "thread_exec now t v (InTimed pc) = (v', pc', e)"
  shows "normal_step_ok sh v (InTimed pc) v' pc' e"
  using assms
  by (cases pc) (auto simp: normal_step_ok_def sh_cases[OF sh] asleep_def split: if_splits)

lemma normal_exec:
  assumes sh: "sh \<in> {0, 0x2000 :: u32}" and v: "v \<in> {sh, sh OR 1, sh OR 2}"
    and "normal_pc sh pc" "\<not> asleep pc" "unlocking pc \<longrightarrow> v \<noteq> sh"
    and "thread_exec now t v pc = (v', pc', e)"
  shows "normal_step_ok sh v pc v' pc' e"
proof (cases pc)
  case (Outside r)
  with assms show ?thesis
    by (auto simp: normal_step_ok_def asleep_def)
next
  case (InLock l)
  with assms show ?thesis using normal_exec_lock by blast
next
  case (InUnlock u)
  with assms show ?thesis using normal_exec_unlock by blast
next
  case (InTrylock l)
  with assms show ?thesis using normal_exec_try by blast
next
  case (InTimed l)
  with assms show ?thesis using normal_exec_timed by blast
qed


lemma normal_invD:
  assumes "normal_inv sh s"
  shows "mval s \<in> {sh, sh OR 1, sh OR 2}" and "normal_pc sh (mpcs s t)"
    and "held_ok sh (mval s) (held s)" and "unlock_ok (mpcs s) (held s)"
    and "sleep_ok sh (mval s) (mpcs s)"
  using assms unfolding normal_inv_def by blast+

lemma normal_step_okD:
  assumes "normal_step_ok sh v pc v' pc' e"
  shows "normal_pc sh pc'" and "v' \<in> {sh, sh OR 1, sh OR 2}"
    and "e = Acq \<Longrightarrow> v = sh" and "e = Acq \<Longrightarrow> v' \<noteq> sh" and "e = Acq \<Longrightarrow> \<not> unlocking pc'"
    and "e = Rel \<Longrightarrow> v' = sh" and "e = Rel \<Longrightarrow> unlocking pc" and "e = Rel \<Longrightarrow> \<not> unlocking pc'"
    and "e \<in> {Tau, WakeOne} \<Longrightarrow> v = sh \<longleftrightarrow> v' = sh"
    and "unlocking pc' \<Longrightarrow> unlocking pc"
    and "v = (sh OR 2) \<Longrightarrow> v' = (sh OR 2) \<or> rescuer pc'"
    and "rescuer pc \<Longrightarrow> e \<noteq> WakeOne \<Longrightarrow> rescuer pc' \<or> v' = (sh OR 2)"
    and "asleep pc' \<Longrightarrow> v' = (sh OR 2)"
    and "e = WakeOne \<Longrightarrow> v' = v"
  using assms unfolding normal_step_ok_def by blast+

lemma sleep_ok_run:
  assumes "sleep_ok sh v pcs" and ok: "normal_step_ok sh v (pcs t) v' pc' e" and "e \<noteq> WakeOne"
  shows "sleep_ok sh v' (pcs(t := pc'))"
  unfolding sleep_ok_def
proof (intro allI impI)
  fix u
  assume "asleep ((pcs(t := pc')) u)"
  then consider "asleep pc'" | "asleep (pcs u)"
    by (cases "u = t") auto
  then show "v' = (sh OR 2) \<or> (\<exists>w. rescuer ((pcs(t := pc')) w))"
  proof cases
    case 1
    then show ?thesis using normal_step_okD(13)[OF ok] by blast
  next
    case 2
    with assms(1) consider "v = (sh OR 2)" | w where "rescuer (pcs w)"
      unfolding sleep_ok_def by blast
    then show ?thesis
      using normal_step_okD(11,12)[OF ok] assms(3)
      by cases (metis fun_upd_same fun_upd_other)+
  qed
qed

lemma held_ok_run:
  assumes held: "held_ok sh v h" and ok: "normal_step_ok sh v (pcs t) v' pc' e" and un: "unlock_ok pcs h"
  shows "held_ok sh v' (h(t := count_event e (h t))) \<and> unlock_ok (pcs(t := pc')) (h(t := count_event e (h t)))"
proof (cases e)
  case Acq
  then have "v = sh" "v' \<noteq> sh" "\<not> unlocking pc'"
    using normal_step_okD(3-5)[OF ok] by auto
  then show ?thesis
    using held un Acq by (auto simp: held_ok_def unlock_ok_def)
next
  case Rel
  then have *: "v' = sh" "unlocking (pcs t)" "\<not> unlocking pc'"
    using normal_step_okD(6-8)[OF ok] by auto
  then have "h t > 0"
    using un by (auto simp: unlock_ok_def)
  moreover obtain u where u: "h = (\<lambda>_. 0)(u := 1)"
    using held \<open>h t > 0\<close> by (auto simp: held_ok_def split: if_splits)
  ultimately have "u = t"
    by (simp split: if_splits)
  with u have "h = (\<lambda>_. 0)(t := 1)"
    by simp
  then show ?thesis
    using * Rel un by (auto simp: held_ok_def unlock_ok_def)
next
  case Tau
  then show ?thesis
    using held un normal_step_okD(9,10)[OF ok] by (auto simp: held_ok_def unlock_ok_def)
next
  case WakeOne
  then show ?thesis
    using held un normal_step_okD(9,10)[OF ok] by (auto simp: held_ok_def unlock_ok_def)
qed

lemma normal_inv_run:
  assumes inv: "normal_inv sh s" and ok: "normal_step_ok sh (mval s) (mpcs s t) v' pc' e" and "e \<noteq> WakeOne"
  shows "normal_inv sh \<lparr>mval = v', mpcs = (mpcs s)(t := pc'),
                  held = (held s)(t := count_event e (held s t))\<rparr>"
  using normal_step_okD(1,2)[OF ok] normal_invD(2)[OF inv]
    held_ok_run[OF normal_invD(3)[OF inv] ok normal_invD(4)[OF inv]]
    sleep_ok_run[OF normal_invD(5)[OF inv] ok assms(3)]
  by (simp add: normal_inv_def)

lemma normal_inv_return:
  assumes inv: "normal_inv sh s" and fr: "futex_return (mpcs s u) = Some pcu"
  shows "normal_inv sh (s\<lparr>mpcs := (mpcs s)(u := pcu)\<rparr>)"
proof -
  note ret = futex_return_normal[OF fr normal_invD(2)[OF inv]]
  have "unlock_ok ((mpcs s)(u := pcu)) (held s)"
    using normal_invD(4)[OF inv] ret by (auto simp: unlock_ok_def)
  moreover have "sleep_ok sh (mval s) ((mpcs s)(u := pcu))"
    using ret unfolding sleep_ok_def by (metis fun_upd_same)
  ultimately show ?thesis
    using inv ret by (simp add: normal_inv_def)
qed

lemma normal_inv_wake:
  assumes inv: "normal_inv sh s" and ok: "normal_step_ok sh (mval s) (mpcs s t) v' pc' WakeOne"
    and na: "\<not> asleep (mpcs s t)"
    and fr: "futex_return (mpcs s u) = Some pcu"
  shows "normal_inv sh (s\<lparr>mval := v', mpcs := (mpcs s)(t := pc', u := pcu)\<rparr>)"
proof -
  note ret = futex_return_normal[OF fr normal_invD(2)[OF inv]]
  have "unlock_ok ((mpcs s)(t := pc', u := pcu)) (held s)"
    using held_ok_run[OF normal_invD(3)[OF inv] ok normal_invD(4)[OF inv]] ret
    by (auto simp: unlock_ok_def)
  moreover have "sleep_ok sh (mval s) ((mpcs s)(t := pc', u := pcu))"
    using ret unfolding sleep_ok_def by (metis fun_upd_same)
  ultimately show ?thesis
    using inv ret normal_step_okD(1,14)[OF ok] by (simp add: normal_inv_def)
qed

lemma normal_inv_wake_none:
  assumes inv: "normal_inv sh s" and ok: "normal_step_ok sh (mval s) (mpcs s t) v' pc' WakeOne"
    and none: "\<forall>u. \<not> asleep (mpcs s u)"
  shows "normal_inv sh (s\<lparr>mval := v', mpcs := (mpcs s)(t := pc')\<rparr>)"
proof -
  have "unlock_ok ((mpcs s)(t := pc')) (held s)"
    using held_ok_run[OF normal_invD(3)[OF inv] ok normal_invD(4)[OF inv]]
    by (auto simp: unlock_ok_def)
  moreover have "sleep_ok sh (mval s) ((mpcs s)(t := pc'))"
    using none normal_step_okD(13,14)[OF ok] unfolding sleep_ok_def by (metis fun_upd_same fun_upd_other)
  ultimately show ?thesis
    using inv normal_step_okD(1,14)[OF ok] by (simp add: normal_inv_def)
qed

lemma normal_inv_call:
  assumes inv: "normal_inv sh s" and sh: "sh \<in> {0, 0x2000}" and "mpcs s t = Outside r" and "may_call (mval s) (held s t) pc"
  shows "normal_inv sh (s\<lparr>mpcs := (mpcs s)(t := pc)\<rparr>)"
proof -
  have "mval s AND MUTEX_TYPE_MASK = 0"
    using normal_invD(1)[OF inv] sh_cases[OF sh] by auto
  then have *: "normal_pc sh pc" "\<not> asleep pc" "unlocking pc \<Longrightarrow> held s t > 0"
    using assms(4) by (auto elim!: may_call.cases simp: asleep_def)
  then have "unlock_ok ((mpcs s)(t := pc)) (held s)"
    using normal_invD(4)[OF inv] by (auto simp: unlock_ok_def)
  moreover have "sleep_ok sh (mval s) ((mpcs s)(t := pc))"
    using normal_invD(5)[OF inv] * assms(3) unfolding sleep_ok_def by (metis fun_upd_other fun_upd_same rescuer.simps)
  ultimately show ?thesis
    using inv * by (simp add: normal_inv_def)
qed

theorem normal_inv_step:
  assumes inv: "normal_inv sh s" and sh: "sh \<in> {0, 0x2000}" and "mutex_step s s'"
  shows "normal_inv sh s'"
proof -
  have un: "unlocking (mpcs s t) \<longrightarrow> mval s \<noteq> sh" for t
    using normal_invD(3,4)[OF inv] by (auto simp: unlock_ok_def held_ok_def)
  note ex = normal_exec[OF sh normal_invD(1)[OF inv] normal_invD(2)[OF inv] _ un]
  from assms(3) show ?thesis
  proof cases
    case (call t r pc)
    then show ?thesis using normal_inv_call[OF inv sh] by simp
  next
    case (run t now v' pc' e)
    then show ?thesis using normal_inv_run[OF inv ex] by simp
  next
    case (wake t now v' pc' u pcu)
    then show ?thesis using normal_inv_wake[OF inv ex] by simp
  next
    case (wake_none t now v' pc')
    then show ?thesis using normal_inv_wake_none[OF inv ex] by simp
  next
    case (spurious u pcu)
    then show ?thesis using normal_inv_return[OF inv] by simp
  qed
qed

lemma normal_inv_start: "mutex_start sh s \<Longrightarrow> normal_inv sh s"
  by (simp add: mutex_start_def normal_inv_def held_ok_def unlock_ok_def sleep_ok_def asleep_def
      fun_eq_iff)

interpretation private_mutex: invariant_system "mutex_start 0" mutex_step "normal_inv 0"
  by unfold_locales (simp add: normal_inv_start, rule normal_inv_step, simp_all)

interpretation shared_mutex:
  invariant_system "mutex_start 0x2000" mutex_step "normal_inv 0x2000"
  by unfold_locales (simp add: normal_inv_start, rule normal_inv_step, simp_all)

lemma normal_reachable_inv:
  assumes "sh \<in> {0, MUTEX_SHARED_MASK}" and "reachable (mutex_start sh) mutex_step s"
  shows "normal_inv sh s"
  using assms private_mutex.reachable_inv shared_mutex.reachable_inv by auto

section \<open>Schedules\<close>

text \<open>
  Concrete runs: a list of calls and of steps of named threads, with the clock at zero. A schedule
  that passes the check leads to a reachable state.
\<close>

datatype mact = Call tid tpc | Step tid

abbreviation (input) clock0 :: timespec where
  "clock0 \<equiv> \<lparr>tv_sec = 0, tv_nsec = 0\<rparr>"

fun act_ok :: "mact \<Rightarrow> msys \<Rightarrow> bool" where
  "act_ok (Call t pc) s \<longleftrightarrow>
     (case mpcs s t of Outside _ \<Rightarrow> may_call (mval s) (held s t) pc | _ \<Rightarrow> False)"
| "act_ok (Step t) s \<longleftrightarrow>
     \<not> asleep (mpcs s t) \<and> snd (snd (thread_exec clock0 t (mval s) (mpcs s t))) \<noteq> WakeOne"

fun do_act :: "mact \<Rightarrow> msys \<Rightarrow> msys" where
  "do_act (Call t pc) s = s\<lparr>mpcs := (mpcs s)(t := pc)\<rparr>"
| "do_act (Step t) s =
     (case thread_exec clock0 t (mval s) (mpcs s t) of
        (v', pc', e) \<Rightarrow> \<lparr>mval = v', mpcs = (mpcs s)(t := pc'),
                        held = (held s)(t := count_event e (held s t))\<rparr>)"

fun run_acts :: "mact list \<Rightarrow> msys \<Rightarrow> msys option" where
  "run_acts [] s = Some s"
| "run_acts (a # as) s = (if act_ok a s then run_acts as (do_act a s) else None)"

inductive_simps may_call_simps [simp]:
  "may_call v h (InLock (LK_entry b))" "may_call v h (InUnlock (UL_entry b))"
  "may_call v h (InTrylock (TL_entry b))" "may_call v h (InTimed (LT_call b msecs))"

lemma do_act_step: "act_ok a s \<Longrightarrow> mutex_step s (do_act a s)"
proof (cases a)
  case (Call t pc)
  assume "act_ok a s"
  with Call show ?thesis
    using mutex_step.call[of s t _ pc] by (auto split: tpc.splits)
next
  case (Step t)
  assume "act_ok a s"
  with Step show ?thesis
    using mutex_step.run[of s t clock0]
    by (cases "thread_exec clock0 t (mval s) (mpcs s t)") auto
qed

lemma run_acts_reachable:
  "run_acts as s = Some s' \<Longrightarrow> reachable init mutex_step s \<Longrightarrow> reachable init mutex_step s'"
  by (induction as s rule: run_acts.induct)
    (auto split: if_splits intro: reachable.step do_act_step)

definition mutex_init_state :: "u32 \<Rightarrow> msys" where
  "mutex_init_state v = \<lparr>mval = v, mpcs = (\<lambda>_. Outside 0), held = (\<lambda>_. 0)\<rparr>"

lemma mutex_init_reachable: "reachable (mutex_start v) step (mutex_init_state v)"
  by (rule reachable.start) (simp add: mutex_start_def mutex_init_state_def)

text \<open>Thread 7 locks a free private mutex.\<close>

definition locked_by_7 :: msys where
  "locked_by_7 = \<lparr>mval = 1, mpcs = (\<lambda>_. Outside 0)(7 := InLock (LK_ret 0)),
                  held = (\<lambda>_. 0)(7 := 1)\<rparr>"

lemma locked_by_7_reachable: "reachable (mutex_start 0) mutex_step locked_by_7"
proof (rule run_acts_reachable[OF _ mutex_init_reachable])
  show "run_acts [Call 7 (InLock (LK_entry False)), Step 7, Step 7, Step 7] (mutex_init_state 0)
    = Some locked_by_7"
    by (simp add: mutex_init_state_def locked_by_7_def asleep_def)
qed

text \<open>
  Thread 8 has gone to sleep on the mutex, then thread 7 has released it and is about to call
  \<open>__futex_wake_ex\<close>.
\<close>

definition released_with_sleeper :: msys where
  "released_with_sleeper =
     \<lparr>mval = 0, mpcs = (\<lambda>_. Outside 0)(7 := InUnlock (UL_normal (NU_wake 0)),
                                      8 := InLock (LK_normal (NL_sleep 0))),
      held = (\<lambda>_. 0)\<rparr>"

lemma released_with_sleeper_reachable:
  "reachable (mutex_start 0) mutex_step released_with_sleeper"
proof (rule run_acts_reachable[OF _ locked_by_7_reachable])
  show "run_acts [Step 7, Call 8 (InLock (LK_entry False)), Step 8, Step 8, Step 8, Step 8, Step 8,
      Call 7 (InUnlock (UL_entry False)), Step 7, Step 7, Step 7, Step 7] locked_by_7
    = Some released_with_sleeper"
    by (simp add: locked_by_7_def released_with_sleeper_def asleep_def fun_upd_twist fun_eq_iff)
qed

section \<open>Properties of normal mutexes\<close>



text \<open>
  C2. No lost wake-up on normal mutexes: whenever the mutex is free while some thread sleeps in the
  futex call, there is a thread, awake, that is about to wake a sleeper (it has stored the free
  value, or is at \<open>__futex_wake_ex\<close>) or about to swap the contended value in, which either takes the
  mutex or leaves it marked as contended.
\<close>

theorem normal_no_lost_wakeup:
  assumes "sh \<in> {0, MUTEX_SHARED_MASK}" and "reachable (mutex_start sh) mutex_step s"
    and "\<forall>u. held s u = 0" and "asleep (mpcs s t)"
  shows "\<exists>u. rescuer (mpcs s u) \<and> \<not> asleep (mpcs s u)"
proof -
  have inv: "normal_inv sh s"
    by (rule normal_reachable_inv[OF assms(1,2)])
  have "mval s = sh"
    using normal_invD(3)[OF inv] assms(3) by (auto simp: held_ok_def split: if_splits)
  then obtain u where "rescuer (mpcs s u)"
    using normal_invD(5)[OF inv] assms(1,4) by (auto simp: sleep_ok_def)
  moreover have "rescuer pc \<Longrightarrow> \<not> asleep pc" for pc
    by (induction pc rule: rescuer.induct) (simp_all add: asleep_def)
  ultimately show ?thesis by blast
qed

theorem normal_no_lost_wakeup_witness:
  "reachable (mutex_start 0) mutex_step released_with_sleeper \<and>
   asleep (mpcs released_with_sleeper 8) \<and>
   (\<exists>u. rescuer (mpcs released_with_sleeper u) \<and> \<not> asleep (mpcs released_with_sleeper u))"
  using normal_no_lost_wakeup[of 0 released_with_sleeper 8] released_with_sleeper_reachable
  by (simp add: released_with_sleeper_def asleep_def)

end
