(* ===== verification/Recursive_Mutex.thy ===== *)
theory Recursive_Mutex
  imports Mutex_Protocol
begin

unbundle bit_operations_syntax

text \<open>
  Recursive and error-check mutexes of \<open>libc/bionic/pthread.c\<close>: the bit layout of the word, the
  regions under the global lock, and the same system of threads as for normal mutexes, now started
  on a mutex of these types. The clients are thread ids of at most 16 bits that nest at most 2048
  calls; what happens beyond these bounds is stated separately.
\<close>

section \<open>The layout of an owned mutex word\<close>

text \<open>
  The word of a recursive or error-check mutex with free value \<open>F\<close> (type and shared flag), owner \<open>t\<close>,
  recursion counter \<open>c\<close> and lock state \<open>st\<close>.
\<close>

definition rword :: "tid \<Rightarrow> u32 \<Rightarrow> u32 \<Rightarrow> u32 \<Rightarrow> u32" where
  "rword t F c st = push_bit 16 t OR F OR push_bit 2 c OR st"

abbreviation (input) rec_free :: "u32 set" where
  "rec_free \<equiv> {0x4000, 0x8000, 0x6000, 0xA000}"

definition valid_tid :: "tid \<Rightarrow> bool" where
  "valid_tid t \<longleftrightarrow> 0 < t \<and> t < 0x10000"

lemma rword_owner:
  assumes "t < 0x10000" "F \<in> rec_free" "c < 0x800" "st \<in> {1, 2}"
  shows "MUTEX_OWNER (rword t F c st) = t"
proof (rule bit_word_eqI)
  fix n assume "n < LENGTH(32)"
  then show "bit (MUTEX_OWNER (rword t F c st)) n = bit t n"
    using assms
    by (auto simp: MUTEX_OWNER_def rword_def bit_simps mask_bits dest: bit_lt_0x10000 bit_lt_0x800)
qed

lemma rword_state:
  assumes "F \<in> rec_free" "st \<in> {1, 2}"
  shows "rword t F c st AND 3 = st"
proof (rule bit_word_eqI)
  fix n assume "n < LENGTH(32)"
  then show "bit (rword t F c st AND 3) n = bit st n"
    using assms by (auto simp: rword_def bit_simps mask_bits)
qed

lemma rword_promote:
  assumes "F \<in> rec_free"
  shows "rword t F c 1 XOR 3 = rword t F c 2"
proof (rule bit_word_eqI)
  fix n assume "n < LENGTH(32)"
  then show "bit (rword t F c 1 XOR 3) n = bit (rword t F c 2) n"
    using assms by (auto simp: rword_def bit_simps mask_bits)
qed

lemma rword_counter:
  assumes "F \<in> rec_free" "st \<in> {1, 2}" "c < 0x800"
  shows "rword t F c st AND MUTEX_COUNTER_MASK = push_bit 2 c"
proof (rule bit_word_eqI)
  fix n assume "n < LENGTH(32)"
  then show "bit (rword t F c st AND MUTEX_COUNTER_MASK) n = bit (push_bit 2 c) n"
    using assms by (auto simp: rword_def bit_simps mask_bits dest: bit_lt_0x800)
qed

lemma rword_clear_counter:
  assumes "F \<in> rec_free" "st \<in> {1, 2}" "c < 0x800" "c' < 0x800"
  shows "(rword t F c st AND NOT MUTEX_COUNTER_MASK) OR push_bit 2 c' = rword t F c' st"
proof (rule bit_word_eqI)
  fix n assume "n < LENGTH(32)"
  then show "bit ((rword t F c st AND NOT MUTEX_COUNTER_MASK) OR push_bit 2 c') n = bit (rword t F c' st) n"
    using assms by (auto simp: rword_def bit_simps mask_bits dest: bit_lt_0x800)
qed

lemma rword_fields:
  assumes "F \<in> rec_free" "st \<in> {1, 2}" "c < 0x800"
  shows "rword t F c st AND MUTEX_TYPE_MASK = F AND MUTEX_TYPE_MASK"
    and "rword t F c st AND MUTEX_SHARED_MASK = F AND MUTEX_SHARED_MASK"
  using assms
  by (auto intro!: bit_word_eqI simp: rword_def bit_simps mask_bits dest: bit_lt_0x800)

lemma rec_free_fields:
  assumes "F \<in> rec_free"
  shows "F AND MUTEX_TYPE_MASK \<in> {MUTEX_TYPE_RECURSIVE, MUTEX_TYPE_ERRORCHECK}"
    and "F AND 3 = 0" and "MUTEX_OWNER F = 0"
    and "(F AND MUTEX_TYPE_MASK) OR (F AND MUTEX_SHARED_MASK) = F"
    and "(F AND MUTEX_SHARED_MASK) OR (F AND MUTEX_TYPE_MASK) = F"
  using assms by (auto simp: MUTEX_OWNER_def)

lemma rword_sum:
  assumes "F \<in> rec_free" "st \<in> {1, 2}" "c < 0x800"
  shows "rword t F c st = push_bit 16 t + F + push_bit 2 c + st"
proof -
  have "push_bit 16 t AND F = 0"
    using assms by (auto intro!: bit_word_eqI simp: bit_simps mask_bits)
  then have 1: "push_bit 16 t OR F = push_bit 16 t + F"
    by (simp add: disjunctive_add_eq_or)
  have "(push_bit 16 t OR F) AND push_bit 2 c = 0"
    using assms by (auto intro!: bit_word_eqI simp: bit_simps mask_bits dest!: bit_lt_0x800)
  then have 2: "push_bit 16 t OR F OR push_bit 2 c = push_bit 16 t + F + push_bit 2 c"
    by (simp add: disjunctive_add_eq_or 1 or.assoc[symmetric])
  have "(push_bit 16 t OR F OR push_bit 2 c) AND st = 0"
    using assms by (auto intro!: bit_word_eqI simp: bit_simps mask_bits)
  then have "(push_bit 16 t OR F OR push_bit 2 c) OR st = (push_bit 16 t OR F OR push_bit 2 c) + st"
    by (simp only: disjunctive_add_eq_or)
  then show ?thesis
    unfolding 2 rword_def by (simp only: or.assoc flip: 2)
qed

lemma push_bit_2_Suc: "push_bit 2 (c + 1 :: u32) = push_bit 2 c + 4"
  by (simp add: push_bit_eq_mult algebra_simps)

lemma rword_dec:
  assumes "F \<in> rec_free" "st \<in> {1, 2}" "c < 0x800" "c \<noteq> 0"
  shows "rword t F c st - push_bit 2 1 = rword t F (c - 1) st"
proof -
  have "c - 1 < 0x800" using assms(3,4) by (metis less_trans measure_unat word_less_nat_alt)
  then show ?thesis
    using push_bit_2_Suc[of "c - 1"] assms by (simp add: rword_sum)
qed

lemma rword_relock:
  assumes "F \<in> rec_free" "st \<in> {1, 2}" "c < 0x7ff"
  shows "recursive_relock (rword t F c st) = rword t F (c + 1) st"
proof -
  have c: "c < 0x800" using assms(3) by (rule less_trans) simp
  have c1: "c + 1 < 0x800" using assms(3) 
     by (simp add: word_less_nat_alt unat_word_ariths)
  have "rword t F c st + push_bit 2 1 = rword t F (c + 1) st"
    using assms c c1 by (simp add: rword_sum push_bit_2_Suc)
  then show ?thesis
    using rword_clear_counter[OF assms(1,2) c c1, of t] rword_counter[OF assms(1,2) c1, of t]
    by (simp add: recursive_relock_def)
qed

lemma counter_of_sum:
  fixes t k :: u32
  assumes "k < 0x10000"
  shows "(push_bit 16 t + k) AND MUTEX_COUNTER_MASK = k AND MUTEX_COUNTER_MASK"
proof -
  have "push_bit 16 t AND k = 0"
    using assms by (auto intro!: bit_word_eqI simp: bit_simps dest!: bit_lt_0x10000)
  then have "push_bit 16 t + k = push_bit 16 t OR k"
    by (simp add: disjunctive_add_eq_or)
  then show ?thesis
    by (auto intro!: bit_word_eqI simp: bit_simps mask_bits)
qed

lemma rword_relock_overflow:
  assumes "F \<in> rec_free" "st \<in> {1, 2}"
  shows "recursive_relock (rword t F 0x7ff st) = rword t F 0 st"
proof -
  have "rword t F 0x7ff st + 4 = push_bit 16 t + (F + 0x2000 + st)"
    using assms by (simp add: rword_sum)
  moreover have "F + 0x2000 + st < 0x10000" "(F + 0x2000 + st) AND MUTEX_COUNTER_MASK = 0"
    using assms by auto
  ultimately have "(rword t F 0x7ff st + 4) AND MUTEX_COUNTER_MASK = 0"
    by (simp only: counter_of_sum)
  then show ?thesis
    using rword_clear_counter[of F st "0x7ff" 0 t] assms by (auto simp: recursive_relock_def)
qed

lemma rword_not_free:
  assumes "F \<in> rec_free" "F' \<in> rec_free" "st \<in> {1, 2}"
  shows "rword t F c st \<noteq> F'"
proof -
  have "rword t F c st AND 3 \<noteq> F' AND 3"
    using assms rword_state[of F st t c] rec_free_fields(2)[of F'] by auto
  then show ?thesis by auto
qed

lemma rword_acquire: "push_bit 16 t OR F OR st = rword t F 0 st"
  by (simp add: rword_def)

section \<open>The invariant\<close>

fun rec_pc :: "u32 \<Rightarrow> tpc \<Rightarrow> bool" where
  "rec_pc F (InLock (LK_normal _)) = False"
| "rec_pc F (InLock (LK_owner mt sh)) = (mt = F AND MUTEX_TYPE_MASK \<and> sh = F AND MUTEX_SHARED_MASK)"
| "rec_pc F (InLock (LK_try mt sh nlt)) = (mt = F \<and> nlt \<in> {1, 2})"
| "rec_pc F (InLock (LK_wait mt sh oldv)) = (mt = F \<and> oldv AND 3 = 2)"
| "rec_pc F (InLock (LK_sleep mt sh oldv)) = (mt = F \<and> oldv AND 3 = 2)"
| "rec_pc F (InUnlock (UL_normal _)) = False"
| "rec_pc F (InUnlock (UL_owner mt sh)) =
     (mt = F AND MUTEX_TYPE_MASK \<and> sh = F AND MUTEX_SHARED_MASK)"
| "rec_pc F (InUnlock (UL_release mt sh)) =
     (mt = F AND MUTEX_TYPE_MASK \<and> sh = F AND MUTEX_SHARED_MASK)"
| "rec_pc F (InTrylock (TL_cas _)) = False"
| "rec_pc F (InTrylock (TL_owner mt sh)) =
     (mt = F AND MUTEX_TYPE_MASK \<and> sh = F AND MUTEX_SHARED_MASK)"
| "rec_pc F (InTrylock (TL_try mt)) = (mt = F)"
| "rec_pc F (InTimed (LT_cas _ _)) = False"
| "rec_pc F (InTimed (LT_swap _ _)) = False"
| "rec_pc F (InTimed (LT_time _ _)) = False"
| "rec_pc F (InTimed (LT_wait _ _)) = False"
| "rec_pc F (InTimed (LT_sleep _ _)) = False"
| "rec_pc F (InTimed (LT_owner _ mt sh)) =
     (mt = F AND MUTEX_TYPE_MASK \<and> sh = F AND MUTEX_SHARED_MASK)"
| "rec_pc F (InTimed (LT_try _ mt sh nlt)) = (mt = F \<and> nlt \<in> {1, 2})"
| "rec_pc F (InTimed (LT_rtime _ mt sh oldv)) = (mt = F \<and> oldv AND 3 = 2)"
| "rec_pc F (InTimed (LT_rwait _ mt sh oldv)) = (mt = F \<and> oldv AND 3 = 2)"
| "rec_pc F (InTimed (LT_rsleep _ mt sh oldv)) = (mt = F \<and> oldv AND 3 = 2)"
| "rec_pc F _ = True"

text \<open>Program points only the owner can be at.\<close>

fun owner_pc :: "tpc \<Rightarrow> bool" where
  "owner_pc (InLock LK_relock) = True"
| "owner_pc (InTrylock TL_relock) = True"
| "owner_pc (InTimed LT_relock) = True"
| "owner_pc (InUnlock (UL_release _ _)) = True"
| "owner_pc _ = False"

fun rec_rescuer :: "tpc \<Rightarrow> bool" where
  "rec_rescuer (InUnlock (UL_wake _)) = True"
| "rec_rescuer (InLock (LK_try _ _ nlt)) = (nlt = 2)"
| "rec_rescuer (InTimed (LT_try _ _ _ nlt)) = (nlt = 2)"
| "rec_rescuer _ = False"

definition rec_word_ok :: "u32 \<Rightarrow> u32 \<Rightarrow> (tid \<Rightarrow> nat) \<Rightarrow> bool" where
  "rec_word_ok F v h \<longleftrightarrow>
     v = F \<and> h = (\<lambda>_. 0) \<or>
     (\<exists>t c st. valid_tid t \<and> c < 2048 \<and> st \<in> {1, 2} \<and> v = rword t F (of_nat c) st \<and>
        h = (\<lambda>_. 0)(t := Suc c))"

lemma rec_word_cases:
  assumes "rec_word_ok F v h"
  obtains (free) "v = F" "h = (\<lambda>_. 0)"
  | (owned) t c st where "valid_tid t" "c < 2048" "st \<in> {1, 2}" "v = rword t F (of_nat c) st"
      "h = (\<lambda>_. 0)(t := Suc c)"
  using assms unfolding rec_word_ok_def by blast

lemma rec_word_okI:
  assumes "valid_tid t" "c < 2048" "st \<in> {1, 2}"
  shows "rec_word_ok F (rword t F (of_nat c) st) ((\<lambda>_. 0)(t := Suc c))"
  unfolding rec_word_ok_def using assms by blast

lemma of_nat_lt_0x800: "c < 2048 \<Longrightarrow> (of_nat c :: u32) < 0x800"
  by (simp add: word_less_nat_alt unat_of_nat)

lemma of_nat_eq_0_iff_unat32: "c < 2048 \<Longrightarrow> (of_nat c :: u32) = 0 \<longleftrightarrow> c = 0"
  by (simp add: word_unat_eq_iff unat_of_nat)

lemma rec_owner:
  assumes "rec_word_ok F v h" and "F \<in> rec_free" and "valid_tid t"
  shows "t = MUTEX_OWNER v \<longleftrightarrow> h t > 0"
  using assms(1)
proof (cases rule: rec_word_cases)
  case free
  then show ?thesis
    using rec_free_fields(3)[OF assms(2)] assms(3) by (auto simp: valid_tid_def)
next
  case (owned u c st)
  then have "MUTEX_OWNER v = u"
    using rword_owner[OF _ assms(2) of_nat_lt_0x800, of u c st] by (simp add: valid_tid_def)
  then show ?thesis using owned by auto
qed

lemma rec_held_owned:
  assumes "rec_word_ok F v h" and "h t > 0"
  obtains c st where "valid_tid t" "c < 2048" "st \<in> {1, 2}" "v = rword t F (of_nat c) st"
      "h = (\<lambda>_. 0)(t := Suc c)"
  using assms(1)
proof (cases rule: rec_word_cases)
  case (owned u c st)
  then have "u = t" using assms(2) by (auto split: if_splits)
  with owned that show ?thesis by blast
qed (use assms(2) in simp)

lemma rec_relock:
  assumes "rec_word_ok F v h" and F: "F \<in> rec_free" and "h t > 0" and "h t < 2048"
  shows "rec_word_ok F (recursive_relock v) (h(t := Suc (h t))) \<and> recursive_relock v AND 3 = v AND 3"
proof -
  obtain c st where o: "valid_tid t" "c < 2048" "st \<in> {1, 2}" "v = rword t F (of_nat c) st"
      "h = (\<lambda>_. 0)(t := Suc c)"
    by (rule rec_held_owned[OF assms(1,3)])
  then have "Suc c < 2048"
    using assms(4) by simp
  then have "(of_nat c :: u32) < 0x7ff"
    by (simp add: word_less_nat_alt unat_of_nat)
  then have *: "recursive_relock v = rword t F (of_nat (Suc c)) st"
    using rword_relock[OF F o(3), of "of_nat c" t] o(4) by (simp add: add.commute)
  then show ?thesis
    using rec_word_okI[OF o(1) \<open>Suc c < 2048\<close> o(3), of F] rword_state[OF F o(3)] o(4,5)
    by (simp del: of_nat_Suc)
qed

lemma rec_release_count:
  assumes "rec_word_ok F v h" and F: "F \<in> rec_free" and "h t > 0"
    and nz: "v AND MUTEX_COUNTER_MASK \<noteq> 0"
  shows "rec_word_ok F (v - 4) (h(t := h t - 1)) \<and> (v - 4) AND 3 = v AND 3"
proof -
  obtain c st where o: "valid_tid t" "c < 2048" "st \<in> {1, 2}" "v = rword t F (of_nat c) st"
      "h = (\<lambda>_. 0)(t := Suc c)"
    by (rule rec_held_owned[OF assms(1,3)])
  have c: "(of_nat c :: u32) < 0x800" by (rule of_nat_lt_0x800[OF o(2)])
  have c0: "of_nat c \<noteq> (0 :: u32)"
    using nz rword_counter[OF F o(3) c] o(4) by auto
  then obtain d where d: "c = Suc d" by (cases c) auto
  have "v - 4 = rword t F (of_nat d) st"
    using rword_dec[OF F o(3) c c0, of t] o(4) d by simp
  then show ?thesis
    using rec_word_okI[OF o(1) _ o(3), of d F] rword_state[OF F o(3)] o d by simp
qed

lemma rec_release_last:
  assumes "rec_word_ok F v h" and F: "F \<in> rec_free" and "h t > 0"
    and z: "v AND MUTEX_COUNTER_MASK = 0"
  shows "h(t := h t - 1) = (\<lambda>_. 0)"
proof -
  obtain c st where o: "valid_tid t" "c < 2048" "st \<in> {1, 2}" "v = rword t F (of_nat c) st"
      "h = (\<lambda>_. 0)(t := Suc c)"
    by (rule rec_held_owned[OF assms(1,3)])
  have c: "(of_nat c :: u32) < 0x800" by (rule of_nat_lt_0x800[OF o(2)])
  have "push_bit 2 (of_nat c :: u32) = 0"
    using z rword_counter[OF F o(3) c] o(4) by auto
  then have "unat (push_bit 2 (of_nat c :: u32)) = 0" by simp
  then have "c = 0"
    using o(2) by (simp add: push_bit_eq_mult unat_word_ariths unat_of_nat)
  then show ?thesis using o(5) by auto
qed

lemma rec_acquire_free:
  assumes "rec_word_ok F F h" and F: "F \<in> rec_free" and "valid_tid t" and nlt: "nlt \<in> {1, 2}"
  shows "rec_word_ok F (push_bit 16 t OR F OR nlt) (h(t := Suc (h t))) \<and>
    (push_bit 16 t OR F OR nlt) AND 3 = nlt"
  using assms(1)
proof (cases rule: rec_word_cases)
  case free
  then show ?thesis
    using rec_word_okI[OF assms(3) _ nlt, of 0 F] rword_state[OF F nlt] by (simp add: rword_acquire)
next
  case (owned u c st)
  then show ?thesis using rword_not_free[OF F F owned(3)] by metis
qed

lemma rec_acquire_busy:
  assumes "rec_word_ok F v h" and F: "F \<in> rec_free" and "v \<noteq> F"
  shows "(if v AND 3 = 1 then v XOR 3 else v) AND 3 = 2"
    and "rec_word_ok F (if v AND 3 = 1 then v XOR 3 else v) h"
    and "(if v AND 3 = 1 then v XOR 3 else v) \<noteq> F"
proof -
  obtain t c st where o: "valid_tid t" "c < 2048" "st \<in> {1, 2}" "v = rword t F (of_nat c) st"
      "h = (\<lambda>_. 0)(t := Suc c)"
    using assms(1,3) by (cases rule: rec_word_cases) auto
  have "(if v AND 3 = 1 then v XOR 3 else v) = rword t F (of_nat c) 2"
    using o(3,4) rword_state[OF F o(3), of t "of_nat c"] rword_promote[OF F, of t "of_nat c"] by auto
  then show "(if v AND 3 = 1 then v XOR 3 else v) AND 3 = 2"
    and "rec_word_ok F (if v AND 3 = 1 then v XOR 3 else v) h"
    and "(if v AND 3 = 1 then v XOR 3 else v) \<noteq> F"
    using rword_state[OF F, of 2 t "of_nat c"] rec_word_okI[OF o(1,2), of 2 F] o(5)
      rword_not_free[OF F F, of 2] by auto
qed

lemma rec_word_fields:
  assumes "rec_word_ok F v h" and F: "F \<in> rec_free"
  shows "v AND MUTEX_TYPE_MASK = F AND MUTEX_TYPE_MASK"
    and "v AND MUTEX_SHARED_MASK = F AND MUTEX_SHARED_MASK"
    and "v AND MUTEX_TYPE_MASK \<noteq> 0"
proof -
  have "v AND MUTEX_TYPE_MASK = F AND MUTEX_TYPE_MASK \<and>
    v AND MUTEX_SHARED_MASK = F AND MUTEX_SHARED_MASK"
    using assms(1)
  proof (cases rule: rec_word_cases)
    case (owned t c st)
    then show ?thesis using rword_fields[OF F owned(3) of_nat_lt_0x800[OF owned(2)]] by simp
  qed simp
  moreover have "F AND MUTEX_TYPE_MASK \<noteq> 0"
    using rec_free_fields(1)[OF F] by auto
  ultimately show "v AND MUTEX_TYPE_MASK = F AND MUTEX_TYPE_MASK"
    and "v AND MUTEX_SHARED_MASK = F AND MUTEX_SHARED_MASK"
    and "v AND MUTEX_TYPE_MASK \<noteq> 0" by simp_all
qed

section \<open>Every step keeps the invariant\<close>

definition rec_step_ok ::
  "u32 \<Rightarrow> tid \<Rightarrow> (tid \<Rightarrow> nat) \<Rightarrow> u32 \<Rightarrow> tpc \<Rightarrow> u32 \<Rightarrow> tpc \<Rightarrow> mevent \<Rightarrow> bool" where
  "rec_step_ok F t h v pc v' pc' e \<longleftrightarrow>
     rec_pc F pc' \<and>
     rec_word_ok F v' (h(t := count_event e (h t))) \<and>
     (owner_pc pc' \<longrightarrow> count_event e (h t) > 0) \<and>
     (v AND 3 = 2 \<longrightarrow> v' AND 3 = 2 \<or> rec_rescuer pc') \<and>
     (rec_rescuer pc \<longrightarrow> e \<noteq> WakeOne \<longrightarrow> rec_rescuer pc' \<or> v' AND 3 = 2) \<and>
     (asleep pc' \<longrightarrow> v' AND 3 = 2) \<and>
     (e = WakeOne \<longrightarrow> v' = v)"

lemma rec_exec_lock:
  assumes F: "F \<in> rec_free" and w: "rec_word_ok F v h" and t: "valid_tid t"
    and pc: "rec_pc F (InLock pc)" "owner_pc (InLock pc) \<longrightarrow> h t > 0" "\<not> asleep (InLock pc)"
    and ex: "thread_exec now t v (InLock pc) = (v', pc', e)" and b: "count_event e (h t) \<le> 2048"
  shows "rec_step_ok F t h v (InLock pc) v' pc' e"
proof (cases pc)
  case (LK_entry null)
  then show ?thesis
    using ex w rec_word_fields[OF w F]
    by (auto simp: rec_step_ok_def asleep_def Let_def split: if_splits)
next
  case (LK_normal nl)
  then show ?thesis using pc by simp
next
  case (LK_owner mt sh)
  then show ?thesis
    using ex w rec_owner[OF w F t] pc(1) rec_free_fields(4)[OF F]
    by (auto simp: rec_step_ok_def asleep_def fun_upd_idem split: if_splits)
next
  case LK_relock
  then show ?thesis
    using ex rec_relock[OF w F, of t] pc(2) b by (auto simp: rec_step_ok_def asleep_def)
next
  case (LK_try mt sh nlt)
  show ?thesis
  proof (cases "v = F")
    case True
    then show ?thesis
      using LK_try ex pc(1) rec_acquire_free[of F h t nlt] F t w
      by (auto simp: rec_step_ok_def asleep_def recursive_acquire_def rec_free_fields(2)[OF F])
  next
    case False
    then show ?thesis
      using LK_try ex pc(1) rec_acquire_busy[OF w F False]
      by (auto simp: rec_step_ok_def asleep_def recursive_acquire_def split: if_splits)
  qed
next
  case (LK_wait mt sh oldv)
  then show ?thesis
    using ex w pc(1) by (auto simp: rec_step_ok_def asleep_def split: if_splits)
next
  case (LK_sleep mt sh oldv)
  then show ?thesis using pc(3) by (simp add: asleep_def)
next
  case (LK_ret r)
  then show ?thesis using ex w by (auto simp: rec_step_ok_def asleep_def)
qed

lemma rec_exec_timed:
  assumes F: "F \<in> rec_free" and w: "rec_word_ok F v h" and t: "valid_tid t"
    and pc: "rec_pc F (InTimed pc)" "owner_pc (InTimed pc) \<longrightarrow> h t > 0" "\<not> asleep (InTimed pc)"
    and ex: "thread_exec now t v (InTimed pc) = (v', pc', e)" and b: "count_event e (h t) \<le> 2048"
  shows "rec_step_ok F t h v (InTimed pc) v' pc' e"
proof (cases pc)
  case (LT_entry ab null)
  then show ?thesis
    using ex w rec_word_fields[OF w F]
    by (auto simp: rec_step_ok_def asleep_def Let_def split: if_splits)
next
  case (LT_owner ab mt sh)
  then show ?thesis
    using ex w rec_owner[OF w F t] pc(1) rec_free_fields(4)[OF F]
    by (auto simp: rec_step_ok_def asleep_def fun_upd_idem split: if_splits)
next
  case LT_relock
  then show ?thesis
    using ex rec_relock[OF w F, of t] pc(2) b by (auto simp: rec_step_ok_def asleep_def)
next
  case (LT_try ab mt sh nlt)
  show ?thesis
  proof (cases "v = F")
    case True
    then show ?thesis
      using LT_try ex pc(1) rec_acquire_free[of F h t nlt] F t w
      by (auto simp: rec_step_ok_def asleep_def recursive_acquire_def rec_free_fields(2)[OF F])
  next
    case False
    then show ?thesis
      using LT_try ex pc(1) rec_acquire_busy[OF w F False]
      by (auto simp: rec_step_ok_def asleep_def recursive_acquire_def split: if_splits)
  qed
qed (use ex w pc in \<open>auto simp: rec_step_ok_def asleep_def split: if_splits\<close>)

lemma rec_exec_try:
  assumes F: "F \<in> rec_free" and w: "rec_word_ok F v h" and t: "valid_tid t"
    and pc: "rec_pc F (InTrylock pc)" "owner_pc (InTrylock pc) \<longrightarrow> h t > 0"
    and ex: "thread_exec now t v (InTrylock pc) = (v', pc', e)" and b: "count_event e (h t) \<le> 2048"
  shows "rec_step_ok F t h v (InTrylock pc) v' pc' e"
proof (cases pc)
  case (TL_entry null)
  then show ?thesis
    using ex w rec_word_fields[OF w F]
    by (auto simp: rec_step_ok_def asleep_def Let_def split: if_splits)
next
  case (TL_owner mt sh)
  then show ?thesis
    using ex w rec_owner[OF w F t] pc(1) rec_free_fields(4)[OF F]
    by (auto simp: rec_step_ok_def asleep_def fun_upd_idem split: if_splits)
next
  case TL_relock
  then show ?thesis
    using ex rec_relock[OF w F, of t] pc(2) b by (auto simp: rec_step_ok_def asleep_def)
next
  case (TL_try mt)
  then show ?thesis
    using ex pc(1) rec_acquire_free[of F h t 1] F t w
    by (auto simp: rec_step_ok_def asleep_def rec_free_fields(2)[OF F] split: if_splits)
qed (use ex w pc in \<open>auto simp: rec_step_ok_def asleep_def split: if_splits\<close>)

lemma rec_exec_unlock:
  assumes F: "F \<in> rec_free" and w: "rec_word_ok F v h" and t: "valid_tid t"
    and pc: "rec_pc F (InUnlock pc)" "owner_pc (InUnlock pc) \<longrightarrow> h t > 0"
    and ex: "thread_exec now t v (InUnlock pc) = (v', pc', e)"
  shows "rec_step_ok F t h v (InUnlock pc) v' pc' e"
proof (cases pc)
  case (UL_entry null)
  then show ?thesis
    using ex w rec_word_fields[OF w F]
    by (auto simp: rec_step_ok_def asleep_def Let_def split: if_splits)
next
  case (UL_owner mt sh)
  then show ?thesis
    using ex w rec_owner[OF w F t] pc(1)
    by (auto simp: rec_step_ok_def asleep_def fun_upd_idem split: if_splits)
next
  case (UL_release mt sh)
  show ?thesis
  proof (cases "v AND MUTEX_COUNTER_MASK = 0")
    case True
    have "rec_word_ok F F (\<lambda>_. 0)" by (simp add: rec_word_ok_def)
    then show ?thesis
      using UL_release ex pc True rec_release_last[OF w F _ True, of t] rec_free_fields(5)[OF F]
      by (auto simp: rec_step_ok_def asleep_def split: if_splits)
  next
    case False
    then show ?thesis
      using UL_release ex pc rec_release_count[OF w F _ False, of t]
      by (auto simp: rec_step_ok_def asleep_def)
  qed
qed (use ex w pc in \<open>auto simp: rec_step_ok_def asleep_def split: if_splits\<close>)

lemma rec_exec:
  assumes F: "F \<in> rec_free" and w: "rec_word_ok F v h" and "(\<exists>r. pc = Outside r) \<or> valid_tid t"
    and pc: "rec_pc F pc" "owner_pc pc \<longrightarrow> h t > 0" "\<not> asleep pc"
    and ex: "thread_exec now t v pc = (v', pc', e)" and b: "count_event e (h t) \<le> 2048"
  shows "rec_step_ok F t h v pc v' pc' e"
proof (cases pc)
  case (Outside r)
  then show ?thesis using ex w by (auto simp: rec_step_ok_def asleep_def)
next
  case (InLock l)
  then have t: "valid_tid t" using assms(3) by simp
  show ?thesis
    unfolding InLock by (rule rec_exec_lock[OF F w t pc[unfolded InLock] ex[unfolded InLock] b])
next
  case (InUnlock u)
  then have t: "valid_tid t" using assms(3) by simp
  show ?thesis
    unfolding InUnlock by (rule rec_exec_unlock[OF F w t pc(1,2)[unfolded InUnlock] ex[unfolded InUnlock]])
next
  case (InTrylock l)
  then have t: "valid_tid t" using assms(3) by simp
  show ?thesis
    unfolding InTrylock by (rule rec_exec_try[OF F w t pc(1,2)[unfolded InTrylock] ex[unfolded InTrylock] b])
next
  case (InTimed l)
  then have t: "valid_tid t" using assms(3) by simp
  show ?thesis
    unfolding InTimed by (rule rec_exec_timed[OF F w t pc[unfolded InTimed] ex[unfolded InTimed] b])
qed

section \<open>The system of threads on a recursive or error-check mutex\<close>

text \<open>
  The clients the word can represent: thread ids that fit the 16 bits of the owner field, and at
  most 2048 nested acquisitions.
\<close>

definition client_ok :: "msys \<Rightarrow> bool" where
  "client_ok s \<longleftrightarrow> (\<forall>t. (\<exists>r. mpcs s t = Outside r) \<or> valid_tid t) \<and> (\<forall>t. held s t \<le> 2048)"

definition rec_step :: "msys \<Rightarrow> msys \<Rightarrow> bool" where
  "rec_step s s' \<longleftrightarrow> mutex_step s s' \<and> client_ok s'"

definition rec_sleep_ok :: "u32 \<Rightarrow> (tid \<Rightarrow> tpc) \<Rightarrow> bool" where
  "rec_sleep_ok v pcs \<longleftrightarrow> (\<forall>t. asleep (pcs t) \<longrightarrow> v AND 3 = 2 \<or> (\<exists>u. rec_rescuer (pcs u)))"

definition rec_inv :: "u32 \<Rightarrow> msys \<Rightarrow> bool" where
  "rec_inv F s \<longleftrightarrow> client_ok s \<and> rec_word_ok F (mval s) (held s) \<and> (\<forall>t. rec_pc F (mpcs s t)) \<and>
     (\<forall>t. owner_pc (mpcs s t) \<longrightarrow> held s t > 0) \<and> rec_sleep_ok (mval s) (mpcs s)"

lemma rec_invD:
  assumes "rec_inv F s"
  shows "client_ok s" and "rec_word_ok F (mval s) (held s)" and "rec_pc F (mpcs s t)"
    and "owner_pc (mpcs s t) \<Longrightarrow> held s t > 0" and "rec_sleep_ok (mval s) (mpcs s)"
  using assms unfolding rec_inv_def by blast+

lemma rec_invI:
  assumes "client_ok s" "rec_word_ok F (mval s) (held s)" "\<And>t. rec_pc F (mpcs s t)"
    "\<And>t. owner_pc (mpcs s t) \<Longrightarrow> held s t > 0" "rec_sleep_ok (mval s) (mpcs s)"
  shows "rec_inv F s"
  using assms unfolding rec_inv_def by blast

lemma rec_step_okD:
  assumes "rec_step_ok F t h v pc v' pc' e"
  shows "rec_pc F pc'" and "rec_word_ok F v' (h(t := count_event e (h t)))"
    and "owner_pc pc' \<Longrightarrow> count_event e (h t) > 0"
    and "v AND 3 = 2 \<Longrightarrow> v' AND 3 = 2 \<or> rec_rescuer pc'"
    and "rec_rescuer pc \<Longrightarrow> e \<noteq> WakeOne \<Longrightarrow> rec_rescuer pc' \<or> v' AND 3 = 2"
    and "asleep pc' \<Longrightarrow> v' AND 3 = 2" and "e = WakeOne \<Longrightarrow> v' = v"
  using assms unfolding rec_step_ok_def by blast+

lemma futex_return_rec:
  "futex_return pc = Some pc' \<Longrightarrow> rec_pc F pc \<Longrightarrow>
   rec_pc F pc' \<and> rec_rescuer pc' \<and> \<not> asleep pc' \<and> \<not> owner_pc pc' \<and> \<not> owner_pc pc"
  by (induction pc rule: futex_return.induct) (auto simp: asleep_def)

lemma rec_sleep_ok_run:
  assumes "rec_sleep_ok v pcs" and ok: "rec_step_ok F t h v (pcs t) v' pc' e" and "e \<noteq> WakeOne"
  shows "rec_sleep_ok v' (pcs(t := pc'))"
  unfolding rec_sleep_ok_def
proof (intro allI impI)
  fix u
  assume "asleep ((pcs(t := pc')) u)"
  then consider "asleep pc'" | "asleep (pcs u)"
    by (cases "u = t") auto
  then show "v' AND 3 = 2 \<or> (\<exists>w. rec_rescuer ((pcs(t := pc')) w))"
  proof cases
    case 1
    then show ?thesis using rec_step_okD(6)[OF ok] by blast
  next
    case 2
    with assms(1) consider "v AND 3 = 2" | w where "rec_rescuer (pcs w)"
      unfolding rec_sleep_ok_def by blast
    then show ?thesis
      using rec_step_okD(4,5)[OF ok] assms(3)
      by cases (metis fun_upd_same fun_upd_other)+
  qed
qed

lemma rec_inv_run:
  assumes inv: "rec_inv F s" and ok: "rec_step_ok F t (held s) (mval s) (mpcs s t) v' pc' e"
    and "e \<noteq> WakeOne"
    and s': "s' = \<lparr>mval = v', mpcs = (mpcs s)(t := pc'), held = (held s)(t := count_event e (held s t))\<rparr>"
    and "client_ok s'"
  shows "rec_inv F s'"
proof (rule rec_invI[OF \<open>client_ok s'\<close>])
  show "rec_word_ok F (mval s') (held s')"
    using rec_step_okD(2)[OF ok] s' by simp
  show "rec_pc F (mpcs s' u)" for u
    using rec_step_okD(1)[OF ok] rec_invD(3)[OF inv] s' by simp
  show "held s' u > 0" if "owner_pc (mpcs s' u)" for u
    using that rec_step_okD(3)[OF ok] rec_invD(4)[OF inv, of u] s' by (auto split: if_splits)
  show "rec_sleep_ok (mval s') (mpcs s')"
    using rec_sleep_ok_run[OF rec_invD(5)[OF inv] ok \<open>e \<noteq> WakeOne\<close>] s' by simp
qed

lemma rec_sleep_ok_rescuer: "rec_rescuer (pcs u) \<Longrightarrow> rec_sleep_ok v pcs"
  unfolding rec_sleep_ok_def by blast

lemma rec_inv_return:
  assumes inv: "rec_inv F s" and fr: "futex_return (mpcs s u) = Some pcu"
    and s': "s' = s\<lparr>mpcs := (mpcs s)(u := pcu)\<rparr>" and "client_ok s'"
  shows "rec_inv F s'"
proof (rule rec_invI[OF \<open>client_ok s'\<close>])
  note * = futex_return_rec[OF fr rec_invD(3)[OF inv]]
  show "rec_word_ok F (mval s') (held s')"
    using rec_invD(2)[OF inv] s' by simp
  show "rec_pc F (mpcs s' w)" for w
    using * rec_invD(3)[OF inv] s' by simp
  show "held s' w > 0" if "owner_pc (mpcs s' w)" for w
    using that * rec_invD(4)[OF inv, of w] s' by (auto split: if_splits)
  show "rec_sleep_ok (mval s') (mpcs s')"
    using * s' rec_sleep_ok_rescuer[of "mpcs s'" u] by simp
qed

lemma rec_inv_wake:
  assumes inv: "rec_inv F s" and ok: "rec_step_ok F t (held s) (mval s) (mpcs s t) v' pc' WakeOne"
    and fr: "futex_return (mpcs s u) = Some pcu" 
    and s': "s' = s\<lparr>mval := v', mpcs := (mpcs s)(t := pc', u := pcu)\<rparr>" and "client_ok s'"
  shows "rec_inv F s'"
proof (rule rec_invI[OF \<open>client_ok s'\<close>])
  note * = futex_return_rec[OF fr rec_invD(3)[OF inv]]
  show "rec_word_ok F (mval s') (held s')"
    using rec_step_okD(2)[OF ok] s' by simp
  show "rec_pc F (mpcs s' w)" for w
    using * rec_step_okD(1)[OF ok] rec_invD(3)[OF inv] s' by simp
  show "held s' w > 0" if "owner_pc (mpcs s' w)" for w
    using that * rec_step_okD(3)[OF ok] rec_invD(4)[OF inv, of w] s' by (auto split: if_splits)
  show "rec_sleep_ok (mval s') (mpcs s')"
    using * s' rec_sleep_ok_rescuer[of "mpcs s'" u] by simp
qed

lemma rec_inv_wake_none:
  assumes inv: "rec_inv F s" and ok: "rec_step_ok F t (held s) (mval s) (mpcs s t) v' pc' WakeOne"
    and none: "\<forall>u. \<not> asleep (mpcs s u)"
    and s': "s' = s\<lparr>mval := v', mpcs := (mpcs s)(t := pc')\<rparr>" and "client_ok s'"
  shows "rec_inv F s'"
proof (rule rec_invI[OF \<open>client_ok s'\<close>])
  show "rec_word_ok F (mval s') (held s')"
    using rec_step_okD(2)[OF ok] s' by simp
  show "rec_pc F (mpcs s' w)" for w
    using rec_step_okD(1)[OF ok] rec_invD(3)[OF inv] s' by simp
  show "held s' w > 0" if "owner_pc (mpcs s' w)" for w
    using that rec_step_okD(3)[OF ok] rec_invD(4)[OF inv, of w] s' by (auto split: if_splits)
  show "rec_sleep_ok (mval s') (mpcs s')"
    using none rec_step_okD(6)[OF ok] s' by (auto simp: rec_sleep_ok_def split: if_splits)
qed

lemma rec_inv_call:
  assumes inv: "rec_inv F s" and pc: "mpcs s t = Outside r" "may_call (mval s) (held s t) pc"
    and s': "s' = s\<lparr>mpcs := (mpcs s)(t := pc)\<rparr>" and "client_ok s'"
  shows "rec_inv F s'"
proof (rule rec_invI[OF \<open>client_ok s'\<close>])
  have *: "rec_pc F pc" "\<not> asleep pc" "\<not> owner_pc pc"
    using pc(2) by (auto elim!: may_call.cases simp: asleep_def)
  show "rec_word_ok F (mval s') (held s')"
    using rec_invD(2)[OF inv] s' by simp
  show "rec_pc F (mpcs s' w)" for w
    using * rec_invD(3)[OF inv] s' by simp
  show "held s' w > 0" if "owner_pc (mpcs s' w)" for w
    using that * rec_invD(4)[OF inv, of w] s' by (auto split: if_splits)
  show "rec_sleep_ok (mval s') (mpcs s')"
    using rec_invD(5)[OF inv] * pc(1) s' unfolding rec_sleep_ok_def
    by (simp, metis rec_rescuer.simps(4))
qed

theorem rec_inv_step:
  assumes inv: "rec_inv F s" and F: "F \<in> rec_free" and "rec_step s s'"
  shows "rec_inv F s'"
proof -
  have step: "mutex_step s s'" and ok: "client_ok s'"
    using assms(3) by (simp_all add: rec_step_def)
  have t: "(\<exists>r. mpcs s t = Outside r) \<or> valid_tid t" for t
    using rec_invD(1)[OF inv] by (simp add: client_ok_def)
  have bound: "held s' t \<le> 2048" for t
    using ok by (simp add: client_ok_def)
  have h: "held s t \<le> 2048" for t
    using rec_invD(1)[OF inv] by (simp add: client_ok_def)
  note ex = rec_exec[OF F rec_invD(2)[OF inv] t rec_invD(3)[OF inv]]
  from step show ?thesis
  proof cases
    case (call t r pc)
    then show ?thesis using rec_inv_call[OF inv _ _ call(1) ok] by blast
  next
    case (run t now v' pc' e)
    have "count_event e (held s t) \<le> 2048" using bound[of t] run(1) by simp
    then show ?thesis using rec_inv_run[OF inv ex _ run(1) ok] run rec_invD(4)[OF inv] by blast
  next
    case (wake t now v' pc' u pcu)
    then show ?thesis using rec_inv_wake[OF inv ex _ wake(1) ok] rec_invD(4)[OF inv] h by simp
  next
    case (wake_none t now v' pc')
    then show ?thesis using rec_inv_wake_none[OF inv ex _ wake_none(1) ok] rec_invD(4)[OF inv] h by simp
  next
    case (spurious u pcu)
    then show ?thesis using rec_inv_return[OF inv _ spurious(1) ok] by blast
  qed
qed

lemma rec_inv_start: "mutex_start F s \<Longrightarrow> rec_inv F s"
  by (simp add: mutex_start_def rec_inv_def client_ok_def rec_word_ok_def rec_sleep_ok_def
      asleep_def fun_eq_iff)

interpretation recursive_mutex: invariant_system "mutex_start 0x4000" rec_step "rec_inv 0x4000"
  by unfold_locales (simp add: rec_inv_start, rule rec_inv_step, simp_all)

interpretation errorcheck_mutex: invariant_system "mutex_start 0x8000" rec_step "rec_inv 0x8000"
  by unfold_locales (simp add: rec_inv_start, rule rec_inv_step, simp_all)

interpretation shared_recursive_mutex:
  invariant_system "mutex_start 0x6000" rec_step "rec_inv 0x6000"
  by unfold_locales (simp add: rec_inv_start, rule rec_inv_step, simp_all)

interpretation shared_errorcheck_mutex:
  invariant_system "mutex_start 0xA000" rec_step "rec_inv 0xA000"
  by unfold_locales (simp add: rec_inv_start, rule rec_inv_step, simp_all)

lemma rec_reachable_inv:
  assumes "F \<in> rec_free" and "reachable (mutex_start F) rec_step s"
  shows "rec_inv F s"
  using assms recursive_mutex.reachable_inv errorcheck_mutex.reachable_inv
    shared_recursive_mutex.reachable_inv shared_errorcheck_mutex.reachable_inv by auto

section \<open>Schedules of valid clients\<close>

fun act_tid :: "mact \<Rightarrow> tid" where
  "act_tid (Call t _) = t"
| "act_tid (Step t) = t"

fun run_rec_acts :: "mact list \<Rightarrow> msys \<Rightarrow> msys option" where
  "run_rec_acts [] s = Some s"
| "run_rec_acts (a # as) s =
     (if act_ok a s \<and> valid_tid (act_tid a) \<and> held (do_act a s) (act_tid a) \<le> 2048
      then run_rec_acts as (do_act a s) else None)"

lemma do_act_client:
  assumes "client_ok s" "valid_tid (act_tid a)" "held (do_act a s) (act_tid a) \<le> 2048"
  shows "client_ok (do_act a s)"
proof (cases a)
  case (Call t pc)
  with assms show ?thesis by (auto simp: client_ok_def)
next
  case (Step t)
  with assms show ?thesis by (auto simp: client_ok_def split: prod.splits)
qed

lemma run_rec_acts_reachable:
  "run_rec_acts as s = Some s' \<Longrightarrow> client_ok s \<Longrightarrow> reachable init rec_step s \<Longrightarrow>
   reachable init rec_step s'"
proof (induction as s rule: run_rec_acts.induct)
  case (2 a as s)
  then have ok: "act_ok a s" "valid_tid (act_tid a)" "held (do_act a s) (act_tid a) \<le> 2048"
    by (auto split: if_splits)
  then have "client_ok (do_act a s)"
    using do_act_client 2 by blast
  then show ?case
    using 2 ok do_act_step[OF ok(1)] by (auto simp: rec_step_def intro: reachable.step)
qed simp

text \<open>
  Thread 7 holds an error-check mutex, thread 8 sleeps on it; then 7 has released it and is about
  to wake 8.
\<close>

definition errorcheck_contended :: msys where
  "errorcheck_contended =
     \<lparr>mval = 0x78002, mpcs = (\<lambda>_. Outside 0)(8 := InLock (LK_sleep 0x8000 0 0x78002)),
      held = (\<lambda>_. 0)(7 := 1)\<rparr>"

lemma errorcheck_contended_reachable:
  "reachable (mutex_start 0x8000) rec_step errorcheck_contended"
proof (rule run_rec_acts_reachable[OF _ _ mutex_init_reachable])
  show "run_rec_acts [Call 7 (InLock (LK_entry False)), Step 7, Step 7, Step 7, Step 7,
      Call 8 (InLock (LK_entry False)), Step 8, Step 8, Step 8, Step 8] (mutex_init_state 0x8000)
    = Some errorcheck_contended"
    by (simp add: mutex_init_state_def errorcheck_contended_def asleep_def valid_tid_def
        MUTEX_OWNER_def recursive_acquire_def fun_eq_iff)
  show "client_ok (mutex_init_state 0x8000)"
    by (simp add: client_ok_def mutex_init_state_def)
qed

definition errorcheck_released :: msys where
  "errorcheck_released =
     \<lparr>mval = 0x8000, mpcs = (\<lambda>_. Outside 0)(8 := InLock (LK_sleep 0x8000 0 0x78002),
                                           7 := InUnlock (UL_wake 0)),
      held = (\<lambda>_. 0)\<rparr>"

lemma errorcheck_released_reachable:
  "reachable (mutex_start 0x8000) rec_step errorcheck_released"
proof (rule run_rec_acts_reachable[OF _ _ errorcheck_contended_reachable])
  show "run_rec_acts [Call 7 (InUnlock (UL_entry False)), Step 7, Step 7, Step 7]
      errorcheck_contended = Some errorcheck_released"
    by (simp add: errorcheck_contended_def errorcheck_released_def asleep_def valid_tid_def
        MUTEX_OWNER_def fun_eq_iff)
  show "client_ok errorcheck_contended"
    by (auto simp: client_ok_def errorcheck_contended_def valid_tid_def)
qed

text \<open>Thread 7 holds the mutex and calls \<open>pthread_mutex_lock\<close> again; thread 8 calls unlock.\<close>

definition errorcheck_misuse :: msys where
  "errorcheck_misuse =
     \<lparr>mval = 0x78001, mpcs = (\<lambda>_. Outside 0)(7 := InLock (LK_owner 0x8000 0),
                                           8 := InUnlock (UL_owner 0x8000 0)),
      held = (\<lambda>_. 0)(7 := 1)\<rparr>"

lemma errorcheck_misuse_reachable:
  "reachable (mutex_start 0x8000) rec_step errorcheck_misuse"
proof (rule run_rec_acts_reachable[OF _ _ mutex_init_reachable])
  show "run_rec_acts [Call 7 (InLock (LK_entry False)), Step 7, Step 7, Step 7, Step 7,
      Call 7 (InLock (LK_entry False)), Step 7, Call 8 (InUnlock (UL_entry False)), Step 8]
      (mutex_init_state 0x8000) = Some errorcheck_misuse"
    by (simp add: mutex_init_state_def errorcheck_misuse_def asleep_def valid_tid_def
        MUTEX_OWNER_def recursive_acquire_def fun_eq_iff)
  show "client_ok (mutex_init_state 0x8000)"
    by (simp add: client_ok_def mutex_init_state_def)
qed

section \<open>Properties of recursive and error-check mutexes\<close>



text \<open>
  C4. No lost wake-up on recursive and error-check mutexes: whenever the mutex is free while a
  thread sleeps in the futex call, some thread is about to call \<open>__futex_wake_ex\<close>, or is about to
  take the mutex or mark it as contended on the waiters' path.
\<close>

theorem recursive_no_lost_wakeup:
  assumes "F \<in> rec_free" and "reachable (mutex_start F) rec_step s"
    and "mval s = F" and "asleep (mpcs s t)"
  shows "\<exists>u. rec_rescuer (mpcs s u) \<and> \<not> asleep (mpcs s u)"
proof -
  have inv: "rec_inv F s" by (rule rec_reachable_inv[OF assms(1,2)])
  obtain u where "rec_rescuer (mpcs s u)"
    using rec_invD(5)[OF inv] assms(3,4) rec_free_fields(2)[OF assms(1)]
    by (auto simp: rec_sleep_ok_def)
  moreover have "rec_rescuer pc \<Longrightarrow> \<not> asleep pc" for pc
    by (induction pc rule: rec_rescuer.induct) (simp_all add: asleep_def)
  ultimately show ?thesis by blast
qed

theorem recursive_no_lost_wakeup_witness:
  "reachable (mutex_start 0x8000) rec_step errorcheck_released \<and>
   asleep (mpcs errorcheck_released 8) \<and> (\<exists>u. rec_rescuer (mpcs errorcheck_released u))"
proof -
  have "mval errorcheck_released = 0x8000" "asleep (mpcs errorcheck_released 8)"
    by (simp_all add: errorcheck_released_def asleep_def)
  then show ?thesis
    using recursive_no_lost_wakeup[OF _ errorcheck_released_reachable, of 8]
      errorcheck_released_reachable by blast
qed

text \<open>
  Misuse of an error-check mutex is reported exactly, under every interleaving: at its owner
  check \<open>pthread_mutex_lock\<close> returns \<open>EDEADLK\<close> iff the caller holds the mutex, and for both types
  \<open>pthread_mutex_unlock\<close> returns \<open>EPERM\<close> iff the caller does not hold it; neither touches the word.
\<close>

theorem owner_checks_exact:
  assumes "F \<in> rec_free" and "reachable (mutex_start F) rec_step s"
  shows "(mpcs s t = InLock (LK_owner MUTEX_TYPE_ERRORCHECK sh) \<longrightarrow>
      (thread_exec now t (mval s) (mpcs s t) = (mval s, InLock (LK_ret EDEADLK), Tau)
        \<longleftrightarrow> held s t > 0)) \<and>
    (mpcs s t = InUnlock (UL_owner mt sh) \<longrightarrow>
      (thread_exec now t (mval s) (mpcs s t) = (mval s, InUnlock (UL_ret EPERM), Tau)
        \<longleftrightarrow> held s t = 0))"
proof (cases "\<exists>r. mpcs s t = Outside r")
  case False
  have inv: "rec_inv F s" by (rule rec_reachable_inv[OF assms])
  then have "valid_tid t" using rec_invD(1)[OF inv] False by (simp add: client_ok_def) blast
  then show ?thesis
    using rec_owner[OF rec_invD(2)[OF inv] assms(1)] by auto
qed auto

theorem owner_checks_exact_witness:
  "reachable (mutex_start 0x8000) rec_step errorcheck_misuse \<and>
   thread_exec clock0 7 (mval errorcheck_misuse) (mpcs errorcheck_misuse 7)
     = (0x78001, InLock (LK_ret EDEADLK), Tau) \<and>
   thread_exec clock0 8 (mval errorcheck_misuse) (mpcs errorcheck_misuse 8)
     = (0x78001, InUnlock (UL_ret EPERM), Tau)"
  using owner_checks_exact[OF _ errorcheck_misuse_reachable, of 7 0 clock0 "0x8000"]
    owner_checks_exact[OF _ errorcheck_misuse_reachable, of 8 0 clock0 "0x8000"]
    errorcheck_misuse_reachable
  by (simp add: errorcheck_misuse_def)

section \<open>Calls that run without interference\<close>

text \<open>A thread executing \<open>n\<close> steps while the others stand still.\<close>

fun solo :: "nat \<Rightarrow> tid \<Rightarrow> u32 \<times> tpc \<Rightarrow> u32 \<times> tpc" where
  "solo 0 t (v, pc) = (v, pc)"
| "solo (Suc n) t (v, pc) = (case thread_exec clock0 t v pc of (v', pc', _) \<Rightarrow> solo n t (v', pc'))"

definition lock_alone :: "tid \<Rightarrow> u32 \<times> tpc \<Rightarrow> u32 \<times> tpc" where
  "lock_alone t s = solo 4 t (fst s, InLock (LK_entry False))"

definition unlock_alone :: "tid \<Rightarrow> u32 \<times> tpc \<Rightarrow> u32 \<times> tpc" where
  "unlock_alone t s = solo 4 t (fst s, InUnlock (UL_entry False))"

text \<open>\<open>pthread_mutex_destroy\<close>: the word afterwards and the result; \<open>trylock\<close> takes at most four steps.\<close>

definition pthread_mutex_destroy :: "tid \<Rightarrow> bool \<Rightarrow> u32 \<Rightarrow> u32 \<times> int" where
  "pthread_mutex_destroy tid null v =
     (case solo 4 tid (v, InTrylock (TL_entry null)) of
        (v', Outside ret) \<Rightarrow> if ret \<noteq> 0 then (v', ret) else (0xdead10cc, 0)
      | (v', _) \<Rightarrow> (v', EINVAL))"

lemma solo_4: "solo 4 = solo (Suc (Suc (Suc (Suc 0))))"
  by (simp add: numeral_eq_Suc)

lemma rec_free_nonowner:
  assumes "F \<in> rec_free" "valid_tid t"
  shows "MUTEX_OWNER F \<noteq> t" "t \<noteq> MUTEX_OWNER F"
  using rec_free_fields(3)[OF assms(1)] assms(2) by (auto simp: valid_tid_def)

lemma lock_alone_free:
  assumes F: "F \<in> rec_free" and t: "valid_tid t"
  shows "lock_alone t (F, pc) = (rword t F 0 1, Outside 0)"
  using assms rec_free_fields(1,4)[OF F] rec_free_nonowner[OF F t]
  by (auto simp: lock_alone_def solo_4 recursive_acquire_def Let_def rword_def)

lemma rword_type_nz:
  assumes "F \<in> rec_free" "st \<in> {1, 2}" "c < 0x800"
  shows "rword t F c st AND MUTEX_TYPE_MASK \<noteq> 0"
  using rword_fields(1)[OF assms, of t] rec_free_fields(1)[OF assms(1)] by auto

lemma lock_alone_owned:
  assumes F: "F \<in> {0x4000, 0x6000}" and t: "valid_tid t" and c: "c < 0x800"
  shows "lock_alone t (rword t F c 1, pc) = (recursive_relock (rword t F c 1), Outside 0)"
proof -
  have F': "F \<in> rec_free" and "F AND MUTEX_TYPE_MASK = 0x4000" using F by auto
  moreover have "MUTEX_OWNER (rword t F c 1) = t"
    using rword_owner[OF _ F' c, of t 1] t by (simp add: valid_tid_def)
  ultimately show ?thesis
    using rword_fields(1)[OF F' _ c, of 1 t]
    by (simp add: lock_alone_def solo_4 Let_def)
qed

lemma unlock_alone_owned:
  assumes F: "F \<in> rec_free" and t: "valid_tid t" and c: "c < 0x800"
  shows "unlock_alone t (rword t F c 1, pc) =
    (if c = 0 then F else rword t F (c - 1) 1, Outside 0)"
proof -
  have own: "MUTEX_OWNER (rword t F c 1) = t"
    using rword_owner[OF _ F c, of t 1] t by (simp add: valid_tid_def)
  have nz: "rword t F c 1 AND MUTEX_TYPE_MASK \<noteq> 0"
    by (rule rword_type_nz[OF F _ c]) simp
  have cnt: "rword t F c 1 AND MUTEX_COUNTER_MASK = 0 \<longleftrightarrow> c = 0"
  proof -
    have "push_bit 2 c = 0 \<longleftrightarrow> c = 0"
      using c by (simp add: push_bit_eq_mult word_less_nat_alt unat_word_ariths
          unat_eq_0[symmetric] del: unat_eq_0)
    then show ?thesis using rword_counter[OF F _ c, of 1 t] by simp
  qed
  show ?thesis
    using own nz cnt rword_fields[OF F _ c, of 1 t] rec_free_fields(5)[OF F]
      rword_state[OF F, of 1 t c] rword_dec[OF F _ c, of 1 t]
    by (auto simp: unlock_alone_def solo_4 Let_def)
qed

lemma lock_n_alone:
  assumes F: "F \<in> {0x4000, 0x6000}" and t: "valid_tid t" and "n < 2048"
  shows "(lock_alone t ^^ Suc n) (F, Outside 0) = (rword t F (of_nat n) 1, Outside 0)"
  using assms(3)
proof (induction n)
  case 0
  then show ?case using lock_alone_free[of F t] F t by auto
next
  case (Suc n)
  have F': "F \<in> rec_free" using F by auto
  have "(of_nat n :: u32) < 0x7ff" using Suc.prems by (simp add: word_less_nat_alt unat_of_nat)
  then have "recursive_relock (rword t F (of_nat n) 1) = rword t F (of_nat (Suc n)) 1"
    using rword_relock[OF F', of 1 "of_nat n" t] by (simp add: add.commute)
  then show ?case
    using Suc lock_alone_owned[OF F t, of "of_nat n"] of_nat_lt_0x800[of n] by simp
qed

lemma unlock_n_alone:
  assumes F: "F \<in> rec_free" and t: "valid_tid t" and "n < 2048" and "m \<le> n"
  shows "(unlock_alone t ^^ m) (rword t F (of_nat n) 1, Outside 0)
     = (rword t F (of_nat (n - m)) 1, Outside 0)"
  using assms(4)
proof (induction m)
  case (Suc m)
  have lt: "n - m < 2048" using assms(3) by simp
  moreover have "(of_nat (n - m) :: u32) \<noteq> 0"
    using Suc.prems of_nat_eq_0_iff_unat32[OF lt] by simp
  moreover have "(of_nat (n - m) :: u32) - 1 = of_nat (n - Suc m)"
    using Suc.prems by (simp add: of_nat_diff)
  ultimately show ?case
    using Suc unlock_alone_owned[OF F t of_nat_lt_0x800[OF lt], of "Outside 0"]
    by (simp add: diff_diff_eq add.commute)
qed simp

text \<open>
  Nesting of recursive mutexes: a thread that locks a free recursive mutex \<open>n\<close> times, \<open>n\<close> up to
  2048, gets 0 from every call and is the owner; the first \<open>n - 1\<close> unlocks return 0 and leave it the
  owner, the last one returns 0 and frees the mutex.
\<close>

theorem recursive_nesting:
  assumes "F \<in> {0x4000, 0x6000}" and "valid_tid t" and "0 < n" and "n \<le> 2048" and "m \<le> n"
  shows "(lock_alone t ^^ n) (F, Outside 0) = (rword t F (of_nat (n - 1)) 1, Outside 0) \<and>
    (unlock_alone t ^^ m) ((lock_alone t ^^ n) (F, Outside 0))
      = (if m = n then F else rword t F (of_nat (n - 1 - m)) 1, Outside 0)"
proof -
  obtain k where k: "n = Suc k" "k < 2048" using assms(3,4) by (cases n) auto
  have F': "F \<in> rec_free" using assms(1) by auto
  note L = lock_n_alone[OF assms(1,2) k(2)]
  have "(unlock_alone t ^^ Suc k) (rword t F (of_nat k) 1, Outside 0) = (F, Outside 0)"
    using unlock_n_alone[OF F' assms(2) k(2), of k] unlock_alone_owned[OF F' assms(2), of 0] by simp
  then show ?thesis
    using L unlock_n_alone[OF F' assms(2) k(2), of m] k assms(5)
    by (cases "m = n") (simp_all del: funpow.simps)
qed

theorem recursive_nesting_witness:
  "(unlock_alone 7 ^^ 3) ((lock_alone 7 ^^ 3) (0x4000, Outside 0)) = (0x4000, Outside 0)"
proof -
  have "valid_tid 7" by (simp add: valid_tid_def)
  then show ?thesis using recursive_nesting[of "0x4000" 7 3 3] by auto
qed

lemma Suc_2049: "Suc (Suc 2047) = 2049"
  by simp

text \<open>
  Beyond that the counter wraps: the 2049th nested \<open>pthread_mutex_lock\<close> returns 0 like the
  others, and a single \<open>pthread_mutex_unlock\<close> then frees the mutex although the thread has 2048
  acquisitions left.
\<close>

theorem recursive_counter_wraps:
  assumes "F \<in> {0x4000, 0x6000}" and "valid_tid t"
  shows "(lock_alone t ^^ 2049) (F, Outside 0) = (rword t F 0 1, Outside 0) \<and>
    unlock_alone t ((lock_alone t ^^ 2049) (F, Outside 0)) = (F, Outside 0)"
proof -
  have F': "F \<in> rec_free" using assms(1) by auto
  have "(lock_alone t ^^ Suc 2047) (F, Outside 0) = (rword t F 0x7ff 1, Outside 0)"
    using lock_n_alone[OF assms, of 2047] by simp
  then have "(lock_alone t ^^ Suc (Suc 2047)) (F, Outside 0) = (rword t F 0 1, Outside 0)"
    using lock_alone_owned[OF assms, of "0x7ff"] rword_relock_overflow[OF F', of 1 t]
    by (simp only: funpow.simps o_apply) simp
  then have "(lock_alone t ^^ 2049) (F, Outside 0) = (rword t F 0 1, Outside 0)" 
    by (simp only: flip: Suc_2049)
  then show ?thesis
    using unlock_alone_owned[OF F' assms(2), of 0] by simp
qed

theorem recursive_counter_wraps_witness:
  "unlock_alone 7 ((lock_alone 7 ^^ 2049) (0x4000, Outside 0)) = (0x4000, Outside 0)"
proof -
  have "valid_tid 7" by (simp add: valid_tid_def)
  then show ?thesis using recursive_counter_wraps[of "0x4000" 7] by blast
qed

text \<open>
  \<open>pthread_mutex_destroy\<close> succeeds on every mutex that \<open>pthread_mutex_init\<close> has just set up, and on
  a mutex owned by another thread it returns \<open>EBUSY\<close> and leaves the word as it is; an error-check mutex
  owned by the caller gives \<open>EDEADLK\<close>. A recursive mutex owned by the caller is destroyed, although
  it is locked.
\<close>

theorem mutex_destroy_cases:
  assumes "valid_tid t" and "valid_tid u" and "t \<noteq> u" and "F \<in> rec_free" and "c < 0x7ff"
    and "st \<in> {1, 2}"
  shows "(\<forall>a v. fst (pthread_mutex_init (Some v) a) = 0 \<longrightarrow>
      pthread_mutex_destroy t False (the (snd (pthread_mutex_init (Some v) a))) = (0xdead10cc, 0)) \<and>
    pthread_mutex_destroy t False (rword u F c st) = (rword u F c st, EBUSY) \<and>
    pthread_mutex_destroy t False (rword t F c st) =
      (if F AND MUTEX_TYPE_MASK = MUTEX_TYPE_ERRORCHECK then (rword t F c st, EDEADLK)
       else (0xdead10cc, 0))"
proof -
  have c: "c < 0x800" using assms(5) by (rule less_trans) simp
  have own: "MUTEX_OWNER (rword w F c st) = w" if "valid_tid w" for w
    using rword_owner[OF _ assms(4) c assms(6), of w] that by (simp add: valid_tid_def)
  note f = rword_fields[OF assms(4,6) c] rword_type_nz[OF assms(4,6) c]
    rec_free_fields(1,4)[OF assms(4)] rword_not_free[OF assms(4,4,6)]
  have "MUTEX_OWNER 0x4000 \<noteq> t" "MUTEX_OWNER 0x8000 \<noteq> t" "MUTEX_OWNER 0x6000 \<noteq> t"
    "MUTEX_OWNER 0xA000 \<noteq> t"
    using assms(1) by (auto simp: MUTEX_OWNER_def valid_tid_def)
  then have "\<forall>a v. fst (pthread_mutex_init (Some v) a) = 0 \<longrightarrow>
      pthread_mutex_destroy t False (the (snd (pthread_mutex_init (Some v) a))) = (0xdead10cc, 0)"
    by (auto simp: pthread_mutex_init_def pthread_mutex_destroy_def solo_4 Let_def
        split: option.splits if_splits)
  moreover have "pthread_mutex_destroy t False (rword u F c st) = (rword u F c st, EBUSY)"
    using own[OF assms(2)] f assms(3) by (auto simp: pthread_mutex_destroy_def solo_4 Let_def)
  moreover have "pthread_mutex_destroy t False (rword t F c st) =
      (if F AND MUTEX_TYPE_MASK = MUTEX_TYPE_ERRORCHECK then (rword t F c st, EDEADLK)
       else (0xdead10cc, 0))"
    using own[OF assms(1)] f by (auto simp: pthread_mutex_destroy_def solo_4 Let_def)
  ultimately show ?thesis by blast
qed

theorem mutex_destroy_cases_witness:
  "pthread_mutex_destroy 7 False (rword 8 0x4000 0 1) = (rword 8 0x4000 0 1, EBUSY) \<and>
   pthread_mutex_destroy 7 False (rword 7 0x4000 0 1) = (0xdead10cc, 0)"
  using mutex_destroy_cases[of 7 8 "0x4000" 0 1] by (simp add: valid_tid_def)

end
