(* ===== verification/Semaphore.thy ===== *)
theory Semaphore
  imports Pthread_Time
begin

unbundle bit_operations_syntax

text \<open>
  Unnamed semaphores of \<open>libc/bionic/semaphore.c\<close>. The word holds the process-shared flag in bit 0
  and a signed 31-bit value above it, where -1 stands for a semaphore without tokens that threads
  may be sleeping on. The functions are program-counter machines over the word, one step per access;
  the system of any number of threads refines a counting semaphore.
\<close>

section \<open>The word\<close>

abbreviation (input) SEMCOUNT_SHARED_MASK :: u32 where "SEMCOUNT_SHARED_MASK \<equiv> 0x00000001"

abbreviation (input) SEMCOUNT_VALUE_MASK :: u32 where "SEMCOUNT_VALUE_MASK \<equiv> 0xfffffffe"

abbreviation (input) SEMCOUNT_VALUE_SHIFT :: nat where "SEMCOUNT_VALUE_SHIFT \<equiv> 1"

abbreviation (input) SEM_MAX_VALUE :: int where "SEM_MAX_VALUE \<equiv> 0x3fffffff"

definition SEMCOUNT_FROM_VALUE :: "u32 \<Rightarrow> u32" where
  "SEMCOUNT_FROM_VALUE val = push_bit SEMCOUNT_VALUE_SHIFT val AND SEMCOUNT_VALUE_MASK"

definition SEMCOUNT_TO_VALUE :: "u32 \<Rightarrow> int" where
  "SEMCOUNT_TO_VALUE sval = sint (signed_drop_bit SEMCOUNT_VALUE_SHIFT sval)"

definition SEMCOUNT_ONE :: u32 where
  "SEMCOUNT_ONE = SEMCOUNT_FROM_VALUE 1"

definition SEMCOUNT_MINUS_ONE :: u32 where
  "SEMCOUNT_MINUS_ONE = SEMCOUNT_FROM_VALUE (- 1)"

definition SEMCOUNT_DECREMENT :: "u32 \<Rightarrow> u32" where
  "SEMCOUNT_DECREMENT sval = (sval - push_bit SEMCOUNT_VALUE_SHIFT 1) AND SEMCOUNT_VALUE_MASK"

definition SEMCOUNT_INCREMENT :: "u32 \<Rightarrow> u32" where
  "SEMCOUNT_INCREMENT sval = (sval + push_bit SEMCOUNT_VALUE_SHIFT 1) AND SEMCOUNT_VALUE_MASK"

definition SEM_GET_SHARED :: "u32 \<Rightarrow> u32" where
  "SEM_GET_SHARED count = count AND SEMCOUNT_SHARED_MASK"

section \<open>Functions that do not block\<close>

text \<open>
  The result of a call: the returned value and the \<open>errno\<close> it sets, 0 when it sets none.
\<close>

type_synonym sem_result = "int \<times> int"

definition sem_init :: "u32 option \<Rightarrow> u32 \<Rightarrow> u32 \<Rightarrow> sem_result \<times> u32 option" where
  "sem_init sem pshared v =
     (case sem of
        None \<Rightarrow> ((- 1, EINVAL), None)
      | Some count \<Rightarrow>
          if uint v > SEM_MAX_VALUE then ((- 1, EINVAL), Some count)
          else ((0, 0), Some (let count = SEMCOUNT_FROM_VALUE v
                              in if pshared \<noteq> 0 then count OR SEMCOUNT_SHARED_MASK else count)))"

definition sem_destroy :: "u32 option \<Rightarrow> sem_result \<times> u32 option" where
  "sem_destroy sem =
     (case sem of
        None \<Rightarrow> ((- 1, EINVAL), None)
      | Some count \<Rightarrow>
          if SEMCOUNT_TO_VALUE count < 0 then ((- 1, EBUSY), Some count) else ((0, 0), Some 0))"

definition sem_open :: "string \<Rightarrow> int \<Rightarrow> sem_result" where
  \<comment> \<open>returns \<open>SEM_FAILED\<close>, the null pointer\<close>
  "sem_open name oflag = (0, ENOSYS)"

definition sem_close :: "u32 option \<Rightarrow> sem_result" where
  "sem_close sem = (if sem = None then (- 1, EINVAL) else (- 1, ENOSYS))"

definition sem_unlink :: "string \<Rightarrow> sem_result" where
  "sem_unlink name = (- 1, ENOSYS)"

definition sem_getvalue :: "u32 option \<Rightarrow> bool \<Rightarrow> sem_result \<times> int option" where
  \<comment> \<open>the second argument says whether \<open>sval\<close> is non-null; the last component is what is stored there\<close>
  "sem_getvalue sem sval_nonnull =
     (case sem of
        None \<Rightarrow> ((- 1, EINVAL), None)
      | Some count \<Rightarrow>
          if \<not> sval_nonnull then ((- 1, EINVAL), None)
          else let val = SEMCOUNT_TO_VALUE count in ((0, 0), Some (if val < 0 then 0 else val)))"

section \<open>The compare-and-swap loops\<close>

text \<open>
  The three loops have the same program points: before the read of the shared flag, before the read
  at the head of the loop, before the compare-and-swap with the local \<open>old\<close>, and the return of \<open>ret\<close>.
  The locals are \<open>shared\<close> and \<open>old\<close>; \<open>new\<close> and \<open>ret\<close> are computed from \<open>old\<close>.
\<close>

datatype loop_pc = SL_shared | SL_load u32 | SL_cas u32 u32 | SL_done int

fun sem_dec :: "u32 \<Rightarrow> loop_pc \<Rightarrow> u32 \<times> loop_pc" where
  "sem_dec v SL_shared = (v, SL_load (v AND SEMCOUNT_SHARED_MASK))"
| "sem_dec v (SL_load shared) =
     (let old = v AND SEMCOUNT_VALUE_MASK; ret = SEMCOUNT_TO_VALUE old
      in (v, if ret < 0 then SL_done ret else SL_cas shared old))"
| "sem_dec v (SL_cas shared old) =
     (if v = (old OR shared) then (SEMCOUNT_DECREMENT old OR shared, SL_done (SEMCOUNT_TO_VALUE old))
      else (v, SL_load shared))"
| "sem_dec v (SL_done ret) = (v, SL_done ret)"

fun sem_trydec :: "u32 \<Rightarrow> loop_pc \<Rightarrow> u32 \<times> loop_pc" where
  "sem_trydec v SL_shared = (v, SL_load (v AND SEMCOUNT_SHARED_MASK))"
| "sem_trydec v (SL_load shared) =
     (let old = v AND SEMCOUNT_VALUE_MASK; ret = SEMCOUNT_TO_VALUE old
      in (v, if ret \<le> 0 then SL_done ret else SL_cas shared old))"
| "sem_trydec v (SL_cas shared old) =
     (if v = (old OR shared) then (SEMCOUNT_DECREMENT old OR shared, SL_done (SEMCOUNT_TO_VALUE old))
      else (v, SL_load shared))"
| "sem_trydec v (SL_done ret) = (v, SL_done ret)"

fun sem_inc :: "u32 \<Rightarrow> loop_pc \<Rightarrow> u32 \<times> loop_pc" where
  "sem_inc v SL_shared = (v, SL_load (v AND SEMCOUNT_SHARED_MASK))"
| "sem_inc v (SL_load shared) =
     (let old = v AND SEMCOUNT_VALUE_MASK; ret = SEMCOUNT_TO_VALUE old
      in (v, if ret = SEM_MAX_VALUE then SL_done ret else SL_cas shared old))"
| "sem_inc v (SL_cas shared old) =
     (let ret = SEMCOUNT_TO_VALUE old;
          new = (if ret < 0 then SEMCOUNT_ONE else SEMCOUNT_INCREMENT old)
      in if v = (old OR shared) then (new OR shared, SL_done ret) else (v, SL_load shared))"
| "sem_inc v (SL_done ret) = (v, SL_done ret)"

section \<open>sem_wait, sem_timedwait, sem_trywait, sem_post\<close>

text \<open>
  Program points of a thread. \<open>WT\<close>: \<open>sem_wait\<close>; \<open>TW\<close>: \<open>sem_timedwait\<close>, whose points carry the
  absolute time-out and the relative one computed from it; \<open>TR\<close>: \<open>sem_trywait\<close>; \<open>PO\<close>: \<open>sem_post\<close>.
  Entry points carry whether the semaphore pointer is null. \<open>WT_futex\<close> and \<open>TW_futex\<close> are the
  comparisons of the futex call, \<open>WT_sleep\<close> and \<open>TW_sleep\<close> threads asleep in it, \<open>PO_wake\<close> the call
  that wakes all of them.
\<close>

datatype sem_pc =
    SOut
  | SRet sem_result
  | WT_entry bool | WT_dec u32 loop_pc | WT_futex u32 | WT_sleep u32
  | TW_entry bool "timespec option" | TW_trydec "timespec option" loop_pc
  | TW_check "timespec option" | TW_time timespec u32
  | TW_dec timespec u32 timespec loop_pc | TW_futex timespec u32 timespec
  | TW_sleep timespec u32 timespec
  | TR_entry bool | TR_dec loop_pc
  | PO_entry bool | PO_inc u32 loop_pc | PO_wake u32

fun sem_wait :: "u32 \<Rightarrow> sem_pc \<Rightarrow> u32 \<times> sem_pc" where
  "sem_wait v (WT_entry null) =
     (v, if null then SRet (- 1, EINVAL) else WT_dec (SEM_GET_SHARED v) SL_shared)"
| "sem_wait v (WT_dec shared (SL_done ret)) =
     (v, if ret > 0 then SRet (0, 0) else WT_futex shared)"
| "sem_wait v (WT_dec shared pc) = (case sem_dec v pc of (v', pc') \<Rightarrow> (v', WT_dec shared pc'))"
| "sem_wait v (WT_futex shared) =
     (v, if v = (shared OR SEMCOUNT_MINUS_ONE) then WT_sleep shared else WT_dec shared SL_shared)"
| "sem_wait v pc = (v, pc)"

definition abs_timeout_ok :: "timespec option \<Rightarrow> bool" where
  "abs_timeout_ok abs_timeout =
     (case abs_timeout of None \<Rightarrow> False
      | Some ab \<Rightarrow> \<not> (tv_sec ab < 0 \<or> tv_nsec ab < 0 \<or> tv_nsec ab \<ge> 1000000000))"

fun sem_timedwait :: "timespec \<Rightarrow> u32 \<Rightarrow> sem_pc \<Rightarrow> u32 \<times> sem_pc" where
  "sem_timedwait now v (TW_entry null ab) =
     (v, if null then SRet (- 1, EINVAL) else TW_trydec ab SL_shared)"
| "sem_timedwait now v (TW_trydec ab (SL_done ret)) =
     (v, if ret > 0 then SRet (0, 0) else TW_check ab)"
| "sem_timedwait now v (TW_trydec ab pc) =
     (case sem_trydec v pc of (v', pc') \<Rightarrow> (v', TW_trydec ab pc'))"
| "sem_timedwait now v (TW_check ab) =
     (v, if abs_timeout_ok ab then TW_time (the ab) (SEM_GET_SHARED v) else SRet (- 1, EINVAL))"
| "sem_timedwait now v (TW_time ab shared) =
     (let ts = timespec_sub ab now
      in (v, if tv_sec ts < 0 \<or> tv_nsec ts < 0 then SRet (- 1, ETIMEDOUT)
             else TW_dec ab shared ts SL_shared))"
| "sem_timedwait now v (TW_dec ab shared ts (SL_done ret)) =
     (v, if ret > 0 then SRet (0, 0) else TW_futex ab shared ts)"
| "sem_timedwait now v (TW_dec ab shared ts pc) =
     (case sem_dec v pc of (v', pc') \<Rightarrow> (v', TW_dec ab shared ts pc'))"
| "sem_timedwait now v (TW_futex ab shared ts) =
     (v, if v = (shared OR SEMCOUNT_MINUS_ONE) then TW_sleep ab shared ts else TW_time ab shared)"
| "sem_timedwait now v pc = (v, pc)"

fun sem_trywait :: "u32 \<Rightarrow> sem_pc \<Rightarrow> u32 \<times> sem_pc" where
  "sem_trywait v (TR_entry null) = (v, if null then SRet (- 1, EINVAL) else TR_dec SL_shared)"
| "sem_trywait v (TR_dec (SL_done ret)) =
     (v, if ret > 0 then SRet (0, 0) else SRet (- 1, EAGAIN))"
| "sem_trywait v (TR_dec pc) = (case sem_trydec v pc of (v', pc') \<Rightarrow> (v', TR_dec pc'))"
| "sem_trywait v pc = (v, pc)"

fun sem_post :: "u32 \<Rightarrow> sem_pc \<Rightarrow> u32 \<times> sem_pc" where
  "sem_post v (PO_entry null) =
     (v, if null then SRet (EINVAL, 0) else PO_inc (SEM_GET_SHARED v) SL_shared)"
| "sem_post v (PO_inc shared (SL_done old)) =
     (v, if old < 0 then PO_wake shared
         else if old = SEM_MAX_VALUE then SRet (- 1, EOVERFLOW) else SRet (0, 0))"
| "sem_post v (PO_inc shared pc) = (case sem_inc v pc of (v', pc') \<Rightarrow> (v', PO_inc shared pc'))"
| "sem_post v pc = (v, pc)"

section \<open>Threads sharing a semaphore\<close>

fun sem_exec :: "timespec \<Rightarrow> u32 \<Rightarrow> sem_pc \<Rightarrow> u32 \<times> sem_pc" where
  "sem_exec now v SOut = (v, SOut)"
| "sem_exec now v (SRet r) = (v, SOut)"
| "sem_exec now v (WT_entry n) = sem_wait v (WT_entry n)"
| "sem_exec now v (WT_dec sh pc) = sem_wait v (WT_dec sh pc)"
| "sem_exec now v (WT_futex sh) = sem_wait v (WT_futex sh)"
| "sem_exec now v (TR_entry n) = sem_trywait v (TR_entry n)"
| "sem_exec now v (TR_dec pc) = sem_trywait v (TR_dec pc)"
| "sem_exec now v (PO_entry n) = sem_post v (PO_entry n)"
| "sem_exec now v (PO_inc sh pc) = sem_post v (PO_inc sh pc)"
| "sem_exec now v pc = sem_timedwait now v pc"

text \<open>
  How the futex call of a sleeper returns, by its status: \<open>sem_wait\<close> loops whatever it is,
  \<open>sem_timedwait\<close> gives up after a time-out or an interruption.
\<close>

fun sem_futex_return :: "int \<Rightarrow> sem_pc \<Rightarrow> sem_pc option" where
  "sem_futex_return status (WT_sleep shared) = Some (WT_dec shared SL_shared)"
| "sem_futex_return status (TW_sleep ab shared ts) =
     Some (if status = - ETIMEDOUT \<or> status = - EINTR then SRet (- 1, - status) else TW_time ab shared)"
| "sem_futex_return status pc = None"

definition sem_asleep :: "sem_pc \<Rightarrow> bool" where
  "sem_asleep pc \<longleftrightarrow> sem_futex_return 0 pc \<noteq> None"

text \<open>
  The system, with the numbers of tokens given by successful posts and taken by successful waits,
  counted at the compare-and-swap that succeeds.
\<close>

record sem_sys =
  scount :: u32
  spcs :: "tid \<Rightarrow> sem_pc"
  posts :: nat
  takes :: nat

definition sem_call :: "sem_pc \<Rightarrow> bool" where
  "sem_call pc = (case pc of WT_entry _ \<Rightarrow> True | TW_entry _ _ \<Rightarrow> True | TR_entry _ \<Rightarrow> True
                  | PO_entry _ \<Rightarrow> True | _ \<Rightarrow> False)"

text \<open>
  A step gives a token when it enters the return point of the loop of \<open>sem_post\<close> with a changed word,
  and takes one when it leaves a decrement loop with a positive old value.
\<close>

fun loop_result :: "sem_pc \<Rightarrow> int option" where
  "loop_result (WT_dec _ (SL_done r)) = Some r"
| "loop_result (TW_trydec _ (SL_done r)) = Some r"
| "loop_result (TW_dec _ _ _ (SL_done r)) = Some r"
| "loop_result (TR_dec (SL_done r)) = Some r"
| "loop_result _ = None"

definition takes_token :: "sem_pc \<Rightarrow> sem_pc \<Rightarrow> bool" where
  "takes_token pc pc' \<longleftrightarrow> loop_result pc = None \<and> (\<exists>r. loop_result pc' = Some r \<and> r > 0)"

definition gives_token :: "sem_pc \<Rightarrow> sem_pc \<Rightarrow> bool" where
  "gives_token pc pc' \<longleftrightarrow>
     (\<exists>sh s old r. pc = PO_inc sh (SL_cas s old) \<and> pc' = PO_inc sh (SL_done r))"

inductive sem_step :: "sem_sys \<Rightarrow> sem_sys \<Rightarrow> bool" where
  call: "spcs s t = SOut \<Longrightarrow> sem_call pc \<Longrightarrow> sem_step s (s\<lparr>spcs := (spcs s)(t := pc)\<rparr>)"
| run: "\<not> sem_asleep (spcs s t) \<Longrightarrow> \<forall>sh. spcs s t \<noteq> PO_wake sh \<Longrightarrow>
    sem_exec now (scount s) (spcs s t) = (v', pc') \<Longrightarrow>
    sem_step s \<lparr>scount = v', spcs = (spcs s)(t := pc'),
      posts = posts s + (if gives_token (spcs s t) pc' then 1 else 0),
      takes = takes s + (if takes_token (spcs s t) pc' then 1 else 0)\<rparr>"
| wake_all: "spcs s t = PO_wake sh \<Longrightarrow>
    sem_step s (s\<lparr>spcs := (\<lambda>u. if u = t then SRet (0, 0)
                               else case sem_futex_return 0 (spcs s u) of Some pc \<Rightarrow> pc | None \<Rightarrow> spcs s u)\<rparr>)"
| futex_return: "sem_futex_return status (spcs s t) = Some pc \<Longrightarrow>
    sem_step s (s\<lparr>spcs := (spcs s)(t := pc)\<rparr>)"

definition sem_start :: "u32 \<Rightarrow> sem_sys \<Rightarrow> bool" where
  "sem_start v s \<longleftrightarrow> scount s = v \<and> (\<forall>t. spcs s t = SOut) \<and> posts s = 0 \<and> takes s = 0"

section \<open>Arithmetic of the word\<close>

text \<open>The word with value \<open>k\<close> and shared flag \<open>sh\<close>.\<close>

definition semw :: "u32 \<Rightarrow> int \<Rightarrow> u32" where
  "semw sh k = of_int (2 * k) OR sh"

lemma value_mask_not: "(0xfffffffe :: u32) = NOT 1"
  by simp

lemma even_mask:
  fixes a :: u32
  assumes "even a"
  shows "a AND 0xfffffffe = a"
proof -
  have "\<not> bit a 0" by (simp add: bit_0 assms)
  then show ?thesis
    unfolding value_mask_not by (auto intro!: bit_word_eqI simp: bit_simps) (metis neq0_conv)
qed

lemma even_or_flag:
  fixes a sh :: u32
  assumes "even a" "sh \<in> {0, 1}"
  shows "(a OR sh) AND 0xfffffffe = a" and "(a OR sh) AND 1 = sh"
proof -
  have "(a OR sh) AND 0xfffffffe = (a AND 0xfffffffe) OR (sh AND 0xfffffffe)"
    by (rule bit.conj_disj_distrib2)
  then show "(a OR sh) AND 0xfffffffe = a" using even_mask[OF assms(1)] assms(2) by auto
  have "(a OR sh) AND 1 = (a AND 1) OR (sh AND 1)"
    by (rule bit.conj_disj_distrib2)
  then show "(a OR sh) AND 1 = sh" using assms by (auto simp: and_one_eq mod2_eq_if)
qed

lemma to_value_of_int:
  assumes "- (2 ^ 30) \<le> k" "k < 2 ^ 30"
  shows "SEMCOUNT_TO_VALUE (of_int (2 * k)) = k"
proof -
  have "sint (of_int (2 * k) :: u32) = 2 * k"
    unfolding sint_sbintrunc' using assms by (intro signed_take_bit_int_eq_self) simp_all
  then show ?thesis
    by (simp add: SEMCOUNT_TO_VALUE_def sint_signed_drop_bit_eq drop_bit_eq_div)
qed

lemma semw_even [simp]: "even (of_int (2 * k) :: u32)"
  by simp

lemma semw_bits:
  assumes "sh \<in> {0, 1}"
  shows "semw sh k AND 0xfffffffe = of_int (2 * k)" and "semw sh k AND 1 = sh"
  unfolding semw_def using even_or_flag[OF semw_even assms, of k] by simp_all

definition in_range :: "int \<Rightarrow> bool" where
  "in_range k \<longleftrightarrow> - 1 \<le> k \<and> k \<le> SEM_MAX_VALUE"

lemma semw_value:
  assumes "sh \<in> {0, 1}" "in_range k"
  shows "SEMCOUNT_TO_VALUE (semw sh k AND SEMCOUNT_VALUE_MASK) = k"
  using semw_bits(1)[OF assms(1), of k] to_value_of_int[of k] assms(2) by (simp add: in_range_def)

lemma sem_decrement: "SEMCOUNT_DECREMENT (of_int (2 * k)) OR sh = semw sh (k - 1)"
proof -
  have "SEMCOUNT_DECREMENT (of_int (2 * k)) = (of_int (2 * (k - 1)) AND SEMCOUNT_VALUE_MASK)"
    by (simp add: SEMCOUNT_DECREMENT_def algebra_simps)
  then show ?thesis using even_mask[OF semw_even] by (simp only: semw_def)
qed

lemma sem_increment: "SEMCOUNT_INCREMENT (of_int (2 * k)) OR sh = semw sh (k + 1)"
proof -
  have "SEMCOUNT_INCREMENT (of_int (2 * k)) = (of_int (2 * (k + 1)) AND SEMCOUNT_VALUE_MASK)"
    by (simp add: SEMCOUNT_INCREMENT_def algebra_simps)
  then show ?thesis using even_mask[OF semw_even] by (simp only: semw_def)
qed

lemma sem_one: "SEMCOUNT_ONE OR sh = semw sh 1"
  by (simp add: SEMCOUNT_ONE_def SEMCOUNT_FROM_VALUE_def semw_def)

lemma sem_minus_one: "sh OR SEMCOUNT_MINUS_ONE = semw sh (- 1)"
proof -
  have "SEMCOUNT_MINUS_ONE = of_int (2 * - 1)"
    by (simp add: SEMCOUNT_MINUS_ONE_def SEMCOUNT_FROM_VALUE_def)
  then show ?thesis unfolding semw_def by (metis or.commute)
qed

lemma semw_inj:
  assumes "sh \<in> {0, 1}" "in_range k" "in_range j" "semw sh k = semw sh j"
  shows "k = j"
  using semw_value[OF assms(1,2)] semw_value[OF assms(1,3)] assms(4) by metis

text \<open>A successful comparison of the word with \<open>old|shared\<close> for an even \<open>old\<close>.\<close>

lemma semw_cas:
  assumes "sh \<in> {0, 1}" "even old" "semw sh k = (old OR sh)"
  shows "old = of_int (2 * k)"
  using even_or_flag(1)[OF assms(2,1)] semw_bits(1)[OF assms(1), of k] assms(3) by simp

section \<open>The invariant\<close>

fun loop_ok :: "u32 \<Rightarrow> (int \<Rightarrow> bool) \<Rightarrow> loop_pc \<Rightarrow> bool" where
  "loop_ok sh P (SL_load s) = (s = sh)"
| "loop_ok sh P (SL_cas s old) = (s = sh \<and> even old \<and> P (SEMCOUNT_TO_VALUE old))"
| "loop_ok sh P _ = True"

fun sem_pc_ok :: "u32 \<Rightarrow> sem_pc \<Rightarrow> bool" where
  "sem_pc_ok sh (WT_dec s pc) = (s = sh \<and> loop_ok sh (\<lambda>k. 0 \<le> k) pc)"
| "sem_pc_ok sh (WT_futex s) = (s = sh)"
| "sem_pc_ok sh (WT_sleep s) = (s = sh)"
| "sem_pc_ok sh (TW_trydec _ pc) = loop_ok sh (\<lambda>k. 0 < k) pc"
| "sem_pc_ok sh (TW_time _ s) = (s = sh)"
| "sem_pc_ok sh (TW_dec _ s _ pc) = (s = sh \<and> loop_ok sh (\<lambda>k. 0 \<le> k) pc)"
| "sem_pc_ok sh (TW_futex _ s _) = (s = sh)"
| "sem_pc_ok sh (TW_sleep _ s _) = (s = sh)"
| "sem_pc_ok sh (TR_dec pc) = loop_ok sh (\<lambda>k. 0 < k) pc"
| "sem_pc_ok sh (PO_inc s pc) = (s = sh \<and> loop_ok sh (\<lambda>k. k \<noteq> SEM_MAX_VALUE) pc)"
| "sem_pc_ok sh _ = True"

text \<open>
  What one step of a thread does to the value \<open>k\<close>: a token is given or taken, or 0 becomes -1, or
  nothing changes. A step that raises -1 is followed by the wake-up call.
\<close>

definition waker :: "sem_pc \<Rightarrow> bool" where
  "waker pc \<longleftrightarrow> (\<exists>sh. pc = PO_wake sh) \<or> (\<exists>sh r. pc = PO_inc sh (SL_done r) \<and> r < 0)"

definition sem_step_ok :: "u32 \<Rightarrow> int \<Rightarrow> sem_pc \<Rightarrow> u32 \<Rightarrow> sem_pc \<Rightarrow> bool" where
  "sem_step_ok sh k pc v' pc' \<longleftrightarrow>
     (\<exists>k'. v' = semw sh k' \<and> in_range k' \<and>
        max 0 k' = max 0 k + (if gives_token pc pc' then 1 else 0) - (if takes_token pc pc' then 1 else 0) \<and>
        (k = - 1 \<longrightarrow> k' = - 1 \<or> waker pc') \<and> (sem_asleep pc' \<longrightarrow> k' = - 1)) \<and>
     sem_pc_ok sh pc' \<and> (waker pc \<longrightarrow> waker pc')"

lemma sem_dec_ok:
  assumes sh: "sh \<in> {0, 1}" and k: "in_range k" and "loop_ok sh (\<lambda>k. 0 \<le> k) pc" and "\<forall>r. pc \<noteq> SL_done r"
    and "sem_dec (semw sh k) pc = (v', pc')"
  shows "loop_ok sh (\<lambda>k. 0 \<le> k) pc' \<and>
    ((\<exists>r. pc' = SL_done r \<and> r > 0 \<and> k = r \<and> v' = semw sh (k - 1)) \<or>
     pc' = SL_done 0 \<and> k = 0 \<and> v' = semw sh (- 1) \<or>
     v' = semw sh k \<and> (\<forall>r. pc' = SL_done r \<longrightarrow> r < 0))"
proof (cases pc)
  case (SL_cas s old)
  then have s: "s = sh" "even old" "0 \<le> SEMCOUNT_TO_VALUE old" using assms(3) by auto
  show ?thesis
  proof (cases "semw sh k = (old OR sh)")
    case True
    then have old: "old = of_int (2 * k)" by (rule semw_cas[OF sh s(2)])
    then have "SEMCOUNT_TO_VALUE old = k" using k to_value_of_int[of k] by (simp add: in_range_def)
    then show ?thesis
      using assms(5) SL_cas s True old sem_decrement[of k sh] by (cases "k = 0") auto
  qed (use assms(5) SL_cas s in auto)
qed (use assms semw_value[OF sh k] semw_bits[OF sh, of k] in \<open>auto simp: Let_def split: if_splits\<close>)

lemma sem_trydec_ok:
  assumes sh: "sh \<in> {0, 1}" and k: "in_range k" and "loop_ok sh (\<lambda>k. 0 < k) pc" and "\<forall>r. pc \<noteq> SL_done r"
    and "sem_trydec (semw sh k) pc = (v', pc')"
  shows "loop_ok sh (\<lambda>k. 0 < k) pc' \<and>
    ((\<exists>r. pc' = SL_done r \<and> r > 0 \<and> k = r \<and> v' = semw sh (k - 1)) \<or>
     v' = semw sh k \<and> (\<forall>r. pc' = SL_done r \<longrightarrow> r \<le> 0))"
proof (cases pc)
  case (SL_cas s old)
  then have s: "s = sh" "even old" "0 < SEMCOUNT_TO_VALUE old" using assms(3) by auto
  show ?thesis
  proof (cases "semw sh k = (old OR sh)")
    case True
    then have old: "old = of_int (2 * k)" by (rule semw_cas[OF sh s(2)])
    then have "SEMCOUNT_TO_VALUE old = k" using k to_value_of_int[of k] by (simp add: in_range_def)
    then show ?thesis
      using assms(5) SL_cas s True old sem_decrement[of k sh] by auto
  qed (use assms(5) SL_cas s in auto)
qed (use assms semw_value[OF sh k] semw_bits[OF sh, of k] in \<open>auto simp: Let_def split: if_splits\<close>)

lemma sem_inc_ok:
  assumes sh: "sh \<in> {0, 1}" and k: "in_range k" and "loop_ok sh (\<lambda>k. k \<noteq> SEM_MAX_VALUE) pc"
    and "\<forall>r. pc \<noteq> SL_done r" and "sem_inc (semw sh k) pc = (v', pc')"
  shows "loop_ok sh (\<lambda>k. k \<noteq> SEM_MAX_VALUE) pc' \<and>
    ((\<exists>s old. pc = SL_cas s old \<and> pc' = SL_done k \<and> k \<noteq> SEM_MAX_VALUE \<and> v' = semw sh (max 0 k + 1)) \<or>
     v' = semw sh k \<and> (\<forall>r. pc' = SL_done r \<longrightarrow> r = SEM_MAX_VALUE \<and> (\<forall>s old. pc \<noteq> SL_cas s old)))"
proof (cases pc)
  case (SL_cas s old)
  then have s: "s = sh" "even old" "SEMCOUNT_TO_VALUE old \<noteq> SEM_MAX_VALUE" using assms(3) by auto
  show ?thesis
  proof (cases "semw sh k = (old OR sh)")
    case True
    then have old: "old = of_int (2 * k)" by (rule semw_cas[OF sh s(2)])
    then have "SEMCOUNT_TO_VALUE old = k" using k to_value_of_int[of k] by (simp add: in_range_def)
    then show ?thesis
      using assms(5) SL_cas s True old sem_increment[of k sh] sem_one[of sh] k
      by (cases "k < 0") (auto simp: in_range_def Let_def)
  qed (use assms(5) SL_cas s in \<open>auto simp: Let_def\<close>)
qed (use assms semw_value[OF sh k] semw_bits[OF sh, of k] in \<open>auto simp: Let_def split: if_splits\<close>)

lemma not_done: "(\<And>r. pc \<noteq> SL_done r) \<Longrightarrow> \<forall>r. pc \<noteq> SL_done r"
  by blast

lemmas sem_ok_defs = sem_step_ok_def gives_token_def takes_token_def waker_def sem_asleep_def

lemma sem_dec_step_ok:
  assumes sh: "sh \<in> {0, 1}" and k: "in_range k" and pc: "loop_ok sh (\<lambda>k. 0 \<le> k) pc" "\<forall>r. pc \<noteq> SL_done r"
    and ex: "sem_dec (semw sh k) pc = (v', pc')"
    and C: "C = WT_dec sh \<or> C = TW_dec ab sh ts"
  shows "sem_step_ok sh k (C pc) v' (C pc')"
proof -
  have no: "loop_result (C pc) = None" "sem_asleep (C pc') = False" "waker (C pc) = False"
    "gives_token (C pc) (C pc') = False" "sem_pc_ok sh (C pc') = loop_ok sh (\<lambda>k. 0 \<le> k) pc'"
    "loop_result (C (SL_done r)) = Some r" for r
    using pc(2) C by (cases pc; auto simp: sem_ok_defs)+
  have none: "loop_result (C pc') = None" if "\<forall>r. pc' \<noteq> SL_done r"
    using that C by (cases pc') auto
  from sem_dec_ok[OF sh k pc ex] consider
      (take) r where "pc' = SL_done r" "r > 0" "k = r" "v' = semw sh (k - 1)"
    | (zero) "pc' = SL_done 0" "k = 0" "v' = semw sh (- 1)"
    | (same) "v' = semw sh k" "\<forall>r. pc' = SL_done r \<longrightarrow> r < 0" by blast
  then show ?thesis
  proof cases
    case take
    then show ?thesis using no sem_dec_ok[OF sh k pc ex] k
      by (auto simp: sem_step_ok_def takes_token_def in_range_def intro!: exI[of _ "k - 1"])
  next
    case zero
    then show ?thesis using no sem_dec_ok[OF sh k pc ex]
      by (auto simp: sem_step_ok_def takes_token_def in_range_def intro!: exI[of _ "- 1"])
  next
    case same
    then have "\<not> takes_token (C pc) (C pc')"
      using no none unfolding takes_token_def by fastforce
    then show ?thesis using no sem_dec_ok[OF sh k pc ex] k same
      by (auto simp: sem_step_ok_def intro!: exI[of _ k])
  qed
qed

lemma sem_trydec_step_ok:
  assumes sh: "sh \<in> {0, 1}" and k: "in_range k" and pc: "loop_ok sh (\<lambda>k. 0 < k) pc" "\<forall>r. pc \<noteq> SL_done r"
    and ex: "sem_trydec (semw sh k) pc = (v', pc')"
    and C: "C = TR_dec \<or> C = TW_trydec ab"
  shows "sem_step_ok sh k (C pc) v' (C pc')"
proof -
  have no: "loop_result (C pc) = None" "sem_asleep (C pc') = False" "waker (C pc) = False"
    "gives_token (C pc) (C pc') = False" "sem_pc_ok sh (C pc') = loop_ok sh (\<lambda>k. 0 < k) pc'"
    "loop_result (C (SL_done r)) = Some r" for r
    using pc(2) C by (cases pc; auto simp: sem_ok_defs)+
  have none: "loop_result (C pc') = None" if "\<forall>r. pc' \<noteq> SL_done r"
    using that C by (cases pc') auto
  from sem_trydec_ok[OF sh k pc ex] consider
      (take) r where "pc' = SL_done r" "r > 0" "k = r" "v' = semw sh (k - 1)"
    | (same) "v' = semw sh k" "\<forall>r. pc' = SL_done r \<longrightarrow> r \<le> 0" by blast
  then show ?thesis
  proof cases
    case take
    then show ?thesis using no sem_trydec_ok[OF sh k pc ex] k
      by (auto simp: sem_step_ok_def takes_token_def in_range_def intro!: exI[of _ "k - 1"])
  next
    case same
    then have "\<not> takes_token (C pc) (C pc')"
      using no none unfolding takes_token_def by fastforce
    then show ?thesis using no sem_trydec_ok[OF sh k pc ex] k same
      by (auto simp: sem_step_ok_def intro!: exI[of _ k])
  qed
qed

lemma sem_inc_step_ok:
  assumes sh: "sh \<in> {0, 1}" and k: "in_range k" and pc: "loop_ok sh (\<lambda>k. k \<noteq> SEM_MAX_VALUE) pc"
    "\<forall>r. pc \<noteq> SL_done r" and ex: "sem_inc (semw sh k) pc = (v', pc')"
  shows "sem_step_ok sh k (PO_inc sh pc) v' (PO_inc sh pc')"
proof -
  have no: "loop_result (PO_inc sh pc') = None" "sem_asleep (PO_inc sh pc') = False"
    "waker (PO_inc sh pc) = False" "takes_token (PO_inc sh pc) (PO_inc sh pc') = False"
    "waker (PO_inc sh (SL_done r)) = (r < 0)" for r
    using pc(2) by (cases pc; auto simp: sem_ok_defs)+
  from sem_inc_ok[OF sh k pc ex] consider
      (give) s old where "pc = SL_cas s old" "pc' = SL_done k" "k \<noteq> SEM_MAX_VALUE" "v' = semw sh (max 0 k + 1)"
    | (same) "v' = semw sh k" "\<forall>r. pc' = SL_done r \<longrightarrow> (\<forall>s old. pc \<noteq> SL_cas s old)" by blast
  then show ?thesis
  proof cases
    case give
    then have "gives_token (PO_inc sh pc) (PO_inc sh pc')" by (simp add: gives_token_def)
    moreover have "k = - 1 \<longrightarrow> waker (PO_inc sh pc')"
      using give no(5) by simp
    ultimately show ?thesis
      unfolding sem_step_ok_def using no(2-4) give(2-4) k
      by (intro conjI exI[of _ "max 0 k + 1"]) (auto simp: in_range_def)
  next
    case same
    then have "\<not> gives_token (PO_inc sh pc) (PO_inc sh pc')" by (auto simp: gives_token_def)
    then show ?thesis using no same sem_inc_ok[OF sh k pc ex] k
      by (auto simp: sem_step_ok_def intro!: exI[of _ k])
  qed
qed

lemma sem_same_ok:
  assumes "in_range k" "sem_pc_ok sh pc'" "loop_result pc' = None" "\<forall>s r. pc' \<noteq> PO_inc s (SL_done r)"
    "sem_asleep pc' \<longrightarrow> k = - 1" "waker pc \<longrightarrow> waker pc'"
  shows "sem_step_ok sh k pc (semw sh k) pc'"
  using assms unfolding sem_step_ok_def
  by (intro conjI exI[of _ k]) (auto simp: takes_token_def gives_token_def)

lemma sem_exec_loop:
  assumes "\<forall>r. l \<noteq> SL_done r"
  shows "sem_exec now v (WT_dec sh l) = (case sem_dec v l of (v', l') \<Rightarrow> (v', WT_dec sh l'))"
    and "sem_exec now v (TW_dec ab sh ts l) = (case sem_dec v l of (v', l') \<Rightarrow> (v', TW_dec ab sh ts l'))"
    and "sem_exec now v (TW_trydec abo l) = (case sem_trydec v l of (v', l') \<Rightarrow> (v', TW_trydec abo l'))"
    and "sem_exec now v (TR_dec l) = (case sem_trydec v l of (v', l') \<Rightarrow> (v', TR_dec l'))"
    and "sem_exec now v (PO_inc sh l) = (case sem_inc v l of (v', l') \<Rightarrow> (v', PO_inc sh l'))"
  using assms by (cases l; simp)+

lemma sem_exec_done_ok:
  assumes "in_range k" and "sem_pc_ok sh pc" and "sem_exec now (semw sh k) pc = (v', pc')"
    and "loop_result pc \<noteq> None \<or> (\<exists>s r. pc = PO_inc s (SL_done r))"
  shows "sem_step_ok sh k pc v' pc'"
proof -
  have "v' = semw sh k \<and> sem_pc_ok sh pc' \<and> loop_result pc' = None \<and> (\<forall>s r. pc' \<noteq> PO_inc s (SL_done r)) \<and>
    \<not> sem_asleep pc' \<and> (waker pc \<longrightarrow> waker pc')"
    using assms
    by (induction pc rule: loop_result.induct) (auto simp: waker_def sem_asleep_def split: if_splits)
  then show ?thesis using sem_same_ok[of k sh pc' pc] assms(1) by blast
qed

lemma sem_exec_other_ok:
  assumes sh: "sh \<in> {0, 1}" and k: "in_range k" and ok: "sem_pc_ok sh pc"
    and ex: "sem_exec now (semw sh k) pc = (v', pc')" and "\<not> sem_asleep pc" and "\<forall>s. pc \<noteq> PO_wake s"
    and no: "\<forall>s l. pc \<noteq> WT_dec s l" "\<forall>a s ts l. pc \<noteq> TW_dec a s ts l" "\<forall>a l. pc \<noteq> TW_trydec a l"
      "\<forall>l. pc \<noteq> TR_dec l" "\<forall>s l. pc \<noteq> PO_inc s l"
  shows "sem_step_ok sh k pc v' pc'"
proof -
  have m1: "semw sh k = semw sh (- 1) \<Longrightarrow> k = - 1"
    using semw_inj[OF sh k, of "- 1"] by (simp add: in_range_def)
  have "v' = semw sh k \<and> sem_pc_ok sh pc' \<and> loop_result pc' = None \<and> (\<forall>s r. pc' \<noteq> PO_inc s (SL_done r)) \<and>
    (sem_asleep pc' \<longrightarrow> k = - 1) \<and> \<not> waker pc"
    using ex ok assms(5,6) no semw_bits(2)[OF sh, of k] m1 sem_minus_one[of sh]
    by (cases pc) (auto simp: waker_def sem_asleep_def SEM_GET_SHARED_def Let_def split: if_splits)
  then show ?thesis using sem_same_ok[of k sh pc' pc] k by blast
qed

lemma sem_exec_ok:
  assumes sh: "sh \<in> {0, 1}" and k: "in_range k" and ok: "sem_pc_ok sh pc"
    and ex: "sem_exec now (semw sh k) pc = (v', pc')" and aw: "\<not> sem_asleep pc" "\<forall>s. pc \<noteq> PO_wake s"
  shows "sem_step_ok sh k pc v' pc'"
proof (cases "loop_result pc \<noteq> None \<or> (\<exists>s r. pc = PO_inc s (SL_done r))")
  case True
  then show ?thesis by (rule sem_exec_done_ok[OF k ok ex])
next
  case False
  have dec: ?thesis if a: "pc = C l" "C = WT_dec s \<or> C = TW_dec ab s ts" for C ab s ts l
  proof -
    have nd: "\<forall>r. l \<noteq> SL_done r" and s: "s = sh" and l: "loop_ok sh (\<lambda>k. 0 \<le> k) l"
      using a False ok by auto
    obtain l' where "sem_dec (semw sh k) l = (v', l')" "pc' = C l'"
      using a ex sem_exec_loop(1,2)[OF nd] by (auto split: prod.splits)
    then show ?thesis using sem_dec_step_ok[OF sh k l nd] a s by blast
  qed
  have trydec: ?thesis if a: "pc = C l" "C = TR_dec \<or> C = TW_trydec ab" for C ab l
  proof -
    have nd: "\<forall>r. l \<noteq> SL_done r" and l: "loop_ok sh (\<lambda>k. 0 < k) l"
      using a False ok by auto
    obtain l' where "sem_trydec (semw sh k) l = (v', l')" "pc' = C l'"
      using a ex sem_exec_loop(3,4)[OF nd] by (auto split: prod.splits)
    then show ?thesis using sem_trydec_step_ok[OF sh k l nd] a by blast
  qed
  consider (wt) s l where "pc = WT_dec s l" | (tw) a s ts l where "pc = TW_dec a s ts l"
    | (twt) a l where "pc = TW_trydec a l" | (tr) l where "pc = TR_dec l"
    | (inc) s l where "pc = PO_inc s l"
    | (other) "\<forall>s l. pc \<noteq> WT_dec s l" "\<forall>a s ts l. pc \<noteq> TW_dec a s ts l" "\<forall>a l. pc \<noteq> TW_trydec a l"
      "\<forall>l. pc \<noteq> TR_dec l" "\<forall>s l. pc \<noteq> PO_inc s l"
    by (cases pc) auto
  then show ?thesis
  proof cases
    case wt
    then show ?thesis using dec[of "WT_dec s" l s] by blast
  next
    case tw
    then show ?thesis using dec[of "TW_dec a s ts" l s a ts] by blast
  next
    case twt
    then show ?thesis using trydec[of "TW_trydec a" l a] by blast
  next
    case tr
    then show ?thesis using trydec[of TR_dec l] by blast
  next
    case inc
    have nd: "\<forall>r. l \<noteq> SL_done r" and s: "s = sh" and l: "loop_ok sh (\<lambda>k. k \<noteq> SEM_MAX_VALUE) l"
      using inc False ok by auto
    obtain l' where "sem_inc (semw sh k) l = (v', l')" "pc' = PO_inc s l'"
      using inc ex sem_exec_loop(5)[OF nd] by (auto split: prod.splits)
    then show ?thesis using sem_inc_step_ok[OF sh k l nd] inc s by blast
  next
    case other
    then show ?thesis by (rule sem_exec_other_ok[OF sh k ok ex aw])
  qed
qed

text \<open>The invariant of the system; \<open>n0\<close> is the initial number of tokens.\<close>

definition tokens :: "nat \<Rightarrow> sem_sys \<Rightarrow> int" where
  "tokens n0 s = int n0 + int (posts s) - int (takes s)"

definition sem_sleep_ok :: "int \<Rightarrow> (tid \<Rightarrow> sem_pc) \<Rightarrow> bool" where
  "sem_sleep_ok k pcs \<longleftrightarrow> (\<forall>t. sem_asleep (pcs t) \<longrightarrow> k = - 1 \<or> (\<exists>u. waker (pcs u)))"

definition sem_inv_at :: "u32 \<Rightarrow> nat \<Rightarrow> int \<Rightarrow> sem_sys \<Rightarrow> bool" where
  "sem_inv_at sh n0 k s \<longleftrightarrow> scount s = semw sh k \<and> in_range k \<and> max 0 k = tokens n0 s \<and>
     (\<forall>t. sem_pc_ok sh (spcs s t)) \<and> sem_sleep_ok k (spcs s)"

definition sem_inv :: "u32 \<Rightarrow> nat \<Rightarrow> sem_sys \<Rightarrow> bool" where
  "sem_inv sh n0 s \<longleftrightarrow> (\<exists>k. sem_inv_at sh n0 k s)"

lemma sem_inv_atD:
  assumes "sem_inv_at sh n0 k s"
  shows "scount s = semw sh k" "in_range k" "max 0 k = tokens n0 s" "sem_pc_ok sh (spcs s t)"
    "sem_sleep_ok k (spcs s)"
  using assms unfolding sem_inv_at_def by blast+

lemma sem_sleep_ok_run:
  assumes "sem_sleep_ok k pcs" "k = - 1 \<longrightarrow> k' = - 1 \<or> waker pc'" "sem_asleep pc' \<longrightarrow> k' = - 1"
    "waker (pcs t) \<longrightarrow> waker pc'"
  shows "sem_sleep_ok k' (pcs(t := pc'))"
  unfolding sem_sleep_ok_def
proof (intro allI impI)
  fix u assume "sem_asleep ((pcs(t := pc')) u)"
  then consider "sem_asleep pc'" | "sem_asleep (pcs u)" by (cases "u = t") auto
  then show "k' = - 1 \<or> (\<exists>w. waker ((pcs(t := pc')) w))"
  proof cases
    case 2
    with assms(1) consider "k = - 1" | w where "waker (pcs w)" unfolding sem_sleep_ok_def by blast
    then show ?thesis using assms(2,4) by cases (metis fun_upd_same fun_upd_other)+
  qed (use assms(3) in blast)
qed

lemma sem_inv_run:
  assumes inv: "sem_inv_at sh n0 k s" and sh: "sh \<in> {0, 1}"
    and aw: "\<not> sem_asleep (spcs s t)" "\<forall>sh. spcs s t \<noteq> PO_wake sh"
    and ex: "sem_exec now (scount s) (spcs s t) = (v', pc')"
  shows "sem_inv sh n0 \<lparr>scount = v', spcs = (spcs s)(t := pc'),
      posts = posts s + (if gives_token (spcs s t) pc' then 1 else 0),
      takes = takes s + (if takes_token (spcs s t) pc' then 1 else 0)\<rparr>"
proof -
  note D = sem_inv_atD[OF inv]
  have ok: "sem_step_ok sh k (spcs s t) v' pc'"
    by (rule sem_exec_ok[OF sh D(2,4) ex[unfolded D(1)] aw])
  then obtain k' where k': "v' = semw sh k'" "in_range k'"
    "max 0 k' = max 0 k + (if gives_token (spcs s t) pc' then 1 else 0) - (if takes_token (spcs s t) pc' then 1 else 0)"
    "k = - 1 \<longrightarrow> k' = - 1 \<or> waker pc'" "sem_asleep pc' \<longrightarrow> k' = - 1"
    and pc': "sem_pc_ok sh pc'" "waker (spcs s t) \<longrightarrow> waker pc'"
    unfolding sem_step_ok_def by blast
  show ?thesis
    unfolding sem_inv_def sem_inv_at_def
    using k'(1-3) D(3,4) pc'(1) sem_sleep_ok_run[OF D(5) k'(4,5) pc'(2)]
    by (intro exI[of _ k']) (auto simp: tokens_def)
qed

lemma sem_futex_return_ok:
  "sem_futex_return status pc = Some pc' \<Longrightarrow> sem_pc_ok sh pc \<Longrightarrow>
   sem_pc_ok sh pc' \<and> \<not> sem_asleep pc' \<and> \<not> waker pc"
  by (cases pc) (auto simp: sem_asleep_def waker_def split: if_splits)

lemma sem_wake_all_ok:
  assumes inv: "sem_inv_at sh n0 k s" and "spcs s t = PO_wake sh'"
  shows "sem_inv sh n0 (s\<lparr>spcs := (\<lambda>u. if u = t then SRet (0, 0)
      else case sem_futex_return 0 (spcs s u) of Some pc \<Rightarrow> pc | None \<Rightarrow> spcs s u)\<rparr>)"
proof -
  note D = sem_inv_atD[OF inv]
  have "\<not> sem_asleep (case sem_futex_return 0 (spcs s u) of Some pc \<Rightarrow> pc | None \<Rightarrow> spcs s u) \<and>
    sem_pc_ok sh (case sem_futex_return 0 (spcs s u) of Some pc \<Rightarrow> pc | None \<Rightarrow> spcs s u)" for u
    using D(4)[of u] sem_futex_return_ok[of 0 "spcs s u" _ sh]
    by (cases "sem_futex_return 0 (spcs s u)") (auto simp: sem_asleep_def)
  then show ?thesis
    unfolding sem_inv_def sem_inv_at_def
    using D(1-3) by (intro exI[of _ k]) (auto simp: tokens_def sem_sleep_ok_def sem_asleep_def)
qed

lemma sem_inv_step:
  assumes "sem_inv sh n0 s" and sh: "sh \<in> {0, 1}" and "sem_step s s'"
  shows "sem_inv sh n0 s'"
proof -
  obtain k where inv: "sem_inv_at sh n0 k s" using assms(1) by (auto simp: sem_inv_def)
  note D = sem_inv_atD[OF inv]
  from assms(3) show ?thesis
  proof cases
    case (call t pc)
    then have "sem_pc_ok sh pc" "\<not> sem_asleep pc" "\<not> waker (spcs s t)"
      by (auto simp: sem_call_def sem_asleep_def waker_def split: sem_pc.splits)
    then show ?thesis
      using call D sem_sleep_ok_run[OF D(5), of k pc t]
      unfolding sem_inv_def sem_inv_at_def by (intro exI[of _ k]) (auto simp: tokens_def)
  next
    case (run t now v' pc')
    then show ?thesis using sem_inv_run[OF inv sh] by blast
  next
    case (wake_all t sh')
    then show ?thesis using sem_wake_all_ok[OF inv] by blast
  next
    case (futex_return status t pc)
    then have "sem_pc_ok sh pc" "\<not> sem_asleep pc" "\<not> waker (spcs s t)"
      using sem_futex_return_ok D(4) by blast+
    then show ?thesis
      using futex_return D sem_sleep_ok_run[OF D(5), of k pc t]
      unfolding sem_inv_def sem_inv_at_def by (intro exI[of _ k]) (auto simp: tokens_def)
  qed
qed

lemma sem_inv_start:
  assumes "n0 \<le> 0x3fffffff" and "sem_start (semw sh (int n0)) s"
  shows "sem_inv sh n0 s"
  using assms unfolding sem_inv_def sem_inv_at_def
  by (intro exI[of _ "int n0"])
    (auto simp: sem_start_def in_range_def tokens_def sem_sleep_ok_def sem_asleep_def)

interpretation private_sem: invariant_system
  "\<lambda>s. n0 \<le> 0x3fffffff \<and> sem_start (semw 0 (int n0)) s" sem_step "sem_inv 0 n0"
  by unfold_locales (simp add: sem_inv_start, rule sem_inv_step, simp_all)

interpretation shared_sem: invariant_system
  "\<lambda>s. n0 \<le> 0x3fffffff \<and> sem_start (semw 1 (int n0)) s" sem_step "sem_inv 1 n0"
  by unfold_locales (simp add: sem_inv_start, rule sem_inv_step, simp_all)

lemma sem_init_word:
  assumes "sem_init (Some x) pshared v = ((0, 0), Some w)"
  obtains sh where "sh \<in> {0, 1}" "unat v \<le> 0x3fffffff" "w = semw sh (int (unat v))"
proof -
  let ?sh = "if pshared \<noteq> 0 then 1 else 0 :: u32"
  have "even (push_bit 1 v)" by (simp add: push_bit_eq_mult)
  moreover have "push_bit 1 v = of_int (2 * int (unat v))" by (simp add: push_bit_eq_mult)
  ultimately have "SEMCOUNT_FROM_VALUE v = of_int (2 * int (unat v))"
    using even_mask[of "push_bit 1 v"] by (simp add: SEMCOUNT_FROM_VALUE_def)
  then have "w = semw ?sh (int (unat v))"
    using assms by (auto simp: sem_init_def semw_def Let_def split: if_splits)
  moreover have "uint v \<le> 0x3fffffff"
    using assms by (simp add: sem_init_def split: if_splits)
  then have "int (unat v) \<le> 0x3fffffff" by (simp only: uint_nat)
  then have "unat v \<le> 0x3fffffff" by linarith
  ultimately show ?thesis using that[of ?sh] by simp
qed

lemma sem_reachable_inv:
  assumes "sem_init (Some x) pshared v = ((0, 0), Some w)" and "reachable (sem_start w) sem_step s"
  obtains sh k where "sh \<in> {0, 1}" "sem_inv_at sh (unat v) k s"
proof -
  obtain sh where sh: "sh \<in> {0, 1}" "unat v \<le> 0x3fffffff" "w = semw sh (int (unat v))"
    by (rule sem_init_word[OF assms(1)])
  have r: "reachable (\<lambda>s. unat v \<le> 0x3fffffff \<and> sem_start (semw sh (int (unat v))) s) sem_step s"
    using assms(2) sh(2,3) by simp
  have "sem_inv sh (unat v) s"
    using private_sem.reachable_inv shared_sem.reachable_inv r sh(1) by auto
  then show ?thesis using that sh(1) by (auto simp: sem_inv_def)
qed

lemma semw_to_value:
  assumes "sh \<in> {0, 1}" "in_range k"
  shows "SEMCOUNT_TO_VALUE (semw sh k) = k"
proof -
  have "SEMCOUNT_TO_VALUE (semw sh k) = SEMCOUNT_TO_VALUE (semw sh k AND SEMCOUNT_VALUE_MASK)"
  proof -
    have "bit (signed_drop_bit 1 (semw sh k)) n = bit (signed_drop_bit 1 (semw sh k AND NOT 1)) n"
      if "n < 32" for n
      using that by (auto simp: bit_signed_drop_bit_iff bit_simps)
    then have "signed_drop_bit 1 (semw sh k) = signed_drop_bit 1 (semw sh k AND NOT 1)"
      by (intro bit_word_eqI) simp
    then show ?thesis unfolding value_mask_not SEMCOUNT_TO_VALUE_def by simp
  qed
  then show ?thesis using semw_value[OF assms] by simp
qed

section \<open>Schedules\<close>

datatype sem_act = SCall tid sem_pc | SStep tid | SReturn tid int

abbreviation (input) sem_clock :: timespec where
  "sem_clock \<equiv> \<lparr>tv_sec = 0, tv_nsec = 0\<rparr>"

fun sem_act_ok :: "sem_act \<Rightarrow> sem_sys \<Rightarrow> bool" where
  "sem_act_ok (SCall t pc) s \<longleftrightarrow> spcs s t = SOut \<and> sem_call pc"
| "sem_act_ok (SStep t) s \<longleftrightarrow> \<not> sem_asleep (spcs s t) \<and> (case spcs s t of PO_wake _ \<Rightarrow> False | _ \<Rightarrow> True)"
| "sem_act_ok (SReturn t status) s \<longleftrightarrow> sem_futex_return status (spcs s t) \<noteq> None"

fun sem_do_act :: "sem_act \<Rightarrow> sem_sys \<Rightarrow> sem_sys" where
  "sem_do_act (SCall t pc) s = s\<lparr>spcs := (spcs s)(t := pc)\<rparr>"
| "sem_do_act (SStep t) s =
     (case sem_exec sem_clock (scount s) (spcs s t) of (v', pc') \<Rightarrow>
        \<lparr>scount = v', spcs = (spcs s)(t := pc'),
         posts = posts s + (if gives_token (spcs s t) pc' then 1 else 0),
         takes = takes s + (if takes_token (spcs s t) pc' then 1 else 0)\<rparr>)"
| "sem_do_act (SReturn t status) s =
     s\<lparr>spcs := (spcs s)(t := the (sem_futex_return status (spcs s t)))\<rparr>"

fun sem_run :: "sem_act list \<Rightarrow> sem_sys \<Rightarrow> sem_sys option" where
  "sem_run [] s = Some s"
| "sem_run (a # as) s = (if sem_act_ok a s then sem_run as (sem_do_act a s) else None)"

lemma sem_do_act_step: "sem_act_ok a s \<Longrightarrow> sem_step s (sem_do_act a s)"
proof (cases a)
  case (SStep t)
  assume "sem_act_ok a s"
  with SStep have *: "\<not> sem_asleep (spcs s t)" "\<forall>sh. spcs s t \<noteq> PO_wake sh" by auto
  obtain v' pc' where ex: "sem_exec sem_clock (scount s) (spcs s t) = (v', pc')" by fastforce
  show ?thesis
    using sem_step.run[OF * ex] SStep ex by simp
qed (auto intro: sem_step.intros)

lemma sem_run_reachable:
  "sem_run as s = Some s' \<Longrightarrow> reachable init sem_step s \<Longrightarrow> reachable init sem_step s'"
  by (induction as s rule: sem_run.induct)
    (auto split: if_splits intro: reachable.step sem_do_act_step)

definition sem_s0 :: sem_sys where
  "sem_s0 = \<lparr>scount = 0, spcs = (\<lambda>_. SOut), posts = 0, takes = 0\<rparr>"

lemma sem_s0_reachable: "reachable (sem_start 0) sem_step sem_s0"
  by (rule reachable.start) (simp add: sem_start_def sem_s0_def)

lemma to_value_div: "SEMCOUNT_TO_VALUE v = sint v div 2"
  by (simp add: SEMCOUNT_TO_VALUE_def sint_signed_drop_bit_eq drop_bit_eq_div)

lemmas sem_eval = to_value_div SEMCOUNT_MINUS_ONE_def SEMCOUNT_FROM_VALUE_def
  SEMCOUNT_DECREMENT_def SEMCOUNT_INCREMENT_def SEMCOUNT_ONE_def SEM_GET_SHARED_def sem_asleep_def
  gives_token_def takes_token_def sem_call_def

text \<open>Thread 1 waits on an empty semaphore and sleeps.\<close>

definition sem_s1 :: sem_sys where
  "sem_s1 = \<lparr>scount = - 2, spcs = (\<lambda>_. SOut)(1 := WT_sleep 0), posts = 0, takes = 0\<rparr>"

lemma sem_s1_reachable: "reachable (sem_start 0) sem_step sem_s1"
proof (rule sem_run_reachable[OF _ sem_s0_reachable])
  show "sem_run [SCall 1 (WT_entry False), SStep 1, SStep 1, SStep 1, SStep 1, SStep 1, SStep 1] sem_s0
    = Some sem_s1"
    by (simp add: sem_s0_def sem_s1_def sem_eval)
qed

text \<open>Thread 2 has posted and is about to wake thread 1.\<close>

definition sem_s2 :: sem_sys where
  "sem_s2 = \<lparr>scount = 2, spcs = (\<lambda>_. SOut)(1 := WT_sleep 0, 2 := PO_wake 0), posts = 1, takes = 0\<rparr>"

lemma sem_s2_reachable: "reachable (sem_start 0) sem_step sem_s2"
proof (rule sem_run_reachable[OF _ sem_s1_reachable])
  show "sem_run [SCall 2 (PO_entry False), SStep 2, SStep 2, SStep 2, SStep 2, SStep 2] sem_s1
    = Some sem_s2"
    by (simp add: sem_s1_def sem_s2_def sem_eval)
qed

section \<open>Properties\<close>



text \<open>
  C10. No lost wake-up on semaphores: whenever a thread sleeps in the futex call although a token is
  available, some thread inside \<open>sem_post\<close> has replaced -1 and has yet to call \<open>__futex_wake_ex\<close> for all
  sleepers.
\<close>

theorem sem_no_lost_wakeup:
  assumes "sem_init (Some x) pshared v = ((0, 0), Some w)" and "reachable (sem_start w) sem_step s"
    and "sem_asleep (spcs s t)" and "int (unat v) + int (posts s) - int (takes s) > 0"
  shows "\<exists>u sh. spcs s u = PO_wake sh \<or> (\<exists>r < 0. spcs s u = PO_inc sh (SL_done r))"
proof -
  obtain sh k where sh: "sh \<in> {0, 1}" and inv: "sem_inv_at sh (unat v) k s"
    by (rule sem_reachable_inv[OF assms(1,2)])
  note D = sem_inv_atD[OF inv]
  have "k \<noteq> - 1" using D(3) assms(4) by (auto simp: tokens_def)
  then obtain u where "waker (spcs s u)"
    using D(5) assms(3) by (auto simp: sem_sleep_ok_def)
  then show ?thesis unfolding waker_def by blast
qed

theorem sem_no_lost_wakeup_witness:
  "reachable (sem_start 0) sem_step sem_s2 \<and> sem_asleep (spcs sem_s2 1) \<and>
   (\<exists>u sh. spcs sem_s2 u = PO_wake sh \<or> (\<exists>r < 0. spcs sem_s2 u = PO_inc sh (SL_done r)))"
proof -
  have "sem_init (Some 5) 0 0 = ((0, 0), Some 0)" "sem_asleep (spcs sem_s2 1)"
    "int (unat (0 :: u32)) + int (posts sem_s2) - int (takes sem_s2) > 0"
    by (simp_all add: sem_init_def SEMCOUNT_FROM_VALUE_def sem_s2_def sem_asleep_def)
  then show ?thesis
    using sem_no_lost_wakeup[OF _ sem_s2_reachable] sem_s2_reachable by blast
qed

text \<open>A call by a thread that nobody interferes with.\<close>

fun sem_alone :: "nat \<Rightarrow> u32 \<Rightarrow> sem_pc \<Rightarrow> u32 \<times> sem_pc" where
  "sem_alone 0 v pc = (v, pc)"
| "sem_alone (Suc n) v pc = (case sem_exec sem_clock v pc of (v', pc') \<Rightarrow> sem_alone n v' pc')"

lemma even_of_int2 [simp]: "even (2 * a :: u32)"
  by simp

lemma semw_load:
  assumes "sh \<in> {0, 1}" "in_range k"
  shows "semw sh k AND SEMCOUNT_SHARED_MASK = sh" and "semw sh k AND SEMCOUNT_VALUE_MASK = of_int (2 * k)"
    and "SEMCOUNT_TO_VALUE (of_int (2 * k)) = k" and "(of_int (2 * k) OR sh) = semw sh k"
  using semw_bits[OF assms(1)] to_value_of_int[of k] assms(2) by (auto simp: in_range_def semw_def)

lemma sem_alone_5: "sem_alone 5 = sem_alone (Suc (Suc (Suc (Suc (Suc 0)))))"
  by (simp add: numeral_eq_Suc)

text \<open>
  The results of \<open>sem_post\<close> and \<open>sem_trywait\<close> on a semaphore with value \<open>k\<close>: a post returns 0 and
  makes the value \<open>max 0 k + 1\<close> (from -1 it goes on to wake the sleepers), at \<open>SEM_MAX_VALUE\<close> it returns
  -1 with \<open>EOVERFLOW\<close> and changes nothing; \<open>sem_trywait\<close> takes a token if there is one and otherwise
  returns -1 with \<open>EAGAIN\<close> and changes nothing.
\<close>

theorem sem_post_trywait_results:
  assumes "sh \<in> {0, 1}" and "- 1 \<le> k" and "k \<le> SEM_MAX_VALUE"
  shows "sem_alone 5 (semw sh k) (PO_entry False) =
      (if k = SEM_MAX_VALUE then (semw sh k, SOut)
       else (semw sh (max 0 k + 1), if k < 0 then PO_wake sh else SRet (0, 0))) \<and>
    sem_alone 4 (semw sh SEM_MAX_VALUE) (PO_entry False) = (semw sh SEM_MAX_VALUE, SRet (- 1, EOVERFLOW)) \<and>
    sem_alone 5 (semw sh k) (TR_entry False) =
      (if k > 0 then (semw sh (k - 1), SRet (0, 0)) else (semw sh k, SOut)) \<and>
    (k \<le> 0 \<longrightarrow> sem_alone 4 (semw sh k) (TR_entry False) = (semw sh k, SRet (- 1, EAGAIN)))"
proof -
  have k: "in_range k" "in_range SEM_MAX_VALUE" using assms(2,3) by (simp_all add: in_range_def)
  note L = semw_load[OF assms(1) k(1)] semw_load[OF assms(1) k(2)] sem_decrement[of k sh]
    sem_increment[of k sh] sem_one[of sh]
  have 4: "sem_alone 4 = sem_alone (Suc (Suc (Suc (Suc 0))))" by (simp add: numeral_eq_Suc)
  have "sem_alone 5 (semw sh k) (PO_entry False) =
      (if k = SEM_MAX_VALUE then (semw sh k, SOut)
       else (semw sh (max 0 k + 1), if k < 0 then PO_wake sh else SRet (0, 0)))"
    unfolding sem_alone_5 using L assms(2,3)
    by (cases "k < 0") (auto simp: SEM_GET_SHARED_def Let_def simp del: of_int_mult)
  moreover have "sem_alone 4 (semw sh SEM_MAX_VALUE) (PO_entry False)
      = (semw sh SEM_MAX_VALUE, SRet (- 1, EOVERFLOW))"
    unfolding 4 using L by (auto simp: SEM_GET_SHARED_def Let_def simp del: of_int_mult)
  moreover have "sem_alone 5 (semw sh k) (TR_entry False) =
      (if k > 0 then (semw sh (k - 1), SRet (0, 0)) else (semw sh k, SOut))"
    unfolding sem_alone_5 using L by (auto simp: Let_def simp del: of_int_mult)
  moreover have "k \<le> 0 \<longrightarrow> sem_alone 4 (semw sh k) (TR_entry False) = (semw sh k, SRet (- 1, EAGAIN))"
    unfolding 4 using L by (auto simp: Let_def simp del: of_int_mult)
  ultimately show ?thesis by blast
qed

theorem sem_post_trywait_results_witness:
  "sem_alone 5 (semw 0 3) (PO_entry False) = (semw 0 4, SRet (0, 0)) \<and>
   sem_alone 4 (semw 1 0) (TR_entry False) = (semw 1 0, SRet (- 1, EAGAIN))"
  using sem_post_trywait_results[of 0 3] sem_post_trywait_results[of 1 0] by simp

text \<open>Thread 1 calls \<open>sem_timedwait\<close> on an empty semaphore and the call times out.\<close>

definition sem_timed_out :: sem_sys where
  "sem_timed_out = \<lparr>scount = - 2, spcs = (\<lambda>_. SOut), posts = 0, takes = 0\<rparr>"

lemma sem_timed_out_reachable: "reachable (sem_start 0) sem_step sem_timed_out"
proof -
  let ?ab = "\<lparr>tv_sec = 1, tv_nsec = 0\<rparr> :: timespec"
  let ?s = "\<lambda>v q. \<lparr>scount = v, spcs = (\<lambda>_. SOut)(1 := q), posts = 0, takes = 0\<rparr> :: sem_sys"
  have 1: "sem_run [SCall 1 (TW_entry False (Some ?ab)), SStep 1, SStep 1, SStep 1, SStep 1] sem_s0
      = Some (?s 0 (TW_check (Some ?ab)))"
    by (simp add: sem_s0_def sem_eval)
  have 2: "sem_run [SStep 1, SStep 1, SStep 1, SStep 1, SStep 1] (?s 0 (TW_check (Some ?ab)))
      = Some (?s (- 2) (TW_dec ?ab 0 ?ab (SL_done 0)))"
    by (simp add: sem_eval abs_timeout_ok_def timespec_sub_def Let_def)
  have 3: "sem_run [SStep 1, SStep 1, SReturn 1 (- ETIMEDOUT), SStep 1]
      (?s (- 2) (TW_dec ?ab 0 ?ab (SL_done 0))) = Some sem_timed_out"
    by (simp add: sem_eval sem_timed_out_def fun_upd_idem)
  show ?thesis
    by (rule sem_run_reachable[OF 3 sem_run_reachable[OF 2 sem_run_reachable[OF 1 sem_s0_reachable]]])
qed

text \<open>
  A timed-out wait leaves its mark: there is a reachable state in which no thread is inside a
  semaphore function and nobody waits, and \<open>sem_destroy\<close> refuses with \<open>EBUSY\<close> because the word still
  says -1.
\<close>

theorem sem_destroy_busy_without_waiters:
  "\<exists>s. reachable (sem_start 0) sem_step s \<and> (\<forall>t. spcs s t = SOut) \<and>
    sem_destroy (Some (scount s)) = ((- 1, EBUSY), Some (scount s))"
  using sem_timed_out_reachable
  by (intro exI[of _ sem_timed_out]) (simp add: sem_timed_out_def sem_destroy_def to_value_div)

end
