(* ===== verification/Pthread_Cond.thy ===== *)
theory Pthread_Cond
  imports Pthread_Time
begin

unbundle bit_operations_syntax

text \<open>
  Condition variables of \<open>libc/bionic/pthread.c\<close>. A condition variable is a 32-bit word: bit 0 is
  the process-shared flag, the rest a counter that every signal and broadcast decrements. Waiting
  compares the word read under the mutex with the word at the time of the futex call. The mutex is
  an exclusive lock here, which is what the theorems on mutexes show of it.
\<close>

section \<open>Attributes, initialisation\<close>

abbreviation (input) COND_PROCESS_PRIVATE :: u32 where "COND_PROCESS_PRIVATE \<equiv> 0"

abbreviation (input) COND_PROCESS_SHARED :: u32 where "COND_PROCESS_SHARED \<equiv> 1"

definition pthread_condattr_init :: "u32 option \<Rightarrow> int \<times> u32 option" where
  "pthread_condattr_init attr =
     (case attr of None \<Rightarrow> (EINVAL, None) | Some _ \<Rightarrow> (0, Some COND_PROCESS_PRIVATE))"

definition pthread_condattr_getpshared :: "u32 option \<Rightarrow> bool \<Rightarrow> int \<times> u32 option" where
  "pthread_condattr_getpshared attr pshared_nonnull =
     (case attr of None \<Rightarrow> (EINVAL, None)
      | Some a \<Rightarrow> if \<not> pshared_nonnull then (EINVAL, None) else (0, Some a))"

definition pthread_condattr_setpshared :: "u32 option \<Rightarrow> u32 \<Rightarrow> int \<times> u32 option" where
  "pthread_condattr_setpshared attr pshared =
     (case attr of None \<Rightarrow> (EINVAL, None)
      | Some a \<Rightarrow>
          if pshared \<noteq> COND_PROCESS_SHARED \<and> pshared \<noteq> COND_PROCESS_PRIVATE then (EINVAL, Some a)
          else (0, Some pshared))"

definition pthread_condattr_destroy :: "u32 option \<Rightarrow> int \<times> u32 option" where
  "pthread_condattr_destroy attr =
     (case attr of None \<Rightarrow> (EINVAL, None) | Some _ \<Rightarrow> (0, Some 0xdeada11d))"

abbreviation (input) COND_SHARED_MASK :: u32 where "COND_SHARED_MASK \<equiv> 1"

abbreviation (input) COND_COUNTER_INCREMENT :: u32 where "COND_COUNTER_INCREMENT \<equiv> 2"

abbreviation (input) COND_COUNTER_MASK :: u32 where "COND_COUNTER_MASK \<equiv> NOT COND_SHARED_MASK"

definition COND_IS_SHARED :: "u32 \<Rightarrow> bool" where
  "COND_IS_SHARED c \<longleftrightarrow> c AND COND_SHARED_MASK \<noteq> 0"

definition pthread_cond_init :: "u32 option \<Rightarrow> u32 option \<Rightarrow> int \<times> u32 option" where
  "pthread_cond_init cond attr =
     (case cond of None \<Rightarrow> (EINVAL, None)
      | Some _ \<Rightarrow> (0, Some (if attr = Some COND_PROCESS_SHARED then 0 OR COND_SHARED_MASK else 0)))"

definition pthread_cond_destroy :: "u32 option \<Rightarrow> int \<times> u32 option" where
  "pthread_cond_destroy cond =
     (case cond of None \<Rightarrow> (EINVAL, None) | Some _ \<Rightarrow> (0, Some 0xdeadc04d))"

section \<open>Signal and broadcast\<close>

text \<open>The new value of one round of the compare-and-swap loop.\<close>

definition cond_newval :: "u32 \<Rightarrow> u32 \<Rightarrow> u32" where
  "cond_newval flags oldval = ((oldval - COND_COUNTER_INCREMENT) AND COND_COUNTER_MASK) OR flags"

text \<open>
  \<open>__pthread_cond_pulse\<close>. The arguments are \<open>counter\<close> and the locals \<open>flags\<close> and \<open>oldval\<close>. \<open>CP_wake\<close> is the
  call of \<open>__futex_wake_ex\<close>.
\<close>

datatype cp_pc = CP_entry bool nat | CP_read u32 nat | CP_cas u32 u32 nat | CP_wake nat | CP_ret int

abbreviation (input) INT_MAX :: nat where "INT_MAX \<equiv> 2147483647"

definition pthread_cond_broadcast :: "bool \<Rightarrow> cp_pc" where
  "pthread_cond_broadcast null = CP_entry null INT_MAX"

definition pthread_cond_signal :: "bool \<Rightarrow> cp_pc" where
  "pthread_cond_signal null = CP_entry null 1"

fun pthread_cond_pulse :: "u32 \<Rightarrow> cp_pc \<Rightarrow> u32 \<times> cp_pc" where
  "pthread_cond_pulse v (CP_entry null counter) =
     (v, if null then CP_ret EINVAL else CP_read (v AND NOT COND_COUNTER_MASK) counter)"
| "pthread_cond_pulse v (CP_read flags counter) = (v, CP_cas flags v counter)"
| "pthread_cond_pulse v (CP_cas flags oldval counter) =
     (if v = oldval then (cond_newval flags oldval, CP_wake counter) else (v, CP_read flags counter))"
| "pthread_cond_pulse v (CP_wake counter) = (v, CP_ret 0)"
| "pthread_cond_pulse v (CP_ret r) = (v, CP_ret r)"

section \<open>Waiting\<close>

text \<open>
  \<open>CW_abs\<close> is \<open>__pthread_cond_timedwait\<close>, from \<open>CW_read\<close> on it is
  \<open>__pthread_cond_timedwait_relative\<close>. The arguments are the timeout (\<open>None\<close> for the null pointer),
  the local \<open>oldvalue\<close> and the status of the futex call.
\<close>

datatype cw_pc =
    CW_abs "timespec option"
  | CW_read "timespec option"
  | CW_unlock "timespec option" u32
  | CW_wait "timespec option" u32
  | CW_sleep "timespec option" u32
  | CW_lock int
  | CW_ret int

definition pthread_cond_wait :: cw_pc where
  "pthread_cond_wait = CW_abs None"

definition pthread_cond_timedwait :: "timespec option \<Rightarrow> cw_pc" where
  "pthread_cond_timedwait abstime = CW_abs abstime"

definition pthread_cond_timedwait_monotonic :: "timespec option \<Rightarrow> cw_pc" where
  "pthread_cond_timedwait_monotonic abstime = CW_abs abstime"

definition pthread_cond_timedwait_relative_np :: "timespec option \<Rightarrow> cw_pc" where
  "pthread_cond_timedwait_relative_np reltime = CW_read reltime"

definition pthread_cond_timeout_np :: "u32 \<Rightarrow> cw_pc" where
  "pthread_cond_timeout_np msecs =
     CW_read (Some \<lparr>tv_sec = uint (msecs div 1000), tv_nsec = uint ((msecs mod 1000) * 1000000)\<rparr>)"

text \<open>
  One step of a waiter: the condition word, the mutex (\<open>Some t\<close> when thread \<open>t\<close> holds it), the program
  point. \<open>None\<close> means the thread is blocked: asleep in the futex call, or waiting for the mutex.
\<close>

fun cond_timedwait :: "timespec \<Rightarrow> tid \<Rightarrow> u32 \<Rightarrow> tid option \<Rightarrow> cw_pc \<Rightarrow> (tid option \<times> cw_pc) option" where
  "cond_timedwait now t v m (CW_abs None) = Some (m, CW_read None)"
| "cond_timedwait now t v m (CW_abs (Some abstime)) =
     (case timespec_to_absolute now abstime of
        (r, ts) \<Rightarrow> Some (m, if r < 0 then CW_ret ETIMEDOUT else CW_read (Some ts)))"
| "cond_timedwait now t v m (CW_read tsp) = Some (m, CW_unlock tsp v)"
| "cond_timedwait now t v m (CW_unlock tsp oldvalue) = Some (None, CW_wait tsp oldvalue)"
| "cond_timedwait now t v m (CW_wait tsp oldvalue) =
     Some (m, if v = oldvalue then CW_sleep tsp oldvalue else CW_lock (- EAGAIN))"
| "cond_timedwait now t v m (CW_sleep tsp oldvalue) = None"
| "cond_timedwait now t v m (CW_lock status) =
     (if m = None then Some (Some t, CW_ret (if status = - ETIMEDOUT then ETIMEDOUT else 0)) else None)"
| "cond_timedwait now t v m (CW_ret r) = Some (m, CW_ret r)"

text \<open>How the futex call of a sleeper can return: woken, timed out, or interrupted.\<close>

fun cond_wakeup :: "cw_pc \<Rightarrow> int \<Rightarrow> cw_pc option" where
  "cond_wakeup (CW_sleep tsp oldvalue) status =
     (if status = 0 \<or> status = - EINTR \<or> status = - ETIMEDOUT \<and> tsp \<noteq> None
      then Some (CW_lock status) else None)"
| "cond_wakeup _ _ = None"

section \<open>Threads sharing a condition variable and its mutex\<close>

datatype cpc = COut | CWait cw_pc | CPulse cp_pc

text \<open>
  Besides the program state: the number of successful compare-and-swaps so far, the index of the
  last one by a broadcast, and for each thread that index at its last read of the word. No step
  reads these three.
\<close>

record csys =
  cval :: u32
  cmutex :: "tid option"
  cpcs :: "tid \<Rightarrow> cpc"
  npulse :: nat
  lastb :: nat
  stamp :: "tid \<Rightarrow> nat"

definition wake_all :: "(tid \<Rightarrow> cpc) \<Rightarrow> tid \<Rightarrow> cpc" where
  "wake_all pcs = (\<lambda>u. case pcs u of CWait pc \<Rightarrow> (case cond_wakeup pc 0 of Some pc' \<Rightarrow> CWait pc'
                                                       | None \<Rightarrow> CWait pc)
                       | q \<Rightarrow> q)"

fun cond_asleep :: "cpc \<Rightarrow> bool" where
  "cond_asleep (CWait (CW_sleep _ _)) = True"
| "cond_asleep _ = False"

inductive cond_step :: "csys \<Rightarrow> csys \<Rightarrow> bool" where
  mutex_lock: "cpcs s t = COut \<Longrightarrow> cmutex s = None \<Longrightarrow> cond_step s (s\<lparr>cmutex := Some t\<rparr>)"
| mutex_unlock: "cpcs s t = COut \<Longrightarrow> cmutex s = Some t \<Longrightarrow> cond_step s (s\<lparr>cmutex := None\<rparr>)"
| call_wait: "cpcs s t = COut \<Longrightarrow> cmutex s = Some t \<Longrightarrow>
    pc = pthread_cond_timedwait tsp \<or> pc = pthread_cond_timedwait_relative_np tsp \<Longrightarrow>
    cond_step s (s\<lparr>cpcs := (cpcs s)(t := CWait pc)\<rparr>)"
| call_pulse: "cpcs s t = COut \<Longrightarrow> pc = pthread_cond_broadcast b \<or> pc = pthread_cond_signal b \<Longrightarrow>
    cond_step s (s\<lparr>cpcs := (cpcs s)(t := CPulse pc)\<rparr>)"
| wait_run: "cpcs s t = CWait pc \<Longrightarrow> cond_timedwait now t (cval s) (cmutex s) pc = Some (m', pc') \<Longrightarrow>
    cond_step s (s\<lparr>cmutex := m', cpcs := (cpcs s)(t := CWait pc'),
      stamp := (if \<exists>tsp. pc = CW_read tsp then (stamp s)(t := npulse s) else stamp s)\<rparr>)"
| futex_return: "cpcs s t = CWait pc \<Longrightarrow> cond_wakeup pc status = Some pc' \<Longrightarrow>
    cond_step s (s\<lparr>cpcs := (cpcs s)(t := CWait pc')\<rparr>)"
| pulse_run: "cpcs s t = CPulse pc \<Longrightarrow> \<forall>c. pc \<noteq> CP_wake c \<Longrightarrow>
    pthread_cond_pulse (cval s) pc = (v', pc') \<Longrightarrow>
    cond_step s (s\<lparr>cval := v', cpcs := (cpcs s)(t := CPulse pc'),
      npulse := (case pc' of CP_wake _ \<Rightarrow> Suc (npulse s) | _ \<Rightarrow> npulse s),
      lastb := (case pc' of CP_wake c \<Rightarrow> if c = INT_MAX then Suc (npulse s) else lastb s
                | _ \<Rightarrow> lastb s)\<rparr>)"
| wake_everyone: "cpcs s t = CPulse (CP_wake INT_MAX) \<Longrightarrow>
    cond_step s (s\<lparr>cpcs := (wake_all (cpcs s))(t := CPulse (CP_ret 0))\<rparr>)"
| wake_one: "cpcs s t = CPulse (CP_wake 1) \<Longrightarrow> cpcs s u = CWait pc \<Longrightarrow> cond_wakeup pc 0 = Some pc' \<Longrightarrow>
    cond_step s (s\<lparr>cpcs := (cpcs s)(t := CPulse (CP_ret 0), u := CWait pc')\<rparr>)"
| wake_nobody: "cpcs s t = CPulse (CP_wake 1) \<Longrightarrow> \<forall>u. \<not> cond_asleep (cpcs s u) \<Longrightarrow>
    cond_step s (s\<lparr>cpcs := (cpcs s)(t := CPulse (CP_ret 0))\<rparr>)"
| return_wait: "cpcs s t = CWait (CW_ret r) \<Longrightarrow> cond_step s (s\<lparr>cpcs := (cpcs s)(t := COut)\<rparr>)"
| return_pulse: "cpcs s t = CPulse (CP_ret r) \<Longrightarrow> cond_step s (s\<lparr>cpcs := (cpcs s)(t := COut)\<rparr>)"

definition cond_start :: "u32 \<Rightarrow> csys \<Rightarrow> bool" where
  "cond_start c0 s \<longleftrightarrow> cval s = c0 \<and> cmutex s = None \<and> (\<forall>t. cpcs s t = COut) \<and> npulse s = 0 \<and>
     lastb s = 0 \<and> (\<forall>t. stamp s t = 0)"

section \<open>The word as a counter\<close>

lemma cond_newval_sub:
  assumes "flags = c AND 1"
  shows "cond_newval flags c = c - 2"
proof -
  have "(c - 2) AND 1 = c AND 1"
    by (simp add: and_one_eq mod2_eq_if)
  moreover have "((c - 2) AND NOT 1) OR ((c - 2) AND 1) = c - 2"
    by (rule bit_word_eqI) (auto simp: bit_simps)
  ultimately show ?thesis
    unfolding cond_newval_def assms by simp
qed

text \<open>The word after \<open>k\<close> pulses.\<close>

definition cond_word :: "u32 \<Rightarrow> nat \<Rightarrow> u32" where
  "cond_word c0 k = c0 - of_nat (2 * k)"

lemma cond_word_flag: "cond_word c0 k AND 1 = c0 AND 1"
  by (simp add: cond_word_def and_one_eq mod2_eq_if)

lemma cond_word_Suc: "cond_newval (c0 AND 1) (cond_word c0 k) = cond_word c0 (Suc k)"
  using cond_newval_sub[of "c0 AND 1" "cond_word c0 k"]
  by (simp add: cond_word_flag) (simp add: cond_word_def)

lemma cond_word_eq_iff: "cond_word c0 (j + k) = cond_word c0 j \<longleftrightarrow> 2 ^ 31 dvd k"
proof -
  have "cond_word c0 (j + k) = cond_word c0 j \<longleftrightarrow> of_nat (2 * k) = (0 :: u32)"
    by (simp add: cond_word_def algebra_simps)
  also have "\<dots> \<longleftrightarrow> 2 ^ 32 dvd 2 * k"
    by (simp only: word_of_nat_eq_0_iff) simp
  also have "\<dots> \<longleftrightarrow> 2 ^ 31 dvd k"
    using nat_mult_dvd_cancel_disj[of 2 "2 ^ 31" k] by simp
  finally show ?thesis .
qed

section \<open>Invariants\<close>

fun wait_old :: "cpc \<Rightarrow> u32 option" where
  "wait_old (CWait (CW_unlock _ oldvalue)) = Some oldvalue"
| "wait_old (CWait (CW_wait _ oldvalue)) = Some oldvalue"
| "wait_old (CWait (CW_sleep _ oldvalue)) = Some oldvalue"
| "wait_old _ = None"

fun pulse_flags :: "cpc \<Rightarrow> u32 option" where
  "pulse_flags (CPulse (CP_read flags _)) = Some flags"
| "pulse_flags (CPulse (CP_cas flags _ _)) = Some flags"
| "pulse_flags _ = None"

text \<open>Waiters that hold the mutex, and waiters that do not.\<close>

fun wait_holds :: "cpc \<Rightarrow> bool" where
  "wait_holds (CWait (CW_wait _ _)) = False"
| "wait_holds (CWait (CW_sleep _ _)) = False"
| "wait_holds (CWait (CW_lock _)) = False"
| "wait_holds (CWait _) = True"
| "wait_holds _ = False"

definition word_inv :: "u32 \<Rightarrow> csys \<Rightarrow> bool" where
  "word_inv c0 s \<longleftrightarrow> cval s = cond_word c0 (npulse s) \<and> lastb s \<le> npulse s \<and>
     (\<forall>t f. pulse_flags (cpcs s t) = Some f \<longrightarrow> f = c0 AND 1)"

definition stamp_inv :: "u32 \<Rightarrow> csys \<Rightarrow> bool" where
  "stamp_inv c0 s \<longleftrightarrow> (\<forall>t old. wait_old (cpcs s t) = Some old \<longrightarrow>
     old = cond_word c0 (stamp s t) \<and> stamp s t \<le> npulse s)"

definition cmutex_inv :: "csys \<Rightarrow> bool" where
  "cmutex_inv s \<longleftrightarrow> (\<forall>t. wait_holds (cpcs s t) \<longrightarrow> cmutex s = Some t)"

definition wake_inv :: "csys \<Rightarrow> bool" where
  "wake_inv s \<longleftrightarrow> (\<forall>t. cond_asleep (cpcs s t) \<and> npulse s < stamp s t + 2 ^ 31 \<and> stamp s t < lastb s \<longrightarrow>
     (\<exists>u. cpcs s u = CPulse (CP_wake INT_MAX)))"

lemma cond_wakeup_shape:
  "cond_wakeup pc status = Some pc' \<Longrightarrow> (\<exists>tsp old. pc = CW_sleep tsp old) \<and> (\<exists>st. pc' = CW_lock st)"
  by (cases pc) (auto split: if_splits)

lemma wake_all_shape:
  "wake_all pcs u = pcs u \<or> (\<exists>tsp old st. pcs u = CWait (CW_sleep tsp old) \<and> wake_all pcs u = CWait (CW_lock st))"
  by (auto simp: wake_all_def split: cpc.splits option.splits dest: cond_wakeup_shape)

lemma wake_all_awake: "\<not> cond_asleep (wake_all pcs u)"
proof (cases "pcs u")
  case (CWait pc)
  then show ?thesis by (cases pc) (auto simp: wake_all_def)
qed (auto simp: wake_all_def)

lemmas cond_calls = pthread_cond_timedwait_def pthread_cond_timedwait_relative_np_def
  pthread_cond_broadcast_def pthread_cond_signal_def

lemma pulse_word:
  assumes "cval s = cond_word c0 n" and "pulse_flags (CPulse pc) \<in> {None, Some (c0 AND 1)}"
    and "pthread_cond_pulse (cval s) pc = (v', pc')" and "\<forall>c. pc \<noteq> CP_wake c"
  shows "v' = cond_word c0 (case pc' of CP_wake _ \<Rightarrow> Suc n | _ \<Rightarrow> n) \<and>
    pulse_flags (CPulse pc') \<in> {None, Some (c0 AND 1)}"
  using assms
  by (cases pc) (auto split: if_splits simp: cond_word_Suc[symmetric] cond_word_flag)

lemma word_inv_step: "word_inv c0 s \<Longrightarrow> cond_step s s' \<Longrightarrow> word_inv c0 s'"
proof (erule cond_step.cases, goal_cases)
  case (7 s t pc v' pc')
  then have "pulse_flags (CPulse pc) \<in> {None, Some (c0 AND 1)}"
    unfolding word_inv_def by (metis insertCI not_Some_eq)
  then show ?case
    using 7 pulse_word[of s c0 "npulse s" pc v' pc']
    by (auto simp: word_inv_def split: cp_pc.splits)
next
  case (5 s t pc now m' pc')
  then show ?case by (auto simp: word_inv_def)
next
  case (6 s t pc status pc')
  then show ?case by (auto simp: word_inv_def)
next
  case (8 s t)
  have "pulse_flags (wake_all (cpcs s) u) = pulse_flags (cpcs s u)" for u
    using wake_all_shape[of "cpcs s" u] by auto
  then show ?case using 8 by (auto simp: word_inv_def)
qed (auto simp: word_inv_def cond_calls)

lemma wait_run_old:
  assumes "cond_timedwait now t v m pc = Some (m', pc')" and "wait_old (CWait pc') = Some old"
  shows "(\<exists>tsp. pc = CW_read tsp) \<and> old = v \<or> (\<forall>tsp. pc \<noteq> CW_read tsp) \<and> wait_old (CWait pc) = Some old"
  using assms
  by (induction now t v m pc rule: cond_timedwait.induct) (auto split: if_splits prod.splits)

lemma stamp_inv_step: "stamp_inv c0 s \<Longrightarrow> word_inv c0 s \<Longrightarrow> cond_step s s' \<Longrightarrow> stamp_inv c0 s'"
proof (erule cond_step.cases, goal_cases)
  case (5 s t pc now m' pc')
  then show ?case
    using wait_run_old[of now t "cval s" "cmutex s" pc m' pc']
    by (auto simp: stamp_inv_def word_inv_def)
next
  case (6 s t pc status pc')
  then show ?case using cond_wakeup_shape[of pc status pc'] by (auto simp: stamp_inv_def)
next
  case (7 s t pc v' pc')
  then show ?case by (auto simp: stamp_inv_def le_SucI split: cp_pc.splits)
next
  case (8 s t)
  have "wait_old (wake_all (cpcs s) u) = Some old \<Longrightarrow> wait_old (cpcs s u) = Some old" for u old
    using wake_all_shape[of "cpcs s" u] by auto
  then show ?case using 8 by (auto simp: stamp_inv_def)
next
  case (9 s t u pc pc')
  then show ?case using cond_wakeup_shape[of pc 0 pc'] by (auto simp: stamp_inv_def)
qed (auto simp: stamp_inv_def cond_calls)

lemma wait_run_mutex:
  assumes "cond_timedwait now t v m pc = Some (m', pc')" and "wait_holds (CWait pc) \<longrightarrow> m = Some t"
  shows "(wait_holds (CWait pc') \<longrightarrow> m' = Some t) \<and> (m' = m \<or> m = Some t \<or> m = None)"
  using assms
  by (induction now t v m pc rule: cond_timedwait.induct) (auto split: if_splits prod.splits)

lemma cmutex_inv_step: "cmutex_inv s \<Longrightarrow> cond_step s s' \<Longrightarrow> cmutex_inv s'"
proof (erule cond_step.cases, goal_cases)
  case (1 s t)
  then show ?case by (fastforce simp: cmutex_inv_def)
next
  case (2 s t)
  then show ?case by (fastforce simp: cmutex_inv_def)
next
  case (5 s t pc now m' pc')
  then have *: "(wait_holds (CWait pc') \<longrightarrow> m' = Some t) \<and> (m' = cmutex s \<or> cmutex s = Some t \<or> cmutex s = None)"
    using wait_run_mutex[of now t "cval s" "cmutex s" pc m' pc'] by (simp add: cmutex_inv_def)
  show ?case
    unfolding cmutex_inv_def
  proof (intro allI impI)
    fix u assume "wait_holds (cpcs s' u)"
    then show "cmutex s' = Some u" using 5 * unfolding cmutex_inv_def by (cases "u = t") auto
  qed
next
  case (6 s t pc status pc')
  then show ?case using cond_wakeup_shape[of pc status pc'] by (auto simp: cmutex_inv_def)
next
  case (8 s t)
  have "wait_holds (wake_all (cpcs s) u) \<Longrightarrow> wait_holds (cpcs s u)" for u
    using wake_all_shape[of "cpcs s" u] by auto
  then show ?case using 8 by (auto simp: cmutex_inv_def)
next
  case (9 s t u pc pc')
  then show ?case using cond_wakeup_shape[of pc 0 pc'] by (auto simp: cmutex_inv_def)
qed (auto simp: cmutex_inv_def cond_calls)

lemma wake_inv_upd:
  assumes "wake_inv s" and "npulse s' = npulse s" and "lastb s' = lastb s"
    and "cpcs s' = (cpcs s)(t := q)" and "\<And>u. u \<noteq> t \<Longrightarrow> stamp s' u = stamp s u"
    and "\<not> cond_asleep q" and "cpcs s t \<noteq> CPulse (CP_wake INT_MAX)"
  shows "wake_inv s'"
  unfolding wake_inv_def
proof (intro allI impI)
  fix u
  assume a: "cond_asleep (cpcs s' u) \<and> npulse s' < stamp s' u + 2 ^ 31 \<and> stamp s' u < lastb s'"
  then have "u \<noteq> t" using assms(4,6) by auto
  then obtain x where "cpcs s x = CPulse (CP_wake INT_MAX)"
    using a assms unfolding wake_inv_def by auto
  then show "\<exists>x. cpcs s' x = CPulse (CP_wake INT_MAX)"
    using assms(4,7) by (intro exI[of _ x]) auto
qed

lemma wait_run_asleep:
  assumes "cond_timedwait now t v m pc = Some (m', pc')" and "cond_asleep (CWait pc')"
  shows "wait_old (CWait pc) = Some v \<and> (\<forall>tsp. pc \<noteq> CW_read tsp)"
  using assms
  by (induction now t v m pc rule: cond_timedwait.induct) (auto split: if_splits prod.splits)

lemma cond_word_inj: "cond_word c0 j = cond_word c0 k \<Longrightarrow> j \<le> k \<Longrightarrow> k < j + 2 ^ 31 \<Longrightarrow> j = k"
proof -
  assume "cond_word c0 j = cond_word c0 k" "j \<le> k" "k < j + 2 ^ 31"
  then have "2 ^ 31 dvd (k - j)" using cond_word_eq_iff[of c0 j "k - j"] by simp
  moreover have "k - j < 2 ^ 31" using \<open>k < j + 2 ^ 31\<close> \<open>j \<le> k\<close> by linarith
  ultimately show "j = k" using \<open>j \<le> k\<close> by (metis diff_is_0_eq le_antisym nat_dvd_not_less neq0_conv)
qed

lemma wake_inv_wait:
  assumes inv: "wake_inv s" and w: "word_inv c0 s" and st: "stamp_inv c0 s" and pc: "cpcs s t = CWait pc"
    and ex: "cond_timedwait now t (cval s) (cmutex s) pc = Some (m', pc')"
    and s': "s' = s\<lparr>cmutex := m', cpcs := (cpcs s)(t := CWait pc'),
      stamp := (if \<exists>tsp. pc = CW_read tsp then (stamp s)(t := npulse s) else stamp s)\<rparr>"
  shows "wake_inv s'"
proof (cases "cond_asleep (CWait pc')")
  case False
  then show ?thesis
    by (intro wake_inv_upd[OF inv, of _ t "CWait pc'"]) (auto simp: s' pc)
next
  case True
  note old = wait_run_asleep[OF ex True]
  have "cval s = cond_word c0 (stamp s t)" "stamp s t \<le> npulse s"
    using st pc old unfolding stamp_inv_def by metis+
  moreover have "cval s = cond_word c0 (npulse s)" and l: "lastb s \<le> npulse s"
    using w by (simp_all add: word_inv_def)
  ultimately have *: "npulse s < stamp s t + 2 ^ 31 \<Longrightarrow> lastb s \<le> stamp s t"
    using cond_word_inj[of c0 "stamp s t" "npulse s"] by simp
  show ?thesis
    unfolding wake_inv_def
  proof (intro allI impI)
    fix u
    assume a: "cond_asleep (cpcs s' u) \<and> npulse s' < stamp s' u + 2 ^ 31 \<and> stamp s' u < lastb s'"
    have "u \<noteq> t" using a * old s' by auto
    then obtain x where "cpcs s x = CPulse (CP_wake INT_MAX)"
      using a inv old s' unfolding wake_inv_def by auto
    then show "\<exists>x. cpcs s' x = CPulse (CP_wake INT_MAX)"
      using pc s' by (intro exI[of _ x]) auto
  qed
qed

lemma wake_inv_pulse:
  assumes inv: "wake_inv s" and pc: "cpcs s t = CPulse pc" "\<forall>c. pc \<noteq> CP_wake c"
    and ex: "pthread_cond_pulse (cval s) pc = (v', pc')"
    and s': "s' = s\<lparr>cval := v', cpcs := (cpcs s)(t := CPulse pc'),
      npulse := (case pc' of CP_wake _ \<Rightarrow> Suc (npulse s) | _ \<Rightarrow> npulse s),
      lastb := (case pc' of CP_wake c \<Rightarrow> if c = INT_MAX then Suc (npulse s) else lastb s
                | _ \<Rightarrow> lastb s)\<rparr>"
  shows "wake_inv s'"
  unfolding wake_inv_def
proof (intro allI impI)
  fix u
  assume a: "cond_asleep (cpcs s' u) \<and> npulse s' < stamp s' u + 2 ^ 31 \<and> stamp s' u < lastb s'"
  show "\<exists>x. cpcs s' x = CPulse (CP_wake INT_MAX)"
  proof (cases "pc' = CP_wake INT_MAX")
    case True
    then show ?thesis using s' by (intro exI[of _ t]) simp
  next
    case False
    then have "lastb s' = lastb s" "npulse s \<le> npulse s'"
      using s' by (auto split: cp_pc.splits)
    moreover have "cond_asleep (cpcs s u)" "stamp s' u = stamp s u"
      using a s' by (auto split: if_splits)
    ultimately obtain x where "cpcs s x = CPulse (CP_wake INT_MAX)"
      using a inv unfolding wake_inv_def by (metis le_less_trans)
    then show ?thesis using pc s' by (intro exI[of _ x]) auto
  qed
qed

lemma wake_inv_step:
  "wake_inv s \<Longrightarrow> word_inv c0 s \<Longrightarrow> stamp_inv c0 s \<Longrightarrow> cond_step s s' \<Longrightarrow> wake_inv s'"
proof (erule cond_step.cases, goal_cases)
  case (5 s t pc now m' pc')
  then show ?case using wake_inv_wait by blast
next
  case (7 s t pc v' pc')
  then show ?case using wake_inv_pulse by blast
next
  case (8 s t)
  then show ?case using wake_all_awake[of "cpcs s"] by (auto simp: wake_inv_def)
next
  case (6 s t pc status pc')
  then show ?case using cond_wakeup_shape[of pc status pc']
    by (intro wake_inv_upd[of s s' t "CWait pc'"]) auto
next
  case (9 s t u pc pc')
  have "wake_inv (s\<lparr>cpcs := (cpcs s)(t := CPulse (CP_ret 0))\<rparr>)"
    by (rule wake_inv_upd[of s _ t "CPulse (CP_ret 0)"]) (use 9 in auto)
  then show ?case using cond_wakeup_shape[of pc 0 pc'] 9
    by (intro wake_inv_upd[of "s\<lparr>cpcs := (cpcs s)(t := CPulse (CP_ret 0))\<rparr>" s' u "CWait pc'"]) auto
next
  case (1 s t)
  then show ?case by (simp add: wake_inv_def)
next
  case (2 s t)
  then show ?case by (simp add: wake_inv_def)
next
  case (3 s t pc tsp)
  then show ?case by (intro wake_inv_upd[of s s' t "CWait pc"]) (auto simp: cond_calls)
next
  case (4 s t pc b)
  then show ?case by (intro wake_inv_upd[of s s' t "CPulse pc"]) auto
next
  case (10 s t)
  then show ?case by (intro wake_inv_upd[of s s' t "CPulse (CP_ret 0)"]) auto
next
  case (11 s t r)
  then show ?case by (intro wake_inv_upd[of s s' t COut]) auto
next
  case (12 s t r)
  then show ?case by (intro wake_inv_upd[of s s' t COut]) auto
qed

definition cond_inv :: "u32 \<Rightarrow> csys \<Rightarrow> bool" where
  "cond_inv c0 s \<longleftrightarrow> word_inv c0 s \<and> stamp_inv c0 s \<and> cmutex_inv s \<and> wake_inv s"

interpretation cond_system: invariant_system "cond_start c0" cond_step "cond_inv c0"
proof
  show "cond_start c0 s \<Longrightarrow> cond_inv c0 s" for s
    by (simp add: cond_start_def cond_inv_def word_inv_def stamp_inv_def cmutex_inv_def wake_inv_def
        cond_word_def)
  show "cond_inv c0 s \<Longrightarrow> cond_step s t \<Longrightarrow> cond_inv c0 t" for s t
    unfolding cond_inv_def using word_inv_step stamp_inv_step cmutex_inv_step wake_inv_step by blast
qed

section \<open>A concrete run\<close>

text \<open>
  Thread 1 locks the mutex, waits and falls asleep; thread 2 broadcasts and is about to call
  \<open>__futex_wake_ex\<close>.
\<close>

definition cond_s0 :: csys where
  "cond_s0 = \<lparr>cval = 0, cmutex = None, cpcs = (\<lambda>_. COut), npulse = 0, lastb = 0, stamp = (\<lambda>_. 0)\<rparr>"

definition cond_s1 :: csys where
  "cond_s1 = cond_s0\<lparr>cpcs := (\<lambda>_. COut)(1 := CWait (CW_sleep None 0))\<rparr>"

definition cond_s2 :: csys where
  "cond_s2 = \<lparr>cval = - 2, cmutex = None,
     cpcs = (\<lambda>_. COut)(1 := CWait (CW_sleep None 0), 2 := CPulse (CP_wake INT_MAX)),
     npulse = 1, lastb = 1, stamp = (\<lambda>_. 0)\<rparr>"

lemma cond_s1_reachable: "reachable (cond_start 0) cond_step cond_s1"
proof -
  let ?s = "\<lambda>m q. cond_s0\<lparr>cmutex := m, cpcs := (\<lambda>_. COut)(1 := q)\<rparr>"
  have r: "reachable (cond_start 0) cond_step cond_s0"
    by (rule reachable.start) (simp add: cond_start_def cond_s0_def)
  have 1: "cond_step cond_s0 (?s (Some 1) COut)"
    using cond_step.mutex_lock[of cond_s0 1] by (simp add: cond_s0_def fun_upd_idem)
  have 2: "cond_step (?s (Some 1) COut) (?s (Some 1) (CWait (CW_abs None)))"
    using cond_step.call_wait[of "?s (Some 1) COut" 1 "CW_abs None" None] by (simp add: cond_calls)
  have 3: "cond_step (?s (Some 1) (CWait (CW_abs None))) (?s (Some 1) (CWait (CW_read None)))"
    using cond_step.wait_run[of "?s (Some 1) (CWait (CW_abs None))" 1 "CW_abs None"]
    by (simp add: cond_s0_def)
  have 4: "cond_step (?s (Some 1) (CWait (CW_read None))) (?s (Some 1) (CWait (CW_unlock None 0)))"
    using cond_step.wait_run[of "?s (Some 1) (CWait (CW_read None))" 1 "CW_read None"]
    by (simp add: cond_s0_def fun_upd_idem)
  have 5: "cond_step (?s (Some 1) (CWait (CW_unlock None 0))) (?s None (CWait (CW_wait None 0)))"
    using cond_step.wait_run[of "?s (Some 1) (CWait (CW_unlock None 0))" 1 "CW_unlock None 0"]
    by (simp add: cond_s0_def)
  have 6: "cond_step (?s None (CWait (CW_wait None 0))) cond_s1"
    using cond_step.wait_run[of "?s None (CWait (CW_wait None 0))" 1 "CW_wait None 0"]
    by (simp add: cond_s0_def cond_s1_def)
  show ?thesis
    by (rule reachable.step[OF reachable.step[OF reachable.step[OF reachable.step[OF reachable.step[OF reachable.step[OF r 1] 2] 3] 4] 5] 6])
qed

lemma cond_s2_reachable: "reachable (cond_start 0) cond_step cond_s2"
proof -
  let ?s = "\<lambda>q. cond_s1\<lparr>cpcs := (cpcs cond_s1)(2 := CPulse q)\<rparr>"
  have 1: "cond_step cond_s1 (?s (CP_entry False INT_MAX))"
    using cond_step.call_pulse[of cond_s1 2 "CP_entry False INT_MAX" False]
    by (simp add: cond_s1_def cond_calls)
  have 2: "cond_step (?s (CP_entry False INT_MAX)) (?s (CP_read 0 INT_MAX))"
    using cond_step.pulse_run[of "?s (CP_entry False INT_MAX)" 2 "CP_entry False INT_MAX"]
    by (simp add: cond_s1_def cond_s0_def)
  have 3: "cond_step (?s (CP_read 0 INT_MAX)) (?s (CP_cas 0 0 INT_MAX))"
    using cond_step.pulse_run[of "?s (CP_read 0 INT_MAX)" 2 "CP_read 0 INT_MAX"]
    by (simp add: cond_s1_def cond_s0_def)
  have 4: "cond_step (?s (CP_cas 0 0 INT_MAX)) cond_s2"
    using cond_step.pulse_run[of "?s (CP_cas 0 0 INT_MAX)" 2 "CP_cas 0 0 INT_MAX"]
    by (simp add: cond_s1_def cond_s0_def cond_s2_def cond_newval_def)
  show ?thesis
    by (rule reachable.step[OF reachable.step[OF reachable.step[OF reachable.step[OF cond_s1_reachable 1] 2] 3] 4])
qed

section \<open>Properties\<close>

text \<open>
  C6. A broadcast is not lost: a waiter read the word under the mutex (at pulse index \<open>stamp\<close>) and
  sleeps in the futex call; if a broadcast has changed the word since then, the waiter is about to
  be woken: some thread stands at \<open>__futex_wake_ex(.., INT_MAX)\<close>. This holds for every interleaving
  with any number of other signals, broadcasts, time-outs and interruptions, as long as fewer than
  \<open>2 ^ 31\<close> pulses happen between the read and now.
\<close>

theorem cond_broadcast_not_lost:
  assumes "reachable (cond_start c0) cond_step s" and "cond_asleep (cpcs s t)"
    and "stamp s t < lastb s" and "npulse s < stamp s t + 2 ^ 31"
  shows "\<exists>u. cpcs s u = CPulse (CP_wake INT_MAX)"
  using cond_system.reachable_inv[OF assms(1)] assms(2-4) unfolding cond_inv_def wake_inv_def by blast

theorem cond_broadcast_not_lost_witness:
  "reachable (cond_start 0) cond_step cond_s2 \<and> cond_asleep (cpcs cond_s2 1) \<and>
   (\<exists>u. cpcs cond_s2 u = CPulse (CP_wake INT_MAX))"
proof -
  have "cond_asleep (cpcs cond_s2 1)" "stamp cond_s2 1 < lastb cond_s2"
    "npulse cond_s2 < stamp cond_s2 1 + 2 ^ 31"
    by (simp_all add: cond_s2_def)
  then show ?thesis using cond_broadcast_not_lost[OF cond_s2_reachable] cond_s2_reachable by blast
qed


text \<open>
  C8. Waiting and the mutex: in every reachable state, a thread that is inside a wait and has not yet
  released the mutex, or that is returning from the wait (signalled, timed out or interrupted),
  holds the mutex.
\<close>

theorem cond_wait_returns_locked:
  assumes "reachable (cond_start c0) cond_step s" and "wait_holds (cpcs s t)"
  shows "cmutex s = Some t"
  using cond_system.reachable_inv[OF assms(1)] assms(2)
  unfolding cond_inv_def cmutex_inv_def by blast

text \<open>The wait of thread 1 with a deadline that has already passed.\<close>

definition cond_s3 :: csys where
  "cond_s3 = cond_s0\<lparr>cmutex := Some 1, cpcs := (\<lambda>_. COut)(1 := CWait (CW_ret ETIMEDOUT))\<rparr>"

lemma cond_s3_reachable: "reachable (cond_start 0) cond_step cond_s3"
proof -
  let ?s = "\<lambda>q. cond_s0\<lparr>cmutex := Some 1, cpcs := (\<lambda>_. COut)(1 := q)\<rparr>"
  let ?ts = "\<lparr>tv_sec = 0, tv_nsec = 0\<rparr>"
  have r: "reachable (cond_start 0) cond_step cond_s0"
    by (rule reachable.start) (simp add: cond_start_def cond_s0_def)
  have 1: "cond_step cond_s0 (?s COut)"
    using cond_step.mutex_lock[of cond_s0 1] by (simp add: cond_s0_def fun_upd_idem)
  have 2: "cond_step (?s COut) (?s (CWait (CW_abs (Some ?ts))))"
    using cond_step.call_wait[of "?s COut" 1 "CW_abs (Some ?ts)" "Some ?ts"] by (simp add: cond_calls)
  have 3: "cond_step (?s (CWait (CW_abs (Some ?ts)))) cond_s3"
    using cond_step.wait_run[of "?s (CWait (CW_abs (Some ?ts)))" 1 "CW_abs (Some ?ts)" "\<lparr>tv_sec = 5, tv_nsec = 0\<rparr>"]
    by (simp add: cond_s0_def cond_s3_def timespec_to_absolute_def)
  show ?thesis
    by (rule reachable.step[OF reachable.step[OF reachable.step[OF r 1] 2] 3])
qed

theorem cond_wait_returns_locked_witness:
  "reachable (cond_start 0) cond_step cond_s3 \<and> cmutex cond_s3 = Some 1"
  using cond_wait_returns_locked[OF cond_s3_reachable, of 1] cond_s3_reachable
  by (simp add: cond_s3_def)

end
