(* ===== verification/Pthread_Rwlock.thy ===== *)
theory Pthread_Rwlock
  imports Recursive_Mutex Pthread_Cond
begin

unbundle bit_operations_syntax

text \<open>
  Read-write locks of \<open>libc/bionic/pthread-rwlocks.c\<close>. The lock is a monitor: a mutex, a condition
  variable and four counters. Every stretch of code between taking the monitor's mutex and releasing
  it, by \<open>pthread_mutex_unlock\<close> or inside \<open>pthread_cond_timedwait\<close>, is one step.
\<close>

section \<open>Attributes\<close>

definition pthread_rwlockattr_init :: "u32 option \<Rightarrow> int \<times> u32 option" where
  "pthread_rwlockattr_init attr =
     (case attr of None \<Rightarrow> (EINVAL, None) | Some _ \<Rightarrow> (0, Some PTHREAD_PROCESS_PRIVATE))"

definition pthread_rwlockattr_destroy :: "u32 option \<Rightarrow> int \<times> u32 option" where
  "pthread_rwlockattr_destroy attr =
     (case attr of None \<Rightarrow> (EINVAL, None) | Some _ \<Rightarrow> (0, Some (- 1)))"

definition pthread_rwlockattr_setpshared :: "u32 option \<Rightarrow> u32 \<Rightarrow> int \<times> u32 option" where
  "pthread_rwlockattr_setpshared attr pshared =
     (case attr of None \<Rightarrow> (EINVAL, None)
      | Some a \<Rightarrow> if pshared = PTHREAD_PROCESS_PRIVATE \<or> pshared = PTHREAD_PROCESS_SHARED
                  then (0, Some pshared) else (EINVAL, Some a))"

definition pthread_rwlockattr_getpshared :: "u32 option \<Rightarrow> bool \<Rightarrow> int \<times> u32 option" where
  "pthread_rwlockattr_getpshared attr pshared_nonnull =
     (case attr of None \<Rightarrow> (EINVAL, None)
      | Some a \<Rightarrow> if \<not> pshared_nonnull then (EINVAL, None) else (0, Some a))"

section \<open>The lock object\<close>

record pthread_rwlock =
  rw_lock :: u32
  rw_cond :: u32
  numLocks :: int
  writerThreadId :: tid
  pendingReaders :: int
  pendingWriters :: int

text \<open>
  \<open>pthread_rwlock_init\<close>. The attribute objects of the mutex and the condition variable are local
  variables that \<open>pthread_mutexattr_init\<close> and \<open>pthread_condattr_init\<close> overwrite.
\<close>

definition pthread_rwlock_init :: "pthread_rwlock option \<Rightarrow> u32 option \<Rightarrow> int \<times> pthread_rwlock option" where
  "pthread_rwlock_init rwlock attr =
     (case rwlock of
        None \<Rightarrow> (EINVAL, None)
      | Some rw \<Rightarrow>
          (let shared = (attr = Some PTHREAD_PROCESS_SHARED);
               lock_attr = (if shared then snd (pthread_mutexattr_setpshared
                              (snd (pthread_mutexattr_init (Some 0))) PTHREAD_PROCESS_SHARED) else None);
               cond_attr = (if shared then snd (pthread_condattr_setpshared
                              (snd (pthread_condattr_init (Some 0))) PTHREAD_PROCESS_SHARED) else None);
               (ret, lock) = pthread_mutex_init (Some (rw_lock rw)) lock_attr
           in if ret \<noteq> 0 then (ret, Some rw)
              else (let (ret', cond) = pthread_cond_init (Some (rw_cond rw)) cond_attr
                    in if ret' \<noteq> 0 then (ret', Some (rw\<lparr>rw_lock := 0xdead10cc\<rparr>))
                       else (0, Some \<lparr>rw_lock = the lock, rw_cond = the cond, numLocks = 0,
                                      writerThreadId = 0, pendingReaders = 0, pendingWriters = 0\<rparr>))))"

definition pthread_rwlock_destroy :: "tid \<Rightarrow> pthread_rwlock option \<Rightarrow> int \<times> pthread_rwlock option" where
  "pthread_rwlock_destroy tid rwlock =
     (case rwlock of
        None \<Rightarrow> (EINVAL, None)
      | Some rw \<Rightarrow>
          if numLocks rw > 0 then (EBUSY, Some rw)
          else (0, Some (rw\<lparr>rw_cond := the (snd (pthread_cond_destroy (Some (rw_cond rw)))),
                            rw_lock := fst (pthread_mutex_destroy tid False (rw_lock rw))\<rparr>)))"

definition read_precondition :: "pthread_rwlock \<Rightarrow> tid \<Rightarrow> bool" where
  "read_precondition rw thread_id =
     (if pendingWriters rw > 0 then False
      else if writerThreadId rw = 0 \<or> writerThreadId rw = thread_id then True
      else False)"

definition write_precondition :: "pthread_rwlock \<Rightarrow> tid \<Rightarrow> bool" where
  "write_precondition rw thread_id =
     (if numLocks rw = 0 then True else if writerThreadId rw = thread_id then True else False)"

text \<open>Whether \<open>_pthread_rwlock_pulse\<close> broadcasts.\<close>

definition pthread_rwlock_pulse :: "pthread_rwlock \<Rightarrow> bool" where
  "pthread_rwlock_pulse rw \<longleftrightarrow> pendingReaders rw > 0 \<or> pendingWriters rw > 0"

section \<open>Operations\<close>

text \<open>
  How a step under the monitor's mutex ends: with the result of the call, or in
  \<open>pthread_cond_timedwait\<close>.
\<close>

datatype rw_out = Ret int | Blocks

definition pthread_rwlock_tryrdlock :: "tid \<Rightarrow> pthread_rwlock \<Rightarrow> int \<times> pthread_rwlock" where
  "pthread_rwlock_tryrdlock tid rw =
     (if \<not> read_precondition rw tid then (EBUSY, rw) else (0, rw\<lparr>numLocks := numLocks rw + 1\<rparr>))"

text \<open>\<open>pthread_rwlock_timedrdlock\<close>: up to the first wait, and from the return of a wait.\<close>

definition timedrdlock_enter :: "tid \<Rightarrow> pthread_rwlock \<Rightarrow> rw_out \<times> pthread_rwlock" where
  "timedrdlock_enter thread_id rw =
     (if \<not> read_precondition rw thread_id
      then (Blocks, rw\<lparr>pendingReaders := pendingReaders rw + 1\<rparr>)
      else (Ret 0, rw\<lparr>numLocks := numLocks rw + 1\<rparr>))"

definition timedrdlock_resume :: "tid \<Rightarrow> int \<Rightarrow> pthread_rwlock \<Rightarrow> rw_out \<times> pthread_rwlock" where
  "timedrdlock_resume thread_id ret rw =
     (if ret = 0 \<and> \<not> read_precondition rw thread_id then (Blocks, rw)
      else let rw = rw\<lparr>pendingReaders := pendingReaders rw - 1\<rparr>
           in if ret \<noteq> 0 then (Ret ret, rw) else (Ret ret, rw\<lparr>numLocks := numLocks rw + 1\<rparr>))"

definition pthread_rwlock_trywrlock :: "tid \<Rightarrow> pthread_rwlock \<Rightarrow> int \<times> pthread_rwlock" where
  "pthread_rwlock_trywrlock thread_id rw =
     (if \<not> write_precondition rw thread_id then (EBUSY, rw)
      else (0, rw\<lparr>numLocks := numLocks rw + 1, writerThreadId := thread_id\<rparr>))"

definition timedwrlock_enter :: "tid \<Rightarrow> pthread_rwlock \<Rightarrow> rw_out \<times> pthread_rwlock" where
  "timedwrlock_enter thread_id rw =
     (if \<not> write_precondition rw thread_id
      then (Blocks, rw\<lparr>pendingWriters := pendingWriters rw + 1\<rparr>)
      else (Ret 0, rw\<lparr>numLocks := numLocks rw + 1, writerThreadId := thread_id\<rparr>))"

definition timedwrlock_resume :: "tid \<Rightarrow> int \<Rightarrow> pthread_rwlock \<Rightarrow> rw_out \<times> pthread_rwlock" where
  "timedwrlock_resume thread_id ret rw =
     (if ret = 0 \<and> \<not> write_precondition rw thread_id then (Blocks, rw)
      else let rw = rw\<lparr>pendingWriters := pendingWriters rw - 1\<rparr>
           in if ret \<noteq> 0 then (Ret ret, rw)
              else (Ret ret, rw\<lparr>numLocks := numLocks rw + 1, writerThreadId := thread_id\<rparr>))"

text \<open>The last component says whether the waiters are woken.\<close>

definition pthread_rwlock_unlock :: "tid \<Rightarrow> pthread_rwlock \<Rightarrow> int \<times> pthread_rwlock \<times> bool" where
  "pthread_rwlock_unlock thread_id rw =
     (if numLocks rw = 0 then (EPERM, rw, False)
      else if writerThreadId rw = 0 then
        (let rw' = rw\<lparr>numLocks := numLocks rw - 1\<rparr>
         in (0, rw', numLocks rw' = 0 \<and> pthread_rwlock_pulse rw'))
      else if writerThreadId rw \<noteq> thread_id then (EPERM, rw, False)
      else
        (let rw' = rw\<lparr>numLocks := numLocks rw - 1\<rparr>
         in if numLocks rw' = 0
            then (0, rw'\<lparr>writerThreadId := 0\<rparr>, pthread_rwlock_pulse (rw'\<lparr>writerThreadId := 0\<rparr>))
            else (0, rw', False)))"

section \<open>Threads sharing a lock\<close>

text \<open>
  A thread in \<open>pthread_cond_timedwait\<close> is asleep, or has been woken (by a broadcast or spuriously), or
  has timed out; in the last two cases it competes for the monitor's mutex. The boolean of a waiting
  thread says whether it passed a time-out.
\<close>

datatype wait_status = Asleep | Woken | TimedOut

datatype rwpc = ROut | RdWait bool wait_status | WrWait bool wait_status

record rwsys =
  rwl :: pthread_rwlock
  rpcs :: "tid \<Rightarrow> rwpc"
  rholds :: "tid \<Rightarrow> nat"

fun rw_wake :: "rwpc \<Rightarrow> rwpc" where
  "rw_wake (RdWait b Asleep) = RdWait b Woken"
| "rw_wake (WrWait b Asleep) = WrWait b Woken"
| "rw_wake pc = pc"

fun wait_ret :: "wait_status \<Rightarrow> int" where
  "wait_ret TimedOut = ETIMEDOUT"
| "wait_ret _ = 0"

text \<open>The program point and the number of holds after a step.\<close>

definition rw_next :: "rwpc \<Rightarrow> rw_out \<Rightarrow> rwpc" where
  "rw_next blocked out = (case out of Ret _ \<Rightarrow> ROut | Blocks \<Rightarrow> blocked)"

definition rw_gain :: "rw_out \<Rightarrow> nat \<Rightarrow> nat" where
  "rw_gain out n = (if out = Ret 0 then Suc n else n)"

definition rw_set :: "rwsys \<Rightarrow> tid \<Rightarrow> pthread_rwlock \<Rightarrow> rwpc \<Rightarrow> nat \<Rightarrow> rwsys" where
  "rw_set s t rw pc n = \<lparr>rwl = rw, rpcs = (rpcs s)(t := pc), rholds = (rholds s)(t := n)\<rparr>"

text \<open>
  Clients have a non-zero thread id, and do not unlock a read-held lock that they do not hold,
  which the code cannot detect.
\<close>

inductive rw_step :: "rwsys \<Rightarrow> rwsys \<Rightarrow> bool" where
  tryrd: "rpcs s t = ROut \<Longrightarrow> t \<noteq> 0 \<Longrightarrow> pthread_rwlock_tryrdlock t (rwl s) = (r, rw) \<Longrightarrow>
    rw_step s (rw_set s t rw ROut (rw_gain (Ret r) (rholds s t)))"
| trywr: "rpcs s t = ROut \<Longrightarrow> t \<noteq> 0 \<Longrightarrow> pthread_rwlock_trywrlock t (rwl s) = (r, rw) \<Longrightarrow>
    rw_step s (rw_set s t rw ROut (rw_gain (Ret r) (rholds s t)))"
| rd: "rpcs s t = ROut \<Longrightarrow> t \<noteq> 0 \<Longrightarrow> timedrdlock_enter t (rwl s) = (out, rw) \<Longrightarrow>
    rw_step s (rw_set s t rw (rw_next (RdWait timed Asleep) out) (rw_gain out (rholds s t)))"
| wr: "rpcs s t = ROut \<Longrightarrow> t \<noteq> 0 \<Longrightarrow> timedwrlock_enter t (rwl s) = (out, rw) \<Longrightarrow>
    rw_step s (rw_set s t rw (rw_next (WrWait timed Asleep) out) (rw_gain out (rholds s t)))"
| rd_resume: "rpcs s t = RdWait timed st \<Longrightarrow> st \<noteq> Asleep \<Longrightarrow>
    timedrdlock_resume t (wait_ret st) (rwl s) = (out, rw) \<Longrightarrow>
    rw_step s (rw_set s t rw (rw_next (RdWait timed Asleep) out) (rw_gain out (rholds s t)))"
| wr_resume: "rpcs s t = WrWait timed st \<Longrightarrow> st \<noteq> Asleep \<Longrightarrow>
    timedwrlock_resume t (wait_ret st) (rwl s) = (out, rw) \<Longrightarrow>
    rw_step s (rw_set s t rw (rw_next (WrWait timed Asleep) out) (rw_gain out (rholds s t)))"
| unlock: "rpcs s t = ROut \<Longrightarrow> t \<noteq> 0 \<Longrightarrow>
    rholds s t > 0 \<or> writerThreadId (rwl s) \<noteq> 0 \<or> numLocks (rwl s) = 0 \<Longrightarrow>
    pthread_rwlock_unlock t (rwl s) = (r, rw, pulse) \<Longrightarrow>
    rw_step s \<lparr>rwl = rw, rpcs = (if pulse then rw_wake \<circ> rpcs s else rpcs s),
               rholds = (rholds s)(t := if r = 0 then rholds s t - 1 else rholds s t)\<rparr>"
| spurious: "rw_step s (s\<lparr>rpcs := (rpcs s)(t := rw_wake (rpcs s t))\<rparr>)"
| rd_timeout: "rpcs s t = RdWait True Asleep \<Longrightarrow>
    rw_step s (s\<lparr>rpcs := (rpcs s)(t := RdWait True TimedOut)\<rparr>)"
| wr_timeout: "rpcs s t = WrWait True Asleep \<Longrightarrow>
    rw_step s (s\<lparr>rpcs := (rpcs s)(t := WrWait True TimedOut)\<rparr>)"

definition rw_start :: "rwsys \<Rightarrow> bool" where
  "rw_start s \<longleftrightarrow> (\<exists>rw attr. pthread_rwlock_init (Some rw) attr = (0, Some (rwl s))) \<and>
     (\<forall>t. rpcs s t = ROut) \<and> (\<forall>t. rholds s t = 0)"

section \<open>Counting over threads\<close>

definition tsum :: "('a \<Rightarrow> int) \<Rightarrow> (tid \<Rightarrow> 'a) \<Rightarrow> int" where
  "tsum g f = (\<Sum>u\<in>UNIV. g (f u))"

lemma tsum_upd: "tsum g (f(t := x)) = tsum g f - g (f t) + g x"
proof -
  have "(\<Sum>u\<in>UNIV. g ((f(t := x)) u)) = g x + (\<Sum>u\<in>UNIV - {t}. g ((f(t := x)) u))"
    by (subst sum.remove[of UNIV t]) simp_all
  also have "(\<Sum>u\<in>UNIV - {t}. g ((f(t := x)) u)) = (\<Sum>u\<in>UNIV - {t}. g (f u))"
    by (rule sum.cong) auto
  also have "\<dots> = (\<Sum>u\<in>UNIV. g (f u)) - g (f t)"
    using sum.remove[of UNIV t "\<lambda>u. g (f u)"] by simp
  finally show ?thesis by (simp add: tsum_def)
qed

lemma tsum_nonneg: "(\<And>x. g x \<ge> 0) \<Longrightarrow> tsum g f \<ge> 0"
  unfolding tsum_def by (rule sum_nonneg) simp

lemma tsum_pos:
  assumes "\<And>x. g x \<ge> 0" and "g (f t) > 0"
  shows "tsum g f > 0"
  unfolding tsum_def using assms by (intro sum_pos2[of UNIV t]) auto

lemma tsum_zero:
  assumes "\<And>x. g x \<ge> 0" and "tsum g f = 0"
  shows "g (f t) = 0"
  using tsum_pos[of g f t] assms by (metis less_eq_int_code(1) order_less_le)

lemma tsum_single:
  assumes "\<And>u. u \<noteq> t \<Longrightarrow> g (f u) = 0"
  shows "tsum g f = g (f t)"
  unfolding tsum_def using assms by (subst sum.remove[of UNIV t]) auto

lemma tsum_cong: "(\<And>u. g (f u) = g (f' u)) \<Longrightarrow> tsum g f = tsum g f'"
  by (simp add: tsum_def)

section \<open>The invariant\<close>

fun is_rd :: "rwpc \<Rightarrow> int" where
  "is_rd (RdWait _ _) = 1"
| "is_rd _ = 0"

fun is_wr :: "rwpc \<Rightarrow> int" where
  "is_wr (WrWait _ _) = 1"
| "is_wr _ = 0"

lemma is_rd_nonneg: "is_rd pc \<ge> 0"
  by (cases pc) auto

lemma is_wr_nonneg: "is_wr pc \<ge> 0"
  by (cases pc) auto

definition counts_inv :: "rwsys \<Rightarrow> bool" where
  "counts_inv s \<longleftrightarrow> numLocks (rwl s) = tsum int (rholds s) \<and>
     pendingReaders (rwl s) = tsum is_rd (rpcs s) \<and> pendingWriters (rwl s) = tsum is_wr (rpcs s) \<and>
     (\<forall>t. rpcs s t \<noteq> ROut \<longrightarrow> t \<noteq> 0)"

definition writer_inv :: "rwsys \<Rightarrow> bool" where
  "writer_inv s \<longleftrightarrow> (writerThreadId (rwl s) \<noteq> 0 \<longrightarrow> rholds s (writerThreadId (rwl s)) > 0 \<and>
     (\<forall>u. u \<noteq> writerThreadId (rwl s) \<longrightarrow> rholds s u = 0))"

definition wr_sleep_inv :: "rwsys \<Rightarrow> bool" where
  "wr_sleep_inv s \<longleftrightarrow> (\<forall>t b. rpcs s t = WrWait b Asleep \<longrightarrow> numLocks (rwl s) > 0)"

definition rw_inv :: "rwsys \<Rightarrow> bool" where
  "rw_inv s \<longleftrightarrow> counts_inv s \<and> writer_inv s \<and> wr_sleep_inv s"

text \<open>What a step of thread \<open>t\<close> that is not an unlock does to the lock object.\<close>

definition acquire_ok :: "tid \<Rightarrow> pthread_rwlock \<Rightarrow> rwpc \<Rightarrow> pthread_rwlock \<Rightarrow> rwpc \<Rightarrow> bool \<Rightarrow> bool" where
  "acquire_ok t rw pc rw' pc' got \<longleftrightarrow>
     numLocks rw' = numLocks rw + (if got then 1 else 0) \<and>
     pendingReaders rw' = pendingReaders rw + is_rd pc' - is_rd pc \<and>
     pendingWriters rw' = pendingWriters rw + is_wr pc' - is_wr pc \<and>
     (if got then (writerThreadId rw = 0 \<or> writerThreadId rw = t \<or> numLocks rw = 0) \<and>
        (writerThreadId rw' = writerThreadId rw \<and> (writerThreadId rw = 0 \<or> writerThreadId rw = t) \<or>
         writerThreadId rw' = t \<and> (writerThreadId rw = t \<or> numLocks rw = 0))
      else writerThreadId rw' = writerThreadId rw) \<and>
     (\<forall>b. pc' = WrWait b Asleep \<longrightarrow> numLocks rw \<noteq> 0)"

lemmas rw_op_defs = pthread_rwlock_tryrdlock_def pthread_rwlock_trywrlock_def timedrdlock_enter_def
  timedwrlock_enter_def timedrdlock_resume_def timedwrlock_resume_def read_precondition_def
  write_precondition_def rw_next_def Let_def

lemma acquire_ok_ops:
  "pthread_rwlock_tryrdlock t rw = (r, rw') \<Longrightarrow> acquire_ok t rw ROut rw' ROut (r = 0)"
  "pthread_rwlock_trywrlock t rw = (r, rw') \<Longrightarrow> acquire_ok t rw ROut rw' ROut (r = 0)"
  "timedrdlock_enter t rw = (out, rw') \<Longrightarrow>
    acquire_ok t rw ROut rw' (rw_next (RdWait b Asleep) out) (out = Ret 0)"
  "timedwrlock_enter t rw = (out, rw') \<Longrightarrow>
    acquire_ok t rw ROut rw' (rw_next (WrWait b Asleep) out) (out = Ret 0)"
  "timedrdlock_resume t r rw = (out, rw') \<Longrightarrow>
    acquire_ok t rw (RdWait b st) rw' (rw_next (RdWait b Asleep) out) (out = Ret 0)"
  "timedwrlock_resume t r rw = (out, rw') \<Longrightarrow>
    acquire_ok t rw (WrWait b st) rw' (rw_next (WrWait b Asleep) out) (out = Ret 0)"
  by (auto simp: acquire_ok_def rw_op_defs split: if_splits)

lemma rw_inv_acquire:
  assumes inv: "rw_inv s" and ok: "acquire_ok t (rwl s) (rpcs s t) rw' pc' got" and t: "t \<noteq> 0"
  shows "rw_inv (rw_set s t rw' pc' (if got then Suc (rholds s t) else rholds s t))"
proof -
  have c: "counts_inv s" and w: "writer_inv s" and sl: "wr_sleep_inv s"
    using inv by (simp_all add: rw_inv_def)
  let ?s = "rw_set s t rw' pc' (if got then Suc (rholds s t) else rholds s t)"
  have nl: "numLocks (rwl s) = tsum int (rholds s)" using c by (simp add: counts_inv_def)
  have "counts_inv ?s"
    using c ok t by (auto simp: counts_inv_def rw_set_def acquire_ok_def tsum_upd)
  moreover have "writer_inv ?s"
  proof (cases got)
    case False
    then show ?thesis using w ok by (simp add: writer_inv_def rw_set_def acquire_ok_def)
  next
    case True
    then consider (same) "writerThreadId rw' = writerThreadId (rwl s)"
        "writerThreadId (rwl s) = 0 \<or> writerThreadId (rwl s) = t"
      | (new) "writerThreadId rw' = t" "writerThreadId (rwl s) = t \<or> numLocks (rwl s) = 0"
      using ok unfolding acquire_ok_def by metis
    then show ?thesis
    proof cases
      case same
      then show ?thesis using w True t by (auto simp: writer_inv_def rw_set_def)
    next
      case new
      have "rholds s u = 0" if "u \<noteq> t" for u
        using new(2) w nl tsum_zero[of int "rholds s" u] that t by (auto simp: writer_inv_def)
      then show ?thesis using new(1) True by (auto simp: writer_inv_def rw_set_def)
    qed
  qed
  moreover have "wr_sleep_inv ?s"
  proof -
    have "numLocks (rwl s) \<ge> 0" using nl tsum_nonneg[of int] by simp
    then show ?thesis
      using sl ok unfolding wr_sleep_inv_def rw_set_def acquire_ok_def by (auto split: if_splits)
  qed
  ultimately show ?thesis by (simp add: rw_inv_def)
qed

lemma rw_wake_simps [simp]: "is_rd (rw_wake pc) = is_rd pc" "is_wr (rw_wake pc) = is_wr pc"
  "rw_wake pc = ROut \<longleftrightarrow> pc = ROut" "rw_wake pc \<noteq> WrWait b Asleep" "rw_wake pc \<noteq> RdWait b Asleep"
  by (cases pc rule: rw_wake.cases; simp)+

text \<open>A successful unlock.\<close>

lemma unlock_success:
  assumes inv: "rw_inv s" and cl: "rholds s t > 0 \<or> writerThreadId (rwl s) \<noteq> 0 \<or> numLocks (rwl s) = 0"
    and ex: "pthread_rwlock_unlock t (rwl s) = (0, rw, pulse)"
  shows "rholds s t > 0" and "numLocks rw = numLocks (rwl s) - 1"
    and "pendingReaders rw = pendingReaders (rwl s)" and "pendingWriters rw = pendingWriters (rwl s)"
    and "writerThreadId rw \<noteq> 0 \<Longrightarrow> writerThreadId rw = t \<and> writerThreadId (rwl s) = t \<and> numLocks rw \<noteq> 0"
    and "pulse \<longleftrightarrow> numLocks rw = 0 \<and> (pendingReaders rw > 0 \<or> pendingWriters rw > 0)"
proof -
  have w: "writer_inv s" using inv by (simp add: rw_inv_def)
  show "rholds s t > 0"
    using ex cl w by (auto simp: pthread_rwlock_unlock_def writer_inv_def Let_def split: if_splits)
qed (use ex in \<open>auto simp: pthread_rwlock_unlock_def pthread_rwlock_pulse_def Let_def split: if_splits\<close>)

lemma unlock_failure:
  "pthread_rwlock_unlock t rw = (r, rw', pulse) \<Longrightarrow> r \<noteq> 0 \<Longrightarrow> rw' = rw \<and> \<not> pulse \<and> r = EPERM"
  by (auto simp: pthread_rwlock_unlock_def Let_def split: if_splits)

lemma rw_inv_unlock:
  assumes inv: "rw_inv s" and cl: "rholds s t > 0 \<or> writerThreadId (rwl s) \<noteq> 0 \<or> numLocks (rwl s) = 0"
    and ex: "pthread_rwlock_unlock t (rwl s) = (r, rw, pulse)"
  shows "rw_inv \<lparr>rwl = rw, rpcs = (if pulse then rw_wake \<circ> rpcs s else rpcs s),
               rholds = (rholds s)(t := if r = 0 then rholds s t - 1 else rholds s t)\<rparr>" (is "rw_inv ?s")
proof (cases "r = 0")
  case False
  then have "rw = rwl s" "\<not> pulse" using unlock_failure[OF ex] by auto
  then have "?s = s" using False by simp
  then show ?thesis using inv by simp
next
  case True
  note U = unlock_success[OF inv cl ex[unfolded True]]
  have c: "counts_inv s" and w: "writer_inv s" and sl: "wr_sleep_inv s"
    using inv by (simp_all add: rw_inv_def)
  have wake: "tsum is_rd (if pulse then rw_wake \<circ> rpcs s else rpcs s) = tsum is_rd (rpcs s)"
    "tsum is_wr (if pulse then rw_wake \<circ> rpcs s else rpcs s) = tsum is_wr (rpcs s)"
    by (auto intro: tsum_cong)
  have "tsum int ((rholds s)(t := rholds s t - 1)) = tsum int (rholds s) - 1"
    using U(1) by (simp add: tsum_upd)
  then have "counts_inv ?s"
    using c U(2-4) wake True by (auto simp: counts_inv_def)
  moreover have "writer_inv ?s"
  proof -
    have "rholds s t - 1 > 0" if a: "writerThreadId rw \<noteq> 0"
    proof -
      have "tsum int (rholds s) = int (rholds s t)"
        using U(5)[OF a] w a by (intro tsum_single) (auto simp: writer_inv_def)
      then show ?thesis using U(1,2) U(5)[OF a] c by (auto simp: counts_inv_def)
    qed
    then show ?thesis using U(5) w True by (auto simp: writer_inv_def)
  qed
  moreover have "wr_sleep_inv ?s"
  proof (cases pulse)
    case False
    have "numLocks rw > 0" if "rpcs s u = WrWait b Asleep" for u b
    proof -
      have "pendingWriters rw > 0"
        using U(4) c tsum_pos[of is_wr "rpcs s" u] is_wr_nonneg that by (simp add: counts_inv_def)
      then have "numLocks rw \<noteq> 0" using U(6) False by blast
      moreover have "numLocks (rwl s) > 0" using sl that by (auto simp: wr_sleep_inv_def)
      ultimately show ?thesis using U(2) by linarith
    qed
    then show ?thesis using False by (simp add: wr_sleep_inv_def)
  qed (simp add: wr_sleep_inv_def)
  ultimately show ?thesis by (simp add: rw_inv_def)
qed

lemma rw_inv_status:
  assumes "rw_inv s" and "is_rd pc = is_rd (rpcs s t)" "is_wr pc = is_wr (rpcs s t)"
    and "pc = ROut \<longleftrightarrow> rpcs s t = ROut" and "\<And>b. pc \<noteq> WrWait b Asleep"
  shows "rw_inv (s\<lparr>rpcs := (rpcs s)(t := pc)\<rparr>)"
  using assms unfolding rw_inv_def counts_inv_def writer_inv_def wr_sleep_inv_def
  by (auto simp: tsum_upd)

lemma rw_gain_if: "rw_gain out n = (if out = Ret 0 then Suc n else n)"
  by (simp add: rw_gain_def)

theorem rw_inv_step:
  assumes inv: "rw_inv s" and "rw_step s s'"
  shows "rw_inv s'"
  using assms(2)
proof cases
  case (tryrd t r rw)
  then show ?thesis
    using rw_inv_acquire[OF inv, of t rw ROut "r = 0"] acquire_ok_ops(1)[OF tryrd(4)] by (simp add: rw_gain_if)
next
  case (trywr t r rw)
  then show ?thesis
    using rw_inv_acquire[OF inv, of t rw ROut "r = 0"] acquire_ok_ops(2)[OF trywr(4)] by (simp add: rw_gain_if)
next
  case (rd t out rw b)
  then show ?thesis
    using rw_inv_acquire[OF inv, of t rw _ "out = Ret 0"] acquire_ok_ops(3)[OF rd(4)] by (simp add: rw_gain_if)
next
  case (wr t out rw b)
  then show ?thesis
    using rw_inv_acquire[OF inv, of t rw _ "out = Ret 0"] acquire_ok_ops(4)[OF wr(4)] by (simp add: rw_gain_if)
next
  case (rd_resume t b st out rw)
  then have "t \<noteq> 0" using inv by (auto simp: rw_inv_def counts_inv_def)
  then show ?thesis
    using rd_resume rw_inv_acquire[OF inv, of t rw _ "out = Ret 0"]
      acquire_ok_ops(5)[OF rd_resume(4), of b st] by (simp add: rw_gain_if)
next
  case (wr_resume t b st out rw)
  then have "t \<noteq> 0" using inv by (auto simp: rw_inv_def counts_inv_def)
  then show ?thesis
    using wr_resume rw_inv_acquire[OF inv, of t rw _ "out = Ret 0"]
      acquire_ok_ops(6)[OF wr_resume(4), of b st] by (simp add: rw_gain_if)
next
  case (unlock t r rw pulse)
  then show ?thesis using rw_inv_unlock[OF inv unlock(4,5)] by simp
next
  case (spurious t)
  then show ?thesis using inv by (auto intro!: rw_inv_status)
next
  case (rd_timeout t)
  then show ?thesis using inv by (auto intro!: rw_inv_status)
next
  case (wr_timeout t)
  then show ?thesis using inv by (auto intro!: rw_inv_status)
qed

lemma rw_init_fields:
  assumes "pthread_rwlock_init (Some rw) attr = (0, Some rw')"
  shows "numLocks rw' = 0" "writerThreadId rw' = 0" "pendingReaders rw' = 0" "pendingWriters rw' = 0"
  using assms by (auto simp: pthread_rwlock_init_def Let_def split: prod.splits if_splits)

interpretation rwlock: invariant_system rw_start rw_step rw_inv
proof
  fix s assume "rw_start s"
  then obtain rw attr where i: "pthread_rwlock_init (Some rw) attr = (0, Some (rwl s))"
    and "\<forall>t. rpcs s t = ROut" "\<forall>t. rholds s t = 0"
    by (auto simp: rw_start_def)
  then show "rw_inv s"
    using rw_init_fields[OF i]
    by (simp add: rw_inv_def counts_inv_def writer_inv_def wr_sleep_inv_def tsum_def)
qed (rule rw_inv_step)

section \<open>Sleeping readers\<close>

text \<open>Runs in which no \<open>pthread_rwlock_timedwrlock\<close> times out.\<close>

definition no_writer_timeout :: "rwsys \<Rightarrow> bool" where
  "no_writer_timeout s \<longleftrightarrow> (\<forall>t b. rpcs s t \<noteq> WrWait b TimedOut)"

definition rw_step_no_timeout :: "rwsys \<Rightarrow> rwsys \<Rightarrow> bool" where
  "rw_step_no_timeout s s' \<longleftrightarrow> rw_step s s' \<and> no_writer_timeout s'"

definition rd_sleep_inv :: "rwsys \<Rightarrow> bool" where
  "rd_sleep_inv s \<longleftrightarrow>
     (\<forall>t b. rpcs s t = RdWait b Asleep \<longrightarrow> numLocks (rwl s) > 0 \<or> pendingWriters (rwl s) > 0)"

lemma rw_inv_bounds:
  assumes "rw_inv s"
  shows "numLocks (rwl s) \<ge> 0" and "pendingReaders (rwl s) \<ge> 0" and "pendingWriters (rwl s) \<ge> 0"
    and "writerThreadId (rwl s) \<noteq> 0 \<Longrightarrow> numLocks (rwl s) > 0"
    and "rpcs s t = RdWait b st \<Longrightarrow> pendingReaders (rwl s) > 0"
    and "rpcs s t = WrWait b st \<Longrightarrow> pendingWriters (rwl s) > 0"
  using assms tsum_nonneg[of int "rholds s"] tsum_nonneg[of is_rd "rpcs s"] tsum_nonneg[of is_wr "rpcs s"]
    is_rd_nonneg is_wr_nonneg tsum_pos[of int "rholds s" "writerThreadId (rwl s)"]
    tsum_pos[of is_rd "rpcs s" t] tsum_pos[of is_wr "rpcs s" t]
  by (auto simp: rw_inv_def counts_inv_def writer_inv_def)

lemma rd_sleep_acquire:
  assumes inv: "rw_inv s" and rs: "rd_sleep_inv s" and ok: "acquire_ok t (rwl s) (rpcs s t) rw' pc' got"
    and rd: "\<And>b. pc' = RdWait b Asleep \<Longrightarrow> \<not> read_precondition (rwl s) t"
    and wr: "\<not> got \<Longrightarrow> is_wr (rpcs s t) \<le> is_wr pc'"
  shows "rd_sleep_inv (rw_set s t rw' pc' n)"
proof (cases got)
  case True
  then have "numLocks rw' > 0" using ok rw_inv_bounds(1)[OF inv] by (simp add: acquire_ok_def)
  then show ?thesis by (simp add: rd_sleep_inv_def rw_set_def)
next
  case False
  then have eq: "numLocks rw' = numLocks (rwl s)" "pendingWriters rw' \<ge> pendingWriters (rwl s)"
    using ok wr by (simp_all add: acquire_ok_def)
  have "numLocks (rwl s) > 0 \<or> pendingWriters (rwl s) > 0" if "\<not> read_precondition (rwl s) t"
    using that rw_inv_bounds(4)[OF inv] by (auto simp: read_precondition_def split: if_splits)
  then have "numLocks (rwl s) > 0 \<or> pendingWriters (rwl s) > 0"
    if "((rpcs s)(t := pc')) u = RdWait b Asleep" for u b
    using rs rd that by (cases "u = t") (auto simp: rd_sleep_inv_def)
  then show ?thesis
    using eq unfolding rd_sleep_inv_def rw_set_def by (metis rwsys.select_convs(1,2) order_less_le_trans)
qed

lemma rw_blocks:
  "timedrdlock_enter t rw = (out, rw') \<Longrightarrow> rw_next (RdWait b Asleep) out = RdWait c Asleep \<Longrightarrow>
    \<not> read_precondition rw t"
  "timedrdlock_resume t r rw = (out, rw') \<Longrightarrow> rw_next (RdWait b Asleep) out = RdWait c Asleep \<Longrightarrow>
    \<not> read_precondition rw t"
  "timedwrlock_resume t 0 rw = (out, rw') \<Longrightarrow> out \<noteq> Ret 0 \<Longrightarrow> out = Blocks"
  by (auto simp: timedrdlock_enter_def timedrdlock_resume_def timedwrlock_resume_def rw_next_def Let_def
      split: if_splits)

lemma rd_sleep_unlock:
  assumes inv: "rw_inv s" and rs: "rd_sleep_inv s"
    and cl: "rholds s t > 0 \<or> writerThreadId (rwl s) \<noteq> 0 \<or> numLocks (rwl s) = 0"
    and ex: "pthread_rwlock_unlock t (rwl s) = (r, rw, pulse)"
  shows "rd_sleep_inv \<lparr>rwl = rw, rpcs = (if pulse then rw_wake \<circ> rpcs s else rpcs s), rholds = h\<rparr>"
proof (cases "r = 0")
  case False
  then show ?thesis using unlock_failure[OF ex] rs by (simp add: rd_sleep_inv_def)
next
  case True
  note U = unlock_success[OF inv cl ex[unfolded True]]
  show ?thesis
  proof (cases pulse)
    case False
    have "numLocks rw > 0" if "rpcs s u = RdWait b Asleep" for u b
      using U(2,3,6) False rw_inv_bounds(1)[OF inv] rw_inv_bounds(5)[OF inv that]
        rw_inv_unlock[OF inv cl ex] rw_inv_bounds(1)[OF rw_inv_unlock[OF inv cl ex]] by auto
    then show ?thesis using False by (simp add: rd_sleep_inv_def)
  qed (simp add: rd_sleep_inv_def)
qed

lemma rd_sleep_inv_step:
  assumes inv: "rw_inv s" and rs: "rd_sleep_inv s" and nt: "no_writer_timeout s" and "rw_step s s'"
  shows "rd_sleep_inv s'"
  using assms(4)
proof cases
  case (tryrd t r rw)
  then show ?thesis
    using rd_sleep_acquire[OF inv rs, of t rw ROut "r = 0"] acquire_ok_ops(1)[OF tryrd(4)] by simp
next
  case (trywr t r rw)
  then show ?thesis
    using rd_sleep_acquire[OF inv rs, of t rw ROut "r = 0"] acquire_ok_ops(2)[OF trywr(4)] by simp
next
  case (rd t out rw b)
  then show ?thesis
    using rd_sleep_acquire[OF inv rs, of t rw _ "out = Ret 0"] acquire_ok_ops(3)[OF rd(4)]
      rw_blocks(1)[OF rd(4)] is_wr_nonneg by simp
next
  case (wr t out rw b)
  then show ?thesis
    using rd_sleep_acquire[OF inv rs, of t rw _ "out = Ret 0"] acquire_ok_ops(4)[OF wr(4)]
    by (auto simp: rw_next_def is_wr_nonneg split: rw_out.splits)
next
  case (rd_resume t b st out rw)
  then show ?thesis
    using rd_sleep_acquire[OF inv rs, of t rw _ "out = Ret 0"] acquire_ok_ops(5)[OF rd_resume(4), of b st]
      rw_blocks(2)[OF rd_resume(4)] is_wr_nonneg by simp
next
  case (wr_resume t b st out rw)
  then have "wait_ret st = 0" using nt by (cases st) (auto simp: no_writer_timeout_def)
  then have "out \<noteq> Ret 0 \<Longrightarrow> out = Blocks" using rw_blocks(3) wr_resume(4) by metis
  then show ?thesis
    using wr_resume rd_sleep_acquire[OF inv rs, of t rw "rw_next (WrWait b Asleep) out" "out = Ret 0"]
      acquire_ok_ops(6)[OF wr_resume(4), of b st]
    by (auto simp: rw_next_def split: rw_out.splits)
next
  case (unlock t r rw pulse)
  then show ?thesis using rd_sleep_unlock[OF inv rs unlock(4,5)] by simp
next
  case (spurious t)
  then show ?thesis using rs by (auto simp: rd_sleep_inv_def)
next
  case (rd_timeout t)
  then show ?thesis using rs by (auto simp: rd_sleep_inv_def)
next
  case (wr_timeout t)
  then show ?thesis using rs by (auto simp: rd_sleep_inv_def)
qed

interpretation rwlock_no_timeout: invariant_system rw_start rw_step_no_timeout
  "\<lambda>s. rw_inv s \<and> rd_sleep_inv s \<and> no_writer_timeout s"
proof
  show "rw_start s \<Longrightarrow> rw_inv s \<and> rd_sleep_inv s \<and> no_writer_timeout s" for s
    using rwlock.inv_init[of s] by (simp add: rw_start_def rd_sleep_inv_def no_writer_timeout_def)
  show "rw_inv s \<and> rd_sleep_inv s \<and> no_writer_timeout s \<Longrightarrow> rw_step_no_timeout s t \<Longrightarrow>
      rw_inv t \<and> rd_sleep_inv t \<and> no_writer_timeout t" for s t
    using rw_inv_step rd_sleep_inv_step by (auto simp: rw_step_no_timeout_def)
qed

section \<open>Schedules\<close>

datatype rw_act = RdLock tid | WrLock tid bool | RdResume tid | WrResume tid | Unlock tid | WrTimeout tid

text \<open>The state after an action, \<open>None\<close> if the thread cannot do it.\<close>

fun rw_do :: "rw_act \<Rightarrow> rwsys \<Rightarrow> rwsys option" where
  "rw_do (RdLock t) s =
     (if rpcs s t = ROut \<and> t \<noteq> 0
      then case timedrdlock_enter t (rwl s) of (out, rw) \<Rightarrow>
             Some (rw_set s t rw (rw_next (RdWait False Asleep) out) (rw_gain out (rholds s t)))
      else None)"
| "rw_do (WrLock t timed) s =
     (if rpcs s t = ROut \<and> t \<noteq> 0
      then case timedwrlock_enter t (rwl s) of (out, rw) \<Rightarrow>
             Some (rw_set s t rw (rw_next (WrWait timed Asleep) out) (rw_gain out (rholds s t)))
      else None)"
| "rw_do (RdResume t) s =
     (case rpcs s t of RdWait timed st \<Rightarrow>
        if st \<noteq> Asleep then case timedrdlock_resume t (wait_ret st) (rwl s) of (out, rw) \<Rightarrow>
             Some (rw_set s t rw (rw_next (RdWait timed Asleep) out) (rw_gain out (rholds s t)))
        else None
      | _ \<Rightarrow> None)"
| "rw_do (WrResume t) s =
     (case rpcs s t of WrWait timed st \<Rightarrow>
        if st \<noteq> Asleep then case timedwrlock_resume t (wait_ret st) (rwl s) of (out, rw) \<Rightarrow>
             Some (rw_set s t rw (rw_next (WrWait timed Asleep) out) (rw_gain out (rholds s t)))
        else None
      | _ \<Rightarrow> None)"
| "rw_do (Unlock t) s =
     (if rpcs s t = ROut \<and> t \<noteq> 0 \<and> rholds s t > 0
      then case pthread_rwlock_unlock t (rwl s) of (r, rw, pulse) \<Rightarrow>
             Some \<lparr>rwl = rw, rpcs = (if pulse then rw_wake \<circ> rpcs s else rpcs s),
                   rholds = (rholds s)(t := if r = 0 then rholds s t - 1 else rholds s t)\<rparr>
      else None)"
| "rw_do (WrTimeout t) s =
     (if rpcs s t = WrWait True Asleep then Some (s\<lparr>rpcs := (rpcs s)(t := WrWait True TimedOut)\<rparr>)
      else None)"

lemma rw_do_step: "rw_do a s = Some s' \<Longrightarrow> rw_step s s'"
proof (cases a)
  case (Unlock t)
  assume "rw_do a s = Some s'"
  with Unlock have *: "rpcs s t = ROut" "t \<noteq> 0" "rholds s t > 0" by (auto split: if_splits)
  obtain r rw pulse where ex: "pthread_rwlock_unlock t (rwl s) = (r, rw, pulse)"
    by (cases "pthread_rwlock_unlock t (rwl s)") auto
  show ?thesis
    using rw_step.unlock[OF *(1,2) _ ex] * ex Unlock \<open>rw_do a s = Some s'\<close> by simp
qed (auto split: if_splits prod.splits rwpc.splits
      intro: rw_step.rd rw_step.wr rw_step.rd_resume rw_step.wr_resume rw_step.wr_timeout)

fun rw_run :: "rw_act list \<Rightarrow> rwsys \<Rightarrow> rwsys option" where
  "rw_run [] s = Some s"
| "rw_run (a # as) s = (case rw_do a s of Some s' \<Rightarrow> rw_run as s' | None \<Rightarrow> None)"

lemma rw_run_reachable:
  "rw_run as s = Some s' \<Longrightarrow> reachable init rw_step s \<Longrightarrow> reachable init rw_step s'"
  by (induction as s rule: rw_run.induct)
    (auto split: option.splits intro: reachable.step rw_do_step)

definition rw_free :: pthread_rwlock where
  "rw_free = \<lparr>rw_lock = 0, rw_cond = 0, numLocks = 0, writerThreadId = 0, pendingReaders = 0, pendingWriters = 0\<rparr>"

definition rw_s0 :: rwsys where
  "rw_s0 = \<lparr>rwl = rw_free, rpcs = (\<lambda>_. ROut), rholds = (\<lambda>_. 0)\<rparr>"

lemma rw_s0_start: "rw_start rw_s0"
  unfolding rw_start_def
  by (auto simp: rw_s0_def rw_free_def pthread_rwlock_init_def pthread_mutex_init_def pthread_cond_init_def
      intro!: exI[of _ rw_free] exI[of _ None])

lemma rw_s0_reachable: "reachable rw_start step rw_s0"
  by (rule reachable.start[of rw_start, OF rw_s0_start])

lemma reachable_no_timeout:
  "reachable rw_start rw_step_no_timeout s \<Longrightarrow> rw_step s s' \<Longrightarrow> no_writer_timeout s' \<Longrightarrow>
   reachable rw_start rw_step_no_timeout s'"
  by (rule reachable.step) (simp_all add: rw_step_no_timeout_def)

lemmas rw_eval = timedrdlock_enter_def timedwrlock_enter_def timedrdlock_resume_def timedwrlock_resume_def
  read_precondition_def write_precondition_def rw_next_def rw_gain_def rw_set_def pthread_rwlock_unlock_def
  pthread_rwlock_pulse_def Let_def rw_free_def

text \<open>Thread 1 holds the lock for writing, twice.\<close>

definition rw_s1 :: rwsys where
  "rw_s1 = \<lparr>rwl = rw_free\<lparr>numLocks := 2, writerThreadId := 1\<rparr>, rpcs = (\<lambda>_. ROut), rholds = (\<lambda>_. 0)(1 := 2)\<rparr>"

lemma rw_s1_reachable: "reachable rw_start rw_step rw_s1"
proof (rule rw_run_reachable[OF _ rw_s0_reachable])
  show "rw_run [WrLock 1 False, WrLock 1 False] rw_s0 = Some rw_s1"
    by (simp add: rw_s0_def rw_s1_def rw_eval fun_upd_idem eval_nat_numeral)
qed

text \<open>Thread 1 holds the lock for reading, thread 2 waits to write, thread 3 to read.\<close>

definition rw_s2 :: rwsys where
  "rw_s2 = \<lparr>rwl = rw_free\<lparr>numLocks := 1, pendingReaders := 1, pendingWriters := 1\<rparr>,
     rpcs = (\<lambda>_. ROut)(2 := WrWait False Asleep, 3 := RdWait False Asleep), rholds = (\<lambda>_. 0)(1 := 1)\<rparr>"

lemma rw_s2_reachable:
  "reachable rw_start rw_step rw_s2" "reachable rw_start rw_step_no_timeout rw_s2"
proof -
  let ?a = "\<lparr>rwl = rw_free\<lparr>numLocks := 1\<rparr>, rpcs = (\<lambda>_. ROut), rholds = (\<lambda>_. 0)(1 := 1)\<rparr>"
  let ?b = "\<lparr>rwl = rw_free\<lparr>numLocks := 1, pendingWriters := 1\<rparr>, rpcs = (\<lambda>_. ROut)(2 := WrWait False Asleep),
     rholds = (\<lambda>_. 0)(1 := 1)\<rparr>"
  have 1: "rw_step rw_s0 ?a" by (rule rw_do_step[of "RdLock 1"]) (simp add: rw_s0_def rw_eval fun_upd_idem)
  have 2: "rw_step ?a ?b" by (rule rw_do_step[of "WrLock 2 False"]) (simp add: rw_eval fun_upd_idem)
  have 3: "rw_step ?b rw_s2"
    by (rule rw_do_step[of "RdLock 3"]) (simp add: rw_eval rw_s2_def fun_upd_idem)
  show "reachable rw_start rw_step rw_s2"
    by (rule reachable.step[OF reachable.step[OF reachable.step[OF rw_s0_reachable[of rw_step] 1] 2] 3])
  have n: "no_writer_timeout ?a" "no_writer_timeout ?b" "no_writer_timeout rw_s2"
    by (auto simp: no_writer_timeout_def rw_s2_def)
  show "reachable rw_start rw_step_no_timeout rw_s2"
    by (rule reachable_no_timeout[OF reachable_no_timeout[OF reachable_no_timeout[OF
          rw_s0_reachable 1 n(1)] 2 n(2)] 3 n(3)])
qed

section \<open>Properties\<close>



text \<open>
  \<open>pthread_rwlock_unlock\<close> answers correctly in every reachable state, for every thread unless it
  holds nothing of a lock that others hold for reading: it returns 0 exactly when the caller holds
  the lock and \<open>EPERM\<close>, without changing the lock, when it does not.
\<close>

theorem rwlock_unlock_exact:
  assumes "reachable rw_start rw_step s"
    and "rholds s t > 0 \<or> writerThreadId (rwl s) \<noteq> 0 \<or> numLocks (rwl s) = 0"
  shows "if rholds s t > 0 then fst (pthread_rwlock_unlock t (rwl s)) = 0
    else pthread_rwlock_unlock t (rwl s) = (EPERM, rwl s, False)"
proof -
  have inv: "rw_inv s" by (rule rwlock.reachable_inv[OF assms(1)])
  then have w: "writer_inv s" by (simp add: rw_inv_def)
  obtain r rw pulse where ex: "pthread_rwlock_unlock t (rwl s) = (r, rw, pulse)"
    by (cases "pthread_rwlock_unlock t (rwl s)") auto
  show ?thesis
  proof (cases "rholds s t > 0")
    case True
    then have "numLocks (rwl s) > 0"
      using inv tsum_pos[of int "rholds s" t] by (simp add: rw_inv_def counts_inv_def)
    moreover have "writerThreadId (rwl s) \<in> {0, t}"
      using True w by (auto simp: writer_inv_def)
    ultimately show ?thesis using True by (auto simp: pthread_rwlock_unlock_def Let_def)
  next
    case False
    then have "r \<noteq> 0" using unlock_success(1)[OF inv assms(2)] ex by metis
    then show ?thesis using False ex unlock_failure[OF ex] by simp
  qed
qed

theorem rwlock_unlock_exact_witness:
  "reachable rw_start rw_step rw_s1 \<and> fst (pthread_rwlock_unlock 1 (rwl rw_s1)) = 0 \<and>
   pthread_rwlock_unlock 2 (rwl rw_s1) = (EPERM, rwl rw_s1, False)"
proof -
  have h: "rholds rw_s1 1 > 0" "rholds rw_s1 2 = 0" "writerThreadId (rwl rw_s1) \<noteq> 0"
    by (simp_all add: rw_s1_def)
  show ?thesis
    using rwlock_unlock_exact[OF rw_s1_reachable, of 1] rwlock_unlock_exact[OF rw_s1_reachable, of 2]
      rw_s1_reachable h by simp
qed

text \<open>
  C12. Nobody sleeps on a free read-write lock: a writer that sleeps in the condition wait has somebody
  holding the lock; and as long as no \<open>pthread_rwlock_timedwrlock\<close> has timed out, a sleeping reader has
  somebody holding the lock or a woken writer that is about to take it.
\<close>

theorem rwlock_no_forgotten_waiter:
  assumes "reachable rw_start rw_step_no_timeout s" and "rholds s = (\<lambda>_. 0)"
  shows "rpcs s t \<noteq> WrWait b Asleep \<and>
    (rpcs s t = RdWait b Asleep \<longrightarrow> (\<exists>u c. rpcs s u = WrWait c Woken))"
proof -
  have inv: "rw_inv s" "rd_sleep_inv s" "no_writer_timeout s"
    using rwlock_no_timeout.reachable_inv[OF assms(1)] by simp_all
  have n0: "numLocks (rwl s) = 0"
    using inv(1) assms(2) by (simp add: rw_inv_def counts_inv_def tsum_def)
  have no: "rpcs s u \<noteq> WrWait c Asleep" for u c
    using inv(1) n0 by (auto simp: rw_inv_def wr_sleep_inv_def)
  have "\<exists>u c. rpcs s u = WrWait c Woken" if "rpcs s t = RdWait b Asleep"
  proof (rule ccontr)
    assume "\<not> (\<exists>u c. rpcs s u = WrWait c Woken)"
    then have "is_wr (rpcs s u) = 0" for u
      using no[of u] inv(3) unfolding no_writer_timeout_def
      by (cases "rpcs s u") (auto, metis wait_status.exhaust)
    then have "pendingWriters (rwl s) = 0"
      using inv(1) by (simp add: rw_inv_def counts_inv_def tsum_def)
    then show False using inv(2) n0 that by (auto simp: rd_sleep_inv_def)
  qed
  then show ?thesis using no by blast
qed

text \<open>
  Thread 1 has unlocked, which wakes both waiters; thread 3 runs first and sleeps again because of the
  pending writer.
\<close>

definition rw_s3 :: rwsys where
  "rw_s3 = \<lparr>rwl = rw_free\<lparr>pendingReaders := 1, pendingWriters := 1\<rparr>,
     rpcs = (\<lambda>_. ROut)(2 := WrWait False Woken, 3 := RdWait False Asleep), rholds = (\<lambda>_. 0)\<rparr>"

lemma rw_s3_reachable: "reachable rw_start rw_step_no_timeout rw_s3"
proof -
  let ?a = "\<lparr>rwl = rw_free\<lparr>pendingReaders := 1, pendingWriters := 1\<rparr>,
     rpcs = (\<lambda>_. ROut)(2 := WrWait False Woken, 3 := RdWait False Woken), rholds = (\<lambda>_. 0)\<rparr>"
  have 1: "rw_step rw_s2 ?a"
    by (rule rw_do_step[of "Unlock 1"]) (simp add: rw_s2_def rw_eval fun_upd_idem fun_eq_iff)
  have 2: "rw_step ?a rw_s3"
    by (rule rw_do_step[of "RdResume 3"]) (simp add: rw_s3_def rw_eval fun_upd_idem)
  have n: "no_writer_timeout ?a" "no_writer_timeout rw_s3"
    by (auto simp: no_writer_timeout_def rw_s3_def)
  show ?thesis
    by (rule reachable_no_timeout[OF reachable_no_timeout[OF rw_s2_reachable(2) 1 n(1)] 2 n(2)])
qed

theorem rwlock_no_forgotten_waiter_witness:
  "reachable rw_start rw_step_no_timeout rw_s3 \<and> rpcs rw_s3 3 = RdWait False Asleep \<and>
   (\<exists>u c. rpcs rw_s3 u = WrWait c Woken)"
proof -
  have "rholds rw_s3 = (\<lambda>_. 0)" "rpcs rw_s3 3 = RdWait False Asleep"
    by (simp_all add: rw_s3_def)
  then show ?thesis
    using rwlock_no_forgotten_waiter[OF rw_s3_reachable, of 3 False] rw_s3_reachable by blast
qed

text \<open>
  A timed-out writer can strand a reader: there is a reachable state in which a thread sleeps in
  \<open>pthread_rwlock_rdlock\<close> although nobody holds the lock, nobody waits for writing, every other
  thread is outside the functions of the lock, and the reader's own precondition is true.
\<close>

theorem rwlock_stranded_reader:
  "\<exists>s. reachable rw_start rw_step s \<and> rpcs s = (\<lambda>_. ROut)(3 := RdWait False Asleep) \<and>
    rholds s = (\<lambda>_. 0) \<and> read_precondition (rwl s) 3"
proof -
  let ?s = "\<lparr>rwl = rw_free\<lparr>pendingReaders := 1\<rparr>, rpcs = (\<lambda>_. ROut)(3 := RdWait False Asleep),
     rholds = (\<lambda>_. 0)\<rparr>"
  have "rw_run [RdLock 1, WrLock 2 True, WrTimeout 2, Unlock 1, RdLock 3, WrResume 2] rw_s0 = Some ?s"
    by (simp add: rw_s0_def rw_eval fun_upd_idem comp_def fun_eq_iff)
  then have "reachable rw_start rw_step ?s"
    by (rule rw_run_reachable[OF _ rw_s0_reachable])
  then show ?thesis
    by (intro exI[of _ ?s]) (simp add: rw_eval)
qed

text \<open>
  Re-acquiring for reading can deadlock: there is a reachable state in which thread 1 holds the
  lock for reading and sleeps in a second \<open>pthread_rwlock_rdlock\<close>, thread 2 sleeps in
  \<open>pthread_rwlock_wrlock\<close>, and no other thread is involved.
\<close>

theorem rwlock_reader_self_deadlock:
  "\<exists>s. reachable rw_start rw_step_no_timeout s \<and> rholds s = (\<lambda>_. 0)(1 := 1) \<and>
    rpcs s = (\<lambda>_. ROut)(1 := RdWait False Asleep, 2 := WrWait False Asleep)"
proof -
  let ?a = "\<lparr>rwl = rw_free\<lparr>numLocks := 1\<rparr>, rpcs = (\<lambda>_. ROut), rholds = (\<lambda>_. 0)(1 := 1)\<rparr>"
  let ?b = "\<lparr>rwl = rw_free\<lparr>numLocks := 1, pendingWriters := 1\<rparr>, rpcs = (\<lambda>_. ROut)(2 := WrWait False Asleep),
     rholds = (\<lambda>_. 0)(1 := 1)\<rparr>"
  let ?c = "\<lparr>rwl = rw_free\<lparr>numLocks := 1, pendingReaders := 1, pendingWriters := 1\<rparr>,
     rpcs = (\<lambda>_. ROut)(1 := RdWait False Asleep, 2 := WrWait False Asleep), rholds = (\<lambda>_. 0)(1 := 1)\<rparr>"
  have 1: "rw_step rw_s0 ?a" by (rule rw_do_step[of "RdLock 1"]) (simp add: rw_s0_def rw_eval fun_upd_idem)
  have 2: "rw_step ?a ?b"
    by (rule rw_do_step[of "WrLock 2 False"]) (simp add: rw_eval fun_upd_idem)
  have 3: "rw_step ?b ?c"
    by (rule rw_do_step[of "RdLock 1"]) (simp add: rw_eval fun_upd_idem fun_upd_twist)
  have n: "no_writer_timeout ?a" "no_writer_timeout ?b" "no_writer_timeout ?c"
    by (auto simp: no_writer_timeout_def)
  have "reachable rw_start rw_step_no_timeout ?c"
    by (rule reachable_no_timeout[OF reachable_no_timeout[OF reachable_no_timeout[OF
          rw_s0_reachable 1 n(1)] 2 n(2)] 3 n(3)])
  then show ?thesis by (intro exI[of _ ?c]) simp
qed

end
