(* ===== verification/Pthread_Attr.thy ===== *)
theory Pthread_Attr
  imports Bionic_Prelude
begin

unbundle bit_operations_syntax

text \<open>
  Thread attributes of \<open>libc/bionic/pthread.c\<close>: the attribute object, its getters and setters, and
  the invariant every sequence of setter calls keeps. The functions dereference their pointer
  argument without a check, so a call needs an attribute object; it is the argument here.
\<close>

section \<open>The attribute object\<close>

record pthread_attr =
  flags :: u32
  stack_base :: u32
  stack_size :: u32
  guard_size :: u32
  sched_policy :: u32
  sched_priority :: u32

abbreviation (input) PTHREAD_ATTR_FLAG_DETACHED :: u32 where "PTHREAD_ATTR_FLAG_DETACHED \<equiv> 1"

abbreviation (input) PTHREAD_ATTR_FLAG_USER_STACK :: u32 where "PTHREAD_ATTR_FLAG_USER_STACK \<equiv> 2"

abbreviation (input) DEFAULT_STACKSIZE :: u32 where "DEFAULT_STACKSIZE \<equiv> 1024 * 1024"

abbreviation (input) PAGE_SIZE :: u32 where "PAGE_SIZE \<equiv> 4096"

abbreviation (input) PTHREAD_STACK_MIN :: u32 where "PTHREAD_STACK_MIN \<equiv> 2 * PAGE_SIZE"

abbreviation (input) PTHREAD_CREATE_DETACHED :: u32 where "PTHREAD_CREATE_DETACHED \<equiv> 1"

abbreviation (input) PTHREAD_CREATE_JOINABLE :: u32 where "PTHREAD_CREATE_JOINABLE \<equiv> 0"

abbreviation (input) PTHREAD_SCOPE_SYSTEM :: u32 where "PTHREAD_SCOPE_SYSTEM \<equiv> 0"

abbreviation (input) PTHREAD_SCOPE_PROCESS :: u32 where "PTHREAD_SCOPE_PROCESS \<equiv> 1"

abbreviation (input) SCHED_NORMAL :: u32 where "SCHED_NORMAL \<equiv> 0"

definition gDefaultPthreadAttr :: pthread_attr where
  "gDefaultPthreadAttr =
     \<lparr>flags = 0, stack_base = 0, stack_size = DEFAULT_STACKSIZE, guard_size = PAGE_SIZE,
      sched_policy = SCHED_NORMAL, sched_priority = 0\<rparr>"

section \<open>Operations\<close>

text \<open>A setter returns its result code and the attribute; a getter the code and what it stores.\<close>

definition pthread_attr_init :: "pthread_attr \<Rightarrow> int \<times> pthread_attr" where
  "pthread_attr_init attr = (0, gDefaultPthreadAttr)"

definition pthread_attr_destroy :: "pthread_attr \<Rightarrow> int \<times> pthread_attr" where
  "pthread_attr_destroy attr =
     (0, \<lparr>flags = 0x42424242, stack_base = 0x42424242, stack_size = 0x42424242,
          guard_size = 0x42424242, sched_policy = 0x42424242, sched_priority = 0x42424242\<rparr>)"

definition pthread_attr_setdetachstate :: "pthread_attr \<Rightarrow> u32 \<Rightarrow> int \<times> pthread_attr" where
  "pthread_attr_setdetachstate attr state =
     (if state = PTHREAD_CREATE_DETACHED
      then (0, attr\<lparr>flags := flags attr OR PTHREAD_ATTR_FLAG_DETACHED\<rparr>)
      else if state = PTHREAD_CREATE_JOINABLE
      then (0, attr\<lparr>flags := flags attr AND NOT PTHREAD_ATTR_FLAG_DETACHED\<rparr>)
      else (EINVAL, attr))"

definition pthread_attr_getdetachstate :: "pthread_attr \<Rightarrow> int \<times> u32" where
  "pthread_attr_getdetachstate attr =
     (0, if flags attr AND PTHREAD_ATTR_FLAG_DETACHED \<noteq> 0 then PTHREAD_CREATE_DETACHED
         else PTHREAD_CREATE_JOINABLE)"

definition pthread_attr_setschedpolicy :: "pthread_attr \<Rightarrow> u32 \<Rightarrow> int \<times> pthread_attr" where
  "pthread_attr_setschedpolicy attr policy = (0, attr\<lparr>sched_policy := policy\<rparr>)"

definition pthread_attr_getschedpolicy :: "pthread_attr \<Rightarrow> int \<times> u32" where
  "pthread_attr_getschedpolicy attr = (0, sched_policy attr)"

definition pthread_attr_setschedparam :: "pthread_attr \<Rightarrow> u32 \<Rightarrow> int \<times> pthread_attr" where
  "pthread_attr_setschedparam attr priority = (0, attr\<lparr>sched_priority := priority\<rparr>)"

definition pthread_attr_getschedparam :: "pthread_attr \<Rightarrow> int \<times> u32" where
  "pthread_attr_getschedparam attr = (0, sched_priority attr)"

definition pthread_attr_setstacksize :: "pthread_attr \<Rightarrow> u32 \<Rightarrow> int \<times> pthread_attr" where
  "pthread_attr_setstacksize attr sz =
     (if sz AND (PAGE_SIZE - 1) \<noteq> 0 \<or> sz < PTHREAD_STACK_MIN then (EINVAL, attr)
      else (0, attr\<lparr>stack_size := sz\<rparr>))"

definition pthread_attr_getstacksize :: "pthread_attr \<Rightarrow> int \<times> u32" where
  "pthread_attr_getstacksize attr = (0, stack_size attr)"

definition pthread_attr_setstackaddr :: "pthread_attr \<Rightarrow> u32 \<Rightarrow> int \<times> pthread_attr" where
  "pthread_attr_setstackaddr attr stack_addr = (ENOSYS, attr)"

definition pthread_attr_getstackaddr :: "pthread_attr \<Rightarrow> int \<times> u32" where
  "pthread_attr_getstackaddr attr = (0, stack_base attr + stack_size attr)"

definition pthread_attr_setstack :: "pthread_attr \<Rightarrow> u32 \<Rightarrow> u32 \<Rightarrow> int \<times> pthread_attr" where
  "pthread_attr_setstack attr base sz =
     (if sz AND (PAGE_SIZE - 1) \<noteq> 0 \<or> sz < PTHREAD_STACK_MIN then (EINVAL, attr)
      else if base AND (PAGE_SIZE - 1) \<noteq> 0 then (EINVAL, attr)
      else (0, attr\<lparr>stack_base := base, stack_size := sz\<rparr>))"

definition pthread_attr_getstack :: "pthread_attr \<Rightarrow> int \<times> u32 \<times> u32" where
  "pthread_attr_getstack attr = (0, stack_base attr, stack_size attr)"

definition pthread_attr_setguardsize :: "pthread_attr \<Rightarrow> u32 \<Rightarrow> int \<times> pthread_attr" where
  "pthread_attr_setguardsize attr sz =
     (if sz AND (PAGE_SIZE - 1) \<noteq> 0 \<or> sz < PAGE_SIZE then (EINVAL, attr)
      else (0, attr\<lparr>guard_size := sz\<rparr>))"

definition pthread_attr_getguardsize :: "pthread_attr \<Rightarrow> int \<times> u32" where
  "pthread_attr_getguardsize attr = (0, guard_size attr)"

definition pthread_attr_setscope :: "pthread_attr \<Rightarrow> u32 \<Rightarrow> int \<times> pthread_attr" where
  "pthread_attr_setscope attr scope =
     (if scope = PTHREAD_SCOPE_SYSTEM then (0, attr)
      else if scope = PTHREAD_SCOPE_PROCESS then (EOPNOTSUPP, attr) else (EINVAL, attr))"

definition pthread_attr_getscope :: "pthread_attr \<Rightarrow> u32" where
  "pthread_attr_getscope attr = PTHREAD_SCOPE_SYSTEM"

section \<open>Sequences of calls\<close>

datatype attr_call =
    SetDetachState u32 | SetSchedPolicy u32 | SetSchedParam u32 | SetStackSize u32
  | SetStackAddr u32 | SetStack u32 u32 | SetGuardSize u32 | SetScope u32

fun attr_apply :: "attr_call \<Rightarrow> pthread_attr \<Rightarrow> int \<times> pthread_attr" where
  "attr_apply (SetDetachState s) a = pthread_attr_setdetachstate a s"
| "attr_apply (SetSchedPolicy p) a = pthread_attr_setschedpolicy a p"
| "attr_apply (SetSchedParam p) a = pthread_attr_setschedparam a p"
| "attr_apply (SetStackSize n) a = pthread_attr_setstacksize a n"
| "attr_apply (SetStackAddr p) a = pthread_attr_setstackaddr a p"
| "attr_apply (SetStack b n) a = pthread_attr_setstack a b n"
| "attr_apply (SetGuardSize n) a = pthread_attr_setguardsize a n"
| "attr_apply (SetScope s) a = pthread_attr_setscope a s"

definition attr_run :: "attr_call list \<Rightarrow> pthread_attr" where
  "attr_run calls = fold (\<lambda>c a. snd (attr_apply c a)) calls (snd (pthread_attr_init gDefaultPthreadAttr))"

text \<open>The last value a successful call of the sequence gave to a field, as the getters report it.\<close>

fun detach_request :: "attr_call \<Rightarrow> u32 option" where
  "detach_request (SetDetachState s) = (if s = 0 \<or> s = 1 then Some s else None)"
| "detach_request _ = None"

fun stack_request :: "attr_call \<Rightarrow> u32 option" where
  "stack_request (SetStackSize n) = (if n AND 4095 = 0 \<and> n \<ge> 8192 then Some n else None)"
| "stack_request (SetStack b n) =
     (if n AND 4095 = 0 \<and> n \<ge> 8192 \<and> b AND 4095 = 0 then Some n else None)"
| "stack_request _ = None"

definition last_request :: "(attr_call \<Rightarrow> u32 option) \<Rightarrow> u32 \<Rightarrow> attr_call list \<Rightarrow> u32" where
  "last_request req dflt calls = last (dflt # List.map_filter req calls)"

section \<open>Properties\<close>

definition attr_wf :: "pthread_attr \<Rightarrow> bool" where
  "attr_wf a \<longleftrightarrow> flags a \<in> {0, PTHREAD_ATTR_FLAG_DETACHED} \<and> stack_base a AND (PAGE_SIZE - 1) = 0 \<and>
     stack_size a AND (PAGE_SIZE - 1) = 0 \<and> PTHREAD_STACK_MIN \<le> stack_size a \<and>
     guard_size a AND (PAGE_SIZE - 1) = 0 \<and> PAGE_SIZE \<le> guard_size a"

lemma attr_wf_default: "attr_wf gDefaultPthreadAttr"
  by (simp add: attr_wf_def gDefaultPthreadAttr_def)

lemmas attr_setter_defs =
  pthread_attr_setdetachstate_def pthread_attr_setschedpolicy_def pthread_attr_setschedparam_def
  pthread_attr_setstacksize_def pthread_attr_setstackaddr_def pthread_attr_setstack_def
  pthread_attr_setguardsize_def pthread_attr_setscope_def

lemma attr_wf_apply: "attr_wf a \<Longrightarrow> attr_wf (snd (attr_apply c a))"
  by (cases c) (auto simp: attr_wf_def attr_setter_defs linorder_not_less)

lemma attr_apply_error: "fst (attr_apply c a) \<noteq> 0 \<Longrightarrow> snd (attr_apply c a) = a"
  by (cases c) (auto simp: attr_setter_defs)

lemma attr_apply_detach:
  assumes "attr_wf a"
  shows "snd (pthread_attr_getdetachstate (snd (attr_apply c a))) =
    (case detach_request c of Some s \<Rightarrow> s | None \<Rightarrow> snd (pthread_attr_getdetachstate a))"
  using assms
  by (cases c) (auto simp: attr_setter_defs pthread_attr_getdetachstate_def attr_wf_def)

lemma attr_apply_stack:
  "snd (pthread_attr_getstacksize (snd (attr_apply c a))) =
    (case stack_request c of Some n \<Rightarrow> n | None \<Rightarrow> snd (pthread_attr_getstacksize a))"
  by (cases c) (auto simp: attr_setter_defs pthread_attr_getstacksize_def not_le)

lemma attr_run_snoc: "attr_run (cs @ [c]) = snd (attr_apply c (attr_run cs))"
  by (simp add: attr_run_def)

lemma attr_run_wf: "attr_wf (attr_run calls)"
  by (induction calls rule: rev_induct)
    (simp_all add: attr_run_snoc attr_wf_apply, simp add: attr_run_def pthread_attr_init_def attr_wf_default)

lemma last_request_snoc:
  "last_request req d (cs @ [c]) = (case req c of Some x \<Rightarrow> x | None \<Rightarrow> last_request req d cs)"
  by (auto simp: last_request_def List.map_filter_def split: option.splits)


end
