(* ===== verification/Pthread_Thread.thy ===== *)
theory Pthread_Thread
  imports Pthread_Attr
begin

unbundle bit_operations_syntax

text \<open>
  Thread descriptors of \<open>libc/bionic/pthread.c\<close>: the doubly linked list of descriptors, thread
  creation, exit, join and detach. Descriptors live in a heap, so that the list operations are the
  pointer manipulations of the source; a null or dangling dereference is \<open>None\<close>. Each function is one
  step under \<open>gThreadListLock\<close>; \<open>pthread_join\<close>, which waits on a condition variable, is two.
\<close>

section \<open>Descriptors and the thread list\<close>

text \<open>Addresses of descriptors; 0 is the null pointer.\<close>

type_synonym addr = nat

text \<open>What \<open>pref\<close> points to: the list head or the \<open>next\<close> field of a descriptor.\<close>

datatype pref = PHead | PNextOf addr

record pthread_internal =
  t_next :: addr
  t_pref :: pref
  t_attr :: pthread_attr
  kernel_id :: u32
  join_count :: int
  return_value :: u32
  intern :: bool
  cleanup_stack :: "(u32 \<times> u32) list"
  tls :: "u32 list option"

record thr_state =
  gThreadList :: addr
  descs :: "addr \<Rightarrow> pthread_internal option"

definition upd_desc :: "addr \<Rightarrow> (pthread_internal \<Rightarrow> pthread_internal) \<Rightarrow> thr_state \<Rightarrow> thr_state option" where
  "upd_desc a f s =
     (case descs s a of Some d \<Rightarrow> Some (s\<lparr>descs := (descs s)(a := Some (f d))\<rparr>) | None \<Rightarrow> None)"

text \<open>Reading and writing through a \<open>pref\<close> pointer.\<close>

fun read_pref :: "pref \<Rightarrow> thr_state \<Rightarrow> addr option" where
  "read_pref PHead s = Some (gThreadList s)"
| "read_pref (PNextOf a) s = map_option t_next (descs s a)"

fun write_pref :: "pref \<Rightarrow> addr \<Rightarrow> thr_state \<Rightarrow> thr_state option" where
  "write_pref PHead v s = Some (s\<lparr>gThreadList := v\<rparr>)"
| "write_pref (PNextOf a) v s = upd_desc a (\<lambda>d. d\<lparr>t_next := v\<rparr>) s"

definition zero_desc :: pthread_internal where
  "zero_desc = \<lparr>t_next = 0, t_pref = PHead,
     t_attr = \<lparr>flags = 0, stack_base = 0, stack_size = 0, guard_size = 0, sched_policy = 0, sched_priority = 0\<rparr>,
     kernel_id = 0, join_count = 0, return_value = 0, intern = False, cleanup_stack = [], tls = None\<rparr>"

text \<open>\<open>_pthread_internal_alloc\<close>; the argument is the address \<open>calloc\<close> returns, 0 when it fails.\<close>

definition pthread_internal_alloc :: "addr \<Rightarrow> thr_state \<Rightarrow> addr \<times> thr_state" where
  "pthread_internal_alloc a s =
     (if a = 0 then (0, s) else (a, s\<lparr>descs := (descs s)(a := Some (zero_desc\<lparr>intern := True\<rparr>))\<rparr>))"

definition pthread_internal_free :: "addr \<Rightarrow> thr_state \<Rightarrow> thr_state option" where
  "pthread_internal_free a s =
     (if a = 0 then Some s
      else case descs s a of
        None \<Rightarrow> None
      | Some d \<Rightarrow> Some (if intern d then s\<lparr>descs := (descs s)(a := None)\<rparr> else s))"

definition pthread_internal_remove_locked :: "addr \<Rightarrow> thr_state \<Rightarrow> thr_state option" where
  "pthread_internal_remove_locked a s =
     do {
       d \<leftarrow> descs s a;
       s1 \<leftarrow> upd_desc (t_next d) (\<lambda>n. n\<lparr>t_pref := t_pref d\<rparr>) s;
       d1 \<leftarrow> descs s1 a;
       write_pref (t_pref d1) (t_next d1) s1
     }"

definition pthread_internal_add :: "addr \<Rightarrow> thr_state \<Rightarrow> thr_state option" where
  "pthread_internal_add a s =
     do {
       s1 \<leftarrow> upd_desc a (\<lambda>d. d\<lparr>t_pref := PHead\<rparr>) s;
       n \<leftarrow> read_pref PHead s1;
       s2 \<leftarrow> upd_desc a (\<lambda>d. d\<lparr>t_next := n\<rparr>) s1;
       s3 \<leftarrow> (if n \<noteq> 0 then upd_desc n (\<lambda>d. d\<lparr>t_pref := PNextOf a\<rparr>) s2 else Some s2);
       write_pref PHead a s3
     }"

text \<open>
  The loop \<open>for (thread = gThreadList; thread != NULL; thread = thread->next)\<close>: the descriptors it
  visits, \<open>None\<close> when it meets a dangling pointer or does not end within the given number of rounds.
\<close>

fun thread_walk :: "nat \<Rightarrow> thr_state \<Rightarrow> addr \<Rightarrow> addr list option" where
  "thread_walk fuel s a =
     (if a = 0 then Some []
      else case fuel of 0 \<Rightarrow> None
        | Suc n \<Rightarrow> (case descs s a of None \<Rightarrow> None
                    | Some d \<Rightarrow> map_option ((#) a) (thread_walk n s (t_next d))))"

text \<open>The search loops of \<open>pthread_join\<close> and \<open>pthread_detach\<close>.\<close>

fun thread_find :: "nat \<Rightarrow> thr_state \<Rightarrow> addr \<Rightarrow> addr \<Rightarrow> bool option" where
  "thread_find fuel s a thid =
     (if a = 0 then Some False
      else if a = thid then Some True
      else case fuel of 0 \<Rightarrow> None
        | Suc n \<Rightarrow> (case descs s a of None \<Rightarrow> None | Some d \<Rightarrow> thread_find n s (t_next d) thid))"

section \<open>The list represented by the pointers\<close>

fun tlist :: "(addr \<Rightarrow> pthread_internal option) \<Rightarrow> pref \<Rightarrow> addr \<Rightarrow> addr list \<Rightarrow> bool" where
  "tlist h p a [] \<longleftrightarrow> a = 0"
| "tlist h p a (x # xs) \<longleftrightarrow> a = x \<and> x \<noteq> 0 \<and>
     (\<exists>d. h x = Some d \<and> t_pref d = p \<and> tlist h (PNextOf x) (t_next d) xs)"

definition is_list :: "thr_state \<Rightarrow> addr list \<Rightarrow> bool" where
  "is_list s xs \<longleftrightarrow> tlist (descs s) PHead (gThreadList s) xs \<and> distinct xs"

lemma tlist_frame:
  "\<lbrakk>tlist h p a xs; \<And>x. x \<in> set xs \<Longrightarrow> h' x = h x\<rbrakk> \<Longrightarrow> tlist h' p a xs"
  by (induction xs arbitrary: p a) auto

lemma tlist_upd: "x \<notin> set xs \<Longrightarrow> tlist (h(x := v)) p a xs = tlist h p a xs"
  by (induction xs arbitrary: p a) auto

lemma thread_walk_list: "tlist (descs s) p a xs \<Longrightarrow> length xs \<le> n \<Longrightarrow> thread_walk n s a = Some xs"
proof (induction xs arbitrary: p a n)
  case (Cons x xs)
  then obtain d m where "descs s x = Some d" "tlist (descs s) (PNextOf x) (t_next d) xs" "n = Suc m"
    by (cases n) auto
  with Cons show ?case by auto
qed simp

lemma thread_find_list:
  "tlist (descs s) p a xs \<Longrightarrow> length xs \<le> n \<Longrightarrow> thid \<noteq> 0 \<Longrightarrow> thread_find n s a thid = Some (thid \<in> set xs)"
proof (induction xs arbitrary: p a n)
  case (Cons x xs)
  then obtain d m where "descs s x = Some d" "tlist (descs s) (PNextOf x) (t_next d) xs" "n = Suc m"
    by (cases n) auto
  with Cons show ?case by auto
qed simp

lemma add_list:
  assumes l: "is_list s xs" and a: "a \<noteq> 0" "a \<notin> set xs" and d: "descs s a = Some d"
  shows "\<exists>s'. pthread_internal_add a s = Some s' \<and> is_list s' (a # xs) \<and>
    (\<forall>x. x \<notin> set (a # xs) \<longrightarrow> descs s' x = descs s x) \<and>
    descs s' a = Some (d\<lparr>t_pref := PHead, t_next := gThreadList s\<rparr>)"
proof (cases xs)
  case Nil
  then show ?thesis
    using assms by (auto simp: is_list_def pthread_internal_add_def upd_desc_def)
next
  case (Cons x ys)
  then obtain e where x: "gThreadList s = x" "x \<noteq> 0" "descs s x = Some e" "t_pref e = PHead"
    "tlist (descs s) (PNextOf x) (t_next e) ys"
    using l by (auto simp: is_list_def)
  have "x \<noteq> a" "x \<notin> set ys" "a \<notin> set ys" using Cons a l by (auto simp: is_list_def)
  then show ?thesis
    using x d a Cons l by (auto simp: is_list_def pthread_internal_add_def upd_desc_def tlist_upd)
qed

text \<open>A segment of the list: it starts at \<open>a\<close> and its last \<open>next\<close> field holds \<open>b\<close>.\<close>

fun tseg :: "(addr \<Rightarrow> pthread_internal option) \<Rightarrow> pref \<Rightarrow> addr \<Rightarrow> addr list \<Rightarrow> addr \<Rightarrow> bool" where
  "tseg h p a [] b \<longleftrightarrow> a = b"
| "tseg h p a (x # xs) b \<longleftrightarrow> a = x \<and> x \<noteq> 0 \<and>
     (\<exists>d. h x = Some d \<and> t_pref d = p \<and> tseg h (PNextOf x) (t_next d) xs b)"

lemma tlist_append:
  "tlist h p a (us @ ys) \<longleftrightarrow>
   (\<exists>b. tseg h p a us b \<and> tlist h (if us = [] then p else PNextOf (last us)) b ys)"
  by (induction us arbitrary: p a) auto

lemma tseg_upd: "x \<notin> set us \<Longrightarrow> tseg (h(x := v)) p a us b = tseg h p a us b"
  by (induction us arbitrary: p a) auto

lemma tseg_retarget:
  "\<lbrakk>tseg h p a us c; us \<noteq> []; distinct us; h (last us) = Some d\<rbrakk> \<Longrightarrow>
   tseg (h(last us := Some (d\<lparr>t_next := b\<rparr>))) p a us b"
proof (induction us arbitrary: p a)
  case (Cons x xs)
  show ?case
  proof (cases "xs = []")
    case False
    then have "x \<noteq> last xs" using Cons.prems(3) by auto
    with Cons False show ?thesis by auto
  qed (use Cons.prems in auto)
qed simp

lemma tseg_mem: "tseg h p a us c \<Longrightarrow> x \<in> set us \<Longrightarrow> \<exists>d. h x = Some d"
  by (induction us arbitrary: p a) auto

lemma remove_list:
  assumes l: "is_list s (us @ a # b # vs)"
  shows "\<exists>s'. pthread_internal_remove_locked a s = Some s' \<and> is_list s' (us @ b # vs) \<and>
    (\<forall>x. x \<notin> set (us @ b # vs) \<longrightarrow> descs s' x = descs s x)"
proof -
  let ?p = "if us = [] then PHead else PNextOf (last us)"
  have dist: "distinct (us @ a # b # vs)" using l by (simp add: is_list_def)
  obtain da db where seg: "tseg (descs s) PHead (gThreadList s) us a"
    and da: "descs s a = Some da" "t_pref da = ?p" "t_next da = b" and nz: "a \<noteq> 0" "b \<noteq> 0"
    and db: "descs s b = Some db" "tlist (descs s) (PNextOf b) (t_next db) vs"
    using l by (auto simp: is_list_def tlist_append)
  let ?h = "(descs s)(b := Some (db\<lparr>t_pref := ?p\<rparr>))"
  have seg1: "tseg ?h PHead (gThreadList s) us a" and rest: "tlist ?h (PNextOf b) (t_next db) vs"
    using seg db(2) dist by (auto simp: tseg_upd tlist_upd)
  have tail: "tlist ?h ?p b (b # vs)" using rest nz by auto
  have step: "pthread_internal_remove_locked a s = write_pref ?p b (s\<lparr>descs := ?h\<rparr>)"
    using da db dist by (simp add: pthread_internal_remove_locked_def upd_desc_def)
  show ?thesis
  proof (cases "us = []")
    case True
    then show ?thesis using step tail dist by (auto simp: is_list_def)
  next
    case False
    then obtain du where du: "?h (last us) = Some du" using tseg_mem[OF seg1, of "last us"] by auto
    have out: "last us \<notin> set (b # vs)" using dist False by (auto dest: last_in_set)
    have "tseg (?h(last us := Some (du\<lparr>t_next := b\<rparr>))) PHead (gThreadList s) us b"
      by (rule tseg_retarget[OF seg1 False _ du]) (use dist in simp)
    moreover have "tlist (?h(last us := Some (du\<lparr>t_next := b\<rparr>))) ?p b (b # vs)"
      by (rule tlist_upd[OF out, THEN iffD2]) (rule tail)
    ultimately have "tlist (?h(last us := Some (du\<lparr>t_next := b\<rparr>))) PHead (gThreadList s) (us @ b # vs)"
      unfolding tlist_append by blast
    moreover have "write_pref ?p b (s\<lparr>descs := ?h\<rparr>)
        = Some (s\<lparr>descs := ?h(last us := Some (du\<lparr>t_next := b\<rparr>))\<rparr>)"
      using False du by (simp add: upd_desc_def)
    moreover have "last us \<in> set us" using False by simp
    ultimately show ?thesis using step dist by (auto simp: is_list_def)
  qed
qed

lemma remove_last:
  assumes l: "is_list s (us @ [a])" and "descs s 0 = None"
  shows "pthread_internal_remove_locked a s = None"
proof -
  obtain da where "descs s a = Some da" "t_next da = 0"
    using l by (auto simp: is_list_def tlist_append)
  then show ?thesis
    using assms(2) by (simp add: pthread_internal_remove_locked_def upd_desc_def)
qed

section \<open>Thread start and end\<close>

text \<open>\<open>__init_tls\<close>: slot 0 points to the area, slot 1 to the descriptor, the others are zero.\<close>

abbreviation (input) BIONIC_TLS_SLOTS :: nat where "BIONIC_TLS_SLOTS \<equiv> 64"

abbreviation (input) TLS_SLOT_SELF :: nat where "TLS_SLOT_SELF \<equiv> 0"

abbreviation (input) TLS_SLOT_THREAD_ID :: nat where "TLS_SLOT_THREAD_ID \<equiv> 1"

abbreviation (input) TLS_SLOT_ERRNO :: nat where "TLS_SLOT_ERRNO \<equiv> 2"

definition init_tls :: "u32 \<Rightarrow> addr \<Rightarrow> thr_state \<Rightarrow> thr_state option" where
  "init_tls tls_addr thread s =
     upd_desc thread
       (\<lambda>d. d\<lparr>tls := Some ((replicate BIONIC_TLS_SLOTS 0)[TLS_SLOT_SELF := tls_addr,
                                                       TLS_SLOT_THREAD_ID := of_nat thread])\<rparr>) s"

text \<open>\<open>_init_thread\<close>; the last component says whether \<open>sched_setscheduler\<close> is called.\<close>

definition init_thread ::
  "addr \<Rightarrow> u32 \<Rightarrow> pthread_attr option \<Rightarrow> u32 \<Rightarrow> thr_state \<Rightarrow> (thr_state \<times> bool) option" where
  "init_thread thread kid attr base s =
     (let at = (case attr of None \<Rightarrow> gDefaultPthreadAttr | Some x \<Rightarrow> x)\<lparr>stack_base := base\<rparr>
      in do {
        s1 \<leftarrow> upd_desc thread (\<lambda>d. d\<lparr>t_attr := at, kernel_id := kid, join_count := 0, cleanup_stack := []\<rparr>) s;
        s2 \<leftarrow> pthread_internal_add thread s1;
        Some (s2, sched_policy at \<noteq> SCHED_NORMAL)
      })"

text \<open>
  What the system calls of \<open>pthread_create\<close> answer: \<open>calloc\<close> and \<open>mmap\<close> an address (0 on failure),
  \<open>mprotect\<close> whether it succeeds, \<open>__pthread_clone\<close> a kernel id or a negative number with an \<open>errno\<close>.
\<close>

record create_env =
  e_calloc :: addr
  e_mmap :: u32
  e_mprotect_ok :: bool
  e_clone :: int
  e_errno :: int

text \<open>The stack and the mappings that were removed again.\<close>

definition mkstack :: "create_env \<Rightarrow> u32 \<Rightarrow> u32 \<times> (u32 \<times> u32) list" where
  "mkstack e sz =
     (if e_mmap e = 0 then (0, [])
      else if \<not> e_mprotect_ok e then (0, [(e_mmap e, sz)])
      else (e_mmap e, []))"

record create_result =
  cr_code :: int
  cr_thread :: addr
  cr_unmapped :: "(u32 \<times> u32) list"
  cr_state :: thr_state

definition pthread_create :: "create_env \<Rightarrow> pthread_attr option \<Rightarrow> thr_state \<Rightarrow> create_result option" where
  "pthread_create e attr0 s =
     (case pthread_internal_alloc (e_calloc e) s of (thread, s1) \<Rightarrow>
      if thread = 0 then Some \<lparr>cr_code = ENOMEM, cr_thread = 0, cr_unmapped = [], cr_state = s1\<rparr>
      else
       let attr = (case attr0 of None \<Rightarrow> gDefaultPthreadAttr | Some x \<Rightarrow> x);
           stackSize = (stack_size attr + (PAGE_SIZE - 1)) AND NOT (PAGE_SIZE - 1);
           madestack = (stack_base attr = 0);
           (stack, unmapped) = (if madestack then mkstack e stackSize else (stack_base attr, []))
       in if stack = 0 then
            do { s2 \<leftarrow> pthread_internal_free thread s1;
                 Some \<lparr>cr_code = ENOMEM, cr_thread = 0, cr_unmapped = unmapped, cr_state = s2\<rparr> }
          else if e_clone e < 0 then
            do { s2 \<leftarrow> pthread_internal_free thread s1;
                 Some \<lparr>cr_code = e_errno e, cr_thread = 0,
                       cr_unmapped = (if madestack then unmapped @ [(stack, stackSize)] else unmapped),
                       cr_state = s2\<rparr> }
          else
            do { (s2, _) \<leftarrow> init_thread thread (of_int (e_clone e)) (Some attr) stack s1;
                 s3 \<leftarrow> (if \<not> madestack
                        then upd_desc thread (\<lambda>d. d\<lparr>t_attr := (t_attr d)\<lparr>flags := flags (t_attr d) OR
                               PTHREAD_ATTR_FLAG_USER_STACK\<rparr>\<rparr>) s2
                        else Some s2);
                 Some \<lparr>cr_code = 0, cr_thread = thread, cr_unmapped = unmapped, cr_state = s3\<rparr> })"

text \<open>\<open>__pthread_cleanup_push\<close> and \<open>__pthread_cleanup_pop\<close>; a pop returns the call it makes.\<close>

definition pthread_cleanup_push :: "addr \<Rightarrow> u32 \<Rightarrow> u32 \<Rightarrow> thr_state \<Rightarrow> thr_state option" where
  "pthread_cleanup_push thread routine arg s =
     upd_desc thread (\<lambda>d. d\<lparr>cleanup_stack := (routine, arg) # cleanup_stack d\<rparr>) s"

definition pthread_cleanup_pop ::
  "addr \<Rightarrow> bool \<Rightarrow> thr_state \<Rightarrow> (thr_state \<times> (u32 \<times> u32) list) option" where
  "pthread_cleanup_pop thread execute s =
     do {
       d \<leftarrow> descs s thread;
       s1 \<leftarrow> upd_desc thread (\<lambda>d. d\<lparr>cleanup_stack := tl (cleanup_stack d)\<rparr>) s;
       Some (s1, if execute then take 1 (cleanup_stack d) else [])
     }"

text \<open>
  The loop of \<open>pthread_exit\<close> over the cleanup handlers: the calls in order. The handlers are client
  code; they do not push or pop here.
\<close>

fun run_cleanup :: "(u32 \<times> u32) list \<Rightarrow> (u32 \<times> u32) list" where
  "run_cleanup [] = []"
| "run_cleanup (c # cs) = c # run_cleanup cs"

text \<open>
  The end of \<open>pthread_exit\<close>, after the cleanup handlers and the TLS destructors: the new state and
  whether the joiners are woken.
\<close>

definition pthread_exit_list :: "addr \<Rightarrow> u32 \<Rightarrow> thr_state \<Rightarrow> (thr_state \<times> bool) option" where
  "pthread_exit_list thread retval s =
     do {
       d \<leftarrow> descs s thread;
       (if flags (t_attr d) AND PTHREAD_ATTR_FLAG_DETACHED \<noteq> 0
        then do { s1 \<leftarrow> pthread_internal_remove_locked thread s;
                  s2 \<leftarrow> pthread_internal_free thread s1;
                  Some (s2, False) }
        else if join_count d > 0
        then do { s1 \<leftarrow> upd_desc thread (\<lambda>d. d\<lparr>return_value := retval\<rparr>) s; Some (s1, True) }
        else do { s1 \<leftarrow> upd_desc thread (\<lambda>d. d\<lparr>return_value := retval, join_count := - 1\<rparr>) s;
                  Some (s1, False) })
     }"

text \<open>How the first half of \<open>pthread_join\<close> ends: with a result code, or waiting on \<open>join_cond\<close>.\<close>

datatype join_out = JRet int u32 | JWait

definition join_finish :: "addr \<Rightarrow> int \<Rightarrow> thr_state \<Rightarrow> (thr_state \<times> join_out) option" where
  "join_finish thread count s =
     do {
       d \<leftarrow> descs s thread;
       s1 \<leftarrow> (if count \<le> 0 then do { s1 \<leftarrow> pthread_internal_remove_locked thread s;
                                     pthread_internal_free thread s1 }
              else Some s);
       Some (s1, JRet 0 (return_value d))
     }"

definition pthread_join_enter :: "nat \<Rightarrow> addr \<Rightarrow> thr_state \<Rightarrow> (thr_state \<times> join_out) option" where
  "pthread_join_enter fuel thid s =
     do {
       found \<leftarrow> thread_find fuel s (gThreadList s) thid;
       (if \<not> found then Some (s, JRet ESRCH 0)
        else do {
          d \<leftarrow> descs s thid;
          (if flags (t_attr d) AND PTHREAD_ATTR_FLAG_DETACHED \<noteq> 0 then Some (s, JRet EINVAL 0)
           else if join_count d \<ge> 0
           then do { s1 \<leftarrow> upd_desc thid (\<lambda>d. d\<lparr>join_count := join_count d + 1\<rparr>) s; Some (s1, JWait) }
           else join_finish thid (join_count d) s)
        })
     }"

text \<open>The second half, when \<open>pthread_cond_wait\<close> returns.\<close>

definition pthread_join_resume :: "addr \<Rightarrow> thr_state \<Rightarrow> (thr_state \<times> join_out) option" where
  "pthread_join_resume thread s =
     do {
       s1 \<leftarrow> upd_desc thread (\<lambda>d. d\<lparr>join_count := join_count d - 1\<rparr>) s;
       d \<leftarrow> descs s1 thread;
       join_finish thread (join_count d) s1
     }"

definition pthread_detach :: "nat \<Rightarrow> addr \<Rightarrow> thr_state \<Rightarrow> (thr_state \<times> int) option" where
  "pthread_detach fuel thid s =
     do {
       found \<leftarrow> thread_find fuel s (gThreadList s) thid;
       (if \<not> found then Some (s, ESRCH)
        else do {
          d \<leftarrow> descs s thid;
          (if flags (t_attr d) AND PTHREAD_ATTR_FLAG_DETACHED \<noteq> 0 then Some (s, EINVAL)
           else do { s1 \<leftarrow> upd_desc thid (\<lambda>d. d\<lparr>t_attr := (t_attr d)\<lparr>flags := flags (t_attr d) OR
                             PTHREAD_ATTR_FLAG_DETACHED\<rparr>\<rparr>) s;
                     Some (s1, 0) })
        })
     }"

definition pthread_equal :: "addr \<Rightarrow> addr \<Rightarrow> int" where
  "pthread_equal one two = (if one = two then 1 else 0)"

definition pthread_getattr_np :: "addr \<Rightarrow> thr_state \<Rightarrow> (int \<times> pthread_attr) option" where
  "pthread_getattr_np thid s = do { d \<leftarrow> descs s thid; Some (0, t_attr d) }"

definition get_stack_base :: "addr \<Rightarrow> thr_state \<Rightarrow> (u32 \<times> u32) option" where
  "get_stack_base thread s = do { d \<leftarrow> descs s thread; Some (stack_base (t_attr d), stack_size (t_attr d)) }"

text \<open>
  The wrappers that turn the \<open>errno\<close> convention of a system call into a returned error code. The
  system call is the parameter \<open>sys\<close>, from the kernel id to its result and the \<open>errno\<close> it leaves; the
  functions return their result and the \<open>errno\<close> afterwards.
\<close>

definition pthread_kill :: "(u32 \<Rightarrow> int \<Rightarrow> int \<times> int) \<Rightarrow> int \<Rightarrow> addr \<Rightarrow> int \<Rightarrow> thr_state \<Rightarrow> (int \<times> int) option" where
  "pthread_kill sys old_errno thid sig s =
     do { d \<leftarrow> descs s thid;
          (case sys (kernel_id d) sig of
             (ret, err) \<Rightarrow> Some (if ret < 0 then (err, old_errno) else (ret, err))) }"

definition pthread_sigmask :: "int \<times> int \<Rightarrow> int \<Rightarrow> int \<times> int" where
  "pthread_sigmask sysret old_errno =
     (case sysret of (ret, err) \<Rightarrow> (if ret < 0 then err else ret, old_errno))"

definition pthread_setschedparam ::
  "(u32 \<Rightarrow> u32 \<Rightarrow> u32 \<Rightarrow> int \<times> int) \<Rightarrow> int \<Rightarrow> addr \<Rightarrow> u32 \<Rightarrow> u32 \<Rightarrow> thr_state \<Rightarrow> (int \<times> int) option" where
  "pthread_setschedparam sys old_errno thid policy param s =
     do { d \<leftarrow> descs s thid;
          (case sys (kernel_id d) policy param of
             (ret, err) \<Rightarrow> Some (if ret < 0 then (err, old_errno) else (ret, err))) }"

definition pthread_getcpuclockid :: "addr \<Rightarrow> thr_state \<Rightarrow> (int \<times> u32) option" where
  "pthread_getcpuclockid thid s =
     (if thid = 0 then Some (ESRCH, 0)
      else do { d \<leftarrow> descs s thid; Some (0, 3 OR push_bit 3 (kernel_id d)) })"

section \<open>Lemmas on the operations\<close>

lemma tlist_upd_fields:
  assumes "h a = Some d" "t_next d' = t_next d" "t_pref d' = t_pref d"
  shows "tlist (h(a := Some d')) p x xs = tlist h p x xs"
  using assms by (induction xs arbitrary: p x) auto

lemma upd_desc_list:
  assumes "is_list s xs" "descs s a = Some d" "t_next (f d) = t_next d" "t_pref (f d) = t_pref d"
  shows "upd_desc a f s = Some (s\<lparr>descs := (descs s)(a := Some (f d))\<rparr>)"
    and "is_list (s\<lparr>descs := (descs s)(a := Some (f d))\<rparr>) xs"
  using assms by (simp_all add: upd_desc_def is_list_def tlist_upd_fields)

lemma is_list_member: "is_list s xs \<Longrightarrow> x \<in> set xs \<Longrightarrow> x \<noteq> 0 \<and> (\<exists>d. descs s x = Some d)"
proof -
  have "tlist h p a xs \<Longrightarrow> x \<in> set xs \<Longrightarrow> x \<noteq> 0 \<and> (\<exists>d. h x = Some d)" for h p a
    by (induction xs arbitrary: p a) auto
  then show "is_list s xs \<Longrightarrow> x \<in> set xs \<Longrightarrow> x \<noteq> 0 \<and> (\<exists>d. descs s x = Some d)"
    by (auto simp: is_list_def)
qed

lemma remove_free_list:
  assumes l: "is_list s (us @ a # b # vs)" and d: "descs s a = Some d" "intern d"
  shows "\<exists>s1 s2. pthread_internal_remove_locked a s = Some s1 \<and> pthread_internal_free a s1 = Some s2 \<and>
    is_list s2 (us @ b # vs) \<and> descs s2 a = None"
proof -
  obtain s1 where s1: "pthread_internal_remove_locked a s = Some s1" "is_list s1 (us @ b # vs)"
    "\<forall>x. x \<notin> set (us @ b # vs) \<longrightarrow> descs s1 x = descs s x"
    using remove_list[OF l] by blast
  have nin: "a \<notin> set (us @ b # vs)" "a \<noteq> 0"
    using l is_list_member[OF l, of a] by (auto simp: is_list_def)
  then have "descs s1 a = Some d" using s1(3) d by simp
  then have f: "pthread_internal_free a s1 = Some (s1\<lparr>descs := (descs s1)(a := None)\<rparr>)"
    using d nin by (simp add: pthread_internal_free_def)
  have "is_list (s1\<lparr>descs := (descs s1)(a := None)\<rparr>) (us @ b # vs)"
    using s1(2) by (simp add: is_list_def tlist_upd[OF nin(1)])
  then show ?thesis using s1(1) f by simp
qed

lemma find_member:
  assumes "is_list s xs" "a \<in> set xs"
  shows "thread_find (length xs) s (gThreadList s) a = Some True"
  using thread_find_list[of s PHead "gThreadList s" xs "length xs" a] assms is_list_member[OF assms]
  by (simp add: is_list_def)

lemma join_finish_last:
  assumes l: "is_list s (us @ a # b # vs)" and d: "descs s a = Some d" "intern d" and "count \<le> 0"
  shows "\<exists>s'. join_finish a count s = Some (s', JRet 0 (return_value d)) \<and> is_list s' (us @ b # vs) \<and>
    descs s' a = None"
  using remove_free_list[OF l d] assms(4) d(1) by (auto simp: join_finish_def)

section \<open>Properties\<close>

text \<open>
  C13. The pointer operations implement a list of descriptors: on a heap that represents the list \<open>xs\<close>,
  \<open>_pthread_internal_add\<close> of a descriptor not on it represents \<open>a # xs\<close>, \<open>_pthread_internal_remove_locked\<close>
  of any element but the last represents \<open>xs\<close> without it, and the loops over the list visit exactly
  \<open>xs\<close>, in order, and end.
\<close>

theorem thread_list_refinement:
  assumes "is_list s xs"
  shows "(a \<noteq> 0 \<and> a \<notin> set xs \<and> descs s a \<noteq> None \<longrightarrow>
      (\<exists>s'. pthread_internal_add a s = Some s' \<and> is_list s' (a # xs))) \<and>
    (b \<in> set (butlast xs) \<longrightarrow>
      (\<exists>s'. pthread_internal_remove_locked b s = Some s' \<and> is_list s' (remove1 b xs))) \<and>
    (length xs \<le> n \<longrightarrow> thread_walk n s (gThreadList s) = Some xs)"
proof -
  have "\<exists>s'. pthread_internal_add a s = Some s' \<and> is_list s' (a # xs)"
    if a: "a \<noteq> 0" "a \<notin> set xs" "descs s a \<noteq> None"
    using add_list[OF assms a(1,2)] a(3) by blast
  moreover have "\<exists>s'. pthread_internal_remove_locked b s = Some s' \<and> is_list s' (remove1 b xs)"
    if b: "b \<in> set (butlast xs)"
  proof -
    have ne: "xs \<noteq> []" using b by auto
    obtain us ws where us: "butlast xs = us @ b # ws" using b by (meson split_list)
    then have xs: "xs = us @ b # ws @ [last xs]" using ne by (metis append.assoc append_Cons append_butlast_last_id)
    obtain c vs where c: "ws @ [last xs] = c # vs" by (cases ws) auto
    have "distinct xs" using assms by (simp add: is_list_def)
    then have "remove1 b xs = us @ c # vs" using xs c by (metis distinct_append not_distinct_decomp remove1_append remove1.simps(2) disjoint_iff list.set_intros(1))
    moreover have "is_list s (us @ b # c # vs)" using assms xs c by metis
    ultimately show ?thesis using remove_list by metis
  qed
  moreover have "length xs \<le> n \<Longrightarrow> thread_walk n s (gThreadList s) = Some xs"
    using thread_walk_list[of s PHead] assms by (simp add: is_list_def del: thread_walk.simps)
  ultimately show ?thesis by blast
qed

text \<open>A list of two descriptors, at addresses 1 (the main thread) and 2.\<close>

definition two_threads :: thr_state where
  "two_threads = \<lparr>gThreadList = 2,
     descs = (\<lambda>_. None)(1 := Some (zero_desc\<lparr>t_pref := PNextOf 2\<rparr>),
                        2 := Some (zero_desc\<lparr>t_next := 1, intern := True\<rparr>),
                        3 := Some (zero_desc\<lparr>intern := True\<rparr>))\<rparr>"

lemma two_threads_list: "is_list two_threads [2, 1]"
  by (simp add: is_list_def two_threads_def zero_desc_def)

theorem thread_list_refinement_witness:
  "is_list two_threads [2, 1] \<and>
   (\<exists>s'. pthread_internal_add 3 two_threads = Some s' \<and> is_list s' [3, 2, 1]) \<and>
   (\<exists>s'. pthread_internal_remove_locked 2 two_threads = Some s' \<and> is_list s' [1]) \<and>
   thread_walk 5 two_threads (gThreadList two_threads) = Some [2, 1]"
proof -
  have "descs two_threads 3 \<noteq> None" by (simp add: two_threads_def)
  then show ?thesis
    using thread_list_refinement[OF two_threads_list, of 3 2 5] two_threads_list by auto
qed



text \<open>
  Joining, in both orders. A joinable thread that ends first leaves a zombie, and \<open>pthread_join\<close>
  returns its value at once; a joiner that comes first waits, the exit wakes it, and it returns the
  same value. In both cases the descriptor has left the list and is freed. (For a thread that is not
  the last of the list.)
\<close>

theorem join_returns_exit_value:
  assumes l: "is_list s (us @ a # b # vs)" and d: "descs s a = Some d" "intern d"
    and j: "flags (t_attr d) AND PTHREAD_ATTR_FLAG_DETACHED = 0" "join_count d = 0"
    and n: "n = length (us @ a # b # vs)"
  shows "(\<exists>s1 s2. pthread_exit_list a v s = Some (s1, False) \<and>
      pthread_join_enter n a s1 = Some (s2, JRet 0 v) \<and> is_list s2 (us @ b # vs) \<and> descs s2 a = None) \<and>
    (\<exists>s1 s2 s3. pthread_join_enter n a s = Some (s1, JWait) \<and> pthread_exit_list a v s1 = Some (s2, True) \<and>
      pthread_join_resume a s2 = Some (s3, JRet 0 v) \<and> is_list s3 (us @ b # vs) \<and> descs s3 a = None)"
proof -
  have mem: "a \<in> set (us @ a # b # vs)" by simp
  let ?u = "\<lambda>s d. s\<lparr>descs := (descs s)(a := Some d)\<rparr> :: thr_state"
  have upd: "is_list (?u s d') (us @ a # b # vs)" if "t_next d' = t_next d" "t_pref d' = t_pref d" for d'
    using upd_desc_list(2)[OF l d(1), of "\<lambda>_. d'"] that by simp
  let ?z = "d\<lparr>return_value := v, join_count := - 1\<rparr>"
  have lz: "is_list (?u s ?z) (us @ a # b # vs)" by (rule upd) simp_all
  have "pthread_exit_list a v s = Some (?u s ?z, False)"
    using d j by (simp add: pthread_exit_list_def upd_desc_def)
  moreover have "pthread_join_enter n a (?u s ?z) = join_finish a (- 1) (?u s ?z)"
    using find_member[OF lz mem] n j by (simp add: pthread_join_enter_def del: thread_find.simps)
  moreover obtain s2 where "join_finish a (- 1) (?u s ?z) = Some (s2, JRet 0 v)" "is_list s2 (us @ b # vs)"
    "descs s2 a = None"
    using join_finish_last[OF lz, of ?z "- 1"] d(2) by auto
  ultimately have 1: "\<exists>s1 s2. pthread_exit_list a v s = Some (s1, False) \<and>
      pthread_join_enter n a s1 = Some (s2, JRet 0 v) \<and> is_list s2 (us @ b # vs) \<and> descs s2 a = None"
    by auto
  let ?w = "d\<lparr>join_count := 1\<rparr>" and ?x = "d\<lparr>join_count := 1, return_value := v\<rparr>"
    and ?y = "d\<lparr>return_value := v, join_count := 0\<rparr>"
  have ly: "is_list (?u s ?y) (us @ a # b # vs)" by (rule upd) simp_all
  have "pthread_join_enter n a s = Some (?u s ?w, JWait)"
    using find_member[OF l mem] n d j by (simp add: pthread_join_enter_def upd_desc_def del: thread_find.simps)
  moreover have "pthread_exit_list a v (?u s ?w) = Some (?u s ?x, True)"
    using j by (simp add: pthread_exit_list_def upd_desc_def)
  moreover have "pthread_join_resume a (?u s ?x) = join_finish a 0 (?u s ?y)"
    by (simp add: pthread_join_resume_def upd_desc_def)
  moreover obtain s3 where "join_finish a 0 (?u s ?y) = Some (s3, JRet 0 v)" "is_list s3 (us @ b # vs)"
    "descs s3 a = None"
    using join_finish_last[OF ly, of ?y 0] d(2) by auto
  ultimately show ?thesis using 1 by auto
qed

theorem join_returns_exit_value_witness:
  "\<exists>s1 s2. pthread_exit_list 2 99 two_threads = Some (s1, False) \<and>
     pthread_join_enter 2 2 s1 = Some (s2, JRet 0 99) \<and> is_list s2 [1]"
proof -
  have l: "is_list two_threads ([] @ 2 # 1 # [])" using two_threads_list by simp
  let ?d = "zero_desc\<lparr>t_next := 1, intern := True\<rparr>"
  have d: "descs two_threads 2 = Some ?d" "intern ?d"
    "flags (t_attr ?d) AND PTHREAD_ATTR_FLAG_DETACHED = 0" "join_count ?d = 0"
    by (simp_all add: two_threads_def zero_desc_def)
  have n: "2 = length ([] @ 2 # 1 # [] :: nat list)" by simp
  show ?thesis using conjunct1[OF join_returns_exit_value[OF l d n, of 99]] by auto
qed

text \<open>
  \<open>pthread_join\<close> does not check why its wait ended: when \<open>pthread_cond_wait\<close> returns without the
  thread having ended (an interrupted futex call, for instance), it returns 0 with a value the
  thread never produced, and unlinks and frees the descriptor of a thread that is still running.
\<close>

theorem join_spurious_wakeup:
  assumes l: "is_list s (us @ a # b # vs)" and d: "descs s a = Some d" "intern d"
    and j: "flags (t_attr d) AND PTHREAD_ATTR_FLAG_DETACHED = 0" "join_count d = 0"
    and n: "n = length (us @ a # b # vs)"
  shows "\<exists>s1 s2. pthread_join_enter n a s = Some (s1, JWait) \<and>
    pthread_join_resume a s1 = Some (s2, JRet 0 (return_value d)) \<and> is_list s2 (us @ b # vs) \<and> descs s2 a = None"
proof -
  let ?u = "\<lambda>d. s\<lparr>descs := (descs s)(a := Some d)\<rparr>"
  let ?w = "d\<lparr>join_count := 1\<rparr>" and ?y = "d\<lparr>join_count := 0\<rparr>"
  have ly: "is_list (?u ?y) (us @ a # b # vs)"
    using upd_desc_list(2)[OF l d(1), of "\<lambda>_. ?y"] by simp
  have "pthread_join_enter n a s = Some (?u ?w, JWait)"
    using find_member[OF l, of a] n d j by (simp add: pthread_join_enter_def upd_desc_def del: thread_find.simps)
  moreover have "pthread_join_resume a (?u ?w) = join_finish a 0 (?u ?y)"
    by (simp add: pthread_join_resume_def upd_desc_def)
  moreover obtain s3 where "join_finish a 0 (?u ?y) = Some (s3, JRet 0 (return_value d))"
    "is_list s3 (us @ b # vs)" "descs s3 a = None"
    using join_finish_last[OF ly, of ?y 0] d(2) by auto
  ultimately show ?thesis by auto
qed

theorem join_spurious_wakeup_witness:
  "\<exists>s1 s2. pthread_join_enter 2 2 two_threads = Some (s1, JWait) \<and>
     pthread_join_resume 2 s1 = Some (s2, JRet 0 0) \<and> is_list s2 [1] \<and> descs s2 2 = None"
proof -
  have l: "is_list two_threads ([] @ 2 # 1 # [])" using two_threads_list by simp
  let ?d = "zero_desc\<lparr>t_next := 1, intern := True\<rparr>"
  have d: "descs two_threads 2 = Some ?d" "intern ?d"
    "flags (t_attr ?d) AND PTHREAD_ATTR_FLAG_DETACHED = 0" "join_count ?d = 0"
    by (simp_all add: two_threads_def zero_desc_def)
  have n: "2 = length ([] @ 2 # 1 # [] :: nat list)" by simp
  show ?thesis using join_spurious_wakeup[OF l d n] by (auto simp: zero_desc_def)
qed

text \<open>
  The last descriptor of the list, which is that of the main thread, cannot be removed:
  \<open>_pthread_internal_remove_locked\<close> writes through its null \<open>next\<close> pointer. So \<open>pthread_join\<close> on the
  main thread faults once that thread has called \<open>pthread_exit\<close>.
\<close>

theorem join_last_faults:
  assumes l: "is_list s (us @ [a])" and d: "descs s a = Some d" and "descs s 0 = None"
    and j: "flags (t_attr d) AND PTHREAD_ATTR_FLAG_DETACHED = 0" "join_count d = 0"
    and n: "n = length (us @ [a])"
  shows "\<exists>s1. pthread_exit_list a v s = Some (s1, False) \<and> pthread_join_enter n a s1 = None"
proof -
  let ?z = "d\<lparr>return_value := v, join_count := - 1\<rparr>"
  let ?s = "s\<lparr>descs := (descs s)(a := Some ?z)\<rparr>"
  have lz: "is_list ?s (us @ [a])"
    using upd_desc_list(2)[OF l d, of "\<lambda>_. ?z"] by simp
  have "a \<noteq> 0" using is_list_member[OF l, of a] by simp
  then have "pthread_internal_remove_locked a ?s = None"
    using remove_last[OF lz] assms(3) by simp
  then have "pthread_join_enter n a ?s = None"
    using find_member[OF lz, of a] n j
    by (simp add: pthread_join_enter_def join_finish_def del: thread_find.simps)
  moreover have "pthread_exit_list a v s = Some (?s, False)"
    using d j by (simp add: pthread_exit_list_def upd_desc_def)
  ultimately show ?thesis by blast
qed

theorem join_last_faults_witness:
  "\<exists>s1. pthread_exit_list 1 0 two_threads = Some (s1, False) \<and> pthread_join_enter 2 1 s1 = None"
proof -
  have l: "is_list two_threads ([2] @ [1])" using two_threads_list by simp
  let ?d = "zero_desc\<lparr>t_pref := PNextOf 2\<rparr>"
  have d: "descs two_threads 1 = Some ?d" "descs two_threads 0 = None"
    "flags (t_attr ?d) AND PTHREAD_ATTR_FLAG_DETACHED = 0" "join_count ?d = 0"
    by (simp_all add: two_threads_def zero_desc_def)
  show ?thesis by (rule join_last_faults[OF l d]) simp
qed

end
