(* ===== verification/Pthread_TLS.thy ===== *)
theory Pthread_TLS
  imports Pthread_Thread
begin

unbundle bit_operations_syntax

text \<open>
  Thread-specific data of \<open>libc/bionic/pthread.c\<close>: the global map of keys and destructors, the
  per-thread slots, and the destructor loop at thread exit. A destructor is client code and is a
  parameter. The functions run under \<open>_tlsmap_lock\<close> and are one step each; \<open>pthread_getspecific\<close>, which
  takes no lock, is a single read.
\<close>

section \<open>The key map\<close>

abbreviation (input) TLS_SLOT_MAX_WELL_KNOWN :: nat where "TLS_SLOT_MAX_WELL_KNOWN \<equiv> TLS_SLOT_ERRNO"

abbreviation (input) TLS_DEFAULT_ALLOC_MAP :: u32 where "TLS_DEFAULT_ALLOC_MAP \<equiv> 0x0000001F"

abbreviation (input) TLSMAP_START :: nat where "TLSMAP_START \<equiv> TLS_SLOT_MAX_WELL_KNOWN + 1"

abbreviation (input) TLSMAP_SIZE :: nat where "TLSMAP_SIZE \<equiv> BIONIC_TLS_SLOTS"

abbreviation (input) TLSMAP_BITS :: nat where "TLSMAP_BITS \<equiv> 32"

definition TLSMAP_MASK :: "nat \<Rightarrow> u32" where
  "TLSMAP_MASK k = push_bit (k AND (TLSMAP_BITS - 1)) 1"

definition TLSMAP_VALIDATE_KEY :: "int \<Rightarrow> bool" where
  "TLSMAP_VALIDATE_KEY key \<longleftrightarrow> key \<ge> int TLSMAP_START \<and> key < int TLSMAP_SIZE"

text \<open>The map has two words; destructors are function addresses, 0 is the null pointer.\<close>

record tlsmap =
  tm_init :: bool
  tm_map :: "u32 list"
  tm_dtors :: "u32 list"

definition TLSMAP_WORD :: "tlsmap \<Rightarrow> nat \<Rightarrow> u32" where
  "TLSMAP_WORD m k = tm_map m ! (k div TLSMAP_BITS)"

definition tlsmap_static :: tlsmap where
  "tlsmap_static = \<lparr>tm_init = False, tm_map = [0, 0], tm_dtors = replicate TLSMAP_SIZE 0\<rparr>"

definition tlsmap_lock :: "tlsmap \<Rightarrow> tlsmap" where
  "tlsmap_lock m =
     (if \<not> tm_init m then m\<lparr>tm_map := (tm_map m)[0 := TLS_DEFAULT_ALLOC_MAP], tm_init := True\<rparr> else m)"

definition tlsmap_test :: "tlsmap \<Rightarrow> nat \<Rightarrow> bool" where
  "tlsmap_test m key \<longleftrightarrow> TLSMAP_WORD m key AND TLSMAP_MASK key \<noteq> 0"

definition tlsmap_set :: "tlsmap \<Rightarrow> nat \<Rightarrow> u32 \<Rightarrow> tlsmap" where
  "tlsmap_set m key dtor =
     m\<lparr>tm_map := (tm_map m)[key div TLSMAP_BITS := TLSMAP_WORD m key OR TLSMAP_MASK key],
       tm_dtors := (tm_dtors m)[key := dtor]\<rparr>"

definition tlsmap_clear :: "tlsmap \<Rightarrow> nat \<Rightarrow> tlsmap" where
  "tlsmap_clear m key =
     m\<lparr>tm_map := (tm_map m)[key div TLSMAP_BITS := TLSMAP_WORD m key AND NOT (TLSMAP_MASK key)],
       tm_dtors := (tm_dtors m)[key := 0]\<rparr>"

function tlsmap_alloc_from :: "tlsmap \<Rightarrow> u32 \<Rightarrow> nat \<Rightarrow> int \<times> tlsmap" where
  "tlsmap_alloc_from m dtor key =
     (if key < TLSMAP_SIZE
      then if \<not> tlsmap_test m key then (int key, tlsmap_set m key dtor)
           else tlsmap_alloc_from m dtor (key + 1)
      else (- 1, m))"
  by pat_completeness auto
termination by (relation "measure (\<lambda>(m, dtor, key). TLSMAP_SIZE - key)") auto

definition tlsmap_alloc :: "tlsmap \<Rightarrow> u32 \<Rightarrow> int \<times> tlsmap" where
  "tlsmap_alloc m dtor = tlsmap_alloc_from m dtor TLSMAP_START"

section \<open>Keys and values\<close>

record tls_state =
  tmap :: tlsmap
  thr :: thr_state

definition pthread_key_create :: "u32 \<Rightarrow> tls_state \<Rightarrow> int \<times> nat option \<times> tls_state" where
  "pthread_key_create dtor s =
     (case tlsmap_alloc (tlsmap_lock (tmap s)) dtor of
        (k, m) \<Rightarrow> (if k \<ge> 0 then (0, Some (nat k), s\<lparr>tmap := m\<rparr>) else (ENOMEM, None, s\<lparr>tmap := m\<rparr>)))"

text \<open>The body of the loop over all threads.\<close>

definition clear_slot :: "nat \<Rightarrow> addr \<Rightarrow> thr_state \<Rightarrow> thr_state option" where
  "clear_slot key a t =
     (case descs t a of None \<Rightarrow> None
      | Some d \<Rightarrow>
          if join_count d < 0 \<or> tls d = None then Some t
          else upd_desc a (\<lambda>d. d\<lparr>tls := map_option (\<lambda>xs. xs[key := 0]) (tls d)\<rparr>) t)"

fun clear_slots :: "nat \<Rightarrow> addr list \<Rightarrow> thr_state \<Rightarrow> thr_state option" where
  "clear_slots key [] t = Some t"
| "clear_slots key (a # as) t = do { t' \<leftarrow> clear_slot key a t; clear_slots key as t' }"

definition pthread_key_delete :: "nat \<Rightarrow> int \<Rightarrow> tls_state \<Rightarrow> (int \<times> tls_state) option" where
  "pthread_key_delete fuel key s =
     (if \<not> TLSMAP_VALIDATE_KEY key then Some (EINVAL, s)
      else let m = tlsmap_lock (tmap s); s1 = s\<lparr>tmap := m\<rparr>
           in if \<not> tlsmap_test m (nat key) then Some (EINVAL, s1)
              else do {
                as \<leftarrow> thread_walk fuel (thr s) (gThreadList (thr s));
                t \<leftarrow> clear_slots (nat key) as (thr s);
                Some (0, \<lparr>tmap = tlsmap_clear m (nat key), thr = t\<rparr>)
              })"

text \<open>The calling thread is the descriptor \<open>cur\<close>; \<open>__get_tls()\<close> is its slot array.\<close>

definition pthread_setspecific :: "addr \<Rightarrow> int \<Rightarrow> u32 \<Rightarrow> tls_state \<Rightarrow> (int \<times> tls_state) option" where
  "pthread_setspecific cur key ptr s =
     (if TLSMAP_VALIDATE_KEY key
      then let m = tlsmap_lock (tmap s)
           in if tlsmap_test m (nat key)
              then do { t \<leftarrow> upd_desc cur (\<lambda>d. d\<lparr>tls := map_option (\<lambda>xs. xs[nat key := ptr]) (tls d)\<rparr>) (thr s);
                        Some (0, \<lparr>tmap = m, thr = t\<rparr>) }
              else Some (EINVAL, s\<lparr>tmap := m\<rparr>)
      else Some (EINVAL, s))"

definition pthread_getspecific :: "addr \<Rightarrow> int \<Rightarrow> tls_state \<Rightarrow> u32 option" where
  "pthread_getspecific cur key s =
     (if \<not> TLSMAP_VALIDATE_KEY key then Some 0
      else do { d \<leftarrow> descs (thr s) cur; xs \<leftarrow> tls d; Some (xs ! nat key) })"

section \<open>Destructors at thread exit\<close>

text \<open>
  The state of the loop: the map, the slots of the exiting thread, and the calls made so far. \<open>call\<close>
  is the effect of a destructor on the map and the slots.
\<close>

type_synonym dtor_call = "u32 \<Rightarrow> u32 \<Rightarrow> tlsmap \<times> u32 list \<Rightarrow> tlsmap \<times> u32 list"

type_synonym clean_state = "(tlsmap \<times> u32 list) \<times> (u32 \<times> u32) list"

abbreviation (input) PTHREAD_DESTRUCTOR_ITERATIONS :: nat where "PTHREAD_DESTRUCTOR_ITERATIONS \<equiv> 4"

definition clean_key :: "dtor_call \<Rightarrow> nat \<Rightarrow> clean_state \<Rightarrow> clean_state" where
  "clean_key call kk s =
     (case s of ((m, xs), log) \<Rightarrow>
        if tlsmap_test m kk
        then let data = xs ! kk; dtor = tm_dtors m ! kk
             in if data \<noteq> 0 \<and> dtor \<noteq> 0
                then (case call dtor data (m, xs[kk := 0]) of
                        (m', xs') \<Rightarrow> ((tlsmap_lock m', xs'), log @ [(dtor, data)]))
                else s
        else s)"

text \<open>The values of \<open>kk\<close>.\<close>

definition tls_keys :: "nat list" where
  "tls_keys = [TLSMAP_START..<TLSMAP_SIZE]"

definition clean_round :: "dtor_call \<Rightarrow> clean_state \<Rightarrow> clean_state" where
  "clean_round call s = fold (clean_key call) tls_keys s"

text \<open>A round that calls no destructor is the last one.\<close>

fun clean_rounds :: "dtor_call \<Rightarrow> nat \<Rightarrow> clean_state \<Rightarrow> clean_state" where
  "clean_rounds call 0 s = s"
| "clean_rounds call (Suc n) s =
     (let s' = clean_round call s
      in if length (snd s') = length (snd s) then s' else clean_rounds call n s')"

definition pthread_key_clean_all :: "dtor_call \<Rightarrow> tlsmap \<Rightarrow> u32 list \<Rightarrow> clean_state" where
  "pthread_key_clean_all call m xs =
     clean_rounds call PTHREAD_DESTRUCTOR_ITERATIONS ((tlsmap_lock m, xs), [])"

section \<open>The bitmap as a set of keys\<close>

definition tm_wf :: "tlsmap \<Rightarrow> bool" where
  "tm_wf m \<longleftrightarrow> length (tm_map m) = 2 \<and> length (tm_dtors m) = TLSMAP_SIZE"

lemma and_31: "(k :: nat) AND 31 = k mod 32"
  using take_bit_eq_mask[of 5 k] by (simp add: take_bit_eq_mod mask_eq_exp_minus_1)

lemma tlsmap_test_bit: "tlsmap_test m k \<longleftrightarrow> bit (TLSMAP_WORD m k) (k mod 32)"
proof -
  have "w AND push_bit n 1 \<noteq> 0 \<longleftrightarrow> bit w n" if "n < 32" for w :: u32 and n
    using that by (metis and_exp_eq_0_iff_not_bit push_bit_of_1)
  then show ?thesis
    by (simp add: tlsmap_test_def TLSMAP_MASK_def and_31)
qed

lemma tlsmap_lock_wf: "tm_wf m \<Longrightarrow> tm_wf (tlsmap_lock m)"
  by (simp add: tm_wf_def tlsmap_lock_def)

lemma tlsmap_set_wf: "tm_wf m \<Longrightarrow> tm_wf (tlsmap_set m k d)"
  by (simp add: tm_wf_def tlsmap_set_def)

lemma tlsmap_clear_wf: "tm_wf m \<Longrightarrow> tm_wf (tlsmap_clear m k)"
  by (simp add: tm_wf_def tlsmap_clear_def)

lemma mask_bit: "bit (TLSMAP_MASK k) n \<longleftrightarrow> n = k mod 32"
proof -
  have "k mod 32 < 32" by simp
  then show ?thesis by (auto simp: TLSMAP_MASK_def and_31 bit_simps)
qed

lemma tlsmap_test_set:
  assumes "tm_wf m" "k < TLSMAP_SIZE" "j < TLSMAP_SIZE"
  shows "tlsmap_test (tlsmap_set m k d) j \<longleftrightarrow> j = k \<or> tlsmap_test m j"
proof -
  have "k div 32 < 2" "j div 32 < 2" using assms by auto
  then show ?thesis
    using assms(1)
    by (auto simp: tlsmap_test_bit tlsmap_set_def TLSMAP_WORD_def tm_wf_def nth_list_update bit_simps mask_bit)
      (metis div_mod_decomp)+
qed

lemma tlsmap_test_clear:
  assumes "tm_wf m" "k < TLSMAP_SIZE" "j < TLSMAP_SIZE"
  shows "tlsmap_test (tlsmap_clear m k) j \<longleftrightarrow> j \<noteq> k \<and> tlsmap_test m j"
proof -
  have "k div 32 < 2" "j div 32 < 2" using assms by auto
  then show ?thesis
    using assms(1)
    by (auto simp: tlsmap_test_bit tlsmap_clear_def TLSMAP_WORD_def tm_wf_def nth_list_update bit_simps mask_bit)
      (metis div_mod_decomp)+
qed

section \<open>Allocation\<close>

lemma alloc_from_spec:
  assumes "tm_wf m" and "key \<le> TLSMAP_SIZE" and "tlsmap_alloc_from m dtor key = (k, m')"
  shows "if \<exists>j. key \<le> j \<and> j < TLSMAP_SIZE \<and> \<not> tlsmap_test m j
    then \<exists>j. key \<le> j \<and> j < TLSMAP_SIZE \<and> \<not> tlsmap_test m j \<and> k = int j \<and> m' = tlsmap_set m j dtor
    else k = - 1 \<and> m' = m"
  using assms
proof (induction m dtor key rule: tlsmap_alloc_from.induct)
  case (1 m dtor key)
  show ?case
  proof (cases "key < TLSMAP_SIZE \<and> tlsmap_test m key")
    case True
    then have "tlsmap_alloc_from m dtor (key + 1) = (k, m')" using 1 by simp
    then have IH: "if \<exists>j. key + 1 \<le> j \<and> j < TLSMAP_SIZE \<and> \<not> tlsmap_test m j
      then \<exists>j. key + 1 \<le> j \<and> j < TLSMAP_SIZE \<and> \<not> tlsmap_test m j \<and> k = int j \<and> m' = tlsmap_set m j dtor
      else k = - 1 \<and> m' = m"
      using 1 True by auto
    have "(key \<le> j \<and> j < TLSMAP_SIZE \<and> \<not> tlsmap_test m j) = (key + 1 \<le> j \<and> j < TLSMAP_SIZE \<and> \<not> tlsmap_test m j)" for j
      using True by (metis Suc_eq_plus1 Suc_leD le_neq_implies_less Suc_leI)
    then show ?thesis using IH by (simp only: conj_assoc[symmetric])
  next
    case False
    then show ?thesis using 1 by (auto split: if_splits)
  qed
qed

section \<open>Threads using keys\<close>

text \<open>
  The operations of a process on its keys: creating and deleting keys, setting a value in a thread
  that has not ended, adding a new descriptor to the thread list, starting its thread, and ending a
  joinable thread.
\<close>

definition live :: "addr \<Rightarrow> tls_state \<Rightarrow> bool" where
  "live a s \<longleftrightarrow> (\<exists>d xs. descs (thr s) a = Some d \<and> join_count d \<ge> 0 \<and> tls d = Some xs)"

inductive tls_step :: "tls_state \<Rightarrow> tls_state \<Rightarrow> bool" where
  create: "pthread_key_create dtor s = (r, k, s') \<Longrightarrow> tls_step s s'"
| delete: "pthread_key_delete n key s = Some (r, s') \<Longrightarrow> tls_step s s'"
| setspecific: "live a s \<Longrightarrow> pthread_setspecific a key p s = Some (r, s') \<Longrightarrow> tls_step s s'"
| new_thread: "a \<noteq> 0 \<Longrightarrow> descs (thr s) a = None \<Longrightarrow> tls d = None \<Longrightarrow>
    pthread_internal_add a ((thr s)\<lparr>descs := (descs (thr s))(a := Some d)\<rparr>) = Some t \<Longrightarrow>
    tls_step s (s\<lparr>thr := t\<rparr>)"
| start: "thread_walk n (thr s) (gThreadList (thr s)) = Some as \<Longrightarrow> a \<in> set as \<Longrightarrow>
    init_tls v a (thr s) = Some t \<Longrightarrow> tls_step s (s\<lparr>thr := t\<rparr>)"
| exit: "descs (thr s) a = Some d \<Longrightarrow> flags (t_attr d) AND PTHREAD_ATTR_FLAG_DETACHED = 0 \<Longrightarrow>
    pthread_exit_list a v (thr s) = Some (t, b) \<Longrightarrow> tls_step s (s\<lparr>thr := t\<rparr>)"

definition tls_start :: "tls_state \<Rightarrow> bool" where
  "tls_start s \<longleftrightarrow> tmap s = tlsmap_static \<and> thr s = \<lparr>gThreadList = 0, descs = (\<lambda>_. None)\<rparr>"

definition slots_ok :: "tlsmap \<Rightarrow> u32 list \<Rightarrow> bool" where
  "slots_ok m ys \<longleftrightarrow> length ys = TLSMAP_SIZE \<and>
     (\<forall>k. TLSMAP_START \<le> k \<and> k < TLSMAP_SIZE \<and> \<not> tlsmap_test m k \<longrightarrow> ys ! k = 0)"

text \<open>Every slot array is on the thread list, and empty at the keys that are not allocated.\<close>

definition descs_ok :: "tlsmap \<Rightarrow> addr list \<Rightarrow> thr_state \<Rightarrow> bool" where
  "descs_ok m xs t \<longleftrightarrow> (\<forall>a d ys. descs t a = Some d \<and> tls d = Some ys \<longrightarrow>
     a \<in> set xs \<and> (join_count d \<ge> 0 \<longrightarrow> slots_ok m ys))"

definition tls_inv :: "tls_state \<Rightarrow> bool" where
  "tls_inv s \<longleftrightarrow> tm_wf (tmap s) \<and>
     (\<exists>xs. is_list (thr s) xs \<and> descs_ok (tlsmap_lock (tmap s)) xs (thr s))"

lemma tlsmap_lock_idem [simp]: "tlsmap_lock (tlsmap_lock m) = tlsmap_lock m"
  by (simp add: tlsmap_lock_def)

lemma tlsmap_lock_set [simp]: "tlsmap_lock (tlsmap_set (tlsmap_lock m) k d) = tlsmap_set (tlsmap_lock m) k d"
  by (simp add: tlsmap_lock_def tlsmap_set_def)

lemma tlsmap_lock_clear [simp]: "tlsmap_lock (tlsmap_clear (tlsmap_lock m) k) = tlsmap_clear (tlsmap_lock m) k"
  by (simp add: tlsmap_lock_def tlsmap_clear_def)

lemma descs_okD:
  "descs_ok m xs t \<Longrightarrow> descs t a = Some d \<Longrightarrow> tls d = Some ys \<Longrightarrow> a \<in> set xs \<and> (join_count d \<ge> 0 \<longrightarrow> slots_ok m ys)"
  by (auto simp: descs_ok_def)

lemma descs_ok_mono:
  assumes "descs_ok m xs t" "\<And>k. TLSMAP_START \<le> k \<Longrightarrow> k < TLSMAP_SIZE \<Longrightarrow> tlsmap_test m k \<Longrightarrow> tlsmap_test m' k"
  shows "descs_ok m' xs t"
  using assms unfolding descs_ok_def slots_ok_def by blast

lemma descs_ok_upd:
  assumes "descs_ok m xs t" "\<And>ys. tls d' = Some ys \<Longrightarrow> a \<in> set xs \<and> (join_count d' \<ge> 0 \<longrightarrow> slots_ok m ys)"
  shows "descs_ok m xs (t\<lparr>descs := (descs t)(a := Some d')\<rparr>)"
  using assms unfolding descs_ok_def by auto

lemma walk_unique: "tlist (descs t) p a xs \<Longrightarrow> thread_walk n t a = Some as \<Longrightarrow> as = xs"
proof (induction xs arbitrary: p a n as)
  case (Cons x xs)
  then show ?case by (cases n) (auto split: option.splits)
qed simp

lemma tls_inv_create:
  assumes "tls_inv s" "pthread_key_create dtor s = (r, k, s')"
  shows "tls_inv s'"
proof -
  let ?m = "tlsmap_lock (tmap s)"
  obtain xs where wf: "tm_wf (tmap s)" and xs: "is_list (thr s) xs" "descs_ok ?m xs (thr s)"
    using assms(1) by (auto simp: tls_inv_def)
  obtain i m' where al: "tlsmap_alloc_from ?m dtor TLSMAP_START = (i, m')" by fastforce
  have m': "thr s' = thr s" "tmap s' = m'"
    using assms(2) al by (auto simp: pthread_key_create_def tlsmap_alloc_def split: if_splits)
  have wm: "tm_wf ?m" by (rule tlsmap_lock_wf[OF wf])
  have "m' = ?m \<or> (\<exists>j. j < TLSMAP_SIZE \<and> m' = tlsmap_set ?m j dtor)"
    using alloc_from_spec[OF wm _ al] by (auto split: if_splits)
  then show ?thesis
  proof
    assume "m' = ?m"
    then show ?thesis using m' xs wm by (auto simp: tls_inv_def)
  next
    assume "\<exists>j. j < TLSMAP_SIZE \<and> m' = tlsmap_set ?m j dtor"
    then obtain j where j: "j < TLSMAP_SIZE" "m' = tlsmap_set ?m j dtor" by blast
    have "descs_ok m' xs (thr s)"
      by (rule descs_ok_mono[OF xs(2)]) (use j tlsmap_test_set[OF wm] in auto)
    then show ?thesis
      using m' xs(1) j(2) tlsmap_set_wf[OF wm] unfolding tls_inv_def by auto
  qed
qed

definition slot_cleared :: "nat \<Rightarrow> pthread_internal \<Rightarrow> pthread_internal \<Rightarrow> bool" where
  "slot_cleared key d d' \<longleftrightarrow> join_count d' = join_count d \<and>
     (join_count d \<ge> 0 \<longrightarrow> tls d' = map_option (\<lambda>ys. ys[key := 0]) (tls d)) \<and> (tls d' = None \<longleftrightarrow> tls d = None)"

lemma clear_slot_ok:
  assumes "is_list t xs" "a \<in> set xs"
  obtains t' d d' where "clear_slot key a t = Some t'" "is_list t' xs" "\<And>x. x \<noteq> a \<Longrightarrow> descs t' x = descs t x"
    "descs t a = Some d" "descs t' a = Some d'" "slot_cleared key d d'"
proof -
  obtain d where d: "descs t a = Some d" using is_list_member[OF assms] by blast
  let ?f = "\<lambda>d :: pthread_internal. d\<lparr>tls := map_option (\<lambda>xs. xs[key := 0]) (tls d)\<rparr>"
  note u = upd_desc_list[OF assms(1) d, of ?f]
  show ?thesis
  proof (cases "join_count d < 0 \<or> tls d = None")
    case True
    then show ?thesis using that[of t d d] assms(1) d by (auto simp: clear_slot_def slot_cleared_def)
  next
    case False
    then show ?thesis using that[of "t\<lparr>descs := (descs t)(a := Some (?f d))\<rparr>" d "?f d"] u d
      by (auto simp: clear_slot_def slot_cleared_def)
  qed
qed

lemma clear_slots_ok:
  assumes "is_list t xs" "set as \<subseteq> set xs" "distinct as"
  shows "\<exists>t'. clear_slots key as t = Some t' \<and> is_list t' xs \<and> (\<forall>x. x \<notin> set as \<longrightarrow> descs t' x = descs t x) \<and>
    (\<forall>a \<in> set as. \<exists>d d'. descs t a = Some d \<and> descs t' a = Some d' \<and> slot_cleared key d d')"
  using assms
proof (induction as arbitrary: t)
  case (Cons a as)
  obtain t1 d d' where t1: "clear_slot key a t = Some t1" "is_list t1 xs" "\<And>x. x \<noteq> a \<Longrightarrow> descs t1 x = descs t x"
    "descs t a = Some d" "descs t1 a = Some d'" "slot_cleared key d d'"
    by (rule clear_slot_ok[OF Cons.prems(1), of a key]) (use Cons.prems(2) in auto)
  obtain t2 where t2: "clear_slots key as t1 = Some t2" "is_list t2 xs" "\<forall>x. x \<notin> set as \<longrightarrow> descs t2 x = descs t1 x"
    "\<forall>a \<in> set as. \<exists>d d'. descs t1 a = Some d \<and> descs t2 a = Some d' \<and> slot_cleared key d d'"
    using Cons.IH[OF t1(2)] Cons.prems(2,3) by auto
  have nin: "a \<notin> set as" using Cons.prems(3) by simp
  have "\<exists>d d'. descs t x = Some d \<and> descs t2 x = Some d' \<and> slot_cleared key d d'" if "x \<in> set (a # as)" for x
  proof (cases "x = a")
    case True
    then show ?thesis using t1(4-6) t2(3) nin by auto
  next
    case False
    then have "x \<in> set as" using that by simp
    then show ?thesis using t2(4) t1(3)[OF False] by metis
  qed
  then show ?case using t1(1,3) t2(1-3) by auto
qed simp

lemma slots_ok_clear:
  assumes "slots_ok m ys" "tm_wf m" "k < TLSMAP_SIZE"
  shows "slots_ok (tlsmap_clear m k) (ys[k := 0])"
  using assms tlsmap_test_clear[OF assms(2,3)] by (auto simp: slots_ok_def nth_list_update)

lemma tls_inv_delete:
  assumes "tls_inv s" "pthread_key_delete n key s = Some (r, s')"
  shows "tls_inv s'"
proof -
  let ?m = "tlsmap_lock (tmap s)" and ?k = "nat key"
  obtain xs where wf: "tm_wf (tmap s)" and xs: "is_list (thr s) xs" "descs_ok ?m xs (thr s)"
    using assms(1) by (auto simp: tls_inv_def)
  have wm: "tm_wf ?m" by (rule tlsmap_lock_wf[OF wf])
  show ?thesis
  proof (cases "TLSMAP_VALIDATE_KEY key \<and> tlsmap_test ?m ?k")
    case False
    then show ?thesis using assms wm xs
      by (auto simp: pthread_key_delete_def Let_def tls_inv_def split: if_splits)
  next
    case True
    then have k: "?k < TLSMAP_SIZE" by (auto simp: TLSMAP_VALIDATE_KEY_def)
    have walk: "thread_walk n (thr s) (gThreadList (thr s)) = Some as \<Longrightarrow> as = xs" for as
      using walk_unique[of "thr s" PHead] xs(1) by (auto simp: is_list_def simp del: thread_walk.simps)
    obtain t where t: "clear_slots ?k xs (thr s) = Some t" "is_list t xs"
      "\<forall>x. x \<notin> set xs \<longrightarrow> descs t x = descs (thr s) x"
      "\<forall>a \<in> set xs. \<exists>d d'. descs (thr s) a = Some d \<and> descs t a = Some d' \<and> slot_cleared ?k d d'"
      using clear_slots_ok[OF xs(1), of xs ?k] xs(1) by (auto simp: is_list_def)
    have s': "s' = \<lparr>tmap = tlsmap_clear ?m ?k, thr = t\<rparr>"
      using assms(2) True t(1) walk
      by (auto simp: pthread_key_delete_def Let_def bind_eq_Some_conv simp del: thread_walk.simps)
    have "descs_ok (tlsmap_clear ?m ?k) xs t"
      unfolding descs_ok_def
    proof (intro allI impI, elim conjE)
      fix a d' ys' assume a: "descs t a = Some d'" "tls d' = Some ys'"
      have "a \<in> set xs"
        using a t(3) descs_okD[OF xs(2)] by (metis)
      moreover obtain d where d: "descs (thr s) a = Some d" "slot_cleared ?k d d'"
        using t(4) a(1) calculation by fastforce
      moreover have "slots_ok (tlsmap_clear ?m ?k) ys'" if j: "join_count d' \<ge> 0"
      proof -
        obtain ys where "tls d = Some ys" "ys' = ys[?k := 0]"
          using d(2) a(2) j by (auto simp: slot_cleared_def)
        then show ?thesis
          using descs_okD[OF xs(2) d(1)] d(2) j slots_ok_clear[OF _ wm k] by (auto simp: slot_cleared_def)
      qed
      ultimately show "a \<in> set xs \<and> (0 \<le> join_count d' \<longrightarrow> slots_ok (tlsmap_clear ?m ?k) ys')" by blast
    qed
    then show ?thesis
      using s' t(2) tlsmap_clear_wf[OF wm] unfolding tls_inv_def by auto
  qed
qed

lemma tls_inv_set:
  assumes "tls_inv s" "live a s" "pthread_setspecific a key p s = Some (r, s')"
  shows "tls_inv s'"
proof -
  let ?m = "tlsmap_lock (tmap s)" and ?k = "nat key"
  obtain xs where wf: "tm_wf (tmap s)" and xs: "is_list (thr s) xs" "descs_ok ?m xs (thr s)"
    using assms(1) by (auto simp: tls_inv_def)
  have wm: "tm_wf ?m" by (rule tlsmap_lock_wf[OF wf])
  obtain d ys where d: "descs (thr s) a = Some d" "join_count d \<ge> 0" "tls d = Some ys"
    using assms(2) by (auto simp: live_def)
  show ?thesis
  proof (cases "TLSMAP_VALIDATE_KEY key \<and> tlsmap_test ?m ?k")
    case False
    then show ?thesis using assms(1,3) wm xs
      by (auto simp: pthread_setspecific_def Let_def tls_inv_def split: if_splits)
  next
    case True
    let ?f = "\<lambda>d :: pthread_internal. d\<lparr>tls := map_option (\<lambda>xs. xs[?k := p]) (tls d)\<rparr>"
    note u = upd_desc_list[OF xs(1) d(1), of ?f]
    have "slots_ok ?m (ys[?k := p])"
      using descs_okD[OF xs(2) d(1,3)] d(2) True
      by (auto simp: slots_ok_def) (metis nth_list_update_neq)
    then have "descs_ok ?m xs ((thr s)\<lparr>descs := (descs (thr s))(a := Some (?f d))\<rparr>)"
      using descs_okD[OF xs(2) d(1,3)] d(3) by (intro descs_ok_upd[OF xs(2)]) auto
    then show ?thesis
      using assms(3) True u wm by (auto simp: pthread_setspecific_def Let_def tls_inv_def)
  qed
qed

lemma tls_inv_new_thread:
  assumes "tls_inv s" "a \<noteq> 0" "descs (thr s) a = None" "tls d = None"
    and ex: "pthread_internal_add a ((thr s)\<lparr>descs := (descs (thr s))(a := Some d)\<rparr>) = Some t"
  shows "tls_inv (s\<lparr>thr := t\<rparr>)"
proof -
  let ?m = "tlsmap_lock (tmap s)" and ?t = "(thr s)\<lparr>descs := (descs (thr s))(a := Some d)\<rparr>"
  obtain xs where wf: "tm_wf (tmap s)" and xs: "is_list (thr s) xs" "descs_ok ?m xs (thr s)"
    using assms(1) by (auto simp: tls_inv_def)
  have nin: "a \<notin> set xs" using is_list_member[OF xs(1), of a] assms(3) by auto
  have l: "is_list ?t xs" using xs(1) nin by (simp add: is_list_def tlist_upd)
  have t: "is_list t (a # xs)" "\<forall>x. x \<notin> set (a # xs) \<longrightarrow> descs t x = descs (thr s) x"
    "descs t a = Some (d\<lparr>t_pref := PHead, t_next := gThreadList (thr s)\<rparr>)"
    using add_list[OF l assms(2) nin, of d] ex by auto
  have keep: "tls (the (descs t x)) = tls (the (descs (thr s) x)) \<and>
      join_count (the (descs t x)) = join_count (the (descs (thr s) x))" if "x \<in> set xs" for x
    using ex that nin by (auto simp: pthread_internal_add_def upd_desc_def split: if_splits option.splits)
  have "descs_ok ?m (a # xs) t"
    unfolding descs_ok_def
  proof (intro allI impI, elim conjE)
    fix x e ys assume e: "descs t x = Some e" "tls e = Some ys"
    consider "x = a" | "x \<in> set xs" | "x \<notin> set (a # xs)" by auto
    then show "x \<in> set (a # xs) \<and> (0 \<le> join_count e \<longrightarrow> slots_ok ?m ys)"
    proof cases
      case 1
      then show ?thesis using e t(3) assms(4) by auto
    next
      case 2
      then obtain e' where e': "descs (thr s) x = Some e'" using is_list_member[OF xs(1)] by blast
      then show ?thesis using keep[OF 2] descs_okD[OF xs(2) e'] e 2 by simp
    next
      case 3
      then show ?thesis using e t(2) descs_okD[OF xs(2)] by auto
    qed
  qed
  then show ?thesis using wf t(1) by (auto simp: tls_inv_def)
qed

lemma init_slots:
  "slots_ok m ((replicate BIONIC_TLS_SLOTS 0)[TLS_SLOT_SELF := v, TLS_SLOT_THREAD_ID := w])"
  by (simp add: slots_ok_def nth_list_update)

lemma tls_inv_upd:
  assumes "tls_inv s" "descs (thr s) a = Some d" "t_next (f d) = t_next d" "t_pref (f d) = t_pref d"
    and "\<And>xs ys. is_list (thr s) xs \<Longrightarrow> descs_ok (tlsmap_lock (tmap s)) xs (thr s) \<Longrightarrow> tls (f d) = Some ys \<Longrightarrow>
      a \<in> set xs \<and> (join_count (f d) \<ge> 0 \<longrightarrow> slots_ok (tlsmap_lock (tmap s)) ys)"
    and "upd_desc a f (thr s) = Some t"
  shows "tls_inv (s\<lparr>thr := t\<rparr>)"
proof -
  let ?m = "tlsmap_lock (tmap s)"
  obtain xs where wf: "tm_wf (tmap s)" and xs: "is_list (thr s) xs" "descs_ok ?m xs (thr s)"
    using assms(1) by (auto simp: tls_inv_def)
  note u = upd_desc_list[of "thr s" xs a d f, OF xs(1) assms(2-4)]
  have "descs_ok ?m xs ((thr s)\<lparr>descs := (descs (thr s))(a := Some (f d))\<rparr>)"
    by (rule descs_ok_upd[OF xs(2)]) (rule assms(5)[OF xs])
  then show ?thesis using u assms(6) wf by (auto simp: tls_inv_def)
qed

theorem tls_inv_step:
  assumes inv: "tls_inv s" and "tls_step s s'"
  shows "tls_inv s'"
  using assms(2)
proof cases
  case (create dtor r k)
  then show ?thesis using tls_inv_create[OF inv] by blast
next
  case (delete n key r)
  then show ?thesis using tls_inv_delete[OF inv] by blast
next
  case (setspecific a key p r)
  then show ?thesis using tls_inv_set[OF inv] by blast
next
  case (new_thread a d t)
  then show ?thesis using tls_inv_new_thread[OF inv] by blast
next
  case (start n as a v t)
  have as: "is_list (thr s) xs \<Longrightarrow> as = xs" for xs
    using walk_unique[of "thr s" PHead] start(2) by (auto simp: is_list_def simp del: thread_walk.simps)
  obtain d where d: "descs (thr s) a = Some d"
    using inv start(3) as is_list_member by (fastforce simp: tls_inv_def)
  show ?thesis
    unfolding start(1)
    by (rule tls_inv_upd[OF inv d _ _ _ start(4)[unfolded init_tls_def]]) (use as start(3) init_slots in auto)
next
  case (exit a d v t b)
  show ?thesis
  proof (cases "join_count d > 0")
    case True
    then have u: "upd_desc a (\<lambda>d. d\<lparr>return_value := v\<rparr>) (thr s) = Some t"
      using exit(2-4) by (auto simp: pthread_exit_list_def bind_eq_Some_conv)
    show ?thesis
      unfolding exit(1) by (rule tls_inv_upd[OF inv exit(2) _ _ _ u]) (auto dest: descs_okD[OF _ exit(2)])
  next
    case False
    then have u: "upd_desc a (\<lambda>d. d\<lparr>return_value := v, join_count := - 1\<rparr>) (thr s) = Some t"
      using exit(2-4) by (auto simp: pthread_exit_list_def bind_eq_Some_conv)
    show ?thesis
      unfolding exit(1) by (rule tls_inv_upd[OF inv exit(2) _ _ _ u]) (auto dest: descs_okD[OF _ exit(2)])
  qed
qed

interpretation tls_system: invariant_system tls_start tls_step tls_inv
proof
  show "tls_start s \<Longrightarrow> tls_inv s" for s
    by (auto simp: tls_start_def tls_inv_def tm_wf_def tlsmap_static_def is_list_def descs_ok_def
        intro!: exI[of _ "[]"])
qed (rule tls_inv_step)

section \<open>The destructor loop\<close>

lemma clean_key_log: "length (snd (clean_key call k s)) \<le> Suc (length (snd s))"
  by (cases s) (auto simp: clean_key_def Let_def split: prod.splits)

lemma fold_clean_log: "length (snd (fold (clean_key call) ks s)) \<le> length ks + length (snd s)"
proof (induction ks arbitrary: s)
  case (Cons k ks)
  have "length (snd (fold (clean_key call) ks (clean_key call k s))) \<le> length ks + length (snd (clean_key call k s))"
    by (rule Cons.IH)
  then show ?case using clean_key_log[of call k s] by simp
qed simp

lemma tls_keys: "length tls_keys = 61" "distinct tls_keys" "set tls_keys = {TLSMAP_START..<TLSMAP_SIZE}"
  unfolding tls_keys_def by (simp, rule distinct_upt, rule set_upt)

lemma clean_rounds_log: "length (snd (clean_rounds call n s)) \<le> n * 61 + length (snd s)"
proof (induction n arbitrary: s)
  case (Suc n)
  have "length (snd (clean_round call s)) \<le> 61 + length (snd s)"
    using fold_clean_log[of call tls_keys s] by (simp add: clean_round_def tls_keys(1))
  then show ?case using Suc.IH[of "clean_round call s"] by (auto simp: Let_def)
qed simp

text \<open>The keys whose destructor runs.\<close>

definition due :: "tlsmap \<Rightarrow> u32 list \<Rightarrow> nat \<Rightarrow> bool" where
  "due m xs k \<longleftrightarrow> tlsmap_test m k \<and> xs ! k \<noteq> 0 \<and> tm_dtors m ! k \<noteq> 0"

definition quiet :: dtor_call where
  "quiet dtor data s = s"

lemma fold_clean_quiet:
  assumes "tm_init m" "distinct ks" "\<forall>k \<in> set ks. k < length xs"
  shows "\<exists>ys. fold (clean_key quiet) ks ((m, xs), log) =
      ((m, ys), log @ map (\<lambda>k. (tm_dtors m ! k, xs ! k)) (filter (due m xs) ks)) \<and> length ys = length xs \<and>
    (\<forall>k < length xs. ys ! k = (if k \<in> set ks \<and> due m xs k then 0 else xs ! k))"
  using assms(2,3)
proof (induction ks arbitrary: xs log)
  case (Cons k ks)
  let ?xs = "if due m xs k then xs[k := 0] else xs"
  let ?log = "if due m xs k then log @ [(tm_dtors m ! k, xs ! k)] else log"
  have step: "clean_key quiet k ((m, xs), log) = ((m, ?xs), ?log)"
    using assms(1) by (auto simp: clean_key_def due_def quiet_def tlsmap_lock_def Let_def)
  have due: "due m ?xs j = due m xs j" if "j \<noteq> k" for j
    using that by (auto simp: due_def)
  have nin: "k \<notin> set ks" using Cons.prems(1) by simp
  have same: "filter (due m ?xs) ks = filter (due m xs) ks"
    "map (\<lambda>j. (tm_dtors m ! j, ?xs ! j)) (filter (due m xs) ks) = map (\<lambda>j. (tm_dtors m ! j, xs ! j)) (filter (due m xs) ks)"
  proof -
    have ne: "j \<noteq> k" if "j \<in> set ks" for j using that nin by blast
    show "filter (due m ?xs) ks = filter (due m xs) ks"
      by (rule filter_cong) (use due ne in auto)
    show "map (\<lambda>j. (tm_dtors m ! j, ?xs ! j)) (filter (due m xs) ks) = map (\<lambda>j. (tm_dtors m ! j, xs ! j)) (filter (due m xs) ks)"
      by (rule map_cong[OF refl]) (use ne[THEN not_sym] in auto)
  qed
  obtain ys where ys: "fold (clean_key quiet) ks ((m, ?xs), ?log) =
      ((m, ys), ?log @ map (\<lambda>k. (tm_dtors m ! k, ?xs ! k)) (filter (due m ?xs) ks))" "length ys = length ?xs"
    "\<forall>j < length ?xs. ys ! j = (if j \<in> set ks \<and> due m ?xs j then 0 else ?xs ! j)"
  proof -
    have "distinct ks" "\<forall>j \<in> set ks. j < length ?xs" using Cons.prems by auto
    then show ?thesis using that Cons.IH[of ?xs ?log] by blast
  qed
  have "fold (clean_key quiet) (k # ks) ((m, xs), log) =
      ((m, ys), log @ map (\<lambda>k. (tm_dtors m ! k, xs ! k)) (filter (due m xs) (k # ks)))"
    using step ys(1) same by simp
  moreover have "\<forall>j < length xs. ys ! j = (if j \<in> set (k # ks) \<and> due m xs j then 0 else xs ! j)"
    using ys(3) nin due Cons.prems(2) by (auto simp: nth_list_update)
  ultimately show ?case using ys(2) by auto
qed simp

lemma clean_all_quiet:
  assumes "tm_wf m" "length xs = TLSMAP_SIZE"
  shows "\<exists>ys. pthread_key_clean_all quiet m xs =
      ((tlsmap_lock m, ys), map (\<lambda>k. (tm_dtors m ! k, xs ! k)) (filter (due (tlsmap_lock m) xs) tls_keys)) \<and>
    length ys = TLSMAP_SIZE \<and>
    (\<forall>k < TLSMAP_SIZE. ys ! k = (if TLSMAP_START \<le> k \<and> due (tlsmap_lock m) xs k then 0 else xs ! k))"
proof -
  let ?m = "tlsmap_lock m" and ?ks = tls_keys
  have i: "tm_init ?m" by (simp add: tlsmap_lock_def)
  have dt: "tm_dtors ?m = tm_dtors m" by (simp add: tlsmap_lock_def)
  obtain ys where ys: "clean_round quiet ((?m, xs), []) =
      ((?m, ys), map (\<lambda>k. (tm_dtors m ! k, xs ! k)) (filter (due ?m xs) ?ks))" "length ys = TLSMAP_SIZE"
    "\<forall>k < TLSMAP_SIZE. ys ! k = (if TLSMAP_START \<le> k \<and> due ?m xs k then 0 else xs ! k)"
    using fold_clean_quiet[OF i, of ?ks xs "[]"] assms(2) dt by (auto simp: clean_round_def tls_keys)
  have none: "filter (due ?m ys) ?ks = []"
    using ys(3) by (auto simp: due_def filter_empty_conv tls_keys)
  have again: "clean_round quiet ((?m, ys), l) = ((?m, ys), l)" for l
  proof -
    obtain zs where zs: "clean_round quiet ((?m, ys), l) = ((?m, zs), l)" "length zs = length ys"
      "\<forall>k < length ys. zs ! k = (if k \<in> set ?ks \<and> due ?m ys k then 0 else ys ! k)"
      using fold_clean_quiet[OF i, of ?ks ys l] ys(2) none by (auto simp: clean_round_def tls_keys)
    have "zs = ys" using zs(2,3) none by (intro nth_equalityI) (auto simp: filter_empty_conv)
    then show ?thesis using zs(1) by simp
  qed
  have "pthread_key_clean_all quiet m xs = clean_round quiet ((?m, xs), [])"
    using ys(1) again
    by (simp add: pthread_key_clean_all_def numeral_eq_Suc Let_def)
  then show ?thesis using ys by auto
qed

section \<open>Properties\<close>

text \<open>
  \<open>pthread_key_create\<close> allocates: if some key from 3 to 63 is free it returns 0 and a free key, marks
  exactly that key as allocated and records its destructor; if none is free it returns \<open>ENOMEM\<close> and
  the map stays as it was.
\<close>

theorem key_create_fresh:
  assumes "tm_wf (tmap s)" and "pthread_key_create dtor s = (r, k, s')"
  shows "if \<exists>j. TLSMAP_START \<le> j \<and> j < TLSMAP_SIZE \<and> \<not> tlsmap_test (tlsmap_lock (tmap s)) j
    then \<exists>j. r = 0 \<and> k = Some j \<and> TLSMAP_START \<le> j \<and> j < TLSMAP_SIZE \<and>
      \<not> tlsmap_test (tlsmap_lock (tmap s)) j \<and> tm_dtors (tmap s') ! j = dtor \<and>
      (\<forall>i < TLSMAP_SIZE. tlsmap_test (tmap s') i \<longleftrightarrow> i = j \<or> tlsmap_test (tlsmap_lock (tmap s)) i)
    else r = ENOMEM \<and> k = None \<and> tmap s' = tlsmap_lock (tmap s)"
proof -
  let ?m = "tlsmap_lock (tmap s)"
  have wm: "tm_wf ?m" by (rule tlsmap_lock_wf[OF assms(1)])
  obtain i m' where al: "tlsmap_alloc_from ?m dtor TLSMAP_START = (i, m')" by fastforce
  note spec = alloc_from_spec[OF wm _ al]
  show ?thesis
  proof (cases "\<exists>j. TLSMAP_START \<le> j \<and> j < TLSMAP_SIZE \<and> \<not> tlsmap_test ?m j")
    case True
    then obtain j where j: "TLSMAP_START \<le> j" "j < TLSMAP_SIZE" "\<not> tlsmap_test ?m j" "i = int j"
      "m' = tlsmap_set ?m j dtor" using spec by auto
    have "tm_dtors m' ! j = dtor" using j wm by (simp add: tlsmap_set_def tm_wf_def)
    then show ?thesis
      using True j assms(2) al tlsmap_test_set[OF wm j(2)]
      by (auto simp: pthread_key_create_def tlsmap_alloc_def simp del: tlsmap_alloc_from.simps)
  next
    case False
    then have "i = - 1 \<and> m' = ?m" using spec by auto
    then show ?thesis
      using False assms(2) al
      by (auto simp: pthread_key_create_def tlsmap_alloc_def simp del: tlsmap_alloc_from.simps)
  qed
qed

definition tls_s0 :: tls_state where
  "tls_s0 = \<lparr>tmap = tlsmap_static, thr = \<lparr>gThreadList = 0, descs = (\<lambda>_. None)\<rparr>\<rparr>"

lemma key_create_first: "pthread_key_create 0x1000 tls_s0 = (0, Some 5, tls_s0\<lparr>tmap := tlsmap_set (tlsmap_lock tlsmap_static) 5 0x1000\<rparr>)"
proof -
  have t: "tlsmap_test (tlsmap_lock tlsmap_static) 3" "tlsmap_test (tlsmap_lock tlsmap_static) 4"
    "\<not> tlsmap_test (tlsmap_lock tlsmap_static) 5"
    by (simp_all add: tlsmap_test_def TLSMAP_WORD_def TLSMAP_MASK_def tlsmap_lock_def tlsmap_static_def)
  then have "tlsmap_alloc_from (tlsmap_lock tlsmap_static) 0x1000 3 = (5, tlsmap_set (tlsmap_lock tlsmap_static) 5 0x1000)"
    by (subst tlsmap_alloc_from.simps, simp del: tlsmap_alloc_from.simps)+ 
  then show ?thesis
    by (simp add: pthread_key_create_def tlsmap_alloc_def tls_s0_def del: tlsmap_alloc_from.simps)
qed

theorem key_create_fresh_witness:
  "\<exists>j r k s'. pthread_key_create 0x1000 tls_s0 = (r, k, s') \<and> k = Some j \<and>
    \<not> tlsmap_test (tlsmap_lock (tmap tls_s0)) j"
proof -
  have wf: "tm_wf (tmap tls_s0)" by (simp add: tls_s0_def tm_wf_def tlsmap_static_def)
  have "\<not> tlsmap_test (tlsmap_lock (tmap tls_s0)) 5"
    by (simp add: tls_s0_def tlsmap_test_def TLSMAP_WORD_def TLSMAP_MASK_def tlsmap_lock_def tlsmap_static_def)
  then have "\<exists>j. TLSMAP_START \<le> j \<and> j < TLSMAP_SIZE \<and> \<not> tlsmap_test (tlsmap_lock (tmap tls_s0)) j"
    by (intro exI[of _ 5]) simp
  then show ?thesis using key_create_fresh[OF wf key_create_first] key_create_first by auto
qed

text \<open>
  \<open>pthread_getspecific\<close> needs no lock: in every state that creating and deleting keys, setting
  values, and starting and ending threads can reach, a thread that has not ended reads \<open>NULL\<close> at a key
  that is not allocated, as the comment in the source claims.
\<close>

theorem getspecific_unallocated_null:
  assumes "reachable tls_start tls_step s" and "live a s" and "\<not> tlsmap_test (tlsmap_lock (tmap s)) (nat key)"
  shows "pthread_getspecific a key s = Some 0"
proof (cases "TLSMAP_VALIDATE_KEY key")
  case True
  obtain d ys where d: "descs (thr s) a = Some d" "join_count d \<ge> 0" "tls d = Some ys"
    using assms(2) by (auto simp: live_def)
  obtain xs where "descs_ok (tlsmap_lock (tmap s)) xs (thr s)"
    using tls_system.reachable_inv[OF assms(1)] by (auto simp: tls_inv_def)
  then have "slots_ok (tlsmap_lock (tmap s)) ys" using descs_okD[OF _ d(1,3)] d(2) by blast
  moreover have "TLSMAP_START \<le> nat key" "nat key < TLSMAP_SIZE" using True by (auto simp: TLSMAP_VALIDATE_KEY_def)
  ultimately have "ys ! nat key = 0" using assms(3) by (simp add: slots_ok_def)
  then show ?thesis using True d by (simp add: pthread_getspecific_def)
qed (simp add: pthread_getspecific_def)

text \<open>A process with one thread, whose descriptor is at address 9.\<close>

definition tls_s1 :: tls_state where
  "tls_s1 = \<lparr>tmap = tlsmap_static, thr = \<lparr>gThreadList = 9, descs = (\<lambda>_. None)(9 := Some zero_desc)\<rparr>\<rparr>"

definition tls_s2 :: tls_state where
  "tls_s2 = \<lparr>tmap = tlsmap_static, thr = \<lparr>gThreadList = 9, descs = (\<lambda>_. None)(9 := Some (zero_desc\<lparr>tls :=
     Some ((replicate 64 0)[0 := 0x8000, 1 := 9])\<rparr>))\<rparr>\<rparr>"

lemma tls_s2_reachable: "reachable tls_start tls_step tls_s2"
proof -
  have 0: "reachable tls_start tls_step tls_s0"
    by (rule reachable.start) (simp add: tls_start_def tls_s0_def)
  have "tls_step tls_s0 tls_s1"
    using tls_step.new_thread[of 9 tls_s0 zero_desc "thr tls_s1"]
    by (simp add: tls_s0_def tls_s1_def zero_desc_def pthread_internal_add_def upd_desc_def)
  note 1 = reachable.step[OF 0 this]
  have "thread_walk 1 (thr tls_s1) (gThreadList (thr tls_s1)) = Some [9]"
    by (simp add: tls_s1_def zero_desc_def)
  moreover have "init_tls 0x8000 9 (thr tls_s1) = Some (thr tls_s2)"
    by (simp add: init_tls_def tls_s1_def tls_s2_def upd_desc_def)
  moreover have "tls_s1\<lparr>thr := thr tls_s2\<rparr> = tls_s2" by (simp add: tls_s1_def tls_s2_def)
  ultimately have "tls_step tls_s1 tls_s2"
    using tls_step.start[of 1 tls_s1 "[9]" 9 "0x8000" "thr tls_s2"] by simp
  then show ?thesis by (rule reachable.step[OF 1])
qed

lemma tls_s2_live: "live 9 tls_s2"
  by (simp add: live_def tls_s2_def zero_desc_def)

theorem getspecific_unallocated_null_witness:
  "reachable tls_start tls_step tls_s2 \<and> live 9 tls_s2 \<and> pthread_getspecific 9 17 tls_s2 = Some 0"
proof -
  have "\<not> tlsmap_test (tlsmap_lock (tmap tls_s2)) (nat 17)"
    by (simp add: tls_s2_def tlsmap_test_def TLSMAP_WORD_def TLSMAP_MASK_def tlsmap_lock_def tlsmap_static_def)
  then show ?thesis
    using getspecific_unallocated_null[OF tls_s2_reachable tls_s2_live] tls_s2_reachable tls_s2_live by blast
qed

text \<open>
  What is set is read back: after a successful \<open>pthread_setspecific\<close>, \<open>pthread_getspecific\<close> of the same
  thread and key returns the value, and every other thread and key reads what it read before.
\<close>

theorem setspecific_getspecific:
  assumes "reachable tls_start tls_step s" and "live a s" and "pthread_setspecific a key p s = Some (0, s')"
  shows "pthread_getspecific a key s' = Some p \<and>
    (\<forall>b j. b \<noteq> a \<or> j \<noteq> key \<longrightarrow> pthread_getspecific b j s' = pthread_getspecific b j s)"
proof -
  obtain d ys where d: "descs (thr s) a = Some d" "join_count d \<ge> 0" "tls d = Some ys"
    using assms(2) by (auto simp: live_def)
  obtain xs where "descs_ok (tlsmap_lock (tmap s)) xs (thr s)"
    using tls_system.reachable_inv[OF assms(1)] by (auto simp: tls_inv_def)
  then have len: "length ys = TLSMAP_SIZE"
    using descs_okD[OF _ d(1,3)] d(2) by (auto simp: slots_ok_def)
  have v: "TLSMAP_VALIDATE_KEY key" using assms(3) by (auto simp: pthread_setspecific_def split: if_splits)
  then have "nat key < TLSMAP_SIZE" by (auto simp: TLSMAP_VALIDATE_KEY_def)
  have s': "thr s' = (thr s)\<lparr>descs := (descs (thr s))(a := Some (d\<lparr>tls := Some (ys[nat key := p])\<rparr>))\<rparr>"
    using assms(3) d by (auto simp: pthread_setspecific_def upd_desc_def Let_def split: if_splits)
  have "ys[nat key := p] ! nat j = ys ! nat j" if "j \<noteq> key" "TLSMAP_VALIDATE_KEY j" for j
    using that v by (intro nth_list_update_neq) (auto simp: TLSMAP_VALIDATE_KEY_def)
  then show ?thesis
    using v s' d len \<open>nat key < TLSMAP_SIZE\<close> by (auto simp: pthread_getspecific_def)
qed

theorem setspecific_getspecific_witness:
  "\<exists>s'. pthread_setspecific 9 3 77 tls_s2 = Some (0, s') \<and> pthread_getspecific 9 3 s' = Some 77"
proof -
  have "\<exists>s'. pthread_setspecific 9 3 77 tls_s2 = Some (0, s')"
    by (simp add: pthread_setspecific_def TLSMAP_VALIDATE_KEY_def tls_s2_def tlsmap_test_def TLSMAP_WORD_def
        TLSMAP_MASK_def tlsmap_lock_def tlsmap_static_def upd_desc_def)
  then show ?thesis using setspecific_getspecific[OF tls_s2_reachable tls_s2_live] by blast
qed

text \<open>
  C15. The destructor loop at thread exit: it makes at most 4 times 61 calls whatever the destructors do
  to keys and values; and when they leave them alone, it calls the destructor of exactly the allocated
  keys with a value and a destructor, once each, in key order, with that value, and leaves those slots
  \<open>NULL\<close> and the others untouched.
\<close>

theorem key_clean_all_calls:
  assumes "tm_wf m" and "length xs = TLSMAP_SIZE"
  shows "length (snd (pthread_key_clean_all call m xs)) \<le> 244 \<and>
    snd (pthread_key_clean_all quiet m xs)
      = map (\<lambda>k. (tm_dtors m ! k, xs ! k)) (filter (due (tlsmap_lock m) xs) tls_keys) \<and>
    (\<forall>k < TLSMAP_SIZE. snd (fst (pthread_key_clean_all quiet m xs)) ! k
      = (if TLSMAP_START \<le> k \<and> due (tlsmap_lock m) xs k then 0 else xs ! k))"
  using clean_rounds_log[of call 4 "((tlsmap_lock m, xs), [])"] clean_all_quiet[OF assms]
  by (auto simp: pthread_key_clean_all_def[of call])

theorem key_clean_all_calls_witness:
  "length (snd (pthread_key_clean_all quiet tlsmap_static (replicate 64 0))) \<le> 244"
proof -
  have "tm_wf tlsmap_static" "length (replicate 64 (0 :: u32)) = TLSMAP_SIZE"
    by (simp_all add: tm_wf_def tlsmap_static_def)
  then show ?thesis using key_clean_all_calls by blast
qed

end
