(* ===== verification/Pthread_Once.thy ===== *)
theory Pthread_Once
  imports Bionic_Prelude
begin

unbundle bit_operations_syntax

text \<open>
  \<open>pthread_once\<close> of \<open>libc/bionic/pthread.c\<close>: the double-checked initialisation under the global
  recursive mutex \<open>once_lock\<close>, for any number of threads that use one control variable. The mutex is an
  exclusive lock, as the theorems on recursive mutexes show; the initialisation routine does not call
  \<open>pthread_once\<close> on the same control.
\<close>

section \<open>The function\<close>

abbreviation (input) PTHREAD_ONCE_INIT :: u32 where "PTHREAD_ONCE_INIT \<equiv> 0"

text \<open>
  Program points: the first read, the call of \<open>pthread_mutex_lock\<close>, the read under the lock, the
  initialisation routine running, the store, the unlock, the return.
\<close>

datatype once_pc = OOut | ORead | OLock | OCheck | OInit | OStore | OUnlock | ORet

text \<open>One step: control variable, mutex owner, program point; \<open>None\<close> when blocked on the mutex.\<close>

fun pthread_once :: "tid \<Rightarrow> u32 \<Rightarrow> tid option \<Rightarrow> once_pc \<Rightarrow> (u32 \<times> tid option \<times> once_pc) option" where
  "pthread_once t v m OOut = Some (v, m, ORead)"
| "pthread_once t v m ORead = Some (v, m, if v = PTHREAD_ONCE_INIT then OLock else ORet)"
| "pthread_once t v m OLock = (if m = None then Some (v, Some t, OCheck) else None)"
| "pthread_once t v m OCheck = Some (v, m, if v = PTHREAD_ONCE_INIT then OInit else OUnlock)"
| "pthread_once t v m OInit = Some (v, m, OStore)"
| "pthread_once t v m OStore = Some (NOT PTHREAD_ONCE_INIT, m, OUnlock)"
| "pthread_once t v m OUnlock = Some (v, None, ORet)"
| "pthread_once t v m ORet = Some (v, m, OOut)"

section \<open>Threads sharing a control variable\<close>

text \<open>\<open>begun\<close> and \<open>ended\<close> count the starts and ends of the initialisation routine.\<close>

record once_sys =
  oval :: u32
  olock :: "tid option"
  opcs :: "tid \<Rightarrow> once_pc"
  begun :: nat
  ended :: nat

inductive once_step :: "once_sys \<Rightarrow> once_sys \<Rightarrow> bool" where
  step: "pthread_once t (oval s) (olock s) (opcs s t) = Some (v, m, pc) \<Longrightarrow>
    once_step s \<lparr>oval = v, olock = m, opcs = (opcs s)(t := pc),
      begun = (if pc = OInit then Suc (begun s) else begun s),
      ended = (if pc = OStore then Suc (ended s) else ended s)\<rparr>"

inductive_cases once_stepE: "once_step s s'"

definition once_start :: "once_sys \<Rightarrow> bool" where
  "once_start s \<longleftrightarrow> oval s = PTHREAD_ONCE_INIT \<and> olock s = None \<and> (\<forall>t. opcs s t = OOut) \<and> begun s = 0 \<and> ended s = 0"

definition inside :: "once_pc \<Rightarrow> bool" where
  "inside pc \<longleftrightarrow> pc \<in> {OCheck, OInit, OStore, OUnlock}"

text \<open>Where the owner of the mutex is.\<close>

definition phase :: "once_sys \<Rightarrow> once_pc" where
  "phase s = (case olock s of None \<Rightarrow> OOut | Some t \<Rightarrow> opcs s t)"

definition once_inv :: "once_sys \<Rightarrow> bool" where
  "once_inv s \<longleftrightarrow> (\<forall>t. inside (opcs s t) \<longleftrightarrow> olock s = Some t) \<and>
     (\<forall>t. opcs s t \<in> {OUnlock, ORet} \<longrightarrow> oval s \<noteq> PTHREAD_ONCE_INIT) \<and>
     (phase s \<in> {OInit, OStore} \<longrightarrow> oval s = PTHREAD_ONCE_INIT) \<and>
     begun s = (if oval s \<noteq> PTHREAD_ONCE_INIT \<or> phase s \<in> {OInit, OStore} then 1 else 0) \<and>
     ended s = (if oval s \<noteq> PTHREAD_ONCE_INIT \<or> phase s = OStore then 1 else 0)"

lemma once_invD:
  assumes "once_inv s"
  shows "inside (opcs s t) \<longleftrightarrow> olock s = Some t" and "opcs s t \<in> {OUnlock, ORet} \<Longrightarrow> oval s \<noteq> 0"
    and "phase s \<in> {OInit, OStore} \<Longrightarrow> oval s = 0"
    and "begun s = (if oval s \<noteq> 0 \<or> phase s \<in> {OInit, OStore} then 1 else 0)"
    and "ended s = (if oval s \<noteq> 0 \<or> phase s = OStore then 1 else 0)"
  using assms unfolding once_inv_def by blast+

lemma once_invI:
  assumes "\<And>t. inside (opcs s t) \<longleftrightarrow> olock s = Some t"
    and "\<And>t. opcs s t \<in> {OUnlock, ORet} \<Longrightarrow> oval s \<noteq> 0" and "phase s \<in> {OInit, OStore} \<Longrightarrow> oval s = 0"
    and "begun s = (if oval s \<noteq> 0 \<or> phase s \<in> {OInit, OStore} then 1 else 0)"
    and "ended s = (if oval s \<noteq> 0 \<or> phase s = OStore then 1 else 0)"
  shows "once_inv s"
  using assms unfolding once_inv_def by blast

lemma once_inv_step:
  assumes inv: "once_inv s" and "once_step s s'"
  shows "once_inv s'"
  using assms(2)
proof cases
  case (step t v m pc)
  note D = once_invD[OF inv]
  have own: "olock s = Some t \<longleftrightarrow> inside (opcs s t)" using D(1) by blast
  have others: "inside (opcs s u) \<longleftrightarrow> olock s = Some u" for u using D(1) by blast
  have ph: "phase s = opcs s t" if "inside (opcs s t)" using that own by (simp add: phase_def)
  have st: "opcs s t \<in> {OUnlock, ORet} \<Longrightarrow> oval s \<noteq> 0" by (rule D(2))
  have free: "olock s = None \<Longrightarrow> phase s = OOut" by (simp add: phase_def)
  have z: "opcs s t \<in> {OInit, OStore} \<Longrightarrow> oval s = 0" using D(3) ph by (auto simp: inside_def)
  let ?s = "\<lparr>oval = v, olock = m, opcs = (opcs s)(t := pc),
      begun = (if pc = OInit then Suc (begun s) else begun s),
      ended = (if pc = OStore then Suc (ended s) else ended s)\<rparr>"
  have out: "phase ?s = phase s \<and> v = oval s" if "\<not> inside (opcs s t)" "\<not> inside pc"
    using step(2) that own by (cases "opcs s t") (auto simp: phase_def inside_def split: if_splits option.splits)
  have ph': "phase ?s = (if inside pc then pc else if inside (opcs s t) then OOut else phase s)"
    using step(2) own out
    by (cases "opcs s t") (auto simp: phase_def inside_def split: if_splits option.splits)
  show ?thesis
    unfolding step(1)
  proof (rule once_invI, goal_cases)
    case (1 u)
    then show ?case
      using step(2) own others[of u] by (cases "opcs s t") (auto simp: inside_def split: if_splits)
  next
    case (2 u)
    then show ?case
      using step(2) st D(2)[of u] by (cases "opcs s t") (auto split: if_splits)
  next
    case 3
    then show ?case
      using step(2) D(3) z unfolding ph' by (cases "opcs s t") (auto simp: inside_def split: if_splits)
  next
    case 4
    then show ?case
      using step(2) D(4) st z ph free unfolding ph' by (cases "opcs s t") (auto simp: inside_def split: if_splits)
  next
    case 5
    then show ?case
      using step(2) D(5) st z ph free unfolding ph' by (cases "opcs s t") (auto simp: inside_def split: if_splits)
  qed
qed

interpretation once_system: invariant_system once_start once_step once_inv
proof
  show "once_start s \<Longrightarrow> once_inv s" for s
    by (auto simp: once_start_def once_inv_def inside_def phase_def)
qed (rule once_inv_step)

section \<open>A run\<close>

text \<open>Thread 1 runs alone to its return.\<close>

definition once_done :: once_sys where
  "once_done = \<lparr>oval = - 1, olock = None, opcs = (\<lambda>_. OOut)(1 := ORet), begun = 1, ended = 1\<rparr>"

lemma once_done_reachable: "reachable once_start once_step once_done"
proof -
  let ?s = "\<lambda>v m pc b e. \<lparr>oval = v, olock = m, opcs = (\<lambda>_. OOut)(1 := pc), begun = b, ended = e\<rparr> :: once_sys"
  have r: "reachable once_start once_step (?s 0 None OOut 0 0)"
    by (rule reachable.start) (simp add: once_start_def)
  have 1: "once_step (?s 0 None OOut 0 0) (?s 0 None ORead 0 0)"
    using once_step.step[of 1 "?s 0 None OOut 0 0"] by simp
  have 2: "once_step (?s 0 None ORead 0 0) (?s 0 None OLock 0 0)"
    using once_step.step[of 1 "?s 0 None ORead 0 0"] by simp
  have 3: "once_step (?s 0 None OLock 0 0) (?s 0 (Some 1) OCheck 0 0)"
    using once_step.step[of 1 "?s 0 None OLock 0 0"] by simp
  have 4: "once_step (?s 0 (Some 1) OCheck 0 0) (?s 0 (Some 1) OInit 1 0)"
    using once_step.step[of 1 "?s 0 (Some 1) OCheck 0 0"] by simp
  have 5: "once_step (?s 0 (Some 1) OInit 1 0) (?s 0 (Some 1) OStore 1 1)"
    using once_step.step[of 1 "?s 0 (Some 1) OInit 1 0"] by simp
  have 6: "once_step (?s 0 (Some 1) OStore 1 1) (?s (- 1) (Some 1) OUnlock 1 1)"
    using once_step.step[of 1 "?s 0 (Some 1) OStore 1 1"] by simp
  have 7: "once_step (?s (- 1) (Some 1) OUnlock 1 1) once_done"
    using once_step.step[of 1 "?s (- 1) (Some 1) OUnlock 1 1"] by (simp add: once_done_def)
  show ?thesis
    by (rule reachable.step[OF reachable.step[OF reachable.step[OF reachable.step[OF reachable.step[OF
          reachable.step[OF reachable.step[OF r 1] 2] 3] 4] 5] 6] 7])
qed

section \<open>Properties\<close>

text \<open>
  C16. \<open>pthread_once\<close>: in every reachable state of any number of threads, the initialisation routine has
  been started at most once, and a thread that is returning from \<open>pthread_once\<close> finds it started and
  ended exactly once.
\<close>

theorem once_exactly_once:
  assumes "reachable once_start once_step s"
  shows "begun s \<le> 1 \<and> ended s \<le> begun s \<and> (opcs s t = ORet \<longrightarrow> begun s = 1 \<and> ended s = 1)"
proof -
  note D = once_invD[OF once_system.reachable_inv[OF assms]]
  show ?thesis using D(2)[of t] D(4,5) by auto
qed

theorem once_exactly_once_witness:
  "reachable once_start once_step once_done \<and> opcs once_done 1 = ORet \<and> ended once_done = 1"
  using once_exactly_once[OF once_done_reachable, of 1] once_done_reachable by (simp add: once_done_def)

end
