(* ===== verification/Dns_Packet.thy ===== *)
theory Dns_Packet
  imports Bionic_Prelude
begin

text \<open>
  The query packets of the resolver cache, \<open>netbsd/resolv/res_cache.c\<close>: the bounded reader
  \<open>DnsPacket\<close>, the check that decides which queries may be cached, the hash of a query and
  the comparison of two queries. A packet is the list of its bytes (so that \<open>end\<close> is its
  length) and a cursor. Functions of the code that report through their return value and move
  the cursor give a pair; a read the code does not guard gives \<open>None\<close> when it is out of
  bounds. The second half gives the grammar of the accepted packets and shows what the three
  functions compute on it.
\<close>

section \<open>The packet reader\<close>

record DnsPacket =
  base :: "u8 list"
  cursor :: nat

definition pend :: "DnsPacket \<Rightarrow> nat" where
  "pend pk = length (base pk)"

definition dnsPacket_init :: "u8 list \<Rightarrow> DnsPacket" where
  "dnsPacket_init buff = \<lparr>base = buff, cursor = 0\<rparr>"

definition dnsPacket_rewind :: "DnsPacket \<Rightarrow> DnsPacket" where
  "dnsPacket_rewind pk = pk\<lparr>cursor := 0\<rparr>"

definition dnsPacket_skip :: "DnsPacket \<Rightarrow> nat \<Rightarrow> DnsPacket" where
  "dnsPacket_skip pk count =
    (let p = cursor pk + count in pk\<lparr>cursor := if p > pend pk then pend pk else p\<rparr>)"

definition be16 :: "u8 \<Rightarrow> u8 \<Rightarrow> int" where
  "be16 a b = push_bit 8 (uint a) OR uint b"

definition dnsPacket_readInt16 :: "DnsPacket \<Rightarrow> int \<times> DnsPacket" where
  "dnsPacket_readInt16 pk =
    (let p = cursor pk in
     if p + 2 > pend pk then (- 1, pk)
     else (be16 (base pk ! p) (base pk ! (p + 1)), pk\<lparr>cursor := p + 2\<rparr>))"

section \<open>Query checking\<close>

definition DNS_HEADER_SIZE :: nat where "DNS_HEADER_SIZE = 12"

text \<open>
  The string constants of the types. In \<open>"\00\0377"\<close> the octal escape ends after three digits:
  the constant is the bytes 0, 31 and the character 7.
\<close>

definition DNS_TYPE_A :: "u8 list" where "DNS_TYPE_A = [0, 1]"

definition DNS_TYPE_PTR :: "u8 list" where "DNS_TYPE_PTR = [0, 12]"

definition DNS_TYPE_MX :: "u8 list" where "DNS_TYPE_MX = [0, 15]"

definition DNS_TYPE_AAAA :: "u8 list" where "DNS_TYPE_AAAA = [0, 28]"

definition DNS_TYPE_ALL :: "u8 list" where "DNS_TYPE_ALL = [0, 31, 55]"

definition DNS_CLASS_IN :: "u8 list" where "DNS_CLASS_IN = [0, 1]"

definition dnsPacket_checkBytes :: "DnsPacket \<Rightarrow> nat \<Rightarrow> u8 list \<Rightarrow> bool \<times> DnsPacket" where
  "dnsPacket_checkBytes pk numBytes bytes =
    (let p = cursor pk in
     if p + numBytes > pend pk then (False, pk)
     else if take numBytes (drop p (base pk)) \<noteq> take numBytes bytes then (False, pk)
     else (True, pk\<lparr>cursor := p + numBytes\<rparr>))"

text \<open>The loop of \<open>_dnsPacket_checkQName\<close>: the position after the name, or \<open>None\<close>.\<close>

function checkQName_loop :: "u8 list \<Rightarrow> nat \<Rightarrow> nat option" where
  "checkQName_loop b p =
    (if p \<ge> length b then None
     else let c = b ! p in
       if c = 0 then Some (p + 1)
       else if c \<ge> 64 then None
       else checkQName_loop b (p + 1 + unat c))"
  by pat_completeness auto
termination by (relation "measure (\<lambda>(b, p). length b - p)") auto

declare checkQName_loop.simps [simp del]

definition dnsPacket_checkQName :: "DnsPacket \<Rightarrow> bool \<times> DnsPacket" where
  "dnsPacket_checkQName pk =
    (case checkQName_loop (base pk) (cursor pk) of
      Some p \<Rightarrow> (True, pk\<lparr>cursor := p\<rparr>)
    | None \<Rightarrow> (False, pk))"

text \<open>The short-circuit conjunction over the types: the first type that matches is consumed.\<close>

fun checkBytes_any :: "DnsPacket \<Rightarrow> nat \<Rightarrow> u8 list list \<Rightarrow> bool \<times> DnsPacket" where
  "checkBytes_any pk n [] = (False, pk)"
| "checkBytes_any pk n (t # ts) =
    (case dnsPacket_checkBytes pk n t of
      (True, pk') \<Rightarrow> (True, pk')
    | (False, pk') \<Rightarrow> checkBytes_any pk' n ts)"

definition dnsPacket_checkQR :: "DnsPacket \<Rightarrow> bool \<times> DnsPacket" where
  "dnsPacket_checkQR pk =
    (case dnsPacket_checkQName pk of
      (False, pk1) \<Rightarrow> (False, pk1)
    | (True, pk1) \<Rightarrow>
      (case checkBytes_any pk1 2 [DNS_TYPE_A, DNS_TYPE_PTR, DNS_TYPE_MX, DNS_TYPE_AAAA, DNS_TYPE_ALL] of
        (False, pk2) \<Rightarrow> (False, pk2)
      | (True, pk2) \<Rightarrow>
        (case dnsPacket_checkBytes pk2 2 DNS_CLASS_IN of
          (False, pk3) \<Rightarrow> (False, pk3)
        | (True, pk3) \<Rightarrow> (True, pk3))))"

fun checkQRs :: "nat \<Rightarrow> DnsPacket \<Rightarrow> bool \<times> DnsPacket" where
  "checkQRs 0 pk = (True, pk)"
| "checkQRs (Suc n) pk =
    (case dnsPacket_checkQR pk of (False, pk') \<Rightarrow> (False, pk') | (True, pk') \<Rightarrow> checkQRs n pk')"

definition dnsPacket_checkQuery :: "DnsPacket \<Rightarrow> bool \<times> DnsPacket" where
  "dnsPacket_checkQuery pk =
    (let p = base pk in
     if DNS_HEADER_SIZE > pend pk then (False, pk)
     else if p ! 2 AND 0xFC \<noteq> 0 \<or> p ! 3 \<noteq> 0 then (False, pk)
     else
       let qdCount = be16 (p ! 4) (p ! 5);
           anCount = be16 (p ! 6) (p ! 7);
           dnCount = be16 (p ! 8) (p ! 9);
           arCount = be16 (p ! 10) (p ! 11)
       in if anCount \<noteq> 0 \<or> dnCount \<noteq> 0 \<or> arCount \<noteq> 0 then (False, pk)
          else if qdCount = 0 then (False, pk)
          else checkQRs (nat qdCount) (pk\<lparr>cursor := DNS_HEADER_SIZE\<rparr>))"

section \<open>Query hashing\<close>

definition FNV_MULT :: u32 where "FNV_MULT = 16777619"

definition FNV_BASIS :: u32 where "FNV_BASIS = 2166136261"

definition fnv_mix :: "u32 \<Rightarrow> u8 \<Rightarrow> u32" where
  "fnv_mix hash b = (hash * FNV_MULT) XOR ucast b"

text \<open>
  \<open>_dnsPacket_hashBytes\<close>: the loop condition reads \<open>numBytes\<close>, which the body does not change.
\<close>

function hashBytes_loop :: "u8 list \<Rightarrow> nat \<Rightarrow> nat \<Rightarrow> u32 \<Rightarrow> nat \<times> u32" where
  "hashBytes_loop b numBytes p hash =
    (if numBytes > 0 \<and> p < length b then hashBytes_loop b numBytes (p + 1) (fnv_mix hash (b ! p))
     else (p, hash))"
  by pat_completeness auto
termination by (relation "measure (\<lambda>(b, n, p, h). length b - p)") auto

declare hashBytes_loop.simps [simp del]

definition dnsPacket_hashBytes :: "DnsPacket \<Rightarrow> nat \<Rightarrow> u32 \<Rightarrow> u32 \<times> DnsPacket" where
  "dnsPacket_hashBytes pk numBytes hash =
    (let (p, h) = hashBytes_loop (base pk) numBytes (cursor pk) hash in (h, pk\<lparr>cursor := p\<rparr>))"

function hashQName_loop :: "u8 list \<Rightarrow> nat \<Rightarrow> u32 \<Rightarrow> nat \<times> u32" where
  "hashQName_loop b p hash =
    (if p \<ge> length b then (p, hash)
     else let c = b ! p in
       if c = 0 then (p + 1, hash)
       else if c \<ge> 64 then (p + 1, hash)
       else if p + 1 + unat c \<ge> length b then (p + 1, hash)
       else hashQName_loop b (p + 1 + unat c) (foldl fnv_mix hash (take (unat c) (drop (p + 1) b))))"
  by pat_completeness auto
termination by (relation "measure (\<lambda>(b, p, h). length b - p)") auto

declare hashQName_loop.simps [simp del]

definition dnsPacket_hashQName :: "DnsPacket \<Rightarrow> u32 \<Rightarrow> u32 \<times> DnsPacket" where
  "dnsPacket_hashQName pk hash =
    (let (p, h) = hashQName_loop (base pk) (cursor pk) hash in (h, pk\<lparr>cursor := p\<rparr>))"

definition dnsPacket_hashQR :: "DnsPacket \<Rightarrow> u32 \<Rightarrow> u32 \<times> DnsPacket" where
  "dnsPacket_hashQR pk hash =
    (let (h1, pk1) = dnsPacket_hashQName pk hash in dnsPacket_hashBytes pk1 4 h1)"

fun hashQRs :: "nat \<Rightarrow> DnsPacket \<Rightarrow> u32 \<Rightarrow> u32 \<times> DnsPacket" where
  "hashQRs 0 pk hash = (hash, pk)"
| "hashQRs (Suc n) pk hash = (let (h, pk') = dnsPacket_hashQR pk hash in hashQRs n pk' h)"

text \<open>\<open>base[2]\<close> is read without a check of the length.\<close>

definition dnsPacket_hashQuery :: "DnsPacket \<Rightarrow> (u32 \<times> DnsPacket) option" where
  "dnsPacket_hashQuery pk0 =
    (let pk = dnsPacket_rewind pk0 in
     if 2 < pend pk then
       let hash = fnv_mix FNV_BASIS (base pk ! 2 AND 1);
           pk1 = dnsPacket_skip pk 4;
           (count, pk2) = dnsPacket_readInt16 pk1;
           pk3 = dnsPacket_skip pk2 6
       in Some (hashQRs (nat count) pk3 hash)
     else None)"

section \<open>Query comparison\<close>

function isEqualDomainName_loop :: "u8 list \<Rightarrow> u8 list \<Rightarrow> nat \<Rightarrow> nat \<Rightarrow> (nat \<times> nat) option" where
  "isEqualDomainName_loop b1 b2 p1 p2 =
    (if p1 \<ge> length b1 \<or> p2 \<ge> length b2 then None
     else let c1 = b1 ! p1; c2 = b2 ! p2 in
       if c1 \<noteq> c2 then None
       else if c1 = 0 then Some (p1 + 1, p2 + 1)
       else if c1 \<ge> 64 then None
       else if p1 + 1 + unat c1 > length b1 \<or> p2 + 1 + unat c1 > length b2 then None
       else if take (unat c1) (drop (p1 + 1) b1) \<noteq> take (unat c1) (drop (p2 + 1) b2) then None
       else isEqualDomainName_loop b1 b2 (p1 + 1 + unat c1) (p2 + 1 + unat c1))"
  by pat_completeness auto
termination by (relation "measure (\<lambda>(b1, b2, p1, p2). length b1 - p1)") auto

declare isEqualDomainName_loop.simps [simp del]

definition dnsPacket_isEqualDomainName ::
  "DnsPacket \<Rightarrow> DnsPacket \<Rightarrow> bool \<times> DnsPacket \<times> DnsPacket" where
  "dnsPacket_isEqualDomainName pack1 pack2 =
    (case isEqualDomainName_loop (base pack1) (base pack2) (cursor pack1) (cursor pack2) of
      Some (p1, p2) \<Rightarrow> (True, pack1\<lparr>cursor := p1\<rparr>, pack2\<lparr>cursor := p2\<rparr>)
    | None \<Rightarrow> (False, pack1, pack2))"

definition dnsPacket_isEqualBytes ::
  "DnsPacket \<Rightarrow> DnsPacket \<Rightarrow> nat \<Rightarrow> bool \<times> DnsPacket \<times> DnsPacket" where
  "dnsPacket_isEqualBytes pack1 pack2 numBytes =
    (let p1 = cursor pack1; p2 = cursor pack2 in
     if p1 + numBytes > pend pack1 \<or> p2 + numBytes > pend pack2 then (False, pack1, pack2)
     else if take numBytes (drop p1 (base pack1)) \<noteq> take numBytes (drop p2 (base pack2))
     then (False, pack1, pack2)
     else (True, pack1\<lparr>cursor := p1 + numBytes\<rparr>, pack2\<lparr>cursor := p2 + numBytes\<rparr>))"

definition dnsPacket_isEqualQR ::
  "DnsPacket \<Rightarrow> DnsPacket \<Rightarrow> bool \<times> DnsPacket \<times> DnsPacket" where
  "dnsPacket_isEqualQR pack1 pack2 =
    (case dnsPacket_isEqualDomainName pack1 pack2 of
      (False, a, b) \<Rightarrow> (False, a, b)
    | (True, a, b) \<Rightarrow> dnsPacket_isEqualBytes a b 4)"

fun isEqualQRs :: "nat \<Rightarrow> DnsPacket \<Rightarrow> DnsPacket \<Rightarrow> bool \<times> DnsPacket \<times> DnsPacket" where
  "isEqualQRs 0 a b = (True, a, b)"
| "isEqualQRs (Suc n) a b =
    (case dnsPacket_isEqualQR a b of
      (False, a', b') \<Rightarrow> (False, a', b')
    | (True, a', b') \<Rightarrow> isEqualQRs n a' b')"

definition dnsPacket_isEqualQuery ::
  "DnsPacket \<Rightarrow> DnsPacket \<Rightarrow> (bool \<times> DnsPacket \<times> DnsPacket) option" where
  "dnsPacket_isEqualQuery q1 q2 =
    (let a = dnsPacket_rewind q1; b = dnsPacket_rewind q2 in
     if 2 < pend a \<and> 2 < pend b then
       if base a ! 2 AND 1 \<noteq> base b ! 2 AND 1 then Some (False, a, b)
       else
         let a1 = dnsPacket_skip a 4;
             b1 = dnsPacket_skip b 4;
             (count1, a2) = dnsPacket_readInt16 a1;
             (count2, b2) = dnsPacket_readInt16 b1
         in if count1 \<noteq> count2 \<or> count1 < 0 then Some (False, a2, b2)
            else
              let a3 = dnsPacket_skip a2 6;
                  b3 = dnsPacket_skip b2 6
              in Some (isEqualQRs (nat count1) a3 b3)
     else None)"

section \<open>The grammar of queries\<close>

text \<open>
  A question is a list of labels and a two-byte type. Its encoding is the labels, each after its
  length, the empty label, the type, and the class IN.
\<close>

type_synonym question = "u8 list list \<times> u8 list"

definition enc_label :: "u8 list \<Rightarrow> u8 list" where
  "enc_label l = of_nat (length l) # l"

definition enc_name :: "u8 list list \<Rightarrow> u8 list" where
  "enc_name ls = concat (map enc_label ls) @ [0]"

definition enc_question :: "question \<Rightarrow> u8 list" where
  "enc_question q = enc_name (fst q) @ snd q @ [0, 1]"

definition label_ok :: "u8 list \<Rightarrow> bool" where
  "label_ok l \<longleftrightarrow> 0 < length l \<and> length l < 64"

definition cacheable_types :: "u8 list list" where
  "cacheable_types = [[0, 1], [0, 12], [0, 15], [0, 28], [0, 31]]"

definition question_ok :: "question \<Rightarrow> bool" where
  "question_ok q \<longleftrightarrow> list_all label_ok (fst q) \<and> snd q \<in> set cacheable_types"

definition enc_query :: "u8 \<Rightarrow> u8 \<Rightarrow> u8 \<Rightarrow> question list \<Rightarrow> u8 list \<Rightarrow> u8 list" where
  "enc_query i1 i2 fl qs tr =
    [i1, i2, fl, 0, of_nat (length qs div 256), of_nat (length qs), 0, 0, 0, 0, 0, 0] @
    concat (map enc_question qs) @ tr"

definition query_ok :: "u8 \<Rightarrow> question list \<Rightarrow> bool" where
  "query_ok fl qs \<longleftrightarrow> fl AND 0xFC = 0 \<and> qs \<noteq> [] \<and> length qs < 65536 \<and> list_all question_ok qs"

subsection \<open>Names\<close>

lemma enc_name_Nil: "enc_name [] = [0]"
  by (simp add: enc_name_def)

lemma enc_name_Cons: "enc_name (l # ls) = of_nat (length l) # l @ enc_name ls"
  by (simp add: enc_name_def enc_label_def)

lemma unat_small: "n < 64 \<Longrightarrow> unat (of_nat n :: u8) = n"
  by (simp add: unat_of_nat)

lemma label_byte:
  assumes "label_ok l"
  shows "unat (of_nat (length l) :: u8) = length l" "(of_nat (length l) :: u8) \<noteq> 0"
    "\<not> 64 \<le> (of_nat (length l) :: u8)"
proof -
  show u: "unat (of_nat (length l) :: u8) = length l"
    using assms unat_small by (simp add: label_ok_def)
  show "(of_nat (length l) :: u8) \<noteq> 0"
    using assms u unfolding label_ok_def by (metis less_irrefl unat_0)
  show "\<not> 64 \<le> (of_nat (length l) :: u8)"
    using assms u unfolding label_ok_def word_le_nat_alt by simp
qed

lemma drop_Cons_nth: "drop p b = x # r \<Longrightarrow> p < length b \<and> b ! p = x \<and> drop (Suc p) b = r"
  by (metis Cons_nth_drop_Suc drop_eq_Nil leI list.distinct(1) list.inject)

lemma drop_append_len:
  assumes "drop p b = xs @ r"
  shows "take (length xs) (drop p b) = xs" "drop (p + length xs) b = r" "xs \<noteq> [] \<or> p \<le> length b \<Longrightarrow> p + length xs \<le> length b"
proof -
  show "take (length xs) (drop p b) = xs" using assms by simp
  show "drop (p + length xs) b = r" using assms by (metis add.commute append_eq_conv_conj drop_drop)
  have "length b - p = length xs + length r" using assms by (metis length_append length_drop)
  then show "xs \<noteq> [] \<or> p \<le> length b \<Longrightarrow> p + length xs \<le> length b" by (cases xs) auto
qed

lemma drop_label:
  assumes "drop p b = enc_name (l # ls) @ r" "label_ok l"
  shows "p < length b" "b ! p = of_nat (length l)" "drop (Suc p) b = l @ enc_name ls @ r"
    "take (length l) (drop (Suc p) b) = l" "drop (Suc (p + length l)) b = enc_name ls @ r"
    "Suc (p + length l) < length b"
proof -
  have d: "drop p b = of_nat (length l) # (l @ enc_name ls @ r)"
    using assms by (simp add: enc_name_Cons)
  note c = drop_Cons_nth[OF d]
  show "p < length b" "b ! p = of_nat (length l)" and s: "drop (Suc p) b = l @ enc_name ls @ r"
    using c by auto
  show "take (length l) (drop (Suc p) b) = l" using s by simp
  have "drop (Suc p + length l) b = enc_name ls @ r"
    using drop_append_len(2)[OF s] by simp
  then show e: "drop (Suc (p + length l)) b = enc_name ls @ r" by simp
  have "enc_name ls @ r \<noteq> []" by (simp add: enc_name_def)
  then show "Suc (p + length l) < length b"
    using e by (metis drop_eq_Nil leI)
qed

lemma drop_root:
  assumes "drop p b = enc_name [] @ r"
  shows "p < length b" "b ! p = 0" "drop (Suc p) b = r"
  using drop_Cons_nth[of p b 0 r] assms by (auto simp: enc_name_Nil)

lemma checkQName_loop_enc:
  assumes "list_all label_ok ls" "drop p b = enc_name ls @ r"
  shows "checkQName_loop b p = Some (p + length (enc_name ls))"
  using assms
proof (induction ls arbitrary: p)
  case Nil
  then show ?case
    using drop_root[of p b r] by (subst checkQName_loop.simps) (simp add: enc_name_Nil)
next
  case (Cons l ls)
  then have ok: "label_ok l" "list_all label_ok ls" by auto
  note d = drop_label[OF Cons.prems(2) ok(1)] and lb = label_byte[OF ok(1)]
  have "checkQName_loop b p = checkQName_loop b (Suc (p + length l))"
    using d lb by (subst checkQName_loop.simps) (simp add: Let_def)
  also have "\<dots> = Some (Suc (p + length l) + length (enc_name ls))"
    by (rule Cons.IH[OF ok(2) d(5)])
  finally show ?case by (simp add: enc_name_Cons)
qed

lemma checkQName_loop_some:
  "checkQName_loop b p = Some p' \<Longrightarrow>
    \<exists>ls. list_all label_ok ls \<and> p' = p + length (enc_name ls) \<and> p' \<le> length b \<and>
      drop p b = enc_name ls @ drop p' b"
proof (induction b p rule: checkQName_loop.induct)
  case (1 b p)
  have p: "p < length b" using "1.prems" by (subst (asm) checkQName_loop.simps) (auto split: if_splits)
  show ?case
  proof (cases "b ! p = 0")
    case True
    then have "p' = p + 1" using "1.prems" p by (subst (asm) checkQName_loop.simps) simp
    then show ?thesis using p True Cons_nth_drop_Suc[OF p] by (intro exI[of _ "[]"]) (simp add: enc_name_Nil)
  next
    case False
    let ?n = "unat (b ! p)"
    have c: "\<not> 64 \<le> b ! p" using "1.prems" p False by (subst (asm) checkQName_loop.simps) (auto simp: Let_def split: if_splits)
    then have n: "?n < 64" "0 < ?n" using False by (auto simp: word_le_nat_alt unat_gt_0)
    have r: "checkQName_loop b (p + 1 + ?n) = Some p'"
      using "1.prems" p False c by (subst (asm) checkQName_loop.simps) (simp add: Let_def)
    from "1.IH"[OF _ refl False c r] p obtain ls where ls: "list_all label_ok ls"
      "p' = p + 1 + ?n + length (enc_name ls)" "p' \<le> length b" "drop (p + 1 + ?n) b = enc_name ls @ drop p' b"
      by auto
    let ?l = "take ?n (drop (Suc p) b)"
    have len: "length ?l = ?n" using ls(2,3) by simp
    have "drop p b = b ! p # ?l @ drop (Suc p + ?n) b"
      using p by (metis Cons_nth_drop_Suc append_take_drop_id drop_drop add.commute)
    then have "drop p b = enc_name (?l # ls) @ drop p' b"
      using ls(4) len unfolding enc_name_Cons by simp
    moreover have "label_ok ?l" using n len by (simp add: label_ok_def)
    moreover have "p' = p + length (enc_name (?l # ls))" using ls(2) len by (simp add: enc_name_Cons)
    ultimately show ?thesis using ls(1,3) by (intro exI[of _ "?l # ls"]) simp
  qed
qed

lemma enc_name_inj:
  "list_all label_ok ls \<Longrightarrow> list_all label_ok ls' \<Longrightarrow> enc_name ls @ r = enc_name ls' @ r' \<Longrightarrow> ls = ls' \<and> r = r'"
proof (induction ls arbitrary: ls')
  case Nil
  then show ?case
    using label_byte(2)[of "hd ls'"] by (cases ls') (simp_all add: enc_name_Nil enc_name_Cons)
next
  case (Cons l ls)
  then obtain m ms where m: "ls' = m # ms"
    using label_byte(2)[of l] by (cases ls') (simp_all add: enc_name_Nil enc_name_Cons)
  have ok: "label_ok l" "label_ok m" using Cons.prems m by auto
  have "(of_nat (length l) :: u8) = of_nat (length m)"
    using Cons.prems(3) m by (simp add: enc_name_Cons)
  then have "length l = length m"
    using label_byte(1)[OF ok(1)] label_byte(1)[OF ok(2)] by argo
  then have "l = m" "enc_name ls @ r = enc_name ms @ r'" using Cons.prems(3) m by (auto simp: enc_name_Cons)
  then show ?case using Cons m by auto
qed

subsection \<open>What the loops do on an encoded name\<close>

lemma hashQName_loop_enc:
  assumes "list_all label_ok ls" "drop p b = enc_name ls @ r"
  shows "hashQName_loop b p h = (p + length (enc_name ls), foldl fnv_mix h (concat ls))"
  using assms
proof (induction ls arbitrary: p h)
  case Nil
  then show ?case
    using drop_root[of p b r] by (subst hashQName_loop.simps) (simp add: enc_name_Nil)
next
  case (Cons l ls)
  then have ok: "label_ok l" "list_all label_ok ls" by auto
  note d = drop_label[OF Cons.prems(2) ok(1)] and lb = label_byte[OF ok(1)]
  have "hashQName_loop b p h = hashQName_loop b (Suc (p + length l)) (foldl fnv_mix h l)"
    using d(1,2,4,6) lb by (subst hashQName_loop.simps) (simp add: Let_def)
  also have "\<dots> = (Suc (p + length l) + length (enc_name ls), foldl fnv_mix (foldl fnv_mix h l) (concat ls))"
    by (rule Cons.IH[OF ok(2) d(5)])
  finally show ?case by (simp add: enc_name_Cons)
qed

lemma isEqualDomainName_loop_enc:
  assumes "list_all label_ok ls1" "list_all label_ok ls2"
    and "drop p1 b1 = enc_name ls1 @ r1" "drop p2 b2 = enc_name ls2 @ r2"
  shows "isEqualDomainName_loop b1 b2 p1 p2 =
    (if ls1 = ls2 then Some (p1 + length (enc_name ls1), p2 + length (enc_name ls1)) else None)"
  using assms
proof (induction ls1 arbitrary: ls2 p1 p2)
  case Nil
  note d1 = drop_root[OF Nil.prems(3)]
  show ?case
  proof (cases ls2)
    case Nil
    then show ?thesis using d1 drop_root[of p2 b2 r2] \<open>drop p2 b2 = enc_name ls2 @ r2\<close>
      by (subst isEqualDomainName_loop.simps) (simp add: enc_name_Nil)
  next
    case (Cons m ms)
    then have "label_ok m" using \<open>list_all label_ok ls2\<close> by simp
    then show ?thesis using Cons d1 drop_label[of p2 b2 m ms r2] label_byte(2)[of m] \<open>drop p2 b2 = enc_name ls2 @ r2\<close>
      by (subst isEqualDomainName_loop.simps) (simp add: enc_name_Nil Let_def)
  qed
next
  case (Cons l ls)
  then have ok: "label_ok l" "list_all label_ok ls" by auto
  note d1 = drop_label[OF Cons.prems(3) ok(1)] and lb = label_byte[OF ok(1)]
  show ?case
  proof (cases ls2)
    case Nil
    then show ?thesis using d1(1,2) lb(2) drop_root[of p2 b2 r2] Cons.prems(4)
      by (subst isEqualDomainName_loop.simps) (simp add: Let_def)
  next
    case m: (Cons m ms)
    then have okm: "label_ok m" "list_all label_ok ms" using Cons.prems(2) by auto
    have e2: "drop p2 b2 = enc_name (m # ms) @ r2" using Cons.prems(4) m by simp
    note d2 = drop_label[OF e2 okm(1)] and lm = label_byte[OF okm(1)]
    show ?thesis
    proof (cases "length l = length m")
      case False
      then have "(of_nat (length l) :: u8) \<noteq> of_nat (length m)" using lb(1) lm(1) by metis
      then show ?thesis using False m d1(1,2) d2(1,2) by (subst isEqualDomainName_loop.simps) auto
    next
      case len: True
      have "isEqualDomainName_loop b1 b2 p1 p2 =
        (if l \<noteq> m then None else isEqualDomainName_loop b1 b2 (Suc (p1 + length l)) (Suc (p2 + length l)))"
        using d1(1,2,4,6) d2(1,2,4,6) lb len by (subst isEqualDomainName_loop.simps) (simp add: Let_def)
      also have "isEqualDomainName_loop b1 b2 (Suc (p1 + length l)) (Suc (p2 + length l)) =
        (if ls = ms then Some (Suc (p1 + length l) + length (enc_name ls), Suc (p2 + length l) + length (enc_name ls)) else None)"
        using Cons.IH[OF ok(2) okm(2) d1(5)] d2(5) len by simp
      finally show ?thesis using m by (auto simp: enc_name_Cons)
    qed
  qed
qed

lemma hashBytes_loop_all:
  "0 < n \<Longrightarrow> p \<le> length b \<Longrightarrow> hashBytes_loop b n p h = (length b, foldl fnv_mix h (drop p b))"
proof (induction b n p h rule: hashBytes_loop.induct)
  case (1 b n p h)
  show ?case
  proof (cases "p < length b")
    case True
    then show ?thesis using 1 Cons_nth_drop_Suc[OF True, symmetric]
      by (subst hashBytes_loop.simps) simp
  next
    case False
    then show ?thesis using 1 by (subst hashBytes_loop.simps) simp
  qed
qed

subsection \<open>Questions\<close>

lemma type_len: "t \<in> set cacheable_types \<Longrightarrow> length t = 2"
  by (auto simp: cacheable_types_def)

lemma enc_question_parts:
  assumes "question_ok q" "drop p b = enc_question q @ r"
  shows "drop p b = enc_name (fst q) @ snd q @ [0, 1] @ r"
    "drop (p + length (enc_name (fst q))) b = snd q @ [0, 1] @ r"
    "drop (p + length (enc_name (fst q)) + 2) b = [0, 1] @ r"
    "p + length (enc_question q) \<le> length b" "drop (p + length (enc_question q)) b = r"
    "length (enc_question q) = length (enc_name (fst q)) + 4"
proof -
  show a: "drop p b = enc_name (fst q) @ snd q @ [0, 1] @ r" using assms by (simp add: enc_question_def)
  show c: "drop (p + length (enc_name (fst q))) b = snd q @ [0, 1] @ r" by (rule drop_append_len(2)[OF a])
  have "length (snd q) = 2" using assms(1) type_len by (simp add: question_ok_def)
  then show "drop (p + length (enc_name (fst q)) + 2) b = [0, 1] @ r"
    "length (enc_question q) = length (enc_name (fst q)) + 4"
    using drop_append_len(2)[OF c] by (simp_all add: enc_question_def)
  show "p + length (enc_question q) \<le> length b" "drop (p + length (enc_question q)) b = r"
    using drop_append_len(2,3)[OF assms(2)] by (auto simp: enc_question_def enc_name_def)
qed

lemma drop_take_two: "drop p b = take 2 (drop p b) @ take 2 (drop (p + 2) b) @ drop (p + 4) b"
proof -
  have "drop (p + 4) b = drop 2 (drop (p + 2) b)" and "drop (p + 2) b = drop 2 (drop p b)"
    by (simp_all add: add.commute numeral_eq_Suc)
  then show ?thesis by (metis append_take_drop_id)
qed

lemma checkBytes_any_iff:
  "checkBytes_any pk n ts =
    (if cursor pk + n \<le> pend pk \<and> take n (drop (cursor pk) (base pk)) \<in> set (map (take n) ts)
     then (True, pk\<lparr>cursor := cursor pk + n\<rparr>) else (False, pk))"
  by (induction ts) (auto simp: dnsPacket_checkBytes_def Let_def)

lemma cacheable_types_code:
  "set (map (take 2) [DNS_TYPE_A, DNS_TYPE_PTR, DNS_TYPE_MX, DNS_TYPE_AAAA, DNS_TYPE_ALL]) = set cacheable_types"
  by (simp add: DNS_TYPE_A_def DNS_TYPE_PTR_def DNS_TYPE_MX_def DNS_TYPE_AAAA_def DNS_TYPE_ALL_def
      cacheable_types_def)

text \<open>\<open>_dnsPacket_checkQR\<close> accepts exactly an encoded question at the cursor, and steps over it.\<close>

lemma checkQR_enc:
  assumes "question_ok q" "drop (cursor pk) (base pk) = enc_question q @ r"
  shows "dnsPacket_checkQR pk = (True, pk\<lparr>cursor := cursor pk + length (enc_question q)\<rparr>)"
proof -
  note e = enc_question_parts[OF assms]
  have ls: "list_all label_ok (fst q)" "length (snd q) = 2" "snd q \<in> set cacheable_types"
    using assms(1) type_len by (auto simp: question_ok_def)
  have 1: "dnsPacket_checkQName pk = (True, pk\<lparr>cursor := cursor pk + length (enc_name (fst q))\<rparr>)"
    unfolding dnsPacket_checkQName_def checkQName_loop_enc[OF ls(1) e(1)] by simp
  have t: "take 2 (drop (cursor pk + length (enc_name (fst q))) (base pk)) = snd q"
    using e(2) ls(2) by simp
  have 2: "cursor pk + length (enc_name (fst q)) + 4 \<le> length (base pk)" using e(4,6) by simp
  have c: "take 2 (drop (cursor pk + length (enc_name (fst q)) + 2) (base pk)) = [0, 1]"
    using e(3) by simp
  show ?thesis
    unfolding dnsPacket_checkQR_def 1 prod.case bool.case checkBytes_any_iff cacheable_types_code
    using ls(3) t c 2 e(6)
    by (simp add: pend_def dnsPacket_checkBytes_def DNS_CLASS_IN_def Let_def numeral_eq_Suc)
qed

lemma checkQR_some:
  assumes "dnsPacket_checkQR pk = (True, pk')"
  shows "\<exists>q r. question_ok q \<and> drop (cursor pk) (base pk) = enc_question q @ r"
proof -
  obtain pk1 where 1: "dnsPacket_checkQName pk = (True, pk1)"
    using assms by (auto simp: dnsPacket_checkQR_def split: prod.splits bool.splits)
  then obtain p where p: "checkQName_loop (base pk) (cursor pk) = Some p" "pk1 = pk\<lparr>cursor := p\<rparr>"
    by (auto simp: dnsPacket_checkQName_def split: option.splits)
  from checkQName_loop_some[OF p(1)] obtain ls where ls: "list_all label_ok ls"
    "drop (cursor pk) (base pk) = enc_name ls @ drop p (base pk)" "p \<le> length (base pk)" by auto
  let ?t = "take 2 (drop p (base pk))" and ?c = "take 2 (drop (p + 2) (base pk))"
  have "?t \<in> set cacheable_types \<and> ?c = [0, 1]"
    using assms 1 p unfolding dnsPacket_checkQR_def checkBytes_any_iff cacheable_types_code
    by (auto simp: dnsPacket_checkBytes_def DNS_CLASS_IN_def Let_def numeral_eq_Suc split: if_splits prod.splits bool.splits)
  moreover have "drop p (base pk) = ?t @ ?c @ drop (p + 4) (base pk)"
    by (rule drop_take_two)
  ultimately have "question_ok (ls, ?t) \<and> drop (cursor pk) (base pk) = enc_question (ls, ?t) @ drop (p + 4) (base pk)"
    using ls by (simp add: question_ok_def enc_question_def)
  then show ?thesis by blast
qed

abbreviation enc_questions :: "question list \<Rightarrow> u8 list" where
  "enc_questions qs \<equiv> concat (map enc_question qs)"

lemma checkQRs_enc:
  "list_all question_ok qs \<Longrightarrow> drop (cursor pk) (base pk) = enc_questions qs @ r \<Longrightarrow>
    checkQRs (length qs) pk = (True, pk\<lparr>cursor := cursor pk + length (enc_questions qs)\<rparr>)"
proof (induction qs arbitrary: pk)
  case Nil
  then show ?case by simp
next
  case (Cons q qs)
  have q: "question_ok q" "drop (cursor pk) (base pk) = enc_question q @ enc_questions qs @ r"
    using Cons.prems by auto
  let ?pk = "pk\<lparr>cursor := cursor pk + length (enc_question q)\<rparr>"
  have "checkQRs (length qs) ?pk = (True, ?pk\<lparr>cursor := cursor ?pk + length (enc_questions qs)\<rparr>)"
    using Cons.IH[of ?pk] Cons.prems(1) enc_question_parts(5)[OF q] by simp
  then show ?case by (simp add: checkQR_enc[OF q] add.assoc)
qed

lemma checkQRs_some:
  "checkQRs n pk = (True, pk') \<Longrightarrow>
    \<exists>qs r. list_all question_ok qs \<and> length qs = n \<and> drop (cursor pk) (base pk) = enc_questions qs @ r"
proof (induction n arbitrary: pk)
  case 0
  show ?case by (rule exI[of _ "[]"]) simp
next
  case (Suc n)
  then obtain pk1 where 1: "dnsPacket_checkQR pk = (True, pk1)" "checkQRs n pk1 = (True, pk')"
    by (auto split: prod.splits bool.splits)
  from checkQR_some[OF 1(1)] obtain q r where q: "question_ok q" "drop (cursor pk) (base pk) = enc_question q @ r"
    by blast
  then have "pk1 = pk\<lparr>cursor := cursor pk + length (enc_question q)\<rparr>"
    using 1(1) checkQR_enc[OF q] by simp
  then obtain qs r' where "list_all question_ok qs" "length qs = n" "r = enc_questions qs @ r'"
    using Suc.IH[OF 1(2)] enc_question_parts(5)[OF q] by auto
  then show ?case using q by (intro exI[of _ "q # qs"]) auto
qed

subsection \<open>Whole queries\<close>

lemma be16_eq: "be16 a b = uint a * 256 + uint b"
proof -
  have "push_bit 8 (uint a) AND uint b = 0"
  proof (rule bit_eqI)
    fix n :: nat
    have "bit (uint b) n \<Longrightarrow> n < 8" using bit_imp_le_length[of b n] by (simp add: bit_uint_iff)
    then show "bit (push_bit 8 (uint a) AND uint b) n \<longleftrightarrow> bit (0 :: int) n"
      by (auto simp: bit_and_iff bit_push_bit_iff)
  qed
  then have "push_bit 8 (uint a) OR uint b = push_bit 8 (uint a) + uint b"
    by (rule disjunctive_add_eq_or[symmetric])
  then show ?thesis by (simp add: be16_def push_bit_eq_mult)
qed

lemma be16_range: "0 \<le> be16 a b" "be16 a b < 65536"
  using uint_bounded[of a] uint_bounded[of b] by (auto simp: be16_eq)

lemma be16_zero: "be16 a b = 0 \<longleftrightarrow> a = 0 \<and> b = 0"
proof -
  have "0 \<le> uint a" "0 \<le> uint b" by simp_all
  then show ?thesis unfolding be16_eq by (metis add_nonneg_eq_0_iff mult_eq_0_iff mult_nonneg_nonneg
        uint_0_iff zero_le_numeral zero_neq_numeral)
qed

lemma uint_byte: "uint (of_nat n :: u8) = int n mod 256"
  by (simp add: unsigned_of_nat take_bit_eq_mod zmod_int)

lemma be16_count: "n < 65536 \<Longrightarrow> be16 (of_nat (n div 256)) (of_nat n) = int n"
  unfolding be16_eq uint_byte zdiv_int by simp

lemma be16_bytes:
  assumes "nat (be16 a b) = n"
  shows "a = of_nat (n div 256)" "b = of_nat n"
proof -
  have "int n = be16 a b" using assms be16_range(1)[of a b] by simp
  then have n: "int n = uint a * 256 + uint b" by (simp add: be16_eq)
  have r: "uint b < 256" "0 \<le> uint b" "uint a < 256" "0 \<le> uint a"
    using uint_bounded[of a] uint_bounded[of b] by auto
  have "int (n div 256) = uint a" "int n mod 256 = uint b" using n r by (auto simp: zdiv_int)
  then show "a = of_nat (n div 256)" "b = of_nat n"
    unfolding word_uint_eq_iff uint_byte using r by simp_all
qed

lemma enc_query_bytes:
  "drop 12 (enc_query i1 i2 fl qs tr) = enc_questions qs @ tr"
  "enc_query i1 i2 fl qs tr ! 2 = fl" "enc_query i1 i2 fl qs tr ! 3 = 0"
  "enc_query i1 i2 fl qs tr ! 4 = of_nat (length qs div 256)" "enc_query i1 i2 fl qs tr ! 5 = of_nat (length qs)"
  "enc_query i1 i2 fl qs tr ! 6 = 0" "enc_query i1 i2 fl qs tr ! 7 = 0" "enc_query i1 i2 fl qs tr ! 8 = 0"
  "enc_query i1 i2 fl qs tr ! 9 = 0" "enc_query i1 i2 fl qs tr ! 10 = 0" "enc_query i1 i2 fl qs tr ! 11 = 0"
  "length (enc_query i1 i2 fl qs tr) = 12 + length (enc_questions qs) + length tr"
  by (simp_all add: enc_query_def)

lemma checkQuery_enc:
  assumes "query_ok fl qs"
  shows "dnsPacket_checkQuery (dnsPacket_init (enc_query i1 i2 fl qs tr)) =
    (True, \<lparr>base = enc_query i1 i2 fl qs tr, cursor = 12 + length (enc_questions qs)\<rparr>)"
proof -
  let ?b = "enc_query i1 i2 fl qs tr"
  have ok: "fl AND 0xFC = 0" "qs \<noteq> []" "length qs < 65536" "list_all question_ok qs"
    using assms by (auto simp: query_ok_def)
  have z: "be16 0 0 = 0" by (simp add: be16_zero)
  have "checkQRs (length qs) \<lparr>base = ?b, cursor = 12\<rparr> =
      (True, \<lparr>base = ?b, cursor = 12 + length (enc_questions qs)\<rparr>)"
    using checkQRs_enc[OF ok(4), of "\<lparr>base = ?b, cursor = 12\<rparr>" tr] enc_query_bytes(1) by simp
  then show ?thesis
    unfolding dnsPacket_checkQuery_def dnsPacket_init_def Let_def
    using ok(1,2) by (simp add: enc_query_bytes z be16_count[OF ok(3)] pend_def DNS_HEADER_SIZE_def)
qed

lemma header_list:
  assumes "12 \<le> length b"
  shows "b = [b!0, b!1, b!2, b!3, b!4, b!5, b!6, b!7, b!8, b!9, b!10, b!11] @ drop 12 b"
proof -
  have "take 12 b = [b!0, b!1, b!2, b!3, b!4, b!5, b!6, b!7, b!8, b!9, b!10, b!11]"
    using assms by (intro nth_equalityI) (auto simp: less_Suc_eq numeral_eq_Suc)
  then show ?thesis by (metis append_take_drop_id)
qed

lemma checkQuery_true:
  assumes "fst (dnsPacket_checkQuery (dnsPacket_init b))"
  shows "\<exists>i1 i2 fl qs tr. query_ok fl qs \<and> b = enc_query i1 i2 fl qs tr"
proof -
  let ?n = "nat (be16 (b ! 4) (b ! 5))"
  have h: "12 \<le> length b" "b ! 2 AND 0xFC = 0" "b ! 3 = 0" "be16 (b ! 6) (b ! 7) = 0"
    "be16 (b ! 8) (b ! 9) = 0" "be16 (b ! 10) (b ! 11) = 0" "be16 (b ! 4) (b ! 5) \<noteq> 0"
    and q: "fst (checkQRs ?n \<lparr>base = b, cursor = 12\<rparr>)"
    using assms by (auto simp: dnsPacket_checkQuery_def dnsPacket_init_def Let_def pend_def DNS_HEADER_SIZE_def
        split: if_splits)
  from q obtain pk' where "checkQRs ?n \<lparr>base = b, cursor = 12\<rparr> = (True, pk')"
    by (metis (full_types) prod.collapse)
  from checkQRs_some[OF this] obtain qs r where
    qs: "list_all question_ok qs" "length qs = ?n" "drop 12 b = enc_questions qs @ r" by auto
  have n: "b ! 4 = of_nat (length qs div 256)" "b ! 5 = of_nat (length qs)"
    using be16_bytes[OF qs(2)[symmetric]] by auto
  have z: "b ! 6 = 0" "b ! 7 = 0" "b ! 8 = 0" "b ! 9 = 0" "b ! 10 = 0" "b ! 11 = 0"
    using h(4-6) by (auto simp: be16_zero)
  have "length qs \<noteq> 0" "length qs < 65536"
    using h(7) qs(2) be16_range[of "b ! 4" "b ! 5"] by auto
  then have "query_ok (b ! 2) qs" using h(2) qs(1) by (simp add: query_ok_def)
  moreover have "b = enc_query (b ! 0) (b ! 1) (b ! 2) qs r"
    using header_list[OF h(1)] unfolding enc_query_def n[symmetric] qs(3)[symmetric] h(3) z by simp
  ultimately show ?thesis by blast
qed

text \<open>
  A checked query: what the cache accepts as a key.
\<close>

definition cacheable :: "u8 list \<Rightarrow> bool" where
  "cacheable b \<longleftrightarrow> fst (dnsPacket_checkQuery (dnsPacket_init b))"

lemma cacheableE:
  assumes "cacheable b"
  obtains i1 i2 fl qs tr where "query_ok fl qs" "b = enc_query i1 i2 fl qs tr"
  using checkQuery_true assms unfolding cacheable_def by blast

lemma cacheable_enc: "query_ok fl qs \<Longrightarrow> cacheable (enc_query i1 i2 fl qs tr)"
  by (simp add: cacheable_def checkQuery_enc)

subsection \<open>Comparison and hash of checked queries\<close>

lemma isEqualQR_enc:
  assumes "question_ok q1" "question_ok q2"
    and "drop (cursor a) (base a) = enc_question q1 @ r1" "drop (cursor b) (base b) = enc_question q2 @ r2"
  shows "fst (dnsPacket_isEqualQR a b) \<longleftrightarrow> q1 = q2"
    and "q1 = q2 \<Longrightarrow> dnsPacket_isEqualQR a b =
      (True, a\<lparr>cursor := cursor a + length (enc_question q1)\<rparr>, b\<lparr>cursor := cursor b + length (enc_question q1)\<rparr>)"
proof -
  note e1 = enc_question_parts[OF assms(1,3)] and e2 = enc_question_parts[OF assms(2,4)]
  have ok: "list_all label_ok (fst q1)" "list_all label_ok (fst q2)" "length (snd q1) = 2" "length (snd q2) = 2"
    using assms(1,2) type_len by (auto simp: question_ok_def)
  note dn = isEqualDomainName_loop_enc[OF ok(1,2) e1(1) e2(1)]
  have t1: "take 4 (drop (cursor a + length (enc_name (fst q1))) (base a)) = snd q1 @ [0, 1]"
    using e1(2) ok(3) by simp
  have t2: "take 4 (drop (cursor b + length (enc_name (fst q2))) (base b)) = snd q2 @ [0, 1]"
    using e2(2) ok(4) by simp
  have b1: "cursor a + length (enc_name (fst q1)) + 4 \<le> length (base a)" using e1(4,6) by simp
  have b2: "cursor b + length (enc_name (fst q2)) + 4 \<le> length (base b)" using e2(4,6) by simp
  have *: "dnsPacket_isEqualQR a b =
    (if fst q1 = fst q2 then
       if snd q1 = snd q2 then (True, a\<lparr>cursor := cursor a + length (enc_question q1)\<rparr>, b\<lparr>cursor := cursor b + length (enc_question q1)\<rparr>)
       else (False, a\<lparr>cursor := cursor a + length (enc_name (fst q1))\<rparr>, b\<lparr>cursor := cursor b + length (enc_name (fst q1))\<rparr>)
     else (False, a, b))"
    unfolding dnsPacket_isEqualQR_def dnsPacket_isEqualDomainName_def dn dnsPacket_isEqualBytes_def pend_def Let_def
    using t1 t2 b1 b2 e1(6) by (cases "fst q1 = fst q2"; cases "snd q1 = snd q2") simp_all
  show "fst (dnsPacket_isEqualQR a b) \<longleftrightarrow> q1 = q2"
    unfolding * by (auto simp: prod_eq_iff)
  show "q1 = q2 \<Longrightarrow> dnsPacket_isEqualQR a b =
      (True, a\<lparr>cursor := cursor a + length (enc_question q1)\<rparr>, b\<lparr>cursor := cursor b + length (enc_question q1)\<rparr>)"
    unfolding * by simp
qed

lemma isEqualQRs_enc:
  "list_all question_ok qs1 \<Longrightarrow> list_all question_ok qs2 \<Longrightarrow> length qs1 = length qs2 \<Longrightarrow>
    drop (cursor a) (base a) = enc_questions qs1 @ r1 \<Longrightarrow> drop (cursor b) (base b) = enc_questions qs2 @ r2 \<Longrightarrow>
    fst (isEqualQRs (length qs1) a b) \<longleftrightarrow> qs1 = qs2"
proof (induction qs1 arbitrary: qs2 a b)
  case Nil
  then show ?case by simp
next
  case (Cons q qs)
  then obtain q' qs' where q': "qs2 = q' # qs'" by (cases qs2) auto
  have ok: "question_ok q" "question_ok q'"
    and a: "drop (cursor a) (base a) = enc_question q @ enc_questions qs @ r1"
    and b: "drop (cursor b) (base b) = enc_question q' @ enc_questions qs' @ r2"
    using Cons.prems q' by auto
  note eq = isEqualQR_enc[OF ok a b]
  show ?case
  proof (cases "q = q'")
    case True
    let ?a = "a\<lparr>cursor := cursor a + length (enc_question q)\<rparr>" and ?b = "b\<lparr>cursor := cursor b + length (enc_question q)\<rparr>"
    have "fst (isEqualQRs (length qs) ?a ?b) \<longleftrightarrow> qs = qs'"
      by (rule Cons.IH) (use Cons.prems q' True enc_question_parts(5)[OF ok(1) a] enc_question_parts(5)[OF ok(2) b] in auto)
    then show ?thesis using True q' eq(2) by simp
  next
    case False
    then have "\<not> fst (dnsPacket_isEqualQR a b)" using eq(1) by simp
    then show ?thesis using q' False by (cases "dnsPacket_isEqualQR a b") auto
  qed
qed

lemma query_header:
  fixes i1 i2 fl qs tr
  defines "b \<equiv> enc_query i1 i2 fl qs tr"
  assumes "query_ok fl qs"
  shows "dnsPacket_rewind (dnsPacket_init b) = \<lparr>base = b, cursor = 0\<rparr>" "2 < length b"
    "dnsPacket_skip \<lparr>base = b, cursor = 0\<rparr> 4 = \<lparr>base = b, cursor = 4\<rparr>"
    "dnsPacket_readInt16 \<lparr>base = b, cursor = 4\<rparr> = (int (length qs), \<lparr>base = b, cursor = 6\<rparr>)"
    "dnsPacket_skip \<lparr>base = b, cursor = 6\<rparr> 6 = \<lparr>base = b, cursor = 12\<rparr>"
proof -
  have len: "12 \<le> length b" by (simp add: b_def enc_query_bytes)
  show "dnsPacket_rewind (dnsPacket_init b) = \<lparr>base = b, cursor = 0\<rparr>" "2 < length b"
    "dnsPacket_skip \<lparr>base = b, cursor = 0\<rparr> 4 = \<lparr>base = b, cursor = 4\<rparr>"
    "dnsPacket_skip \<lparr>base = b, cursor = 6\<rparr> 6 = \<lparr>base = b, cursor = 12\<rparr>"
    using len by (simp_all add: dnsPacket_rewind_def dnsPacket_init_def dnsPacket_skip_def pend_def)
  have "length qs < 65536" using assms(2) by (simp add: query_ok_def)
  then show "dnsPacket_readInt16 \<lparr>base = b, cursor = 4\<rparr> = (int (length qs), \<lparr>base = b, cursor = 6\<rparr>)"
    using len be16_count by (simp add: dnsPacket_readInt16_def pend_def b_def enc_query_bytes)
qed

definition queries_equal :: "u8 list \<Rightarrow> u8 list \<Rightarrow> bool option" where
  "queries_equal b1 b2 =
    map_option fst (dnsPacket_isEqualQuery (dnsPacket_init b1) (dnsPacket_init b2))"

lemma isEqualQuery_enc:
  assumes "query_ok fl1 qs1" "query_ok fl2 qs2"
  shows "queries_equal (enc_query i1 i2 fl1 qs1 tr1) (enc_query j1 j2 fl2 qs2 tr2) =
    Some (fl1 AND 1 = fl2 AND 1 \<and> qs1 = qs2)"
proof -
  let ?b1 = "enc_query i1 i2 fl1 qs1 tr1" and ?b2 = "enc_query j1 j2 fl2 qs2 tr2"
  have ok: "list_all question_ok qs1" "list_all question_ok qs2" using assms by (auto simp: query_ok_def)
  note h1 = query_header[OF assms(1), of i1 i2 tr1] and h2 = query_header[OF assms(2), of j1 j2 tr2]
  have "length qs1 = length qs2 \<Longrightarrow>
    fst (isEqualQRs (length qs1) \<lparr>base = ?b1, cursor = 12\<rparr> \<lparr>base = ?b2, cursor = 12\<rparr>) \<longleftrightarrow> qs1 = qs2"
    by (rule isEqualQRs_enc[OF ok]) (simp_all add: enc_query_bytes(1))
  then show ?thesis
    unfolding queries_equal_def map_option_case dnsPacket_isEqualQuery_def h1(1) h2(1) Let_def pend_def
    using h1(2) h2(2) by (auto simp: h1(3-5) h2(3-5) enc_query_bytes(2))
qed

text \<open>The hash: the flag, the labels of the first question, then every byte up to the end.\<close>

lemma hashQRs_at_end:
  "hashQRs n \<lparr>base = b, cursor = length b\<rparr> h = (h, \<lparr>base = b, cursor = length b\<rparr>)"
proof (induction n)
  case (Suc n)
  have "hashQName_loop b (length b) h = (length b, h)" by (subst hashQName_loop.simps) simp
  moreover have "hashBytes_loop b 4 (length b) h = (length b, h)" by (subst hashBytes_loop.simps) simp
  ultimately show ?case using Suc
    by (simp add: dnsPacket_hashQR_def dnsPacket_hashQName_def dnsPacket_hashBytes_def)
qed simp

definition query_hash :: "u8 list \<Rightarrow> u32 option" where
  "query_hash b = map_option fst (dnsPacket_hashQuery (dnsPacket_init b))"

lemma query_hash_enc:
  assumes "query_ok fl (q # qs)"
  shows "query_hash (enc_query i1 i2 fl (q # qs) tr) =
    Some (foldl fnv_mix FNV_BASIS ((fl AND 1) # concat (fst q) @ snd q @ [0, 1] @ enc_questions qs @ tr))"
proof -
  let ?b = "enc_query i1 i2 fl (q # qs) tr"
  note h = query_header[OF assms, of i1 i2 tr]
  have q: "question_ok q" "list_all label_ok (fst q)" using assms by (auto simp: query_ok_def question_ok_def)
  have d: "drop 12 ?b = enc_question q @ enc_questions qs @ tr" by (simp add: enc_query_bytes(1))
  note e = enc_question_parts[OF q(1) d]
  have 1: "hashQName_loop ?b 12 g = (12 + length (enc_name (fst q)), foldl fnv_mix g (concat (fst q)))" for g
    by (rule hashQName_loop_enc[OF q(2) e(1)])
  have 2: "hashBytes_loop ?b 4 (12 + length (enc_name (fst q))) g =
      (length ?b, foldl fnv_mix g (snd q @ [0, 1] @ enc_questions qs @ tr))" for g
    using hashBytes_loop_all[of 4 "12 + length (enc_name (fst q))" ?b g] e(2,4,6) by simp
  have n: "nat (1 + int (length qs)) = Suc (length qs)" by simp
  show ?thesis
    unfolding query_hash_def dnsPacket_hashQuery_def h(1) Let_def pend_def
    using h(2) by (simp add: n h(3-5) enc_query_bytes(2) dnsPacket_hashQR_def dnsPacket_hashQName_def
        dnsPacket_hashBytes_def 1 2 hashQRs_at_end)
qed

lemma query_hash_total: "cacheable b \<Longrightarrow> \<exists>h. query_hash b = Some h"
proof (elim cacheableE)
  fix i1 i2 fl qs tr assume "query_ok fl qs" "b = enc_query i1 i2 fl qs tr"
  then show "\<exists>h. query_hash b = Some h" using query_hash_enc by (cases qs) (auto simp: query_ok_def)
qed

lemma queries_equal_total: "cacheable a \<Longrightarrow> cacheable b \<Longrightarrow> \<exists>v. queries_equal a b = Some v"
  by (elim cacheableE) (use isEqualQuery_enc in blast)

lemma queries_equal_refl: "cacheable a \<Longrightarrow> queries_equal a a = Some True"
  by (elim cacheableE) (simp add: isEqualQuery_enc)

lemma queries_equal_sym: "cacheable a \<Longrightarrow> cacheable b \<Longrightarrow> queries_equal a b = queries_equal b a"
  by (elim cacheableE) (auto simp: isEqualQuery_enc)

lemma queries_equal_trans:
  "cacheable a \<Longrightarrow> cacheable b \<Longrightarrow> cacheable c \<Longrightarrow> queries_equal a b = Some True \<Longrightarrow>
    queries_equal b c = Some True \<Longrightarrow> queries_equal a c = Some True"
  by (elim cacheableE) (simp add: isEqualQuery_enc)

section \<open>Properties\<close>


text \<open>
  C18. On packets the check accepts, \<open>_dnsPacket_isEqualQuery\<close> reads in bounds and returns 1
  exactly when the RD bits and the lists of questions are the same: identifiers, the TC bit and
  bytes after the questions do not count.
\<close>

theorem isEqualQuery_exact:
  assumes "query_ok fl1 qs1" "query_ok fl2 qs2"
  shows "\<exists>a b. dnsPacket_isEqualQuery (dnsPacket_init (enc_query i1 i2 fl1 qs1 tr1))
      (dnsPacket_init (enc_query j1 j2 fl2 qs2 tr2)) = Some (fl1 AND 1 = fl2 AND 1 \<and> qs1 = qs2, a, b)"
  using isEqualQuery_enc[OF assms, of i1 i2 tr1 j1 j2 tr2] unfolding queries_equal_def by auto

theorem isEqualQuery_exact_witness:
  "\<exists>a b. dnsPacket_isEqualQuery
      (dnsPacket_init (enc_query 1 2 1 [([[119, 119], [97]], [0, 28]), ([], [0, 1])] [5]))
      (dnsPacket_init (enc_query 3 4 3 [([[119, 119], [97]], [0, 28]), ([], [0, 1])] [6, 7])) = Some (True, a, b)"
proof -
  have "query_ok 1 [([[119, 119], [97]], [0, 28]), ([], [0, 1])]" "query_ok 3 [([[119, 119], [97]], [0, 28]), ([], [0, 1])]"
    by (simp_all add: query_ok_def question_ok_def label_ok_def cacheable_types_def)
  from isEqualQuery_exact[OF this, of 1 2 "[5]" 3 4 "[6, 7]"] show ?thesis by simp
qed

text \<open>
  Two accepted queries of the same length that compare equal have the same hash if nothing
  follows the questions of the first one, that is, if the check consumed it entirely.
\<close>

theorem equal_queries_same_hash:
  assumes "dnsPacket_checkQuery (dnsPacket_init b1) = (True, pk1)" "cursor pk1 = length b1"
    and "fst (dnsPacket_checkQuery (dnsPacket_init b2))" "length b1 = length b2"
    and "dnsPacket_isEqualQuery (dnsPacket_init b1) (dnsPacket_init b2) = Some (True, x, y)"
  shows "\<exists>h p1 p2. dnsPacket_hashQuery (dnsPacket_init b1) = Some (h, p1) \<and>
    dnsPacket_hashQuery (dnsPacket_init b2) = Some (h, p2)"
proof -
  from assms(1) have c1: "cacheable b1" by (simp add: cacheable_def)
  from assms(3) have c2: "cacheable b2" by (simp add: cacheable_def)
  from c1 obtain i1 i2 fl1 qs1 tr1 where 1: "query_ok fl1 qs1" "b1 = enc_query i1 i2 fl1 qs1 tr1"
    by (rule cacheableE)
  from c2 obtain j1 j2 fl2 qs2 tr2 where 2: "query_ok fl2 qs2" "b2 = enc_query j1 j2 fl2 qs2 tr2"
    by (rule cacheableE)
  have "pk1 = \<lparr>base = b1, cursor = 12 + length (enc_questions qs1)\<rparr>"
    using assms(1) checkQuery_enc[OF 1(1), of i1 i2 tr1] 1(2) by simp
  then have t1: "tr1 = []" using assms(2) 1(2) by (simp add: enc_query_bytes)
  have "queries_equal b1 b2 = Some True" using assms(5) by (simp add: queries_equal_def)
  then have eq: "fl1 AND 1 = fl2 AND 1" "qs1 = qs2"
    unfolding 1(2) 2(2) isEqualQuery_enc[OF 1(1) 2(1)] by auto
  have t2: "tr2 = []" using assms(4) 1(2) 2(2) t1 eq(2) by (simp add: enc_query_bytes)
  obtain q qs where q: "qs1 = q # qs" using 1(1) by (cases qs1) (auto simp: query_ok_def)
  have "query_hash b1 = query_hash b2"
    using query_hash_enc[of fl1 q qs i1 i2 "[]"] query_hash_enc[of fl2 q qs j1 j2 "[]"] 1 2 t1 t2 eq q by simp
  then show ?thesis using query_hash_total[OF c1] unfolding query_hash_def by auto
qed

theorem equal_queries_same_hash_witness:
  "\<exists>h p1 p2. dnsPacket_hashQuery (dnsPacket_init (enc_query 1 2 1 [([[97]], [0, 1])] [])) = Some (h, p1) \<and>
    dnsPacket_hashQuery (dnsPacket_init (enc_query 9 9 3 [([[97]], [0, 1])] [])) = Some (h, p2)"
proof -
  let ?q = "[([[97]], [0, 1])] :: question list"
  have ok: "query_ok 1 ?q" "query_ok 3 ?q"
    by (simp_all add: query_ok_def question_ok_def label_ok_def cacheable_types_def)
  obtain x y where "dnsPacket_isEqualQuery (dnsPacket_init (enc_query 1 2 1 ?q [])) (dnsPacket_init (enc_query 9 9 3 ?q [])) =
      Some (True, x, y)"
    using isEqualQuery_enc[OF ok, of 1 2 "[]" 9 9 "[]"] unfolding queries_equal_def by auto
  from equal_queries_same_hash[OF checkQuery_enc[OF ok(1)] _ _ _ this]
  show ?thesis using checkQuery_enc[OF ok(2), of 9 9 "[]"] by (simp add: enc_query_bytes)
qed

text \<open>
  The hash of a query covers the bytes that follow its questions, because the loop of
  \<open>_dnsPacket_hashBytes\<close> runs to the end of the packet whatever \<open>numBytes\<close> is: two accepted queries
  of the same length that compare equal can have different hashes, and then one does not find
  the entry of the other.
\<close>

theorem equal_queries_other_hash:
  "\<exists>b1 b2 h1 h2. cacheable b1 \<and> cacheable b2 \<and> length b1 = length b2 \<and> queries_equal b1 b2 = Some True \<and>
    query_hash b1 = Some h1 \<and> query_hash b2 = Some h2 \<and> h1 \<noteq> h2"
proof -
  let ?q = "[([], [0, 1])] :: question list"
  let ?b1 = "enc_query 0 0 1 ?q [0]" and ?b2 = "enc_query 0 0 1 ?q [1]"
  have ok: "query_ok 1 ?q" by (simp add: query_ok_def question_ok_def cacheable_types_def)
  have "queries_equal ?b1 ?b2 = Some True" using isEqualQuery_enc[OF ok ok] by simp
  moreover have "length ?b1 = length ?b2" by (simp add: enc_query_bytes)
  moreover obtain h1 h2 where "query_hash ?b1 = Some h1" "query_hash ?b2 = Some h2" "h1 \<noteq> h2"
    using query_hash_enc[OF ok, of 0 0 "[0]"] query_hash_enc[OF ok, of 0 0 "[1]"]
    by (simp add: fnv_mix_def FNV_BASIS_def FNV_MULT_def)
  ultimately show ?thesis using cacheable_enc[OF ok] by blast
qed

end
