(* ===== verification/Ns_Name.thy ===== *)
theory Ns_Name
  imports Bionic_Prelude
begin

text \<open>
  Domain names in messages, \<open>netbsd/nameser/ns_name.c\<close> and the wrappers of
  \<open>netbsd/resolv/res_comp.c\<close>: the length of a label, the expansion of a compressed name, its
  printed form, and the function that steps over a name. A message is the list of its bytes and
  pointers into it are offsets, so that \<open>eom\<close> is its length. A result is \<open>None\<close> when the code
  reads or writes outside a buffer, \<open>Some (Inl e)\<close> when it returns -1 with \<open>errno\<close> set to \<open>e\<close>,
  and \<open>Some (Inr r)\<close> otherwise. Plain \<open>char\<close> is unsigned, as it is for the ARM targets.
\<close>

type_synonym 'a res = "(int + 'a) option"

abbreviation (input) EMSGSIZE :: int where "EMSGSIZE \<equiv> 90"

section \<open>Labels\<close>

definition NS_MAXCDNAME :: nat where "NS_MAXCDNAME = 255"

definition NS_CMPRSFLGS :: u8 where "NS_CMPRSFLGS = 0xc0"

definition NS_TYPE_ELT :: u8 where "NS_TYPE_ELT = 0x40"

definition DNS_LABELTYPE_BITSTRING :: u8 where "DNS_LABELTYPE_BITSTRING = 0x41"

definition labellen :: "u8 list \<Rightarrow> nat \<Rightarrow> int option" where
  "labellen b lp =
    (case rd b lp of
      None \<Rightarrow> None
    | Some l \<Rightarrow>
      if l AND NS_CMPRSFLGS = NS_CMPRSFLGS then Some (- 1)
      else if l AND NS_CMPRSFLGS = NS_TYPE_ELT then
        if l = DNS_LABELTYPE_BITSTRING then
          (case rd b (lp + 1) of
            None \<Rightarrow> None
          | Some bl \<Rightarrow> let bitlen = (if bl = 0 then 256 else uint bl) in Some ((bitlen + 7) div 8 + 1))
        else Some (- 1)
      else Some (uint l))"

definition special :: "u8 \<Rightarrow> bool" where
  "special ch \<longleftrightarrow> ch \<in> set [0x22, 0x2E, 0x3B, 0x5C, 0x28, 0x29, 0x40, 0x24]"

definition printable :: "u8 \<Rightarrow> bool" where
  "printable ch \<longleftrightarrow> 0x20 < ch \<and> ch < 0x7f"

section \<open>Expanding a compressed name\<close>

text \<open>
  The loop of \<open>ns_name_unpack\<close>. \<open>dst\<close> is what has been written, so that \<open>dstp\<close> is its length and
  \<open>dstlim\<close> is \<open>dstsiz\<close>; \<open>len\<close> is \<open>None\<close> as long as the variable of the code is -1.
\<close>

function unpack_loop ::
  "u8 list \<Rightarrow> nat \<Rightarrow> nat \<Rightarrow> nat \<Rightarrow> nat \<Rightarrow> u8 list \<Rightarrow> nat option \<Rightarrow> (nat \<times> u8 list) res" where
  "unpack_loop msg dstsiz src srcp checked dst len =
    (case rd msg srcp of
      None \<Rightarrow> None
    | Some n \<Rightarrow>
      if n = 0 then
        if length dst < dstsiz
        then Some (Inr (case len of None \<Rightarrow> srcp + 1 - src | Some l \<Rightarrow> l, dst @ [0]))
        else None
      else if n AND NS_CMPRSFLGS = 0 \<or> n AND NS_CMPRSFLGS = NS_TYPE_ELT then
        (case labellen msg srcp of
          None \<Rightarrow> None
        | Some l \<Rightarrow>
          if l < 0 then Some (Inl EMSGSIZE)
          else if length dst + nat l + 1 \<ge> dstsiz \<or> srcp + 1 + nat l \<ge> length msg
          then Some (Inl EMSGSIZE)
          else unpack_loop msg dstsiz src (srcp + 1 + nat l) (checked + nat l + 1)
                 (dst @ n # take (nat l) (drop (srcp + 1) msg)) len)
      else if n AND NS_CMPRSFLGS = NS_CMPRSFLGS then
        if srcp + 1 \<ge> length msg then Some (Inl EMSGSIZE)
        else
          let len' = (case len of None \<Rightarrow> Some (srcp + 1 - src + 1) | Some l \<Rightarrow> Some l);
              off = nat (push_bit 8 (uint (n AND 0x3f)) OR uint (msg ! (srcp + 1)))
          in if off \<ge> length msg then Some (Inl EMSGSIZE)
             else if checked + 2 \<ge> length msg then Some (Inl EMSGSIZE)
             else unpack_loop msg dstsiz src off (checked + 2) dst len'
      else Some (Inl EMSGSIZE))"
  by pat_completeness auto
termination
  by (relation "measure (\<lambda>(msg, dstsiz, src, srcp, checked, dst, len).
        (dstsiz - length dst) + (length msg - checked))") (auto simp: rd_def)

declare unpack_loop.simps [simp del]

definition ns_name_unpack :: "u8 list \<Rightarrow> nat \<Rightarrow> nat \<Rightarrow> (nat \<times> u8 list) res" where
  "ns_name_unpack msg src dstsiz =
    (if src \<ge> length msg then Some (Inl EMSGSIZE)
     else unpack_loop msg dstsiz src src 0 [] None)"

section \<open>Printing a name\<close>

definition digit :: "nat \<Rightarrow> u8" where
  "digit d = of_nat (48 + d)"

definition hexdigit :: "nat \<Rightarrow> u8" where
  "hexdigit d = (if d < 10 then of_nat (48 + d) else of_nat (87 + d))"

text \<open>What \<open>sprintf\<close> writes for \<open>%02x\<close> of a byte and for \<open>%d\<close> of a number from 1 to 256.\<close>

definition sprint_02x :: "u8 \<Rightarrow> u8 list" where
  "sprint_02x b = [hexdigit (unat b div 16), hexdigit (unat b mod 16)]"

definition sprint_d :: "nat \<Rightarrow> u8 list" where
  "sprint_d n =
    (if n > 99 then [digit (n div 100), digit (n mod 100 div 10), digit (n mod 10)]
     else if n > 9 then [digit (n div 10), digit (n mod 10)] else [digit n])"

text \<open>The loop over the whole bytes of a bit string: what it prints, and where it stops.\<close>

fun bitstring_bytes :: "u8 list \<Rightarrow> nat \<Rightarrow> nat \<Rightarrow> (u8 list \<times> nat) option" where
  "bitstring_bytes src cp 0 = Some ([], cp)"
| "bitstring_bytes src cp (Suc k) =
    (case rd src cp of
      None \<Rightarrow> None
    | Some c \<Rightarrow>
      (case bitstring_bytes src (cp + 1) k of
        None \<Rightarrow> None
      | Some (out, cp') \<Rightarrow> Some (sprint_02x c @ out, cp')))"

text \<open>\<open>decode_bitstring\<close>: \<open>Inl\<close> for -1, else what is written and the new source position.\<close>

definition decode_bitstring :: "u8 list \<Rightarrow> nat \<Rightarrow> nat \<Rightarrow> nat \<Rightarrow> (u8 list \<times> nat) res" where
  "decode_bitstring src cp dn eom =
    (case rd src cp of
      None \<Rightarrow> None
    | Some c0 \<Rightarrow>
      let blen = (if c0 = 0 then 256 else unat c0);
          plen = (blen + 3) div 4 + 6 + (if blen > 99 then 3 else if blen > 9 then 2 else 1)
      in if dn + plen \<ge> eom then Some (Inl (- 1))
         else
          (case bitstring_bytes src (cp + 1) (blen div 8) of
            None \<Rightarrow> None
          | Some (out, cp1) \<Rightarrow>
            let b = blen mod 8 in
            if b > 4 then
              (case rd src cp1 of
                None \<Rightarrow> None
              | Some tc \<Rightarrow>
                Some (Inr ([0x5C, 0x5B, 0x78] @ out @ sprint_02x (tc AND push_bit (8 - b) 0xff) @
                  [0x2F] @ sprint_d blen @ [0x5D], cp1 + 1)))
            else if b > 0 then
              (case rd src cp1 of
                None \<Rightarrow> None
              | Some tc \<Rightarrow>
                Some (Inr ([0x5C, 0x5B, 0x78] @ out @
                  [hexdigit (unat ((drop_bit 4 tc AND 0x0f) AND push_bit (4 - b) 0x0f))] @
                  [0x2F] @ sprint_d blen @ [0x5D], cp1 + 1)))
            else Some (Inr ([0x5C, 0x5B, 0x78] @ out @ [0x2F] @ sprint_d blen @ [0x5D], cp1))))"

lemma bitstring_bytes_end: "bitstring_bytes src cp k = Some (out, cp') \<Longrightarrow> cp' = cp + k \<and> length out = 2 * k"
  by (induction k arbitrary: cp out) (fastforce simp: sprint_02x_def split: option.splits)+

lemma decode_bitstring_adv: "decode_bitstring src cp dn eom = Some (Inr (s, cp')) \<Longrightarrow> cp < cp'"
  by (auto simp: decode_bitstring_def Let_def split: option.splits if_splits dest!: bitstring_bytes_end)

text \<open>
  The loop over the \<open>l\<close> bytes of an ordinary label at \<open>cp\<close>; \<open>out\<close> is what has been written to
  \<open>dst\<close>.
\<close>

fun ntop_label :: "u8 list \<Rightarrow> nat \<Rightarrow> nat \<Rightarrow> nat \<Rightarrow> u8 list \<Rightarrow> u8 list res" where
  "ntop_label src cp 0 eom out = Some (Inr out)"
| "ntop_label src cp (Suc l) eom out =
    (case rd src cp of
      None \<Rightarrow> None
    | Some c \<Rightarrow>
      if special c then
        if length out + 1 \<ge> eom then Some (Inl EMSGSIZE)
        else ntop_label src (cp + 1) l eom (out @ [0x5C, c])
      else if \<not> printable c then
        if length out + 3 \<ge> eom then Some (Inl EMSGSIZE)
        else ntop_label src (cp + 1) l eom
          (out @ [0x5C, digit (unat c div 100), digit (unat c mod 100 div 10), digit (unat c mod 10)])
      else if length out \<ge> eom then Some (Inl EMSGSIZE)
      else ntop_label src (cp + 1) l eom (out @ [c]))"

text \<open>
  The loop of \<open>ns_name_ntop\<close>. Every iteration consumes at least the length byte, and a
  read beyond the source ends it.
\<close>

function ntop_loop :: "u8 list \<Rightarrow> nat \<Rightarrow> nat \<Rightarrow> u8 list \<Rightarrow> u8 list res" where
  "ntop_loop src eom cp out =
    (case rd src cp of
      None \<Rightarrow> None
    | Some n \<Rightarrow>
      if n = 0 then Some (Inr out)
      else if n AND NS_CMPRSFLGS = NS_CMPRSFLGS then Some (Inl EMSGSIZE)
      else if out \<noteq> [] \<and> length out \<ge> eom then Some (Inl EMSGSIZE)
      else
        let out1 = (if out \<noteq> [] then out @ [0x2E] else out) in
        (case labellen src cp of
          None \<Rightarrow> None
        | Some l \<Rightarrow>
          if l < 0 then Some (Inl EMSGSIZE)
          else if length out1 + nat l \<ge> eom then Some (Inl EMSGSIZE)
          else if n AND NS_CMPRSFLGS = NS_TYPE_ELT then
            if n \<noteq> DNS_LABELTYPE_BITSTRING then Some (Inl EINVAL)
            else
              (case decode_bitstring src (cp + 1) (length out1) eom of
                None \<Rightarrow> None
              | Some (Inl e) \<Rightarrow> Some (Inl EMSGSIZE)
              | Some (Inr (s, cp')) \<Rightarrow> ntop_loop src eom cp' (out1 @ s))
          else
            (case ntop_label src (cp + 1) (nat l) eom out1 of
              None \<Rightarrow> None
            | Some (Inl e) \<Rightarrow> Some (Inl e)
            | Some (Inr out2) \<Rightarrow> ntop_loop src eom (cp + 1 + nat l) out2)))"
  by pat_completeness auto
termination
  by (relation "measure (\<lambda>(src, eom, cp, out). length src - cp)")
    (auto simp: rd_def split: if_splits dest!: decode_bitstring_adv)

declare ntop_loop.simps [simp del]

definition ns_name_ntop :: "u8 list \<Rightarrow> nat \<Rightarrow> u8 list res" where
  "ns_name_ntop src dstsiz =
    (case ntop_loop src dstsiz 0 [] of
      None \<Rightarrow> None
    | Some (Inl e) \<Rightarrow> Some (Inl e)
    | Some (Inr out) \<Rightarrow>
      if out = [] \<and> length out \<ge> dstsiz then Some (Inl EMSGSIZE)
      else
        let out1 = (if out = [] then [0x2E] else out) in
        if length out1 \<ge> dstsiz then Some (Inl EMSGSIZE)
        else Some (Inr (out1 @ [0])))"

definition ns_name_uncompress :: "u8 list \<Rightarrow> nat \<Rightarrow> nat \<Rightarrow> (nat \<times> u8 list) res" where
  "ns_name_uncompress msg src dstsiz =
    (case ns_name_unpack msg src NS_MAXCDNAME of
      None \<Rightarrow> None
    | Some (Inl e) \<Rightarrow> Some (Inl e)
    | Some (Inr (n, tmp)) \<Rightarrow>
      (case ns_name_ntop tmp dstsiz of
        None \<Rightarrow> None
      | Some (Inl e) \<Rightarrow> Some (Inl e)
      | Some (Inr dst) \<Rightarrow> Some (Inr (n, dst))))"

definition dn_expand :: "u8 list \<Rightarrow> nat \<Rightarrow> nat \<Rightarrow> (nat \<times> u8 list) res" where
  "dn_expand msg src dstsiz =
    (case ns_name_uncompress msg src dstsiz of
      None \<Rightarrow> None
    | Some (Inl e) \<Rightarrow> Some (Inl e)
    | Some (Inr (n, dst)) \<Rightarrow>
      Some (Inr (n, if n > 0 \<and> hd dst = 0x2E then 0 # tl dst else dst)))"

section \<open>Stepping over a name\<close>

function name_skip_loop :: "u8 list \<Rightarrow> nat \<Rightarrow> nat res" where
  "name_skip_loop msg cp =
    (if cp < length msg then
       let n = msg ! cp in
       if n = 0 then Some (Inr (cp + 1))
       else if n AND NS_CMPRSFLGS = 0 then name_skip_loop msg (cp + 1 + unat n)
       else if n AND NS_CMPRSFLGS = NS_TYPE_ELT then
         (case labellen msg cp of
           None \<Rightarrow> None
         | Some l \<Rightarrow>
           if l < 0 then Some (Inl EMSGSIZE) else name_skip_loop msg (cp + 1 + nat l))
       else if n AND NS_CMPRSFLGS = NS_CMPRSFLGS then Some (Inr (cp + 2))
       else Some (Inl EMSGSIZE)
     else Some (Inr cp))"
  by pat_completeness auto
termination by (relation "measure (\<lambda>(msg, cp). length msg - cp)") auto

declare name_skip_loop.simps [simp del]

definition ns_name_skip :: "u8 list \<Rightarrow> nat \<Rightarrow> nat res" where
  "ns_name_skip msg ptr =
    (case name_skip_loop msg ptr of
      None \<Rightarrow> None
    | Some (Inl e) \<Rightarrow> Some (Inl e)
    | Some (Inr cp) \<Rightarrow> if cp > length msg then Some (Inl EMSGSIZE) else Some (Inr cp))"

definition dn_skipname :: "u8 list \<Rightarrow> nat \<Rightarrow> nat res" where
  "dn_skipname msg ptr =
    (case ns_name_skip msg ptr of
      None \<Rightarrow> None
    | Some (Inl e) \<Rightarrow> Some (Inl e)
    | Some (Inr cp) \<Rightarrow> Some (Inr (cp - ptr)))"

section \<open>Labels of a message\<close>

text \<open>The bytes of one label, its length byte first, as \<open>ns_name_unpack\<close> copies them.\<close>

definition chunk :: "u8 list \<Rightarrow> bool" where
  "chunk c \<longleftrightarrow> c \<noteq> [] \<and> hd c \<noteq> 0 \<and> hd c AND NS_CMPRSFLGS \<noteq> NS_CMPRSFLGS \<and>
    labellen c 0 = Some (int (length c) - 1)"

lemmas flg_defs = NS_CMPRSFLGS_def NS_TYPE_ELT_def DNS_LABELTYPE_BITSTRING_def

lemma labellen_Some:
  assumes "labellen b i = Some l" "0 \<le> l" "b ! i \<noteq> 0"
  shows "i < length b" "1 \<le> l" "b ! i AND NS_CMPRSFLGS \<noteq> NS_CMPRSFLGS"
    "b ! i AND NS_CMPRSFLGS \<noteq> NS_TYPE_ELT \<Longrightarrow> l = uint (b ! i)"
    "b ! i AND NS_CMPRSFLGS = NS_TYPE_ELT \<Longrightarrow> b ! i = DNS_LABELTYPE_BITSTRING"
proof -
  have u: "0 < uint (b ! i)" using assms(3) by (metis order_le_less uint_0_iff uint_ge_0)
  show "i < length b" "b ! i AND NS_CMPRSFLGS \<noteq> NS_CMPRSFLGS"
    "b ! i AND NS_CMPRSFLGS \<noteq> NS_TYPE_ELT \<Longrightarrow> l = uint (b ! i)"
    "b ! i AND NS_CMPRSFLGS = NS_TYPE_ELT \<Longrightarrow> b ! i = DNS_LABELTYPE_BITSTRING"
    using assms by (auto simp: labellen_def rd_def split: option.splits if_splits)
  show "1 \<le> l"
    using assms u by (auto simp: labellen_def rd_def Let_def pos_imp_zdiv_nonneg_iff split: option.splits if_splits)
qed

lemma labellen_None:
  "labellen b i = None \<Longrightarrow> i < length b \<Longrightarrow> i + 1 = length b \<and> b ! i = DNS_LABELTYPE_BITSTRING"
  by (auto simp: labellen_def rd_def split: option.splits if_splits)

lemma labellen_cong:
  "i < length b \<Longrightarrow> j < length c \<Longrightarrow> b ! i = c ! j \<Longrightarrow> i + 1 < length b \<Longrightarrow> j + 1 < length c \<Longrightarrow> b ! (i + 1) = c ! (j + 1) \<Longrightarrow>
    labellen b i = labellen c j"
  by (simp add: labellen_def rd_def)

lemma chunk_take:
  assumes "labellen msg i = Some l" "0 \<le> l" "msg ! i \<noteq> 0" "i + 1 + nat l < length msg"
  shows "chunk (msg ! i # take (nat l) (drop (i + 1) msg))"
proof -
  note f = labellen_Some[OF assms(1-3)]
  let ?c = "msg ! i # take (nat l) (drop (i + 1) msg)"
  have len: "length ?c = Suc (nat l)" using assms(4) by simp
  have "labellen ?c 0 = labellen msg i"
    by (rule labellen_cong) (use assms(4) f(1,2) len in \<open>auto simp: nth_take\<close>)
  then show ?thesis using assms(1,2,3) f(3) len by (simp add: chunk_def)
qed

lemma labellen_chunk:
  assumes "chunk c"
  shows "labellen (pre @ c @ rest) (length pre) = Some (int (length c) - 1)" "2 \<le> length c"
    "(pre @ c @ rest) ! length pre = hd c"
proof -
  have c: "c \<noteq> []" "hd c \<noteq> 0" "labellen c 0 = Some (int (length c) - 1)" using assms by (auto simp: chunk_def)
  have h: "hd c = c ! 0" using c(1) by (simp add: hd_conv_nth)
  show l: "2 \<le> length c" using labellen_Some(2)[OF c(3)] c(1,2) h by (cases c) auto
  show "(pre @ c @ rest) ! length pre = hd c" using c(1) by (simp add: nth_append hd_conv_nth)
  have "labellen (pre @ c @ rest) (length pre) = labellen c 0"
    by (rule labellen_cong) (use l in \<open>auto simp: nth_append\<close>)
  then show "labellen (pre @ c @ rest) (length pre) = Some (int (length c) - 1)" using c(3) by simp
qed

section \<open>Expansion and stepping agree\<close>

lemma unpack_len:
  "unpack_loop msg dsz src srcp chk dst (Some l) = Some (Inr (n, d)) \<Longrightarrow> n = l"
proof (induction msg dsz src srcp chk dst "Some l" rule: unpack_loop.induct)
  case (1 msg dsz src srcp chk dst)
  from "1.prems" show ?case
    by (subst (asm) unpack_loop.simps) (auto simp: Let_def split: option.splits if_splits dest: "1.hyps")
qed

lemma unpack_skip:
  "unpack_loop msg dsz src srcp chk dst None = Some (Inr (n, d)) \<Longrightarrow> src \<le> srcp \<Longrightarrow>
    name_skip_loop msg srcp = Some (Inr (src + n)) \<and> src + n \<le> length msg \<and> 0 < n"
proof (induction msg dsz src srcp chk dst "None :: nat option" rule: unpack_loop.induct)
  case (1 msg dsz src srcp chk dst)
  have p: "srcp < length msg" using "1.prems" by (subst (asm) unpack_loop.simps) (auto simp: rd_def split: if_splits)
  then have rd: "rd msg srcp = Some (msg ! srcp)" by (simp add: rd_def)
  consider "msg ! srcp = 0" | "msg ! srcp \<noteq> 0" "msg ! srcp AND NS_CMPRSFLGS = 0 \<or> msg ! srcp AND NS_CMPRSFLGS = NS_TYPE_ELT"
    | "msg ! srcp \<noteq> 0" "msg ! srcp AND NS_CMPRSFLGS \<noteq> 0" "msg ! srcp AND NS_CMPRSFLGS \<noteq> NS_TYPE_ELT" by blast
  then show ?case
  proof cases
    case 1
    then show ?thesis using "1.prems" p
      by (subst (asm) unpack_loop.simps, subst name_skip_loop.simps) (auto simp: rd_def split: if_splits)
  next
    case 2
    obtain l where l: "labellen msg srcp = Some l" "0 \<le> l" "\<not> (length dst + nat l + 1 \<ge> dsz \<or> srcp + 1 + nat l \<ge> length msg)"
      "unpack_loop msg dsz src (srcp + 1 + nat l) (chk + nat l + 1) (dst @ msg ! srcp # take (nat l) (drop (srcp + 1) msg)) None = Some (Inr (n, d))"
      using "1.prems"(1) 2 rd by (subst (asm) unpack_loop.simps) (auto split: option.splits if_splits)
    have "name_skip_loop msg (srcp + 1 + nat l) = Some (Inr (src + n)) \<and> src + n \<le> length msg \<and> 0 < n"
      by (rule "1.hyps"(1)[OF rd 2 l(1) _ l(3) l(4)]) (use l(2) "1.prems"(2) in auto)
    moreover have "name_skip_loop msg srcp = name_skip_loop msg (srcp + 1 + nat l)"
      using p 2 l(1,2) labellen_Some[OF l(1,2) 2(1)]
      by (subst name_skip_loop.simps) (auto simp: Let_def flg_defs)
    ultimately show ?thesis by simp
  next
    case 3
    then have f: "msg ! srcp AND NS_CMPRSFLGS = NS_CMPRSFLGS" and q: "srcp + 1 < length msg"
      using "1.prems" rd by (subst (asm) unpack_loop.simps, auto split: if_splits)+
    have "n = srcp + 1 - src + 1"
      using "1.prems"(1) 3 rd f q by (subst (asm) unpack_loop.simps) (auto simp: Let_def split: if_splits dest: unpack_len)
    then show ?thesis using "1.prems"(2) 3 f q
      by (subst name_skip_loop.simps) (simp add: Let_def)
  qed
qed

lemma unpack_chunks:
  "unpack_loop msg dsz src srcp chk dst len = Some (Inr (n, d)) \<Longrightarrow>
    \<exists>cs. list_all chunk cs \<and> d = dst @ concat cs @ [0] \<and> length d \<le> dsz"
proof (induction msg dsz src srcp chk dst len rule: unpack_loop.induct)
  case (1 msg dsz src srcp chk dst len)
  have p: "srcp < length msg" using "1.prems" by (subst (asm) unpack_loop.simps) (auto simp: rd_def split: if_splits)
  then have rd: "rd msg srcp = Some (msg ! srcp)" by (simp add: rd_def)
  show ?case
  proof (cases "msg ! srcp = 0")
    case True
    then show ?thesis using "1.prems" rd
      by (subst (asm) unpack_loop.simps) (auto split: if_splits intro!: exI[of _ "[]"])
  next
    case nz: False
    show ?thesis
    proof (cases "msg ! srcp AND NS_CMPRSFLGS = 0 \<or> msg ! srcp AND NS_CMPRSFLGS = NS_TYPE_ELT")
      case True
      obtain l where l: "labellen msg srcp = Some l" "0 \<le> l" "\<not> (length dst + nat l + 1 \<ge> dsz \<or> srcp + 1 + nat l \<ge> length msg)"
        "unpack_loop msg dsz src (srcp + 1 + nat l) (chk + nat l + 1) (dst @ msg ! srcp # take (nat l) (drop (srcp + 1) msg)) len = Some (Inr (n, d))"
        using "1.prems"(1) True nz rd by (subst (asm) unpack_loop.simps) (auto split: option.splits if_splits)
      let ?c = "msg ! srcp # take (nat l) (drop (srcp + 1) msg)"
      have "\<exists>cs. list_all chunk cs \<and> d = (dst @ ?c) @ concat cs @ [0] \<and> length d \<le> dsz"
        by (rule "1.IH"(1)[OF rd nz True l(1) _ l(3) l(4)]) (use l(2) in auto)
      then obtain cs where "list_all chunk cs" "d = (dst @ ?c) @ concat cs @ [0]" "length d \<le> dsz" by auto
      moreover have "chunk ?c" by (rule chunk_take[OF l(1,2) nz]) (use l(3) in auto)
      ultimately show ?thesis by (intro exI[of _ "?c # cs"]) simp
    next
      case False
      let ?len = "case len of None \<Rightarrow> Some (srcp + 1 - src + 1) | Some l \<Rightarrow> Some l"
      let ?off = "nat (push_bit 8 (uint (msg ! srcp AND 0x3f)) OR uint (msg ! (srcp + 1)))"
      have f: "msg ! srcp AND NS_CMPRSFLGS = NS_CMPRSFLGS" "\<not> length msg \<le> srcp + 1" "\<not> length msg \<le> ?off"
        "\<not> length msg \<le> chk + 2" "unpack_loop msg dsz src ?off (chk + 2) dst ?len = Some (Inr (n, d))"
        using "1.prems" rd nz False by (subst (asm) unpack_loop.simps, auto simp: Let_def split: if_splits)+
      show ?thesis by (rule "1.IH"(2)[OF rd nz False f(1,2) refl refl f(3,4,5)])
    qed
  qed
qed

text \<open>The only read outside the message is of the length byte of a bit string label at its end.\<close>

definition bounded_msg :: "u8 list \<Rightarrow> bool" where
  "bounded_msg msg \<longleftrightarrow> msg = [] \<or> last msg \<noteq> DNS_LABELTYPE_BITSTRING"

lemma labellen_bounded:
  assumes "bounded_msg msg" "i < length msg"
  shows "labellen msg i \<noteq> None"
proof
  assume "labellen msg i = None"
  from labellen_None[OF this assms(2)] have "i = length msg - 1" "msg ! i = DNS_LABELTYPE_BITSTRING" by auto
  then show False using assms by (metis bounded_msg_def last_conv_nth length_0_conv not_less_zero)
qed

lemma unpack_total:
  "bounded_msg msg \<Longrightarrow> srcp < length msg \<Longrightarrow> length dst < dsz \<Longrightarrow>
    unpack_loop msg dsz src srcp chk dst len \<noteq> None"
proof (induction msg dsz src srcp chk dst len rule: unpack_loop.induct)
  case (1 msg dsz src srcp chk dst len)
  have rd: "rd msg srcp = Some (msg ! srcp)" using "1.prems" by (simp add: rd_def)
  obtain l where l: "labellen msg srcp = Some l" using labellen_bounded[OF "1.prems"(1,2)] by auto
  show ?case
    using "1.prems" l "1.IH"(1)[OF rd _ _ l] "1.IH"(2)[OF rd]
    by (subst unpack_loop.simps) (auto simp: rd Let_def)
qed

lemma skip_total: "bounded_msg msg \<Longrightarrow> name_skip_loop msg cp \<noteq> None"
proof (induction msg cp rule: name_skip_loop.induct)
  case (1 msg cp)
  then show ?case using labellen_bounded[of msg cp]
    by (subst name_skip_loop.simps) (auto simp: Let_def)
qed

section \<open>Printing stays in its buffers\<close>

lemma bitstring_bytes_total:
  "cp + k \<le> length src \<Longrightarrow> \<exists>out. bitstring_bytes src cp k = Some (out, cp + k) \<and> length out = 2 * k"
proof (induction k arbitrary: cp)
  case (Suc k)
  then obtain out where "bitstring_bytes src (cp + 1) k = Some (out, cp + 1 + k)" "length out = 2 * k"
    using Suc.IH[of "cp + 1"] by auto
  then show ?case using Suc.prems by (simp add: rd_def sprint_02x_def)
qed simp

definition bit_count :: "u8 \<Rightarrow> nat" where
  "bit_count c = (if c = 0 then 256 else unat c)"

lemma sprint_d_len: "length (sprint_d n) = (if n > 99 then 3 else if n > 9 then 2 else 1)"
  by (simp add: sprint_d_def)

lemma decode_bitstring_ok:
  fixes src cp dn eom
  defines "n \<equiv> bit_count (src ! cp)"
  assumes "cp + 1 + (n + 7) div 8 \<le> length src"
  shows "\<exists>r. decode_bitstring src cp dn eom = Some r \<and>
    (\<forall>s cp'. r = Inr (s, cp') \<longrightarrow> cp' = cp + 1 + (n + 7) div 8 \<and> dn + length s < eom)"
proof -
  have rd0: "rd src cp = Some (src ! cp)" using assms(2) by (simp add: rd_def)
  let ?p = "cp + 1 + n div 8"
  have e: "(n + 7) div 8 = n div 8 + (if n mod 8 > 0 then 1 else 0)" by presburger
  obtain out where out: "bitstring_bytes src (cp + 1) (n div 8) = Some (out, ?p)" "length out = 2 * (n div 8)"
    using bitstring_bytes_total[of "cp + 1" "n div 8" src] assms(2) e by auto
  have len: "2 * (n div 8) + (if n mod 8 > 4 then 2 else if n mod 8 > 0 then 1 else 0) = (n + 3) div 4"
    by presburger
  have rd1: "n mod 8 > 0 \<Longrightarrow> rd src ?p = Some (src ! ?p)" using assms(2) e by (simp add: rd_def)
  show ?thesis
    unfolding decode_bitstring_def rd0 option.case Let_def bit_count_def[symmetric] n_def[symmetric] out(1) prod.case
    using rd1 e len out(2) by (auto simp: sprint_d_len sprint_02x_def split: if_splits)
qed

lemma ntop_label_ok:
  "cp + l \<le> length src \<Longrightarrow> length out \<le> eom \<Longrightarrow>
    \<exists>r. ntop_label src cp l eom out = Some r \<and> (\<forall>o'. r = Inr o' \<longrightarrow> length o' \<le> eom)"
proof (induction l arbitrary: cp out)
  case (Suc l)
  have rd: "rd src cp = Some (src ! cp)" using Suc.prems by (simp add: rd_def)
  have IH: "length o1 \<le> eom \<Longrightarrow> \<exists>r. ntop_label src (Suc cp) l eom o1 = Some r \<and> (\<forall>o'. r = Inr o' \<longrightarrow> length o' \<le> eom)" for o1
    using Suc.IH[of "Suc cp" o1] Suc.prems by simp
  show ?case using Suc.prems(2) by (auto simp: rd intro!: IH)
qed simp

lemma chunk_bits:
  assumes "chunk c" "hd c AND NS_CMPRSFLGS = NS_TYPE_ELT"
  shows "hd c = DNS_LABELTYPE_BITSTRING" "length c = 2 + (bit_count (c ! 1) + 7) div 8"
proof -
  have c: "c \<noteq> []" "labellen c 0 = Some (int (length c) - 1)" "hd c \<noteq> 0" using assms(1) by (auto simp: chunk_def)
  have h: "hd c = c ! 0" and l: "2 \<le> length c" using c(1) labellen_chunk(2)[OF assms(1)] by (auto simp: hd_conv_nth)
  show b: "hd c = DNS_LABELTYPE_BITSTRING" using labellen_Some(5)[OF c(2)] assms(2) c h l by simp
  have "int (length c) - 1 = (int (bit_count (c ! 1)) + 7) div 8 + 1"
    using c(2) assms b h l by (auto simp: labellen_def rd_def chunk_def bit_count_def Let_def split: if_splits)
  then have "int (length c) = int (2 + (bit_count (c ! 1) + 7) div 8)" by (simp add: zdiv_int)
  then show "length c = 2 + (bit_count (c ! 1) + 7) div 8" by (simp only: of_nat_eq_iff)
qed

text \<open>One iteration of the printing loop, on a label that was unpacked.\<close>

definition dotted :: "u8 list \<Rightarrow> u8 list" where
  "dotted out = (if out \<noteq> [] then out @ [0x2E] else out)"

lemma ntop_loop_step:
  fixes pre c rest
  defines "src \<equiv> pre @ c @ rest" and "cp \<equiv> length pre"
  assumes "chunk c"
  shows "ntop_loop src eom cp out =
    (if out \<noteq> [] \<and> length out \<ge> eom then Some (Inl EMSGSIZE)
     else if length (dotted out) + (length c - 1) \<ge> eom then Some (Inl EMSGSIZE)
     else if hd c AND NS_CMPRSFLGS = NS_TYPE_ELT then
       (case decode_bitstring src (cp + 1) (length (dotted out)) eom of None \<Rightarrow> None
         | Some (Inl e) \<Rightarrow> Some (Inl EMSGSIZE) | Some (Inr (s, cp')) \<Rightarrow> ntop_loop src eom cp' (dotted out @ s))
     else (case ntop_label src (cp + 1) (length c - 1) eom (dotted out) of None \<Rightarrow> None
         | Some (Inl e) \<Rightarrow> Some (Inl e) | Some (Inr out2) \<Rightarrow> ntop_loop src eom (cp + length c) out2))"
proof -
  note lc = labellen_chunk(1,3)[OF assms(3), of pre rest, folded src_def cp_def] and two = labellen_chunk(2)[OF assms(3)]
  have rd: "rd src cp = Some (hd c)" using lc(2) two by (auto simp: rd_def src_def cp_def)
  have hc: "hd c \<noteq> 0" "hd c AND NS_CMPRSFLGS \<noteq> NS_CMPRSFLGS" using assms(3) by (auto simp: chunk_def)
  have n: "nat (int (length c) - 1) = length c - 1" "\<not> int (length c) - 1 < 0"
    "cp + 1 + (length c - 1) = cp + length c" using two by auto
  show ?thesis
    using hc n(2) chunk_bits(1)[OF assms(3)]
    unfolding ntop_loop.simps[of src eom cp out] rd lc(1) option.case Let_def n(1) n(3) dotted_def[symmetric] by auto
qed

lemma decode_chunk_ok:
  assumes "chunk c" "hd c AND NS_CMPRSFLGS = NS_TYPE_ELT"
  obtains r where "decode_bitstring (pre @ c @ rest) (length pre + 1) dn eom = Some r"
    "\<And>s cp'. r = Inr (s, cp') \<Longrightarrow> cp' = length pre + length c \<and> dn + length s < eom"
proof -
  note cb = chunk_bits[OF assms] and two = labellen_chunk(2)[OF assms(1)]
  have "(pre @ c @ rest) ! (length pre + 1) = c ! 1" using two by (simp add: nth_append)
  then show ?thesis
    using that decode_bitstring_ok[of "length pre + 1" "pre @ c @ rest" dn eom] cb(2) by auto
qed

lemma ntop_loop_ok:
  "list_all chunk cs \<Longrightarrow> length out \<le> eom \<Longrightarrow>
    \<exists>r. ntop_loop (pre @ concat cs @ [0]) eom (length pre) out = Some r \<and> (\<forall>o'. r = Inr o' \<longrightarrow> length o' \<le> eom)"
proof (induction cs arbitrary: pre out)
  case Nil
  then show ?case by (subst ntop_loop.simps) (simp add: rd_def)
next
  case (Cons c cs)
  let ?src = "pre @ c @ concat cs @ [0]" and ?o = "dotted out"
  have c: "chunk c" "list_all chunk cs" using Cons.prems by auto
  have IH: "\<exists>r. ntop_loop ?src eom (length pre + length c) o' = Some r \<and> (\<forall>o''. r = Inr o'' \<longrightarrow> length o'' \<le> eom)"
    if "length o' \<le> eom" for o' using Cons.IH[OF c(2) that, of "pre @ c"] by simp
  have "\<exists>r. ntop_loop ?src eom (length pre) out = Some r \<and> (\<forall>o'. r = Inr o' \<longrightarrow> length o' \<le> eom)"
  proof (cases "(out \<noteq> [] \<and> length out \<ge> eom) \<or> length ?o + (length c - 1) \<ge> eom")
    case True
    then show ?thesis unfolding ntop_loop_step[OF c(1)] by auto
  next
    case ok: False
    show ?thesis
    proof (cases "hd c AND NS_CMPRSFLGS = NS_TYPE_ELT")
      case True
      obtain r where "decode_bitstring ?src (length pre + 1) (length ?o) eom = Some r"
        "\<And>s cp'. r = Inr (s, cp') \<Longrightarrow> cp' = length pre + length c \<and> length ?o + length s < eom"
        using decode_chunk_ok[OF c(1) True, of pre "concat cs @ [0]" "length ?o" eom] by metis
      then show ?thesis unfolding ntop_loop_step[OF c(1)] using ok True by (cases r) (auto intro!: IH)
    next
      case False
      have "length pre + 1 + (length c - 1) \<le> length ?src" "length ?o \<le> eom" using labellen_chunk(2)[OF c(1)] ok by auto
      from ntop_label_ok[OF this] obtain r where
        "ntop_label ?src (length pre + 1) (length c - 1) eom ?o = Some r" "\<And>o'. r = Inr o' \<Longrightarrow> length o' \<le> eom" by blast
      then show ?thesis unfolding ntop_loop_step[OF c(1)] using ok False by (cases r) (auto intro!: IH)
    qed
  qed
  then show ?case by simp
qed

text \<open>Expansion never faults, except by the over-read, and fills at most \<open>dstsiz\<close> bytes.\<close>

lemma unpack_ok:
  assumes "bounded_msg msg" "0 < dstsiz"
  obtains e where "ns_name_unpack msg src dstsiz = Some (Inl e)"
  | n cs where "ns_name_unpack msg src dstsiz = Some (Inr (n, concat cs @ [0]))" "list_all chunk cs"
      "length (concat cs) < dstsiz" "ns_name_skip msg src = Some (Inr (src + n))" "0 < n" "src + n \<le> length msg"
proof (cases "src < length msg")
  case False
  then show ?thesis using that(1) by (simp add: ns_name_unpack_def)
next
  case True
  obtain r where r: "unpack_loop msg dstsiz src src 0 [] None = Some r"
    using unpack_total[OF assms(1) True, of "[]" dstsiz src 0 None] assms(2) by auto
  show ?thesis
  proof (cases r)
    case (Inl e)
    then show ?thesis using that(1) r True by (simp add: ns_name_unpack_def)
  next
    case (Inr x)
    then obtain n d where x: "r = Inr (n, d)" by (cases x) auto
    from unpack_chunks r x obtain cs where "list_all chunk cs" "d = concat cs @ [0]" "length d \<le> dstsiz" by force
    moreover have "name_skip_loop msg src = Some (Inr (src + n)) \<and> src + n \<le> length msg \<and> 0 < n"
      using unpack_skip r x by blast
    ultimately show ?thesis using that(2) r x True by (simp add: ns_name_unpack_def ns_name_skip_def)
  qed
qed

lemma ntop_ok:
  assumes "list_all chunk cs"
  shows "\<exists>r. ns_name_ntop (concat cs @ [0]) dstsiz = Some r \<and> (\<forall>d. r = Inr d \<longrightarrow> d \<noteq> [] \<and> length d \<le> dstsiz)"
proof -
  obtain r where r: "ntop_loop (concat cs @ [0]) dstsiz 0 [] = Some r" "\<And>o'. r = Inr o' \<Longrightarrow> length o' \<le> dstsiz"
    using ntop_loop_ok[OF assms, of "[]" dstsiz "[]"] by auto
  then show ?thesis by (cases r) (auto simp: ns_name_ntop_def Let_def)
qed

lemma expand_ok:
  assumes "bounded_msg msg"
  obtains e where "dn_expand msg src dstsiz = Some (Inl e)"
  | n d where "dn_expand msg src dstsiz = Some (Inr (n, d))" "length d \<le> dstsiz" "0 < n" "src + n \<le> length msg"
      "dn_skipname msg src = Some (Inr n)"
proof (rule unpack_ok[OF assms, of NS_MAXCDNAME src])
  show "0 < NS_MAXCDNAME" by (simp add: NS_MAXCDNAME_def)
next
  fix e assume "ns_name_unpack msg src NS_MAXCDNAME = Some (Inl e)"
  then show ?thesis using that(1) by (simp add: dn_expand_def ns_name_uncompress_def)
next
  fix n cs assume u: "ns_name_unpack msg src NS_MAXCDNAME = Some (Inr (n, concat cs @ [0]))" "list_all chunk cs"
    "ns_name_skip msg src = Some (Inr (src + n))" "0 < n" "src + n \<le> length msg"
  obtain r where r: "ns_name_ntop (concat cs @ [0]) dstsiz = Some r" "\<And>d. r = Inr d \<Longrightarrow> d \<noteq> [] \<and> length d \<le> dstsiz"
    using ntop_ok[OF u(2)] by blast
  have "dn_skipname msg src = Some (Inr n)" using u(3) by (simp add: dn_skipname_def)
  then show ?thesis using u r that
    by (cases r) (auto simp: dn_expand_def ns_name_uncompress_def)
qed

end
