(* ===== verification/Ns_Parse.thy ===== *)
theory Ns_Parse
  imports Ns_Name
begin

text \<open>
  The message parser, \<open>netbsd/nameser/ns_parse.c\<close>, with the readers of \<open>ns_netint.c\<close>, and the
  function of \<open>netbsd/resolv/res_cache.c\<close> that computes from the records of an answer how long it
  may be cached. A handle holds the message as a list of bytes, so that \<open>_eom\<close> is its length,
  and pointers as offsets, \<open>None\<close> for a null pointer. Results are as for names.
\<close>

abbreviation (input) ENODEV :: int where "ENODEV \<equiv> 19"

section \<open>Readers\<close>

definition ns_get16 :: "u8 list \<Rightarrow> nat \<Rightarrow> u16 option" where
  "ns_get16 b p =
    (case (rd b p, rd b (p + 1)) of
      (Some x, Some y) \<Rightarrow> Some (push_bit 8 (ucast x) OR ucast y)
    | _ \<Rightarrow> None)"

definition ns_get32 :: "u8 list \<Rightarrow> nat \<Rightarrow> u32 option" where
  "ns_get32 b p =
    (case (rd b p, rd b (p + 1), rd b (p + 2), rd b (p + 3)) of
      (Some w, Some x, Some y, Some z) \<Rightarrow>
        Some (((push_bit 24 (ucast w) OR push_bit 16 (ucast x)) OR push_bit 8 (ucast y)) OR ucast z)
    | _ \<Rightarrow> None)"

definition ns_put16 :: "u16 \<Rightarrow> u8 list" where
  "ns_put16 s = [ucast (drop_bit 8 s), ucast s]"

definition ns_put32 :: "u32 \<Rightarrow> u8 list" where
  "ns_put32 l = [ucast (drop_bit 24 l), ucast (drop_bit 16 l), ucast (drop_bit 8 l), ucast l]"

section \<open>Handles\<close>

definition ns_s_qd :: nat where "ns_s_qd = 0"

definition ns_s_an :: nat where "ns_s_an = 1"

definition ns_s_max :: nat where "ns_s_max = 4"

record ns_msg =
  nm_msg :: "u8 list"
  nm_id :: u16
  nm_flags :: u16
  nm_counts :: "u16 list"
  nm_sections :: "nat option list"
  nm_sect :: nat
  nm_rrnum :: int
  nm_msg_ptr :: "nat option"

record ns_rr =
  rr_name :: "u8 list"
  rr_type :: u16
  rr_class :: u16
  rr_ttl :: u32
  rr_rdlength :: u16
  rr_rdata :: "nat option"

definition NS_MAXDNAME :: nat where "NS_MAXDNAME = 1025"

definition ns_flagdata :: "(u16 \<times> nat) list" where
  "ns_flagdata =
    [(0x8000, 15), (0x7800, 11), (0x0400, 10), (0x0200, 9), (0x0100, 8), (0x0080, 7), (0x0040, 6),
     (0x0020, 5), (0x0010, 4), (0x000f, 0), (0, 0), (0, 0), (0, 0), (0, 0), (0, 0), (0, 0)]"

definition ns_msg_getflag :: "ns_msg \<Rightarrow> nat \<Rightarrow> u16 option" where
  "ns_msg_getflag h flag =
    (case rd ns_flagdata flag of
      None \<Rightarrow> None
    | Some (m, shift) \<Rightarrow> Some (drop_bit shift (nm_flags h AND m)))"

definition setsection :: "ns_msg \<Rightarrow> nat \<Rightarrow> ns_msg" where
  "setsection h sect =
    (if sect = ns_s_max then h\<lparr>nm_sect := sect, nm_rrnum := - 1, nm_msg_ptr := None\<rparr>
     else h\<lparr>nm_sect := sect, nm_rrnum := 0, nm_msg_ptr := nm_sections h ! sect\<rparr>)"

section \<open>Stepping over records\<close>

fun skiprr_loop :: "u8 list \<Rightarrow> nat \<Rightarrow> nat \<Rightarrow> nat \<Rightarrow> nat res" where
  "skiprr_loop msg section ptr 0 = Some (Inr ptr)"
| "skiprr_loop msg section ptr (Suc count) =
    (case dn_skipname msg ptr of
      None \<Rightarrow> None
    | Some (Inl e) \<Rightarrow> Some (Inl EMSGSIZE)
    | Some (Inr b) \<Rightarrow>
      let ptr1 = ptr + b + 2 + 2 in
      if section \<noteq> ns_s_qd then
        if ptr1 + 4 + 2 > length msg then Some (Inl EMSGSIZE)
        else
          (case ns_get16 msg (ptr1 + 4) of
            None \<Rightarrow> None
          | Some rdlength \<Rightarrow> skiprr_loop msg section (ptr1 + 4 + 2 + unat rdlength) count)
      else skiprr_loop msg section ptr1 count)"

definition ns_skiprr :: "u8 list \<Rightarrow> nat \<Rightarrow> nat \<Rightarrow> nat \<Rightarrow> nat res" where
  "ns_skiprr msg ptr section count =
    (case skiprr_loop msg section ptr count of
      None \<Rightarrow> None
    | Some (Inl e) \<Rightarrow> Some (Inl e)
    | Some (Inr p) \<Rightarrow> if p > length msg then Some (Inl EMSGSIZE) else Some (Inr (p - ptr)))"

section \<open>Opening a message\<close>

text \<open>Sequencing: a fault or an error ends the function.\<close>

definition rbind :: "'a res \<Rightarrow> ('a \<Rightarrow> 'b res) \<Rightarrow> 'b res" where
  "rbind m f =
    (case m of None \<Rightarrow> None | Some (Inl e) \<Rightarrow> Some (Inl e) | Some (Inr v) \<Rightarrow> f v)"

text \<open>A guarded read of a 16-bit field: the value and the new position.\<close>

definition take16 :: "u8 list \<Rightarrow> nat \<Rightarrow> (u16 \<times> nat) res" where
  "take16 msg p =
    (if p + 2 > length msg then Some (Inl EMSGSIZE)
     else (case ns_get16 msg p of None \<Rightarrow> None | Some v \<Rightarrow> Some (Inr (v, p + 2))))"

fun init_counts :: "u8 list \<Rightarrow> nat \<Rightarrow> nat \<Rightarrow> (u16 list \<times> nat) res" where
  "init_counts msg p 0 = Some (Inr ([], p))"
| "init_counts msg p (Suc k) =
    rbind (take16 msg p) (\<lambda>(v, p1).
    rbind (init_counts msg p1 k) (\<lambda>(vs, p2).
    Some (Inr (v # vs, p2))))"

fun init_sections :: "u8 list \<Rightarrow> nat \<Rightarrow> nat \<Rightarrow> u16 list \<Rightarrow> (nat option list \<times> nat) res" where
  "init_sections msg i p [] = Some (Inr ([], p))"
| "init_sections msg i p (c # cs) =
    (if c = 0 then
       rbind (init_sections msg (i + 1) p cs) (\<lambda>(ss, p').
       Some (Inr (None # ss, p')))
     else
       rbind (ns_skiprr msg p i (unat c)) (\<lambda>b.
       rbind (init_sections msg (i + 1) (p + b) cs) (\<lambda>(ss, p').
       Some (Inr (Some p # ss, p')))))"

definition ns_initparse :: "u8 list \<Rightarrow> ns_msg res" where
  "ns_initparse msg =
    rbind (take16 msg 0) (\<lambda>(i, p1).
    rbind (take16 msg p1) (\<lambda>(fl, p2).
    rbind (init_counts msg p2 ns_s_max) (\<lambda>(cs, p3).
    rbind (init_sections msg 0 p3 cs) (\<lambda>(ss, p4).
    if p4 \<noteq> length msg then Some (Inl EMSGSIZE)
    else Some (Inr (setsection
      \<lparr>nm_msg = msg, nm_id = i, nm_flags = fl, nm_counts = cs, nm_sections = ss, nm_sect = 0,
       nm_rrnum = 0, nm_msg_ptr = None\<rparr> ns_s_max))))))"

section \<open>Parsing a record\<close>

text \<open>
  The three parts of \<open>ns_parserr\<close>: selecting the record, reading its fields at \<open>_msg_ptr\<close>, and
  advancing the handle. An error also returns the handle as the code has left it.
\<close>

definition forward_rr :: "ns_msg \<Rightarrow> nat \<Rightarrow> int \<Rightarrow> (ns_msg \<times> (int + unit)) option" where
  "forward_rr h section rrnum =
    (if rrnum > nm_rrnum h then
      (case nm_msg_ptr h of
        None \<Rightarrow> None
      | Some p \<Rightarrow>
        (case ns_skiprr (nm_msg h) p section (nat (rrnum - nm_rrnum h)) of
          None \<Rightarrow> None
        | Some (Inl e) \<Rightarrow> Some (h, Inl e)
        | Some (Inr b) \<Rightarrow> Some (h\<lparr>nm_msg_ptr := Some (p + b), nm_rrnum := rrnum\<rparr>, Inr ())))
     else Some (h, Inr ()))"

definition select_rr :: "ns_msg \<Rightarrow> nat \<Rightarrow> int \<Rightarrow> (ns_msg \<times> (int + unit)) option" where
  "select_rr h section rrnum0 =
    (if section \<ge> ns_s_max then Some (h, Inl ENODEV)
     else
       let h1 = (if section \<noteq> nm_sect h then setsection h section else h);
           rrnum = (if rrnum0 = - 1 then nm_rrnum h1 else rrnum0)
       in if rrnum < 0 \<or> rrnum \<ge> uint (nm_counts h1 ! section) then Some (h1, Inl ENODEV)
          else forward_rr (if rrnum < nm_rrnum h1 then setsection h1 section else h1) section rrnum)"

definition read_rr :: "ns_msg \<Rightarrow> nat \<Rightarrow> (ns_msg \<times> (int + ns_rr)) option" where
  "read_rr h section =
    (case nm_msg_ptr h of
      None \<Rightarrow> None
    | Some p \<Rightarrow>
    (case dn_expand (nm_msg h) p NS_MAXDNAME of
      None \<Rightarrow> None
    | Some (Inl e) \<Rightarrow> Some (h, Inl e)
    | Some (Inr (b, name)) \<Rightarrow>
      let p1 = p + b; eom = length (nm_msg h) in
      if p1 + 2 + 2 > eom then Some (h\<lparr>nm_msg_ptr := Some p1\<rparr>, Inl EMSGSIZE)
      else
      (case (ns_get16 (nm_msg h) p1, ns_get16 (nm_msg h) (p1 + 2)) of
        (Some ty, Some cl) \<Rightarrow>
          let p2 = p1 + 4 in
          if section = ns_s_qd then
            Some (h\<lparr>nm_msg_ptr := Some p2\<rparr>,
              Inr \<lparr>rr_name = name, rr_type = ty, rr_class = cl, rr_ttl = 0, rr_rdlength = 0, rr_rdata = None\<rparr>)
          else if p2 + 4 + 2 > eom then Some (h\<lparr>nm_msg_ptr := Some p2\<rparr>, Inl EMSGSIZE)
          else
            (case (ns_get32 (nm_msg h) p2, ns_get16 (nm_msg h) (p2 + 4)) of
              (Some t, Some rdlen) \<Rightarrow>
                let p3 = p2 + 6 in
                if p3 + unat rdlen > eom then Some (h\<lparr>nm_msg_ptr := Some p3\<rparr>, Inl EMSGSIZE)
                else Some (h\<lparr>nm_msg_ptr := Some (p3 + unat rdlen)\<rparr>,
                  Inr \<lparr>rr_name = name, rr_type = ty, rr_class = cl, rr_ttl = t, rr_rdlength = rdlen,
                    rr_rdata = Some p3\<rparr>)
            | _ \<Rightarrow> None)
      | _ \<Rightarrow> None)))"

definition ns_parserr :: "ns_msg \<Rightarrow> nat \<Rightarrow> int \<Rightarrow> (ns_msg \<times> (int + ns_rr)) option" where
  "ns_parserr h section rrnum =
    (case select_rr h section rrnum of
      None \<Rightarrow> None
    | Some (h1, Inl e) \<Rightarrow> Some (h1, Inl e)
    | Some (h1, Inr _) \<Rightarrow>
      (case read_rr h1 section of
        None \<Rightarrow> None
      | Some (h2, Inl e) \<Rightarrow> Some (h2, Inl e)
      | Some (h2, Inr rr) \<Rightarrow>
        let h3 = h2\<lparr>nm_rrnum := nm_rrnum h2 + 1\<rparr> in
        Some (if nm_rrnum h3 > uint (nm_counts h3 ! section) then setsection h3 (section + 1) else h3,
          Inr rr)))"

section \<open>The time to live of an answer\<close>

text \<open>The loop of \<open>answer_getTTL\<close> over the \<open>k\<close> records from number \<open>n\<close> on.\<close>

fun getTTL_loop :: "nat \<Rightarrow> nat \<Rightarrow> ns_msg \<Rightarrow> u32 \<Rightarrow> u32 option" where
  "getTTL_loop 0 n h result = Some result"
| "getTTL_loop (Suc k) n h result =
    (case ns_parserr h ns_s_an (int n) of
      None \<Rightarrow> None
    | Some (h', Inr rr) \<Rightarrow>
      let ttl = rr_ttl rr in getTTL_loop k (n + 1) h' (if n = 0 \<or> ttl < result then ttl else result)
    | Some (h', Inl e) \<Rightarrow> getTTL_loop k (n + 1) h' result)"

definition answer_getTTL :: "u8 list \<Rightarrow> u32 option" where
  "answer_getTTL answer =
    (case ns_initparse answer of
      None \<Rightarrow> None
    | Some (Inl e) \<Rightarrow> Some 0
    | Some (Inr handle) \<Rightarrow>
      let ancount = unat (nm_counts handle ! ns_s_an) in getTTL_loop ancount 0 handle 0)"

section \<open>Reads stay in the message\<close>

lemma ns_get16_some: "p + 2 \<le> length b \<Longrightarrow> \<exists>v. ns_get16 b p = Some v"
  by (simp add: ns_get16_def rd_def)

lemma ns_get32_some: "p + 4 \<le> length b \<Longrightarrow> \<exists>v. ns_get32 b p = Some v"
  by (simp add: ns_get32_def rd_def)

lemma skipname_total: "bounded_msg msg \<Longrightarrow> \<exists>r. dn_skipname msg p = Some r"
  using skip_total[of msg p] by (auto simp: dn_skipname_def ns_name_skip_def split: option.splits sum.splits)

lemma skiprr_total:
  assumes "bounded_msg msg"
  shows "\<exists>r. ns_skiprr msg p section k = Some r"
proof -
  have "\<exists>r. skiprr_loop msg section p k = Some r"
  proof (induction k arbitrary: p)
    case (Suc k)
    obtain r where r: "dn_skipname msg p = Some r" using skipname_total[OF assms] by blast
    show ?case
    proof (cases r)
      case (Inr b)
      then show ?thesis
        using r Suc ns_get16_some[of "p + b + 2 + 2 + 4" msg] by (auto simp: Let_def)
    qed (simp add: r)
  qed simp
  then show ?thesis by (auto simp: ns_skiprr_def split: sum.splits)
qed

text \<open>A computation that does not fault, and whose result, if it has one, satisfies a predicate.\<close>

definition runs :: "('a \<Rightarrow> bool) \<Rightarrow> 'a res \<Rightarrow> bool" where
  "runs P m \<longleftrightarrow> (\<exists>r. m = Some r \<and> (\<forall>v. r = Inr v \<longrightarrow> P v))"

lemma runs_ret [simp]: "runs P (Some (Inr v)) \<longleftrightarrow> P v" and runs_err [simp]: "runs P (Some (Inl e))"
  by (auto simp: runs_def)

lemma runs_rbind: "runs P m \<Longrightarrow> (\<And>v. P v \<Longrightarrow> runs Q (f v)) \<Longrightarrow> runs Q (rbind m f)"
  by (auto simp: runs_def rbind_def split: sum.splits)

lemma runs_mono: "runs P m \<Longrightarrow> (\<And>v. P v \<Longrightarrow> Q v) \<Longrightarrow> runs Q m"
  by (auto simp: runs_def)

lemma take16_runs: "runs (\<lambda>_. True) (take16 msg p)"
  using ns_get16_some[of p msg] by (auto simp: take16_def)

lemma skiprr_runs: "bounded_msg msg \<Longrightarrow> runs (\<lambda>_. True) (ns_skiprr msg p section k)"
  using skiprr_total by (auto simp: runs_def)

lemma init_counts_runs: "runs (\<lambda>(cs, q). length cs = k) (init_counts msg p k)"
proof (induction k arbitrary: p)
  case (Suc k)
  show ?case by (auto intro!: runs_rbind[OF take16_runs] runs_rbind[OF Suc.IH])
qed simp

text \<open>A section with records has a start.\<close>

definition starts_ok :: "u16 list \<Rightarrow> nat option list \<Rightarrow> bool" where
  "starts_ok cs ss \<longleftrightarrow> list_all2 (\<lambda>c s. c \<noteq> 0 \<longrightarrow> s \<noteq> None) cs ss"

lemma init_sections_runs:
  assumes "bounded_msg msg"
  shows "runs (\<lambda>(ss, q). starts_ok cs ss) (init_sections msg i p cs)"
proof (induction cs arbitrary: i p)
  case (Cons c cs)
  show ?case
    by (cases "c = 0")
      (auto simp: starts_ok_def intro!: runs_rbind[OF skiprr_runs[OF assms]] runs_rbind[OF Cons.IH])
qed (simp add: starts_ok_def)

definition handle_ok :: "ns_msg \<Rightarrow> bool" where
  "handle_ok h \<longleftrightarrow> bounded_msg (nm_msg h) \<and> length (nm_counts h) = ns_s_max \<and>
    starts_ok (nm_counts h) (nm_sections h) \<and>
    (nm_sect h < ns_s_max \<longrightarrow> nm_counts h ! nm_sect h \<noteq> 0 \<longrightarrow> nm_msg_ptr h \<noteq> None)"

lemma setsection_ok: "handle_ok h \<Longrightarrow> sect \<le> ns_s_max \<Longrightarrow> handle_ok (setsection h sect)"
  by (auto simp: handle_ok_def setsection_def starts_ok_def list_all2_conv_all_nth)

lemma initparse_runs:
  assumes "bounded_msg msg"
  shows "runs handle_ok (ns_initparse msg)"
  unfolding ns_initparse_def
  by (auto intro!: runs_rbind[OF take16_runs] runs_rbind[OF init_counts_runs] runs_rbind[OF init_sections_runs[OF assms]]
      simp: handle_ok_def setsection_def assms)

lemma setsection_fields:
  "nm_counts (setsection h sec) = nm_counts h" "nm_sect (setsection h sec) = sec"
  by (simp_all add: setsection_def)

text \<open>A handle that was moved: it is still well formed and, without error, stands at a record.\<close>

definition moved :: "ns_msg \<Rightarrow> (ns_msg \<times> (int + 'a)) option \<Rightarrow> bool" where
  "moved h res \<longleftrightarrow> (\<exists>h' r. res = Some (h', r) \<and> handle_ok h' \<and> nm_counts h' = nm_counts h \<and>
    (\<forall>v. r = Inr v \<longrightarrow> nm_msg_ptr h' \<noteq> None))"

lemma handle_ok_upd: "handle_ok h \<Longrightarrow> handle_ok (h\<lparr>nm_msg_ptr := Some p\<rparr>)"
  "handle_ok h \<Longrightarrow> handle_ok (h\<lparr>nm_rrnum := n\<rparr>)"
  "handle_ok h \<Longrightarrow> handle_ok (h\<lparr>nm_msg_ptr := Some p, nm_rrnum := n\<rparr>)"
  by (auto simp: handle_ok_def)

lemma forward_rr_moved:
  assumes "handle_ok h" "nm_sect h = sec" "sec < ns_s_max" "nm_counts h ! sec \<noteq> 0"
  shows "moved h (forward_rr h sec n)"
proof -
  obtain p where p: "nm_msg_ptr h = Some p" using assms by (auto simp: handle_ok_def)
  obtain r where "ns_skiprr (nm_msg h) p sec (nat (n - nm_rrnum h)) = Some r"
    using skiprr_total assms(1) unfolding handle_ok_def by blast
  then show ?thesis
    using assms(1) p handle_ok_upd by (cases r) (auto simp: moved_def forward_rr_def)
qed

lemma select_rr_moved:
  assumes "handle_ok h"
  shows "moved h (select_rr h sec n)"
proof (cases "sec < ns_s_max")
  case True
  let ?h = "if sec \<noteq> nm_sect h then setsection h sec else h"
  let ?n = "if n = - 1 then nm_rrnum ?h else n"
  let ?h2 = "if ?n < nm_rrnum ?h then setsection ?h sec else ?h"
  have h: "handle_ok ?h" "nm_counts ?h = nm_counts h"
    using assms True by (auto simp: setsection_fields setsection_ok)
  have h2: "handle_ok ?h2" "nm_sect ?h2 = sec" "nm_counts ?h2 = nm_counts h"
    using h True by (auto simp: setsection_fields setsection_ok)
  have step: "moved h (forward_rr g sec k)"
    if "handle_ok g" "nm_sect g = sec" "nm_counts g = nm_counts h" "\<not> (k < 0 \<or> k \<ge> uint (nm_counts ?h ! sec))" for g k
  proof -
    have "nm_counts g ! sec \<noteq> 0" using that(3,4) h(2) by (cases "nm_counts g ! sec = 0") auto
    from forward_rr_moved[OF that(1,2) True this, of k] show ?thesis using that(3) by (simp add: moved_def)
  qed
  have eq: "select_rr h sec n = (if ?n < 0 \<or> ?n \<ge> uint (nm_counts ?h ! sec) then Some (?h, Inl ENODEV) else forward_rr ?h2 sec ?n)"
    unfolding select_rr_def Let_def using True by (simp only: not_le[symmetric] if_False)
  show ?thesis
  proof (cases "?n < 0 \<or> ?n \<ge> uint (nm_counts ?h ! sec)")
    case True
    show ?thesis unfolding eq if_P[OF True] using h by (simp add: moved_def)
  next
    case False
    show ?thesis unfolding eq if_not_P[OF False] by (rule step[OF h2 False])
  qed
next
  case False
  then show ?thesis using assms by (simp add: select_rr_def moved_def)
qed

lemma read_rr_moved:
  assumes "handle_ok h" "nm_msg_ptr h = Some p"
  shows "moved h (read_rr h sec)"
proof -
  let ?m = "nm_msg h"
  have "bounded_msg ?m" using assms(1) by (simp add: handle_ok_def)
  then show ?thesis
  proof (rule expand_ok[of ?m p NS_MAXDNAME])
    fix e assume "dn_expand ?m p NS_MAXDNAME = Some (Inl e)"
    then show ?thesis using assms by (simp add: read_rr_def moved_def)
  next
    fix n d assume d: "dn_expand ?m p NS_MAXDNAME = Some (Inr (n, d))"
    show ?thesis
      using assms d ns_get16_some[of "p + n" ?m] ns_get16_some[of "p + n + 2" ?m]
        ns_get32_some[of "p + n + 4" ?m] ns_get16_some[of "p + n + 4 + 4" ?m]
      by (auto simp: read_rr_def moved_def Let_def handle_ok_upd)
  qed
qed

lemma parserr_moved:
  assumes "handle_ok h" "sec < ns_s_max"
  shows "\<exists>h' r. ns_parserr h sec n = Some (h', r) \<and> handle_ok h' \<and> nm_counts h' = nm_counts h"
proof -
  obtain h1 r1 where 1: "select_rr h sec n = Some (h1, r1)" "handle_ok h1" "nm_counts h1 = nm_counts h"
    "\<And>v. r1 = Inr v \<Longrightarrow> nm_msg_ptr h1 \<noteq> None"
    using select_rr_moved[OF assms(1), of sec n] unfolding moved_def by blast
  show ?thesis
  proof (cases r1)
    case (Inl e)
    then show ?thesis using 1 by (simp add: ns_parserr_def)
  next
    case (Inr u)
    then obtain p where "nm_msg_ptr h1 = Some p" using 1(4) by blast
    then obtain h2 r2 where 2: "read_rr h1 sec = Some (h2, r2)" "handle_ok h2" "nm_counts h2 = nm_counts h1"
      using read_rr_moved[OF 1(2)] unfolding moved_def by blast
    let ?h = "h2\<lparr>nm_rrnum := nm_rrnum h2 + 1\<rparr>"
    have "handle_ok ?h" using 2(2) by (rule handle_ok_upd)
    moreover from this have "handle_ok (setsection ?h (sec + 1))" using assms(2) by (simp add: setsection_ok)
    ultimately show ?thesis
      using 1 2 Inr by (cases r2) (auto simp: ns_parserr_def Let_def setsection_fields)
  qed
qed

section \<open>The smallest time to live\<close>

text \<open>What \<open>ns_parserr\<close> says of each of the \<open>k\<close> answer records from \<open>n\<close> on: its TTL, or \<open>None\<close>.\<close>

fun record_ttls :: "nat \<Rightarrow> nat \<Rightarrow> ns_msg \<Rightarrow> u32 option list option" where
  "record_ttls 0 n h = Some []"
| "record_ttls (Suc k) n h =
    (case ns_parserr h ns_s_an (int n) of
      None \<Rightarrow> None
    | Some (h', Inr rr) \<Rightarrow> map_option ((#) (Some (rr_ttl rr))) (record_ttls k (n + 1) h')
    | Some (h', Inl e) \<Rightarrow> map_option ((#) None) (record_ttls k (n + 1) h'))"

definition answer_ttls :: "u8 list \<Rightarrow> u32 option list option" where
  "answer_ttls answer =
    (case ns_initparse answer of
      None \<Rightarrow> None
    | Some (Inl e) \<Rightarrow> Some []
    | Some (Inr h) \<Rightarrow> record_ttls (unat (nm_counts h ! ns_s_an)) 0 h)"

definition somes :: "'a option list \<Rightarrow> 'a list" where
  "somes xs = map the (filter (\<lambda>x. x \<noteq> None) xs)"

definition smallest_ttl :: "u32 option list \<Rightarrow> u32" where
  "smallest_ttl ts =
    (case ts of Some t # rest \<Rightarrow> Min (set (t # somes rest)) | _ \<Rightarrow> 0)"

lemma record_ttls_total:
  "handle_ok h \<Longrightarrow> \<exists>ts. record_ttls k n h = Some ts"
proof (induction k arbitrary: n h)
  case (Suc k)
  obtain h' r where h': "ns_parserr h ns_s_an (int n) = Some (h', r)" "handle_ok h'"
    using parserr_moved[OF Suc.prems, of ns_s_an "int n"] by (auto simp: ns_s_an_def ns_s_max_def)
  then show ?case using Suc.IH[OF h'(2), of "n + 1"] by (cases r) auto
qed simp

lemma fold_min: "fold min ts t = Min (set (t # ts))" for t :: "'a :: linorder"
  by (induction ts arbitrary: t) (simp, metis List.fold_simps(2) Min.set_eq_fold)

lemma getTTL_loop_min:
  "0 < n \<Longrightarrow> getTTL_loop k n h r = map_option (\<lambda>ts. fold min (somes ts) r) (record_ttls k n h)"
proof (induction k arbitrary: n h r)
  case (Suc k)
  have m: "(if t < r then t else r) = min t r" for t :: u32 by (auto simp: min_def)
  show ?case
    using Suc by (auto simp: somes_def m Let_def option.map_comp comp_def split: option.splits sum.splits)
qed (simp add: somes_def)

lemma fold_min_0: "fold min ts (0 :: u32) = 0"
  by (induction ts) auto

lemma getTTL_loop_smallest:
  "getTTL_loop k 0 h 0 = map_option smallest_ttl (record_ttls k 0 h)"
proof (cases k)
  case (Suc m)
  have n1: "getTTL_loop m 1 h' r = map_option (\<lambda>ts. fold min (somes ts) r) (record_ttls m 1 h')" for h' r
    by (rule getTTL_loop_min) simp
  show ?thesis
    using n1 unfolding Suc
    by (auto simp: smallest_ttl_def Let_def option.map_comp comp_def fold_min[symmetric] fold_min_0 simp del: set_simps
        split: option.splits sum.splits intro!: arg_cong[where f = "\<lambda>f. map_option f _"])
qed (simp add: smallest_ttl_def)


text \<open>
  Two address records, the second with a name that is a compression pointer to itself. The
  message as a whole is accepted, since \<open>ns_initparse\<close> steps over names without following them.
\<close>

definition answer_bad_second :: "u8 list" where
  "answer_bad_second =
    [0, 1, 0x81, 0x80, 0, 0, 0, 2, 0, 0, 0, 0,
     0, 0, 1, 0, 1, 0, 0, 0, 60, 0, 0,
     0xc0, 23, 0, 1, 0, 1, 0, 0, 0, 30, 0, 0]"

lemma answer_bad_second_ttl:
  "answer_ttls answer_bad_second = Some [Some 60, None] \<and> answer_getTTL answer_bad_second = Some 60"
  by code_simp




lemma dn_expand_example: "dn_expand [1, 97, 0, 0xc0, 0] 3 100 = Some (Inr (2, [97, 0]))"
  by code_simp

text \<open>The over-read: the length byte of a bit string label at the end of the message.\<close>

lemma dn_expand_overread: "dn_expand [0x41] 0 100 = None"
  by code_simp

end
