(* ===== verification/Lru_List.thy ===== *)
theory Lru_List
  imports Bionic_Prelude
begin

text \<open>
  What a cache with least-recently-used replacement promises, on the list of its entries in the
  order of their last use: entries are found by a relation between keys, a hit moves its entry to
  the front, an insertion at the limit drops the last entry. The relation is a parameter; the
  lemmas hold for every relation that is an equivalence on the keys in use.
\<close>

type_synonym ('k, 'v) lru = "('k \<times> 'v) list"

definition find_key :: "('k \<Rightarrow> 'k \<Rightarrow> bool) \<Rightarrow> 'k \<Rightarrow> ('k, 'v) lru \<Rightarrow> ('k \<times> 'v) option" where
  "find_key same k A = find (\<lambda>e. same (fst e) k) A"

definition delete_key :: "('k \<Rightarrow> 'k \<Rightarrow> bool) \<Rightarrow> 'k \<Rightarrow> ('k, 'v) lru \<Rightarrow> ('k, 'v) lru" where
  "delete_key same k A = filter (\<lambda>e. \<not> same (fst e) k) A"

definition touch_key :: "('k \<Rightarrow> 'k \<Rightarrow> bool) \<Rightarrow> 'k \<Rightarrow> ('k, 'v) lru \<Rightarrow> ('k, 'v) lru" where
  "touch_key same k A =
    (case find_key same k A of None \<Rightarrow> A | Some e \<Rightarrow> e # delete_key same k A)"

definition unique_keys :: "('k \<Rightarrow> 'k \<Rightarrow> bool) \<Rightarrow> ('k, 'v) lru \<Rightarrow> bool" where
  "unique_keys same A \<longleftrightarrow> sorted_wrt (\<lambda>a b. \<not> same (fst a) (fst b)) A"

lemma find_key_None: "find_key same k A = None \<longleftrightarrow> (\<forall>e \<in> set A. \<not> same (fst e) k)"
  by (auto simp: find_key_def find_None_iff)

lemma find_key_Some: "find_key same k A = Some e \<Longrightarrow> e \<in> set A \<and> same (fst e) k"
  by (auto simp: find_key_def find_Some_iff)

lemma find_key_Cons:
  "find_key same k (e # A) = (if same (fst e) k then Some e else find_key same k A)"
  by (simp add: find_key_def)

lemma delete_key_id: "find_key same k A = None \<Longrightarrow> delete_key same k A = A"
  by (simp add: delete_key_def find_key_None filter_id_conv)

lemma length_delete_key: "length (delete_key same k A) \<le> length A"
  by (simp add: delete_key_def)

locale key_relation =
  fixes valid :: "'k \<Rightarrow> bool" and same :: "'k \<Rightarrow> 'k \<Rightarrow> bool"
  assumes same_refl: "valid a \<Longrightarrow> same a a"
    and same_sym: "valid a \<Longrightarrow> valid b \<Longrightarrow> same a b \<Longrightarrow> same b a"
    and same_trans: "valid a \<Longrightarrow> valid b \<Longrightarrow> valid c \<Longrightarrow> same a b \<Longrightarrow> same b c \<Longrightarrow> same a c"
begin

lemma unique_find:
  assumes "unique_keys same A" "\<forall>e \<in> set A. valid (fst e)" "valid k" "e \<in> set A" "same (fst e) k"
  shows "find_key same k A = Some e"
  using assms
proof (induction A)
  case (Cons x A)
  show ?case
  proof (cases "x = e")
    case False
    then have e: "e \<in> set A" using Cons.prems by simp
    have "\<not> same (fst x) (fst e)" using Cons.prems(1) e by (simp add: unique_keys_def)
    then have "\<not> same (fst x) k"
      using Cons.prems e same_sym[of "fst e" k] same_trans[of "fst x" k "fst e"] by auto
    then show ?thesis using Cons e by (simp add: find_key_Cons unique_keys_def)
  qed (use Cons.prems in \<open>simp add: find_key_Cons\<close>)
qed simp

lemma unique_Cons:
  assumes "unique_keys same A" "\<forall>e \<in> set A. valid (fst e)" "valid (fst e)" "find_key same (fst e) A = None"
  shows "unique_keys same (e # A)"
  using assms same_sym[of "fst e"] by (auto simp: unique_keys_def find_key_None)

lemma unique_delete: "unique_keys same A \<Longrightarrow> unique_keys same (delete_key same k A)"
  by (simp add: unique_keys_def delete_key_def sorted_wrt_filter)

lemma unique_butlast: "unique_keys same A \<Longrightarrow> unique_keys same (butlast A)"
  by (simp add: unique_keys_def butlast_conv_take sorted_wrt_take)

lemma delete_find:
  assumes "\<forall>e \<in> set A. valid (fst e)" "valid k" "valid k'"
  shows "find_key same k' (delete_key same k A) = (if same k' k then None else find_key same k' A)"
  using assms(1)
proof (induction A)
  case (Cons e A)
  have v: "valid (fst e)" using Cons.prems by simp
  show ?case
  proof (cases "same k' k")
    case True
    then show ?thesis using Cons v assms(2,3) same_trans[of "fst e" k' k]
      by (auto simp: delete_key_def find_key_def)
  next
    case False
    then show ?thesis using Cons v assms(2,3) same_trans[of k' "fst e" k] same_sym[of "fst e" k']
      by (auto simp: delete_key_def find_key_def)
  qed
qed (simp add: find_key_def delete_key_def)

lemma delete_split:
  assumes "unique_keys same (X @ e # Y)" "\<forall>x \<in> set (X @ e # Y). valid (fst x)" "valid k" "same (fst e) k"
  shows "delete_key same k (X @ e # Y) = X @ Y"
proof -
  have "\<not> same (fst x) k" if "x \<in> set X" for x
    using assms that same_sym[of "fst e" k] same_trans[of "fst x" k "fst e"] by (auto simp: unique_keys_def sorted_wrt_append)
  moreover have "\<not> same (fst y) k" if "y \<in> set Y" for y
    using assms that same_sym[of "fst y" k] same_trans[of "fst e" k "fst y"] by (auto simp: unique_keys_def sorted_wrt_append)
  ultimately show ?thesis using assms(4) by (simp add: delete_key_def filter_id_conv)
qed

lemma touch_unique:
  assumes "unique_keys same A" "\<forall>e \<in> set A. valid (fst e)" "valid k"
  shows "unique_keys same (touch_key same k A)"
proof (cases "find_key same k A")
  case (Some e)
  then have e: "e \<in> set A" "same (fst e) k" using find_key_Some[OF Some] by auto
  have "find_key same (fst e) (delete_key same k A) = None"
    using delete_find[OF assms(2,3), of "fst e"] assms(2) e by simp
  moreover have "\<forall>x \<in> set (delete_key same k A). valid (fst x)" using assms(2) by (simp add: delete_key_def)
  ultimately show ?thesis
    using unique_Cons[OF unique_delete[OF assms(1)]] assms(2) e Some by (simp add: touch_key_def)
qed (use assms in \<open>simp add: touch_key_def\<close>)

text \<open>A hit does not change what any lookup finds.\<close>

lemma touch_find:
  assumes "unique_keys same A" "\<forall>e \<in> set A. valid (fst e)" "valid k" "valid k'"
  shows "find_key same k' (touch_key same k A) = find_key same k' A"
proof (cases "find_key same k A")
  case (Some e)
  then have e: "e \<in> set A" "same (fst e) k" "valid (fst e)" using find_key_Some[OF Some] assms(2) by auto
  show ?thesis
  proof (cases "same (fst e) k'")
    case True
    then show ?thesis using unique_find[OF assms(1,2,4) e(1)] Some by (simp add: touch_key_def find_key_Cons)
  next
    case False
    then have "\<not> same k' k" using e assms(3,4) same_sym[of k' k] same_trans[of "fst e" k k'] by auto
    then show ?thesis using False Some delete_find[OF assms(2-4)] by (simp add: touch_key_def find_key_Cons)
  qed
qed (simp add: touch_key_def)

end

end
