(* ===== verification/Res_Cache.thy ===== *)
theory Res_Cache
  imports Dns_Packet Ns_Parse Lru_List
begin

text \<open>
  The resolver cache, \<open>netbsd/resolv/res_cache.c\<close>: a hash table of entries chained through
  \<open>hlink\<close>, all of them also on a doubly linked ring in the order of their last use. The memory is
  an explicit store from addresses to entries: 0 is the null pointer, 1 the address of the ring's
  head \<open>cache->mru_list\<close>, a freed entry is \<open>None\<close>. An operation is \<open>None\<close> when it dereferences
  a null or freed pointer or does not return. The cache's mutex is held from the lookup to the end
  of each operation, so an operation is one step. The allocator is a parameter: the address it
  returns for a given store, 0 if it fails.
\<close>

section \<open>Entries\<close>

type_synonym eptr = nat

definition NULL :: eptr where "NULL = 0"

definition MRU_LIST :: eptr where "MRU_LIST = 1"

record Entry =
  ehash :: u32
  hlink :: eptr
  mru_prev :: eptr
  mru_next :: eptr
  equery :: "u8 list"
  eanswer :: "u8 list"
  expires :: u32
  eid :: u32

type_synonym store = "eptr \<Rightarrow> Entry option"

definition upd_entry :: "store \<Rightarrow> eptr \<Rightarrow> (Entry \<Rightarrow> Entry) \<Rightarrow> store option" where
  "upd_entry h a f = (case h a of None \<Rightarrow> None | Some e \<Rightarrow> Some (h(a \<mapsto> f e)))"

definition entry_free :: "store \<Rightarrow> eptr \<Rightarrow> store" where
  "entry_free h e = (if e \<noteq> NULL then h(e := None) else h)"

definition entry_mru_remove :: "store \<Rightarrow> eptr \<Rightarrow> store option" where
  "entry_mru_remove h e =
    do {
      x \<leftarrow> h e;
      h1 \<leftarrow> upd_entry h (mru_prev x) (\<lambda>y. y\<lparr>mru_next := mru_next x\<rparr>);
      x1 \<leftarrow> h1 e;
      upd_entry h1 (mru_next x1) (\<lambda>y. y\<lparr>mru_prev := mru_prev x1\<rparr>)
    }"

definition entry_mru_add :: "store \<Rightarrow> eptr \<Rightarrow> eptr \<Rightarrow> store option" where
  "entry_mru_add h e lst =
    do {
      l \<leftarrow> h lst;
      let first = mru_next l;
      h1 \<leftarrow> upd_entry h e (\<lambda>y. y\<lparr>mru_next := first, mru_prev := lst\<rparr>);
      h2 \<leftarrow> upd_entry h1 lst (\<lambda>y. y\<lparr>mru_next := e\<rparr>);
      upd_entry h2 first (\<lambda>y. y\<lparr>mru_prev := e\<rparr>)
    }"

definition entry_hash :: "u8 list \<Rightarrow> u32 option" where
  "entry_hash query = query_hash query"

text \<open>The hash is computed before the query is checked. The result is the hash and the verdict.\<close>

definition entry_init_key :: "u8 list \<Rightarrow> (u32 \<times> bool) option" where
  "entry_init_key query =
    (case entry_hash query of
      None \<Rightarrow> None
    | Some h \<Rightarrow> Some (h, fst (dnsPacket_checkQuery (dnsPacket_init query))))"

definition entry_alloc :: "(store \<Rightarrow> eptr) \<Rightarrow> store \<Rightarrow> u32 \<Rightarrow> u8 list \<Rightarrow> u8 list \<Rightarrow> store \<times> eptr" where
  "entry_alloc calloc h hash query answer =
    (let e = calloc h in
     if e = NULL then (h, NULL)
     else (h(e \<mapsto> \<lparr>ehash = hash, hlink = NULL, mru_prev = NULL, mru_next = NULL, equery = query,
       eanswer = answer, expires = 0, eid = 0\<rparr>), e))"

definition entry_equals :: "u8 list \<Rightarrow> u8 list \<Rightarrow> bool option" where
  "entry_equals q1 q2 = (if length q1 \<noteq> length q2 then Some False else queries_equal q1 q2)"

section \<open>The hash table\<close>

record Cache =
  max_entries :: nat
  num_entries :: int
  generation :: u32
  last_id :: u32
  entries :: "eptr list"
  heap :: store

text \<open>An \<open>Entry**\<close>: the address of a bucket or of the \<open>hlink\<close> field of an entry.\<close>

datatype lref = Bucket nat | Hlink eptr

fun deref :: "Cache \<Rightarrow> lref \<Rightarrow> eptr option" where
  "deref c (Bucket i) = (if i < length (entries c) then Some (entries c ! i) else None)"
| "deref c (Hlink a) = map_option hlink (heap c a)"

fun assign :: "Cache \<Rightarrow> lref \<Rightarrow> eptr \<Rightarrow> Cache option" where
  "assign c (Bucket i) v = (if i < length (entries c) then Some (c\<lparr>entries := (entries c)[i := v]\<rparr>) else None)"
| "assign c (Hlink a) v = map_option (\<lambda>h. c\<lparr>heap := h\<rparr>) (upd_entry (heap c) a (\<lambda>y. y\<lparr>hlink := v\<rparr>))"

partial_function (option) lookup_loop :: "Cache \<Rightarrow> u32 \<Rightarrow> u8 list \<Rightarrow> lref \<Rightarrow> lref option" where
  "lookup_loop c hash query pnode =
    do {
      node \<leftarrow> deref c pnode;
      if node = NULL then Some pnode
      else do {
        e \<leftarrow> heap c node;
        found \<leftarrow> (if ehash e = hash then entry_equals (equery e) query else Some False);
        if found then Some pnode else lookup_loop c hash query (Hlink node)
      }
    }"

definition cache_lookup_p :: "Cache \<Rightarrow> u32 \<Rightarrow> u8 list \<Rightarrow> lref option" where
  "cache_lookup_p c hash query =
    (if max_entries c = 0 then None
     else lookup_loop c hash query (Bucket (unat hash mod max_entries c)))"

definition cache_add_p :: "Cache \<Rightarrow> lref \<Rightarrow> eptr \<Rightarrow> Cache option" where
  "cache_add_p c lookup e =
    do {
      c1 \<leftarrow> assign c lookup e;
      let i = last_id c1 + 1;
      h1 \<leftarrow> upd_entry (heap c1) e (\<lambda>y. y\<lparr>eid := i\<rparr>);
      h2 \<leftarrow> entry_mru_add h1 e MRU_LIST;
      Some (c1\<lparr>heap := h2, last_id := i, num_entries := num_entries c1 + 1\<rparr>)
    }"

definition cache_remove_p :: "Cache \<Rightarrow> lref \<Rightarrow> Cache option" where
  "cache_remove_p c lookup =
    do {
      e \<leftarrow> deref c lookup;
      h1 \<leftarrow> entry_mru_remove (heap c) e;
      x \<leftarrow> h1 e;
      c2 \<leftarrow> assign (c\<lparr>heap := h1\<rparr>) lookup (hlink x);
      Some (c2\<lparr>heap := entry_free (heap c2) e, num_entries := num_entries c2 - 1\<rparr>)
    }"

definition cache_remove_oldest :: "Cache \<Rightarrow> Cache option" where
  "cache_remove_oldest c =
    do {
      l \<leftarrow> heap c MRU_LIST;
      let oldest = mru_prev l;
      x \<leftarrow> heap c oldest;
      lookup \<leftarrow> cache_lookup_p c (ehash x) (equery x);
      node \<leftarrow> deref c lookup;
      if node = NULL then Some c else cache_remove_p c lookup
    }"

section \<open>The operations of the cache\<close>

datatype ResolvCacheStatus = RESOLV_CACHE_UNSUPPORTED | RESOLV_CACHE_NOTFOUND | RESOLV_CACHE_FOUND

text \<open>
  What a lookup returns: the status, what was copied to \<open>answer\<close>, what was stored in \<open>*answerlen\<close>.
\<close>

type_synonym lookup_out = "ResolvCacheStatus \<times> u8 list option \<times> nat option"

text \<open>Moving an entry to the front of the ring, as a hit does.\<close>

definition mru_bump :: "store \<Rightarrow> eptr \<Rightarrow> store option" where
  "mru_bump h e =
    do {
      l \<leftarrow> h MRU_LIST;
      if e \<noteq> mru_next l then do { h1 \<leftarrow> entry_mru_remove h e; entry_mru_add h1 e MRU_LIST } else Some h
    }"

definition resolv_cache_lookup :: "Cache \<Rightarrow> u8 list \<Rightarrow> nat \<Rightarrow> u32 \<Rightarrow> (Cache \<times> lookup_out) option" where
  "resolv_cache_lookup c query answersize now =
    do {
      (hash, ok) \<leftarrow> entry_init_key query;
      if \<not> ok then Some (c, RESOLV_CACHE_UNSUPPORTED, None, None)
      else do {
        lookup \<leftarrow> cache_lookup_p c hash query;
        e \<leftarrow> deref c lookup;
        if e = NULL then Some (c, RESOLV_CACHE_NOTFOUND, None, None)
        else do {
          x \<leftarrow> heap c e;
          if sint now \<ge> sint (expires x) then do {
            c1 \<leftarrow> cache_remove_p c lookup;
            Some (c1, RESOLV_CACHE_NOTFOUND, None, None)
          }
          else if length (eanswer x) > answersize then
            Some (c, RESOLV_CACHE_UNSUPPORTED, None, Some (length (eanswer x)))
          else do {
            h1 \<leftarrow> mru_bump (heap c) e;
            Some (c\<lparr>heap := h1\<rparr>, RESOLV_CACHE_FOUND, Some (eanswer x), Some (length (eanswer x)))
          }
        }
      }
    }"

text \<open>The part of \<open>_resolv_cache_add\<close> after the place for the new entry has been found.\<close>

definition add_entry :: "(store \<Rightarrow> eptr) \<Rightarrow> Cache \<Rightarrow> lref \<Rightarrow> u32 \<Rightarrow> u8 list \<Rightarrow> u8 list \<Rightarrow> u32 \<Rightarrow> Cache option" where
  "add_entry calloc c lookup hash query answer now =
    do {
      ttl \<leftarrow> answer_getTTL answer;
      if ttl > 0 then
        let (h1, e) = entry_alloc calloc (heap c) hash query answer in
        if e \<noteq> NULL then do {
          h2 \<leftarrow> upd_entry h1 e (\<lambda>y. y\<lparr>expires := ttl + now\<rparr>);
          cache_add_p (c\<lparr>heap := h2\<rparr>) lookup e
        }
        else Some c
      else Some c
    }"

definition resolv_cache_add :: "(store \<Rightarrow> eptr) \<Rightarrow> Cache \<Rightarrow> u8 list \<Rightarrow> u8 list \<Rightarrow> u32 \<Rightarrow> Cache option" where
  "resolv_cache_add calloc c query answer now =
    do {
      (hash, ok) \<leftarrow> entry_init_key query;
      if \<not> ok then Some c
      else do {
        lookup \<leftarrow> cache_lookup_p c hash query;
        e \<leftarrow> deref c lookup;
        if e \<noteq> NULL then Some c
        else if num_entries c \<ge> int (max_entries c) then do {
          c1 \<leftarrow> cache_remove_oldest c;
          lookup1 \<leftarrow> cache_lookup_p c1 hash query;
          e1 \<leftarrow> deref c1 lookup1;
          if e1 \<noteq> NULL then Some c1 else add_entry calloc c1 lookup1 hash query answer now
        }
        else add_entry calloc c lookup hash query answer now
      }
    }"

partial_function (option) flush_bucket :: "Cache \<Rightarrow> nat \<Rightarrow> Cache option" where
  "flush_bucket c nn =
    do {
      node \<leftarrow> deref c (Bucket nn);
      if node = NULL then Some c
      else do {
        x \<leftarrow> heap c node;
        c1 \<leftarrow> assign c (Bucket nn) (hlink x);
        flush_bucket (c1\<lparr>heap := entry_free (heap c1) node\<rparr>) nn
      }
    }"

fun flush_buckets :: "nat list \<Rightarrow> Cache \<Rightarrow> Cache option" where
  "flush_buckets [] c = Some c"
| "flush_buckets (nn # ns) c = do { c1 \<leftarrow> flush_bucket c nn; flush_buckets ns c1 }"

definition cache_flush_locked :: "Cache \<Rightarrow> Cache option" where
  "cache_flush_locked c =
    do {
      c1 \<leftarrow> flush_buckets [0..<max_entries c] c;
      h1 \<leftarrow> upd_entry (heap c1) MRU_LIST (\<lambda>y. y\<lparr>mru_prev := MRU_LIST, mru_next := MRU_LIST\<rparr>);
      Some (c1\<lparr>heap := h1, num_entries := 0, last_id := 0\<rparr>)
    }"

definition zero_entry :: Entry where
  "zero_entry = \<lparr>ehash = 0, hlink = NULL, mru_prev = NULL, mru_next = NULL, equery = [], eanswer = [],
    expires = 0, eid = 0\<rparr>"

text \<open>\<open>_resolv_cache_create\<close>; \<open>ok1\<close> and \<open>ok2\<close> say whether the two allocations succeed.\<close>

definition resolv_cache_create :: "bool \<Rightarrow> bool \<Rightarrow> nat \<Rightarrow> Cache option" where
  "resolv_cache_create ok1 ok2 maxe =
    (if ok1 \<and> ok2 then
       Some \<lparr>max_entries = maxe, num_entries = 0, generation = NOT 0, last_id = 0,
         entries = replicate maxe NULL,
         heap = [MRU_LIST \<mapsto> zero_entry\<lparr>mru_prev := MRU_LIST, mru_next := MRU_LIST\<rparr>]\<rparr>
     else None)"

section \<open>The ring of entries\<close>

text \<open>The links of a store, field by field, so that an update of one field is a map update.\<close>

definition nxt :: "store \<Rightarrow> eptr \<rightharpoonup> eptr" where "nxt h a = map_option mru_next (h a)"

definition prv :: "store \<Rightarrow> eptr \<rightharpoonup> eptr" where "prv h a = map_option mru_prev (h a)"

definition hl :: "store \<Rightarrow> eptr \<rightharpoonup> eptr" where "hl h a = map_option hlink (h a)"

definition content :: "Entry \<Rightarrow> u32 \<times> u8 list \<times> u8 list \<times> u32" where
  "content e = (ehash e, equery e, eanswer e, expires e)"

definition cont :: "store \<Rightarrow> eptr \<rightharpoonup> u32 \<times> u8 list \<times> u8 list \<times> u32" where
  "cont h a = map_option content (h a)"

lemmas view_defs = nxt_def prv_def hl_def cont_def content_def

lemma dom_cont: "dom (cont h) = dom h"
  by (auto simp: cont_def)

fun links :: "(eptr \<rightharpoonup> eptr) \<Rightarrow> (eptr \<rightharpoonup> eptr) \<Rightarrow> eptr list \<Rightarrow> bool" where
  "links f g (a # b # zs) \<longleftrightarrow> f a = Some b \<and> g b = Some a \<and> links f g (b # zs)"
| "links f g _ \<longleftrightarrow> True"

lemma links_split: "links f g (us @ p # vs) \<longleftrightarrow> links f g (us @ [p]) \<and> links f g (p # vs)"
proof (induction us)
  case (Cons u us)
  then show ?case by (cases us) auto
qed simp

lemma links_frame:
  "(\<And>z. z \<in> set (butlast zs) \<Longrightarrow> f' z = f z) \<Longrightarrow> (\<And>z. z \<in> set (tl zs) \<Longrightarrow> g' z = g z) \<Longrightarrow>
    links f' g' zs \<longleftrightarrow> links f g zs"
proof (induction zs)
  case (Cons a zs)
  show ?case
  proof (cases zs)
    case zs: (Cons b ws)
    have "links f' g' zs \<longleftrightarrow> links f g zs" by (rule Cons.IH) (use Cons.prems zs in auto)
    moreover have "f' a = f a" "g' b = g b" using Cons.prems zs by auto
    ultimately show ?thesis using zs by simp
  qed simp
qed simp

text \<open>The two neighbours of a node on the ring.\<close>

lemma ring_neighbours:
  assumes "links f g (S # xs @ x # ys @ [S])"
  obtains p n where "f x = Some n" "g x = Some p" "p = last (S # xs)" "n = hd (ys @ [S])"
    "f p = Some x" "g n = Some x"
proof -
  obtain us p where u: "S # xs = us @ [p]" by (metis list.distinct(1) rev_exhaust)
  obtain n vs where v: "ys @ [S] = n # vs" by (cases ys) auto
  have "S # xs @ x # ys @ [S] = us @ p # x # n # vs" using arg_cong[OF u, of "\<lambda>l. l @ x # ys @ [S]"] v by simp
  then have "links f g (us @ p # x # n # vs)" using assms by simp
  then have "links f g (p # x # n # vs)" using links_split[of f g us p "x # n # vs"] by blast
  then have "f x = Some n" "g x = Some p" "f p = Some x" "g n = Some x" by simp_all
  moreover have "p = last (S # xs)" by (simp only: u last_snoc)
  moreover have "n = hd (ys @ [S])" by (simp only: v list.sel(1))
  ultimately show ?thesis using that by blast
qed

lemma links_remove:
  assumes "links f g (S # xs @ x # ys @ [S])" "distinct (S # xs @ x # ys)" "f x = Some n" "g x = Some p"
  shows "links (f(p \<mapsto> n)) (g(n \<mapsto> p)) (S # xs @ ys @ [S])"
proof -
  obtain us p' where u: "S # xs = us @ [p']" by (metis list.distinct(1) rev_exhaust)
  obtain n' vs where v: "ys @ [S] = n' # vs" by (cases ys) auto
  have "S # xs @ x # ys @ [S] = us @ p' # x # n' # vs" using arg_cong[OF u, of "\<lambda>l. l @ x # ys @ [S]"] v by simp
  then have "links f g (us @ p' # x # n' # vs)" using assms(1) by simp
  then have l: "links f g (us @ [p'])" "links f g (n' # vs)" "f x = Some n'" "g x = Some p'"
    using links_split[of f g us p' "x # n' # vs"] by auto
  then have pn: "p' = p" "n' = n" using assms(3,4) by auto
  have "distinct ((us @ [p]) @ x # ys)" using assms(2) u pn by (metis append_Cons)
  then have d: "distinct (us @ [p])" "set (us @ [p]) \<inter> set ys = {}" by auto
  have n: "n \<in> set ys \<or> n = S \<and> vs = []" using v pn by (cases ys) auto
  have 1: "links (f(p \<mapsto> n)) (g(n \<mapsto> p)) (us @ [p])"
  proof (subst links_frame)
    fix z assume "z \<in> set (tl (us @ [p]))"
    then have "z \<in> set xs" using u pn by (metis list.sel(3))
    then show "(g(n \<mapsto> p)) z = g z" using n assms(2) by auto
  qed (use d(1) l(1) pn in auto)
  have 2: "links (f(p \<mapsto> n)) (g(n \<mapsto> p)) (n # vs)"
  proof (subst links_frame)
    have b: "butlast (n # vs) = ys" using v pn by (metis butlast_snoc)
    show "z \<in> set (butlast (n # vs)) \<Longrightarrow> (f(p \<mapsto> n)) z = f z" for z using b d(2) by auto
    have "n \<notin> set vs" using v pn assms(2) by (cases ys) auto
    then show "z \<in> set (tl (n # vs)) \<Longrightarrow> (g(n \<mapsto> p)) z = g z" for z by auto
  qed (use l(2) pn in auto)
  have "(f(p \<mapsto> n)) p = Some n" "(g(n \<mapsto> p)) n = Some p" by simp_all
  then have "links (f(p \<mapsto> n)) (g(n \<mapsto> p)) (us @ p # n # vs)"
    using links_split[of _ _ us p "n # vs", THEN iffD2, OF conjI, OF 1] 2 by simp
  moreover have "S # xs @ ys @ [S] = us @ p # n # vs" using arg_cong[OF u, of "\<lambda>l. l @ ys @ [S]"] v pn by simp
  ultimately show ?thesis by simp
qed

lemma links_add:
  assumes "links f g (S # ms @ [S])" "distinct (S # ms)" "e \<notin> set (S # ms)" "f S = Some fi"
  shows "links (f(e \<mapsto> fi, S \<mapsto> e)) (g(e \<mapsto> S, fi \<mapsto> e)) (S # e # ms @ [S])"
proof -
  obtain vs where v: "ms @ [S] = fi # vs" using assms(1,4) by (cases ms) auto
  have l: "links f g (fi # vs)" using assms(1) v by simp
  have b: "butlast (fi # vs) = ms" using v by (metis butlast_snoc)
  have n: "fi \<notin> set vs" "e \<notin> set (fi # vs)" using v assms(2,3) by (cases ms; auto)+
  have "links (f(e \<mapsto> fi, S \<mapsto> e)) (g(e \<mapsto> S, fi \<mapsto> e)) (fi # vs)"
  proof (subst links_frame)
    show "z \<in> set (butlast (fi # vs)) \<Longrightarrow> (f(e \<mapsto> fi, S \<mapsto> e)) z = f z" for z using b assms(2,3) by auto
    show "z \<in> set (tl (fi # vs)) \<Longrightarrow> (g(e \<mapsto> S, fi \<mapsto> e)) z = g z" for z using n by auto
  qed (rule l)
  moreover have "e \<noteq> fi" using n by auto
  ultimately show ?thesis using v assms(3) by simp
qed

section \<open>What the pointer updates do to the links\<close>

lemma view_upd:
  "nxt (h(a \<mapsto> y)) = (nxt h)(a \<mapsto> mru_next y)" "prv (h(a \<mapsto> y)) = (prv h)(a \<mapsto> mru_prev y)"
  "hl (h(a \<mapsto> y)) = (hl h)(a \<mapsto> hlink y)" "cont (h(a \<mapsto> y)) = (cont h)(a \<mapsto> content y)"
  "nxt (h(a := None)) = (nxt h)(a := None)" "prv (h(a := None)) = (prv h)(a := None)"
  "hl (h(a := None)) = (hl h)(a := None)" "cont (h(a := None)) = (cont h)(a := None)"
  by (auto simp: view_defs fun_eq_iff)

lemma view_same:
  assumes "h a = Some x"
  shows "(nxt h)(a \<mapsto> mru_next x) = nxt h" "(prv h)(a \<mapsto> mru_prev x) = prv h"
    "(hl h)(a \<mapsto> hlink x) = hl h" "(cont h)(a \<mapsto> content x) = cont h"
  using assms by (auto simp: view_defs fun_eq_iff)

lemma content_upd [simp]:
  "content (x\<lparr>mru_next := v\<rparr>) = content x" "content (x\<lparr>mru_prev := v\<rparr>) = content x"
  "content (x\<lparr>hlink := v\<rparr>) = content x" "content (x\<lparr>eid := i\<rparr>) = content x"
  "content (x\<lparr>mru_next := v, mru_prev := w\<rparr>) = content x"
  by (simp_all add: content_def)

lemma upd_entry_some: "h a = Some x \<Longrightarrow> upd_entry h a f = Some (h(a \<mapsto> f x))"
  by (simp add: upd_entry_def)

lemma mru_remove_views:
  assumes "nxt h e = Some n" "prv h e = Some p" "h p \<noteq> None" "h n \<noteq> None"
  obtains h' where "entry_mru_remove h e = Some h'" "nxt h' = (nxt h)(p \<mapsto> n)" "prv h' = (prv h)(n \<mapsto> p)"
    "hl h' = hl h" "cont h' = cont h"
proof -
  obtain x where x: "h e = Some x" "mru_next x = n" "mru_prev x = p" using assms by (auto simp: view_defs)
  obtain y where y: "h p = Some y" using assms by auto
  let ?h1 = "h(p \<mapsto> y\<lparr>mru_next := n\<rparr>)"
  obtain x1 where x1: "?h1 e = Some x1" "mru_next x1 = n" "mru_prev x1 = p" using x y by (cases "e = p") auto
  obtain z where z: "?h1 n = Some z" using assms(4) by (cases "n = p") auto
  have "entry_mru_remove h e = Some (?h1(n \<mapsto> z\<lparr>mru_prev := p\<rparr>))"
    unfolding entry_mru_remove_def using x y x1 z by (simp add: upd_entry_some)
  moreover have "nxt (?h1(n \<mapsto> z\<lparr>mru_prev := p\<rparr>)) = (nxt h)(p \<mapsto> n)"
    "hl (?h1(n \<mapsto> z\<lparr>mru_prev := p\<rparr>)) = hl h" "cont (?h1(n \<mapsto> z\<lparr>mru_prev := p\<rparr>)) = cont h"
    using view_same[of h p y, OF y] view_same[of ?h1 n z, OF z] unfolding view_upd by simp_all
  moreover have "prv (?h1(n \<mapsto> z\<lparr>mru_prev := p\<rparr>)) = (prv h)(n \<mapsto> p)"
    using view_same(2)[of h p y, OF y] unfolding view_upd by simp
  ultimately show ?thesis using that by blast
qed

lemma mru_add_views:
  assumes "nxt h lst = Some fi" "h e \<noteq> None" "h fi \<noteq> None"
  obtains h' where "entry_mru_add h e lst = Some h'" "nxt h' = (nxt h)(e \<mapsto> fi, lst \<mapsto> e)"
    "prv h' = (prv h)(e \<mapsto> lst, fi \<mapsto> e)" "hl h' = hl h" "cont h' = cont h"
proof -
  obtain l where l: "h lst = Some l" "mru_next l = fi" using assms by (auto simp: view_defs)
  obtain x where x: "h e = Some x" using assms by auto
  let ?h1 = "h(e \<mapsto> x\<lparr>mru_next := fi, mru_prev := lst\<rparr>)"
  obtain l1 where l1: "?h1 lst = Some l1" using l by (cases "lst = e") auto
  let ?h2 = "?h1(lst \<mapsto> l1\<lparr>mru_next := e\<rparr>)"
  obtain z where z: "?h2 fi = Some z" using assms(3) by (cases "fi = lst"; cases "fi = e") auto
  let ?h3 = "?h2(fi \<mapsto> z\<lparr>mru_prev := e\<rparr>)"
  have "entry_mru_add h e lst = Some ?h3"
    unfolding entry_mru_add_def using l x l1 z by (simp add: upd_entry_some Let_def)
  moreover have "nxt ?h3 = (nxt h)(e \<mapsto> fi, lst \<mapsto> e)" "hl ?h3 = hl h" "cont ?h3 = cont h"
    using view_same[of h e x, OF x] view_same[of ?h1 lst l1, OF l1] view_same[of ?h2 fi z, OF z] unfolding view_upd by simp_all
  moreover have "prv ?h3 = (prv h)(e \<mapsto> lst, fi \<mapsto> e)"
    using view_same(2)[of ?h1 lst l1, OF l1] unfolding view_upd by simp
  ultimately show ?thesis using that by blast
qed

section \<open>Collision chains\<close>

fun chain :: "(eptr \<rightharpoonup> eptr) \<Rightarrow> eptr \<Rightarrow> eptr list \<Rightarrow> bool" where
  "chain f p [] \<longleftrightarrow> p = NULL"
| "chain f p (x # xs) \<longleftrightarrow> p = x \<and> x \<noteq> NULL \<and> (\<exists>q. f x = Some q \<and> chain f q xs)"

lemma chain_frame: "(\<And>z. z \<in> set xs \<Longrightarrow> f' z = f z) \<Longrightarrow> chain f' p xs \<longleftrightarrow> chain f p xs"
  by (induction xs arbitrary: p) auto

text \<open>The location that holds the pointer to the node after \<open>us\<close> in bucket \<open>i\<close>.\<close>

definition loc :: "nat \<Rightarrow> eptr list \<Rightarrow> lref" where
  "loc i us = (if us = [] then Bucket i else Hlink (last us))"

definition start :: "eptr list \<Rightarrow> eptr" where
  "start vs = (if vs = [] then NULL else hd vs)"

lemma chain_start: "chain f p vs \<Longrightarrow> p = start vs"
  by (cases vs) (auto simp: start_def)

lemma chain_last: "chain f p (us @ vs) \<Longrightarrow> us \<noteq> [] \<Longrightarrow> f (last us) = Some (start vs)"
proof (induction us arbitrary: p)
  case (Cons u us)
  then show ?case by (cases us) (auto dest: chain_start)
qed simp

lemma deref_loc:
  assumes "chain (hl (heap c)) (entries c ! i) (us @ vs)" "i < length (entries c)"
  shows "deref c (loc i us) = Some (start vs)"
  using assms chain_last[OF assms(1)] chain_start[OF assms(1)]
  by (cases "us = []") (auto simp: loc_def hl_def)

text \<open>Replacing the pointer at a location cuts the chain there and joins another tail.\<close>

lemma chain_join:
  "chain f p (us @ vs) \<Longrightarrow> distinct us \<Longrightarrow> us \<noteq> [] \<Longrightarrow> chain (f(last us \<mapsto> q)) q ws \<Longrightarrow>
    chain (f(last us \<mapsto> q)) p (us @ ws)"
proof (induction us arbitrary: p)
  case (Cons u us)
  show ?case
  proof (cases "us = []")
    case False
    then obtain r where r: "f u = Some r" "chain f r (us @ vs)" "p = u" "u \<noteq> NULL" using Cons.prems by auto
    have "chain (f(last us \<mapsto> q)) r (us @ ws)" by (rule Cons.IH[OF r(2)]) (use Cons.prems False in simp_all)
    moreover have "(f(last us \<mapsto> q)) u = Some r" using Cons.prems(2) False r(1) by auto
    ultimately show ?thesis using r(3,4) False by (simp del: fun_upd_apply)
  qed (use Cons.prems in auto)
qed simp

section \<open>Keys\<close>

text \<open>When the table takes two queries as the same key.\<close>

definition key_match :: "u8 list \<Rightarrow> u8 list \<Rightarrow> bool" where
  "key_match q1 q2 \<longleftrightarrow> query_hash q1 = query_hash q2 \<and> entry_equals q1 q2 = Some True"

interpretation km: key_relation cacheable key_match
proof
  show "cacheable a \<Longrightarrow> key_match a a" for a
    by (simp add: key_match_def entry_equals_def queries_equal_refl)
  show "cacheable a \<Longrightarrow> cacheable b \<Longrightarrow> key_match a b \<Longrightarrow> key_match b a" for a b
    using queries_equal_sym[of a b] by (auto simp: key_match_def entry_equals_def split: if_splits)
  show "cacheable a \<Longrightarrow> cacheable b \<Longrightarrow> cacheable c \<Longrightarrow> key_match a b \<Longrightarrow> key_match b c \<Longrightarrow> key_match a c" for a b c
    using queries_equal_trans[of a b c] by (auto simp: key_match_def entry_equals_def split: if_splits)
qed

text \<open>The query, and the answer with its expiry, of the entry at an address.\<close>

definition aent :: "store \<Rightarrow> eptr \<Rightarrow> u8 list \<times> u8 list \<times> u32" where
  "aent h a = snd (the (cont h a))"

definition node_ok :: "nat \<Rightarrow> store \<Rightarrow> nat \<Rightarrow> eptr \<Rightarrow> bool" where
  "node_ok maxe h i a \<longleftrightarrow>
    (\<exists>e. h a = Some e \<and> unat (ehash e) mod maxe = i \<and> cacheable (equery e) \<and> query_hash (equery e) = Some (ehash e))"

lemma node_ok_cong:
  assumes "cont h' a = cont h a"
  shows "node_ok m h' i a = node_ok m h i a"
proof -
  have "(\<exists>e. h' a = Some e \<and> P (ehash e) (equery e)) \<longleftrightarrow> (\<exists>e. h a = Some e \<and> P (ehash e) (equery e))" for P
    using assms by (cases "h a"; cases "h' a") (auto simp: cont_def content_def)
  from this[of "\<lambda>hh q. unat hh mod m = i \<and> cacheable q \<and> query_hash q = Some hh"] show ?thesis
    by (simp add: node_ok_def)
qed

lemma aent_cong: "cont h' a = cont h a \<Longrightarrow> aent h' a = aent h a"
  by (simp add: aent_def)

lemma aent_entry: "h a = Some e \<Longrightarrow> aent h a = (equery e, eanswer e, expires e)"
  by (simp add: aent_def cont_def content_def)

lemma node_okE:
  assumes "node_ok m h i a"
  obtains e where "h a = Some e" "unat (ehash e) mod m = i" "cacheable (equery e)"
    "query_hash (equery e) = Some (ehash e)" "aent h a = (equery e, eanswer e, expires e)"
  using assms aent_entry unfolding node_ok_def by blast

text \<open>The test in the loop of \<open>_cache_lookup_p\<close> decides \<open>key_match\<close>, without a fault.\<close>

lemma lookup_test:
  assumes "cacheable q1" "query_hash q1 = Some h1" "cacheable q2" "query_hash q2 = Some h2"
  shows "(if h1 = h2 then entry_equals q1 q2 else Some False) = Some (key_match q1 q2)"
  using assms queries_equal_total[OF assms(1,3)] by (auto simp: key_match_def entry_equals_def)

lemma lookup_loop_walk:
  assumes "cacheable q" "query_hash q = Some hq" "i < length (entries c)"
  shows "chain (hl (heap c)) (entries c ! i) (us @ vs) \<Longrightarrow> \<forall>a \<in> set vs. node_ok m (heap c) i a \<Longrightarrow>
    lookup_loop c hq q (loc i us) =
      Some (loc i (us @ takeWhile (\<lambda>a. \<not> key_match (fst (aent (heap c) a)) q) vs))"
proof (induction vs arbitrary: us)
  case Nil
  then show ?case using deref_loc[OF Nil(1) assms(3)]
    by (subst lookup_loop.simps) (simp add: start_def)
next
  case (Cons a vs)
  have d: "deref c (loc i us) = Some a" using deref_loc[OF Cons.prems(1) assms(3)] by (simp add: start_def)
  obtain e where e: "heap c a = Some e" "cacheable (equery e)" "query_hash (equery e) = Some (ehash e)"
    "aent (heap c) a = (equery e, eanswer e, expires e)"
    using Cons.prems(2) by (auto elim: node_okE)
  have n: "a \<noteq> NULL"
  proof -
    have "chain f p (us @ a # vs) \<Longrightarrow> a \<noteq> NULL" for f p by (induction us arbitrary: p) auto
    then show ?thesis using Cons.prems(1) by blast
  qed
  note t = lookup_test[OF e(2,3) assms(1,2)]
  have "lookup_loop c hq q (loc i us) =
    (if key_match (equery e) q then Some (loc i us) else lookup_loop c hq q (Hlink a))"
    by (subst lookup_loop.simps) (simp add: d n e(1) t)
  moreover have "Hlink a = loc i (us @ [a])" by (simp add: loc_def)
  moreover have "lookup_loop c hq q (loc i (us @ [a])) =
    Some (loc i ((us @ [a]) @ takeWhile (\<lambda>a. \<not> key_match (fst (aent (heap c) a)) q) vs))"
    by (rule Cons.IH) (use Cons.prems in auto)
  ultimately show ?case using e(4) by simp
qed

section \<open>The invariant\<close>

text \<open>
  \<open>ms\<close> are the entries in the order of the ring and \<open>bs\<close> the chains of the buckets.
\<close>

definition ring_inv :: "store \<Rightarrow> eptr list \<Rightarrow> bool" where
  "ring_inv h ms \<longleftrightarrow> distinct (MRU_LIST # ms) \<and> NULL \<notin> set ms \<and>
    links (nxt h) (prv h) (MRU_LIST # ms @ [MRU_LIST])"

definition table_inv :: "Cache \<Rightarrow> eptr list list \<Rightarrow> bool" where
  "table_inv c bs \<longleftrightarrow> 0 < max_entries c \<and> length (entries c) = max_entries c \<and> length bs = max_entries c \<and>
    distinct (concat bs) \<and>
    (\<forall>i < max_entries c. chain (hl (heap c)) (entries c ! i) (bs ! i) \<and>
      (\<forall>a \<in> set (bs ! i). node_ok (max_entries c) (heap c) i a))"

definition cinv :: "Cache \<Rightarrow> eptr list \<Rightarrow> eptr list list \<Rightarrow> bool" where
  "cinv c ms bs \<longleftrightarrow> ring_inv (heap c) ms \<and> table_inv c bs \<and> set (concat bs) = set ms \<and>
    num_entries c = int (length ms) \<and> length ms \<le> max_entries c \<and> finite (dom (cont (heap c))) \<and>
    unique_keys key_match (map (aent (heap c)) ms)"

definition rep :: "Cache \<Rightarrow> (u8 list, u8 list \<times> u32) lru \<Rightarrow> bool" where
  "rep c A \<longleftrightarrow> (\<exists>ms bs. cinv c ms bs \<and> A = map (aent (heap c)) ms)"

lemma cinv_node:
  assumes "cinv c ms bs" "a \<in> set ms"
  obtains i where "i < max_entries c" "a \<in> set (bs ! i)" "node_ok (max_entries c) (heap c) i a"
proof -
  have "a \<in> set (concat bs)" using assms by (simp add: cinv_def)
  then obtain b where "b \<in> set bs" "a \<in> set b" by auto
  then obtain i where "i < length bs" "a \<in> set (bs ! i)" by (auto simp: in_set_conv_nth)
  then show ?thesis using that assms(1) unfolding cinv_def table_inv_def by metis
qed

lemma cinv_valid: "cinv c ms bs \<Longrightarrow> \<forall>e \<in> set (map (aent (heap c)) ms). cacheable (fst e)"
  by (auto elim!: cinv_node node_okE)

text \<open>Searching the table agrees with searching the list of entries.\<close>

lemma lookup_p_cases:
  assumes inv: "cinv c ms bs" and q: "cacheable q" "query_hash q = Some hq"
  obtains (none) i where "i < max_entries c" "i = unat hq mod max_entries c"
      "cache_lookup_p c hq q = Some (loc i (bs ! i))" "deref c (loc i (bs ! i)) = Some NULL"
      "find_key key_match q (map (aent (heap c)) ms) = None"
  | (some) i us a vs where "i < max_entries c" "bs ! i = us @ a # vs" "cache_lookup_p c hq q = Some (loc i us)"
      "deref c (loc i us) = Some a" "a \<in> set ms" "a \<noteq> NULL" "key_match (fst (aent (heap c) a)) q"
      "find_key key_match q (map (aent (heap c)) ms) = Some (aent (heap c) a)"
proof -
  let ?i = "unat hq mod max_entries c" and ?p = "\<lambda>a. \<not> key_match (fst (aent (heap c) a)) q"
  let ?us = "takeWhile ?p (bs ! ?i)" and ?vs = "dropWhile ?p (bs ! ?i)"
  have t: "0 < max_entries c" "length (entries c) = max_entries c" "table_inv c bs"
    using inv by (auto simp: cinv_def table_inv_def)
  then have i: "?i < max_entries c" by simp
  have ch: "chain (hl (heap c)) (entries c ! ?i) (bs ! ?i)" "\<forall>a \<in> set (bs ! ?i). node_ok (max_entries c) (heap c) ?i a"
    using t i by (auto simp: table_inv_def)
  have "lookup_loop c hq q (loc ?i []) = Some (loc ?i ([] @ ?us))"
    by (rule lookup_loop_walk[OF q _ _ ch(2)]) (use ch(1) t i in auto)
  then have l: "cache_lookup_p c hq q = Some (loc ?i ?us)" using t(1) by (simp add: cache_lookup_p_def loc_def)
  have d: "deref c (loc ?i ?us) = Some (start ?vs)" by (rule deref_loc) (use ch(1) t i in auto)
  show ?thesis
  proof (cases ?vs)
    case Nil
    have "find_key key_match q (map (aent (heap c)) ms) = None"
      unfolding find_key_None
    proof (intro ballI notI)
      fix x assume "x \<in> set (map (aent (heap c)) ms)" "key_match (fst x) q"
      then obtain a where a: "a \<in> set ms" "key_match (fst (aent (heap c) a)) q" by auto
      from inv a(1) obtain j where j: "j < max_entries c" "a \<in> set (bs ! j)" "node_ok (max_entries c) (heap c) j a"
        by (rule cinv_node)
      then have "j = ?i" using a(2) q(2) by (auto elim!: node_okE simp: key_match_def)
      then have "a \<in> set (bs ! ?i)" using j by simp
      then show False using Nil a(2) by (metis dropWhile_eq_Nil_conv)
    qed
    moreover have u: "?us = bs ! ?i" using Nil by (metis append_Nil2 takeWhile_dropWhile_id)
    moreover have "start ?vs = NULL" by (simp only: Nil start_def simp_thms if_True)
    ultimately show ?thesis using none[OF i refl l[unfolded u]] d[unfolded u] by simp
  next
    case (Cons a vs)
    have b: "bs ! ?i = ?us @ a # vs" using Cons by (metis takeWhile_dropWhile_id)
    have m: "key_match (fst (aent (heap c) a)) q" using Cons hd_dropWhile[of ?p "bs ! ?i"] by auto
    have "a \<in> set (bs ! ?i)" by (subst b) simp
    then have "a \<in> set (concat bs)" using t i by (auto simp: table_inv_def intro: nth_mem)
    then have a: "a \<in> set ms" using inv unfolding cinv_def by blast
    have "a \<noteq> NULL" using a inv by (auto simp: cinv_def ring_inv_def)
    moreover have "find_key key_match q (map (aent (heap c)) ms) = Some (aent (heap c) a)"
      by (rule km.unique_find[OF _ cinv_valid[OF inv] q(1) _ m]) (use inv a in \<open>auto simp: cinv_def\<close>)
    ultimately show ?thesis using some[OF i b l _ a] d Cons m by (simp add: start_def)
  qed
qed

section \<open>Removing, inserting and touching an entry\<close>

lemma ring_dom:
  assumes "ring_inv h ms" "a \<in> set (MRU_LIST # ms)"
  shows "h a \<noteq> None"
proof -
  obtain us vs where u: "MRU_LIST # ms = us @ a # vs" using split_list[OF assms(2)] by blast
  obtain b ws where b: "vs @ [MRU_LIST] = b # ws" by (cases vs) auto
  have "MRU_LIST # ms @ [MRU_LIST] = us @ a # b # ws" using arg_cong[OF u, of "\<lambda>l. l @ [MRU_LIST]"] b by simp
  then have "links (nxt h) (prv h) (us @ a # b # ws)" using assms(1) by (simp add: ring_inv_def)
  then have "links (nxt h) (prv h) (a # b # ws)" using links_split[of _ _ us a "b # ws"] by blast
  then show ?thesis by (auto simp: nxt_def)
qed

lemma buckets_disjoint:
  assumes "distinct (concat bs)" "i < length bs" "j < length bs" "i \<noteq> j"
  shows "set (bs ! i) \<inter> set (bs ! j) = {}"
proof -
  have *: "set (bs ! i) \<inter> set (bs ! j) = {}" if "i < j" "j < length bs" for i j
  proof -
    have "bs = take j bs @ bs ! j # drop (Suc j) bs" by (rule id_take_nth_drop[OF that(2)])
    then have "set (concat (take j bs)) \<inter> set (bs ! j) = {}" using assms(1)
      by (metis concat.simps(2) concat_append distinct_append set_append inf_sup_distrib1 sup_eq_bot_iff)
    moreover have "bs ! i \<in> set (take j bs)" using that by (auto simp: in_set_conv_nth)
    ultimately show ?thesis by auto
  qed
  show ?thesis
  proof (cases "i < j")
    case True
    from *[OF this assms(3)] show ?thesis .
  next
    case False
    then have "j < i" using assms(4) by simp
    from *[OF this assms(2)] show ?thesis by (simp add: Int_commute)
  qed
qed

lemma distinct_bucket: "distinct (concat bs) \<Longrightarrow> i < length bs \<Longrightarrow> distinct (bs ! i)"
  by (simp add: distinct_concat_iff)

lemma concat_update:
  assumes "i < length bs"
  shows "concat (bs[i := b]) = concat (take i bs) @ b @ concat (drop (Suc i) bs)"
    "concat bs = concat (take i bs) @ bs ! i @ concat (drop (Suc i) bs)"
proof -
  show u: "concat (bs[i := b]) = concat (take i bs) @ b @ concat (drop (Suc i) bs)" for b
    using assms by (simp add: upd_conv_take_nth_drop)
  show "concat bs = concat (take i bs) @ bs ! i @ concat (drop (Suc i) bs)"
    using u[of "bs ! i"] by simp
qed

lemma concat_remove:
  assumes "i < length bs" "bs ! i = us @ a # vs" "distinct (concat bs)"
  shows "distinct (concat (bs[i := us @ vs]))" "set (concat (bs[i := us @ vs])) = set (concat bs) - {a}"
proof -
  let ?X = "concat (take i bs)" and ?Y = "concat (drop (Suc i) bs)"
  have d: "distinct (?X @ (us @ a # vs) @ ?Y)" using assms(3) unfolding concat_update(2)[OF assms(1)] assms(2) .
  then show "distinct (concat (bs[i := us @ vs]))" unfolding concat_update(1)[OF assms(1)] by auto
  show "set (concat (bs[i := us @ vs])) = set (concat bs) - {a}"
    unfolding concat_update(1)[OF assms(1)] concat_update(2)[OF assms(1)] assms(2) using d
    by (simp only: set_append distinct_append) auto
qed

lemma concat_append:
  assumes "i < length bs" "distinct (concat bs)" "e \<notin> set (concat bs)"
  shows "distinct (concat (bs[i := bs ! i @ [e]]))" "set (concat (bs[i := bs ! i @ [e]])) = insert e (set (concat bs))"
proof -
  let ?X = "concat (take i bs)" and ?Y = "concat (drop (Suc i) bs)"
  have d: "distinct (?X @ bs ! i @ ?Y)" "e \<notin> set (?X @ bs ! i @ ?Y)"
    using assms(2,3) unfolding concat_update(2)[OF assms(1)] by simp_all
  then show "distinct (concat (bs[i := bs ! i @ [e]]))" unfolding concat_update(1)[OF assms(1)] by auto
  show "set (concat (bs[i := bs ! i @ [e]])) = insert e (set (concat bs))"
    unfolding concat_update(1)[OF assms(1)] concat_update(2)[OF assms(1)] by (simp only: set_append) auto
qed

text \<open>Writing through a location.\<close>

definition put_hl :: "(eptr \<rightharpoonup> eptr) \<Rightarrow> eptr list \<Rightarrow> eptr \<Rightarrow> (eptr \<rightharpoonup> eptr)" where
  "put_hl f us v = (if us = [] then f else f(last us \<mapsto> v))"

definition put_root :: "eptr list \<Rightarrow> nat \<Rightarrow> eptr list \<Rightarrow> eptr \<Rightarrow> eptr list" where
  "put_root r i us v = (if us = [] then r[i := v] else r)"

lemma assign_views:
  assumes "i < length (entries c)" "us \<noteq> [] \<Longrightarrow> heap c (last us) \<noteq> None"
  obtains h where "assign c (loc i us) v = Some (c\<lparr>entries := put_root (entries c) i us v, heap := h\<rparr>)"
    "nxt h = nxt (heap c)" "prv h = prv (heap c)" "cont h = cont (heap c)" "hl h = put_hl (hl (heap c)) us v"
proof (cases "us = []")
  case True
  then show ?thesis using that[of "heap c"] assms(1) by (simp add: loc_def put_root_def put_hl_def)
next
  case False
  then obtain y where y: "heap c (last us) = Some y" using assms(2) by blast
  then show ?thesis
    using that[of "(heap c)(last us \<mapsto> y\<lparr>hlink := v\<rparr>)"] False view_same[of "heap c" "last us" y, OF y]
    by (simp add: loc_def put_root_def put_hl_def upd_entry_some[of "heap c" "last us" y, OF y] view_upd)
qed

lemma chain_put:
  assumes "chain f (r ! i) (us @ vs)" "distinct us" "i < length r" "chain (put_hl f us v) v ws"
  shows "chain (put_hl f us v) (put_root r i us v ! i) (us @ ws)"
  using assms chain_join[OF assms(1,2)] by (auto simp: put_hl_def put_root_def)

lemma put_root_other: "i \<noteq> j \<Longrightarrow> put_root r i us v ! j = r ! j" "length (put_root r i us v) = length r"
  by (auto simp: put_root_def)

lemma links_cut:
  assumes "links f g (S # zs @ [S])" "a \<notin> set (S # zs)"
  shows "links (f(a := x)) (g(a := y)) (S # zs @ [S])"
  by (subst links_frame[of _ "f(a := x)" f "g(a := y)" g]) (use assms in \<open>auto dest: in_set_butlastD\<close>)

lemma chain_tail: "chain f p (us @ vs) \<Longrightarrow> chain f (start vs) vs"
  by (induction us arbitrary: p) (auto dest: chain_start)

lemma cinv_bucket:
  assumes "cinv c ms bs" "i < max_entries c"
  shows "length (entries c) = max_entries c" "length bs = max_entries c" "distinct (concat bs)" "distinct (bs ! i)"
    "chain (hl (heap c)) (entries c ! i) (bs ! i)"
  using assms distinct_bucket[of bs i] by (auto simp: cinv_def table_inv_def)

text \<open>The result of unlinking an entry from the ring and from its chain, field by field.\<close>

lemma remove_p_views:
  assumes inv: "cinv c ms bs" and i: "i < max_entries c" "bs ! i = us @ a # vs" and ms: "ms = xs @ a # ys"
  obtains h' p n where "nxt (heap c) a = Some n" "prv (heap c) a = Some p"
    "cache_remove_p c (loc i us) = Some (c\<lparr>entries := put_root (entries c) i us (start vs), heap := h', num_entries := num_entries c - 1\<rparr>)"
    "nxt h' = ((nxt (heap c))(p \<mapsto> n))(a := None)" "prv h' = ((prv (heap c))(n \<mapsto> p))(a := None)"
    "hl h' = (put_hl (hl (heap c)) us (start vs))(a := None)" "cont h' = (cont (heap c))(a := None)"
proof -
  let ?h = "heap c"
  have R: "ring_inv ?h ms" using inv by (simp add: cinv_def)
  then have L: "links (nxt ?h) (prv ?h) (MRU_LIST # xs @ a # ys @ [MRU_LIST])" and an: "a \<noteq> NULL"
    using ms by (auto simp: ring_inv_def)
  obtain p n where pn: "nxt ?h a = Some n" "prv ?h a = Some p" "p = last (MRU_LIST # xs)" "n = hd (ys @ [MRU_LIST])"
    using ring_neighbours[OF L] by metis
  have "p \<in> set (MRU_LIST # ms)" "n \<in> set (MRU_LIST # ms)" using pn(3,4) ms by (auto simp: hd_append)
  then have dom: "?h p \<noteq> None" "?h n \<noteq> None" using ring_dom[OF R] by blast+
  obtain h1 where h1: "entry_mru_remove ?h a = Some h1" "nxt h1 = (nxt ?h)(p \<mapsto> n)" "prv h1 = (prv ?h)(n \<mapsto> p)"
    "hl h1 = hl ?h" "cont h1 = cont ?h"
    by (rule mru_remove_views[OF pn(1,2) dom])
  note b = cinv_bucket[OF inv i(1)]
  have ch: "chain (hl ?h) (entries c ! i) (us @ a # vs)" using b(5) i(2) by simp
  have d: "deref c (loc i us) = Some a" using deref_loc[OF ch] i b(1) by (simp add: start_def)
  have "hl ?h a = Some (start vs)" using chain_last[of "hl ?h" "entries c ! i" "us @ [a]" vs] ch by simp
  then obtain x where x: "h1 a = Some x" "hlink x = start vs" using h1(4) by (metis hl_def map_option_eq_Some)
  let ?c1 = "c\<lparr>heap := h1\<rparr>"
  have "us \<noteq> [] \<Longrightarrow> hl h1 (last us) = Some a" using chain_last[OF ch] h1(4) by (simp add: start_def)
  then have "us \<noteq> [] \<Longrightarrow> h1 (last us) \<noteq> None" by (auto simp: hl_def)
  then obtain h2 where h2: "assign ?c1 (loc i us) (start vs) = Some (?c1\<lparr>entries := put_root (entries c) i us (start vs), heap := h2\<rparr>)"
    "nxt h2 = nxt h1" "prv h2 = prv h1" "cont h2 = cont h1" "hl h2 = put_hl (hl h1) us (start vs)"
    using assign_views[of i ?c1 us "start vs"] i(1) b(1) by auto
  have "cache_remove_p c (loc i us) = Some (c\<lparr>entries := put_root (entries c) i us (start vs), heap := h2(a := None), num_entries := num_entries c - 1\<rparr>)"
    unfolding cache_remove_p_def d using h1(1) x h2(1) an by (simp add: entry_free_def)
  then show ?thesis using that[of n p "h2(a := None)"] pn(1,2) h1 h2 by (simp add: view_upd)
qed

lemma chain_unlink:
  assumes "chain f (r ! i) (us @ a # vs)" "distinct (us @ a # vs)" "i < length r"
  shows "chain ((put_hl f us (start vs))(a := None)) (put_root r i us (start vs) ! i) (us @ vs)"
proof -
  have "chain f (start vs) vs" using chain_tail[of f "r ! i" "us @ [a]" vs] assms(1) by simp
  moreover have "set us \<inter> set vs = {}" using assms(2) by auto
  then have "us \<noteq> [] \<Longrightarrow> last us \<notin> set vs" using last_in_set by blast
  then have "\<And>z. z \<in> set vs \<Longrightarrow> put_hl f us (start vs) z = f z" by (auto simp: put_hl_def)
  ultimately have "chain (put_hl f us (start vs)) (start vs) vs" using chain_frame[of vs] by blast
  then have "chain (put_hl f us (start vs)) (put_root r i us (start vs) ! i) (us @ vs)"
    using chain_put[OF assms(1) _ assms(3)] assms(2) by simp
  then show ?thesis using assms(2) by (subst chain_frame[of "us @ vs" _ "put_hl f us (start vs)"]) auto
qed

lemma remove_p_cinv:
  assumes inv: "cinv c ms bs" and i: "i < max_entries c" "bs ! i = us @ a # vs" and ms: "ms = xs @ a # ys"
  obtains c' where "cache_remove_p c (loc i us) = Some c'" "cinv c' (xs @ ys) (bs[i := us @ vs])"
    "map (aent (heap c')) (xs @ ys) = map (aent (heap c)) (xs @ ys)"
    "max_entries c' = max_entries c" "generation c' = generation c"
proof -
  let ?h = "heap c"
  obtain h' p n where pn: "nxt ?h a = Some n" "prv ?h a = Some p"
    and res: "cache_remove_p c (loc i us) = Some (c\<lparr>entries := put_root (entries c) i us (start vs), heap := h', num_entries := num_entries c - 1\<rparr>)"
    and v: "nxt h' = ((nxt ?h)(p \<mapsto> n))(a := None)" "prv h' = ((prv ?h)(n \<mapsto> p))(a := None)"
      "hl h' = (put_hl (hl ?h) us (start vs))(a := None)" "cont h' = (cont ?h)(a := None)"
    by (rule remove_p_views[OF inv i ms])
  let ?c' = "c\<lparr>entries := put_root (entries c) i us (start vs), heap := h', num_entries := num_entries c - 1\<rparr>"
  have R: "ring_inv ?h ms" and T: "table_inv c bs" and U: "set (concat bs) = set ms"
    using inv by (auto simp: cinv_def)
  have D: "distinct (MRU_LIST # xs @ a # ys)" using R ms by (simp add: ring_inv_def)
  note b = cinv_bucket[OF inv i(1)] and cr = concat_remove[OF _ i(2)]
  have ae: "aent h' z = aent ?h z" "cont h' z = cont ?h z" if "z \<noteq> a" for z
    using that v(4) by (simp_all add: aent_def)
  have m: "map (aent h') (xs @ ys) = map (aent ?h) (xs @ ys)" using D by (auto intro!: ae(1))
  have "links (nxt h') (prv h') (MRU_LIST # (xs @ ys) @ [MRU_LIST])"
    unfolding v(1,2) by (rule links_cut) (use links_remove[of "nxt ?h" "prv ?h" MRU_LIST xs a ys n p] pn R D ms in \<open>auto simp: ring_inv_def\<close>)
  then have "ring_inv h' (xs @ ys)" using R D ms by (simp add: ring_inv_def)
  moreover have "table_inv ?c' (bs[i := us @ vs])"
    unfolding table_inv_def
  proof (intro conjI allI impI)
    fix j assume j: "j < max_entries ?c'"
    have jT: "chain (hl ?h) (entries c ! j) (bs ! j)" "\<forall>z \<in> set (bs ! j). node_ok (max_entries c) ?h j z"
      using T j by (auto simp: table_inv_def)
    have ai: "a \<in> set (bs ! i)" using i(2) by simp
    have dj: "i \<noteq> j \<Longrightarrow> set (bs ! i) \<inter> set (bs ! j) = {}"
      using buckets_disjoint[OF b(3), of i j] b(2) i(1) j by simp
    have bj: "(bs[i := us @ vs]) ! j = (if i = j then us @ vs else bs ! j)" using b(2) i(1) by simp
    have "set (us @ vs) \<subseteq> set (bs ! i) - {a}" using b(4) i(2) by auto
    then have an: "z \<in> set ((bs[i := us @ vs]) ! j) \<Longrightarrow> z \<in> set (bs ! j) \<and> z \<noteq> a" for z
      unfolding bj using dj ai by (cases "i = j") auto
    show "\<forall>z \<in> set ((bs[i := us @ vs]) ! j). node_ok (max_entries ?c') (heap ?c') j z"
    proof
      fix z assume "z \<in> set ((bs[i := us @ vs]) ! j)"
      from an[OF this] have "z \<in> set (bs ! j)" "z \<noteq> a" by auto
      then show "node_ok (max_entries ?c') (heap ?c') j z" using jT(2) node_ok_cong[OF ae(2)] by simp
    qed
    show "chain (hl (heap ?c')) (entries ?c' ! j) ((bs[i := us @ vs]) ! j)"
    proof (cases "j = i")
      case True
      then show ?thesis using chain_unlink[of "hl ?h" "entries c" i us a vs] b i v(3) by simp
    next
      case False
      have "us \<noteq> [] \<Longrightarrow> last us \<in> set (bs ! i)" using i(2) by simp
      then have "z \<in> set (bs ! j) \<Longrightarrow> hl h' z = hl ?h z" for z
        using False dj ai unfolding v(3) put_hl_def by (cases "us = []") auto
      then show ?thesis using jT(1) False chain_frame[of "bs ! j" "hl h'"] by (simp add: put_root_other)
    qed
  qed (use T b cr(1)[OF _ b(3)] i in \<open>auto simp: table_inv_def put_root_other\<close>)
  moreover have "set (concat (bs[i := us @ vs])) = set (xs @ ys)"
    using cr(2)[OF _ b(3)] b(2) i U ms D by auto
  moreover have "unique_keys key_match (map (aent h') (xs @ ys))"
    unfolding m using inv ms by (auto simp: cinv_def unique_keys_def sorted_wrt_append)
  ultimately have "cinv ?c' (xs @ ys) (bs[i := us @ vs])" using inv ms v(4) by (simp add: cinv_def)
  then show ?thesis using that[OF res] m by simp
qed

text \<open>An entry that is not linked anywhere may be allocated or written.\<close>

lemma cinv_linked_dom: "cinv c ms bs \<Longrightarrow> a \<in> set (MRU_LIST # ms) \<Longrightarrow> heap c a \<noteq> None"
  using ring_dom by (auto simp: cinv_def)

lemma cinv_unlinked:
  assumes inv: "cinv c ms bs" and e: "e \<notin> set (MRU_LIST # ms)"
  shows "cinv (c\<lparr>heap := (heap c)(e \<mapsto> y)\<rparr>) ms bs" "map (aent ((heap c)(e \<mapsto> y))) ms = map (aent (heap c)) ms"
proof -
  let ?h = "heap c" and ?h' = "(heap c)(e \<mapsto> y)"
  have ae: "z \<noteq> e \<Longrightarrow> aent ?h' z = aent ?h z" "z \<noteq> e \<Longrightarrow> cont ?h' z = cont ?h z" for z
    by (simp_all add: aent_def cont_def)
  show m: "map (aent ?h') ms = map (aent ?h) ms" using e by (auto intro!: ae(1))
  have U: "set (concat bs) = set ms" using inv by (simp add: cinv_def)
  have "ring_inv ?h' ms" using inv e unfolding cinv_def ring_inv_def view_upd by (auto intro: links_cut)
  moreover have "table_inv (c\<lparr>heap := ?h'\<rparr>) bs"
    unfolding table_inv_def
  proof (intro conjI allI impI)
    fix i assume i: "i < max_entries (c\<lparr>heap := ?h'\<rparr>)"
    have T: "chain (hl ?h) (entries c ! i) (bs ! i)" "\<forall>z \<in> set (bs ! i). node_ok (max_entries c) ?h i z" "length bs = max_entries c"
      using inv i by (auto simp: cinv_def table_inv_def)
    then have "bs ! i \<in> set bs" using i by simp
    then have b: "z \<in> set (bs ! i) \<Longrightarrow> z \<noteq> e" for z using e U by auto
    then show "\<forall>z \<in> set (bs ! i). node_ok (max_entries (c\<lparr>heap := ?h'\<rparr>)) (heap (c\<lparr>heap := ?h'\<rparr>)) i z"
      using T(2) node_ok_cong[OF ae(2)] by simp
    show "chain (hl (heap (c\<lparr>heap := ?h'\<rparr>))) (entries (c\<lparr>heap := ?h'\<rparr>) ! i) (bs ! i)"
      using T(1) b by (simp add: view_upd chain_frame[of "bs ! i" "(hl ?h)(e \<mapsto> hlink y)" "hl ?h"])
  qed (use inv in \<open>auto simp: cinv_def table_inv_def\<close>)
  moreover have "unique_keys key_match (map (aent ?h') ms)" unfolding m using inv by (simp add: cinv_def)
  ultimately show "cinv (c\<lparr>heap := ?h'\<rparr>) ms bs" using inv by (simp add: cinv_def view_upd)
qed

lemma add_p_views:
  assumes inv: "cinv c ms bs" and i: "i < max_entries c" and y: "heap c e \<noteq> None"
  obtains h' fi where "nxt (heap c) MRU_LIST = Some fi"
    "cache_add_p c (loc i (bs ! i)) e = Some (c\<lparr>entries := put_root (entries c) i (bs ! i) e, heap := h',
      last_id := last_id c + 1, num_entries := num_entries c + 1\<rparr>)"
    "nxt h' = (nxt (heap c))(e \<mapsto> fi, MRU_LIST \<mapsto> e)" "prv h' = (prv (heap c))(e \<mapsto> MRU_LIST, fi \<mapsto> e)"
    "hl h' = put_hl (hl (heap c)) (bs ! i) e" "cont h' = cont (heap c)"
proof -
  let ?h = "heap c" and ?us = "bs ! i"
  note b = cinv_bucket[OF inv i]
  have R: "ring_inv ?h ms" using inv by (simp add: cinv_def)
  have ch: "chain (hl ?h) (entries c ! i) (?us @ [])" using b(5) by simp
  have lu: "?us \<noteq> [] \<Longrightarrow> ?h (last ?us) \<noteq> None" using chain_last[OF ch] by (auto simp: hl_def)
  obtain h1 where h1: "assign c (loc i ?us) e = Some (c\<lparr>entries := put_root (entries c) i ?us e, heap := h1\<rparr>)"
    "nxt h1 = nxt ?h" "prv h1 = prv ?h" "cont h1 = cont ?h" "hl h1 = put_hl (hl ?h) ?us e"
    using assign_views[of i c ?us e] lu i b(1) by auto
  have d1: "h1 z = None \<longleftrightarrow> ?h z = None" for z using fun_cong[OF h1(4), of z] by (auto simp: cont_def)
  obtain y1 where y1: "h1 e = Some y1" using d1[of e] y by auto
  let ?h2 = "h1(e \<mapsto> y1\<lparr>eid := last_id c + 1\<rparr>)"
  have v2: "nxt ?h2 = nxt ?h" "prv ?h2 = prv ?h" "cont ?h2 = cont ?h" "hl ?h2 = put_hl (hl ?h) ?us e"
    using h1 view_same[of h1 e y1, OF y1] by (simp_all add: view_upd)
  obtain fi where fi: "nxt ?h MRU_LIST = Some fi" "fi \<in> set (MRU_LIST # ms)"
    using R by (cases ms) (auto simp: ring_inv_def)
  have "?h2 fi \<noteq> None" "?h2 e \<noteq> None" using d1[of fi] cinv_linked_dom[OF inv fi(2)] by auto
  then obtain h3 where h3: "entry_mru_add ?h2 e MRU_LIST = Some h3" "nxt h3 = (nxt ?h2)(e \<mapsto> fi, MRU_LIST \<mapsto> e)"
    "prv h3 = (prv ?h2)(e \<mapsto> MRU_LIST, fi \<mapsto> e)" "hl h3 = hl ?h2" "cont h3 = cont ?h2"
    using mru_add_views[of ?h2 MRU_LIST fi e] fi(1) v2(1) by metis
  have "cache_add_p c (loc i ?us) e = Some (c\<lparr>entries := put_root (entries c) i (bs ! i) e, heap := h3,
      last_id := last_id c + 1, num_entries := num_entries c + 1\<rparr>)"
    unfolding cache_add_p_def using h1(1) h3(1) y1 by (simp add: upd_entry_some[of h1 e y1, OF y1] Let_def)
  then show ?thesis using that[OF fi(1)] h3 v2 by simp
qed

lemma add_p_cinv:
  assumes inv: "cinv c ms bs" and i: "i < max_entries c" and e: "e \<notin> set (MRU_LIST # ms)" "e \<noteq> NULL"
    and y: "hl (heap c) e = Some NULL" "node_ok (max_entries c) (heap c) i e"
    and room: "length ms < max_entries c" and new: "find_key key_match (fst (aent (heap c) e)) (map (aent (heap c)) ms) = None"
  obtains c' where "cache_add_p c (loc i (bs ! i)) e = Some c'" "cinv c' (e # ms) (bs[i := bs ! i @ [e]])"
    "map (aent (heap c')) (e # ms) = map (aent (heap c)) (e # ms)"
    "max_entries c' = max_entries c" "generation c' = generation c"
proof -
  let ?h = "heap c" and ?us = "bs ! i"
  have he: "?h e \<noteq> None" using y(1) by (auto simp: hl_def)
  obtain h' fi where fi: "nxt ?h MRU_LIST = Some fi"
    and res: "cache_add_p c (loc i ?us) e = Some (c\<lparr>entries := put_root (entries c) i ?us e, heap := h',
      last_id := last_id c + 1, num_entries := num_entries c + 1\<rparr>)"
    and v: "nxt h' = (nxt ?h)(e \<mapsto> fi, MRU_LIST \<mapsto> e)" "prv h' = (prv ?h)(e \<mapsto> MRU_LIST, fi \<mapsto> e)"
      "hl h' = put_hl (hl ?h) ?us e" "cont h' = cont ?h"
    by (rule add_p_views[OF inv i he])
  let ?c' = "c\<lparr>entries := put_root (entries c) i ?us e, heap := h', last_id := last_id c + 1, num_entries := num_entries c + 1\<rparr>"
  note b = cinv_bucket[OF inv i]
  have R: "ring_inv ?h ms" and T: "table_inv c bs" and U: "set (concat bs) = set ms" using inv by (auto simp: cinv_def)
  have nb: "e \<notin> set (concat bs)" using e U by simp
  note cc = concat_append[OF _ b(3) nb, of i]
  have ae: "aent h' = aent ?h" using v(4) by (simp add: aent_def fun_eq_iff)
  have "links (nxt h') (prv h') (MRU_LIST # e # ms @ [MRU_LIST])"
    unfolding v(1,2) by (rule links_add) (use R e fi in \<open>auto simp: ring_inv_def\<close>)
  then have "ring_inv h' (e # ms)" using R e by (auto simp: ring_inv_def)
  moreover have "table_inv ?c' (bs[i := ?us @ [e]])"
    unfolding table_inv_def
  proof (intro conjI allI impI)
    fix j assume j: "j < max_entries ?c'"
    have jT: "chain (hl ?h) (entries c ! j) (bs ! j)" "\<forall>z \<in> set (bs ! j). node_ok (max_entries c) ?h j z"
      using T j by (auto simp: table_inv_def)
    have bj: "(bs[i := ?us @ [e]]) ! j = (if i = j then ?us @ [e] else bs ! j)" using b(2) i by simp
    show "\<forall>z \<in> set ((bs[i := ?us @ [e]]) ! j). node_ok (max_entries ?c') (heap ?c') j z"
      unfolding bj using jT(2) y(2) node_ok_cong[OF fun_cong[OF v(4)]] by auto
    show "chain (hl (heap ?c')) (entries ?c' ! j) ((bs[i := ?us @ [e]]) ! j)"
    proof (cases "j = i")
      case True
      have "e \<notin> set ?us" using nb b(2) i nth_mem[of i bs] by auto
      then have "put_hl (hl ?h) ?us e e = Some NULL" using y(1) last_in_set[of ?us] by (auto simp: put_hl_def)
      then have "chain (put_hl (hl ?h) ?us e) e [e]" using e(2) by simp
      then show ?thesis using chain_put[of "hl ?h" "entries c" i ?us "[]" e "[e]"] b i True v(3) by simp
    next
      case False
      have "set ?us \<inter> set (bs ! j) = {}" using buckets_disjoint[OF b(3), of i j] b(2) i j False by simp
      then have "?us \<noteq> [] \<Longrightarrow> last ?us \<notin> set (bs ! j)" using last_in_set by blast
      then have "z \<in> set (bs ! j) \<Longrightarrow> hl h' z = hl ?h z" for z unfolding v(3) put_hl_def by auto
      then show ?thesis using jT(1) False chain_frame[of "bs ! j" "hl h'"] by (simp add: put_root_other)
    qed
  qed (use T b cc i in \<open>auto simp: table_inv_def put_root_other\<close>)
  moreover have "set (concat (bs[i := ?us @ [e]])) = set (e # ms)" using cc(2) b(2) i U by simp
  moreover have "cacheable (fst (aent ?h e))" using y(2) by (auto elim: node_okE)
  then have "unique_keys key_match (map (aent h') (e # ms))"
    unfolding ae using km.unique_Cons[OF _ cinv_valid[OF inv] _ new] inv by (simp add: cinv_def)
  ultimately have "cinv ?c' (e # ms) (bs[i := ?us @ [e]])" using inv room v(4) by (simp add: cinv_def)
  then show ?thesis using that[OF res] ae by simp
qed

lemma table_inv_cong:
  assumes "hl h' = hl (heap c)" "cont h' = cont (heap c)"
  shows "table_inv (c\<lparr>heap := h'\<rparr>) bs \<longleftrightarrow> table_inv c bs"
  using assms node_ok_cong[OF fun_cong[OF assms(2)]] by (simp add: table_inv_def)

lemma bump_cinv:
  assumes inv: "cinv c ms bs" and ms: "ms = xs @ a # ys" and perm: "unique_keys key_match (map (aent (heap c)) (a # xs @ ys))"
  obtains h' where "mru_bump (heap c) a = Some h'" "cinv (c\<lparr>heap := h'\<rparr>) (a # xs @ ys) bs" "cont h' = cont (heap c)"
proof -
  let ?h = "heap c"
  have R: "ring_inv ?h ms" using inv by (simp add: cinv_def)
  then have L: "links (nxt ?h) (prv ?h) (MRU_LIST # xs @ a # ys @ [MRU_LIST])" and D: "distinct (MRU_LIST # xs @ a # ys)"
    using ms by (auto simp: ring_inv_def)
  obtain l where l: "?h MRU_LIST = Some l" using cinv_linked_dom[OF inv, of MRU_LIST] by auto
  have fst: "mru_next l = hd (xs @ [a])" using L l by (cases xs) (auto simp: nxt_def)
  show ?thesis
  proof (cases "xs = []")
    case True
    then show ?thesis using that[of ?h] l fst inv ms by (simp add: mru_bump_def)
  next
    case False
    then have ne: "a \<noteq> mru_next l" using fst D by (cases xs) auto
    obtain p n where pn: "nxt ?h a = Some n" "prv ?h a = Some p" "p = last (MRU_LIST # xs)" "n = hd (ys @ [MRU_LIST])"
      using ring_neighbours[OF L] by metis
    have "p \<in> set (MRU_LIST # ms)" "n \<in> set (MRU_LIST # ms)" using pn(3,4) ms by (auto simp: hd_append)
    then have dom: "?h p \<noteq> None" "?h n \<noteq> None" using ring_dom[OF R] by blast+
    obtain h1 where h1: "entry_mru_remove ?h a = Some h1" "nxt h1 = (nxt ?h)(p \<mapsto> n)" "prv h1 = (prv ?h)(n \<mapsto> p)"
      "hl h1 = hl ?h" "cont h1 = cont ?h" by (rule mru_remove_views[OF pn(1,2) dom])
    have L1: "links (nxt h1) (prv h1) (MRU_LIST # (xs @ ys) @ [MRU_LIST])"
      unfolding h1(2,3) using links_remove[of "nxt ?h" "prv ?h" MRU_LIST xs a ys n p] L D pn by simp
    have d1: "h1 z = None \<longleftrightarrow> ?h z = None" for z using fun_cong[OF h1(5), of z] by (auto simp: cont_def)
    obtain fi where fi: "nxt h1 MRU_LIST = Some fi" "fi \<in> set (MRU_LIST # ms)" using L1 False ms by (cases xs) auto
    have "h1 a \<noteq> None" "h1 fi \<noteq> None" using d1 ring_dom[OF R] fi(2) ms by auto
    then obtain h2 where h2: "entry_mru_add h1 a MRU_LIST = Some h2" "nxt h2 = (nxt h1)(a \<mapsto> fi, MRU_LIST \<mapsto> a)"
      "prv h2 = (prv h1)(a \<mapsto> MRU_LIST, fi \<mapsto> a)" "hl h2 = hl h1" "cont h2 = cont h1"
      using mru_add_views[OF fi(1)] by metis
    have "links (nxt h2) (prv h2) (MRU_LIST # a # (xs @ ys) @ [MRU_LIST])"
      unfolding h2(2,3) by (rule links_add[OF L1]) (use D fi(1) in auto)
    then have "ring_inv h2 (a # xs @ ys)" using R D ms by (auto simp: ring_inv_def)
    moreover have "table_inv (c\<lparr>heap := h2\<rparr>) bs" using table_inv_cong[of h2 c bs] h1 h2 inv by (simp add: cinv_def)
    moreover have "aent h2 = aent ?h" using h1(5) h2(5) by (simp add: aent_def fun_eq_iff)
    ultimately have "cinv (c\<lparr>heap := h2\<rparr>) (a # xs @ ys) bs" using inv ms perm h1(5) h2(5) by (auto simp: cinv_def)
    then show ?thesis using that[of h2] l ne h1 h2 by (simp add: mru_bump_def)
  qed
qed

section \<open>The cache refines a list with least-recently-used replacement\<close>

definition lru_lookup ::
  "u8 list \<Rightarrow> nat \<Rightarrow> u32 \<Rightarrow> (u8 list, u8 list \<times> u32) lru \<Rightarrow> (u8 list, u8 list \<times> u32) lru \<times> lookup_out" where
  "lru_lookup q sz now A =
    (if \<not> cacheable q then (A, RESOLV_CACHE_UNSUPPORTED, None, None)
     else case find_key key_match q A of
       None \<Rightarrow> (A, RESOLV_CACHE_NOTFOUND, None, None)
     | Some (_, ans, ex) \<Rightarrow>
       if sint ex \<le> sint now then (delete_key key_match q A, RESOLV_CACHE_NOTFOUND, None, None)
       else if sz < length ans then (A, RESOLV_CACHE_UNSUPPORTED, None, Some (length ans))
       else (touch_key key_match q A, RESOLV_CACHE_FOUND, Some ans, Some (length ans)))"

definition lru_add ::
  "nat \<Rightarrow> u8 list \<Rightarrow> u8 list \<Rightarrow> u32 \<Rightarrow> u32 \<Rightarrow> bool \<Rightarrow> (u8 list, u8 list \<times> u32) lru \<Rightarrow> (u8 list, u8 list \<times> u32) lru" where
  "lru_add maxe q ans ttl now ok A =
    (if \<not> cacheable q \<or> find_key key_match q A \<noteq> None then A
     else let A1 = (if length A \<ge> maxe then butlast A else A) in
       if ttl > 0 \<and> ok then (q, ans, ttl + now) # A1 else A1)"

lemma query_hash_some: "2 < length q \<Longrightarrow> \<exists>h. query_hash q = Some h"
  by (auto simp: query_hash_def dnsPacket_hashQuery_def dnsPacket_init_def dnsPacket_rewind_def pend_def Let_def split: prod.splits)

lemma init_key:
  assumes "2 < length q"
  obtains hq where "query_hash q = Some hq" "entry_init_key q = Some (hq, cacheable q)"
  using query_hash_some[OF assms] by (auto simp: entry_init_key_def entry_hash_def cacheable_def)

lemma cacheable_len: "cacheable q \<Longrightarrow> 2 < length q"
  by (elim cacheableE) (simp add: enc_query_bytes)

text \<open>What the invariant says of the split of the list at the entry a lookup finds.\<close>

lemma cinv_split:
  assumes inv: "cinv c ms bs" and q: "cacheable q" and ms: "ms = xs @ a # ys" and m: "key_match (fst (aent (heap c) a)) q"
  shows "delete_key key_match q (map (aent (heap c)) ms) = map (aent (heap c)) (xs @ ys)"
    "find_key key_match q (map (aent (heap c)) ms) = Some (aent (heap c) a) \<Longrightarrow>
      touch_key key_match q (map (aent (heap c)) ms) = map (aent (heap c)) (a # xs @ ys)"
    "unique_keys key_match (map (aent (heap c)) (a # xs @ ys))"
proof -
  let ?A = "map (aent (heap c)) ms"
  have u: "unique_keys key_match ?A" using inv by (simp add: cinv_def)
  have split: "?A = map (aent (heap c)) xs @ aent (heap c) a # map (aent (heap c)) ys" using ms by simp
  show d: "delete_key key_match q ?A = map (aent (heap c)) (xs @ ys)"
    using km.delete_split[of "map (aent (heap c)) xs" "aent (heap c) a" "map (aent (heap c)) ys" q] u cinv_valid[OF inv] q m split
    by simp
  show t: "touch_key key_match q ?A = map (aent (heap c)) (a # xs @ ys)"
    if "find_key key_match q ?A = Some (aent (heap c) a)"
    using that d by (simp add: touch_key_def)
  have "a \<in> set ms" using ms by simp
  then have "find_key key_match q ?A = Some (aent (heap c) a)"
    using km.unique_find[OF u cinv_valid[OF inv] q _ m] by simp
  then show "unique_keys key_match (map (aent (heap c)) (a # xs @ ys))"
    using km.touch_unique[OF u cinv_valid[OF inv] q] t by simp
qed

lemma lookup_refines:
  assumes "rep c A" "2 < length q"
  shows "\<exists>c'. resolv_cache_lookup c q sz now = Some (c', snd (lru_lookup q sz now A)) \<and>
    rep c' (fst (lru_lookup q sz now A)) \<and> max_entries c' = max_entries c \<and> generation c' = generation c"
proof -
  obtain hq where hq: "query_hash q = Some hq" "entry_init_key q = Some (hq, cacheable q)"
    by (rule init_key[OF assms(2)])
  obtain ms bs where inv: "cinv c ms bs" and A: "A = map (aent (heap c)) ms" using assms(1) by (auto simp: rep_def)
  show ?thesis
  proof (cases "cacheable q")
    case False
    then show ?thesis using hq(2) assms(1) by (simp add: resolv_cache_lookup_def lru_lookup_def)
  next
    case q: True
    from inv q hq(1) show ?thesis
    proof (cases rule: lookup_p_cases)
      case (none i)
      then show ?thesis using hq(2) q assms(1) A by (simp add: resolv_cache_lookup_def lru_lookup_def)
    next
      case (some i us a vs)
      obtain x where x: "heap c a = Some x" using cinv_linked_dom[OF inv, of a] some(5) by auto
      then have ax: "aent (heap c) a = (equery x, eanswer x, expires x)" by (rule aent_entry)
      obtain xs ys where ms: "ms = xs @ a # ys" using split_list[OF some(5)] by blast
      note sp = cinv_split[OF inv q ms some(7)]
      have f: "find_key key_match q A = Some (equery x, eanswer x, expires x)" using some(8) ax A by simp
      show ?thesis
      proof (cases "sint (expires x) \<le> sint now")
        case stale: True
        obtain c' where "cache_remove_p c (loc i us) = Some c'" "cinv c' (xs @ ys) (bs[i := us @ vs])"
          "map (aent (heap c')) (xs @ ys) = map (aent (heap c)) (xs @ ys)" "max_entries c' = max_entries c" "generation c' = generation c"
          by (rule remove_p_cinv[OF inv some(1,2) ms])
        moreover from this have "rep c' (delete_key key_match q A)" using sp(1) A unfolding rep_def by metis
        ultimately show ?thesis using hq(2) q some(3,4,6) x f stale by (simp add: resolv_cache_lookup_def lru_lookup_def)
      next
        case fresh: False
        show ?thesis
        proof (cases "sz < length (eanswer x)")
          case True
          then show ?thesis using hq(2) q some(3,4,6) x f fresh assms(1) by (simp add: resolv_cache_lookup_def lru_lookup_def)
        next
          case False
          obtain h' where h': "mru_bump (heap c) a = Some h'" "cinv (c\<lparr>heap := h'\<rparr>) (a # xs @ ys) bs" "cont h' = cont (heap c)"
            by (rule bump_cinv[OF inv ms sp(3)])
          have "aent h' = aent (heap c)" using h'(3) by (simp add: aent_def fun_eq_iff)
          then have "rep (c\<lparr>heap := h'\<rparr>) (touch_key key_match q A)"
            unfolding rep_def using h'(2) sp(2) some(8) A by (intro exI[of _ "a # xs @ ys"] exI[of _ bs]) simp
          then show ?thesis using hq(2) q some(3,4,6) x f fresh False h'(1)
            by (simp add: resolv_cache_lookup_def lru_lookup_def)
        qed
      qed
    qed
  qed
qed

text \<open>
  Dropping the oldest entry: it is the last one of the list, and the table finds exactly it.
\<close>

lemma oldest_cinv:
  assumes inv: "cinv c ms bs" and ne: "ms \<noteq> []"
  shows "\<exists>c' bs'. cache_remove_oldest c = Some c' \<and> cinv c' (butlast ms) bs' \<and>
    map (aent (heap c')) (butlast ms) = map (aent (heap c)) (butlast ms) \<and>
    max_entries c' = max_entries c \<and> generation c' = generation c"
proof -
  let ?h = "heap c" and ?o = "last ms"
  have ms: "ms = butlast ms @ ?o # []" using ne by simp
  have R: "ring_inv ?h ms" using inv by (simp add: cinv_def)
  have "links (nxt ?h) (prv ?h) ((MRU_LIST # butlast ms) @ ?o # [MRU_LIST])"
    using R ms by (metis append.assoc append_Cons append_Nil ring_inv_def)
  then have "links (nxt ?h) (prv ?h) (?o # [MRU_LIST])" using links_split by blast
  then have "prv ?h MRU_LIST = Some ?o" by simp
  then obtain l where l: "?h MRU_LIST = Some l" "mru_prev l = ?o" by (auto simp: prv_def)
  have o: "?o \<in> set ms" using ne by simp
  from inv o obtain i where "node_ok (max_entries c) ?h i ?o" by (rule cinv_node)
  then obtain x where x: "?h ?o = Some x" "cacheable (equery x)" "query_hash (equery x) = Some (ehash x)"
    "aent ?h ?o = (equery x, eanswer x, expires x)" by (rule node_okE)
  have self: "key_match (fst (aent ?h ?o)) (equery x)" using x(2,4) km.same_refl by simp
  from inv x(2,3) show ?thesis
  proof (cases rule: lookup_p_cases)
    case (none j)
    then have False using self o by (auto simp: find_key_None)
    then show ?thesis ..
  next
    case (some j us a vs)
    have "a = ?o"
    proof (rule ccontr)
      assume "a \<noteq> ?o"
      then have ab: "a \<in> set (butlast ms)" using some(5) ms by (metis in_set_conv_decomp_last append_butlast_last_id ne rotate1.simps(2) set_ConsD set_rotate1)
      have "unique_keys key_match (map (aent ?h) (butlast ms @ [?o]))" using inv ms by (simp add: cinv_def)
      then have "\<not> key_match (fst (aent ?h a)) (fst (aent ?h ?o))"
        using ab by (simp add: unique_keys_def sorted_wrt_append)
      then show False using some(7) x(4) by simp
    qed
    note a = this
    obtain c' where "cache_remove_p c (loc j us) = Some c'" "cinv c' (butlast ms @ []) (bs[j := us @ vs])"
      "map (aent (heap c')) (butlast ms @ []) = map (aent ?h) (butlast ms @ [])" "max_entries c' = max_entries c" "generation c' = generation c"
      by (rule remove_p_cinv[OF inv some(1) some(2)[unfolded a] ms])
    then show ?thesis using l x some(3,4,6) by (auto simp: cache_remove_oldest_def Let_def)
  qed
qed

text \<open>What the code relies on of the allocator: a block it returns is not in use.\<close>

definition calloc_ok :: "(store \<Rightarrow> eptr) \<Rightarrow> bool" where
  "calloc_ok calloc \<longleftrightarrow> (\<forall>h. calloc h \<noteq> NULL \<longrightarrow> h (calloc h) = None)"

text \<open>An allocator that has not run out of memory.\<close>

definition calloc_total :: "(store \<Rightarrow> eptr) \<Rightarrow> bool" where
  "calloc_total calloc \<longleftrightarrow> (\<forall>h. finite (dom h) \<longrightarrow> calloc h \<noteq> NULL)"

lemma cinv_finite: "cinv c ms bs \<Longrightarrow> calloc_total calloc \<Longrightarrow> calloc (heap c) \<noteq> NULL"
  by (simp add: cinv_def calloc_total_def dom_cont)

lemma add_entry_refines:
  assumes inv: "cinv c ms bs" and q: "cacheable q" "query_hash q = Some hq" and al: "calloc_ok calloc"
    and i: "i < max_entries c" "i = unat hq mod max_entries c" and room: "length ms < max_entries c"
    and new: "find_key key_match q (map (aent (heap c)) ms) = None" and ttl: "answer_getTTL ans = Some ttl"
  shows "\<exists>c'. add_entry calloc c (loc i (bs ! i)) hq q ans now = Some c' \<and>
    rep c' (if ttl > 0 \<and> calloc (heap c) \<noteq> NULL then (q, ans, ttl + now) # map (aent (heap c)) ms
            else map (aent (heap c)) ms) \<and>
    max_entries c' = max_entries c \<and> generation c' = generation c"
proof (cases "ttl > 0 \<and> calloc (heap c) \<noteq> NULL")
  case False
  have "rep c (map (aent (heap c)) ms)" using inv by (auto simp: rep_def)
  then show ?thesis using False ttl by (auto simp: add_entry_def entry_alloc_def Let_def)
next
  case True
  let ?e = "calloc (heap c)"
  let ?E = "\<lparr>ehash = hq, hlink = NULL, mru_prev = NULL, mru_next = NULL, equery = q, eanswer = ans, expires = ttl + now, eid = 0\<rparr>"
  let ?h = "(heap c)(?e \<mapsto> ?E)" and ?c = "c\<lparr>heap := (heap c)(?e \<mapsto> ?E)\<rparr>"
  have "heap c ?e = None" using al True by (simp add: calloc_ok_def)
  then have e: "?e \<notin> set (MRU_LIST # ms)" using cinv_linked_dom[OF inv] by blast
  note u = cinv_unlinked[OF inv e, of ?E]
  have ae: "aent ?h ?e = (q, ans, ttl + now)" by (rule aent_entry[of _ _ ?E, simplified]) simp
  have hc: "heap ?c = ?h" by simp
  have "node_ok (max_entries ?c) (heap ?c) i ?e" using q i by (simp add: node_ok_def)
  moreover have "hl (heap ?c) ?e = Some NULL" by (simp add: hl_def)
  moreover have "find_key key_match (fst (aent (heap ?c) ?e)) (map (aent (heap ?c)) ms) = None"
    unfolding hc ae u(2) fst_conv by (rule new)
  ultimately obtain c' where c': "cache_add_p ?c (loc i (bs ! i)) ?e = Some c'" "cinv c' (?e # ms) (bs[i := bs ! i @ [?e]])"
    "map (aent (heap c')) (?e # ms) = map (aent (heap ?c)) (?e # ms)" "max_entries c' = max_entries ?c" "generation c' = generation ?c"
    using add_p_cinv[OF u(1), of i ?e] i(1) e True room by auto
  have "add_entry calloc c (loc i (bs ! i)) hq q ans now = cache_add_p ?c (loc i (bs ! i)) ?e"
    using True ttl by (simp add: add_entry_def entry_alloc_def Let_def upd_entry_def)
  moreover have "map (aent ?h) (?e # ms) = (q, ans, ttl + now) # map (aent (heap c)) ms"
    unfolding list.map(2) ae u(2) ..
  then have "map (aent (heap c')) (?e # ms) = (q, ans, ttl + now) # map (aent (heap c)) ms"
    using c'(3)[unfolded hc] by (rule back_subst[where P = "\<lambda>l. map (aent (heap c')) (?e # ms) = l", rotated])
  then have "rep c' ((q, ans, ttl + now) # map (aent (heap c)) ms)" unfolding rep_def using c'(2) by metis
  ultimately show ?thesis using c'(1,4,5) True by simp
qed

lemma add_refines:
  assumes "rep c A" "2 < length q" "calloc_ok calloc" and ttl: "answer_getTTL ans = Some ttl"
  shows "\<exists>c' ok. resolv_cache_add calloc c q ans now = Some c' \<and>
    rep c' (lru_add (max_entries c) q ans ttl now ok A) \<and> (calloc_total calloc \<longrightarrow> ok) \<and>
    max_entries c' = max_entries c \<and> generation c' = generation c"
proof -
  obtain hq where hq: "query_hash q = Some hq" "entry_init_key q = Some (hq, cacheable q)"
    by (rule init_key[OF assms(2)])
  obtain ms bs where inv: "cinv c ms bs" and A: "A = map (aent (heap c)) ms" using assms(1) by (auto simp: rep_def)
  have n: "num_entries c = int (length ms)" "length ms \<le> max_entries c" "0 < max_entries c"
    using inv by (auto simp: cinv_def table_inv_def)
  show ?thesis
  proof (cases "cacheable q \<and> find_key key_match q A = None")
    case False
    have "resolv_cache_add calloc c q ans now = Some c"
    proof (cases "cacheable q")
      case q: True
      from inv q hq(1) show ?thesis
        by (cases rule: lookup_p_cases) (use False q hq(2) A in \<open>simp_all add: resolv_cache_add_def\<close>)
    qed (use hq(2) in \<open>simp add: resolv_cache_add_def\<close>)
    then show ?thesis using False assms(1) by (auto simp: lru_add_def intro!: exI[of _ True])
  next
    case True
    then have q: "cacheable q" and new: "find_key key_match q A = None" by auto
    from inv q hq(1) obtain i where i: "i < max_entries c" "i = unat hq mod max_entries c"
      "cache_lookup_p c hq q = Some (loc i (bs ! i))" "deref c (loc i (bs ! i)) = Some NULL"
      by (cases rule: lookup_p_cases) (use new A in auto)
    show ?thesis
    proof (cases "length ms < max_entries c")
      case room: True
      have "\<not> num_entries c \<ge> int (max_entries c)" "\<not> length A \<ge> max_entries c" using room n A by auto
      then have "resolv_cache_add calloc c q ans now = add_entry calloc c (loc i (bs ! i)) hq q ans now"
        "lru_add (max_entries c) q ans ttl now (calloc (heap c) \<noteq> NULL) A =
          (if ttl > 0 \<and> calloc (heap c) \<noteq> NULL then (q, ans, ttl + now) # A else A)"
        using hq(2) q i(3,4) new by (simp_all add: resolv_cache_add_def lru_add_def)
      moreover obtain c' where "add_entry calloc c (loc i (bs ! i)) hq q ans now = Some c'"
        "rep c' (if ttl > 0 \<and> calloc (heap c) \<noteq> NULL then (q, ans, ttl + now) # A else A)"
        "max_entries c' = max_entries c" "generation c' = generation c"
        using add_entry_refines[OF inv q hq(1) assms(3) i(1,2) room new[unfolded A] ttl, of now] unfolding A by blast
      ultimately show ?thesis by (intro exI[of _ c'] exI[of _ "calloc (heap c) \<noteq> NULL"]) (use cinv_finite[OF inv] in simp)
    next
      case full: False
      then have ne: "ms \<noteq> []" and len: "num_entries c \<ge> int (max_entries c)" "length A \<ge> max_entries c" using n A by auto
      obtain c1 bs1 where c1: "cache_remove_oldest c = Some c1" "cinv c1 (butlast ms) bs1"
        "map (aent (heap c1)) (butlast ms) = butlast A" "max_entries c1 = max_entries c" "generation c1 = generation c"
        using oldest_cinv[OF inv ne] A by (auto simp: map_butlast)
      have new1: "find_key key_match q (map (aent (heap c1)) (butlast ms)) = None"
        using new c1(3) by (auto simp: find_key_None dest: in_set_butlastD)
      from c1(2) q hq(1) obtain j where j: "j < max_entries c1" "j = unat hq mod max_entries c1"
        "cache_lookup_p c1 hq q = Some (loc j (bs1 ! j))" "deref c1 (loc j (bs1 ! j)) = Some NULL"
        by (cases rule: lookup_p_cases) (use new1 in auto)
      have room: "length (butlast ms) < max_entries c1" using n c1(4) ne by simp
      have "resolv_cache_add calloc c q ans now = add_entry calloc c1 (loc j (bs1 ! j)) hq q ans now"
        "lru_add (max_entries c) q ans ttl now (calloc (heap c1) \<noteq> NULL) A =
          (if ttl > 0 \<and> calloc (heap c1) \<noteq> NULL then (q, ans, ttl + now) # butlast A else butlast A)"
        using hq(2) q i(3,4) len c1(1) j(3,4) new by (simp_all add: resolv_cache_add_def lru_add_def Let_def)
      moreover obtain c' where "add_entry calloc c1 (loc j (bs1 ! j)) hq q ans now = Some c'"
        "rep c' (if ttl > 0 \<and> calloc (heap c1) \<noteq> NULL then (q, ans, ttl + now) # butlast A else butlast A)"
        "max_entries c' = max_entries c1" "generation c' = generation c1"
        using add_entry_refines[OF c1(2) q hq(1) assms(3) j(1,2) room new1 ttl, of now] unfolding c1(3) by blast
      ultimately show ?thesis using c1(4,5) cinv_finite[OF c1(2)]
        by (intro exI[of _ c'] exI[of _ "calloc (heap c1) \<noteq> NULL"]) simp
    qed
  qed
qed

section \<open>Flushing and creating\<close>

definition without :: "store \<Rightarrow> eptr set \<Rightarrow> store" where
  "without h X a = (if a \<in> X then None else h a)"

lemma hl_without: "hl (without h X) a = (if a \<in> X then None else hl h a)"
  by (simp add: hl_def without_def)

lemma flush_bucket_ok:
  "chain (hl (heap c)) (entries c ! i) b \<Longrightarrow> distinct b \<Longrightarrow> i < length (entries c) \<Longrightarrow>
    flush_bucket c i = Some (c\<lparr>entries := (entries c)[i := NULL], heap := without (heap c) (set b)\<rparr>)"
proof (induction b arbitrary: c)
  case Nil
  have "without (heap c) {} = heap c" by (simp add: without_def fun_eq_iff)
  moreover have "(entries c)[i := NULL] = entries c" using Nil by (metis chain.simps(1) list_update_id)
  ultimately show ?case using Nil by (subst flush_bucket.simps) simp
next
  case (Cons a b)
  obtain x where x: "heap c a = Some x" "chain (hl (heap c)) (hlink x) b" "entries c ! i = a" "a \<noteq> NULL"
  proof -
    obtain n where n: "hl (heap c) a = Some n" "chain (hl (heap c)) n b" "entries c ! i = a" "a \<noteq> NULL"
      using Cons.prems(1) by auto
    from n(1) obtain x where "heap c a = Some x" "hlink x = n" by (auto simp: hl_def)
    then show ?thesis using that n by blast
  qed
  let ?c = "c\<lparr>entries := (entries c)[i := hlink x], heap := (heap c)(a := None)\<rparr>"
  have "flush_bucket c i = flush_bucket ?c i"
    using x Cons.prems(3) by (subst flush_bucket.simps) (simp add: entry_free_def)
  also have "\<dots> = Some (?c\<lparr>entries := (entries ?c)[i := NULL], heap := without (heap ?c) (set b)\<rparr>)"
  proof (rule Cons.IH)
    show "chain (hl (heap ?c)) (entries ?c ! i) b"
    proof -
      have "z \<in> set b \<Longrightarrow> ((hl (heap c))(a := None)) z = hl (heap c) z" for z using Cons.prems(2) by auto
      then have "chain ((hl (heap c))(a := None)) (hlink x) b" using x(2) chain_frame by metis
      then show ?thesis using Cons.prems(3) by (simp add: view_upd)
    qed
  qed (use Cons.prems in auto)
  also have "without (heap ?c) (set b) = without (heap c) (set (a # b))" by (auto simp: without_def fun_eq_iff)
  finally show ?case by simp
qed

lemma flush_buckets_ok:
  "\<forall>i \<in> set ns. i < length (entries c) \<and> chain (hl (heap c)) (entries c ! i) (bs ! i) \<and> distinct (bs ! i) \<Longrightarrow>
    distinct ns \<Longrightarrow> \<forall>i \<in> set ns. \<forall>j \<in> set ns. i \<noteq> j \<longrightarrow> set (bs ! i) \<inter> set (bs ! j) = {} \<Longrightarrow>
    \<exists>r. flush_buckets ns c = Some (c\<lparr>entries := r, heap := without (heap c) (\<Union>i \<in> set ns. set (bs ! i))\<rparr>) \<and>
      length r = length (entries c) \<and> (\<forall>i \<in> set ns. r ! i = NULL) \<and> (\<forall>i. i \<notin> set ns \<longrightarrow> r ! i = entries c ! i)"
proof (induction ns arbitrary: c)
  case Nil
  have "without (heap c) {} = heap c" by (simp add: without_def fun_eq_iff)
  then show ?case by (intro exI[of _ "entries c"]) simp
next
  case (Cons n ns)
  let ?c = "c\<lparr>entries := (entries c)[n := NULL], heap := without (heap c) (set (bs ! n))\<rparr>"
  have f: "flush_bucket c n = Some ?c" using flush_bucket_ok[of c n "bs ! n"] Cons.prems(1) by simp
  have "\<exists>r. flush_buckets ns ?c = Some (?c\<lparr>entries := r, heap := without (heap ?c) (\<Union>i \<in> set ns. set (bs ! i))\<rparr>) \<and>
      length r = length (entries ?c) \<and> (\<forall>i \<in> set ns. r ! i = NULL) \<and> (\<forall>i. i \<notin> set ns \<longrightarrow> r ! i = entries ?c ! i)"
  proof (rule Cons.IH)
    show "\<forall>i \<in> set ns. i < length (entries ?c) \<and> chain (hl (heap ?c)) (entries ?c ! i) (bs ! i) \<and> distinct (bs ! i)"
    proof
      fix i assume i: "i \<in> set ns"
      then have "i \<noteq> n" "set (bs ! n) \<inter> set (bs ! i) = {}" using Cons.prems(2,3) by auto
      then have "z \<in> set (bs ! i) \<Longrightarrow> hl (heap ?c) z = hl (heap c) z" for z by (auto simp: hl_without)
      then show "i < length (entries ?c) \<and> chain (hl (heap ?c)) (entries ?c ! i) (bs ! i) \<and> distinct (bs ! i)"
        using Cons.prems(1) i \<open>i \<noteq> n\<close> chain_frame[of "bs ! i" "hl (heap ?c)" "hl (heap c)"] by simp
    qed
  qed (use Cons.prems in auto)
  then obtain r where r: "flush_buckets ns ?c = Some (?c\<lparr>entries := r, heap := without (heap ?c) (\<Union>i \<in> set ns. set (bs ! i))\<rparr>)"
    "length r = length (entries ?c)" "\<forall>i \<in> set ns. r ! i = NULL" "\<forall>i. i \<notin> set ns \<longrightarrow> r ! i = entries ?c ! i" by blast
  have "without (heap ?c) (\<Union>i \<in> set ns. set (bs ! i)) = without (heap c) (\<Union>i \<in> set (n # ns). set (bs ! i))"
    by (auto simp: without_def fun_eq_iff)
  moreover have "n < length (entries c)" "n \<notin> set ns" using Cons.prems(1,2) by auto
  ultimately show ?case using f r by (intro exI[of _ r]) auto
qed

lemma cinv_empty:
  assumes "0 < max_entries c" "entries c = replicate (max_entries c) NULL" "num_entries c = 0"
    "heap c MRU_LIST = Some l" "mru_next l = MRU_LIST" "mru_prev l = MRU_LIST" "finite (dom (heap c))"
  shows "rep c []"
proof -
  have "cinv c [] (replicate (max_entries c) [])"
    using assms by (simp add: cinv_def ring_inv_def table_inv_def nxt_def prv_def unique_keys_def dom_cont)
  then show ?thesis by (auto simp: rep_def)
qed

lemma flush_refines:
  assumes "rep c A"
  shows "\<exists>c'. cache_flush_locked c = Some c' \<and> rep c' [] \<and> max_entries c' = max_entries c \<and> generation c' = generation c"
proof -
  obtain ms bs where inv: "cinv c ms bs" using assms by (auto simp: rep_def)
  have m: "0 < max_entries c" using inv by (simp add: cinv_def table_inv_def)
  have "\<forall>i \<in> set [0..<max_entries c]. i < length (entries c) \<and> chain (hl (heap c)) (entries c ! i) (bs ! i) \<and> distinct (bs ! i)"
    using cinv_bucket[OF inv] by auto
  moreover have "\<forall>i \<in> set [0..<max_entries c]. \<forall>j \<in> set [0..<max_entries c]. i \<noteq> j \<longrightarrow> set (bs ! i) \<inter> set (bs ! j) = {}"
    using buckets_disjoint[of bs] cinv_bucket(2,3)[OF inv m] by auto
  ultimately obtain r where r: "flush_buckets [0..<max_entries c] c =
      Some (c\<lparr>entries := r, heap := without (heap c) (\<Union>i \<in> set [0..<max_entries c]. set (bs ! i))\<rparr>)"
    "length r = length (entries c)" "\<forall>i \<in> set [0..<max_entries c]. r ! i = NULL"
    using flush_buckets_ok[of "[0..<max_entries c]" c bs] by auto
  have rr: "r = replicate (max_entries c) NULL"
    using r(2,3) cinv_bucket(1)[OF inv m] by (intro nth_equalityI) auto
  have "(\<Union>i \<in> set [0..<max_entries c]. set (bs ! i)) \<subseteq> set (concat bs)"
    using cinv_bucket(2)[OF inv m] nth_mem[of _ bs] by fastforce
  moreover have "MRU_LIST \<notin> set (concat bs)" using inv unfolding cinv_def ring_inv_def by auto
  ultimately have "without (heap c) (\<Union>i \<in> set [0..<max_entries c]. set (bs ! i)) MRU_LIST = heap c MRU_LIST"
    by (auto simp: without_def)
  moreover obtain l where "heap c MRU_LIST = Some l" using cinv_linked_dom[OF inv, of MRU_LIST] by auto
  moreover have fin: "finite (dom (without (heap c) X))" for X
    by (rule finite_subset[of _ "dom (heap c)"]) (use inv in \<open>auto simp: without_def cinv_def dom_cont split: if_splits\<close>)
  ultimately show ?thesis
    using r(1) rr m fin by (auto simp: cache_flush_locked_def upd_entry_def intro!: cinv_empty)
qed

lemma create_refines:
  "0 < maxe \<Longrightarrow> \<exists>c. resolv_cache_create True True maxe = Some c \<and> rep c [] \<and> max_entries c = maxe"
  by (auto simp: resolv_cache_create_def intro!: cinv_empty)

lemma rep_facts:
  assumes "rep c A"
  shows "length A \<le> max_entries c" "num_entries c = int (length A)" "unique_keys key_match A" "\<forall>e \<in> set A. cacheable (fst e)"
proof -
  obtain ms bs where inv: "cinv c ms bs" and A: "A = map (aent (heap c)) ms" using assms by (auto simp: rep_def)
  show "\<forall>e \<in> set A. cacheable (fst e)" unfolding A by (rule cinv_valid[OF inv])
  show "length A \<le> max_entries c" "num_entries c = int (length A)" "unique_keys key_match A"
    using inv A by (auto simp: cinv_def)
qed

section \<open>Properties\<close>

text \<open>
  The states a cache can be in: created, then changed by calls of the three operations with any
  well-formed arguments and any clock.
\<close>

inductive cache_step :: "(store \<Rightarrow> eptr) \<Rightarrow> Cache \<Rightarrow> Cache \<Rightarrow> bool" for calloc where
  lookup: "resolv_cache_lookup c q sz now = Some (c', out) \<Longrightarrow> cache_step calloc c c'"
| add: "calloc_ok calloc \<Longrightarrow> bounded_msg ans \<Longrightarrow> resolv_cache_add calloc c q ans now = Some c' \<Longrightarrow> cache_step calloc c c'"
| flush: "cache_flush_locked c = Some c' \<Longrightarrow> cache_step calloc c c'"

definition cache_start :: "Cache \<Rightarrow> bool" where
  "cache_start c \<longleftrightarrow> (\<exists>m > 0. resolv_cache_create True True m = Some c)"

lemma short_query: "\<not> 2 < length q \<Longrightarrow> entry_init_key q = None"
  by (simp add: entry_init_key_def entry_hash_def query_hash_def dnsPacket_hashQuery_def dnsPacket_init_def
      dnsPacket_rewind_def pend_def)

lemma getTTL_some: "bounded_msg ans \<Longrightarrow> \<exists>ttl. answer_getTTL ans = Some ttl"
proof -
  assume b: "bounded_msg ans"
  obtain r where r: "ns_initparse ans = Some r" "\<And>h. r = Inr h \<Longrightarrow> handle_ok h"
    using initparse_runs[OF b] unfolding runs_def by blast
  show ?thesis
  proof (cases r)
    case (Inr h)
    then show ?thesis using r record_ttls_total[of h] by (auto simp: answer_getTTL_def getTTL_loop_smallest)
  qed (use r(1) in \<open>simp add: answer_getTTL_def\<close>)
qed

lemma rep_step:
  assumes "\<exists>A. rep c A" "cache_step calloc c c'"
  shows "\<exists>A. rep c' A"
  using assms(2)
proof cases
  case (lookup q sz now out)
  then have "2 < length q" using short_query[of q] by (cases "2 < length q") (auto simp: resolv_cache_lookup_def)
  then show ?thesis using lookup_refines[of c _ q sz now] lookup assms(1) by auto
next
  case (add ans q now)
  then have "2 < length q" using short_query[of q] by (cases "2 < length q") (auto simp: resolv_cache_add_def)
  moreover obtain ttl where "answer_getTTL ans = Some ttl" using getTTL_some add(2) by blast
  ultimately show ?thesis using add_refines[OF _ _ add(1), of c _ q ans ttl now] add(3) assms(1) by fastforce
next
  case flush
  then show ?thesis using flush_refines assms(1) by fastforce
qed

interpretation rc: invariant_system cache_start "cache_step calloc" "\<lambda>c. \<exists>A. rep c A" for calloc
proof
  show "cache_start c \<Longrightarrow> \<exists>A. rep c A" for c
    unfolding cache_start_def using create_refines by (metis option.inject)
  show "\<exists>A. rep c A \<Longrightarrow> cache_step calloc c c' \<Longrightarrow> \<exists>A. rep c' A" for c c' by (rule rep_step)
qed


text \<open>An allocator that returns the address after the last one in use.\<close>

definition bump_alloc :: "store \<Rightarrow> eptr" where
  "bump_alloc h = (if finite (dom h) then Suc (Max (insert 0 (dom h))) else NULL)"

lemma bump_alloc_ok: "calloc_ok bump_alloc" "calloc_total bump_alloc"
proof -
  have "h (Suc (Max (insert 0 (dom h)))) = None" if "finite (dom h)" for h :: store
  proof (rule ccontr)
    assume "h (Suc (Max (insert 0 (dom h)))) \<noteq> None"
    then have "Suc (Max (insert 0 (dom h))) \<le> Max (insert 0 (dom h))" using that by (intro Max_ge) auto
    then show False by simp
  qed
  then show "calloc_ok bump_alloc" by (simp add: calloc_ok_def bump_alloc_def)
  show "calloc_total bump_alloc" by (simp add: calloc_total_def bump_alloc_def NULL_def)
qed

text \<open>A query for the address of \<open>a.b\<close>.\<close>

definition query_ab :: "u8 list" where
  "query_ab = enc_query 7 7 1 [([[97], [98]], [0, 1])] []"

lemma query_ab: "cacheable query_ab" "2 < length query_ab"
proof -
  show "cacheable query_ab"
    unfolding query_ab_def by (rule cacheable_enc) (simp add: query_ok_def question_ok_def label_ok_def cacheable_types_def)
  then show "2 < length query_ab" by (rule cacheable_len)
qed

lemma answer_bad_second_bounded: "bounded_msg answer_bad_second"
  by (simp add: bounded_msg_def answer_bad_second_def DNS_LABELTYPE_BITSTRING_def)




text \<open>
  C25. In every reachable state the cache holds at most \<open>max_entries\<close> entries, \<open>num_entries\<close> counts
  them, all their keys are well-formed queries, and no two entries have the same key.
\<close>

theorem cache_bounded_unique:
  assumes "reachable cache_start (cache_step calloc) c"
  shows "\<exists>A. rep c A \<and> length A \<le> max_entries c \<and> num_entries c = int (length A) \<and>
    list_all (\<lambda>e. cacheable (fst e)) A \<and> unique_keys key_match A"
  using rc.reachable_inv[OF assms] rep_facts by (fastforce simp: list_all_iff)

theorem cache_bounded_unique_witness:
  "\<exists>c A. cache_start c \<and> rep c A \<and> length A \<le> max_entries c \<and> num_entries c = int (length A) \<and>
    list_all (\<lambda>e. cacheable (fst e)) A \<and> unique_keys key_match A"
proof -
  obtain c where "resolv_cache_create True True 64 = Some c" using create_refines[of 64] by auto
  then have "cache_start c" by (auto simp: cache_start_def intro!: exI[of _ 64])
  then have "reachable cache_start (cache_step bump_alloc) c" by (rule reachable.start)
  from cache_bounded_unique[OF this] \<open>cache_start c\<close> show ?thesis by blast
qed

end
