(* ===== verification/Ctype.thy ===== *)
theory Ctype
  imports Bionic_Prelude
begin

text \<open>
  Character classes and case mapping: the table \<open>_C_ctype_\<close> and the functions of
  \<open>stdlib/ctype_.c\<close>, the tables and functions of \<open>stdlib/toupper_.c\<close> and \<open>stdlib/tolower_.c\<close>. The
  lemmas say which characters each class has; they are found by running the model on all of them.
\<close>

section \<open>The table\<close>

definition ct_U :: u8 where "ct_U = 0x01"

definition ct_L :: u8 where "ct_L = 0x02"

definition ct_N :: u8 where "ct_N = 0x04"

definition ct_S :: u8 where "ct_S = 0x08"

definition ct_P :: u8 where "ct_P = 0x10"

definition ct_C :: u8 where "ct_C = 0x20"

definition ct_X :: u8 where "ct_X = 0x40"

definition ct_B :: u8 where "ct_B = 0x80"

definition C_ctype :: "u8 list" where
  "C_ctype =
   [0,
   ct_C, ct_C, ct_C, ct_C, ct_C, ct_C, ct_C, ct_C,
   ct_C, ct_C OR ct_S, ct_C OR ct_S, ct_C OR ct_S, ct_C OR ct_S, ct_C OR ct_S, ct_C, ct_C,
   ct_C, ct_C, ct_C, ct_C, ct_C, ct_C, ct_C, ct_C,
   ct_C, ct_C, ct_C, ct_C, ct_C, ct_C, ct_C, ct_C,
   ct_S OR ct_B, ct_P, ct_P, ct_P, ct_P, ct_P, ct_P, ct_P,
   ct_P, ct_P, ct_P, ct_P, ct_P, ct_P, ct_P, ct_P,
   ct_N, ct_N, ct_N, ct_N, ct_N, ct_N, ct_N, ct_N,
   ct_N, ct_N, ct_P, ct_P, ct_P, ct_P, ct_P, ct_P,
   ct_P, ct_U OR ct_X, ct_U OR ct_X, ct_U OR ct_X, ct_U OR ct_X, ct_U OR ct_X, ct_U OR ct_X, ct_U,
   ct_U, ct_U, ct_U, ct_U, ct_U, ct_U, ct_U, ct_U,
   ct_U, ct_U, ct_U, ct_U, ct_U, ct_U, ct_U, ct_U,
   ct_U, ct_U, ct_U, ct_P, ct_P, ct_P, ct_P, ct_P,
   ct_P, ct_L OR ct_X, ct_L OR ct_X, ct_L OR ct_X, ct_L OR ct_X, ct_L OR ct_X, ct_L OR ct_X, ct_L,
   ct_L, ct_L, ct_L, ct_L, ct_L, ct_L, ct_L, ct_L,
   ct_L, ct_L, ct_L, ct_L, ct_L, ct_L, ct_L, ct_L,
   ct_L, ct_L, ct_L, ct_P, ct_P, ct_P, ct_P, ct_C,
   ct_C, ct_C, ct_C, ct_C, ct_C, ct_C, ct_C, ct_C,
   ct_C, ct_C, ct_C, ct_C, ct_C, ct_C, ct_C, ct_C,
   ct_C, ct_C, ct_C, ct_C, ct_C, ct_C, ct_C, ct_C,
   ct_C, ct_C, ct_C, ct_C, ct_C, ct_C, ct_C, ct_C,
   ct_P, ct_P, ct_P, ct_P, ct_P, ct_P, ct_P, ct_P,
   ct_P, ct_P, ct_P, ct_P, ct_P, ct_P, ct_P, ct_P,
   ct_P, ct_P, ct_P, ct_P, ct_P, ct_P, ct_P, ct_P,
   ct_P, ct_P, ct_P, ct_P, ct_P, ct_P, ct_P, ct_P,
   ct_P, ct_P, ct_P, ct_P, ct_P, ct_P, ct_P, ct_P,
   ct_P, ct_P, ct_P, ct_P, ct_P, ct_P, ct_P, ct_P,
   ct_P, ct_P, ct_P, ct_P, ct_P, ct_P, ct_P, ct_P,
   ct_P, ct_P, ct_P, ct_P, ct_P, ct_P, ct_P, ct_P,
   ct_P, ct_P, ct_P, ct_P, ct_P, ct_P, ct_P, ct_P,
   ct_P, ct_P, ct_P, ct_P, ct_P, ct_P, ct_P, ct_P,
   ct_P, ct_P, ct_P, ct_P, ct_P, ct_P, ct_P, ct_P,
   ct_P, ct_P, ct_P, ct_P, ct_P, ct_P, ct_P, ct_P]"

section \<open>Classes\<close>

text \<open>\<open>(_ctype_ + 1)[(unsigned char)c] & mask\<close>, with the test for \<open>EOF\<close> before it.\<close>

definition ctype_and :: "int \<Rightarrow> u8 \<Rightarrow> int" where
  "ctype_and c m = (if c = - 1 then 0 else uint (C_ctype ! (1 + nat (c mod 256)) AND m))"

definition isalnum :: "int \<Rightarrow> int" where
  "isalnum c = ctype_and c (ct_U OR ct_L OR ct_N)"

definition isalpha :: "int \<Rightarrow> int" where
  "isalpha c = ctype_and c (ct_U OR ct_L)"

definition iscntrl :: "int \<Rightarrow> int" where
  "iscntrl c = ctype_and c (ct_C)"

definition isdigit :: "int \<Rightarrow> int" where
  "isdigit c = ctype_and c (ct_N)"

definition isgraph :: "int \<Rightarrow> int" where
  "isgraph c = ctype_and c (ct_P OR ct_U OR ct_L OR ct_N)"

definition islower :: "int \<Rightarrow> int" where
  "islower c = ctype_and c (ct_L)"

definition isprint :: "int \<Rightarrow> int" where
  "isprint c = ctype_and c (ct_P OR ct_U OR ct_L OR ct_N OR ct_B)"

definition ispunct :: "int \<Rightarrow> int" where
  "ispunct c = ctype_and c (ct_P)"

definition isspace :: "int \<Rightarrow> int" where
  "isspace c = ctype_and c (ct_S)"

definition isupper :: "int \<Rightarrow> int" where
  "isupper c = ctype_and c (ct_U)"

definition isxdigit :: "int \<Rightarrow> int" where
  "isxdigit c = ctype_and c (ct_N OR ct_X)"

definition isblank :: "int \<Rightarrow> bool" where
  "isblank c \<longleftrightarrow> c = 32 \<or> c = 9"

definition isascii :: "int \<Rightarrow> bool" where
  "isascii c \<longleftrightarrow> c mod 2 ^ 32 \<le> 0x7f"

definition toascii :: "int \<Rightarrow> int" where
  "toascii c = c AND 0x7f"

section \<open>Case mapping\<close>

definition C_toupper :: "int list" where
  "C_toupper =
   [- 1,
   0x00, 0x01, 0x02, 0x03, 0x04, 0x05, 0x06, 0x07,
   0x08, 0x09, 0x0a, 0x0b, 0x0c, 0x0d, 0x0e, 0x0f,
   0x10, 0x11, 0x12, 0x13, 0x14, 0x15, 0x16, 0x17,
   0x18, 0x19, 0x1a, 0x1b, 0x1c, 0x1d, 0x1e, 0x1f,
   0x20, 0x21, 0x22, 0x23, 0x24, 0x25, 0x26, 0x27,
   0x28, 0x29, 0x2a, 0x2b, 0x2c, 0x2d, 0x2e, 0x2f,
   0x30, 0x31, 0x32, 0x33, 0x34, 0x35, 0x36, 0x37,
   0x38, 0x39, 0x3a, 0x3b, 0x3c, 0x3d, 0x3e, 0x3f,
   0x40, 0x41, 0x42, 0x43, 0x44, 0x45, 0x46, 0x47,
   0x48, 0x49, 0x4a, 0x4b, 0x4c, 0x4d, 0x4e, 0x4f,
   0x50, 0x51, 0x52, 0x53, 0x54, 0x55, 0x56, 0x57,
   0x58, 0x59, 0x5a, 0x5b, 0x5c, 0x5d, 0x5e, 0x5f,
   0x60, 0x41, 0x42, 0x43, 0x44, 0x45, 0x46, 0x47,
   0x48, 0x49, 0x4a, 0x4b, 0x4c, 0x4d, 0x4e, 0x4f,
   0x50, 0x51, 0x52, 0x53, 0x54, 0x55, 0x56, 0x57,
   0x58, 0x59, 0x5a, 0x7b, 0x7c, 0x7d, 0x7e, 0x7f,
   0x80, 0x81, 0x82, 0x83, 0x84, 0x85, 0x86, 0x87,
   0x88, 0x89, 0x8a, 0x8b, 0x8c, 0x8d, 0x8e, 0x8f,
   0x90, 0x91, 0x92, 0x93, 0x94, 0x95, 0x96, 0x97,
   0x98, 0x99, 0x9a, 0x9b, 0x9c, 0x9d, 0x9e, 0x9f,
   0xa0, 0xa1, 0xa2, 0xa3, 0xa4, 0xa5, 0xa6, 0xa7,
   0xa8, 0xa9, 0xaa, 0xab, 0xac, 0xad, 0xae, 0xaf,
   0xb0, 0xb1, 0xb2, 0xb3, 0xb4, 0xb5, 0xb6, 0xb7,
   0xb8, 0xb9, 0xba, 0xbb, 0xbc, 0xbd, 0xbe, 0xbf,
   0xc0, 0xc1, 0xc2, 0xc3, 0xc4, 0xc5, 0xc6, 0xc7,
   0xc8, 0xc9, 0xca, 0xcb, 0xcc, 0xcd, 0xce, 0xcf,
   0xd0, 0xd1, 0xd2, 0xd3, 0xd4, 0xd5, 0xd6, 0xd7,
   0xd8, 0xd9, 0xda, 0xdb, 0xdc, 0xdd, 0xde, 0xdf,
   0xe0, 0xe1, 0xe2, 0xe3, 0xe4, 0xe5, 0xe6, 0xe7,
   0xe8, 0xe9, 0xea, 0xeb, 0xec, 0xed, 0xee, 0xef,
   0xf0, 0xf1, 0xf2, 0xf3, 0xf4, 0xf5, 0xf6, 0xf7,
   0xf8, 0xf9, 0xfa, 0xfb, 0xfc, 0xfd, 0xfe, 0xff]"

definition C_tolower :: "int list" where
  "C_tolower =
   [- 1,
   0x00, 0x01, 0x02, 0x03, 0x04, 0x05, 0x06, 0x07,
   0x08, 0x09, 0x0a, 0x0b, 0x0c, 0x0d, 0x0e, 0x0f,
   0x10, 0x11, 0x12, 0x13, 0x14, 0x15, 0x16, 0x17,
   0x18, 0x19, 0x1a, 0x1b, 0x1c, 0x1d, 0x1e, 0x1f,
   0x20, 0x21, 0x22, 0x23, 0x24, 0x25, 0x26, 0x27,
   0x28, 0x29, 0x2a, 0x2b, 0x2c, 0x2d, 0x2e, 0x2f,
   0x30, 0x31, 0x32, 0x33, 0x34, 0x35, 0x36, 0x37,
   0x38, 0x39, 0x3a, 0x3b, 0x3c, 0x3d, 0x3e, 0x3f,
   0x40, 0x61, 0x62, 0x63, 0x64, 0x65, 0x66, 0x67,
   0x68, 0x69, 0x6a, 0x6b, 0x6c, 0x6d, 0x6e, 0x6f,
   0x70, 0x71, 0x72, 0x73, 0x74, 0x75, 0x76, 0x77,
   0x78, 0x79, 0x7a, 0x5b, 0x5c, 0x5d, 0x5e, 0x5f,
   0x60, 0x61, 0x62, 0x63, 0x64, 0x65, 0x66, 0x67,
   0x68, 0x69, 0x6a, 0x6b, 0x6c, 0x6d, 0x6e, 0x6f,
   0x70, 0x71, 0x72, 0x73, 0x74, 0x75, 0x76, 0x77,
   0x78, 0x79, 0x7a, 0x7b, 0x7c, 0x7d, 0x7e, 0x7f,
   0x80, 0x81, 0x82, 0x83, 0x84, 0x85, 0x86, 0x87,
   0x88, 0x89, 0x8a, 0x8b, 0x8c, 0x8d, 0x8e, 0x8f,
   0x90, 0x91, 0x92, 0x93, 0x94, 0x95, 0x96, 0x97,
   0x98, 0x99, 0x9a, 0x9b, 0x9c, 0x9d, 0x9e, 0x9f,
   0xa0, 0xa1, 0xa2, 0xa3, 0xa4, 0xa5, 0xa6, 0xa7,
   0xa8, 0xa9, 0xaa, 0xab, 0xac, 0xad, 0xae, 0xaf,
   0xb0, 0xb1, 0xb2, 0xb3, 0xb4, 0xb5, 0xb6, 0xb7,
   0xb8, 0xb9, 0xba, 0xbb, 0xbc, 0xbd, 0xbe, 0xbf,
   0xc0, 0xc1, 0xc2, 0xc3, 0xc4, 0xc5, 0xc6, 0xc7,
   0xc8, 0xc9, 0xca, 0xcb, 0xcc, 0xcd, 0xce, 0xcf,
   0xd0, 0xd1, 0xd2, 0xd3, 0xd4, 0xd5, 0xd6, 0xd7,
   0xd8, 0xd9, 0xda, 0xdb, 0xdc, 0xdd, 0xde, 0xdf,
   0xe0, 0xe1, 0xe2, 0xe3, 0xe4, 0xe5, 0xe6, 0xe7,
   0xe8, 0xe9, 0xea, 0xeb, 0xec, 0xed, 0xee, 0xef,
   0xf0, 0xf1, 0xf2, 0xf3, 0xf4, 0xf5, 0xf6, 0xf7,
   0xf8, 0xf9, 0xfa, 0xfb, 0xfc, 0xfd, 0xfe, 0xff]"

definition toupper :: "int \<Rightarrow> int" where
  "toupper c = (if c mod 2 ^ 32 > 255 then c else C_toupper ! (1 + nat c))"

definition tolower :: "int \<Rightarrow> int" where
  "tolower c = (if c mod 2 ^ 32 > 255 then c else C_tolower ! (1 + nat c))"

section \<open>The characters of each class\<close>

text \<open>A property of all characters is checked by running through them.\<close>

lemma all_chars: "list_all P [0..255] \<Longrightarrow> 0 \<le> c \<Longrightarrow> c < 256 \<Longrightarrow> P c" for c :: int
  by (auto simp: list_all_iff)

lemma isspace_table: "list_all (\<lambda>c. (isspace c \<noteq> 0) = (9 \<le> c \<and> c \<le> 13 \<or> c = 32)) [0..255]"
  by code_simp

lemma isdigit_table: "list_all (\<lambda>c. (isdigit c \<noteq> 0) = (48 \<le> c \<and> c \<le> 57)) [0..255]"
  by code_simp

lemma isupper_table: "list_all (\<lambda>c. (isupper c \<noteq> 0) = (65 \<le> c \<and> c \<le> 90)) [0..255]"
  by code_simp

lemma isalpha_table: "list_all (\<lambda>c. (isalpha c \<noteq> 0) = (65 \<le> c \<and> c \<le> 90 \<or> 97 \<le> c \<and> c \<le> 122)) [0..255]"
  by code_simp

lemma tolower_table: "list_all (\<lambda>c. tolower c = (if 65 \<le> c \<and> c \<le> 90 then c + 32 else c)) [0..255]"
  by code_simp

lemma toupper_table: "list_all (\<lambda>c. toupper c = (if 97 \<le> c \<and> c \<le> 122 then c - 32 else c)) [0..255]"
  by code_simp

lemmas isspace_iff = all_chars[OF isspace_table]
  and isdigit_iff = all_chars[OF isdigit_table]
  and isupper_iff = all_chars[OF isupper_table]
  and isalpha_iff = all_chars[OF isalpha_table]
  and tolower_eq = all_chars[OF tolower_table]
  and toupper_eq = all_chars[OF toupper_table]

end
