(* ===== verification/Strto.thy ===== *)
theory Strto
  imports Ctype "HOL-Library.Signed_Division"
begin

text \<open>
  Conversion of strings to integers: \<open>stdlib/strtol.c\<close>, \<open>strtoul.c\<close>, \<open>strtoimax.c\<close>, \<open>strtoumax.c\<close>,
  \<open>strtoll.c\<close>, \<open>strtoull.c\<close>, \<open>strntoumax.c\<close>, \<open>strntoimax.c\<close>, \<open>atoi.c\<close>, \<open>atol.c\<close> and \<open>atoll.c\<close>. The string is
  a list of bytes and pointers into it are offsets. A result is \<open>None\<close> when the code reads outside the
  string or when a signed operation overflows or divides by zero. Plain \<open>char\<close> is unsigned and \<open>long\<close>
  has 32 bits, as for the ARM targets.
\<close>

section \<open>The prefix of a number\<close>

abbreviation (input) LONG_MIN :: int where "LONG_MIN \<equiv> - (2 ^ 31)"

abbreviation (input) LONG_MAX :: int where "LONG_MAX \<equiv> 2 ^ 31 - 1"

abbreviation (input) ULONG_MAX :: int where "ULONG_MAX \<equiv> 2 ^ 32 - 1"

abbreviation (input) INTMAX_MIN :: int where "INTMAX_MIN \<equiv> - (2 ^ 63)"

abbreviation (input) INTMAX_MAX :: int where "INTMAX_MAX \<equiv> 2 ^ 63 - 1"

abbreviation (input) UINTMAX_MAX :: int where "UINTMAX_MAX \<equiv> 2 ^ 64 - 1"

definition getc_at :: "u8 list \<Rightarrow> nat \<Rightarrow> int option" where
  "getc_at nptr s = map_option uint (rd nptr s)"

text \<open>\<open>do c = *s++; while (isspace(c));\<close> gives \<open>c\<close> and \<open>s\<close>.\<close>

function skip_space :: "u8 list \<Rightarrow> nat \<Rightarrow> (int \<times> nat) option" where
  "skip_space nptr s =
    (case getc_at nptr s of
      None \<Rightarrow> None
    | Some c \<Rightarrow> if isspace c \<noteq> 0 then skip_space nptr (s + 1) else Some (c, s + 1))"
  by pat_completeness auto
termination
  by (relation "measure (\<lambda>(nptr, s). length nptr - s)") (auto simp: getc_at_def rd_Some_iff)

definition read_sign :: "u8 list \<Rightarrow> int \<Rightarrow> nat \<Rightarrow> (bool \<times> int \<times> nat) option" where
  "read_sign nptr c s =
    (if c = 45 then do { c \<leftarrow> getc_at nptr s; Some (True, c, s + 1) }
     else if c = 43 then do { c \<leftarrow> getc_at nptr s; Some (False, c, s + 1) }
     else Some (False, c, s))"

definition read_base :: "u8 list \<Rightarrow> int \<Rightarrow> int \<Rightarrow> nat \<Rightarrow> (int \<times> int \<times> nat) option" where
  "read_base nptr base c s =
    do {
      (base, c, s) \<leftarrow>
        (if (base = 0 \<or> base = 16) \<and> c = 48 then do {
           x \<leftarrow> getc_at nptr s;
           if x = 120 \<or> x = 88 then do { c \<leftarrow> getc_at nptr (s + 1); Some (16, c, s + 2) }
           else Some (base, c, s)
         }
         else Some (base, c, s));
      Some (if base = 0 then (if c = 48 then 8 else 10) else base, c, s)
    }"

definition read_prefix :: "u8 list \<Rightarrow> int \<Rightarrow> (bool \<times> int \<times> int \<times> nat) option" where
  "read_prefix nptr base =
    do {
      (c, s) \<leftarrow> skip_space nptr 0;
      (neg, c, s) \<leftarrow> read_sign nptr c s;
      (base, c, s) \<leftarrow> read_base nptr base c s;
      Some (neg, base, c, s)
    }"

text \<open>The conversion of \<open>c\<close> to a digit; \<open>None\<close> is the \<open>break\<close> of the last branch.\<close>

definition digit_of :: "int \<Rightarrow> int option" where
  "digit_of c =
    (if isdigit c \<noteq> 0 then Some (c - 48)
     else if isalpha c \<noteq> 0 then Some (c - (if isupper c \<noteq> 0 then 65 - 10 else 97 - 10))
     else None)"

section \<open>Signed conversion\<close>

text \<open>A signed result that does not fit its type.\<close>

definition in_type :: "int \<Rightarrow> int \<Rightarrow> int \<Rightarrow> int option" where
  "in_type mn mx x = (if mn \<le> x \<and> x \<le> mx then Some x else None)"

definition signed_div :: "int \<Rightarrow> int \<Rightarrow> int \<Rightarrow> int \<Rightarrow> (int \<times> int) option" where
  "signed_div mn mx a b =
    (if b = 0 then None else do { q \<leftarrow> in_type mn mx (a sdiv b); Some (q, a smod b) })"

text \<open>The computation of \<open>cutoff\<close> and \<open>cutlim\<close> from the limits of the type.\<close>

definition cutoffs :: "int \<Rightarrow> int \<Rightarrow> bool \<Rightarrow> int \<Rightarrow> (int \<times> int) option" where
  "cutoffs mn mx neg base = signed_div mn mx (if neg then mn else mx) base"

definition neg_adjust :: "bool \<Rightarrow> int \<Rightarrow> int \<times> int \<Rightarrow> int \<times> int" where
  "neg_adjust neg base lim =
    (case lim of (cutoff, cutlim) \<Rightarrow>
       if neg then
         let (cutoff, cutlim) = (if cutlim > 0 then (cutoff + 1, cutlim - base) else (cutoff, cutlim))
         in (cutoff, - cutlim)
       else (cutoff, cutlim))"

text \<open>The loop: \<open>er\<close> says whether \<open>errno\<close> has been set to \<open>ERANGE\<close>. The result adds \<open>s\<close> and \<open>any\<close>.\<close>

function signed_loop ::
  "u8 list \<Rightarrow> int \<Rightarrow> int \<Rightarrow> int \<Rightarrow> bool \<Rightarrow> int \<Rightarrow> int \<Rightarrow> int \<Rightarrow> nat \<Rightarrow> int \<Rightarrow> int \<Rightarrow> bool
    \<Rightarrow> (int \<times> nat \<times> int \<times> bool) option" where
  "signed_loop nptr mn mx base neg cutoff cutlim c s acc any er =
    (case digit_of c of
      None \<Rightarrow> Some (acc, s, any, er)
    | Some c \<Rightarrow>
      if c \<ge> base then Some (acc, s, any, er)
      else do {
        (acc, any, er) \<leftarrow>
          (if any < 0 then Some (acc, any, er)
           else if neg then
             if acc < cutoff \<or> acc = cutoff \<and> c > cutlim then Some (mn, - 1, True)
             else do { m \<leftarrow> in_type mn mx (acc * base); acc \<leftarrow> in_type mn mx (m - c); Some (acc, 1, er) }
           else
             if acc > cutoff \<or> acc = cutoff \<and> c > cutlim then Some (mx, - 1, True)
             else do { m \<leftarrow> in_type mn mx (acc * base); acc \<leftarrow> in_type mn mx (m + c); Some (acc, 1, er) });
        case getc_at nptr s of
          None \<Rightarrow> None
        | Some c \<Rightarrow> signed_loop nptr mn mx base neg cutoff cutlim c (s + 1) acc any er
      })"
  by pat_completeness auto
termination
  by (relation "measure (\<lambda>(nptr, mn, mx, base, neg, cutoff, cutlim, c, s, acc, any, er). length nptr - s)")
    (auto simp: getc_at_def rd_Some_iff)

text \<open>The value returned, what is stored in \<open>*endptr\<close>, and whether \<open>errno\<close> is set.\<close>

definition strtol :: "u8 list \<Rightarrow> int \<Rightarrow> (int \<times> nat \<times> bool) option" where
  "strtol nptr base =
    do {
      (neg, base, c, s) \<leftarrow> read_prefix nptr base;
      lim \<leftarrow> cutoffs LONG_MIN LONG_MAX neg base;
      let (cutoff, cutlim) = neg_adjust neg base lim;
      (acc, s, any, er) \<leftarrow> signed_loop nptr LONG_MIN LONG_MAX base neg cutoff cutlim c s 0 0 False;
      Some (acc, if any \<noteq> 0 then s - 1 else 0, er)
    }"

text \<open>The \<open>switch\<close> of \<open>strtoimax\<close>, whose cases divide by constants.\<close>

definition imax_cutoffs :: "bool \<Rightarrow> int \<Rightarrow> (int \<times> int) option" where
  "imax_cutoffs neg base =
    (if base = 4 then
       (if neg then Some (INTMAX_MIN sdiv 4, INTMAX_MIN smod 4) else Some (INTMAX_MAX sdiv 4, INTMAX_MAX smod 4))
     else if base = 8 then
       (if neg then Some (INTMAX_MIN sdiv 8, INTMAX_MIN smod 8) else Some (INTMAX_MAX sdiv 8, INTMAX_MAX smod 8))
     else if base = 10 then
       (if neg then Some (INTMAX_MIN sdiv 10, INTMAX_MIN smod 10) else Some (INTMAX_MAX sdiv 10, INTMAX_MAX smod 10))
     else if base = 16 then
       (if neg then Some (INTMAX_MIN sdiv 16, INTMAX_MIN smod 16) else Some (INTMAX_MAX sdiv 16, INTMAX_MAX smod 16))
     else cutoffs INTMAX_MIN INTMAX_MAX neg base)"

definition strtoimax :: "u8 list \<Rightarrow> int \<Rightarrow> (int \<times> nat \<times> bool) option" where
  "strtoimax nptr base =
    do {
      (neg, base, c, s) \<leftarrow> read_prefix nptr base;
      lim \<leftarrow> imax_cutoffs neg base;
      let (cutoff, cutlim) = neg_adjust neg base lim;
      (acc, s, any, er) \<leftarrow> signed_loop nptr INTMAX_MIN INTMAX_MAX base neg cutoff cutlim c s 0 0 False;
      Some (acc, if any \<noteq> 0 then s - 1 else 0, er)
    }"

definition strtoll :: "u8 list \<Rightarrow> int \<Rightarrow> (int \<times> nat \<times> bool) option" where
  "strtoll nptr base = strtoimax nptr base"

text \<open>The casts keep the low bits, as two's complement.\<close>

definition to_int32 :: "int \<Rightarrow> int" where
  "to_int32 x = sint (word_of_int x :: u32)"

definition atoi :: "u8 list \<Rightarrow> int option" where
  "atoi s = map_option (\<lambda>(r, e, er). to_int32 r) (strtoimax s 10)"

definition atol :: "u8 list \<Rightarrow> int option" where
  "atol s = map_option (\<lambda>(r, e, er). to_int32 r) (strtoimax s 10)"

definition atoll :: "u8 list \<Rightarrow> int option" where
  "atoll s = map_option (\<lambda>(r, e, er). r) (strtoimax s 10)"

section \<open>Unsigned conversion\<close>

text \<open>Unsigned arithmetic wraps around at \<open>mx + 1\<close>; \<open>cutlim\<close> is an \<open>int\<close>.\<close>

function unsigned_loop ::
  "u8 list \<Rightarrow> int \<Rightarrow> int \<Rightarrow> int \<Rightarrow> int \<Rightarrow> int \<Rightarrow> nat \<Rightarrow> int \<Rightarrow> int \<Rightarrow> bool
    \<Rightarrow> (int \<times> nat \<times> int \<times> bool) option" where
  "unsigned_loop nptr mx base cutoff cutlim c s acc any er =
    (case digit_of c of
      None \<Rightarrow> Some (acc, s, any, er)
    | Some c \<Rightarrow>
      if c \<ge> base then Some (acc, s, any, er)
      else
        let (acc, any, er) =
          (if any < 0 then (acc, any, er)
           else if acc > cutoff \<or> acc = cutoff \<and> c > cutlim then (mx, - 1, True)
           else ((acc * base mod (mx + 1) + c) mod (mx + 1), 1, er))
        in case getc_at nptr s of
          None \<Rightarrow> None
        | Some c \<Rightarrow> unsigned_loop nptr mx base cutoff cutlim c (s + 1) acc any er)"
  by pat_completeness auto
termination
  by (relation "measure (\<lambda>(nptr, mx, base, cutoff, cutlim, c, s, acc, any, er). length nptr - s)")
    (auto simp: getc_at_def rd_Some_iff)

definition unsigned_finish :: "int \<Rightarrow> bool \<Rightarrow> int \<times> nat \<times> int \<times> bool \<Rightarrow> int \<times> nat \<times> bool" where
  "unsigned_finish mx neg r =
    (case r of (acc, s, any, er) \<Rightarrow>
      (if neg \<and> any > 0 then (- acc) mod (mx + 1) else acc, if any \<noteq> 0 then s - 1 else 0, er))"

definition strtoul :: "u8 list \<Rightarrow> int \<Rightarrow> (int \<times> nat \<times> bool) option" where
  "strtoul nptr base =
    do {
      (neg, base, c, s) \<leftarrow> read_prefix nptr base;
      let ubase = base mod (ULONG_MAX + 1);
      let cutoff = ULONG_MAX div ubase;
      let cutlim = to_int32 (ULONG_MAX mod ubase);
      r \<leftarrow> unsigned_loop nptr ULONG_MAX base cutoff cutlim c s 0 0 False;
      Some (unsigned_finish ULONG_MAX neg r)
    }"

definition strtoumax :: "u8 list \<Rightarrow> int \<Rightarrow> (int \<times> nat \<times> bool) option" where
  "strtoumax nptr base =
    do {
      (neg, base, c, s) \<leftarrow> read_prefix nptr base;
      let (cutoff, cutlim) =
        (if base = 8 then (UINTMAX_MAX div 8, UINTMAX_MAX mod 8)
         else if base = 10 then (UINTMAX_MAX div 10, UINTMAX_MAX mod 10)
         else if base = 16 then (UINTMAX_MAX div 16, UINTMAX_MAX mod 16)
         else let ubase = base mod (UINTMAX_MAX + 1)
              in (UINTMAX_MAX div ubase, to_int32 (UINTMAX_MAX mod ubase)));
      r \<leftarrow> unsigned_loop nptr UINTMAX_MAX base cutoff cutlim c s 0 0 False;
      Some (unsigned_finish UINTMAX_MAX neg r)
    }"

definition strtoull :: "u8 list \<Rightarrow> int \<Rightarrow> (int \<times> nat \<times> bool) option" where
  "strtoull nptr base = strtoumax nptr base"

section \<open>Conversion within a length\<close>

definition digitval :: "int \<Rightarrow> int" where
  "digitval ch =
    (let d = (ch - 48) mod 2 ^ 32 in if d < 10 then d
     else let d = (ch - 97) mod 2 ^ 32 in if d < 6 then d + 10
     else let d = (ch - 65) mod 2 ^ 32 in if d < 6 then d + 10
     else - 1)"

function skip_space_n :: "u8 list \<Rightarrow> nat \<Rightarrow> nat \<Rightarrow> nat option" where
  "skip_space_n nptr p n =
    (if p < n then
       (case getc_at nptr p of
         None \<Rightarrow> None
       | Some c \<Rightarrow> if isspace c \<noteq> 0 then skip_space_n nptr (p + 1) n else Some p)
     else Some p)"
  by pat_completeness auto
termination
  by (relation "measure (\<lambda>(nptr, p, n). n - p)") auto

function digits_n :: "u8 list \<Rightarrow> int \<Rightarrow> nat \<Rightarrow> nat \<Rightarrow> int \<Rightarrow> (int \<times> nat) option" where
  "digits_n nptr base p n v =
    (if p < n then
       (case getc_at nptr p of
         None \<Rightarrow> None
       | Some c \<Rightarrow>
         let d = digitval c
         in if d \<ge> 0 \<and> d < base
            then digits_n nptr base (p + 1) n ((v * base + d) mod (UINTMAX_MAX + 1))
            else Some (v, p))
     else Some (v, p))"
  by pat_completeness auto
termination
  by (relation "measure (\<lambda>(nptr, base, p, n, v). n - p)") auto

definition hex_prefix_n :: "u8 list \<Rightarrow> nat \<Rightarrow> nat \<Rightarrow> bool option" where
  "hex_prefix_n nptr p n =
    (if p + 2 < n then do {
       x \<leftarrow> getc_at nptr p;
       if x = 48 then do { y \<leftarrow> getc_at nptr (p + 1); Some (y = 120 \<or> y = 88) } else Some False
     }
     else Some False)"

definition read_sign_n :: "u8 list \<Rightarrow> nat \<Rightarrow> nat \<Rightarrow> (bool \<times> nat) option" where
  "read_sign_n nptr p n =
    (if p < n then do {
       c \<leftarrow> getc_at nptr p;
       if c = 45 \<or> c = 43 then Some (c = 45, p + 1) else Some (False, p)
     }
     else Some (False, p))"

definition read_base_n :: "u8 list \<Rightarrow> int \<Rightarrow> nat \<Rightarrow> nat \<Rightarrow> (int \<times> nat) option" where
  "read_base_n nptr base p n =
    (if base = 0 then do {
       h \<leftarrow> hex_prefix_n nptr p n;
       if h then Some (16, p + 2)
       else if p + 1 < n then do {
         x \<leftarrow> getc_at nptr p;
         if x = 48 then Some (8, p + 1) else Some (10, p)
       }
       else Some (10, p)
     }
     else if base = 16 then do {
       h \<leftarrow> hex_prefix_n nptr p n;
       if h then Some (base, p + 2) else Some (base, p)
     }
     else Some (base, p))"

definition strntoumax :: "u8 list \<Rightarrow> int \<Rightarrow> nat \<Rightarrow> (int \<times> nat) option" where
  "strntoumax nptr base n =
    do {
      p \<leftarrow> skip_space_n nptr 0 n;
      (minus, p) \<leftarrow> read_sign_n nptr p n;
      (base, p) \<leftarrow> read_base_n nptr base p n;
      (v, p) \<leftarrow> digits_n nptr base p n 0;
      Some (if minus then (- v) mod (UINTMAX_MAX + 1) else v, p)
    }"

definition strntoimax :: "u8 list \<Rightarrow> int \<Rightarrow> nat \<Rightarrow> (int \<times> nat) option" where
  "strntoimax nptr base n =
    map_option (\<lambda>(v, p). (sint (word_of_int v :: 64 word), p)) (strntoumax nptr base n)"

declare skip_space.simps [simp del] signed_loop.simps [simp del] unsigned_loop.simps [simp del]
  skip_space_n.simps [simp del] digits_n.simps [simp del]

section \<open>What a number is\<close>

text \<open>
  The reference: the value of a character as a digit, the digits at the start of a string in a base,
  and the parts of a number as the C standard describes them: white space, a sign, a prefix that may
  choose the base, digits. The last component is where the digits start.
\<close>

definition digit_value :: "int \<Rightarrow> int option" where
  "digit_value c =
    (if 48 \<le> c \<and> c \<le> 57 then Some (c - 48)
     else if 65 \<le> c \<and> c \<le> 90 then Some (c - 55)
     else if 97 \<le> c \<and> c \<le> 122 then Some (c - 87)
     else None)"

fun digits :: "int \<Rightarrow> u8 list \<Rightarrow> int list" where
  "digits b [] = []"
| "digits b (x # xs) =
    (case digit_value (uint x) of
      None \<Rightarrow> []
    | Some d \<Rightarrow> if d < b then d # digits b xs else [])"

definition horner :: "int \<Rightarrow> int \<Rightarrow> int list \<Rightarrow> int" where
  "horner b a ds = foldl (\<lambda>a d. a * b + d) a ds"

definition space_byte :: "u8 \<Rightarrow> bool" where
  "space_byte x \<longleftrightarrow> 9 \<le> x \<and> x \<le> 13 \<or> x = 32"

definition has_hex :: "int \<Rightarrow> u8 list \<Rightarrow> bool" where
  "has_hex base s \<longleftrightarrow> (base = 0 \<or> base = 16) \<and> (take 2 s = [48, 120] \<or> take 2 s = [48, 88])"

definition number_parts :: "int \<Rightarrow> u8 list \<Rightarrow> bool \<times> int \<times> int list \<times> nat" where
  "number_parts base s =
    (let n1 = length (takeWhile space_byte s); s1 = drop n1 s;
         n2 = (if take 1 s1 = [45] \<or> take 1 s1 = [43] then 1 else 0); s2 = drop n2 s1;
         n3 = (if has_hex base s2 then 2 else 0);
         b = (if has_hex base s2 then 16
              else if base = 0 then (if take 1 s2 = [48] then 8 else 10) else base)
     in (take 1 s1 = [45], b, digits b (drop n3 s2), n1 + n2 + n3))"

section \<open>Scanning\<close>

text \<open>
  The code looks at a character \<open>c\<close> with \<open>s\<close> one past it. \<open>at\<close> says that \<open>ys\<close> is what is left of the
  string there.
\<close>

definition peek :: "u8 list \<Rightarrow> int" where
  "peek ys = (case ys of [] \<Rightarrow> 0 | y # _ \<Rightarrow> uint y)"

lemma peek_simps [simp]: "peek [] = 0" "peek (y # ys) = uint y"
  by (simp_all add: peek_def)

definition at :: "u8 list \<Rightarrow> nat \<Rightarrow> u8 list \<Rightarrow> bool" where
  "at nptr s ys \<longleftrightarrow> s > 0 \<and> 0 \<notin> set ys \<and> (\<exists>rest. drop (s - 1) nptr = ys @ 0 # rest)"

lemma at_getc:
  assumes "drop s nptr = ys @ 0 # rest"
  shows "getc_at nptr s = Some (peek ys)"
proof -
  have "s < length nptr"
    using assms by (metis append_is_Nil_conv drop_all linorder_not_le list.distinct(1))
  then have "drop s nptr = nptr ! s # drop (Suc s) nptr"
    by (rule Cons_nth_drop_Suc[symmetric])
  with \<open>s < length nptr\<close> assms show ?thesis
    by (cases ys) (auto simp: getc_at_def rd_def)
qed

lemma at_drop: "at nptr s (y # ys) \<Longrightarrow> \<exists>rest. drop s nptr = ys @ 0 # rest"
proof -
  assume "at nptr s (y # ys)"
  then obtain rest where "s > 0" "drop (s - 1) nptr = y # ys @ 0 # rest"
    by (auto simp: at_def)
  then have "drop 1 (drop (s - 1) nptr) = ys @ 0 # rest"
    by simp
  with \<open>s > 0\<close> show ?thesis
    by auto
qed

lemma at_next: "at nptr s (y # ys) \<Longrightarrow> getc_at nptr s = Some (peek ys)"
  using at_drop at_getc by blast

lemma at_step: "at nptr s (y # ys) \<Longrightarrow> at nptr (s + 1) ys"
  using at_drop[of nptr s y ys] by (auto simp: at_def)

lemma isspace_byte: "isspace (uint x) \<noteq> 0 \<longleftrightarrow> space_byte x" for x :: u8
proof -
  have "space_byte x \<longleftrightarrow> 9 \<le> uint x \<and> uint x \<le> 13 \<or> uint x = 32"
    by (simp add: space_byte_def word_le_def word_uint_eq_iff)
  then show ?thesis
    using isspace_iff[of "uint x"] uint_lt2p[of x] by simp
qed

lemma digit_of_byte: "digit_of (uint x) = digit_value (uint x)" for x :: u8
proof -
  have "0 \<le> uint x" "uint x < 256"
    using uint_lt2p[of x] by auto
  then show ?thesis
    by (auto simp: digit_of_def digit_value_def isdigit_iff isupper_iff isalpha_iff)
qed

lemma digit_of_0: "digit_of 0 = None"
  by (simp add: digit_of_def isdigit_iff isalpha_iff)

lemma digit_value_nonneg: "digit_value c = Some d \<Longrightarrow> 0 \<le> d"
  by (auto simp: digit_value_def split: if_splits)

lemma skip_space_parts:
  assumes "0 \<notin> set xs" and "drop s nptr = xs @ 0 # rest"
  shows "skip_space nptr s =
      Some (peek (dropWhile space_byte xs), s + length (takeWhile space_byte xs) + 1) \<and>
    at nptr (s + length (takeWhile space_byte xs) + 1) (dropWhile space_byte xs)"
  using assms
proof (induction xs arbitrary: s)
  case Nil
  then show ?case
    by (subst skip_space.simps) (auto simp: at_getc[of s nptr "[]"] isspace_iff at_def)
next
  case (Cons x xs)
  have d: "drop (s + 1) nptr = xs @ 0 # rest"
    using Cons.prems(2) by (metis append_Cons drop_drop drop0 drop_Suc_Cons One_nat_def add.commute)
  have g: "getc_at nptr s = Some (uint x)"
    using at_getc[of s nptr "x # xs"] Cons.prems(2) by simp
  show ?case
  proof (cases "space_byte x")
    case True
    then show ?thesis
      using Cons.IH[of "s + 1"] Cons.prems(1) d g isspace_byte[of x] by (subst skip_space.simps) auto
  next
    case False
    then show ?thesis
      using g isspace_byte[of x] Cons.prems by (subst skip_space.simps) (auto simp: at_def)
  qed
qed

lemma read_sign_parts:
  assumes "at nptr s ys"
  defines "n2 \<equiv> (if take 1 ys = [45] \<or> take 1 ys = [43] then 1 else 0)"
  shows "read_sign nptr (peek ys) s = Some (take 1 ys = [45], peek (drop n2 ys), s + n2)
    \<and> at nptr (s + n2) (drop n2 ys)"
proof (cases ys)
  case Nil
  then show ?thesis using assms by (simp add: read_sign_def)
next
  case (Cons y ys')
  have "uint y = 45 \<longleftrightarrow> y = 45" "uint y = 43 \<longleftrightarrow> y = 43"
    by (simp_all add: word_uint_eq_iff)
  then show ?thesis
    using assms at_next[of nptr s y ys'] at_step[of nptr s y ys'] by (auto simp: Cons read_sign_def)
qed

lemma read_base_parts:
  fixes base :: int
  assumes "at nptr s ys"
  defines "n3 \<equiv> (if has_hex base ys then 2 else 0)"
  defines "b \<equiv> (if has_hex base ys then 16
              else if base = 0 then (if take 1 ys = [48] then 8 else 10) else base)"
  shows "read_base nptr base (peek ys) s = Some (b, peek (drop n3 ys), s + n3) \<and> at nptr (s + n3) (drop n3 ys)"
proof (cases "has_hex base ys")
  case True
  then obtain x zs where ys: "ys = 48 # x # zs" and x: "x = 120 \<or> x = 88"
    by (cases ys rule: remdups_adj.cases) (auto simp: has_hex_def)
  note a1 = at_step[OF assms(1)[unfolded ys]]
  have "getc_at nptr s = Some (uint x)" "getc_at nptr (s + 1) = Some (peek zs)" "at nptr (s + 2) zs"
    using at_next[OF assms(1)[unfolded ys]] at_next[OF a1] at_step[OF a1] by simp_all
  then show ?thesis
    using True x ys by (auto simp: n3_def b_def read_base_def has_hex_def)
next
  case False
  show ?thesis
  proof (cases ys)
    case Nil
    then show ?thesis using False assms by (simp add: read_base_def)
  next
    case (Cons y zs)
    have u: "uint y = 48 \<longleftrightarrow> y = 48"
      by (simp add: word_uint_eq_iff)
    have p: "peek zs = 120 \<longleftrightarrow> take 1 zs = [120]" "peek zs = 88 \<longleftrightarrow> take 1 zs = [88]"
      by (cases zs; simp add: word_uint_eq_iff)+
    show ?thesis
      using False assms at_next[of nptr s y zs] u p
      by (cases zs) (auto simp: Cons read_base_def has_hex_def)
  qed
qed

lemma read_prefix_parts:
  assumes "0 \<notin> set xs" and "number_parts base xs = (neg, b, ds, k)"
  obtains ys where "read_prefix (xs @ 0 # rest) base = Some (neg, b, peek ys, k + 1)"
    and "at (xs @ 0 # rest) (k + 1) ys" and "ds = digits b ys"
proof -
  define n1 where "n1 = length (takeWhile space_byte xs)"
  define s1 where "s1 = dropWhile space_byte xs"
  define n2 where "n2 = (if take 1 s1 = [45] \<or> take 1 s1 = [43] then 1 else 0 :: nat)"
  define s2 where "s2 = drop n2 s1"
  define n3 where "n3 = (if has_hex base s2 then 2 else 0 :: nat)"
  define b' where "b' = (if has_hex base s2 then 16
              else if base = 0 then (if take 1 s2 = [48] then 8 else 10) else base)"
  note defs = n1_def s1_def n2_def s2_def n3_def b'_def
  have sk: "skip_space (xs @ 0 # rest) 0 = Some (peek s1, n1 + 1)" "at (xs @ 0 # rest) (n1 + 1) s1"
    using skip_space_parts[of xs 0 "xs @ 0 # rest" rest] assms(1) by (simp_all add: defs)
  have sg: "read_sign (xs @ 0 # rest) (peek s1) (n1 + 1) = Some (take 1 s1 = [45], peek s2, n1 + 1 + n2)"
    "at (xs @ 0 # rest) (n1 + 1 + n2) s2"
    using read_sign_parts[OF sk(2)] by (simp_all add: n2_def s2_def)
  have bs: "read_base (xs @ 0 # rest) base (peek s2) (n1 + 1 + n2) = Some (b', peek (drop n3 s2), n1 + 1 + n2 + n3)"
    "at (xs @ 0 # rest) (n1 + 1 + n2 + n3) (drop n3 s2)"
    using read_base_parts[OF sg(2), of base] by (simp_all add: n3_def b'_def)
  have "drop n1 xs = s1"
    by (simp add: n1_def s1_def dropWhile_eq_drop)
  then have "number_parts base xs = (take 1 s1 = [45], b', digits b' (drop n3 s2), n1 + n2 + n3)"
    by (simp only: number_parts_def Let_def n1_def[symmetric] n2_def[symmetric] s2_def[symmetric]
        n3_def[symmetric] b'_def[symmetric])
  then have eq: "neg = (take 1 s1 = [45])" "b = b'" "ds = digits b' (drop n3 s2)" "k = n1 + n2 + n3"
    using assms(2) by simp_all
  show thesis
  proof (rule that[of "drop n3 s2"])
    show "read_prefix (xs @ 0 # rest) base = Some (neg, b, peek (drop n3 s2), k + 1)"
      using sk(1) sg(1) bs(1) by (simp add: read_prefix_def eq ac_simps)
    show "at (xs @ 0 # rest) (k + 1) (drop n3 s2)"
      using bs(2) by (simp add: eq ac_simps)
  qed (simp add: eq)
qed

section \<open>Accumulating digits\<close>

lemma horner_simps [simp]: "horner b a [] = a" "horner b a (d # ds) = horner b (a * b + d) ds"
  by (simp_all add: horner_def)

lemma digits_nonneg: "d \<in> set (digits b xs) \<Longrightarrow> 0 \<le> d"
  by (induction xs) (auto split: option.splits if_splits intro: digit_value_nonneg[OF sym])

lemma horner_ge: "0 \<le> a \<Longrightarrow> 1 \<le> b \<Longrightarrow> (\<And>d. d \<in> set ds \<Longrightarrow> 0 \<le> d) \<Longrightarrow> a \<le> horner b a ds"
proof (induction ds arbitrary: a)
  case (Cons d ds)
  have "a * 1 \<le> a * b"
    using Cons.prems by (intro mult_left_mono) auto
  then have "a \<le> a * b + d"
    using Cons.prems(3)[of d] by simp
  also have "\<dots> \<le> horner b (a * b + d) ds"
    using Cons calculation by (intro Cons.IH) auto
  finally show ?case by simp
qed simp

text \<open>The comparison with the cut-off decides whether the next digit still fits.\<close>

lemma cutoff_exact:
  fixes a b d m :: int
  assumes "0 \<le> d" "d < b"
  shows "a > m div b \<or> a = m div b \<and> d > m mod b \<longleftrightarrow> a * b + d > m"
proof -
  have m: "m = (m div b) * b + m mod b" "0 \<le> m mod b" "m mod b < b"
    using assms by simp_all
  consider "a > m div b" | "a = m div b" | "a < m div b"
    by linarith
  then show ?thesis
  proof cases
    case 1
    then have "(m div b + 1) * b \<le> a * b"
      using assms by (intro mult_right_mono) auto
    then have "m div b * b + b \<le> a * b"
      by (simp add: distrib_right)
    with 1 m assms show ?thesis by linarith
  next
    case 2
    have "a * b + d - m = d - m mod b"
      unfolding 2 using m(1) by linarith
    with 2 show ?thesis by linarith
  next
    case 3
    then have "(a + 1) * b \<le> m div b * b"
      using assms by (intro mult_right_mono) auto
    then have "a * b + b \<le> m div b * b"
      by (simp add: distrib_right)
    with 3 m assms show ?thesis by linarith
  qed
qed

lemma signed_loop_saturated:
  "any < 0 \<Longrightarrow> at nptr s ys \<Longrightarrow>
    signed_loop nptr mn mx b neg cutoff cutlim (peek ys) s acc any er =
      Some (acc, s + length (digits b ys), any, er)"
proof (induction ys arbitrary: s)
  case Nil
  then show ?case by (subst signed_loop.simps) (simp add: digit_of_0)
next
  case (Cons y ys)
  then show ?case
    using at_next[OF Cons.prems(2)] Cons.IH[OF Cons.prems(1) at_step[OF Cons.prems(2)]]
    by (subst signed_loop.simps) (simp add: digit_of_byte split: option.split)
qed

lemma signed_loop_value:
  fixes A :: int
  assumes "at nptr s ys" "0 \<le> A" "A \<le> M" "2 \<le> b" "any \<ge> 0" "mn \<le> 0" "0 \<le> mx"
    and "M = (if neg then - mn else mx)" and "cutoff = (if neg then - (M div b) else M div b)"
  defines "H \<equiv> horner b A (digits b ys)"
  shows "signed_loop nptr mn mx b neg cutoff (M mod b) (peek ys) s (if neg then - A else A) any er =
    Some (if H \<le> M then if neg then - H else H else if neg then mn else mx, s + length (digits b ys),
      if H \<le> M then if digits b ys = [] then any else 1 else - 1, er \<or> M < H)"
  using assms(1-3,5) unfolding H_def
proof (induction ys arbitrary: s A any er)
  case Nil
  then show ?case by (subst signed_loop.simps) (simp add: digit_of_0)
next
  case (Cons y ys)
  note at = at_next[OF Cons.prems(1)] at_step[OF Cons.prems(1)]
  show ?case
  proof (cases "digit_value (uint y)")
    case None
    then show ?thesis using Cons.prems by (subst signed_loop.simps) (simp add: digit_of_byte)
  next
    case (Some d)
    note d0 = digit_value_nonneg[OF Some]
    show ?thesis
    proof (cases "d < b")
      case False
      then show ?thesis using Some Cons.prems by (subst signed_loop.simps) (simp add: digit_of_byte)
    next
      case True
      have over: "(if neg then (if neg then - A else A) < cutoff \<or> (if neg then - A else A) = cutoff \<and> d > M mod b
          else (if neg then - A else A) > cutoff \<or> (if neg then - A else A) = cutoff \<and> d > M mod b)
        \<longleftrightarrow> A * b + d > M"
        using cutoff_exact[OF d0 True, of M A] by (auto simp: assms(9))
      have "0 \<le> A * b"
        using Cons.prems(2) assms(4) by simp
      show ?thesis
      proof (cases "A * b + d > M")
        case True
        then have "M < horner b (A * b + d) (digits b ys)"
          using horner_ge[of "A * b + d" b "digits b ys"] digits_nonneg[of _ b ys] d0 \<open>0 \<le> A * b\<close> assms(4)
          by fastforce
        then show ?thesis
          using over Some \<open>d < b\<close> True Cons.prems at signed_loop_saturated[OF _ at(2)]
          by (subst signed_loop.simps) (auto simp: digit_of_byte split: if_splits)
      next
        case False
        then have fits: "neg \<Longrightarrow> in_type mn mx (- A * b) = Some (- A * b)"
            "neg \<Longrightarrow> in_type mn mx (- A * b - d) = Some (- (A * b + d))"
            "\<not> neg \<Longrightarrow> in_type mn mx (A * b) = Some (A * b)"
            "\<not> neg \<Longrightarrow> in_type mn mx (A * b + d) = Some (A * b + d)"
          using \<open>0 \<le> A * b\<close> d0 assms(6-8) by (auto simp: in_type_def)
        from False show ?thesis
          using over Some \<open>d < b\<close> Cons.prems at fits Cons.IH[OF at(2), of "A * b + d" 1 er] d0 \<open>0 \<le> A * b\<close>
          by (subst signed_loop.simps) (cases neg; auto simp: digit_of_byte)
      qed
    qed
  qed
qed

section \<open>The conversions compute the number\<close>

lemma sdiv_nonneg: "0 \<le> a \<Longrightarrow> 0 < b \<Longrightarrow> a sdiv b = a div b \<and> a smod b = a mod b" for a b :: int
  by (simp add: signed_divide_int_def signed_modulo_int_def sgn_if minus_mult_div_eq_mod)

lemma sdiv_neg: "0 \<le> a \<Longrightarrow> 0 < b \<Longrightarrow> (- a) sdiv b = - (a div b) \<and> (- a) smod b = - (a mod b)" for a b :: int
  by (simp add: signed_divide_int_def signed_modulo_int_def sgn_if minus_mult_div_eq_mod)

lemma div_le_self:
  fixes a b :: int
  assumes "0 \<le> a" "1 \<le> b"
  shows "a div b \<le> a"
  using assms zdiv_mono2[of a 1 b] by simp

text \<open>The cut-off values after the adjustment for negative numbers.\<close>

definition cut_ok :: "int \<Rightarrow> int \<Rightarrow> bool \<Rightarrow> int \<Rightarrow> int \<times> int \<Rightarrow> bool" where
  "cut_ok mn mx neg b p \<longleftrightarrow>
    neg_adjust neg b p =
      (let M = (if neg then - mn else mx) in (if neg then - (M div b) else M div b, M mod b))"

lemma cutoffs_ok:
  assumes "2 \<le> b" "mn \<le> 0" "0 \<le> mx"
  shows "\<exists>p. cutoffs mn mx neg b = Some p \<and> cut_ok mn mx neg b p"
proof (cases neg)
  case True
  have "(- mn) div b \<le> - mn" "0 \<le> (- mn) div b"
    using assms by (auto simp: pos_imp_zdiv_nonneg_iff intro: div_le_self)
  moreover have "\<not> (- mn) mod b < 0"
    using assms by (simp add: not_less)
  ultimately show ?thesis
    using True sdiv_neg[of "- mn" b] assms
    by (auto simp: cutoffs_def signed_div_def in_type_def cut_ok_def neg_adjust_def Let_def)
next
  case False
  have "mx div b \<le> mx" "0 \<le> mx div b"
    using assms by (auto simp: pos_imp_zdiv_nonneg_iff intro: div_le_self)
  then show ?thesis
    using False sdiv_nonneg[of mx b] assms
    by (auto simp: cutoffs_def signed_div_def in_type_def cut_ok_def neg_adjust_def)
qed

text \<open>The constants of \<open>strtoimax\<close> are what the divisions give.\<close>

lemma imax_cutoffs_eq: "2 \<le> b \<Longrightarrow> imax_cutoffs neg b = cutoffs INTMAX_MIN INTMAX_MAX neg b"
  by (auto simp: imax_cutoffs_def cutoffs_def signed_div_def in_type_def signed_divide_int_def)

definition clamp :: "int \<Rightarrow> int \<Rightarrow> int \<Rightarrow> int" where
  "clamp mn mx v = max mn (min mx v)"

text \<open>The result a signed conversion owes to the parts of the number.\<close>

definition signed_result :: "int \<Rightarrow> int \<Rightarrow> bool \<times> int \<times> int list \<times> nat \<Rightarrow> int \<times> nat \<times> bool" where
  "signed_result mn mx p =
    (case p of (neg, b, ds, k) \<Rightarrow>
      let v = (if neg then - horner b 0 ds else horner b 0 ds)
      in (clamp mn mx v, if ds = [] then 0 else k + length ds, v < mn \<or> mx < v))"

lemma parts_base: "number_parts base xs = (neg, b, ds, k) \<Longrightarrow> base = 0 \<or> 2 \<le> base \<Longrightarrow> 2 \<le> b"
  by (auto simp: number_parts_def Let_def split: if_splits)

lemma parts_digits: "number_parts base xs = (neg, b, ds, k) \<Longrightarrow> d \<in> set ds \<Longrightarrow> 0 \<le> d"
  by (auto simp: number_parts_def Let_def dest: digits_nonneg)

lemma signed_conversion:
  assumes "at nptr (k + 1) ys" "2 \<le> b" "mn \<le> 0" "0 < mx" "cut_ok mn mx neg b lim"
  shows "(let (cutoff, cutlim) = neg_adjust neg b lim in
      do { (acc, s, any, er) \<leftarrow> signed_loop nptr mn mx b neg cutoff cutlim (peek ys) (k + 1) 0 0 False;
           Some (acc, if any \<noteq> 0 then s - 1 else 0, er) })
    = Some (signed_result mn mx (neg, b, digits b ys, k))"
proof -
  let ?H = "horner b 0 (digits b ys)"
  have "0 \<le> ?H"
    using horner_ge[of 0 b "digits b ys"] digits_nonneg[of _ b ys] assms(2) by simp
  then show ?thesis
    using signed_loop_value[OF assms(1), of 0 "if neg then - mn else mx" b 0 mn mx neg _ False] assms(2-5)
    by (auto simp: cut_ok_def Let_def signed_result_def clamp_def)
qed


lemma strtol_result:
  assumes "0 \<notin> set xs" "base = 0 \<or> 2 \<le> base"
  shows "strtol (xs @ 0 # rest) base = Some (signed_result LONG_MIN LONG_MAX (number_parts base xs))"
proof -
  obtain neg b ds k where p: "number_parts base xs = (neg, b, ds, k)"
    by (cases "number_parts base xs")
  obtain ys where r: "read_prefix (xs @ 0 # rest) base = Some (neg, b, peek ys, k + 1)"
    and a: "at (xs @ 0 # rest) (k + 1) ys" and d: "ds = digits b ys"
    using read_prefix_parts[OF assms(1) p] .
  note b = parts_base[OF p assms(2)]
  obtain lim where l: "cutoffs LONG_MIN LONG_MAX neg b = Some lim" "cut_ok LONG_MIN LONG_MAX neg b lim"
    using cutoffs_ok[OF b, of LONG_MIN LONG_MAX neg] by auto
  show ?thesis
    using signed_conversion[OF a b _ _ l(2)] l(1) by (simp add: strtol_def r p d)
qed

lemma strtoimax_result:
  assumes "0 \<notin> set xs" "base = 0 \<or> 2 \<le> base"
  shows "strtoimax (xs @ 0 # rest) base = Some (signed_result INTMAX_MIN INTMAX_MAX (number_parts base xs))"
proof -
  obtain neg b ds k where p: "number_parts base xs = (neg, b, ds, k)"
    by (cases "number_parts base xs")
  obtain ys where r: "read_prefix (xs @ 0 # rest) base = Some (neg, b, peek ys, k + 1)"
    and a: "at (xs @ 0 # rest) (k + 1) ys" and d: "ds = digits b ys"
    using read_prefix_parts[OF assms(1) p] .
  note b = parts_base[OF p assms(2)]
  obtain lim where l: "imax_cutoffs neg b = Some lim" "cut_ok INTMAX_MIN INTMAX_MAX neg b lim"
    using cutoffs_ok[OF b, of INTMAX_MIN INTMAX_MAX neg] imax_cutoffs_eq[OF b, of neg] by auto
  show ?thesis
    using signed_conversion[OF a b _ _ l(2)] l(1) by (simp add: strtoimax_def r p d)
qed

section \<open>Unsigned conversions\<close>

lemma unsigned_loop_saturated:
  "any < 0 \<Longrightarrow> at nptr s ys \<Longrightarrow>
    unsigned_loop nptr mx b cutoff cutlim (peek ys) s acc any er =
      Some (acc, s + length (digits b ys), any, er)"
proof (induction ys arbitrary: s)
  case Nil
  then show ?case by (subst unsigned_loop.simps) (simp add: digit_of_0)
next
  case (Cons y ys)
  then show ?case
    using at_next[OF Cons.prems(2)] Cons.IH[OF Cons.prems(1) at_step[OF Cons.prems(2)]]
    by (subst unsigned_loop.simps) (simp add: digit_of_byte split: option.split)
qed

lemma unsigned_loop_value:
  fixes A :: int
  assumes "at nptr s ys" "0 \<le> A" "A \<le> mx" "2 \<le> b" "any \<ge> 0"
  defines "H \<equiv> horner b A (digits b ys)"
  shows "unsigned_loop nptr mx b (mx div b) (mx mod b) (peek ys) s A any er =
    Some (if H \<le> mx then H else mx, s + length (digits b ys),
      if H \<le> mx then if digits b ys = [] then any else 1 else - 1, er \<or> mx < H)"
  using assms(1-3,5) unfolding H_def
proof (induction ys arbitrary: s A any er)
  case Nil
  then show ?case by (subst unsigned_loop.simps) (simp add: digit_of_0)
next
  case (Cons y ys)
  note at = at_next[OF Cons.prems(1)] at_step[OF Cons.prems(1)]
  show ?case
  proof (cases "digit_value (uint y)")
    case None
    then show ?thesis using Cons.prems by (subst unsigned_loop.simps) (simp add: digit_of_byte)
  next
    case (Some d)
    note d0 = digit_value_nonneg[OF Some]
    show ?thesis
    proof (cases "d < b")
      case False
      then show ?thesis using Some Cons.prems by (subst unsigned_loop.simps) (simp add: digit_of_byte)
    next
      case True
      note over = cutoff_exact[OF d0 True, of mx A]
      have "0 \<le> A * b"
        using Cons.prems(2) assms(4) by simp
      show ?thesis
      proof (cases "A * b + d > mx")
        case True
        then have "mx < horner b (A * b + d) (digits b ys)"
          using horner_ge[of "A * b + d" b "digits b ys"] digits_nonneg[of _ b ys] d0 \<open>0 \<le> A * b\<close> assms(4)
          by fastforce
        then show ?thesis
          using over Some \<open>d < b\<close> True Cons.prems at unsigned_loop_saturated[OF _ at(2)]
          by (subst unsigned_loop.simps) (auto simp: digit_of_byte split: if_splits)
      next
        case False
        then have "(A * b mod (mx + 1) + d) mod (mx + 1) = A * b + d"
          using \<open>0 \<le> A * b\<close> d0 by simp
        then show ?thesis
          using False over Some \<open>d < b\<close> Cons.prems at Cons.IH[OF at(2), of "A * b + d" 1 er] d0 \<open>0 \<le> A * b\<close>
          by (subst unsigned_loop.simps) (auto simp: digit_of_byte)
      qed
    qed
  qed
qed

definition unsigned_result :: "int \<Rightarrow> bool \<times> int \<times> int list \<times> nat \<Rightarrow> int \<times> nat \<times> bool" where
  "unsigned_result mx p =
    (case p of (neg, b, ds, k) \<Rightarrow>
      let v = horner b 0 ds
      in (if v \<le> mx then (if neg then (- v) mod (mx + 1) else v) else mx,
          if ds = [] then 0 else k + length ds, mx < v))"

lemma unsigned_conversion:
  assumes "at nptr (k + 1) ys" "2 \<le> b" "0 < mx"
  shows "do { r \<leftarrow> unsigned_loop nptr mx b (mx div b) (mx mod b) (peek ys) (k + 1) 0 0 False;
              Some (unsigned_finish mx neg r) }
    = Some (unsigned_result mx (neg, b, digits b ys, k))"
  using unsigned_loop_value[OF assms(1), of 0 mx b 0 False] assms(2,3)
  by (auto simp: unsigned_result_def unsigned_finish_def Let_def)

lemma to_int32_small: "0 \<le> x \<Longrightarrow> x < 2 ^ 31 \<Longrightarrow> to_int32 x = x"
  by (simp add: to_int32_def int_word_sint)

lemma strtoul_result:
  assumes "0 \<notin> set xs" "base = 0 \<or> 2 \<le> base" "base < 2 ^ 31"
  shows "strtoul (xs @ 0 # rest) base = Some (unsigned_result ULONG_MAX (number_parts base xs))"
proof -
  obtain neg b ds k where p: "number_parts base xs = (neg, b, ds, k)"
    by (cases "number_parts base xs")
  obtain ys where r: "read_prefix (xs @ 0 # rest) base = Some (neg, b, peek ys, k + 1)"
    and a: "at (xs @ 0 # rest) (k + 1) ys" and d: "ds = digits b ys"
    using read_prefix_parts[OF assms(1) p] .
  note b = parts_base[OF p assms(2)]
  have "b < 2 ^ 31"
    using p assms(3) by (auto simp: number_parts_def Let_def split: if_splits)
  moreover have "ULONG_MAX mod b < b" "0 \<le> ULONG_MAX mod b"
    using b by simp_all
  ultimately have "b mod (ULONG_MAX + 1) = b" "to_int32 (ULONG_MAX mod b) = ULONG_MAX mod b"
    using b by (simp, intro to_int32_small) linarith+
  then show ?thesis
    using unsigned_conversion[OF a b, of ULONG_MAX neg] by (simp add: strtoul_def r p d)
qed

lemma strtoumax_result:
  assumes "0 \<notin> set xs" "base = 0 \<or> 2 \<le> base" "base < 2 ^ 31"
  shows "strtoumax (xs @ 0 # rest) base = Some (unsigned_result UINTMAX_MAX (number_parts base xs))"
proof -
  obtain neg b ds k where p: "number_parts base xs = (neg, b, ds, k)"
    by (cases "number_parts base xs")
  obtain ys where r: "read_prefix (xs @ 0 # rest) base = Some (neg, b, peek ys, k + 1)"
    and a: "at (xs @ 0 # rest) (k + 1) ys" and d: "ds = digits b ys"
    using read_prefix_parts[OF assms(1) p] .
  note b = parts_base[OF p assms(2)]
  have "b < 2 ^ 31"
    using p assms(3) by (auto simp: number_parts_def Let_def split: if_splits)
  moreover have "UINTMAX_MAX mod b < b" "0 \<le> UINTMAX_MAX mod b"
    using b by simp_all
  ultimately have "b mod (UINTMAX_MAX + 1) = b" "to_int32 (UINTMAX_MAX mod b) = UINTMAX_MAX mod b"
    using b by (simp, intro to_int32_small) linarith+
  then show ?thesis
    using unsigned_conversion[OF a b, of UINTMAX_MAX neg]
    by (cases "b = 8 \<or> b = 10 \<or> b = 16") (auto simp: strtoumax_def r p d)
qed

section \<open>Conversion within a length\<close>

lemma digitval_byte:
  fixes x :: u8 and b :: int
  assumes "b \<le> 16"
  shows "(0 \<le> digitval (uint x) \<and> digitval (uint x) < b) = (\<exists>d. digit_value (uint x) = Some d \<and> d < b)"
    and "digit_value (uint x) = Some d \<Longrightarrow> d < b \<Longrightarrow> digitval (uint x) = d"
proof -
  have t: "list_all (\<lambda>c. digitval c = (case digit_value c of None \<Rightarrow> - 1 | Some d \<Rightarrow> if d < 16 then d else - 1)) [0..255]"
    by code_simp
  have "0 \<le> uint x" "uint x < 256"
    using uint_lt2p[of x] by auto
  from all_chars[OF t this] show
    "(0 \<le> digitval (uint x) \<and> digitval (uint x) < b) = (\<exists>d. digit_value (uint x) = Some d \<and> d < b)"
    "digit_value (uint x) = Some d \<Longrightarrow> d < b \<Longrightarrow> digitval (uint x) = d"
    using assms digit_value_nonneg[of "uint x"] by (auto split: option.splits if_splits)
qed

lemma digits_n_value:
  assumes "b \<le> 16" "n \<le> length nptr" "p \<le> n"
  shows "digits_n nptr b p n (v mod 2 ^ 64) =
    Some (horner b v (digits b (take (n - p) (drop p nptr))) mod 2 ^ 64,
      p + length (digits b (take (n - p) (drop p nptr))))"
  using assms(2,3)
proof (induction "n - p" arbitrary: p v)
  case 0
  then show ?case by (subst digits_n.simps) simp
next
  case (Suc m)
  then have pn: "p < n" "p < length nptr"
    by auto
  then have t: "take (n - p) (drop p nptr) = nptr ! p # take (n - Suc p) (drop (Suc p) nptr)"
    by (simp add: Cons_nth_drop_Suc[symmetric] take_Cons')
  have g: "getc_at nptr p = Some (uint (nptr ! p))"
    using pn by (simp add: getc_at_def rd_def)
  show ?case
  proof (cases "\<exists>d. digit_value (uint (nptr ! p)) = Some d \<and> d < b")
    case True
    then obtain d where d: "digit_value (uint (nptr ! p)) = Some d" "d < b"
      by blast
    have "(v mod 2 ^ 64 * b + d) mod 2 ^ 64 = (v * b + d) mod 2 ^ 64"
      by (metis mod_add_left_eq mod_mult_left_eq)
    then show ?thesis
      using pn g t d digitval_byte[OF assms(1), of "nptr ! p"] Suc.hyps(1)[of "Suc p" "v * b + d"] Suc.hyps(2) Suc.prems
      by (subst digits_n.simps) (simp add: digit_value_nonneg)
  next
    case False
    then show ?thesis
      using pn g t digitval_byte(1)[OF assms(1), of "nptr ! p"]
      by (subst digits_n.simps) (auto split: option.splits)
  qed
qed

lemma getc_at_some: "p < length nptr \<Longrightarrow> \<exists>c. getc_at nptr p = Some c"
  by (simp add: getc_at_def rd_def)

lemma skip_space_n_some: "n \<le> length nptr \<Longrightarrow> p \<le> n \<Longrightarrow> \<exists>q. skip_space_n nptr p n = Some q \<and> q \<le> n"
proof (induction "n - p" arbitrary: p)
  case 0
  then show ?case by (subst skip_space_n.simps) simp
next
  case (Suc m)
  then show ?case
    using getc_at_some[of p nptr] Suc.hyps(1)[of "Suc p"] by (subst skip_space_n.simps) auto
qed

lemma digits_n_some: "n \<le> length nptr \<Longrightarrow> p \<le> n \<Longrightarrow> \<exists>v' q. digits_n nptr b p n v = Some (v', q) \<and> q \<le> n"
proof (induction "n - p" arbitrary: p v)
  case 0
  then show ?case by (subst digits_n.simps) simp
next
  case (Suc m)
  then show ?case
    using getc_at_some[of p nptr] Suc.hyps(1)[of "Suc p"] by (subst digits_n.simps) (auto simp: Let_def)
qed

lemma read_sign_n_some:
  assumes "n \<le> length nptr" "p \<le> n"
  shows "\<exists>m q. read_sign_n nptr p n = Some (m, q) \<and> q \<le> n"
proof (cases "p < n")
  case True
  then obtain c where "getc_at nptr p = Some c"
    using getc_at_some[of p nptr] assms by auto
  with True show ?thesis
    by (cases "c = 45 \<or> c = 43") (simp_all add: read_sign_n_def ex_bool_eq)
qed (use assms in \<open>simp add: read_sign_n_def ex_bool_eq\<close>)

lemma hex_prefix_n_some:
  assumes "n \<le> length nptr"
  shows "\<exists>h. hex_prefix_n nptr p n = Some h \<and> (h \<longrightarrow> p + 2 < n)"
proof (cases "p + 2 < n")
  case True
  then obtain x y where "getc_at nptr p = Some x" "getc_at nptr (p + 1) = Some y"
    using getc_at_some[of p nptr] getc_at_some[of "p + 1" nptr] assms by auto
  with True show ?thesis
    by (auto simp: hex_prefix_n_def)
qed (simp add: hex_prefix_n_def ex_bool_eq)

lemma read_base_n_some:
  assumes "n \<le> length nptr" "p \<le> n"
  shows "\<exists>b q. read_base_n nptr base p n = Some (b, q) \<and> q \<le> n"
proof -
  obtain h where "hex_prefix_n nptr p n = Some h" "h \<longrightarrow> p + 2 < n"
    using hex_prefix_n_some[OF assms(1)] by blast
  then show ?thesis
    using getc_at_some[of p nptr] assms by (auto simp: read_base_n_def)
qed

text \<open>The conversion never looks past the given length, whatever the base.\<close>

lemma strntoumax_some:
  assumes "n \<le> length nptr"
  shows "\<exists>v q. strntoumax nptr base n = Some (v, q) \<and> q \<le> n"
proof -
  obtain p1 where p1: "skip_space_n nptr 0 n = Some p1" "p1 \<le> n"
    using skip_space_n_some[OF assms, of 0] by auto
  obtain m p2 where p2: "read_sign_n nptr p1 n = Some (m, p2)" "p2 \<le> n"
    using read_sign_n_some[OF assms p1(2)] by auto
  obtain b p3 where p3: "read_base_n nptr base p2 n = Some (b, p3)" "p3 \<le> n"
    using read_base_n_some[OF assms p2(2), of base] by auto
  show ?thesis
    using p1 p2 p3 digits_n_some[OF assms p3(2), of b 0] by (auto simp: strntoumax_def)
qed

section \<open>Properties\<close>

text \<open>
  C30. The signed conversions are exact. For a string that ends in a NUL and base 0 or at least 2, \<open>strtol\<close>,
  \<open>strtoimax\<close> and \<open>strtoll\<close> read only the string and its NUL, never overflow, and return the value of
  the number the string starts with, clamped to the type; \<open>errno\<close> is set to \<open>ERANGE\<close> exactly when the
  value does not fit, and \<open>*endptr\<close> is the end of the digits, or the start of the string when there are
  none. \<open>atoi\<close> keeps the low 32 bits of the value clamped to 64 bits.
\<close>
theorem strto_signed_exact:
  assumes "0 \<notin> set xs" "base = 0 \<or> 2 \<le> base"
  shows "strtol (xs @ 0 # rest) base = Some (signed_result LONG_MIN LONG_MAX (number_parts base xs)) \<and>
    strtoimax (xs @ 0 # rest) base = Some (signed_result INTMAX_MIN INTMAX_MAX (number_parts base xs)) \<and>
    strtoll (xs @ 0 # rest) base = Some (signed_result INTMAX_MIN INTMAX_MAX (number_parts base xs)) \<and>
    atoi (xs @ 0 # rest) = Some (to_int32 (fst (signed_result INTMAX_MIN INTMAX_MAX (number_parts 10 xs))))"
  using strtol_result[OF assms, of rest] strtoimax_result[OF assms, of rest]
    strtoimax_result[OF assms(1), of 10 rest]
  by (simp_all add: strtoll_def atoi_def split: prod.split)

theorem strto_signed_exact_witness:
  "strtol [32, 45, 50, 49, 52, 55, 52, 56, 51, 54, 52, 57, 0] 10 = Some (- 2147483648, 12, True) \<and>
   strtol [48, 120, 70, 102, 0] 0 = Some (255, 4, False)"
proof -
  have n: "(0 :: u8) \<notin> set [32, 45, 50, 49, 52, 55, 52, 56, 51, 54, 52, 57]"
    "(0 :: u8) \<notin> set [48, 120, 70, 102]"
    by simp_all
  have r: "signed_result LONG_MIN LONG_MAX (number_parts 10 [32, 45, 50, 49, 52, 55, 52, 56, 51, 54, 52, 57])
      = (- 2147483648, 12, True)"
    "signed_result LONG_MIN LONG_MAX (number_parts 0 [48, 120, 70, 102]) = (255, 4, False)"
    by code_simp+
  show ?thesis
    using conjunct1[OF strto_signed_exact[OF n(1), of 10 "[]"]] conjunct1[OF strto_signed_exact[OF n(2), of 0 "[]"]] r by simp
qed

text \<open>
  The unsigned conversions are exact. Under the same conditions \<open>strtoul\<close>, \<open>strtoumax\<close> and \<open>strtoull\<close>
  return the value of the number, negated modulo the size of the type after a minus sign; a value that
  is too large gives the largest one and \<open>ERANGE\<close>.
\<close>
theorem strto_unsigned_exact:
  assumes "0 \<notin> set xs" "base = 0 \<or> 2 \<le> base" "base < 2 ^ 31"
  shows "strtoul (xs @ 0 # rest) base = Some (unsigned_result ULONG_MAX (number_parts base xs)) \<and>
    strtoumax (xs @ 0 # rest) base = Some (unsigned_result UINTMAX_MAX (number_parts base xs)) \<and>
    strtoull (xs @ 0 # rest) base = Some (unsigned_result UINTMAX_MAX (number_parts base xs))"
  using strtoul_result[OF assms, of rest] strtoumax_result[OF assms, of rest]
  by (simp_all add: strtoull_def)

theorem strto_unsigned_exact_witness:
  "strtoul [45, 49, 0] 10 = Some (4294967295, 2, False) \<and>
   strtoul [52, 50, 57, 52, 57, 54, 55, 50, 57, 54, 0] 10 = Some (4294967295, 10, True)"
proof -
  have n: "(0 :: u8) \<notin> set [45, 49]" "(0 :: u8) \<notin> set [52, 50, 57, 52, 57, 54, 55, 50, 57, 54]"
    by simp_all
  have r: "unsigned_result ULONG_MAX (number_parts 10 [45, 49]) = (4294967295, 2, False)"
    "unsigned_result ULONG_MAX (number_parts 10 [52, 50, 57, 52, 57, 54, 55, 50, 57, 54]) = (4294967295, 10, True)"
    by code_simp+
  show ?thesis
    using conjunct1[OF strto_unsigned_exact[OF n(1), of 10 "[]"]] conjunct1[OF strto_unsigned_exact[OF n(2), of 10 "[]"]] r by simp
qed

text \<open>
  Two departures from the C standard. A prefix \<open>0x\<close> with no digit after it leaves \<open>*endptr\<close> at the start
  of the string, where the standard asks for the number 0 and the position of the \<open>x\<close>. A base that is
  not allowed is not refused: base -1 makes the code divide \<open>LONG_MIN\<close> by -1.
\<close>

lemma strtol_hex_prefix_alone: "strtol [48, 120, 103, 0] 16 = Some (0, 0, False)"
  by code_simp

lemma strtol_base_minus_one: "strtol [45, 49, 0] (- 1) = None"
  by code_simp

end
