(* ===== verification/Res_Cache_Iface.thy ===== *)
theory Res_Cache_Iface
  imports Res_Cache Strto
begin

text \<open>
  The per-interface part of \<open>netbsd/resolv/res_cache.c\<close>: the list of caches, the default interface,
  the name servers and the address of an interface. The list that starts at \<open>_res_cache_list\<close> only
  grows at its end and is modelled as a list; a \<open>Cache*\<close> or \<open>CacheInfo*\<close> is a position in it. Strings are
  the lists of their characters without the final NUL, \<open>None\<close> is the null pointer. Every operation
  holds \<open>_res_cache_list_lock\<close>, so it is one step. The addresses made by \<open>getaddrinfo\<close> are of the type
  \<open>'ai\<close>; \<open>getaddrinfo\<close>, \<open>strdup\<close>, the results of the allocations, the system property and the
  environment are parameters.
\<close>

section \<open>State\<close>

abbreviation (input) IF_NAMESIZE :: nat where "IF_NAMESIZE \<equiv> 16"

abbreviation (input) MAXNS :: nat where "MAXNS \<equiv> 3"

definition CONFIG_MAX_ENTRIES :: int where "CONFIG_MAX_ENTRIES = 64"

type_synonym cstr = "u8 list"

record 'ai CacheInfo =
  ifname :: cstr
  ifaddr :: u32
  cache :: Cache
  nameservers :: "cstr option list"
  nsaddrinfo :: "'ai option list"

record 'ai rc_state =
  once_done :: bool
  default_ifname :: cstr
  cache_list :: "'ai CacheInfo list"

text \<open>The static variables before the first call.\<close>

definition rc_static :: "'ai rc_state" where
  "rc_static = \<lparr>once_done = False, default_ifname = [], cache_list = []\<rparr>"

text \<open>\<open>strncpy(dst, src, sizeof(dst) - 1)\<close> followed by the final NUL.\<close>

definition copy_name :: "cstr \<Rightarrow> cstr" where
  "copy_name s = take IF_NAMESIZE s"

section \<open>Size of a cache\<close>

text \<open>\<open>_res_cache_get_max_entries\<close>: \<open>sysprop\<close> is the value of \<open>ro.net.dns_cache_size\<close>.\<close>

definition res_cache_get_max_entries :: "cstr \<Rightarrow> int option" where
  "res_cache_get_max_entries sysprop =
    do {
      result \<leftarrow> (if sysprop \<noteq> [] then atoi (sysprop @ [0]) else Some (- 1));
      Some (if result \<le> 0 then CONFIG_MAX_ENTRIES else result)
    }"

section \<open>Initialisation\<close>

definition res_cache_init :: "cstr option \<Rightarrow> 'ai rc_state \<Rightarrow> 'ai rc_state option" where
  "res_cache_init env s =
    do {
      off \<leftarrow> (case env of None \<Rightarrow> Some False | Some e \<Rightarrow> map_option (\<lambda>r. r = 0) (atoi (e @ [0])));
      if off then Some s else Some (s\<lparr>default_ifname := [], cache_list := []\<rparr>)
    }"

definition rc_once :: "cstr option \<Rightarrow> 'ai rc_state \<Rightarrow> 'ai rc_state option" where
  "rc_once env s =
    (if once_done s then Some s else map_option (\<lambda>t. t\<lparr>once_done := True\<rparr>) (res_cache_init env s))"

section \<open>Finding and creating caches\<close>

fun find_from :: "cstr \<Rightarrow> nat \<Rightarrow> 'ai CacheInfo list \<Rightarrow> nat option" where
  "find_from name i [] = None"
| "find_from name i (c # cs) = (if ifname c = name then Some i else find_from name (i + 1) cs)"

definition find_cache_info_locked :: "cstr option \<Rightarrow> 'ai rc_state \<Rightarrow> nat option" where
  "find_cache_info_locked name s =
    (case name of None \<Rightarrow> None | Some nm \<Rightarrow> find_from nm 0 (cache_list s))"

text \<open>A cache is named by the position of the structure that holds it.\<close>

definition find_named_cache_locked :: "cstr option \<Rightarrow> 'ai rc_state \<Rightarrow> nat option" where
  "find_named_cache_locked name s =
    (case find_cache_info_locked name s of Some info \<Rightarrow> Some info | None \<Rightarrow> None)"

text \<open>\<open>_create_cache_info\<close> and \<open>_insert_cache_info_locked\<close>; \<open>calloc\<close> clears the structure.\<close>

definition create_cache_info :: "Cache \<Rightarrow> 'ai CacheInfo" where
  "create_cache_info c =
    \<lparr>ifname = [], ifaddr = 0, cache = c, nameservers = replicate (MAXNS + 1) None,
     nsaddrinfo = replicate (MAXNS + 1) None\<rparr>"

definition insert_cache_info_locked :: "'ai CacheInfo \<Rightarrow> 'ai rc_state \<Rightarrow> 'ai rc_state" where
  "insert_cache_info_locked info s = s\<lparr>cache_list := cache_list s @ [info]\<rparr>"

text \<open>What the allocator and the system property say during a call.\<close>

record rc_env =
  alloc_info :: bool
  alloc_cache :: bool
  alloc_entries :: bool
  sysprop :: cstr
  getenv_dnscache :: "cstr option"

definition get_res_cache_for_iface_locked ::
  "rc_env \<Rightarrow> cstr option \<Rightarrow> 'ai rc_state \<Rightarrow> (nat option \<times> 'ai rc_state) option" where
  "get_res_cache_for_iface_locked en name s =
    (case name of None \<Rightarrow> Some (None, s)
     | Some nm \<Rightarrow>
       (case find_named_cache_locked (Some nm) s of
         Some i \<Rightarrow> Some (Some i, s)
       | None \<Rightarrow>
         if alloc_info en then do {
           m \<leftarrow> res_cache_get_max_entries (sysprop en);
           case resolv_cache_create (alloc_cache en) (alloc_entries en) (nat m) of
             Some c \<Rightarrow>
               Some (Some (length (cache_list s)),
                 insert_cache_info_locked ((create_cache_info c)\<lparr>ifname := copy_name nm\<rparr>) s)
           | None \<Rightarrow> Some (None, s)
         }
         else Some (None, s)))"

text \<open>
  The loop of \<open>__get_res_cache\<close> and \<open>_resolv_cache_reset\<close> over the list: \<open>ifname\<close> is replaced by every
  name that is not empty.
\<close>

fun pick_ifname :: "cstr \<Rightarrow> 'ai CacheInfo list \<Rightarrow> cstr" where
  "pick_ifname name [] = name"
| "pick_ifname name (c # cs) = pick_ifname (if ifname c \<noteq> [] then ifname c else name) cs"

definition default_or_listed :: "'ai rc_state \<Rightarrow> cstr" where
  "default_or_listed s =
    (if default_ifname s = [] then pick_ifname (default_ifname s) (cache_list s) else default_ifname s)"

definition get_res_cache :: "rc_env \<Rightarrow> 'ai rc_state \<Rightarrow> (nat option \<times> 'ai rc_state) option" where
  "get_res_cache en s =
    do {
      s \<leftarrow> rc_once (getenv_dnscache en) s;
      get_res_cache_for_iface_locked en (Some (default_or_listed s)) s
    }"

section \<open>Reset and flush\<close>

definition upd_info :: "nat \<Rightarrow> ('ai CacheInfo \<Rightarrow> 'ai CacheInfo) \<Rightarrow> 'ai rc_state \<Rightarrow> 'ai rc_state" where
  "upd_info i f s = s\<lparr>cache_list := (cache_list s)[i := f (cache_list s ! i)]\<rparr>"

definition resolv_cache_reset :: "rc_env \<Rightarrow> u32 \<Rightarrow> 'ai rc_state \<Rightarrow> 'ai rc_state option" where
  "resolv_cache_reset en gen s =
    do {
      s \<leftarrow> rc_once (getenv_dnscache en) s;
      (p, s) \<leftarrow> get_res_cache_for_iface_locked en (Some (default_or_listed s)) s;
      case p of
        None \<Rightarrow> Some s
      | Some i \<Rightarrow>
        let c = cache (cache_list s ! i)
        in if generation c \<noteq> gen then do {
             c1 \<leftarrow> cache_flush_locked c;
             Some (upd_info i (\<lambda>x. x\<lparr>cache := c1\<lparr>generation := gen\<rparr>\<rparr>) s)
           }
           else Some s
    }"

definition flush_cache_for_iface_locked :: "cstr option \<Rightarrow> 'ai rc_state \<Rightarrow> 'ai rc_state option" where
  "flush_cache_for_iface_locked name s =
    (case find_named_cache_locked name s of
      None \<Rightarrow> Some s
    | Some i \<Rightarrow> do {
        c1 \<leftarrow> cache_flush_locked (cache (cache_list s ! i));
        Some (upd_info i (\<lambda>x. x\<lparr>cache := c1\<rparr>) s)
      })"

definition resolv_flush_cache_for_default_iface :: "cstr option \<Rightarrow> 'ai rc_state \<Rightarrow> 'ai rc_state option" where
  "resolv_flush_cache_for_default_iface env s =
    do { s \<leftarrow> rc_once env s; flush_cache_for_iface_locked (Some (default_ifname s)) s }"

definition resolv_flush_cache_for_iface :: "cstr option \<Rightarrow> cstr option \<Rightarrow> 'ai rc_state \<Rightarrow> 'ai rc_state option" where
  "resolv_flush_cache_for_iface env name s =
    do { s \<leftarrow> rc_once env s; flush_cache_for_iface_locked name s }"

section \<open>Default interface, name servers, address\<close>

definition resolv_set_default_iface :: "cstr option \<Rightarrow> cstr \<Rightarrow> 'ai rc_state \<Rightarrow> 'ai rc_state option" where
  "resolv_set_default_iface env name s =
    do { s \<leftarrow> rc_once env s; Some (s\<lparr>default_ifname := copy_name name\<rparr>) }"

definition free_nameservers_locked :: "'ai CacheInfo \<Rightarrow> 'ai CacheInfo" where
  "free_nameservers_locked info =
    foldl (\<lambda>x i. x\<lparr>nameservers := (nameservers x)[i := None], nsaddrinfo := (nsaddrinfo x)[i := None]\<rparr>)
      info [0..<MAXNS + 1]"

text \<open>
  The loop over the servers: \<open>k\<close> rounds are left, \<open>i\<close> and \<open>index\<close> are the local variables. Reading
  \<open>servers[i]\<close> past the array gives \<open>None\<close>.
\<close>

fun set_servers ::
  "(cstr \<Rightarrow> 'ai option) \<Rightarrow> (cstr \<Rightarrow> cstr option) \<Rightarrow> cstr list \<Rightarrow> nat \<Rightarrow> nat \<Rightarrow> nat \<Rightarrow> 'ai CacheInfo
    \<Rightarrow> 'ai CacheInfo option" where
  "set_servers getaddrinfo strdup servers 0 i index info = Some info"
| "set_servers getaddrinfo strdup servers (Suc k) i index info =
    do {
      sv \<leftarrow> rd servers i;
      case getaddrinfo sv of
        Some ai \<Rightarrow>
          set_servers getaddrinfo strdup servers k (i + 1) (index + 1)
            (info\<lparr>nsaddrinfo := (nsaddrinfo info)[index := Some ai],
                  nameservers := (nameservers info)[index := strdup sv]\<rparr>)
      | None \<Rightarrow>
          set_servers getaddrinfo strdup servers k (i + 1) index
            (info\<lparr>nsaddrinfo := (nsaddrinfo info)[index := None]\<rparr>)
    }"

definition resolv_set_nameservers_for_iface ::
  "(cstr \<Rightarrow> 'ai option) \<Rightarrow> (cstr \<Rightarrow> cstr option) \<Rightarrow> rc_env \<Rightarrow> cstr option \<Rightarrow> cstr list \<Rightarrow> int \<Rightarrow> 'ai rc_state
    \<Rightarrow> 'ai rc_state option" where
  "resolv_set_nameservers_for_iface getaddrinfo strdup en name servers numservers s =
    do {
      s \<leftarrow> rc_once (getenv_dnscache en) s;
      (p, s) \<leftarrow> get_res_cache_for_iface_locked en name s;
      case find_cache_info_locked name s of
        None \<Rightarrow> Some s
      | Some i \<Rightarrow> do {
          info \<leftarrow> set_servers getaddrinfo strdup servers (min (nat numservers) MAXNS) 0 0
            (free_nameservers_locked (cache_list s ! i));
          Some (upd_info i (\<lambda>x. info) s)
        }
    }"

text \<open>The length returned, and the string written to \<open>addr\<close>, whose NUL is written after it.\<close>

definition get_nameserver_locked ::
  "cstr option \<Rightarrow> int \<Rightarrow> bool \<Rightarrow> int \<Rightarrow> 'ai rc_state \<Rightarrow> int \<times> cstr option" where
  "get_nameserver_locked name n addr addrLen s =
    (if n < 1 \<or> n > int MAXNS \<or> \<not> addr then (0, None)
     else
       (case find_cache_info_locked name s of
         None \<Rightarrow> (0, None)
       | Some i \<Rightarrow>
         (case nameservers (cache_list s ! i) ! nat (n - 1) of
           None \<Rightarrow> (0, None)
         | Some ns \<Rightarrow> if int (length ns) < addrLen then (int (length ns), Some ns) else (0, None))))"

definition resolv_cache_get_nameserver ::
  "cstr option \<Rightarrow> int \<Rightarrow> bool \<Rightarrow> int \<Rightarrow> 'ai rc_state \<Rightarrow> ((int \<times> cstr option) \<times> 'ai rc_state) option" where
  "resolv_cache_get_nameserver env n addr addrLen s =
    do { s \<leftarrow> rc_once env s; Some (get_nameserver_locked (Some (default_ifname s)) n addr addrLen s, s) }"

definition get_nameserver_addr_locked :: "cstr option \<Rightarrow> int \<Rightarrow> 'ai rc_state \<Rightarrow> 'ai option" where
  "get_nameserver_addr_locked name n s =
    (if n < 1 \<or> n > int MAXNS then None
     else (case find_cache_info_locked name s of
       None \<Rightarrow> None | Some i \<Rightarrow> nsaddrinfo (cache_list s ! i) ! nat (n - 1)))"

definition cache_get_nameserver_addr :: "cstr option \<Rightarrow> int \<Rightarrow> 'ai rc_state \<Rightarrow> ('ai option \<times> 'ai rc_state) option" where
  "cache_get_nameserver_addr env n s =
    do { s \<leftarrow> rc_once env s; Some (get_nameserver_addr_locked (Some (default_ifname s)) n s, s) }"

definition resolv_set_addr_of_iface :: "cstr option \<Rightarrow> cstr option \<Rightarrow> u32 \<Rightarrow> 'ai rc_state \<Rightarrow> 'ai rc_state option" where
  "resolv_set_addr_of_iface env name addr s =
    do {
      s \<leftarrow> rc_once env s;
      Some (case find_cache_info_locked name s of
        None \<Rightarrow> s | Some i \<Rightarrow> upd_info i (\<lambda>x. x\<lparr>ifaddr := addr\<rparr>) s)
    }"

definition get_addr_locked :: "cstr option \<Rightarrow> 'ai rc_state \<Rightarrow> u32 option" where
  "get_addr_locked name s = map_option (\<lambda>i. ifaddr (cache_list s ! i)) (find_cache_info_locked name s)"

definition resolv_get_addr_of_default_iface :: "cstr option \<Rightarrow> 'ai rc_state \<Rightarrow> (u32 option \<times> 'ai rc_state) option" where
  "resolv_get_addr_of_default_iface env s =
    do { s \<leftarrow> rc_once env s; Some (get_addr_locked (Some (default_ifname s)) s, s) }"

definition resolv_get_addr_of_iface ::
  "cstr option \<Rightarrow> cstr option \<Rightarrow> 'ai rc_state \<Rightarrow> (u32 option \<times> 'ai rc_state) option" where
  "resolv_get_addr_of_iface env name s = do { s \<leftarrow> rc_once env s; Some (get_addr_locked name s, s) }"

section \<open>Well-formed states\<close>

text \<open>
  An entry of the list has a name that fits, a cache that represents some list of entries, and name
  servers that fill the arrays from the start: an address for every server, nothing after the last,
  and the final null pointer.
\<close>

definition servers_ok :: "'ai CacheInfo \<Rightarrow> bool" where
  "servers_ok x \<longleftrightarrow>
    (\<exists>ns ai. length ns = length ai \<and> length ns \<le> MAXNS \<and>
      nameservers x = ns @ replicate (MAXNS + 1 - length ns) None \<and>
      nsaddrinfo x = map Some ai @ replicate (MAXNS + 1 - length ns) None)"

definition info_ok :: "'ai CacheInfo \<Rightarrow> bool" where
  "info_ok x \<longleftrightarrow> length (ifname x) \<le> IF_NAMESIZE \<and> (\<exists>A. rep (cache x) A) \<and> servers_ok x"

definition rc_ok :: "'ai rc_state \<Rightarrow> bool" where
  "rc_ok s \<longleftrightarrow> (\<forall>x \<in> set (cache_list s). info_ok x) \<and> distinct (map ifname (cache_list s)) \<and>
    length (default_ifname s) \<le> IF_NAMESIZE"

lemma copy_name_short: "length nm \<le> IF_NAMESIZE \<Longrightarrow> copy_name nm = nm"
  by (simp add: copy_name_def)

lemma length_copy_name: "length (copy_name nm) \<le> IF_NAMESIZE"
  by (simp add: copy_name_def)

lemma find_from_None: "find_from nm i cs = None \<longleftrightarrow> nm \<notin> ifname ` set cs"
  by (induction cs arbitrary: i) auto

lemma find_from_Some: "find_from nm i cs = Some j \<Longrightarrow> i \<le> j \<and> j < i + length cs \<and> ifname (cs ! (j - i)) = nm"
proof (induction cs arbitrary: i)
  case (Cons c cs)
  show ?case
  proof (cases "ifname c = nm")
    case False
    then have "find_from nm (i + 1) cs = Some j"
      using Cons.prems by simp
    from Cons.IH[OF this] have "j - i = Suc (j - Suc i)" "i \<le> j" "j < i + Suc (length cs)" "ifname (cs ! (j - Suc i)) = nm"
      by (auto intro: Suc_diff_Suc[symmetric])
    then show ?thesis
      by simp
  qed (use Cons.prems in auto)
qed simp

lemma find_info_Some:
  "find_cache_info_locked (Some nm) s = Some i \<Longrightarrow> i < length (cache_list s) \<and> ifname (cache_list s ! i) = nm"
  using find_from_Some[of nm 0 "cache_list s" i] by (simp add: find_cache_info_locked_def)

lemma find_info_None:
  "find_cache_info_locked (Some nm) s = None \<longleftrightarrow> nm \<notin> ifname ` set (cache_list s)"
  by (simp add: find_cache_info_locked_def find_from_None)

lemma find_named_eq: "find_named_cache_locked nm s = find_cache_info_locked nm s"
  by (simp add: find_named_cache_locked_def split: option.split)

text \<open>Names are distinct, so that the search finds the position of a name.\<close>

lemma find_info_nth:
  assumes "distinct (map ifname (cache_list s))" "i < length (cache_list s)"
  shows "find_cache_info_locked (Some (ifname (cache_list s ! i))) s = Some i"
proof -
  have "find_cache_info_locked (Some (ifname (cache_list s ! i))) s \<noteq> None"
    using assms(2) by (simp add: find_info_None)
  then obtain j where j: "find_cache_info_locked (Some (ifname (cache_list s ! i))) s = Some j"
    by blast
  from find_info_Some[OF this] have "i = j"
    using assms nth_eq_iff_index_eq[of "map ifname (cache_list s)" i j] by simp
  with j show ?thesis by simp
qed

text \<open>The value of the system property always gives a size.\<close>

lemma atoi_some: "0 \<notin> set xs \<Longrightarrow> \<exists>r. atoi (xs @ [0]) = Some r"
  using strtoimax_result[of xs 10 "[]"] by (simp add: atoi_def)

lemma max_entries_some:
  assumes "0 \<notin> set v"
  shows "\<exists>m > 0. res_cache_get_max_entries v = Some m"
  using atoi_some[OF assms] by (auto simp: res_cache_get_max_entries_def CONFIG_MAX_ENTRIES_def)

definition env_ok :: "rc_env \<Rightarrow> bool" where
  "env_ok en \<longleftrightarrow> 0 \<notin> set (sysprop en) \<and> (case getenv_dnscache en of None \<Rightarrow> True | Some e \<Rightarrow> 0 \<notin> set e)"

lemma rc_once_ok:
  assumes "rc_ok s" "case env of None \<Rightarrow> True | Some e \<Rightarrow> 0 \<notin> set e"
  shows "\<exists>t. rc_once env s = Some t \<and> rc_ok t \<and> once_done t \<and> (once_done s \<longrightarrow> t = s)"
proof (cases "once_done s")
  case False
  obtain off where "(case env of None \<Rightarrow> Some False | Some e \<Rightarrow> map_option (\<lambda>r. r = 0) (atoi (e @ [0]))) = Some off"
  proof (cases env)
    case (Some e)
    then show thesis
      using that atoi_some[of e] assms(2) by auto
  qed (use that[of False] in simp)
  with False assms(1) show ?thesis
    by (cases off) (simp_all add: rc_once_def res_cache_init_def rc_ok_def)
qed (use assms(1) in \<open>simp add: rc_once_def\<close>)

lemma new_info_ok:
  assumes "rep c A"
  shows "info_ok ((create_cache_info c)\<lparr>ifname := copy_name nm\<rparr>)"
proof -
  have "servers_ok ((create_cache_info c)\<lparr>ifname := copy_name nm\<rparr>)"
    by (auto simp: servers_ok_def create_cache_info_def intro!: exI[of _ "[]"])
  with assms show ?thesis
    by (auto simp: info_ok_def create_cache_info_def length_copy_name)
qed

text \<open>
  Asking for the cache of an interface finds it or adds one; afterwards the interface is in the list
  whenever the result is not null.
\<close>

lemma get_for_iface_ok:
  assumes "rc_ok s" "0 \<notin> set (sysprop en)" "case name of None \<Rightarrow> True | Some nm \<Rightarrow> length nm \<le> IF_NAMESIZE"
  shows "\<exists>p t. get_res_cache_for_iface_locked en name s = Some (p, t) \<and> rc_ok t \<and>
    p = find_cache_info_locked name t \<and> default_ifname t = default_ifname s \<and> once_done t = once_done s \<and>
    (\<exists>ys. cache_list t = cache_list s @ ys)"
proof (cases name)
  case None
  then show ?thesis
    using assms(1) by (simp add: get_res_cache_for_iface_locked_def find_cache_info_locked_def)
next
  case (Some nm)
  show ?thesis
  proof (cases "find_cache_info_locked (Some nm) s")
    case None
    obtain m where m: "res_cache_get_max_entries (sysprop en) = Some m" "m > 0"
      using max_entries_some[OF assms(2)] by auto
    show ?thesis
    proof (cases "alloc_info en \<and> alloc_cache en \<and> alloc_entries en")
      case True
      obtain c where c: "resolv_cache_create True True (nat m) = Some c" "rep c []"
        using create_refines[of "nat m"] m(2) by auto
      let ?x = "(create_cache_info c)\<lparr>ifname := copy_name nm\<rparr>"
      let ?t = "insert_cache_info_locked ?x s"
      have cn: "copy_name nm = nm"
        using assms(3) Some by (simp add: copy_name_short)
      have n: "nm \<notin> ifname ` set (cache_list s)"
        using None by (simp add: find_info_None)
      have ok: "rc_ok ?t"
        using assms(1) new_info_ok[OF c(2), of nm] n
        by (auto simp: rc_ok_def insert_cache_info_locked_def create_cache_info_def cn)
      have "find_cache_info_locked (Some nm) ?t = Some (length (cache_list s))"
        using find_info_nth[of ?t "length (cache_list s)"] ok cn
        by (simp add: rc_ok_def insert_cache_info_locked_def)
      then show ?thesis
        using ok True None m(1) c(1)
        by (auto simp: get_res_cache_for_iface_locked_def Some find_named_eq insert_cache_info_locked_def)
    next
      case False
      then have "alloc_info en \<Longrightarrow> resolv_cache_create (alloc_cache en) (alloc_entries en) (nat m) = None"
        by (auto simp: resolv_cache_create_def)
      then show ?thesis
        using None m(1) assms(1) by (auto simp: get_res_cache_for_iface_locked_def Some find_named_eq)
    qed
  next
    case (Some i)
    then show ?thesis
      using assms(1) \<open>name = Some nm\<close> by (auto simp: get_res_cache_for_iface_locked_def find_named_eq)
  qed
qed

section \<open>Every operation keeps the state well-formed\<close>

lemma upd_info_ok:
  assumes "rc_ok s" "i < length (cache_list s)" "info_ok (f (cache_list s ! i))"
    "ifname (f (cache_list s ! i)) = ifname (cache_list s ! i)"
  shows "rc_ok (upd_info i f s)"
proof -
  have "map ifname ((cache_list s)[i := f (cache_list s ! i)]) = map ifname (cache_list s)"
    using assms(2,4) by (simp add: map_update list_update_same_conv)
  moreover have "\<forall>x \<in> set ((cache_list s)[i := f (cache_list s ! i)]). info_ok x"
    using assms(1,3) set_update_subset_insert[of "cache_list s" i] by (auto simp: rc_ok_def)
  ultimately show ?thesis
    using assms(1) by (simp add: rc_ok_def upd_info_def)
qed

lemma rc_ok_info: "rc_ok s \<Longrightarrow> find_cache_info_locked (Some nm) s = Some i \<Longrightarrow>
    i < length (cache_list s) \<and> info_ok (cache_list s ! i) \<and> ifname (cache_list s ! i) = nm"
  using find_info_Some[of nm s i] by (auto simp: rc_ok_def)

lemma set_cache_ok: "info_ok x \<Longrightarrow> rep c A \<Longrightarrow> info_ok (x\<lparr>cache := c\<rparr>)"
  by (auto simp: info_ok_def servers_ok_def)

lemma set_addr_ok: "info_ok (x\<lparr>ifaddr := a\<rparr>) = info_ok x"
  by (simp add: info_ok_def servers_ok_def)

lemma rep_generation: "rep c A \<Longrightarrow> rep (c\<lparr>generation := g\<rparr>) A"
  by (simp add: rep_def cinv_def table_inv_def)

lemma pick_ifname_length:
  "\<forall>x \<in> set cs. info_ok x \<Longrightarrow> length nm \<le> IF_NAMESIZE \<Longrightarrow> length (pick_ifname nm cs) \<le> IF_NAMESIZE"
  by (induction nm cs rule: pick_ifname.induct) (auto simp: info_ok_def)

lemma default_or_listed_length: "rc_ok s \<Longrightarrow> length (default_or_listed s) \<le> IF_NAMESIZE"
  using pick_ifname_length[of "cache_list s" "[]"] by (auto simp: rc_ok_def default_or_listed_def)

lemma flush_iface_ok:
  assumes "rc_ok s"
  shows "\<exists>t. flush_cache_for_iface_locked name s = Some t \<and> rc_ok t"
proof (cases "find_cache_info_locked name s")
  case (Some i)
  then obtain nm where "name = Some nm"
    by (cases name) (auto simp: find_cache_info_locked_def)
  with Some have i: "i < length (cache_list s)" "info_ok (cache_list s ! i)"
    using rc_ok_info[OF assms, of nm i] by auto
  then obtain c1 where "cache_flush_locked (cache (cache_list s ! i)) = Some c1" "rep c1 []"
    using flush_refines by (fastforce simp: info_ok_def)
  then show ?thesis
    using Some i assms by (auto simp: flush_cache_for_iface_locked_def find_named_eq intro!: upd_info_ok set_cache_ok)
qed (use assms in \<open>simp add: flush_cache_for_iface_locked_def find_named_eq\<close>)

lemma reset_ok:
  assumes "rc_ok s" "env_ok en"
  shows "\<exists>t. resolv_cache_reset en gen s = Some t \<and> rc_ok t"
proof -
  obtain s1 where s1: "rc_once (getenv_dnscache en) s = Some s1" "rc_ok s1"
    using rc_once_ok[OF assms(1)] assms(2) by (auto simp: env_ok_def)
  obtain p s2 where s2: "get_res_cache_for_iface_locked en (Some (default_or_listed s1)) s1 = Some (p, s2)"
    "rc_ok s2" "p = find_cache_info_locked (Some (default_or_listed s1)) s2"
    using get_for_iface_ok[OF s1(2), of en "Some (default_or_listed s1)"] assms(2) default_or_listed_length[OF s1(2)]
    by (auto simp: env_ok_def)
  show ?thesis
  proof (cases p)
    case (Some i)
    then have i: "i < length (cache_list s2)" "info_ok (cache_list s2 ! i)"
      using rc_ok_info[OF s2(2)] s2(3) by auto
    then obtain c1 where "cache_flush_locked (cache (cache_list s2 ! i)) = Some c1" "rep c1 []"
      using flush_refines by (fastforce simp: info_ok_def)
    then show ?thesis
      using s1 s2(1,2) Some i
      by (auto simp: resolv_cache_reset_def Let_def intro!: upd_info_ok set_cache_ok rep_generation)
  qed (use s1 s2(1,2) in \<open>simp add: resolv_cache_reset_def\<close>)
qed

lemma list4: "length xs = 4 \<Longrightarrow> \<exists>a b c d. xs = [a, b, c, d]"
  by (simp add: numeral_eq_Suc length_Suc_conv) blast

lemma replicate4: "replicate 4 x = [x, x, x, x]"
  by (simp add: numeral_eq_Suc)

lemma free_nameservers_empty:
  assumes "servers_ok x"
  shows "nameservers (free_nameservers_locked x) = replicate (MAXNS + 1) None"
    and "nsaddrinfo (free_nameservers_locked x) = replicate (MAXNS + 1) None"
    and "ifname (free_nameservers_locked x) = ifname x" "cache (free_nameservers_locked x) = cache x"
    "ifaddr (free_nameservers_locked x) = ifaddr x"
proof -
  have "length (nameservers x) = 4" "length (nsaddrinfo x) = 4"
    using assms by (auto simp: servers_ok_def)
  then obtain a b c d e f g h where "nameservers x = [a, b, c, d]" "nsaddrinfo x = [e, f, g, h]"
    using list4 by metis
  then show "nameservers (free_nameservers_locked x) = replicate (MAXNS + 1) None"
    "nsaddrinfo (free_nameservers_locked x) = replicate (MAXNS + 1) None"
    "ifname (free_nameservers_locked x) = ifname x" "cache (free_nameservers_locked x) = cache x"
    "ifaddr (free_nameservers_locked x) = ifaddr x"
    by (simp_all add: free_nameservers_locked_def upt_rec replicate4)
qed

text \<open>The servers whose address is understood, among the first \<open>MAXNS\<close> given.\<close>

definition valid_servers :: "(cstr \<Rightarrow> 'ai option) \<Rightarrow> cstr list \<Rightarrow> cstr list" where
  "valid_servers g servers = filter (\<lambda>sv. g sv \<noteq> None) servers"

lemma set_servers_fill:
  fixes g :: "cstr \<Rightarrow> 'ai option"
  assumes "i + k \<le> length servers" "length ns + k \<le> MAXNS" "length ai = length ns"
    "nameservers info = ns @ replicate (MAXNS + 1 - length ns) None"
    "nsaddrinfo info = ai @ replicate (MAXNS + 1 - length ns) None"
  defines "vs \<equiv> valid_servers g (take k (drop i servers))"
  shows "\<exists>info'. set_servers g d servers k i (length ns) info = Some info' \<and>
    nameservers info' = ns @ map d vs @ replicate (MAXNS + 1 - length ns - length vs) None \<and>
    nsaddrinfo info' = ai @ map g vs @ replicate (MAXNS + 1 - length ns - length vs) None \<and>
    ifname info' = ifname info \<and> cache info' = cache info \<and> ifaddr info' = ifaddr info"
  using assms(1-5) unfolding vs_def
proof (induction k arbitrary: i ns ai info)
  case 0
  then show ?case by (simp add: valid_servers_def)
next
  case (Suc k)
  have r: "rd servers i = Some (servers ! i)" "take (Suc k) (drop i servers) = servers ! i # take k (drop (Suc i) servers)"
    using Suc.prems(1) by (simp_all add: rd_def Cons_nth_drop_Suc[symmetric])
  obtain m where m: "MAXNS + 1 - length ns = Suc m" "m = MAXNS + 1 - Suc (length ns)"
    using Suc.prems(2) by (cases "MAXNS + 1 - length ns") auto
  show ?case
  proof (cases "g (servers ! i)")
    case None
    have "set_servers g d servers (Suc k) i (length ns) info =
        set_servers g d servers k (Suc i) (length ns) (info\<lparr>nsaddrinfo := (nsaddrinfo info)[length ns := None]\<rparr>)"
      using r(1) None by simp
    moreover have "(nsaddrinfo info)[length ns := None] = nsaddrinfo info"
      using Suc.prems(3,5) m(1) by (simp add: list_update_append)
    ultimately show ?thesis
      using Suc.IH[of "Suc i" ns ai "info\<lparr>nsaddrinfo := nsaddrinfo info\<rparr>"] Suc.prems r(2) None
      by (simp add: valid_servers_def)
  next
    case (Some a)
    let ?info = "info\<lparr>nsaddrinfo := (nsaddrinfo info)[length ns := Some a],
                  nameservers := (nameservers info)[length ns := d (servers ! i)]\<rparr>"
    have "set_servers g d servers (Suc k) i (length ns) info = set_servers g d servers k (Suc i) (length (ns @ [d (servers ! i)])) ?info"
      using r(1) Some by simp
    moreover have "\<exists>info'. set_servers g d servers k (Suc i) (length (ns @ [d (servers ! i)])) ?info = Some info' \<and>
      nameservers info' = (ns @ [d (servers ! i)]) @ map d (valid_servers g (take k (drop (Suc i) servers))) @
        replicate (MAXNS + 1 - length (ns @ [d (servers ! i)]) - length (valid_servers g (take k (drop (Suc i) servers)))) None \<and>
      nsaddrinfo info' = (ai @ [Some a]) @ map g (valid_servers g (take k (drop (Suc i) servers))) @
        replicate (MAXNS + 1 - length (ns @ [d (servers ! i)]) - length (valid_servers g (take k (drop (Suc i) servers)))) None \<and>
      ifname info' = ifname ?info \<and> cache info' = cache ?info \<and> ifaddr info' = ifaddr ?info"
      using Suc.prems m by (intro Suc.IH) (simp_all add: list_update_append)
    ultimately show ?thesis
      using r(2) Some m by (simp add: valid_servers_def)
  qed
qed

lemma set_servers_ifname: "set_servers g d servers k i index info = Some info' \<Longrightarrow> ifname info' = ifname info"
  by (induction k arbitrary: i index info) (auto split: bind_splits option.splits)

lemma set_nameservers_effect:
  fixes g :: "cstr \<Rightarrow> 'ai option"
  assumes "rc_ok s" "env_ok en" "length nm \<le> IF_NAMESIZE" "int (length servers) \<ge> numservers"
  defines "vs \<equiv> valid_servers g (take (min (nat numservers) MAXNS) servers)"
  shows "\<exists>t. resolv_set_nameservers_for_iface g d en (Some nm) servers numservers s = Some t \<and> rc_ok t \<and>
    (case find_cache_info_locked (Some nm) t of
      None \<Rightarrow> True
    | Some i \<Rightarrow>
      nameservers (cache_list t ! i) = map d vs @ replicate (MAXNS + 1 - length vs) None \<and>
      nsaddrinfo (cache_list t ! i) = map g vs @ replicate (MAXNS + 1 - length vs) None)"
proof -
  obtain s1 where s1: "rc_once (getenv_dnscache en) s = Some s1" "rc_ok s1"
    using rc_once_ok[OF assms(1)] assms(2) by (auto simp: env_ok_def)
  obtain p s2 where s2: "get_res_cache_for_iface_locked en (Some nm) s1 = Some (p, s2)" "rc_ok s2"
    using get_for_iface_ok[OF s1(2), of en "Some nm"] assms(2,3) by (auto simp: env_ok_def)
  show ?thesis
  proof (cases "find_cache_info_locked (Some nm) s2")
    case None
    then show ?thesis
      using s1 s2 by (simp add: resolv_set_nameservers_for_iface_def)
  next
    case (Some i)
    let ?k = "min (nat numservers) MAXNS"
    have i: "i < length (cache_list s2)" "info_ok (cache_list s2 ! i)" "ifname (cache_list s2 ! i) = nm"
      using rc_ok_info[OF s2(2) Some] by auto
    then have sv: "servers_ok (cache_list s2 ! i)"
      by (simp add: info_ok_def)
    have k: "?k \<le> length servers"
      using assms(4) by simp
    obtain info where info: "set_servers g d servers ?k 0 0 (free_nameservers_locked (cache_list s2 ! i)) = Some info"
      "nameservers info = map d vs @ replicate (MAXNS + 1 - length vs) None"
      "nsaddrinfo info = map g vs @ replicate (MAXNS + 1 - length vs) None"
      "ifname info = ifname (cache_list s2 ! i)" "cache info = cache (cache_list s2 ! i)"
      using set_servers_fill[of 0 ?k servers "[]" "[]" "free_nameservers_locked (cache_list s2 ! i)" g d]
        free_nameservers_empty[OF sv] k by (simp add: vs_def) blast
    have vs: "length vs \<le> MAXNS" "\<forall>sv \<in> set vs. g sv \<noteq> None"
      using length_filter_le[of "\<lambda>sv. g sv \<noteq> None" "take ?k servers"] by (auto simp: vs_def valid_servers_def)
    then have "map g vs = map Some (map (the \<circ> g) vs)"
      by auto
    then have "servers_ok info"
      using info(2,3) vs(1) unfolding servers_ok_def by (intro exI[of _ "map d vs"] exI[of _ "map (the \<circ> g) vs"]) simp
    then have io: "info_ok info"
      using i(2) info(4,5) by (simp add: info_ok_def)
    let ?t = "upd_info i (\<lambda>x. info) s2"
    have t: "rc_ok ?t"
      using upd_info_ok[OF s2(2) i(1), of "\<lambda>x. info"] io info(4) by simp
    have "find_cache_info_locked (Some nm) ?t = Some i"
      using find_info_nth[of ?t i] t i info(4) by (simp add: rc_ok_def upd_info_def)
    then show ?thesis
      using t s1 s2 Some info(1-3) i(1) by (simp add: resolv_set_nameservers_for_iface_def) (simp add: upd_info_def)
  qed
qed

lemma get_for_iface_found:
  assumes "env_ok en" "alloc_info en" "alloc_cache en" "alloc_entries en"
    "get_res_cache_for_iface_locked en (Some nm) s = Some (p, t)"
  shows "p \<noteq> None"
proof -
  obtain m where "res_cache_get_max_entries (sysprop en) = Some m" "m > 0"
    using max_entries_some assms(1) by (auto simp: env_ok_def)
  then show ?thesis
    using assms(2-5) create_refines[of "nat m"]
    by (cases "find_named_cache_locked (Some nm) s") (auto simp: get_res_cache_for_iface_locked_def dest: sym[of "Some _"])
qed

lemma set_nameservers_found:
  fixes g :: "cstr \<Rightarrow> 'ai option"
  assumes "rc_ok s" "env_ok en" "alloc_info en" "alloc_cache en" "alloc_entries en" "length nm \<le> IF_NAMESIZE"
    "resolv_set_nameservers_for_iface g d en (Some nm) servers numservers s = Some t"
  shows "find_cache_info_locked (Some nm) t \<noteq> None"
proof -
  obtain s1 where s1: "rc_once (getenv_dnscache en) s = Some s1" "rc_ok s1"
    using rc_once_ok[OF assms(1)] assms(2) by (auto simp: env_ok_def)
  obtain p s2 where s2: "get_res_cache_for_iface_locked en (Some nm) s1 = Some (p, s2)" "rc_ok s2"
    "p = find_cache_info_locked (Some nm) s2"
    using get_for_iface_ok[OF s1(2), of en "Some nm"] assms(2,6) by (auto simp: env_ok_def)
  have "p \<noteq> None"
    using get_for_iface_found[OF assms(2-5) s2(1)] .
  then obtain i where i: "find_cache_info_locked (Some nm) s2 = Some i"
    using s2(3) by auto
  then obtain info where info: "t = upd_info i (\<lambda>x. info) s2"
    "set_servers g d servers (min (nat numservers) MAXNS) 0 0 (free_nameservers_locked (cache_list s2 ! i)) = Some info"
    using assms(7) s1(1) s2(1) by (auto simp: resolv_set_nameservers_for_iface_def split: bind_splits)
  have "ifname info = ifname (cache_list s2 ! i)"
    using set_servers_ifname[OF info(2)] free_nameservers_empty(3)[of "cache_list s2 ! i"] rc_ok_info[OF s2(2) i]
    by (simp add: info_ok_def)
  then have "nm \<in> ifname ` set (cache_list t)"
    using rc_ok_info[OF s2(2) i] imageI[OF set_update_memI[of i "cache_list s2" info], of ifname]
    by (simp add: info(1) upd_info_def)
  then show ?thesis
    by (simp add: find_info_None)
qed

section \<open>The interfaces as a system\<close>

text \<open>The calls that change the state, with their arguments.\<close>

datatype 'ai rc_call =
    GetCache rc_env
  | Reset rc_env u32
  | FlushDefault rc_env
  | FlushIface rc_env "cstr option"
  | SetDefault rc_env cstr
  | SetServers "cstr \<Rightarrow> 'ai option" "cstr \<Rightarrow> cstr option" rc_env "cstr option" "cstr list" int
  | SetAddr rc_env "cstr option" u32

fun exec_call :: "'ai rc_call \<Rightarrow> 'ai rc_state \<Rightarrow> 'ai rc_state option" where
  "exec_call (GetCache en) s = map_option snd (get_res_cache en s)"
| "exec_call (Reset en gen) s = resolv_cache_reset en gen s"
| "exec_call (FlushDefault en) s = resolv_flush_cache_for_default_iface (getenv_dnscache en) s"
| "exec_call (FlushIface en nm) s = resolv_flush_cache_for_iface (getenv_dnscache en) nm s"
| "exec_call (SetDefault en nm) s = resolv_set_default_iface (getenv_dnscache en) nm s"
| "exec_call (SetServers g d en nm servers n) s = resolv_set_nameservers_for_iface g d en nm servers n s"
| "exec_call (SetAddr en nm a) s = resolv_set_addr_of_iface (getenv_dnscache en) nm a s"

text \<open>Calls with strings that end in a NUL, arrays as long as announced and interface names that fit.\<close>

fun call_ok :: "'ai rc_call \<Rightarrow> bool" where
  "call_ok (GetCache en) = env_ok en"
| "call_ok (Reset en gen) = env_ok en"
| "call_ok (FlushDefault en) = env_ok en"
| "call_ok (FlushIface en nm) = env_ok en"
| "call_ok (SetDefault en nm) = env_ok en"
| "call_ok (SetServers g d en nm servers n) =
    (env_ok en \<and> (case nm of None \<Rightarrow> True | Some x \<Rightarrow> length x \<le> IF_NAMESIZE) \<and> int (length servers) \<ge> n)"
| "call_ok (SetAddr en nm a) = env_ok en"

lemma exec_call_ok:
  assumes "rc_ok s" "call_ok c"
  shows "\<exists>t. exec_call c s = Some t \<and> rc_ok t"
proof -
  have once: "\<exists>t. rc_once (getenv_dnscache en) s = Some t \<and> rc_ok t" if "env_ok en" for en
    using rc_once_ok[OF assms(1)] that by (auto simp: env_ok_def)
  show ?thesis
  proof (cases c)
    case (GetCache en)
    then obtain s1 where s1: "rc_once (getenv_dnscache en) s = Some s1" "rc_ok s1"
      using once[of en] assms(2) by auto
    then show ?thesis
      using get_for_iface_ok[OF s1(2), of en "Some (default_or_listed s1)"] default_or_listed_length[OF s1(2)]
        GetCache assms(2) by (auto simp: get_res_cache_def env_ok_def)
  next
    case (Reset en gen)
    then show ?thesis using reset_ok[OF assms(1)] assms(2) by simp
  next
    case (FlushDefault en)
    then show ?thesis
      using once[of en] assms(2) flush_iface_ok by (fastforce simp: resolv_flush_cache_for_default_iface_def)
  next
    case (FlushIface en nm)
    then show ?thesis
      using once[of en] assms(2) flush_iface_ok by (fastforce simp: resolv_flush_cache_for_iface_def)
  next
    case (SetDefault en nm)
    then show ?thesis
      using once[of en] assms(2) length_copy_name[of nm] by (auto simp: resolv_set_default_iface_def rc_ok_def)
  next
    case (SetServers g d en nm servers n)
    show ?thesis
    proof (cases nm)
      case None
      then show ?thesis
        using SetServers once[of en] assms(2)
        by (auto simp: resolv_set_nameservers_for_iface_def get_res_cache_for_iface_locked_def find_cache_info_locked_def)
    next
      case (Some x)
      then show ?thesis
        using SetServers set_nameservers_effect[OF assms(1), of en x n servers g d] assms(2) by auto
    qed
  next
    case (SetAddr en nm a)
    then obtain s1 where s1: "rc_once (getenv_dnscache en) s = Some s1" "rc_ok s1"
      using once[of en] assms(2) by auto
    have "rc_ok (upd_info i (\<lambda>x. x\<lparr>ifaddr := a\<rparr>) s1)" if f: "find_cache_info_locked nm s1 = Some i" for i
    proof -
      obtain x where "nm = Some x"
        using f by (cases nm) (auto simp: find_cache_info_locked_def)
      then show ?thesis
        using rc_ok_info[OF s1(2), of x i] f s1(2)
        by (auto intro!: upd_info_ok simp: set_addr_ok)
    qed
    then show ?thesis
      using s1 SetAddr by (auto simp: resolv_set_addr_of_iface_def split: option.split)
  qed
qed

text \<open>
  The system: calls on the list of interfaces, and operations of the resolver on the cache of one of
  them.
\<close>

inductive rc_step :: "(store \<Rightarrow> eptr) \<Rightarrow> 'ai rc_state \<Rightarrow> 'ai rc_state \<Rightarrow> bool" for calloc where
  call: "call_ok c \<Longrightarrow> exec_call c s = Some t \<Longrightarrow> rc_step calloc s t"
| work: "i < length (cache_list s) \<Longrightarrow> cache_step calloc (cache (cache_list s ! i)) c1 \<Longrightarrow>
    rc_step calloc s (upd_info i (\<lambda>x. x\<lparr>cache := c1\<rparr>) s)"

interpretation ri: invariant_system "\<lambda>s. s = rc_static" "rc_step calloc" rc_ok for calloc
proof
  show "s = rc_static \<Longrightarrow> rc_ok s" for s :: "'a rc_state"
    by (simp add: rc_static_def rc_ok_def)
  show "rc_ok s \<Longrightarrow> rc_step calloc s t \<Longrightarrow> rc_ok t" for s t :: "'a rc_state"
  proof (erule rc_step.cases)
    fix c s' t' assume "rc_ok s" "s = s'" "t = t'" "call_ok c" "exec_call c s' = Some t'"
    then show "rc_ok t" using exec_call_ok[of s c] by auto
  next
    fix i s' c1
    assume a: "rc_ok s" "s = s'" "t = upd_info i (\<lambda>x. x\<lparr>cache := c1\<rparr>) s'" "i < length (cache_list s')"
      "cache_step calloc (cache (cache_list s' ! i)) c1"
    then have "info_ok (cache_list s' ! i)"
      by (auto simp: rc_ok_def)
    then show "rc_ok t"
      using a rep_step[OF _ a(5)] by (auto intro!: upd_info_ok set_cache_ok simp: info_ok_def)
  qed
qed

section \<open>Properties\<close>


definition plain_env :: rc_env where
  "plain_env = \<lparr>alloc_info = True, alloc_cache = True, alloc_entries = True, sysprop = [50], getenv_dnscache = None\<rparr>"


text \<open>
  What is set as name servers is what is given back: after \<open>_resolv_set_nameservers_for_iface\<close> with
  memory available, \<open>_get_nameserver_locked\<close> and \<open>_get_nameserver_addr_locked\<close> return, for the \<open>n\<close>-th
  name server, the \<open>n\<close>-th of the first \<open>MAXNS\<close> servers given that \<open>getaddrinfo\<close> understands (an
  empty result when it does not fit the buffer), and nothing past the last of them.
\<close>

theorem nameservers_set_get:
  fixes g :: "cstr \<Rightarrow> 'ai option"
  assumes "reachable (\<lambda>s. s = rc_static) (rc_step calloc) s" "env_ok en"
    "alloc_info en" "alloc_cache en" "alloc_entries en"
    "length nm \<le> IF_NAMESIZE" "numservers \<le> int (length servers)" "1 \<le> n" "n \<le> MAXNS"
  defines "vs \<equiv> valid_servers g (take (min (nat numservers) MAXNS) servers)"
  shows "\<exists>t. resolv_set_nameservers_for_iface g Some en (Some nm) servers numservers s = Some t \<and>
    get_nameserver_locked (Some nm) (int n) True addrLen t =
      (if n \<le> length vs \<and> int (length (vs ! (n - 1))) < addrLen
       then (int (length (vs ! (n - 1))), Some (vs ! (n - 1))) else (0, None)) \<and>
    get_nameserver_addr_locked (Some nm) (int n) t = (if n \<le> length vs then g (vs ! (n - 1)) else None)"
proof -
  have ok: "rc_ok s"
    using ri.reachable_inv[OF assms(1)] .
  obtain t where t: "resolv_set_nameservers_for_iface g Some en (Some nm) servers numservers s = Some t" "rc_ok t"
    and arr: "\<And>i. find_cache_info_locked (Some nm) t = Some i \<Longrightarrow>
      nameservers (cache_list t ! i) = map Some vs @ replicate (MAXNS + 1 - length vs) None \<and>
      nsaddrinfo (cache_list t ! i) = map g vs @ replicate (MAXNS + 1 - length vs) None"
    using set_nameservers_effect[OF ok assms(2,6,7), of g Some] unfolding vs_def by (auto split: option.splits)
  have "find_cache_info_locked (Some nm) t \<noteq> None"
    using set_nameservers_found[OF ok assms(2-6) t(1)] .
  then obtain i where i: "find_cache_info_locked (Some nm) t = Some i"
    by blast
  have "length vs \<le> MAXNS"
    using length_filter_le[of "\<lambda>sv. g sv \<noteq> None" "take (min (nat numservers) MAXNS) servers"]
    by (auto simp: vs_def valid_servers_def)
  then have "(map Some vs @ replicate (MAXNS + 1 - length vs) None) ! (n - 1) = (if n \<le> length vs then Some (vs ! (n - 1)) else None)"
    "(map g vs @ replicate (MAXNS + 1 - length vs) None) ! (n - 1) = (if n \<le> length vs then g (vs ! (n - 1)) else None)"
    using assms(8,9) by (auto simp: nth_append)
  moreover have "nat (int n - 1) = n - 1"
    using assms(8) by simp
  ultimately show ?thesis
    using t(1) i arr[OF i] assms(8,9) by (auto simp: get_nameserver_locked_def get_nameserver_addr_locked_def)
qed

theorem nameservers_set_get_witness:
  "\<exists>t. resolv_set_nameservers_for_iface (\<lambda>sv. if sv = [120] then None else Some sv) Some plain_env (Some [119])
      [[120], [49], [50]] 3 rc_static = Some t \<and>
    get_nameserver_locked (Some [119]) 2 True 8 t = (1, Some [50]) \<and>
    get_nameserver_locked (Some [119]) 3 True 8 t = (0, None)"
proof -
  have e: "env_ok plain_env" "alloc_info plain_env" "alloc_cache plain_env" "alloc_entries plain_env"
    by (simp_all add: env_ok_def plain_env_def)
  have r: "reachable (\<lambda>s. s = rc_static) (rc_step bump_alloc) (rc_static :: u8 list rc_state)"
    by (rule reachable.start) simp
  let ?g = "\<lambda>sv :: cstr. if sv = [120] then None else Some sv"
  have v: "valid_servers ?g (take (min (nat 3) MAXNS) [[120], [49], [50]]) = [[49], [50]]"
    by (simp add: valid_servers_def)
  note th = nameservers_set_get[OF r e, of "[119]" 3 "[[120], [49], [50]]" _ ?g 8, unfolded v]
  obtain t where t: "resolv_set_nameservers_for_iface ?g Some plain_env (Some [119]) [[120], [49], [50]] 3 rc_static = Some t"
    "get_nameserver_locked (Some [119]) 2 True 8 t = (1, Some [50])"
    using th[of 2] by auto
  then show ?thesis
    using th[of 3] by auto
qed

lemma pick_ifname_last:
  "pick_ifname nm cs = (let ns = filter (\<lambda>x. x \<noteq> []) (map ifname cs) in if ns = [] then nm else last ns)"
  by (induction nm cs rule: pick_ifname.induct) (auto simp: Let_def)

text \<open>
  Which cache is used by default: the one of the default interface when it has been set, and otherwise
  that of the \<^emph>\<open>last\<close> interface of the list with a name, although the comment asks for the first. The
  environment variable \<open>BIONIC_DNSCACHE\<close> does not turn the cache off: with memory available
  \<open>__get_res_cache\<close> gives a cache whatever its value.
\<close>

theorem default_cache_is_last:
  assumes "reachable (\<lambda>s. s = rc_static) (rc_step calloc) s" "once_done s" "env_ok en"
    "alloc_info en" "alloc_cache en" "alloc_entries en"
  shows "\<exists>i t. get_res_cache en s = Some (Some i, t) \<and> i < length (cache_list t) \<and>
    ifname (cache_list t ! i) =
      (let ns = filter (\<lambda>x. x \<noteq> []) (map ifname (cache_list s))
       in if default_ifname s \<noteq> [] then default_ifname s else if ns = [] then [] else last ns)"
proof -
  have ok: "rc_ok s"
    using ri.reachable_inv[OF assms(1)] .
  let ?nm = "default_or_listed s"
  obtain p t where t: "get_res_cache_for_iface_locked en (Some ?nm) s = Some (p, t)" "rc_ok t"
    "p = find_cache_info_locked (Some ?nm) t"
    using get_for_iface_ok[OF ok, of en "Some ?nm"] assms(3) default_or_listed_length[OF ok] by (auto simp: env_ok_def)
  have "p \<noteq> None"
    using get_for_iface_found[OF assms(3-6) t(1)] .
  then obtain i where i: "p = Some i" by blast
  then show ?thesis
    using t(1) rc_ok_info[OF t(2), of ?nm i] t(3) assms(2)
    by (auto simp: get_res_cache_def rc_once_def default_or_listed_def pick_ifname_last)
qed

theorem default_cache_is_last_witness:
  "\<exists>t i u. exec_call (SetDefault plain_env [119]) (rc_static :: nat rc_state) = Some t \<and>
    get_res_cache plain_env t = Some (Some i, u) \<and> ifname (cache_list u ! i) = [119]"
proof -
  have ok: "call_ok (SetDefault plain_env [119] :: nat rc_call)"
    by (simp add: env_ok_def plain_env_def)
  let ?t = "\<lparr>once_done = True, default_ifname = [119], cache_list = []\<rparr> :: nat rc_state"
  have t: "exec_call (SetDefault plain_env [119]) (rc_static :: nat rc_state) = Some ?t"
    by (simp add: resolv_set_default_iface_def rc_once_def res_cache_init_def rc_static_def plain_env_def copy_name_def)
  have r: "reachable (\<lambda>s. s = rc_static) (rc_step bump_alloc) ?t"
    by (rule reachable.step[where step = "rc_step bump_alloc", OF _ rc_step.call[OF ok t]]) (rule reachable.start, simp)
  show ?thesis
    using default_cache_is_last[OF r, of plain_env] t by (auto simp: env_ok_def plain_env_def)
qed

text \<open>A name that does not fit is never found again: each call makes another cache for it.\<close>

lemma long_name_recreated:
  assumes "rc_ok s" "IF_NAMESIZE < length nm" "env_ok en" "alloc_info en" "alloc_cache en" "alloc_entries en"
  shows "\<exists>x t. get_res_cache_for_iface_locked en (Some nm) s = Some (Some (length (cache_list s)), t) \<and>
    cache_list t = cache_list s @ [x]"
proof -
  have "nm \<notin> ifname ` set (cache_list s)"
    using assms(1,2) by (force simp: rc_ok_def info_ok_def)
  then have "find_cache_info_locked (Some nm) s = None"
    by (simp add: find_info_None)
  moreover obtain m where "res_cache_get_max_entries (sysprop en) = Some m" "m > 0"
    using max_entries_some assms(3) by (auto simp: env_ok_def)
  ultimately show ?thesis
    using assms(4-6) create_refines[of "nat m"]
    by (auto simp: get_res_cache_for_iface_locked_def find_named_eq insert_cache_info_locked_def)
qed

end
