(* ===== verification/Ns_Pack.thy ===== *)
theory Ns_Pack
  imports Ns_Name
begin

text \<open>
  Compression of domain names, \<open>netbsd/nameser/ns_name.c\<close>: \<open>dn_find\<close>, \<open>ns_name_pack\<close> and
  \<open>ns_name_rollback\<close>. The message that \<open>*dnptrs\<close> points to is the list \<open>msg\<close> of the bytes of its buffer,
  \<open>dst\<close> points into it, and the other pointers of \<open>dnptrs\<close> are the list \<open>ptrs\<close> of their offsets. A
  result is \<open>None\<close> when the code reads or writes outside a buffer or follows compression pointers
  forever.
\<close>

section \<open>Searching a name\<close>

definition mklower :: "u8 \<Rightarrow> u8" where
  "mklower ch = (if 0x41 \<le> ch \<and> ch \<le> 0x5A then ch + 0x20 else ch)"

text \<open>\<open>for (; n > 0; n--) if (mklower(*dn++) != mklower(*cp++)) goto next;\<close>\<close>

fun match_bytes :: "u8 list \<Rightarrow> u8 list \<Rightarrow> nat \<Rightarrow> nat \<Rightarrow> nat \<Rightarrow> bool option" where
  "match_bytes src msg dn cp 0 = Some True"
| "match_bytes src msg dn cp (Suc n) =
    do {
      a \<leftarrow> rd src dn;
      b \<leftarrow> rd msg cp;
      if mklower a \<noteq> mklower b then Some False else match_bytes src msg (dn + 1) (cp + 1) n
    }"

text \<open>The offset in a compression pointer.\<close>

definition ptr_off :: "u8 \<Rightarrow> u8 \<Rightarrow> nat" where
  "ptr_off n b = nat (push_bit 8 (uint (n AND 0x3f)) OR uint b)"

text \<open>How the comparison of the name at \<open>sp\<close> ends: the names agree, \<open>goto next\<close>, or a label of an unknown type.\<close>

datatype dn_cmp = Match | Next | Illegal

partial_function (option) dn_match :: "u8 list \<Rightarrow> u8 list \<Rightarrow> nat \<Rightarrow> nat \<Rightarrow> dn_cmp option" where
  "dn_match src msg dn cp =
    do {
      n \<leftarrow> rd msg cp;
      if n = 0 then Some Next
      else if n AND NS_CMPRSFLGS = 0 then do {
        d \<leftarrow> rd src dn;
        if n \<noteq> d then Some Next
        else do {
          eq \<leftarrow> match_bytes src msg (dn + 1) (cp + 1) (unat n);
          if \<not> eq then Some Next
          else do {
            d1 \<leftarrow> rd src (dn + 1 + unat n);
            if d1 = 0 then do {
              c1 \<leftarrow> rd msg (cp + 1 + unat n);
              if c1 = 0 then Some Match else Some Next
            }
            else dn_match src msg (dn + 1 + unat n) (cp + 1 + unat n)
          }
        }
      }
      else if n AND NS_CMPRSFLGS = NS_CMPRSFLGS then do {
        b \<leftarrow> rd msg (cp + 1);
        dn_match src msg dn (ptr_off n b)
      }
      else Some Illegal
    }"

text \<open>The walk over the labels of one earlier name: where the name was found.\<close>

function dn_walk :: "u8 list \<Rightarrow> nat \<Rightarrow> u8 list \<Rightarrow> nat \<Rightarrow> (dn_cmp \<times> nat) option" where
  "dn_walk src dn msg sp =
    (case rd msg sp of
      None \<Rightarrow> None
    | Some n \<Rightarrow>
      if n \<noteq> 0 \<and> n AND NS_CMPRSFLGS = 0 \<and> sp < 0x4000 then
        (case dn_match src msg dn sp of
          None \<Rightarrow> None
        | Some Match \<Rightarrow> Some (Match, sp)
        | Some Illegal \<Rightarrow> Some (Illegal, sp)
        | Some Next \<Rightarrow> dn_walk src dn msg (sp + unat n + 1))
      else Some (Next, sp))"
  by pat_completeness auto
termination
  by (relation "measure (\<lambda>(src, dn, msg, sp). length msg - sp)") (auto simp: rd_def split: if_splits)

declare dn_walk.simps [simp del]

text \<open>\<open>dn_find\<close>: the inner \<open>None\<close> is the result -1.\<close>

fun dn_find :: "u8 list \<Rightarrow> nat \<Rightarrow> u8 list \<Rightarrow> nat list \<Rightarrow> nat option option" where
  "dn_find src dn msg [] = Some None"
| "dn_find src dn msg (p # ptrs) =
    (case dn_walk src dn msg p of
      None \<Rightarrow> None
    | Some (Match, sp) \<Rightarrow> Some (Some sp)
    | Some (Illegal, sp) \<Rightarrow> Some None
    | Some (Next, sp) \<Rightarrow> dn_find src dn msg ptrs)"

section \<open>Writing a name\<close>

text \<open>The first loop: whether the name is legal; \<open>l\<close> is its length so far.\<close>

function pack_legal :: "u8 list \<Rightarrow> nat \<Rightarrow> nat \<Rightarrow> unit res" where
  "pack_legal src srcp l =
    (case rd src srcp of
      None \<Rightarrow> None
    | Some n \<Rightarrow>
      if n AND NS_CMPRSFLGS = NS_CMPRSFLGS then Some (Inl EMSGSIZE)
      else
        (case labellen src srcp of
          None \<Rightarrow> None
        | Some l0 \<Rightarrow>
          if l0 < 0 then Some (Inl EINVAL)
          else if l + nat l0 + 1 > NS_MAXCDNAME then Some (Inl EMSGSIZE)
          else if n \<noteq> 0 then pack_legal src (srcp + nat l0 + 1) (l + nat l0 + 1)
          else Some (Inr ())))"
  by pat_completeness auto
termination
  by (relation "measure (\<lambda>(src, srcp, l). length src - srcp)") (auto simp: rd_def split: if_splits)

declare pack_legal.simps [simp del]

text \<open>
  The second loop. \<open>ptrs\<close> is \<open>None\<close> when \<open>msg\<close> is null; \<open>found\<close> are the pointers searched (up to
  \<open>lpp\<close>), \<open>ptrs\<close> those up to \<open>cpp\<close>; \<open>cap\<close> is \<open>lastdnptr - dnptrs\<close>, \<open>None\<close> when \<open>lastdnptr\<close> is null. The
  result is the final \<open>dstp\<close>, or \<open>Inl\<close> for the jump to \<open>cleanup\<close>, with the buffer and the pointers.
\<close>

type_synonym pack_out = "(int + nat) \<times> u8 list \<times> nat list option"

function pack_loop ::
  "u8 list \<Rightarrow> nat \<Rightarrow> u8 list \<Rightarrow> nat \<Rightarrow> nat \<Rightarrow> nat list option \<Rightarrow> nat list option \<Rightarrow> nat option \<Rightarrow> bool
    \<Rightarrow> pack_out option" where
  "pack_loop src srcp msg dstp eob found ptrs cap first =
    (case rd src srcp of
      None \<Rightarrow> None
    | Some n \<Rightarrow>
      (case (if n \<noteq> 0 \<and> ptrs \<noteq> None then dn_find src srcp msg (the found) else Some None) of
        None \<Rightarrow> None
      | Some (Some l) \<Rightarrow>
        if dstp + 1 \<ge> eob then Some (Inl EMSGSIZE, msg, found)
        else
          (case blit msg dstp [of_nat (l div 256) OR NS_CMPRSFLGS, of_nat (l mod 256)] of
            None \<Rightarrow> None
          | Some msg1 \<Rightarrow> Some (Inr (dstp + 2), msg1, ptrs))
      | Some None \<Rightarrow>
        let (ptrs1, first1) =
          (case (ptrs, cap) of
            (Some ps, Some k) \<Rightarrow>
              if n \<noteq> 0 \<and> length ps + 1 < k \<and> dstp < 0x4000 \<and> first then (Some (ps @ [dstp]), False)
              else (Some ps, first)
          | _ \<Rightarrow> (ptrs, first))
        in if n AND NS_CMPRSFLGS = NS_CMPRSFLGS then Some (Inl EMSGSIZE, msg, found)
           else
             (case labellen src srcp of
               None \<Rightarrow> None
             | Some l \<Rightarrow>
               if l < 0 then None
               else if dstp + 1 + nat l \<ge> eob then Some (Inl EMSGSIZE, msg, found)
               else
                 (case blit msg dstp (take (nat l + 1) (drop srcp src)) of
                   None \<Rightarrow> None
                 | Some msg1 \<Rightarrow>
                   if l \<noteq> 0 then
                     pack_loop src (srcp + nat l + 1) msg1 (dstp + nat l + 1) eob found ptrs1 cap first1
                   else if dstp + nat l + 1 > eob then Some (Inl EMSGSIZE, msg1, found)
                   else Some (Inr (dstp + nat l + 1), msg1, ptrs1)))))"
  by pat_completeness auto
termination
  by (relation "measure (\<lambda>(src, srcp, msg, dstp, eob, found, ptrs, cap, first). length src - srcp)")
    (auto simp: rd_def split: if_splits)

declare pack_loop.simps [simp del]

definition ns_name_pack ::
  "u8 list \<Rightarrow> u8 list \<Rightarrow> nat \<Rightarrow> nat \<Rightarrow> nat list option \<Rightarrow> nat option \<Rightarrow> pack_out option" where
  "ns_name_pack src msg dst dstsiz ptrs cap =
    (case pack_legal src 0 0 of
      None \<Rightarrow> None
    | Some (Inl e) \<Rightarrow> Some (Inl e, msg, ptrs)
    | Some (Inr _) \<Rightarrow>
      (case pack_loop src 0 msg dst (dst + dstsiz) ptrs ptrs cap True of
        None \<Rightarrow> None
      | Some (Inl e, r) \<Rightarrow> Some (Inl e, r)
      | Some (Inr dstp, r) \<Rightarrow> Some (Inr (dstp - dst), r)))"

text \<open>\<open>ns_name_rollback\<close>: the first pointer at or after \<open>src\<close> and all behind it are dropped.\<close>

fun ns_name_rollback :: "nat \<Rightarrow> nat list \<Rightarrow> nat list" where
  "ns_name_rollback src [] = []"
| "ns_name_rollback src (p # ptrs) = (if p \<ge> src then [] else p # ns_name_rollback src ptrs)"

section \<open>Names in a message\<close>

text \<open>
  A label that both directions accept: its type is not the unused one with only the top bit set.
  \<open>name_at msg b p e cs\<close>: the bytes from \<open>p\<close> up to \<open>e\<close> are the first part of a name with the labels \<open>cs\<close>,
  and where it continues at a compression pointer it does so in bytes before \<open>b\<close>, under the same
  condition.
\<close>

definition wlabel :: "u8 list \<Rightarrow> bool" where
  "wlabel c \<longleftrightarrow> chunk c \<and> hd c AND NS_CMPRSFLGS \<noteq> 0x80"

inductive name_at :: "u8 list \<Rightarrow> nat \<Rightarrow> nat \<Rightarrow> nat \<Rightarrow> u8 list list \<Rightarrow> bool" for msg where
  root: "rd msg p = Some 0 \<Longrightarrow> name_at msg b p (p + 1) []"
| label: "wlabel c \<Longrightarrow> take (length c) (drop p msg) = c \<Longrightarrow> name_at msg b (p + length c) e cs \<Longrightarrow>
    name_at msg b p e (c # cs)"
| ptr: "rd msg p = Some n \<Longrightarrow> n AND NS_CMPRSFLGS = NS_CMPRSFLGS \<Longrightarrow> rd msg (p + 1) = Some x \<Longrightarrow>
    name_at msg (ptr_off n x) (ptr_off n x) e' cs \<Longrightarrow> e' \<le> b \<Longrightarrow> name_at msg b p (p + 2) cs"

inductive_cases name_atE: "name_at msg b p e cs"

text \<open>The encoded form of a name, and equality of names that ignores case.\<close>

definition wire :: "u8 list list \<Rightarrow> u8 list" where
  "wire cs = concat cs @ [0]"

definition same_label :: "u8 list \<Rightarrow> u8 list \<Rightarrow> bool" where
  "same_label c d \<longleftrightarrow> hd c = hd d \<and> map mklower (tl c) = map mklower (tl d)"

definition same_name :: "u8 list list \<Rightarrow> u8 list list \<Rightarrow> bool" where
  "same_name cs ds \<longleftrightarrow> list_all2 same_label cs ds"

lemma same_name_refl: "same_name cs cs"
  by (simp add: same_name_def same_label_def list_all2_refl)

lemma cmprs_cases: "n AND NS_CMPRSFLGS \<in> {0, 0x40, 0x80, NS_CMPRSFLGS}" for n :: u8
proof -
  have "list_all (\<lambda>k. (word_of_int k :: u8) AND NS_CMPRSFLGS \<in> {0, 0x40, 0x80, NS_CMPRSFLGS}) [0..255]"
    by code_simp
  moreover have "uint n \<in> set [0..255]"
    using uint_lt2p[of n] by simp
  ultimately have "(word_of_int (uint n) :: u8) AND NS_CMPRSFLGS \<in> {0, 0x40, 0x80, NS_CMPRSFLGS}"
    unfolding list_all_iff by (rule bspec)
  then show ?thesis by simp
qed

lemma wlabel_facts:
  assumes "wlabel c"
  shows "c \<noteq> []" "hd c \<noteq> 0" "hd c AND NS_CMPRSFLGS \<noteq> NS_CMPRSFLGS" "2 \<le> length c"
    "hd c AND NS_CMPRSFLGS = 0 \<Longrightarrow> length c = unat (hd c) + 1"
    "hd c AND NS_CMPRSFLGS = 0 \<or> hd c AND NS_CMPRSFLGS = NS_TYPE_ELT"
proof -
  show a: "c \<noteq> []" "hd c \<noteq> 0" "hd c AND NS_CMPRSFLGS \<noteq> NS_CMPRSFLGS"
    using assms by (auto simp: wlabel_def chunk_def)
  show "2 \<le> length c"
    using labellen_chunk(2) assms by (simp add: wlabel_def)
  have "labellen c 0 = Some (int (length c) - 1)" "hd c = c ! 0"
    using assms a(1) by (auto simp: wlabel_def chunk_def hd_conv_nth)
  then have "hd c AND NS_CMPRSFLGS = 0 \<Longrightarrow> uint (hd c) = int (length c) - 1"
    using a(1) by (auto simp: labellen_def rd_def flg_defs split: if_splits)
  then show "hd c AND NS_CMPRSFLGS = 0 \<Longrightarrow> length c = unat (hd c) + 1"
    by (simp add: unat_eq_nat_uint nat_diff_distrib') (use a(1) in \<open>cases c; simp\<close>)
  show "hd c AND NS_CMPRSFLGS = 0 \<or> hd c AND NS_CMPRSFLGS = NS_TYPE_ELT"
    using cmprs_cases[of "hd c"] a(3) assms by (auto simp: wlabel_def flg_defs)
qed

lemma chunk_at:
  assumes "take (length c) (drop p msg) = c" "c \<noteq> []"
  shows "rd msg p = Some (hd c)" "p + length c \<le> length msg"
    "i < length c \<Longrightarrow> rd msg (p + i) = Some (c ! i)" "drop p msg = c @ drop (p + length c) msg"
proof -
  have l: "length c \<le> length msg - p"
    using arg_cong[OF assms(1), of length] by simp
  with assms(2) show pl: "p + length c \<le> length msg"
    by (cases "p \<le> length msg") auto
  have "i < length c \<Longrightarrow> msg ! (p + i) = c ! i" for i
    using assms(1) pl by (metis nth_drop nth_take add_leD1)
  then show "i < length c \<Longrightarrow> rd msg (p + i) = Some (c ! i)" for i
    using pl by (simp add: rd_def)
  from this[of 0] show "rd msg p = Some (hd c)"
    using assms(2) by (simp add: hd_conv_nth)
  show "drop p msg = c @ drop (p + length c) msg"
    using assms(1) append_take_drop_id[of "length c" "drop p msg"] by (simp add: add.commute)
qed

lemma name_at_len: "name_at msg b p e cs \<Longrightarrow> p < e \<and> e \<le> length msg"
proof (induction rule: name_at.induct)
  case (label c p b e cs)
  then show ?case using wlabel_facts(4)[of c] by simp
qed (auto simp: rd_Some_iff)

lemma name_at_mono: "name_at msg b p e cs \<Longrightarrow> b \<le> b' \<Longrightarrow> name_at msg b' p e cs"
proof (induction arbitrary: b' rule: name_at.induct)
  case (ptr p n x e' cs b)
  then show ?case by (intro name_at.ptr[OF ptr.hyps(1-4)]) simp
qed (blast intro: name_at.root name_at.label)+

lemma rd_frame: "take e msg' = take e msg \<Longrightarrow> p < e \<Longrightarrow> rd msg p = Some x \<Longrightarrow> rd msg' p = Some x"
proof -
  assume a: "take e msg' = take e msg" "p < e" "rd msg p = Some x"
  then have "p < length (take e msg)" "take e msg ! p = x"
    by (auto simp: rd_Some_iff)
  then have "p < length (take e msg')" "take e msg' ! p = x"
    using a(1) by auto
  then show ?thesis
    using a(2) by (simp add: rd_Some_iff)
qed

lemma take_drop_frame:
  fixes msg msg' :: "u8 list"
  assumes "take e msg' = take e msg" "p + n < e"
  shows "take n (drop p msg') = take n (drop p msg)"
proof -
  have "take n (drop p msg) = take n (drop p (take e msg))" for msg :: "u8 list"
    using assms(2) by (simp add: drop_take min_def)
  then show ?thesis
    using assms(1) by (metis (no_types))
qed

text \<open>A name only depends on the bytes up to its end.\<close>

lemma name_at_frame:
  "name_at msg b p e cs \<Longrightarrow> b \<le> p \<Longrightarrow> take e msg' = take e msg \<Longrightarrow> name_at msg' b p e cs"
proof (induction arbitrary: rule: name_at.induct)
  case (root p b)
  then show ?case using rd_frame[of "p + 1" msg' msg p 0] by (intro name_at.root) simp
next
  case (label c p b e cs)
  have "p + length c < e"
    using name_at_len[OF label.hyps(3)] by simp
  then have "take (length c) (drop p msg') = take (length c) (drop p msg)"
    by (rule take_drop_frame[OF label.prems(2)])
  with label show ?case by (intro name_at.label) auto
next
  case (ptr p n x e' cs b)
  have "e' \<le> p + 2"
    using ptr.hyps(5) ptr.prems(1) by simp
  then have "take e' msg' = take e' msg"
    using ptr.prems(2) by (metis min_absorb1 take_take)
  then show ?case
    using ptr rd_frame[OF ptr.prems(2)] by (intro name_at.ptr) auto
qed

section \<open>Reading a name back\<close>

text \<open>
  \<open>ns_name_unpack\<close> finds the labels. The bytes it counts stay below the length of the message because
  each part of a name lies before the start of the part that points to it.
\<close>

lemma unpack_name:
  "name_at msg b p e cs \<Longrightarrow> b \<le> p \<Longrightarrow> length dst + length (wire cs) \<le> dsz \<Longrightarrow>
    chk + (e - p) + b \<le> length msg \<Longrightarrow> (len = None \<Longrightarrow> src \<le> p) \<Longrightarrow>
    unpack_loop msg dsz src p chk dst len =
      Some (Inr (case len of None \<Rightarrow> e - src | Some l \<Rightarrow> l, dst @ wire cs))"
proof (induction arbitrary: chk dst len rule: name_at.induct)
  case (root p b)
  then show ?case by (subst unpack_loop.simps) (simp add: wire_def)
next
  case (label c p b e cs)
  note c = wlabel_facts[OF label.hyps(1)]
  note at = chunk_at[OF label.hyps(2) c(1)]
  have e: "p + length c < e" "e \<le> length msg"
    using name_at_len[OF label.hyps(3)] by auto
  have m: "msg = take p msg @ c @ drop (p + length c) msg"
    using at(4) append_take_drop_id[of p msg] by simp
  have "length (take p msg) = p"
    using at(2) by simp
  then have ll: "labellen msg p = Some (int (length c) - 1)"
    using labellen_chunk(1)[of c "take p msg" "drop (p + length c) msg"] label.hyps(1) m by (simp add: wlabel_def)
  have "drop (p + 1) msg = tl c @ drop (p + length c) msg"
    using arg_cong[OF at(4), of tl] c(1) by (simp add: drop_Suc tl_drop)
  then have tk: "hd c # take (length c - 1) (drop (p + 1) msg) = c"
    using c(1) by simp
  from c(6)
have "unpack_loop msg dsz src p chk dst len =
      unpack_loop msg dsz src (p + length c) (chk + length c) (dst @ c) len"
    using at(1) c ll tk e label.prems(2)
    by (subst unpack_loop.simps) (auto simp: wire_def nat_diff_distrib')
  also have "\<dots> = Some (Inr (case len of None \<Rightarrow> e - src | Some l \<Rightarrow> l, (dst @ c) @ wire cs))"
    using label.prems e by (intro label.IH) (auto simp: wire_def)
  finally show ?case by (simp add: wire_def)
next
  case (ptr p n x e' cs b)
  let ?off = "ptr_off n x"
  have e': "?off < e'" "e' \<le> length msg"
    using name_at_len[OF ptr.hyps(4)] by auto
  have n: "n \<noteq> 0" "n AND NS_CMPRSFLGS \<noteq> 0" "n AND NS_CMPRSFLGS \<noteq> NS_TYPE_ELT"
    using ptr.hyps(2) by (auto simp: flg_defs)
  have p1: "p + 1 < length msg" "msg ! (p + 1) = x"
    using ptr.hyps(3) by (auto simp: rd_Some_iff)
  have "unpack_loop msg dsz src p chk dst len =
      unpack_loop msg dsz src ?off (chk + 2) dst (case len of None \<Rightarrow> Some (p + 1 - src + 1) | Some l \<Rightarrow> Some l)"
    using ptr.hyps(1,2,5) n p1 e' ptr.prems(3)
    by (subst unpack_loop.simps) (auto simp: ptr_off_def[symmetric] Let_def split: option.splits)
  also have "\<dots> = Some (Inr (case (case len of None \<Rightarrow> Some (p + 1 - src + 1) | Some l \<Rightarrow> Some l) of
      None \<Rightarrow> e' - src | Some l \<Rightarrow> l, dst @ wire cs))"
    using ptr.prems ptr.hyps(5) e' by (intro ptr.IH) (auto split: option.splits)
  finally show ?case
    using ptr.prems(4) by (auto split: option.splits)
qed

section \<open>The search finds equal names\<close>

text \<open>What is left of the name in \<open>src\<close>: the labels \<open>ds\<close> and the root, and whatever follows.\<close>

definition left_at :: "u8 list \<Rightarrow> nat \<Rightarrow> u8 list list \<Rightarrow> bool" where
  "left_at src dn ds \<longleftrightarrow> (\<exists>rest. drop dn src = wire ds @ rest) \<and> (\<forall>d \<in> set ds. wlabel d)"

lemma left_at_rd: "left_at src dn ds \<Longrightarrow> rd src dn = Some (case ds of [] \<Rightarrow> 0 | d # _ \<Rightarrow> hd d)"
proof -
  assume a: "left_at src dn ds"
  then obtain rest where d: "drop dn src = wire ds @ rest"
    by (auto simp: left_at_def)
  then have "dn < length src"
    by (metis append_is_Nil_conv drop_all linorder_not_le list.distinct(1) wire_def)
  moreover have "wire ds \<noteq> []"
    by (simp add: wire_def)
  ultimately have "rd src dn = Some (hd (wire ds))"
    using d by (metis hd_append2 hd_drop_conv_nth rd_def)
  moreover have "hd (wire ds) = (case ds of [] \<Rightarrow> 0 | d # _ \<Rightarrow> hd d)"
    using a wlabel_facts(1) by (cases ds) (auto simp: wire_def left_at_def hd_append)
  ultimately show ?thesis by simp
qed

lemma left_at_next: "left_at src dn (d # ds) \<Longrightarrow> left_at src (dn + length d) ds"
proof -
  assume a: "left_at src dn (d # ds)"
  then obtain rest where "drop dn src = d @ wire ds @ rest"
    by (auto simp: left_at_def wire_def)
  then have "drop (length d) (drop dn src) = wire ds @ rest"
    by simp
  then have "drop (dn + length d) src = wire ds @ rest"
    unfolding drop_drop by (simp add: add.commute)
  with a show ?thesis
    by (auto simp: left_at_def)
qed

lemma left_at_take: "left_at src dn (d # ds) \<Longrightarrow> take (length d) (drop dn src) = d"
  by (auto simp: left_at_def wire_def)

lemma left_at_labellen:
  assumes "left_at src dn (d # ds)"
  shows "labellen src dn = Some (int (length d) - 1)"
proof -
  have wd: "wlabel d"
    using assms by (simp add: left_at_def)
  note at = chunk_at[OF left_at_take[OF assms] wlabel_facts(1)[OF wd]]
  have m: "src = take dn src @ d @ drop (dn + length d) src"
    using at(4) append_take_drop_id[of dn src] by simp
  have "length (take dn src) = dn"
    using at(2) by simp
  then show ?thesis
    using labellen_chunk(1)[of d "take dn src" "drop (dn + length d) src"] wd m by (simp add: wlabel_def)
qed

lemma match_bytes_eq:
  "take (length xs) (drop dn src) = xs \<Longrightarrow> take (length ys) (drop cp msg) = ys \<Longrightarrow> length xs = length ys \<Longrightarrow>
    match_bytes src msg dn cp (length xs) = Some (map mklower xs = map mklower ys)"
proof (induction xs arbitrary: ys dn cp)
  case (Cons x xs)
  obtain y ys' where ys: "ys = y # ys'"
    using Cons.prems(3) by (cases ys) auto
  note a = chunk_at[OF Cons.prems(1)] and b = chunk_at[OF Cons.prems(2)]
  have "rd src dn = Some x" "rd msg cp = Some y"
    using a(1) b(1) ys by auto
  moreover have "drop (Suc dn) src = xs @ drop (dn + length (x # xs)) src"
    "drop (Suc cp) msg = ys' @ drop (cp + length ys) msg"
    using a(4) b(4) ys by (auto simp: drop_Suc drop_tl dest: arg_cong[of _ _ tl])
  ultimately show ?case
    using Cons.IH[of "Suc dn" ys' "Suc cp"] Cons.prems(3) ys by simp
qed simp

lemma tl_at: "take (length c) (drop p msg) = c \<Longrightarrow> c \<noteq> [] \<Longrightarrow> take (length (tl c)) (drop (p + 1) msg) = tl c"
proof -
  assume a: "take (length c) (drop p msg) = c" "c \<noteq> []"
  have "drop (p + 1) msg = tl c @ drop (p + length c) msg"
    using arg_cong[OF chunk_at(4)[OF a], of tl] a(2) by (simp add: drop_Suc tl_drop)
  then show ?thesis by simp
qed

lemma name_at_zero: "name_at msg b p e cs \<Longrightarrow> rd msg p = Some 0 \<Longrightarrow> cs = []"
proof (erule name_atE)
  fix c cs' assume "wlabel c" "take (length c) (drop p msg) = c" "rd msg p = Some 0"
  then show ?thesis using chunk_at(1)[of c p msg] wlabel_facts(1,2)[of c] by simp
qed (auto simp: flg_defs)

text \<open>The comparison ends, and only takes names for equal that are so but for case.\<close>

lemma dn_match_sound:
  "name_at msg b cp e cs \<Longrightarrow> left_at src dn ds \<Longrightarrow> ds \<noteq> [] \<Longrightarrow>
    \<exists>r. dn_match src msg dn cp = Some r \<and> (r = Match \<longrightarrow> same_name ds cs)"
proof (induction arbitrary: dn ds rule: name_at.induct)
  case (root p b)
  then show ?case by (subst dn_match.simps) simp
next
  case (label c p b e cs)
  note c = wlabel_facts[OF label.hyps(1)]
  note at = chunk_at[OF label.hyps(2) c(1)]
  obtain d ds' where ds: "ds = d # ds'"
    using label.prems(2) by (cases ds) auto
  have "wlabel d"
    using label.prems(1) by (simp add: left_at_def ds)
  note d = wlabel_facts[OF this]
  have rdd: "rd src dn = Some (hd d)"
    using left_at_rd[OF label.prems(1)] by (simp add: ds)
  show ?case
  proof (cases "hd c AND NS_CMPRSFLGS = 0 \<and> hd c = hd d")
    case True
    then have len: "length c = unat (hd c) + 1" "length d = unat (hd c) + 1"
      using c(5) d(5) by auto
    have mb: "match_bytes src msg (dn + 1) (p + 1) (unat (hd c)) = Some (map mklower (tl d) = map mklower (tl c))"
      using match_bytes_eq[of "tl d" "dn + 1" src "tl c" "p + 1" msg] tl_at[OF label.hyps(2) c(1)]
        tl_at[OF left_at_take[OF label.prems(1)[unfolded ds]] d(1)] len by simp
    have nx: "left_at src (dn + 1 + unat (hd c)) ds'"
      using left_at_next[OF label.prems(1)[unfolded ds]] len by simp
    have at': "name_at msg b (p + 1 + unat (hd c)) e cs"
      using label.hyps(3) len by simp
    obtain c1 where c1: "rd msg (p + 1 + unat (hd c)) = Some c1"
      using name_at_len[OF at'] by (auto simp: rd_def)
    show ?thesis
    proof (cases "map mklower (tl d) = map mklower (tl c)")
      case eq: True
      show ?thesis
      proof (cases ds')
        case Nil
        have "rd src (dn + 1 + unat (hd c)) = Some 0"
          using left_at_rd[OF nx] by (simp add: Nil)
        then show ?thesis
          using True eq at(1) c(2) rdd mb c1 name_at_zero[OF at'] ds Nil
          by (subst dn_match.simps) (auto simp: same_name_def same_label_def)
      next
        case (Cons d2 ds2)
        have "rd src (dn + 1 + unat (hd c)) = Some (hd d2)" "hd d2 \<noteq> 0"
          using left_at_rd[OF nx] nx wlabel_facts(2)[of d2] by (auto simp: Cons left_at_def)
        then have "dn_match src msg dn p = dn_match src msg (dn + 1 + unat (hd c)) (p + 1 + unat (hd c))"
          using True eq at(1) c(2) rdd mb by (subst dn_match.simps) auto
        moreover obtain r where "dn_match src msg (dn + 1 + unat (hd c)) (p + 1 + unat (hd c)) = Some r"
          "r = Match \<longrightarrow> same_name ds' cs"
          using label.IH[of "dn + 1 + unat (hd c)" ds'] nx Cons len by auto
        ultimately show ?thesis
          using True eq ds by (auto simp: same_name_def same_label_def)
      qed
    next
      case False
      then show ?thesis
        using True at(1) c(2) rdd mb by (subst dn_match.simps) (auto simp: flg_defs)
    qed
  next
    case False
    then show ?thesis
      using at(1) c(2,6) rdd by (subst dn_match.simps) (auto simp: flg_defs)
  qed
next
  case (ptr p n x e' cs b)
  have "n \<noteq> 0" "n AND NS_CMPRSFLGS \<noteq> 0"
    using ptr.hyps(2) by (auto simp: flg_defs)
  then have "dn_match src msg dn p = dn_match src msg dn (ptr_off n x)"
    using ptr.hyps(1-3) by (subst dn_match.simps) simp
  then show ?case
    using ptr.IH[OF ptr.prems] by simp
qed

lemma dn_walk_sound:
  "name_at msg b sp e cs \<Longrightarrow> b \<le> sp \<Longrightarrow> left_at src dn ds \<Longrightarrow> ds \<noteq> [] \<Longrightarrow>
    \<exists>r sp'. dn_walk src dn msg sp = Some (r, sp') \<and>
      (r = Match \<longrightarrow> sp' < 0x4000 \<and> (\<exists>cs'. name_at msg sp' sp' e cs' \<and> same_name ds cs'))"
proof (induction rule: name_at.induct)
  case (root p b)
  then show ?case by (subst dn_walk.simps) simp
next
  case (label c p b e cs)
  note c = wlabel_facts[OF label.hyps(1)]
  note at = chunk_at[OF label.hyps(2) c(1)]
  show ?case
  proof (cases "hd c AND NS_CMPRSFLGS = 0 \<and> p < 0x4000")
    case True
    then have len: "length c = unat (hd c) + 1"
      using c(5) by simp
    have here: "name_at msg p p e (c # cs)"
      using name_at.label[OF label.hyps] name_at_mono[OF _ label.prems(1)] by blast
    obtain r where r: "dn_match src msg dn p = Some r" "r = Match \<longrightarrow> same_name ds (c # cs)"
      using dn_match_sound[OF here label.prems(2,3)] by blast
    then show ?thesis
      using True at(1) c(2) here label.IH label.prems len
      by (cases r) (subst dn_walk.simps, auto)+
  next
    case False
    then show ?thesis
      using at(1) by (subst dn_walk.simps) auto
  qed
next
  case (ptr p n x e' cs b)
  then show ?case by (subst dn_walk.simps) (auto simp: flg_defs)
qed

text \<open>The pointers are usable up to an offset: each points to a name that ends before it.\<close>

definition ptrs_ok :: "u8 list \<Rightarrow> nat \<Rightarrow> nat list \<Rightarrow> bool" where
  "ptrs_ok msg lim ptrs \<longleftrightarrow> (\<forall>p \<in> set ptrs. \<exists>e cs. name_at msg p p e cs \<and> e \<le> lim)"

lemma dn_find_sound:
  "ptrs_ok msg lim ptrs \<Longrightarrow> left_at src dn ds \<Longrightarrow> ds \<noteq> [] \<Longrightarrow>
    \<exists>r. dn_find src dn msg ptrs = Some r \<and>
      (\<forall>l. r = Some l \<longrightarrow> l < 0x4000 \<and> (\<exists>e cs. name_at msg l l e cs \<and> e \<le> lim \<and> same_name ds cs))"
proof (induction ptrs)
  case (Cons p ptrs)
  obtain e cs where p: "name_at msg p p e cs" "e \<le> lim"
    using Cons.prems(1) by (auto simp: ptrs_ok_def)
  obtain r sp where w: "dn_walk src dn msg p = Some (r, sp)"
    "r = Match \<longrightarrow> sp < 0x4000 \<and> (\<exists>cs'. name_at msg sp sp e cs' \<and> same_name ds cs')"
    using dn_walk_sound[OF p(1) _ Cons.prems(2,3)] by blast
  show ?case
  proof (cases r)
    case Next
    then show ?thesis
      using w Cons by (auto simp: ptrs_ok_def)
  qed (use w p(2) in auto)
qed simp

section \<open>Packing\<close>

lemma ptr_bytes:
  assumes "l < 0x4000"
  shows "(of_nat (l div 256) OR NS_CMPRSFLGS :: u8) AND NS_CMPRSFLGS = NS_CMPRSFLGS"
    "ptr_off (of_nat (l div 256) OR NS_CMPRSFLGS) (of_nat (l mod 256)) = l"
proof -
  show "(of_nat (l div 256) OR NS_CMPRSFLGS :: u8) AND NS_CMPRSFLGS = NS_CMPRSFLGS"
    by (rule bit_word_eqI) (auto simp: bit_simps)
  have h: "l div 256 < 64"
    using assms by auto
  have t: "list_all (\<lambda>k. uint (((of_int k :: u8) OR NS_CMPRSFLGS) AND 0x3f) = k) [0..63]"
    by code_simp
  have "int (l div 256) \<in> set [0..63]"
    using h by auto
  with t have "uint (((of_int (int (l div 256)) :: u8) OR NS_CMPRSFLGS) AND 0x3f) = int (l div 256)"
    unfolding list_all_iff by blast
  then have hi: "uint (((of_nat (l div 256) :: u8) OR NS_CMPRSFLGS) AND 0x3f) = int (l div 256)"
    by simp
  have lo: "uint (of_nat (l mod 256) :: u8) = int (l mod 256)"
    by (simp add: uint_nat unat_of_nat)
  have "push_bit 8 (int (l div 256)) OR int (l mod 256) = push_bit 8 (int (l div 256)) + int (l mod 256)"
  proof (rule disjunctive_add[symmetric])
    fix n
    have "bit (int (l mod 256)) n \<Longrightarrow> n < 8"
      using bit_take_bit_iff[of 8 "int l" n] by (simp add: take_bit_eq_mod zmod_int)
    then show "\<not> bit (push_bit 8 (int (l div 256))) n \<or> \<not> bit (int (l mod 256)) n"
      by (auto simp: bit_push_bit_iff)
  qed
  also have "\<dots> = int l"
    by (simp add: push_bit_eq_mult zmod_int zdiv_int)
  finally show "ptr_off (of_nat (l div 256) OR NS_CMPRSFLGS) (of_nat (l mod 256)) = l"
    by (simp add: ptr_off_def hi lo)
qed

text \<open>What a run of the second loop leaves behind, when it starts at \<open>dstp\<close> in a name that starts at \<open>dst\<close>.\<close>

definition packed ::
  "nat \<Rightarrow> nat \<Rightarrow> nat \<Rightarrow> u8 list list \<Rightarrow> u8 list \<Rightarrow> nat list option \<Rightarrow> nat list option \<Rightarrow> bool \<Rightarrow> pack_out \<Rightarrow> bool" where
  "packed dst dstp eob ds msg found ptrs first r \<longleftrightarrow>
    (case r of (out, msg', ptrs') \<Rightarrow>
      length msg' = length msg \<and> take dstp msg' = take dstp msg \<and>
      (case out of
        Inl e \<Rightarrow> e = EMSGSIZE \<and> ptrs' = found \<and> eob \<le> dstp + length (wire ds)
      | Inr q \<Rightarrow> drop q msg' = drop q msg \<and> (\<exists>cs. same_name ds cs \<and> name_at msg' dst dstp q cs) \<and>
          (ptrs' = ptrs \<or>
            first \<and> (\<exists>ps q'. ptrs = Some ps \<and> ptrs' = Some (ps @ [q']) \<and> dst \<le> q' \<and> (\<exists>cs. name_at msg' dst q' q cs)))))"

lemma pack_loop_root:
  assumes "left_at src srcp []" "dst \<le> dstp" "eob \<le> length msg"
  shows "\<exists>r. pack_loop src srcp msg dstp eob found ptrs cap first = Some r \<and> packed dst dstp eob [] msg found ptrs first r"
proof -
  have r: "rd src srcp = Some 0"
    using left_at_rd[OF assms(1)] by simp
  then have l: "labellen src srcp = Some 0"
    by (simp add: labellen_def flg_defs)
  have t: "take (nat 0 + 1) (drop srcp src) = [0]"
    using assms(1) by (auto simp: left_at_def wire_def)
  have z: "(0 :: u8) AND NS_CMPRSFLGS \<noteq> NS_CMPRSFLGS"
    by (simp add: flg_defs)
  have pf: "(case (ptrs, cap) of
            (Some ps, Some k) \<Rightarrow>
              if (0 :: u8) \<noteq> 0 \<and> length ps + 1 < k \<and> dstp < 0x4000 \<and> first then (Some (ps @ [dstp]), False)
              else (Some ps, first)
          | _ \<Rightarrow> (ptrs, first)) = (ptrs, first)"
    by (simp split: option.split)
  show ?thesis
  proof (cases "dstp + 1 \<ge> eob")
    case True
    then show ?thesis
      using r l z by (subst pack_loop.simps) (simp add: pf packed_def wire_def split: option.split)
  next
    case False
    obtain msg' where m: "blit msg dstp [0] = Some msg'" "length msg' = length msg" "take dstp msg' = take dstp msg"
      "drop (dstp + 1) msg' = drop (dstp + 1) msg" "take 1 (drop dstp msg') = [0]"
      using blit_ok[of dstp "[0]" msg] False assms(3) by auto
    have "name_at msg' dst dstp (dstp + 1) []"
      using chunk_at(1)[of "[0]" dstp msg'] m(5) by (intro name_at.root) simp
    moreover have "pack_loop src srcp msg dstp eob found ptrs cap first = Some (Inr (dstp + 1), msg', ptrs)"
      using r l z t m(1) False by (subst pack_loop.simps) (simp split: option.split)
    ultimately show ?thesis
      using m by (auto simp: packed_def same_name_def)
  qed
qed

lemma pack_loop_label:
  assumes "left_at src srcp (d # ds)"
  shows "pack_loop src srcp msg dstp eob found ptrs cap first =
    (case (if ptrs \<noteq> None then dn_find src srcp msg (the found) else Some None) of
        None \<Rightarrow> None
      | Some (Some l) \<Rightarrow>
        if dstp + 1 \<ge> eob then Some (Inl EMSGSIZE, msg, found)
        else
          (case blit msg dstp [of_nat (l div 256) OR NS_CMPRSFLGS, of_nat (l mod 256)] of
            None \<Rightarrow> None
          | Some msg1 \<Rightarrow> Some (Inr (dstp + 2), msg1, ptrs))
      | Some None \<Rightarrow>
        let (ptrs1, first1) =
          (case (ptrs, cap) of
            (Some ps, Some k) \<Rightarrow>
              if length ps + 1 < k \<and> dstp < 0x4000 \<and> first then (Some (ps @ [dstp]), False) else (Some ps, first)
          | _ \<Rightarrow> (ptrs, first))
        in if dstp + length d \<ge> eob then Some (Inl EMSGSIZE, msg, found)
           else
             (case blit msg dstp d of
               None \<Rightarrow> None
             | Some msg1 \<Rightarrow> pack_loop src (srcp + length d) msg1 (dstp + length d) eob found ptrs1 cap first1))"
proof -
  have wd: "wlabel d"
    using assms by (simp add: left_at_def)
  note d = wlabel_facts[OF wd]
  have r: "rd src srcp = Some (hd d)"
    using left_at_rd[OF assms] by simp
  note tk = left_at_take[OF assms]
  note l = left_at_labellen[OF assms]
  have n: "nat (int (length d) - 1) + 1 = length d" "srcp + nat (int (length d) - 1) + 1 = srcp + length d"
    "dstp + nat (int (length d) - 1) + 1 = dstp + length d" "dstp + 1 + nat (int (length d) - 1) = dstp + length d"
    "\<not> int (length d) - 1 < 0" "int (length d) - 1 \<noteq> 0"
    using d(4) by auto
  show ?thesis
    by (subst pack_loop.simps)
      (simp only: r l n option.case if_True if_False d(2,3) simp_thms tk Let_def not_False_eq_True)
qed

lemma ptrs_ok_frame: "ptrs_ok msg lim ptrs \<Longrightarrow> take lim msg' = take lim msg \<Longrightarrow> ptrs_ok msg' lim ptrs"
proof -
  assume a: "ptrs_ok msg lim ptrs" "take lim msg' = take lim msg"
  have "name_at msg' p p e cs" if "name_at msg p p e cs" "e \<le> lim" for p e cs
    using name_at_frame[OF that(1), of msg'] a(2) that(2) by (metis min_absorb1 order_refl take_take)
  with a(1) show ?thesis
    unfolding ptrs_ok_def by blast
qed

lemma take_trans: "take n xs = take n ys \<Longrightarrow> m \<le> n \<Longrightarrow> take m xs = take m ys"
  by (metis min_absorb1 take_take)

lemma drop_trans:
  assumes "drop m xs = drop m ys" "m \<le> n"
  shows "drop n xs = drop n ys"
proof -
  have "drop n zs = drop (n - m) (drop m zs)" for zs :: "'a list"
    using assms(2) by simp
  then show ?thesis
    using assms(1) by (metis (no_types))
qed

text \<open>A label written before a run that is described by \<open>packed\<close>.\<close>

lemma packed_label:
  assumes "wlabel d" "blit msg dstp d = Some msg1" "length msg1 = length msg" "take dstp msg1 = take dstp msg"
    "drop (dstp + length d) msg1 = drop (dstp + length d) msg" "take (length d) (drop dstp msg1) = d" "dst \<le> dstp"
    and p: "packed dst (dstp + length d) eob ds msg1 found ptrs1 first1 r"
    and save: "(ptrs1, first1) = (ptrs, first) \<or> first \<and> \<not> first1 \<and> (\<exists>ps. ptrs = Some ps \<and> ptrs1 = Some (ps @ [dstp]))"
  shows "packed dst dstp eob (d # ds) msg found ptrs first r"
proof -
  obtain out msg' ptrs' where r: "r = (out, msg', ptrs')"
    by (cases r)
  have l: "length msg' = length msg" and t: "take (dstp + length d) msg' = take (dstp + length d) msg1"
    using p assms(3) by (auto simp: packed_def r)
  have tk: "take dstp msg' = take dstp msg"
    using take_trans[OF t, of dstp] assms(4) by simp
  show ?thesis
  proof (cases out)
    case (Inl e)
    then show ?thesis
      using p l tk by (simp add: packed_def r wire_def)
  next
    case (Inr q)
    have dr: "drop q msg' = drop q msg1" and pq: "ptrs' = ptrs1 \<or> first1 \<and> (\<exists>ps q'. ptrs1 = Some ps \<and>
        ptrs' = Some (ps @ [q']) \<and> dst \<le> q' \<and> (\<exists>cs. name_at msg' dst q' q cs))"
      using p by (auto simp: packed_def r Inr)
    obtain cs where cs: "same_name ds cs" "name_at msg' dst (dstp + length d) q cs"
      using p by (auto simp: packed_def r Inr)
    have lt: "dstp + length d < q"
      using name_at_len[OF cs(2)] by simp
    then have "drop q msg1 = drop q msg"
      using drop_trans[OF assms(5)] by simp
    then have dr': "drop q msg' = drop q msg"
      using dr by simp
    have "take (length d) (drop dstp msg') = d"
      using t assms(6) by (metis drop_take add_diff_cancel_left')
    then have nm: "name_at msg' dst dstp q (d # cs)"
      using name_at.label[OF assms(1) _ cs(2)] by simp
    moreover have "same_name (d # ds) (d # cs)"
      using cs(1) by (simp add: same_name_def same_label_def)
    moreover have "ptrs' = ptrs \<or> first \<and> (\<exists>ps q'. ptrs = Some ps \<and> ptrs' = Some (ps @ [q']) \<and> dst \<le> q' \<and>
        (\<exists>cs. name_at msg' dst q' q cs))"
      using save pq nm assms(7) by auto
    ultimately show ?thesis
      using l tk dr' by (auto simp: packed_def r Inr)
  qed
qed

lemma pack_loop_packed:
  "left_at src srcp ds \<Longrightarrow> dst \<le> dstp \<Longrightarrow> eob \<le> length msg \<Longrightarrow>
    (case found of None \<Rightarrow> ptrs = None | Some fs \<Rightarrow> ptrs \<noteq> None \<and> ptrs_ok msg dst fs) \<Longrightarrow>
    \<exists>r. pack_loop src srcp msg dstp eob found ptrs cap first = Some r \<and> packed dst dstp eob ds msg found ptrs first r"
proof (induction ds arbitrary: srcp msg dstp ptrs first)
  case Nil
  then show ?case using pack_loop_root by blast
next
  case (Cons d ds)
  note step = pack_loop_label[OF Cons.prems(1), of msg dstp eob found ptrs cap first]
  have wd: "wlabel d"
    using Cons.prems(1) by (simp add: left_at_def)
  obtain fnd where fnd: "(if ptrs \<noteq> None then dn_find src srcp msg (the found) else Some None) = Some fnd"
    "\<And>l. fnd = Some l \<Longrightarrow> l < 0x4000 \<and> (\<exists>e cs. name_at msg l l e cs \<and> e \<le> dst \<and> same_name (d # ds) cs)"
  proof (cases found)
    case None
    then show thesis
      using Cons.prems(4) that[of None] by simp
  next
    case (Some fs)
    then have "ptrs \<noteq> None" "ptrs_ok msg dst fs"
      using Cons.prems(4) by auto
    then show thesis
      using dn_find_sound[OF _ Cons.prems(1), of msg dst fs] Some that by auto
  qed
  show ?case
  proof (cases fnd)
    case (Some l)
    note l = fnd(2)[OF Some]
    obtain e cs where cs: "name_at msg l l e cs" "e \<le> dst" "same_name (d # ds) cs"
      using l by blast
    show ?thesis
    proof (cases "dstp + 1 \<ge> eob")
      case True
      then show ?thesis
        using step fnd(1) Some wlabel_facts(4)[OF wd] by (simp add: packed_def wire_def)
    next
      case False
      let ?bs = "[of_nat (l div 256) OR NS_CMPRSFLGS, of_nat (l mod 256)] :: u8 list"
      obtain msg1 where m: "blit msg dstp ?bs = Some msg1" "length msg1 = length msg" "take dstp msg1 = take dstp msg"
        "drop (dstp + 2) msg1 = drop (dstp + 2) msg" "take (length ?bs) (drop dstp msg1) = ?bs"
        using blit_ok[of dstp ?bs msg] False Cons.prems(3) by auto
      note at = chunk_at[OF m(5)]
      have rds: "rd msg1 dstp = Some (?bs ! 0)" "rd msg1 (dstp + 1) = Some (?bs ! 1)"
        using at(1) at(3)[of 1] by simp_all
      have "take e msg1 = take e msg"
        using take_trans[OF m(3)] cs(2) Cons.prems(2) by simp
      then have "name_at msg1 l l e cs"
        using name_at_frame[OF cs(1)] by simp
      then have "name_at msg1 dst dstp (dstp + 2) cs"
        using name_at.ptr[OF rds(1) _ rds(2), of e cs dst] ptr_bytes[of l] l cs(2) by simp
      then show ?thesis
        using step fnd(1) Some False m cs(3) by (auto simp: packed_def)
    qed
  next
    case None
    define pf where "pf = (case (ptrs, cap) of
            (Some ps, Some k) \<Rightarrow>
              if length ps + 1 < k \<and> dstp < 0x4000 \<and> first then (Some (ps @ [dstp]), False) else (Some ps, first)
          | _ \<Rightarrow> (ptrs, first))"
    obtain ptrs1 first1 where pf1: "pf = (ptrs1, first1)"
      by (cases pf)
    note step' = step[folded pf_def, unfolded pf1]
    have save: "(ptrs1, first1) = (ptrs, first) \<or> first \<and> \<not> first1 \<and> (\<exists>ps. ptrs = Some ps \<and> ptrs1 = Some (ps @ [dstp]))"
      using pf1 by (auto simp: pf_def split: option.splits if_splits)
    show ?thesis
    proof (cases "dstp + length d \<ge> eob")
      case True
      then show ?thesis
        using step' fnd(1) None by (simp add: packed_def wire_def)
    next
      case False
      obtain msg1 where m: "blit msg dstp d = Some msg1" "length msg1 = length msg" "take dstp msg1 = take dstp msg"
        "drop (dstp + length d) msg1 = drop (dstp + length d) msg" "take (length d) (drop dstp msg1) = d"
        using blit_ok[of dstp d msg] False Cons.prems(3) by auto
      have e: "pack_loop src srcp msg dstp eob found ptrs cap first =
          pack_loop src (srcp + length d) msg1 (dstp + length d) eob found ptrs1 cap first1"
        using step' fnd(1) None False m(1) by simp
      have "case found of None \<Rightarrow> ptrs1 = None | Some fs \<Rightarrow> ptrs1 \<noteq> None \<and> ptrs_ok msg1 dst fs"
        using Cons.prems(4) save ptrs_ok_frame[of msg dst _ msg1] take_trans[OF m(3) Cons.prems(2)]
        by (auto split: option.splits)
      then obtain r where r: "pack_loop src (srcp + length d) msg1 (dstp + length d) eob found ptrs1 cap first1 = Some r"
        "packed dst (dstp + length d) eob ds msg1 found ptrs1 first1 r"
        using Cons.IH[OF left_at_next[OF Cons.prems(1)], of "dstp + length d" msg1 ptrs1 first1] Cons.prems(2,3) m(2)
        by auto
      show ?thesis
        using packed_label[OF wd m(1-5) Cons.prems(2) r(2) save] e r(1) by auto
    qed
  qed
qed

lemma pack_legal_wire:
  "left_at src srcp ds \<Longrightarrow>
    pack_legal src srcp l = Some (if l + length (wire ds) \<le> NS_MAXCDNAME then Inr () else Inl EMSGSIZE)"
proof (induction ds arbitrary: srcp l)
  case Nil
  have r: "rd src srcp = Some 0"
    using left_at_rd[OF Nil] by simp
  then have "labellen src srcp = Some 0"
    by (simp add: labellen_def flg_defs)
  with r show ?case
    by (subst pack_legal.simps) (simp add: flg_defs wire_def NS_MAXCDNAME_def)
next
  case (Cons d ds)
  have wd: "wlabel d"
    using Cons.prems by (simp add: left_at_def)
  note d = wlabel_facts[OF wd]
  have r: "rd src srcp = Some (hd d)"
    using left_at_rd[OF Cons.prems] by simp
  note ll = left_at_labellen[OF Cons.prems]
  obtain k where k: "length d = Suc k"
    using d(4) by (cases "length d") auto
  have "pack_legal src srcp l =
      (if l + length d > NS_MAXCDNAME then Some (Inl EMSGSIZE) else pack_legal src (srcp + length d) (l + length d))"
    using r ll d(2,3) k by (subst pack_legal.simps) simp
  then show ?case
    using Cons.IH[OF left_at_next[OF Cons.prems], of "l + length d"] by (simp add: wire_def)
qed

lemma name_at_wlabels: "name_at msg b p e cs \<Longrightarrow> c \<in> set cs \<Longrightarrow> wlabel c"
  by (induction rule: name_at.induct) auto

lemma same_name_length:
  "same_name ds cs \<Longrightarrow> \<forall>d \<in> set ds. d \<noteq> [] \<Longrightarrow> \<forall>c \<in> set cs. c \<noteq> [] \<Longrightarrow> length (wire cs) = length (wire ds)"
proof -
  have "list_all2 same_label ds cs \<Longrightarrow> \<forall>d \<in> set ds. d \<noteq> [] \<Longrightarrow> \<forall>c \<in> set cs. c \<noteq> [] \<Longrightarrow>
      length (concat cs) = length (concat ds)"
  proof (induction rule: list_all2_induct)
    case (Cons d ds c cs)
    have "length (tl d) = length (tl c)"
      using Cons.hyps(1) map_eq_imp_length_eq[of mklower "tl d" mklower "tl c"] by (simp add: same_label_def)
    moreover have "d \<noteq> []" "c \<noteq> []"
      using Cons.prems by simp_all
    ultimately have "length d = length c"
      by (metis length_Cons list.collapse)
    with Cons show ?case by simp
  qed simp
  then show "same_name ds cs \<Longrightarrow> \<forall>d \<in> set ds. d \<noteq> [] \<Longrightarrow> \<forall>c \<in> set cs. c \<noteq> [] \<Longrightarrow> length (wire cs) = length (wire ds)"
    by (simp add: same_name_def wire_def)
qed

section \<open>Packing and reading back\<close>

text \<open>
  A packed name can be read back. Packing a legal name into a message whose pointers each point to a
  name before \<open>dst\<close> returns, writes only the bytes of the packed name, and succeeds whenever the name
  without compression would leave a byte of the room unused; then \<open>ns_name_unpack\<close> expands what was
  written to the name that was packed, but for the case of letters, consuming exactly the bytes
  written, and the pointers it leaves are good for the next name. When it fails, the list of pointers
  is as before.
\<close>

lemma pack_then_unpack:
  assumes "\<forall>d \<in> set ds. wlabel d" "length (wire ds) \<le> NS_MAXCDNAME" "dst + dstsiz \<le> length msg" "ptrs_ok msg dst ptrs"
  shows "\<exists>out msg' ptrs'. ns_name_pack (wire ds @ rest) msg dst dstsiz (Some ptrs) cap = Some (out, msg', Some ptrs') \<and>
    length msg' = length msg \<and> take dst msg' = take dst msg \<and>
    (length (wire ds) < dstsiz \<longrightarrow> \<not> isl out) \<and>
    (case out of
      Inl e \<Rightarrow> e = EMSGSIZE \<and> ptrs' = ptrs
    | Inr len \<Rightarrow> drop (dst + len) msg' = drop (dst + len) msg \<and> ptrs_ok msg' (dst + len) ptrs' \<and>
        (\<exists>cs. same_name ds cs \<and> (\<forall>c \<in> set cs. wlabel c) \<and>
          ns_name_unpack msg' dst NS_MAXCDNAME = Some (Inr (len, wire cs))))"
proof -
  have la: "left_at (wire ds @ rest) 0 ds"
    using assms(1) by (simp add: left_at_def)
  obtain r where r: "pack_loop (wire ds @ rest) 0 msg dst (dst + dstsiz) (Some ptrs) (Some ptrs) cap True = Some r"
    "packed dst dst (dst + dstsiz) ds msg (Some ptrs) (Some ptrs) True r"
    using pack_loop_packed[OF la, of dst dst "dst + dstsiz" msg "Some ptrs" "Some ptrs" cap True] assms(3,4) by auto
  obtain out msg' p' where e: "r = (out, msg', p')"
    by (cases r)
  have lg: "pack_legal (wire ds @ rest) 0 0 = Some (Inr ())"
    using pack_legal_wire[OF la, of 0] assms(2) by simp
  note pk = r(2)[unfolded e packed_def prod.case]
  show ?thesis
  proof (cases out)
    case (Inl err)
    then show ?thesis
      using lg r(1) e pk by (simp add: ns_name_pack_def)
  next
    case (Inr q)
    obtain cs where cs: "same_name ds cs" "name_at msg' dst dst q cs"
      using pk by (auto simp: Inr)
    note q = name_at_len[OF cs(2)]
    have "length (wire cs) = length (wire ds)"
      using same_name_length[OF cs(1)] assms(1) name_at_wlabels[OF cs(2)] wlabel_facts(1) by blast
    then have un: "ns_name_unpack msg' dst NS_MAXCDNAME = Some (Inr (q - dst, wire cs))"
      using unpack_name[OF cs(2), of "[]" NS_MAXCDNAME 0 None dst] assms(2) q by (simp add: ns_name_unpack_def)
    have old: "ptrs_ok msg' q ptrs"
      using ptrs_ok_frame[OF assms(4), of msg'] pk q by (fastforce simp: ptrs_ok_def)
    obtain ps where ps: "p' = Some ps" "ptrs_ok msg' q ps"
      using pk old name_at_mono[of msg' dst _ q] unfolding Inr by (fastforce simp: ptrs_ok_def)
    show ?thesis
      using lg r(1) e pk un ps q cs(1) name_at_wlabels[OF cs(2)] by (auto simp: ns_name_pack_def Inr)
  qed
qed

end
