(* ===== verification/Cstring.thy ===== *)
theory Cstring
  imports Ctype
begin

text \<open>
  Comparison and search in strings and memory, \<open>libc/string\<close>. A pointer that is only read through is the
  list of the bytes from it to the end of its array: \<open>*p\<close> is the head, \<open>p++\<close> the tail, and reading
  through the empty list, that is outside of the array, is \<open>None\<close>. A pointer that is returned is its
  distance from the argument, with \<open>None\<close> for the null pointer. \<open>char\<close> is unsigned, as on ARM. Where a
  loop is unrolled four times, the model has its body once.
\<close>

section \<open>Comparison\<close>

fun strlen :: "u8 list \<Rightarrow> nat option" where
  "strlen [] = None"
| "strlen (c # s) = (if c = 0 then Some 0 else map_option Suc (strlen s))"

fun strcmp :: "u8 list \<Rightarrow> u8 list \<Rightarrow> int option" where
  "strcmp (a # s1) (b # s2) =
    (if a = b then if a = 0 then Some 0 else strcmp s1 s2 else Some (uint a - uint b))"
| "strcmp _ _ = None"

definition strcoll :: "u8 list \<Rightarrow> u8 list \<Rightarrow> int option" where
  "strcoll s1 s2 = strcmp s1 s2"

text \<open>The \<open>do\<close> loop of \<open>strncmp\<close>; \<open>n\<close> is not 0.\<close>

fun strncmp_loop :: "u8 list \<Rightarrow> u8 list \<Rightarrow> nat \<Rightarrow> int option" where
  "strncmp_loop (a # s1) (b # s2) n =
    (if a \<noteq> b then Some (uint a - uint b)
     else if a = 0 then Some 0
     else if n - 1 \<noteq> 0 then strncmp_loop s1 s2 (n - 1)
     else Some 0)"
| "strncmp_loop _ _ n = None"

definition strncmp :: "u8 list \<Rightarrow> u8 list \<Rightarrow> nat \<Rightarrow> int option" where
  "strncmp s1 s2 n = (if n = 0 then Some 0 else strncmp_loop s1 s2 n)"

text \<open>\<open>d\<close> is the difference found last, \<open>n\<close> is \<open>end1 - p1\<close>.\<close>

fun memcmp_loop :: "u8 list \<Rightarrow> u8 list \<Rightarrow> nat \<Rightarrow> int \<Rightarrow> int option" where
  "memcmp_loop s1 s2 n d =
    (if d \<noteq> 0 \<or> n = 0 then Some d
     else
       (case (s1, s2) of
         (a # s1', b # s2') \<Rightarrow> memcmp_loop s1' s2' (n - 1) (uint a - uint b)
       | _ \<Rightarrow> None))"

declare memcmp_loop.simps [simp del]

definition memcmp :: "u8 list \<Rightarrow> u8 list \<Rightarrow> nat \<Rightarrow> int option" where
  "memcmp s1 s2 n = memcmp_loop s1 s2 n 0"

definition charmap :: "u8 list" where
  "charmap = map of_nat ([0..<65] @ [97..<123] @ [91..<256])"

abbreviation (input) cm :: "u8 \<Rightarrow> int" where
  "cm c \<equiv> uint (charmap ! unat c)"

fun strcasecmp :: "u8 list \<Rightarrow> u8 list \<Rightarrow> int option" where
  "strcasecmp (a # us1) (b # us2) =
    (if cm a = cm b then if a = 0 then Some 0 else strcasecmp us1 us2 else Some (cm a - cm b))"
| "strcasecmp _ _ = None"

fun strncasecmp_loop :: "u8 list \<Rightarrow> u8 list \<Rightarrow> nat \<Rightarrow> int option" where
  "strncasecmp_loop (a # us1) (b # us2) n =
    (if cm a \<noteq> cm b then Some (cm a - cm b)
     else if a = 0 then Some 0
     else if n - 1 \<noteq> 0 then strncasecmp_loop us1 us2 (n - 1)
     else Some 0)"
| "strncasecmp_loop _ _ n = None"

definition strncasecmp :: "u8 list \<Rightarrow> u8 list \<Rightarrow> nat \<Rightarrow> int option" where
  "strncasecmp s1 s2 n = (if n \<noteq> 0 then strncasecmp_loop s1 s2 n else Some 0)"

section \<open>Search for a character\<close>

fun strchr :: "u8 list \<Rightarrow> int \<Rightarrow> nat option option" where
  "strchr [] ch = None"
| "strchr (c # p) ch =
    (if uint c = ch then Some (Some 0)
     else if c = 0 then Some None
     else map_option (map_option Suc) (strchr p ch))"

definition index_chr :: "u8 list \<Rightarrow> int \<Rightarrow> nat option option" where
  "index_chr p ch = strchr p ch"

text \<open>\<open>i\<close> is the distance covered, \<open>save\<close> the last match.\<close>

fun strrchr_loop :: "u8 list \<Rightarrow> int \<Rightarrow> nat \<Rightarrow> nat option \<Rightarrow> nat option option" where
  "strrchr_loop [] ch i save = None"
| "strrchr_loop (c # p) ch i save =
    (let save' = (if uint c = ch then Some i else save)
     in if c = 0 then Some save' else strrchr_loop p ch (i + 1) save')"

definition strrchr :: "u8 list \<Rightarrow> int \<Rightarrow> nat option option" where
  "strrchr p ch = strrchr_loop p ch 0 None"

fun memchr :: "u8 list \<Rightarrow> int \<Rightarrow> nat \<Rightarrow> nat option option" where
  "memchr s c 0 = Some None"
| "memchr [] c (Suc n) = None"
| "memchr (b # s) c (Suc n) =
    (if uint b = c then Some (Some 0) else map_option (map_option Suc) (memchr s c n))"

text \<open>The pointer \<open>q\<close> runs down from \<open>n\<close>.\<close>

fun memrchr :: "u8 list \<Rightarrow> int \<Rightarrow> nat \<Rightarrow> nat option option" where
  "memrchr s c 0 = Some None"
| "memrchr s c (Suc q) =
    (case rd s q of None \<Rightarrow> None | Some b \<Rightarrow> if uint b = c then Some (Some q) else memrchr s c q)"

definition strnlen :: "u8 list \<Rightarrow> nat \<Rightarrow> nat option" where
  "strnlen str maxlen =
    (case memchr str 0 maxlen of None \<Rightarrow> None | Some None \<Rightarrow> Some maxlen | Some (Some p) \<Rightarrow> Some p)"

section \<open>Search for a character of a set\<close>

text \<open>
  \<open>for (spanp = s2; (sc = *spanp++) != 0;) if (sc == c)\<close>: whether the character is one of the set.
\<close>

fun in_span :: "u8 \<Rightarrow> u8 list \<Rightarrow> bool option" where
  "in_span c [] = None"
| "in_span c (sc # spanp) = (if sc = 0 then Some False else if sc = c then Some True else in_span c spanp)"

text \<open>\<open>do { if ((sc = *spanp++) == c) ... } while (sc != 0)\<close>: the final NUL is one of the set.\<close>

fun in_span0 :: "u8 \<Rightarrow> u8 list \<Rightarrow> bool option" where
  "in_span0 c [] = None"
| "in_span0 c (sc # spanp) = (if sc = c then Some True else if sc = 0 then Some False else in_span0 c spanp)"

fun strspn :: "u8 list \<Rightarrow> u8 list \<Rightarrow> nat option" where
  "strspn [] s2 = None"
| "strspn (c # p) s2 =
    (case in_span c s2 of
      None \<Rightarrow> None
    | Some True \<Rightarrow> map_option Suc (strspn p s2)
    | Some False \<Rightarrow> Some 0)"

fun strcspn :: "u8 list \<Rightarrow> u8 list \<Rightarrow> nat option" where
  "strcspn [] s2 = None"
| "strcspn (c # p) s2 =
    (case in_span0 c s2 of
      None \<Rightarrow> None
    | Some True \<Rightarrow> Some 0
    | Some False \<Rightarrow> map_option Suc (strcspn p s2))"

fun strpbrk :: "u8 list \<Rightarrow> u8 list \<Rightarrow> nat option option" where
  "strpbrk [] s2 = None"
| "strpbrk (c # s1) s2 =
    (if c = 0 then Some None
     else
       (case in_span c s2 of
         None \<Rightarrow> None
       | Some True \<Rightarrow> Some (Some 0)
       | Some False \<Rightarrow> map_option (map_option Suc) (strpbrk s1 s2)))"

section \<open>Search for a string\<close>

text \<open>The loops of \<open>strstr\<close>; \<open>c\<close> is the first character sought, \<open>fnd\<close> and \<open>len\<close> the others.\<close>

fun strstr_loop :: "u8 list \<Rightarrow> u8 \<Rightarrow> u8 list \<Rightarrow> nat \<Rightarrow> nat option option" where
  "strstr_loop [] c fnd len = None"
| "strstr_loop (sc # s) c fnd len =
    (if sc = 0 then Some None
     else if sc \<noteq> c then map_option (map_option Suc) (strstr_loop s c fnd len)
     else
       (case strncmp s fnd len of
         None \<Rightarrow> None
       | Some d \<Rightarrow> if d \<noteq> 0 then map_option (map_option Suc) (strstr_loop s c fnd len) else Some (Some 0)))"

definition strstr :: "u8 list \<Rightarrow> u8 list \<Rightarrow> nat option option" where
  "strstr s fnd =
    (case fnd of
      [] \<Rightarrow> None
    | c # fnd1 \<Rightarrow>
      if c \<noteq> 0 then (case strlen fnd1 of None \<Rightarrow> None | Some len \<Rightarrow> strstr_loop s c fnd1 len)
      else Some (Some 0))"

fun strcasestr_loop :: "u8 list \<Rightarrow> int \<Rightarrow> u8 list \<Rightarrow> nat \<Rightarrow> nat option option" where
  "strcasestr_loop [] c fnd len = None"
| "strcasestr_loop (sc # s) c fnd len =
    (if sc = 0 then Some None
     else if tolower (uint sc) \<noteq> c then map_option (map_option Suc) (strcasestr_loop s c fnd len)
     else
       (case strncasecmp s fnd len of
         None \<Rightarrow> None
       | Some d \<Rightarrow> if d \<noteq> 0 then map_option (map_option Suc) (strcasestr_loop s c fnd len) else Some (Some 0)))"

definition strcasestr :: "u8 list \<Rightarrow> u8 list \<Rightarrow> nat option option" where
  "strcasestr s fnd =
    (case fnd of
      [] \<Rightarrow> None
    | c # fnd1 \<Rightarrow>
      if c \<noteq> 0 then
        (case strlen fnd1 of None \<Rightarrow> None | Some len \<Rightarrow> strcasestr_loop s (tolower (uint c)) fnd1 len)
      else Some (Some 0))"

text \<open>
  The loop of \<open>memmem\<close>, for a needle \<open>x\<close> of length \<open>m\<close>, at least 2; \<open>eq\<close> tells whether \<open>x[0] == x[1]\<close>, which
  sets \<open>k\<close> and \<open>l\<close>.
\<close>

function memmem_loop :: "u8 list \<Rightarrow> nat \<Rightarrow> u8 list \<Rightarrow> nat \<Rightarrow> bool \<Rightarrow> nat \<Rightarrow> nat option option" where
  "memmem_loop y n x m eq j =
    (if j \<le> n - m then
       (case (rd x 1, rd y (j + 1)) of
         (Some x1, Some y1) \<Rightarrow>
           if x1 \<noteq> y1 then memmem_loop y n x m eq (j + (if eq then 2 else 1))
           else
             (case (memcmp (drop 2 x) (drop (j + 2) y) (m - 2), rd x 0, rd y j) of
               (Some d, Some x0, Some y0) \<Rightarrow>
                 if d = 0 \<and> x0 = y0 then Some (Some j) else memmem_loop y n x m eq (j + (if eq then 1 else 2))
             | _ \<Rightarrow> None)
       | _ \<Rightarrow> None)
     else Some None)"
  by pat_completeness auto
termination
  by (relation "measure (\<lambda>(y, n, x, m, eq, j). n + 1 - j)") auto

declare memmem_loop.simps [simp del]

definition memmem :: "u8 list \<Rightarrow> nat \<Rightarrow> u8 list \<Rightarrow> nat \<Rightarrow> nat option option" where
  "memmem haystack n needle m =
    (if m > n \<or> m = 0 \<or> n = 0 then Some None
     else if m > 1 then
       (case (rd needle 0, rd needle 1) of
         (Some x0, Some x1) \<Rightarrow> memmem_loop haystack n needle m (x0 = x1) 0
       | _ \<Rightarrow> None)
     else (case rd needle 0 of None \<Rightarrow> None | Some x0 \<Rightarrow> memchr haystack (uint x0) n))"

section \<open>Comparison functions\<close>

text \<open>
  What sorting and searching ask of a comparison function on the objects of \<open>A\<close>: the sign of the result
  is that of a total preorder.
\<close>

locale comparison =
  fixes cmp :: "'a \<Rightarrow> 'a \<Rightarrow> int" and A :: "'a set"
  assumes anti: "x \<in> A \<Longrightarrow> y \<in> A \<Longrightarrow> cmp x y < 0 \<longleftrightarrow> 0 < cmp y x"
    and trans: "x \<in> A \<Longrightarrow> y \<in> A \<Longrightarrow> z \<in> A \<Longrightarrow> cmp x y \<le> 0 \<Longrightarrow> cmp y z \<le> 0 \<Longrightarrow> cmp x z \<le> 0"
begin

lemma cmp_refl: "x \<in> A \<Longrightarrow> cmp x x = 0"
  using anti[of x x] by linarith

lemma le_iff: "x \<in> A \<Longrightarrow> y \<in> A \<Longrightarrow> cmp x y \<le> 0 \<longleftrightarrow> 0 \<le> cmp y x"
  using anti[of y x] by linarith

lemma eq_iff: "x \<in> A \<Longrightarrow> y \<in> A \<Longrightarrow> cmp x y = 0 \<longleftrightarrow> cmp y x = 0"
  using anti[of y x] anti[of x y] by linarith

text \<open>A function that compares keys of its arguments.\<close>

lemma by_key:
  assumes "\<And>x. x \<in> B \<Longrightarrow> k x \<in> A" "\<And>x y. x \<in> B \<Longrightarrow> y \<in> B \<Longrightarrow> f x y = cmp (k x) (k y)"
  shows "comparison f B"
  using assms by unfold_locales (auto simp: anti intro: trans)

end

text \<open>
  The difference of the first two elements that differ under \<open>f\<close>; a proper prefix comes first.
\<close>

fun lexdiff :: "('a \<Rightarrow> int) \<Rightarrow> 'a list \<Rightarrow> 'a list \<Rightarrow> int" where
  "lexdiff f [] [] = 0"
| "lexdiff f [] (b # y) = - 1"
| "lexdiff f (a # x) [] = 1"
| "lexdiff f (a # x) (b # y) = (if f a = f b then lexdiff f x y else f a - f b)"

lemma lexdiff_anti: "lexdiff f y x = - lexdiff f x y"
  by (induction f x y rule: lexdiff.induct) auto

lemma lexdiff_trans: "lexdiff f x y \<le> 0 \<Longrightarrow> lexdiff f y z \<le> 0 \<Longrightarrow> lexdiff f x z \<le> 0"
proof (induction f x y arbitrary: z rule: lexdiff.induct)
  case (4 f a x b y)
  then show ?case
    by (cases z) (auto split: if_splits)
qed (case_tac z; simp)+

lemma lexdiff_zero: "lexdiff f x y = 0 \<longleftrightarrow> map f x = map f y"
  by (induction f x y rule: lexdiff.induct) auto

lemma lexdiff_less: "lexdiff f x y < 0 \<longleftrightarrow> 0 < lexdiff f y x"
  using lexdiff_anti[of f x y] by linarith

interpretation lex: comparison "lexdiff f" UNIV
  by unfold_locales (auto simp: lexdiff_less intro: lexdiff_trans)

section \<open>Strings\<close>

text \<open>The string at a pointer, with its final NUL.\<close>

definition cstr :: "u8 list \<Rightarrow> u8 list" where
  "cstr s = takeWhile (\<lambda>c. c \<noteq> 0) s @ [0]"

lemma cstr_Cons [simp]: "cstr (c # s) = (if c = 0 then [0] else c # cstr s)"
  by (simp add: cstr_def)

lemma cstr_string [simp]: "0 \<notin> set x \<Longrightarrow> cstr (x @ 0 # r) = x @ [0]"
  by (induction x) auto

lemma uint_eq_iff [simp]: "uint a = uint b \<longleftrightarrow> a = b" "uint a = 0 \<longleftrightarrow> a = 0" for a b :: u8
  by (simp_all add: word_uint_eq_iff)

lemma strlen_cstr: "0 \<in> set s \<Longrightarrow> strlen s = Some (length (cstr s) - 1)"
  by (induction s) (auto simp: cstr_def)

lemma strlen_string [simp]: "0 \<notin> set x \<Longrightarrow> strlen (x @ 0 # r) = Some (length x)"
  by (simp add: strlen_cstr)

lemma strcmp_lex: "0 \<in> set x \<Longrightarrow> 0 \<in> set y \<Longrightarrow> strcmp x y = Some (lexdiff uint (cstr x) (cstr y))"
  by (induction x y rule: strcmp.induct) auto

lemma charmap_tolower: "cm c = tolower (uint c)" "cm c = 0 \<longleftrightarrow> c = 0"
proof -
  obtain k where k: "unat c = k" "uint c = int k" "k < 256"
    using unsigned_less[of c, where 'a = nat] by simp
  then have "charmap ! unat c = of_nat (if 65 \<le> k \<and> k \<le> 90 then k + 32 else k)"
    by (auto simp: charmap_def nth_append simp del: upt_rec_numeral)
  moreover have t: "tolower (uint c) = int (if 65 \<le> k \<and> k \<le> 90 then k + 32 else k)"
    using tolower_eq[of "uint c"] k by auto
  ultimately show e: "cm c = tolower (uint c)"
    using k(3) by (simp add: unsigned_of_nat take_bit_nat_eq_self)
  show "cm c = 0 \<longleftrightarrow> c = 0"
    unfolding e t using k by (auto simp: unat_eq_0[symmetric])
qed

lemma strcasecmp_lex:
  "0 \<in> set x \<Longrightarrow> 0 \<in> set y \<Longrightarrow> strcasecmp x y = Some (lexdiff (\<lambda>c. cm c) (cstr x) (cstr y))"
proof (induction x y rule: strcasecmp.induct)
  case (1 a x b y)
  then show ?case
    using charmap_tolower(2)[of a] charmap_tolower(2)[of b] by auto
qed auto

lemma memcmp_loop_nz: "d \<noteq> 0 \<Longrightarrow> memcmp_loop s t n d = Some d"
  by (simp add: memcmp_loop.simps)

lemma memcmp_loop_lex:
  "n \<le> length x \<Longrightarrow> n \<le> length y \<Longrightarrow> memcmp_loop x y n 0 = Some (lexdiff uint (take n x) (take n y))"
proof (induction n arbitrary: x y)
  case 0
  then show ?case by (simp add: memcmp_loop.simps)
next
  case (Suc n)
  then obtain a x' b y' where "x = a # x'" "y = b # y'"
    by (metis Suc_le_length_iff)
  then show ?case
    using Suc by (subst memcmp_loop.simps) (auto simp: memcmp_loop_nz)
qed

lemma memcmp_lex:
  "n \<le> length x \<Longrightarrow> n \<le> length y \<Longrightarrow> memcmp x y n = Some (lexdiff uint (take n x) (take n y))"
  by (simp add: memcmp_def memcmp_loop_lex)

lemma memcmp_zero:
  "n \<le> length x \<Longrightarrow> n \<le> length y \<Longrightarrow> \<exists>d. memcmp x y n = Some d \<and> (d = 0 \<longleftrightarrow> take n x = take n y)"
  by (simp add: memcmp_lex lexdiff_zero inj_map_eq_map[of uint] inj_def)

interpretation strcmp: comparison "\<lambda>x y. the (strcmp x y)" "{x. 0 \<in> set x}"
  by (rule lex.by_key[of _ cstr _ uint]) (auto simp: strcmp_lex)

interpretation strcasecmp: comparison "\<lambda>x y. the (strcasecmp x y)" "{x. 0 \<in> set x}"
  by (rule lex.by_key[of _ cstr _ "\<lambda>c. cm c"]) (auto simp: strcasecmp_lex)

interpretation memcmp: comparison "\<lambda>x y. the (memcmp x y n)" "{x. n \<le> length x}"
  by (rule lex.by_key[of _ "take n" _ uint]) (auto simp: memcmp_lex)

section \<open>Occurrences\<close>

definition occurs_at :: "'a list \<Rightarrow> 'a list \<Rightarrow> nat \<Rightarrow> bool" where
  "occurs_at y x i \<longleftrightarrow> i + length y \<le> length x \<and> take (length y) (drop i x) = y"

text \<open>\<open>r\<close> is the position of the first occurrence of \<open>y\<close> in \<open>x\<close>, or \<open>None\<close> when there is none.\<close>

definition first_at :: "'a list \<Rightarrow> 'a list \<Rightarrow> nat option \<Rightarrow> bool" where
  "first_at y x r \<longleftrightarrow>
    (case r of None \<Rightarrow> \<forall>i. \<not> occurs_at y x i | Some i \<Rightarrow> occurs_at y x i \<and> (\<forall>j < i. \<not> occurs_at y x j))"

lemma occurs_at_simps [simp]:
  "occurs_at [] x i \<longleftrightarrow> i \<le> length x" "occurs_at y (a # x) (Suc i) \<longleftrightarrow> occurs_at y x i"
  "occurs_at (b # y) [] i \<longleftrightarrow> False" "occurs_at (b # y) (a # x) 0 \<longleftrightarrow> a = b \<and> occurs_at y x 0"
  by (auto simp: occurs_at_def)

lemma first_at_now: "occurs_at y x 0 \<Longrightarrow> first_at y x (Some 0)"
  by (simp add: first_at_def)

lemma first_at_later: "\<not> occurs_at y (a # x) 0 \<Longrightarrow> first_at y x r \<Longrightarrow> first_at y (a # x) (map_option Suc r)"
proof -
  assume "\<not> occurs_at y (a # x) 0" "first_at y x r"
  then have "\<not> occurs_at y (a # x) i" if "\<And>j. i = Suc j \<Longrightarrow> \<not> occurs_at y x j" for i
    using that by (cases i) auto
  with \<open>first_at y x r\<close> show ?thesis
    by (auto simp: first_at_def split: option.splits)
qed

lemma first_at_end: "y \<noteq> [] \<Longrightarrow> first_at y [] None"
  by (cases y) (simp_all add: first_at_def)

lemma strncmp_prefix:
  "0 \<notin> set x \<Longrightarrow> 0 \<notin> set y \<Longrightarrow>
    \<exists>d. strncmp (x @ 0 # p) (y @ q) (length y) = Some d \<and> (d = 0 \<longleftrightarrow> occurs_at y x 0)"
proof (induction y arbitrary: x)
  case (Cons b y)
  then show ?case
    by (cases x; cases y) (auto simp: strncmp_def)
qed (simp add: strncmp_def)

lemma strncasecmp_prefix:
  "0 \<notin> set x \<Longrightarrow> 0 \<notin> set y \<Longrightarrow>
    \<exists>d. strncasecmp (x @ 0 # p) (y @ q) (length y) = Some d \<and>
      (d = 0 \<longleftrightarrow> occurs_at (map (\<lambda>c. cm c) y) (map (\<lambda>c. cm c) x) 0)"
proof (induction y arbitrary: x)
  case (Cons b y)
  have z: "cm b \<noteq> cm 0" "cm 0 \<noteq> cm b"
    using Cons.prems(2) charmap_tolower(2)[of b] charmap_tolower(2)[of 0] by auto
  show ?case
    using Cons z by (cases x; cases y) (auto simp: strncasecmp_def)
qed (simp add: strncasecmp_def)

lemma strstr_loop_first:
  "0 \<notin> set x \<Longrightarrow> 0 \<notin> set (c # y) \<Longrightarrow>
    \<exists>r. strstr_loop (x @ 0 # p) c (y @ q) (length y) = Some r \<and> first_at (c # y) x r"
proof (induction x)
  case (Cons a x)
  then obtain r where r: "strstr_loop (x @ 0 # p) c (y @ q) (length y) = Some r" "first_at (c # y) x r"
    by auto
  obtain d where "strncmp (x @ 0 # p) (y @ q) (length y) = Some d" "d = 0 \<longleftrightarrow> occurs_at y x 0"
    using strncmp_prefix[of x y p q] Cons.prems by auto
  then show ?case
    using r Cons.prems by (auto intro: first_at_now first_at_later)
qed (simp add: first_at_end)

lemma strcasestr_loop_first:
  "0 \<notin> set x \<Longrightarrow> 0 \<notin> set (c # y) \<Longrightarrow>
    \<exists>r. strcasestr_loop (x @ 0 # p) (tolower (uint c)) (y @ q) (length y) = Some r \<and>
      first_at (map (\<lambda>c. cm c) (c # y)) (map (\<lambda>c. cm c) x) r"
proof (induction x)
  case (Cons a x)
  then obtain r where r: "strcasestr_loop (x @ 0 # p) (tolower (uint c)) (y @ q) (length y) = Some r"
    "first_at (map (\<lambda>c. cm c) (c # y)) (map (\<lambda>c. cm c) x) r"
    by auto
  obtain d where d: "strncasecmp (x @ 0 # p) (y @ q) (length y) = Some d"
    "d = 0 \<longleftrightarrow> occurs_at (map (\<lambda>c. cm c) y) (map (\<lambda>c. cm c) x) 0"
    using strncasecmp_prefix[of x y p q] Cons.prems by auto
  have "tolower (uint a) = tolower (uint c) \<longleftrightarrow> cm a = cm c"
    by (simp only: charmap_tolower(1))
  then show ?case
    using r d Cons.prems by (auto intro: first_at_now first_at_later)
qed (simp add: first_at_end)

lemma strcmp_lexordp:
  "0 \<notin> set x \<Longrightarrow> 0 \<notin> set y \<Longrightarrow> lexdiff uint (x @ [0]) (y @ [0]) < 0 \<longleftrightarrow> ord_class.lexordp x y" for x y :: "u8 list"
proof (induction "uint :: u8 \<Rightarrow> int" x y rule: lexdiff.induct)
  case (2 b y)
  then show ?case
    using uint_ge_0[of b] by (auto simp: less_le)
next
  case (3 a x)
  then show ?case
    using uint_ge_0[of a] by auto
next
  case (4 a x b y)
  have "a = b \<or> uint a < uint b \<or> uint b < uint a"
    by (metis linorder_neqE uint_eq_iff(1))
  with 4 show ?case
    by (auto simp: word_less_def)
qed simp

lemma strncmp_trunc:
  "0 \<notin> set x \<Longrightarrow> 0 \<notin> set y \<Longrightarrow> strncmp (x @ 0 # p) (y @ 0 # q) n = strcmp (take n x @ [0]) (take n y @ [0])"
proof (induction n arbitrary: x y)
  case (Suc n)
  then show ?case
    by (cases n; cases x; cases y) (auto simp: strncmp_def)
qed (simp add: strncmp_def)

definition low :: "u8 \<Rightarrow> u8" where
  "low c = of_int (tolower (uint c))"

lemma cm_low: "cm c = uint (low c)" "low c = 0 \<longleftrightarrow> c = 0"
proof -
  have "cm c = uint (of_int (cm c) :: u8)"
    by simp
  then show e: "cm c = uint (low c)"
    by (simp only: low_def charmap_tolower(1))
  show "low c = 0 \<longleftrightarrow> c = 0"
    using charmap_tolower(2)[of c] unfolding e by simp
qed

lemma strcasecmp_low:
  "0 \<notin> set x \<Longrightarrow> 0 \<notin> set y \<Longrightarrow>
    strcasecmp (x @ 0 # p) (y @ 0 # q) = strcmp (map low x @ [0]) (map low y @ [0])"
proof (induction x arbitrary: y)
  case Nil
  have "charmap ! 0 = 0"
    using charmap_tolower(2)[of 0] by simp
  with Nil show ?case
    by (cases y) (auto simp: cm_low)
next
  case (Cons a x)
  have "charmap ! 0 = 0"
    using charmap_tolower(2)[of 0] by simp
  with Cons show ?case
    by (cases y) (auto simp: cm_low)
qed

section \<open>Properties\<close>

text \<open>
  What the comparison functions compute: on any two strings \<open>strcmp\<close> returns 0 exactly for equal strings and
  a negative number exactly when the first comes first in the lexicographic order of unsigned bytes;
  \<open>strncmp\<close> is \<open>strcmp\<close> on the first \<open>n\<close> characters; \<open>strcasecmp\<close> is \<open>strcmp\<close> on the strings with every
  character mapped by \<open>tolower\<close>.
\<close>

theorem string_compare_exact:
  assumes "0 \<notin> set x" "0 \<notin> set y"
  shows "\<exists>d. strcmp (x @ 0 # p) (y @ 0 # q) = Some d \<and> (d = 0 \<longleftrightarrow> x = y) \<and> (d < 0 \<longleftrightarrow> ord_class.lexordp x y) \<and>
    strncmp (x @ 0 # p) (y @ 0 # q) n = strcmp (take n x @ [0]) (take n y @ [0]) \<and>
    strcasecmp (x @ 0 # p) (y @ 0 # q) = strcmp (map low x @ [0]) (map low y @ [0])"
proof (intro exI conjI)
  let ?d = "lexdiff uint (x @ [0]) (y @ [0])"
  show "strcmp (x @ 0 # p) (y @ 0 # q) = Some ?d"
    using strcmp_lex[of "x @ 0 # p" "y @ 0 # q"] assms by simp
  show "?d = 0 \<longleftrightarrow> x = y"
    by (simp add: lexdiff_zero inj_map_eq_map[of uint] inj_def)
  show "?d < 0 \<longleftrightarrow> ord_class.lexordp x y"
    using strcmp_lexordp[OF assms] .
qed (use assms in \<open>simp_all add: strncmp_trunc strcasecmp_low\<close>)

theorem string_compare_exact_witness:
  "\<exists>d. strcmp [97, 66, 0, 7] [97, 98, 0] = Some d \<and> d < 0 \<and> strncmp [97, 66, 0, 7] [97, 98, 0] 1 = Some 0 \<and>
    strcasecmp [97, 66, 0, 7] [97, 98, 0] = Some 0"
proof -
  have e: "strcmp (take 1 [97, 66] @ [0]) (take 1 [97, 98] @ [0]) = Some 0"
    "strcmp (map low [97, 66] @ [0]) (map low [97, 98] @ [0]) = Some 0"
    by code_simp+
  have "ord_class.lexordp [97, 66 :: u8] [97, 98]"
    by simp
  with string_compare_exact[of "[97, 66]" "[97, 98]" "[7]" "[]" 1] show ?thesis
    unfolding e by auto
qed

text \<open>
  \<open>strstr\<close> and \<open>strcasestr\<close> find the first occurrence: for any two strings they return, without reading
  past the final NULs, the position of the first occurrence of the second string in the first, or null
  when there is none; \<open>strcasestr\<close> up to the case of letters as \<open>tolower\<close> has it.
\<close>

theorem strstr_exact:
  assumes "0 \<notin> set x" "0 \<notin> set y"
  shows "\<exists>r r'. strstr (x @ 0 # p) (y @ 0 # q) = Some r \<and> first_at y x r \<and>
    strcasestr (x @ 0 # p) (y @ 0 # q) = Some r' \<and>
    first_at (map (\<lambda>c. tolower (uint c)) y) (map (\<lambda>c. tolower (uint c)) x) r'"
proof (cases y)
  case Nil
  then show ?thesis
    by (simp add: strstr_def strcasestr_def first_at_def)
next
  case (Cons c y')
  have "\<exists>r'. strcasestr (x @ 0 # p) (y @ 0 # q) = Some r' \<and> first_at (map (\<lambda>c. cm c) y) (map (\<lambda>c. cm c) x) r'"
    using assms strcasestr_loop_first[of x c y' p "0 # q"] by (auto simp: strcasestr_def Cons)
  moreover have "\<exists>r. strstr (x @ 0 # p) (y @ 0 # q) = Some r \<and> first_at y x r"
    using assms strstr_loop_first[of x c y' p "0 # q"] by (auto simp: strstr_def Cons)
  ultimately show ?thesis
    unfolding charmap_tolower(1) by blast
qed

theorem strstr_exact_witness:
  "\<exists>r r'. strstr [65, 98, 97, 98, 0] [97, 98, 0] = Some r \<and> first_at [97, 98 :: u8] [65, 98, 97, 98] r \<and>
    strcasestr [65, 98, 97, 98, 0] [97, 98, 0] = Some r' \<and> r = Some 2 \<and> r' = Some 0"
proof -
  have "strstr [65, 98, 97, 98, 0] [97, 98, 0] = Some (Some 2)" "strcasestr [65, 98, 97, 98, 0] [97, 98, 0] = Some (Some 0)"
    by code_simp+
  with strstr_exact[of "[65, 98, 97, 98]" "[97, 98]" "[]" "[]"] show ?thesis
    by simp
qed

lemma occurs_at_two:
  assumes "2 \<le> length y"
  shows "occurs_at y x i \<longleftrightarrow> i + length y \<le> length x \<and> x ! i = y ! 0 \<and> x ! (i + 1) = y ! 1 \<and>
    take (length y - 2) (drop (i + 2) x) = drop 2 y"
proof -
  obtain a b y' where y: "y = a # b # y'"
    using assms by (metis One_nat_def Suc_1 Suc_le_length_iff)
  show ?thesis
  proof (cases "i + length y \<le> length x")
    case True
    then have "drop i x = x ! i # x ! (i + 1) # drop (i + 2) x"
      by (simp add: y Cons_nth_drop_Suc)
    then show ?thesis
      using True by (simp add: occurs_at_def y)
  qed (simp add: occurs_at_def)
qed

text \<open>What the loop of \<open>memmem\<close> returns from the position \<open>j\<close> on.\<close>

lemma memmem_loop_first:
  fixes x y :: "u8 list"
  assumes "2 \<le> length y" "length y \<le> length x" "eq \<longleftrightarrow> y ! 0 = y ! 1"
  shows "\<exists>r. memmem_loop (x @ p) (length x) (y @ q) (length y) eq j = Some r \<and>
    (case r of None \<Rightarrow> \<forall>i \<ge> j. \<not> occurs_at y x i
     | Some i \<Rightarrow> j \<le> i \<and> occurs_at y x i \<and> (\<forall>k. j \<le> k \<and> k < i \<longrightarrow> \<not> occurs_at y x k))"
proof (induction "length x + 1 - j" arbitrary: j rule: less_induct)
  case less
  let ?L = "memmem_loop (x @ p) (length x) (y @ q) (length y) eq"
  show ?case
  proof (cases "j \<le> length x - length y")
    case True
    have IH: "\<exists>r. ?L j = Some r \<and>
        (case r of None \<Rightarrow> \<forall>i \<ge> j. \<not> occurs_at y x i
         | Some i \<Rightarrow> j \<le> i \<and> occurs_at y x i \<and> (\<forall>k. j \<le> k \<and> k < i \<longrightarrow> \<not> occurs_at y x k))"
      if "?L j = ?L (j + m)" "0 < m" "\<And>k. j \<le> k \<Longrightarrow> k < j + m \<Longrightarrow> \<not> occurs_at y x k" for m
    proof -
      note h = that
      have "length x + 1 - (j + m) < length x + 1 - j"
        using True assms(2) h(2) by linarith
      from less[OF this] obtain r where r: "?L (j + m) = Some r"
        "case r of None \<Rightarrow> \<forall>i \<ge> j + m. \<not> occurs_at y x i
         | Some i \<Rightarrow> j + m \<le> i \<and> occurs_at y x i \<and> (\<forall>k. j + m \<le> k \<and> k < i \<longrightarrow> \<not> occurs_at y x k)"
        by blast
      show ?thesis
        using r h by (auto split: option.splits) (metis leI)+
    qed
    have b: "j + 1 < length x" "rd (y @ q) 1 = Some (y ! 1)" "rd (y @ q) 0 = Some (y ! 0)"
      "rd (x @ p) (j + 1) = Some (x ! (j + 1))" "rd (x @ p) j = Some (x ! j)"
      using True assms(1,2) by (auto simp: rd_def nth_append)
    have "length y - 2 \<le> length (drop 2 (y @ q))" "length y - 2 \<le> length (drop (j + 2) (x @ p))"
      using True assms(1,2) by auto
    from memcmp_zero[OF this] obtain d where d: "memcmp (drop 2 (y @ q)) (drop (j + 2) (x @ p)) (length y - 2) = Some d"
      "d = 0 \<longleftrightarrow> take (length y - 2) (drop 2 (y @ q)) = take (length y - 2) (drop (j + 2) (x @ p))"
      by blast
    have t: "take (length y - 2) (drop 2 (y @ q)) = drop 2 y"
      "take (length y - 2) (drop (j + 2) (x @ p)) = take (length y - 2) (drop (j + 2) x)"
      using True assms(1,2) by simp_all
    note d2 = d(2)[unfolded t]
    note occ = occurs_at_two[OF assms(1), of x]
    consider "y ! 1 \<noteq> x ! (j + 1)" | "y ! 1 = x ! (j + 1)" "d = 0" "y ! 0 = x ! j"
      | "y ! 1 = x ! (j + 1)" "\<not> (d = 0 \<and> y ! 0 = x ! j)"
      by blast
    then show ?thesis
    proof cases
      case 1
      show ?thesis
      proof (rule IH)
        show "?L j = ?L (j + (if eq then 2 else 1))"
          using 1 True b by (subst memmem_loop.simps) simp
        fix k assume "j \<le> k" "k < j + (if eq then 2 else 1)"
        then have "k = j \<or> k = j + 1 \<and> eq"
          by (auto split: if_splits)
        then show "\<not> occurs_at y x k"
          using 1 assms(3) by (auto simp: occ)
      qed simp
    next
      case 2
      then have "?L j = Some (Some j)"
        using True b d(1) by (subst memmem_loop.simps) simp
      moreover have "occurs_at y x j"
        using 2 d2 True assms(2) by (auto simp: occ)
      ultimately show ?thesis
        by auto
    next
      case 3
      show ?thesis
      proof (rule IH)
        show "?L j = ?L (j + (if eq then 1 else 2))"
          using 3 True b d(1) by (subst memmem_loop.simps) auto
        fix k assume "j \<le> k" "k < j + (if eq then 1 else 2)"
        then have "k = j \<or> k = j + 1 \<and> \<not> eq"
          by (auto split: if_splits)
        then show "\<not> occurs_at y x k"
          using 3 d2 assms(3) by (auto simp: occ)
      qed simp
    qed
  next
    case False
    then have "\<not> occurs_at y x i" if "j \<le> i" for i
      using that assms(2) by (auto simp: occurs_at_def)
    then show ?thesis
      using False by (subst memmem_loop.simps) simp
  qed
qed

lemma memchr_first:
  "n \<le> length s \<Longrightarrow> \<exists>r. memchr s c n = Some r \<and> first_at [c] (map uint (take n s)) r"
proof (induction s c n rule: memchr.induct)
  case (3 b s c n)
  then show ?case
    using first_at_later[of "[c]" "uint b"] by (auto intro: first_at_now)
qed (simp_all add: first_at_end)

text \<open>
  \<open>memmem\<close> skips ahead by two positions where its first two bytes tell that the next one cannot match, and
  still finds the first occurrence: for every needle but the empty one the result is the position of the
  first occurrence in the haystack, and no byte outside of the two is read.
\<close>

theorem memmem_exact:
  fixes x y p q :: "u8 list"
  assumes "y \<noteq> []"
  shows "\<exists>r. memmem (x @ p) (length x) (y @ q) (length y) = Some r \<and> first_at y x r"
proof -
  consider "length y > length x" | "length y \<le> length x" "2 \<le> length y" | c where "length y \<le> length x" "y = [c]"
    using assms by (metis One_nat_def Suc_1 Suc_leI length_0_conv length_Suc_conv less_2_cases not_less)
  then show ?thesis
  proof cases
    case 1
    then show ?thesis
      by (simp add: memmem_def first_at_def occurs_at_def)
  next
    case 2
    then have "memmem (x @ p) (length x) (y @ q) (length y) = memmem_loop (x @ p) (length x) (y @ q) (length y) (y ! 0 = y ! 1) 0"
      by (auto simp: memmem_def rd_def nth_append)
    then show ?thesis
      using memmem_loop_first[OF 2(2,1) refl, of p q 0] by (auto simp: first_at_def split: option.splits)
  next
    case 3
    then have m: "memmem (x @ p) (length x) (y @ q) (length y) = memchr (x @ p) (uint c) (length x)"
      by (auto simp: memmem_def rd_def)
    have "occurs_at [uint c] (map uint x) i \<longleftrightarrow> occurs_at y x i" for i
      by (auto simp: occurs_at_def 3 take_map drop_map)
    then show ?thesis
      using memchr_first[of "length x" "x @ p" "uint c"] by (auto simp: m first_at_def split: option.splits)
  qed
qed

theorem memmem_exact_witness:
  "\<exists>r. memmem [97, 97, 98, 97, 98] 4 [97, 98] 2 = Some r \<and> first_at [97, 98 :: u8] [97, 97, 98, 97] r"
  using memmem_exact[of "[97, 98]" "[97, 97, 98, 97]" "[98]" "[]"] by (simp add: numeral_2_eq_2 numeral_eq_Suc)

end
