(* ===== verification/Ns_Pton.thy ===== *)
theory Ns_Pton
  imports Ns_Pack Ns_Parse Strto Cstring
begin

text \<open>
  From text to encoded names, \<open>netbsd/nameser/ns_name.c\<close>: \<open>ns_name_pton\<close> with \<open>encode_bitsring\<close>,
  \<open>ns_name_ntol\<close>, \<open>ns_name_compress\<close>, and \<open>dn_comp\<close> of \<open>netbsd/resolv/res_comp.c\<close>. The destination is the
  list of the bytes of the buffer; the results are as in the theory on expansion. The \<open>value\<close> of
  \<open>encode_bitsring\<close> is kept modulo 2 to the 32.
\<close>

section \<open>Bit strings\<close>

text \<open>The table \<open>digitvalue\<close>, for the characters it is used on.\<close>

definition digitvalue :: "u8 \<Rightarrow> u32" where
  "digitvalue c =
    (if 48 \<le> c \<and> c \<le> 57 then ucast c - 48
     else if 65 \<le> c \<and> c \<le> 70 then ucast c - 55
     else if 97 \<le> c \<and> c \<le> 102 then ucast c - 87
     else - 1)"

text \<open>
  The loop of \<open>encode_bitsring\<close>; the result is \<open>cp\<close>, \<open>tp\<close>, the buffer, \<open>blen\<close>, \<open>value\<close> and \<open>tbcount\<close>.
\<close>

function bits_loop ::
  "u8 list \<Rightarrow> nat \<Rightarrow> nat \<Rightarrow> u8 list \<Rightarrow> nat \<Rightarrow> bool \<Rightarrow> nat option \<Rightarrow> u32 \<Rightarrow> nat \<Rightarrow> nat
    \<Rightarrow> (nat \<times> nat \<times> u8 list \<times> int \<times> u32 \<times> nat) res" where
  "bits_loop src end cp dst tp afterslash beg_blen value count tbcount =
    (if cp < end \<and> tp < length dst then
       (case rd src cp of
         None \<Rightarrow> None
       | Some c \<Rightarrow>
         if c = 0x5D then
           (case (if afterslash then
                    (case beg_blen of
                      None \<Rightarrow> Some (Inl EINVAL)
                    | Some b \<Rightarrow>
                      (case strtol (drop b src) 10 of
                        None \<Rightarrow> None
                      | Some (blen, e, er) \<Rightarrow>
                        (case rd src (b + e) of
                          None \<Rightarrow> None
                        | Some x \<Rightarrow> if x \<noteq> 0x5D then Some (Inl EINVAL) else Some (Inr blen))))
                  else Some (Inr 0)) of
             None \<Rightarrow> None
           | Some (Inl e) \<Rightarrow> Some (Inl e)
           | Some (Inr blen) \<Rightarrow>
             if count \<noteq> 0 then
               (case wr dst tp (ucast (push_bit 4 value)) of
                 None \<Rightarrow> None
               | Some dst1 \<Rightarrow> Some (Inr (cp + 1, tp + 1, dst1, blen, value, tbcount)))
             else Some (Inr (cp + 1, tp, dst, blen, value, tbcount)))
         else if c = 0x2F then bits_loop src end (cp + 1) dst tp True beg_blen value count tbcount
         else if afterslash then
           if isdigit (uint c) = 0 then Some (Inl EINVAL)
           else if beg_blen = None then
             if c = 0x30 then Some (Inl EINVAL)
             else bits_loop src end (cp + 1) dst tp afterslash (Some cp) value count tbcount
           else bits_loop src end (cp + 1) dst tp afterslash beg_blen value count tbcount
         else if isxdigit (uint c) = 0 then Some (Inl EINVAL)
         else if tbcount + 4 > 256 then Some (Inl EINVAL)
         else if count + 4 = 8 then
           (case wr dst tp (ucast (push_bit 4 value + digitvalue c)) of
             None \<Rightarrow> None
           | Some dst1 \<Rightarrow>
             bits_loop src end (cp + 1) dst1 (tp + 1) afterslash beg_blen (push_bit 4 value + digitvalue c) 0 (tbcount + 4))
         else bits_loop src end (cp + 1) dst tp afterslash beg_blen (push_bit 4 value + digitvalue c) (count + 4) (tbcount + 4))
     else Some (Inr (cp, tp, dst, 0, value, tbcount)))"
  by pat_completeness auto
termination
  by (relation "measure (\<lambda>(src, end, cp, dst, tp, afterslash, beg_blen, value, count, tbcount). end - cp)") auto

declare bits_loop.simps [simp del]

text \<open>
  \<open>encode_bitsring\<close>: \<open>bp\<close> is the source position, \<open>label\<close> and \<open>dp\<close> are \<open>*labelp\<close> and \<open>*dst\<close>. The result is
  the new source position, the new destination position and the buffer.
\<close>

definition encode_bitsring ::
  "u8 list \<Rightarrow> nat \<Rightarrow> nat \<Rightarrow> nat \<Rightarrow> nat \<Rightarrow> u8 list \<Rightarrow> (nat \<times> nat \<times> u8 list) res" where
  "encode_bitsring src bp end label dp dst =
    (if end < bp + 2 then Some (Inl EINVAL)
     else
       (case rd src bp of
         None \<Rightarrow> None
       | Some c0 \<Rightarrow>
         if c0 \<noteq> 0x78 then Some (Inl EINVAL)
         else
           (case rd src (bp + 1) of
             None \<Rightarrow> None
           | Some c1 \<Rightarrow>
             if isxdigit (uint c1) = 0 then Some (Inl EINVAL)
             else
               (case bits_loop src end (bp + 1) dst (dp + 1) False None 0 0 0 of
                 None \<Rightarrow> None
               | Some (Inl e) \<Rightarrow> Some (Inl e)
               | Some (Inr (cp, tp, dst1, blen, value, tbcount)) \<Rightarrow>
                 if cp \<ge> end \<or> tp \<ge> length dst1 then Some (Inl EMSGSIZE)
                 else if blen > 0 \<and> blen + 3 > LONG_MAX then None
                 else if blen > 0 \<and> (blen + 3) AND NOT 3 \<noteq> int tbcount then Some (Inl EINVAL)
                 else if blen > 0 \<and> push_bit (nat (8 - (int tbcount - blen))) value AND 0xff \<noteq> 0
                 then Some (Inl EINVAL)
                 else
                   let blen1 = (if blen > 0 then blen else int tbcount);
                       blen2 = (if blen1 = 256 then 0 else blen1)
                   in (case wr dst1 label DNS_LABELTYPE_BITSTRING of
                        None \<Rightarrow> None
                      | Some dst2 \<Rightarrow>
                        (case wr dst2 dp (of_int blen2) of
                          None \<Rightarrow> None
                        | Some dst3 \<Rightarrow> Some (Inr (cp, tp, dst3))))))))"

lemma bits_loop_mono:
  "bits_loop src end cp dst tp a b v c t = Some (Inr (cp', r)) \<Longrightarrow> cp \<le> cp'"
proof (induction "end - cp" arbitrary: cp dst tp a b v c t rule: less_induct)
  case less
  have IH: "cp < cp'" if "bits_loop src end (Suc cp) dst1 tp1 a1 b1 v1 c1 t1 = Some (Inr (cp', r))" "cp < end"
    for dst1 tp1 a1 b1 v1 c1 t1
    using less.hyps[OF _ that(1)] that(2) by (simp add: diff_less_mono2 Suc_le_eq)
  show ?case
    using less.prems by (subst (asm) bits_loop.simps)
      (auto split: if_splits option.splits sum.splits dest!: IH)
qed

lemma encode_adv: "encode_bitsring src bp e l d dst = Some (Inr (cp, r)) \<Longrightarrow> bp < cp"
  by (auto simp: encode_bitsring_def Let_def split: if_splits option.splits sum.splits dest!: bits_loop_mono)

section \<open>ns_name_pton\<close>

text \<open>
  What a conversion returns: 1 for a fully qualified name and 0 otherwise, the buffer, and the number
  of bytes written to it.
\<close>

type_synonym pton_out = "(int \<times> u8 list \<times> nat) res"

text \<open>From the label \<open>done\<close> on; \<open>c\<close> is the length of the last label.\<close>

definition pton_done :: "nat \<Rightarrow> u8 list \<Rightarrow> nat \<Rightarrow> nat \<Rightarrow> pton_out" where
  "pton_done c dst label bp =
    (if label \<ge> length dst then Some (Inl EMSGSIZE)
     else
       let dst1 = dst[label := of_nat c] in
       if c \<noteq> 0 \<and> bp \<ge> length dst then Some (Inl EMSGSIZE)
       else
         let (dst2, bp2) = (if c \<noteq> 0 then (dst1[bp := 0], bp + 1) else (dst1, bp)) in
         if bp2 > NS_MAXCDNAME then Some (Inl EMSGSIZE) else Some (Inr (0, dst2, bp2)))"

definition dec_digit :: "u8 \<Rightarrow> nat option" where
  "dec_digit c = (if 48 \<le> c \<and> c \<le> 57 then Some (unat c - 48) else None)"

text \<open>The two digits after the first of an escape \<open>\DDD\<close>; \<open>n\<close> is the value of the first.\<close>

definition read_ddd :: "u8 list \<Rightarrow> nat \<Rightarrow> nat \<Rightarrow> u8 res" where
  "read_ddd src sp n =
    (case rd src sp of
      None \<Rightarrow> None
    | Some c1 \<Rightarrow>
      (case dec_digit c1 of
        None \<Rightarrow> Some (Inl EMSGSIZE)
      | Some n1 \<Rightarrow>
        (case rd src (sp + 1) of
          None \<Rightarrow> None
        | Some c2 \<Rightarrow>
          (case dec_digit c2 of
            None \<Rightarrow> Some (Inl EMSGSIZE)
          | Some n2 \<Rightarrow>
            let v = n * 100 + n1 * 10 + n2
            in if v > 255 then Some (Inl EMSGSIZE) else Some (Inr (of_nat v))))))"

text \<open>
  The loop. \<open>sp\<close> is \<open>src\<close>, \<open>label\<close> and \<open>bp\<close> are the pointers into the buffer.
\<close>

function pton_loop :: "u8 list \<Rightarrow> nat \<Rightarrow> u8 list \<Rightarrow> nat \<Rightarrow> nat \<Rightarrow> bool \<Rightarrow> pton_out" where
  "pton_loop src sp dst label bp escaped =
    (case rd src sp of
      None \<Rightarrow> None
    | Some c \<Rightarrow>
      if c = 0 then
        if int (bp - label - 1) AND 0xc0 \<noteq> 0 then Some (Inl EMSGSIZE)
        else pton_done (bp - label - 1) dst label bp
      else if escaped \<and> c = 0x5B then
        (case strchr (drop (sp + 1) src) 0x5D of
          None \<Rightarrow> None
        | Some None \<Rightarrow> Some (Inl EINVAL)
        | Some (Some k) \<Rightarrow>
          (case encode_bitsring src (sp + 1) (sp + 1 + k + 2) label bp dst of
            None \<Rightarrow> None
          | Some (Inl e) \<Rightarrow> Some (Inl e)
          | Some (Inr (sp1, bp1, dst1)) \<Rightarrow>
            (case rd src sp1 of
              None \<Rightarrow> None
            | Some c1 \<Rightarrow>
              if c1 = 0 then pton_done 0 dst1 bp1 (bp1 + 1)
              else if c1 \<noteq> 0x2E then Some (Inl EINVAL)
              else pton_loop src (sp1 + 1) dst1 bp1 (bp1 + 1) False)))
      else if escaped \<and> dec_digit c \<noteq> None then
        (case read_ddd src (sp + 1) (the (dec_digit c)) of
          None \<Rightarrow> None
        | Some (Inl e) \<Rightarrow> Some (Inl e)
        | Some (Inr v) \<Rightarrow>
          if bp \<ge> length dst then Some (Inl EMSGSIZE)
          else pton_loop src (sp + 3) (dst[bp := v]) label (bp + 1) False)
      else if \<not> escaped \<and> c = 0x5C then pton_loop src (sp + 1) dst label bp True
      else if \<not> escaped \<and> c = 0x2E then
        if int (bp - label - 1) AND 0xc0 \<noteq> 0 then Some (Inl EMSGSIZE)
        else if label \<ge> length dst then Some (Inl EMSGSIZE)
        else
          let k = bp - label - 1; dst1 = dst[label := of_nat k] in
          (case rd src (sp + 1) of
            None \<Rightarrow> None
          | Some c1 \<Rightarrow>
            if c1 = 0 then
              if k \<noteq> 0 \<and> bp \<ge> length dst then Some (Inl EMSGSIZE)
              else
                let (dst2, bp2) = (if k \<noteq> 0 then (dst1[bp := 0], bp + 1) else (dst1, bp)) in
                if bp2 > NS_MAXCDNAME then Some (Inl EMSGSIZE) else Some (Inr (1, dst2, bp2))
            else if k = 0 \<or> c1 = 0x2E then Some (Inl EMSGSIZE)
            else pton_loop src (sp + 1) dst1 bp (bp + 1) False)
      else if bp \<ge> length dst then Some (Inl EMSGSIZE)
      else pton_loop src (sp + 1) (dst[bp := c]) label (bp + 1) False)"
  by pat_completeness auto
termination
  by (relation "measure (\<lambda>(src, sp, dst, label, bp, escaped). length src - sp)")
    (auto simp: rd_def split: if_splits dest!: encode_adv)

declare pton_loop.simps [simp del]

definition ns_name_pton :: "u8 list \<Rightarrow> u8 list \<Rightarrow> pton_out" where
  "ns_name_pton src dst = pton_loop src 0 dst 0 1 False"

section \<open>ns_name_ntol and ns_name_compress\<close>

text \<open>The loop of \<open>ns_name_ntol\<close>; \<open>out\<close> is what has been written.\<close>

function ntol_loop :: "u8 list \<Rightarrow> nat \<Rightarrow> nat \<Rightarrow> u8 list \<Rightarrow> u8 list res" where
  "ntol_loop src dstsiz cp out =
    (case rd src cp of
      None \<Rightarrow> None
    | Some n \<Rightarrow>
      if n = 0 then Some (Inr (out @ [0]))
      else if n AND NS_CMPRSFLGS = NS_CMPRSFLGS then Some (Inl EMSGSIZE)
      else
        (case labellen src cp of
          None \<Rightarrow> None
        | Some l \<Rightarrow>
          if l < 0 then Some (Inl EMSGSIZE)
          else if length out + 1 + nat l \<ge> dstsiz then Some (Inl EMSGSIZE)
          else if cp + 1 + nat l > length src then None
          else ntol_loop src dstsiz (cp + 1 + nat l)
            (out @ n # map (\<lambda>c. if isupper (uint c) \<noteq> 0 then of_int (tolower (uint c)) else c)
              (take (nat l) (drop (cp + 1) src)))))"
  by pat_completeness auto
termination
  by (relation "measure (\<lambda>(src, dstsiz, cp, out). length src - cp)") (auto simp: rd_def split: if_splits)

declare ntol_loop.simps [simp del]

definition ns_name_ntol :: "u8 list \<Rightarrow> nat \<Rightarrow> u8 list res" where
  "ns_name_ntol src dstsiz = (if dstsiz = 0 then Some (Inl EMSGSIZE) else ntol_loop src dstsiz 0 [])"

text \<open>\<open>tmp\<close> is the contents of the local buffer before the call.\<close>

definition ns_name_compress ::
  "u8 list \<Rightarrow> u8 list \<Rightarrow> u8 list \<Rightarrow> nat \<Rightarrow> nat \<Rightarrow> nat list option \<Rightarrow> nat option \<Rightarrow> pack_out option" where
  "ns_name_compress src tmp msg dst dstsiz ptrs cap =
    (case ns_name_pton src tmp of
      None \<Rightarrow> None
    | Some (Inl e) \<Rightarrow> Some (Inl e, msg, ptrs)
    | Some (Inr (r, tmp1, n)) \<Rightarrow> ns_name_pack tmp1 msg dst dstsiz ptrs cap)"

definition dn_comp ::
  "u8 list \<Rightarrow> u8 list \<Rightarrow> u8 list \<Rightarrow> nat \<Rightarrow> nat \<Rightarrow> nat list option \<Rightarrow> nat option \<Rightarrow> pack_out option" where
  "dn_comp src tmp msg dst dstsiz ptrs cap = ns_name_compress src tmp msg dst dstsiz ptrs cap"

section \<open>Text of a name\<close>

text \<open>
  A label is the list of its bytes. In text a byte stands for itself, or is escaped by a backslash, or
  by a backslash and three digits; labels are separated by dots.
\<close>

definition esc :: "u8 \<Rightarrow> u8 list" where
  "esc c =
    (if special c then [0x5C, c]
     else if \<not> printable c then [0x5C, digit (unat c div 100), digit (unat c mod 100 div 10), digit (unat c mod 10)]
     else [c])"

definition esc_label :: "u8 list \<Rightarrow> u8 list" where
  "esc_label l = concat (map esc l)"

fun text_tail :: "u8 list list \<Rightarrow> u8 list" where
  "text_tail [] = []"
| "text_tail (l # ls) = 0x2E # esc_label l @ text_tail ls"

definition name_text :: "u8 list list \<Rightarrow> u8 list" where
  "name_text ls = esc_label (hd ls) @ text_tail (tl ls)"

definition raw_label :: "u8 list \<Rightarrow> bool" where
  "raw_label l \<longleftrightarrow> 1 \<le> length l \<and> length l \<le> 63"

definition enc :: "u8 list \<Rightarrow> u8 list" where
  "enc l = of_nat (length l) # l"

lemma small_types:
  assumes "1 \<le> n" "n \<le> 63"
  shows "(of_nat n :: u8) AND NS_CMPRSFLGS = 0" "(of_nat n :: u8) \<noteq> 0" "uint (of_nat n :: u8) = int n"
    "int n AND 0xc0 = 0"
proof -
  have t: "list_all (\<lambda>k. (of_int k :: u8) AND NS_CMPRSFLGS = 0 \<and> (of_int k :: u8) \<noteq> 0 \<and> uint (of_int k :: u8) = k \<and> k AND 0xc0 = 0) [1..63]"
    by code_simp
  have "int n \<in> set [1..63]"
    using assms by auto
  from bspec[OF t[unfolded list_all_iff] this] show "(of_nat n :: u8) AND NS_CMPRSFLGS = 0" "(of_nat n :: u8) \<noteq> 0"
    "uint (of_nat n :: u8) = int n" "int n AND 0xc0 = 0"
    by simp_all
qed

lemma wlabel_enc: "raw_label l \<Longrightarrow> wlabel (enc l)"
  using small_types[of "length l"]
  by (auto simp: raw_label_def wlabel_def chunk_def enc_def labellen_def rd_def flg_defs)

text \<open>What the code does on the characters of an escaped byte.\<close>

lemma byte_cases:
  fixes c :: u8
  assumes "list_all (\<lambda>k. P (word_of_int k)) [0..255]"
  shows "P c"
proof -
  have "uint c \<in> set [0..255]"
    using uint_lt2p[of c] by simp
  with assms have "P (word_of_int (uint c))"
    unfolding list_all_iff by (rule bspec)
  then show ?thesis by simp
qed

lemma printable_plain: "printable c \<Longrightarrow> \<not> special c \<Longrightarrow> c \<noteq> 0 \<and> c \<noteq> 0x5C \<and> c \<noteq> 0x2E"
proof -
  have "list_all (\<lambda>k. (\<lambda>c. printable c \<longrightarrow> \<not> special c \<longrightarrow> c \<noteq> 0 \<and> c \<noteq> 0x5C \<and> c \<noteq> 0x2E) (word_of_int k :: u8)) [0..255]"
    by code_simp
  from byte_cases[OF this, of c] show "printable c \<Longrightarrow> \<not> special c \<Longrightarrow> c \<noteq> 0 \<and> c \<noteq> 0x5C \<and> c \<noteq> 0x2E"
    by blast
qed

lemma special_plain: "special c \<Longrightarrow> c \<noteq> 0 \<and> c \<noteq> 0x5B \<and> dec_digit c = None"
proof -
  have "list_all (\<lambda>k. (\<lambda>c. special c \<longrightarrow> c \<noteq> 0 \<and> c \<noteq> 0x5B \<and> dec_digit c = None) (word_of_int k :: u8)) [0..255]"
    by code_simp
  from byte_cases[OF this, of c] show "special c \<Longrightarrow> c \<noteq> 0 \<and> c \<noteq> 0x5B \<and> dec_digit c = None"
    by blast
qed

lemma ddd_digits:
  fixes c :: u8
  shows "dec_digit (digit (unat c div 100)) = Some (unat c div 100)"
    "dec_digit (digit (unat c mod 100 div 10)) = Some (unat c mod 100 div 10)"
    "dec_digit (digit (unat c mod 10)) = Some (unat c mod 10)"
    "digit (unat c div 100) \<noteq> 0" "digit (unat c div 100) \<noteq> 0x5B"
    "unat c div 100 * 100 + unat c mod 100 div 10 * 10 + unat c mod 10 = unat c"
proof -
  have t: "list_all (\<lambda>k. (dec_digit (digit k) = Some k \<and> digit k \<noteq> 0 \<and> digit k \<noteq> 0x5B)) [0..<10]"
    by code_simp
  have d: "dec_digit (digit k) = Some k \<and> digit k \<noteq> 0 \<and> digit k \<noteq> 0x5B" if "k < 10" for k
    using t that by (simp add: list_all_iff)
  have "unat c < 256"
    using unsigned_less[of c, where 'a = nat] by simp
  then have "unat c div 100 < 10" "unat c mod 100 div 10 < 10" "unat c mod 10 < 10"
    by auto
  from d[OF this(1)] d[OF this(2)] d[OF this(3)] show
    "dec_digit (digit (unat c div 100)) = Some (unat c div 100)"
    "dec_digit (digit (unat c mod 100 div 10)) = Some (unat c mod 100 div 10)"
    "dec_digit (digit (unat c mod 10)) = Some (unat c mod 10)"
    "digit (unat c div 100) \<noteq> 0" "digit (unat c div 100) \<noteq> 0x5B"
    by auto
  have m: "unat c mod 100 mod 10 = unat c mod 10"
    by (rule mod_mod_cancel) simp
  show "unat c div 100 * 100 + unat c mod 100 div 10 * 10 + unat c mod 10 = unat c"
    using div_mult_mod_eq[of "unat c" 100] div_mult_mod_eq[of "unat c mod 100" 10] m
    by linarith
qed

lemma rd_drop: "drop sp src = xs @ rest \<Longrightarrow> i < length xs \<Longrightarrow> rd src (sp + i) = Some (xs ! i)"
proof -
  assume a: "drop sp src = xs @ rest" "i < length xs"
  then have "length xs \<le> length src - sp"
    by (metis le_add1 length_append length_drop)
  with a(2) have "sp + i < length src"
    by simp
  moreover have "drop sp src ! i = xs ! i"
    using a by (simp add: nth_append)
  ultimately show ?thesis
    by (simp add: rd_def)
qed

lemma pton_byte:
  assumes "drop sp src = esc c @ rest" "bp < length dst"
  shows "pton_loop src sp dst label bp False = pton_loop src (sp + length (esc c)) (dst[bp := c]) label (bp + 1) False"
proof -
  note r = rd_drop[OF assms(1)]
  consider "special c" | "\<not> special c" "printable c" | "\<not> special c" "\<not> printable c"
    by blast
  then show ?thesis
  proof cases
    case 1
    then have "rd src sp = Some 0x5C" "rd src (sp + 1) = Some c"
      using r[of 0] r[of 1] by (simp_all add: esc_def)
    then show ?thesis
      using 1 special_plain[OF 1] assms(2)
      by (subst pton_loop.simps, simp, subst pton_loop.simps) (simp add: esc_def)
  next
    case 2
    then have "rd src sp = Some c"
      using r[of 0] by (simp add: esc_def)
    then show ?thesis
      using 2 printable_plain[OF 2(2,1)] assms(2) by (subst pton_loop.simps) (simp add: esc_def)
  next
    case 3
    let ?d = "\<lambda>k. digit k"
    have rs: "rd src sp = Some 0x5C" "rd src (sp + 1) = Some (?d (unat c div 100))"
      "rd src (sp + 2) = Some (?d (unat c mod 100 div 10))" "rd src (sp + 2 + 1) = Some (?d (unat c mod 10))"
      using r[of 0] r[of 1] r[of 2] r[of 3] 3 by (simp_all add: esc_def numeral_2_eq_2 numeral_3_eq_3)
    have "unat c \<le> 255"
      using unsigned_less[of c, where 'a = nat] by simp
    then have "read_ddd src (sp + 2) (unat c div 100) = Some (Inr c)"
      using rs(3,4) ddd_digits[of c] by (simp add: read_ddd_def del: add_2_eq_Suc')
    moreover have four: "Suc (Suc (Suc (Suc sp))) = 4 + sp"
      by simp
    ultimately show ?thesis
      using 3 rs ddd_digits[of c] assms(2)
      by (subst pton_loop.simps, simp, subst pton_loop.simps) (simp add: esc_def four)
  qed
qed

lemma drop_more: "drop sp src = xs @ ys \<Longrightarrow> drop (sp + length xs) src = ys"
  by (metis add.commute append_eq_conv_conj drop_drop)

lemma pton_label:
  "drop sp src = esc_label l @ rest \<Longrightarrow> dst = P @ M @ R \<Longrightarrow> length M = length l \<Longrightarrow>
    pton_loop src sp dst label (length P) False =
      pton_loop src (sp + length (esc_label l)) (P @ l @ R) label (length P + length l) False"
proof (induction l arbitrary: sp P M dst)
  case (Cons c l)
  obtain y M' where M: "M = y # M'" "length M' = length l"
    using Cons.prems(3) by (cases M) auto
  have d: "drop sp src = esc c @ esc_label l @ rest"
    using Cons.prems(1) by (simp add: esc_label_def)
  have "pton_loop src sp dst label (length P) False =
      pton_loop src (sp + length (esc c)) ((P @ [c]) @ M' @ R) label (length (P @ [c])) False"
    using pton_byte[OF d, of "length P" dst label] Cons.prems(2) M(1) by simp
  also have "\<dots> = pton_loop src (sp + length (esc c) + length (esc_label l)) ((P @ [c]) @ l @ R) label
      (length (P @ [c]) + length l) False"
    by (rule Cons.IH[OF drop_more[OF d] refl M(2)])
  finally show ?case
    by (simp add: esc_label_def add.assoc)
qed (simp add: esc_label_def)

lemma esc_head: "esc c \<noteq> []" "hd (esc c) \<noteq> 0" "hd (esc c) \<noteq> 0x2E"
  using printable_plain[of c] by (auto simp: esc_def)

lemma esc_label_head: "raw_label l \<Longrightarrow> esc_label l \<noteq> [] \<and> hd (esc_label l) \<noteq> 0 \<and> hd (esc_label l) \<noteq> 0x2E"
  using esc_head by (cases l) (auto simp: raw_label_def esc_label_def hd_append)

lemma pton_tail:
  "drop sp src = text_tail ls @ [0] \<Longrightarrow> dst = P @ x # l @ R \<Longrightarrow> \<forall>l' \<in> set (l # ls). raw_label l' \<Longrightarrow>
    length P + length (wire (map enc (l # ls))) \<le> length dst \<Longrightarrow>
    length P + length (wire (map enc (l # ls))) \<le> NS_MAXCDNAME \<Longrightarrow>
    \<exists>R'. pton_loop src sp dst (length P) (length P + 1 + length l) False =
      Some (Inr (0, P @ wire (map enc (l # ls)) @ R', length P + length (wire (map enc (l # ls)))))"
proof (induction ls arbitrary: sp dst P x l R)
  case Nil
  have l: "1 \<le> length l" "length l \<le> 63"
    using Nil.prems(3) by (auto simp: raw_label_def)
  have r: "rd src sp = Some 0"
    using rd_drop[of sp src "[0]" "[]" 0] Nil.prems(1) by simp
  obtain y R' where R: "R = y # R'"
    using Nil.prems(2,4) by (cases R) (auto simp: wire_def enc_def)
  show ?case
    using r small_types(4)[OF l] l(1) Nil.prems(2,5) R
    by (intro exI[of _ R'], subst pton_loop.simps)
      (auto simp: pton_done_def Let_def list_update_append enc_def wire_def nth_append)
next
  case (Cons l2 ls)
  have l: "1 \<le> length l" "length l \<le> 63" and l2: "raw_label l2"
    using Cons.prems(3) by (auto simp: raw_label_def)
  have d: "drop sp src = [0x2E] @ esc_label l2 @ text_tail ls @ [0]"
    using Cons.prems(1) by simp
  note d1 = drop_more[OF d]
  have r: "rd src sp = Some 0x2E"
    using rd_drop[OF d, of 0] by simp
  have r1: "rd src (sp + 1) = Some (hd (esc_label l2))"
    using rd_drop[of "sp + 1" src "esc_label l2" _ 0] d1 esc_label_head[OF l2] by (simp add: hd_conv_nth)
  have len: "length R \<ge> 1 + length l2"
    using Cons.prems(2,4) by (simp add: wire_def enc_def)
  then obtain y R1 where R: "R = y # R1" "length l2 \<le> length R1"
    by (cases R) auto
  let ?P = "P @ enc l"
  have "pton_loop src sp dst (length P) (length P + 1 + length l) False =
      pton_loop src (sp + 1) (?P @ R) (length ?P) (length ?P + 1) False"
    using r r1 small_types(4)[OF l] l(1) Cons.prems(2) esc_label_head[OF l2]
    by (subst pton_loop.simps) (auto simp: Let_def list_update_append enc_def)
  also have "\<dots> = pton_loop src (sp + 1 + length (esc_label l2)) ((?P @ [y]) @ l2 @ drop (length l2) R1) (length ?P)
      (length (?P @ [y]) + length l2) False"
    using pton_label[of "sp + 1" src l2 _ "?P @ R" "?P @ [y]" "take (length l2) R1" "drop (length l2) R1" "length ?P"] d1 R
    by simp
  finally have e: "pton_loop src sp dst (length P) (length P + 1 + length l) False =
      pton_loop src (sp + 1 + length (esc_label l2)) (?P @ y # l2 @ drop (length l2) R1) (length ?P)
        (length ?P + 1 + length l2) False"
    by simp
  have d2: "drop (sp + 1 + length (esc_label l2)) src = text_tail ls @ [0]"
    using drop_more[of "sp + 1" src "esc_label l2"] d1 by simp
  have "\<exists>R'. pton_loop src (sp + 1 + length (esc_label l2)) (?P @ y # l2 @ drop (length l2) R1) (length ?P)
        (length ?P + 1 + length l2) False =
      Some (Inr (0, ?P @ wire (map enc (l2 # ls)) @ R', length ?P + length (wire (map enc (l2 # ls)))))"
    using Cons.prems(2-5) R by (intro Cons.IH[OF d2 refl]) (auto simp: wire_def enc_def)
  with e show ?case
    by (auto simp: wire_def)
qed

text \<open>Reading the text of a name gives its encoded form.\<close>

lemma pton_text:
  assumes "ls \<noteq> []" "\<forall>l \<in> set ls. raw_label l" "length (wire (map enc ls)) \<le> NS_MAXCDNAME" "length dst = NS_MAXCDNAME"
  shows "\<exists>R. ns_name_pton (name_text ls @ [0]) dst =
    Some (Inr (0, wire (map enc ls) @ R, length (wire (map enc ls))))"
proof -
  obtain l ls' where ls: "ls = l # ls'"
    using assms(1) by (cases ls) auto
  obtain x D where dst: "dst = x # D" "length D = NS_MAXCDNAME - 1"
    using assms(4) by (cases dst) (auto simp: NS_MAXCDNAME_def)
  have len: "length l \<le> length D"
    using assms(3) dst(2) ls by (simp add: wire_def enc_def)
  let ?src = "name_text ls @ [0]"
  have d: "drop 0 ?src = esc_label l @ text_tail ls' @ [0]"
    by (simp add: name_text_def ls)
  have "ns_name_pton ?src dst =
      pton_loop ?src (0 + length (esc_label l)) ([x] @ l @ drop (length l) D) 0 (length [x] + length l) False"
    using pton_label[OF d, of dst "[x]" "take (length l) D" "drop (length l) D" 0] len dst(1)
    by (simp add: ns_name_pton_def)
  moreover have "\<exists>R'. pton_loop ?src (length (esc_label l)) ([] @ x # l @ drop (length l) D) (length ([] :: u8 list)) (length ([] :: u8 list) + 1 + length l) False =
      Some (Inr (0, [] @ wire (map enc (l # ls')) @ R', length ([] :: u8 list) + length (wire (map enc (l # ls')))))"
    using drop_more[OF d] assms(2,3) dst(2) len ls by (intro pton_tail) auto
  ultimately show ?thesis
    by (auto simp: ls)
qed

section \<open>Printing a name\<close>

lemma ntop_label_text:
  "take (length l) (drop cp src) = l \<Longrightarrow> length out + length (esc_label l) < eom \<Longrightarrow>
    ntop_label src cp (length l) eom out = Some (Inr (out @ esc_label l))"
proof (induction l arbitrary: cp out)
  case (Cons c l)
  note at = chunk_at[OF Cons.prems(1)]
  have r: "rd src cp = Some c"
    using at(1) by simp
  have t: "take (length l) (drop (Suc cp) src) = l"
    using tl_at[OF Cons.prems(1)] by simp
  have len: "length out + length (esc c) + length (esc_label l) < eom"
    using Cons.prems(2) by (simp add: esc_label_def)
  have "ntop_label src cp (length (c # l)) eom out = ntop_label src (cp + 1) (length l) eom (out @ esc c)"
    using r len by (auto simp: esc_def)
  also have "\<dots> = Some (Inr ((out @ esc c) @ esc_label l))"
    using Cons.IH[of "cp + 1" "out @ esc c"] t len by simp
  finally show ?case
    by (simp add: esc_label_def)
qed (simp add: esc_label_def)

lemma esc_length: "1 \<le> length (esc c)" "length (esc c) \<le> 4"
  by (simp_all add: esc_def)

lemma esc_label_length: "length l \<le> length (esc_label l)" "length (esc_label l) \<le> 4 * length l"
proof -
  show "length l \<le> length (esc_label l)"
  proof (induction l)
    case (Cons c l)
    then show ?case using esc_length(1)[of c] by (simp add: esc_label_def)
  qed simp
  show "length (esc_label l) \<le> 4 * length l"
  proof (induction l)
    case (Cons c l)
    then show ?case using esc_length(2)[of c] by (simp add: esc_label_def)
  qed (simp add: esc_label_def)
qed

text \<open>One round of the loop prints a label, after a dot unless it is the first.\<close>

lemma ntop_round:
  fixes out :: "u8 list"
  assumes "left_at src cp (map enc (l # ls))" "raw_label l"
  defines "out1 \<equiv> (if out \<noteq> [] then out @ [0x2E] else out)"
  assumes "length out1 + length (esc_label l) < eom"
  shows "ntop_loop src eom cp out = ntop_loop src eom (cp + length (enc l)) (out1 @ esc_label l)"
    and "left_at src (cp + length (enc l)) (map enc ls)"
proof -
  have l: "1 \<le> length l" "length l \<le> 63"
    using assms(2) by (auto simp: raw_label_def)
  note ty = small_types[OF l]
  have la: "left_at src cp (enc l # map enc ls)"
    using assms(1) by simp
  have r: "rd src cp = Some (of_nat (length l))"
    using left_at_rd[OF la] by (simp add: enc_def)
  have ll: "labellen src cp = Some (int (length l))"
    using left_at_labellen[OF la] by (simp add: enc_def)
  have t: "take (length l) (drop (cp + 1) src) = l"
    using tl_at[OF left_at_take[OF la]] by (simp add: enc_def)
  have nl: "ntop_label src (cp + 1) (length l) eom out1 = Some (Inr (out1 @ esc_label l))"
    using ntop_label_text[OF t assms(4)] .
  have b: "length out1 + length l < eom" "\<not> (out \<noteq> [] \<and> eom \<le> length out)"
    using assms(4) esc_label_length(1)[of l] by (auto simp: out1_def split: if_splits)
  have f: "(0 :: u8) \<noteq> NS_CMPRSFLGS" "(0 :: u8) \<noteq> NS_TYPE_ELT"
    by (simp_all add: flg_defs)
  show "ntop_loop src eom cp out = ntop_loop src eom (cp + length (enc l)) (out1 @ esc_label l)"
    using r ll ty nl b f
    by (subst ntop_loop.simps) (auto simp: Let_def out1_def[symmetric] enc_def)
  show "left_at src (cp + length (enc l)) (map enc ls)"
    using left_at_next[OF la] .
qed

lemma ntop_tail:
  "left_at src cp (map enc ls) \<Longrightarrow> \<forall>l \<in> set ls. raw_label l \<Longrightarrow> out \<noteq> [] \<Longrightarrow>
    length out + length (text_tail ls) < eom \<Longrightarrow> ntop_loop src eom cp out = Some (Inr (out @ text_tail ls))"
proof (induction ls arbitrary: cp out)
  case Nil
  have "rd src cp = Some 0"
    using left_at_rd[OF Nil.prems(1)] by simp
  then show ?case
    by (subst ntop_loop.simps) simp
next
  case (Cons l ls)
  have b: "length (if out \<noteq> [] then out @ [0x2E] else out) + length (esc_label l) < eom"
    using Cons.prems(3,4) by simp
  have rl: "raw_label l"
    using Cons.prems(2) by simp
  show ?case
    using ntop_round[OF Cons.prems(1) rl b] Cons.IH[of "cp + length (enc l)" "out @ [0x2E] @ esc_label l"] Cons.prems(2,3,4)
    by simp
qed

lemma ntop_text:
  assumes "ls \<noteq> []" "\<forall>l \<in> set ls. raw_label l" "length (name_text ls) < dsz"
  shows "ns_name_ntop (wire (map enc ls)) dsz = Some (Inr (name_text ls @ [0]))"
proof -
  obtain l ls' where ls: "ls = l # ls'"
    using assms(1) by (cases ls) auto
  have la: "left_at (wire (map enc ls)) 0 (map enc (l # ls'))"
    using assms(2) wlabel_enc by (auto simp: left_at_def ls)
  have rl: "raw_label l"
    using assms(2) by (simp add: ls)
  note ne = esc_label_head[OF rl]
  have b: "length (if ([] :: u8 list) \<noteq> [] then [] @ [0x2E] else []) + length (esc_label l) < dsz"
    using assms(3) by (simp add: name_text_def ls)
  have "ntop_loop (wire (map enc ls)) dsz 0 [] = Some (Inr (esc_label l @ text_tail ls'))"
    using ntop_round[OF la rl b] ntop_tail[of "wire (map enc ls)" "length (enc l)" ls' "esc_label l" dsz] ne assms(2,3)
    by (simp add: name_text_def ls)
  moreover have "name_text ls \<noteq> []"
    using ne by (simp add: name_text_def ls)
  ultimately show ?thesis
    using assms(3) by (simp add: ns_name_ntop_def name_text_def ls)
qed

lemma text_tail_length: "length (text_tail ls) \<le> 4 * length (concat (map enc ls))"
proof (induction ls)
  case (Cons l ls)
  then show ?case
    using esc_label_length(2)[of l] by (simp add: enc_def)
qed simp

lemma name_text_length:
  assumes "ls \<noteq> []" "length (wire (map enc ls)) \<le> NS_MAXCDNAME"
  shows "length (name_text ls) < NS_MAXDNAME"
proof -
  obtain l ls' where ls: "ls = l # ls'"
    using assms(1) by (cases ls) auto
  show ?thesis
    using assms(2) esc_label_length(2)[of l] text_tail_length[of ls']
    by (simp add: ls name_text_def wire_def enc_def NS_MAXCDNAME_def NS_MAXDNAME_def)
qed

section \<open>Properties\<close>

lemma same_name_enc:
  "list_all2 same_label (map enc ls) cs \<Longrightarrow> \<forall>c \<in> set cs. wlabel c \<Longrightarrow>
    cs = map enc (map tl cs) \<and> map (map mklower) (map tl cs) = map (map mklower) ls"
proof (induction ls arbitrary: cs)
  case (Cons l ls)
  obtain c cs' where cs: "cs = c # cs'" "same_label (enc l) c" "list_all2 same_label (map enc ls) cs'"
    using Cons.prems(1) by (auto simp: list_all2_Cons1)
  have m: "hd c = of_nat (length l)" "map mklower (tl c) = map mklower l"
    using cs(2) by (simp_all add: same_label_def enc_def)
  have "length (tl c) = length l"
    using map_eq_imp_length_eq[OF m(2)] .
  moreover have "c \<noteq> []"
    using Cons.prems(2) wlabel_facts(1) cs(1) by simp
  ultimately have "c = enc (tl c)"
    using m(1) unfolding enc_def by (metis list.collapse)
  then show ?case
    using Cons.IH[OF cs(3)] Cons.prems(2) cs(1) m(2) by simp
qed simp

lemma enc_length: "length (concat (map enc ls)) = sum_list (map Suc (map length ls))"
  by (induction ls) (simp_all add: enc_def)

lemma lower_raw:
  assumes "map (map mklower) ls' = map (map mklower) ls" "\<forall>l \<in> set ls. raw_label l"
  shows "\<forall>l \<in> set ls'. raw_label l" "length (wire (map enc ls')) = length (wire (map enc ls))"
proof -
  have "map length ls' = map length ls"
    using arg_cong[OF assms(1), of "map length"] by (simp add: comp_def)
  then show "length (wire (map enc ls')) = length (wire (map enc ls))"
    by (simp only: wire_def length_append enc_length)
  have "raw_label l \<longleftrightarrow> raw_label (map mklower l)" for l
    by (simp add: raw_label_def)
  then have "(\<forall>l \<in> set ls'. raw_label l) \<longleftrightarrow> (\<forall>l \<in> set (map (map mklower) ls'). raw_label l)"
    "(\<forall>l \<in> set ls. raw_label l) \<longleftrightarrow> (\<forall>l \<in> set (map (map mklower) ls). raw_label l)"
    by simp_all
  then show "\<forall>l \<in> set ls'. raw_label l"
    using assms by simp
qed

lemma expand_text:
  assumes "ns_name_unpack msg p NS_MAXCDNAME = Some (Inr (len, wire (map enc ls')))"
    "map (map mklower) ls' = map (map mklower) ls" "ls \<noteq> []" "\<forall>l \<in> set ls. raw_label l"
    "length (wire (map enc ls)) \<le> NS_MAXCDNAME"
  shows "dn_expand msg p NS_MAXDNAME = Some (Inr (len, name_text ls' @ [0]))"
proof -
  note r = lower_raw[OF assms(2,4)]
  have ne: "ls' \<noteq> []"
    using assms(2,3) by auto
  have "length (name_text ls') < NS_MAXDNAME"
    using name_text_length[OF ne] assms(5) r(2) by simp
  then have nt: "ns_name_ntop (wire (map enc ls')) NS_MAXDNAME = Some (Inr (name_text ls' @ [0]))"
    using ntop_text[OF ne r(1)] by simp
  obtain l ls2 where ls': "ls' = l # ls2"
    using ne by (cases ls') auto
  have "hd (name_text ls' @ [0]) \<noteq> 0x2E"
    using esc_label_head[of l] r(1) by (auto simp: ls' name_text_def hd_append)
  then show ?thesis
    using assms(1) nt by (simp add: dn_expand_def ns_name_uncompress_def)
qed

text \<open>
  C21. What \<open>dn_comp\<close> writes, \<open>dn_expand\<close> reads. For the text of any name of legal labels, compressing it into
  a message whose pointers are good returns, changes only the bytes of the name, and succeeds whenever
  the uncompressed name would leave a byte of room; \<open>dn_expand\<close> then consumes exactly the bytes written
  and gives the text of the same name back, but for the case of letters, and the pointers left behind
  are good for the next name. When there is no room the pointers are as before.
\<close>

theorem comp_then_expand:
  assumes "ls \<noteq> []" "\<forall>l \<in> set ls. raw_label l" "length (wire (map enc ls)) \<le> NS_MAXCDNAME" "length tmp = NS_MAXCDNAME"
    "dst + dstsiz \<le> length msg" "ptrs_ok msg dst ptrs"
  shows "\<exists>out msg' ptrs'. dn_comp (name_text ls @ [0]) tmp msg dst dstsiz (Some ptrs) cap = Some (out, msg', Some ptrs') \<and>
    length msg' = length msg \<and> take dst msg' = take dst msg \<and>
    (length (wire (map enc ls)) < dstsiz \<longrightarrow> \<not> isl out) \<and>
    (case out of
      Inl e \<Rightarrow> e = EMSGSIZE \<and> ptrs' = ptrs
    | Inr len \<Rightarrow> drop (dst + len) msg' = drop (dst + len) msg \<and> ptrs_ok msg' (dst + len) ptrs' \<and>
        (\<exists>ls'. map (map mklower) ls' = map (map mklower) ls \<and>
          dn_expand msg' dst NS_MAXDNAME = Some (Inr (len, name_text ls' @ [0]))))"
proof -
  obtain R where pt: "ns_name_pton (name_text ls @ [0]) tmp =
      Some (Inr (0, wire (map enc ls) @ R, length (wire (map enc ls))))"
    using pton_text[OF assms(1-4)] by blast
  have w: "\<forall>d \<in> set (map enc ls). wlabel d"
    using assms(2) wlabel_enc by auto
  obtain out msg' ptrs' where pk: "ns_name_pack (wire (map enc ls) @ R) msg dst dstsiz (Some ptrs) cap = Some (out, msg', Some ptrs')"
    and frame: "length msg' = length msg" "take dst msg' = take dst msg" "length (wire (map enc ls)) < dstsiz \<longrightarrow> \<not> isl out"
    and res: "case out of
      Inl e \<Rightarrow> e = EMSGSIZE \<and> ptrs' = ptrs
    | Inr len \<Rightarrow> drop (dst + len) msg' = drop (dst + len) msg \<and> ptrs_ok msg' (dst + len) ptrs' \<and>
        (\<exists>cs. same_name (map enc ls) cs \<and> (\<forall>c \<in> set cs. wlabel c) \<and>
          ns_name_unpack msg' dst NS_MAXCDNAME = Some (Inr (len, wire cs)))"
    using pack_then_unpack[OF w assms(3,5,6), of R cap] by (elim exE conjE) (rule that)
  have dc: "dn_comp (name_text ls @ [0]) tmp msg dst dstsiz (Some ptrs) cap = Some (out, msg', Some ptrs')"
    using pt pk by (simp add: dn_comp_def ns_name_compress_def)
  show ?thesis
  proof (cases out)
    case (Inr len)
    obtain cs where cs: "list_all2 same_label (map enc ls) cs" "\<forall>c \<in> set cs. wlabel c"
      "ns_name_unpack msg' dst NS_MAXCDNAME = Some (Inr (len, wire cs))"
      using res by (auto simp: Inr same_name_def)
    obtain ls2 where e: "cs = map enc ls2" "map (map mklower) ls2 = map (map mklower) ls"
      using same_name_enc[OF cs(1,2)] by blast
    have ex: "dn_expand msg' dst NS_MAXDNAME = Some (Inr (len, name_text ls2 @ [0]))"
      by (rule expand_text[OF _ e(2) assms(1-3)]) (use cs(3) e(1) in simp)
    show ?thesis
      using dc frame res ex e(2) by (auto simp: Inr)
  qed (use dc frame res in auto)
qed

text \<open>Into a message that holds \<open>a.b\<close> at offset 0, \<open>c.B\<close> is compressed at offset 5.\<close>

theorem comp_then_expand_witness:
  "\<exists>len msg' ptrs' ls'. dn_comp [99, 0x2E, 66, 0] (replicate 255 0) [1, 97, 1, 98, 0, 0, 0, 0, 0, 0, 0] 5 6 (Some [0]) (Some 5) =
      Some (Inr len, msg', Some ptrs') \<and> map (map mklower) ls' = [[99], [98]] \<and>
    dn_expand msg' 5 NS_MAXDNAME = Some (Inr (len, name_text ls' @ [0]))"
proof -
  let ?msg = "[1, 97, 1, 98, 0, 0, 0, 0, 0, 0, 0] :: u8 list" and ?ls = "[[99], [66]] :: u8 list list"
  have c: "wlabel [1, 97]" "wlabel [1, 98]"
    by (simp_all add: wlabel_def chunk_def labellen_def rd_def flg_defs)
  have "name_at ?msg 0 4 (4 + 1) []"
    by (rule name_at.root) (simp add: rd_def)
  then have "name_at ?msg 0 2 5 [[1, 98]]"
    using name_at.label[OF c(2), of 2 ?msg 0 5 "[]"] by simp
  then have "name_at ?msg 0 0 5 [[1, 97], [1, 98]]"
    using name_at.label[OF c(1), of 0 ?msg 0 5] by (simp add: numeral_2_eq_2)
  then have p: "ptrs_ok ?msg 5 [0]"
    by (auto simp: ptrs_ok_def)
  have t: "name_text ?ls @ [0] = [99, 0x2E, 66, 0]" "map (map mklower) ?ls = [[99], [98]]"
    "length (wire (map enc ?ls)) = 5"
    by code_simp+
  have a: "?ls \<noteq> []" "\<forall>l \<in> set ?ls. raw_label l" "length (wire (map enc ?ls)) \<le> NS_MAXCDNAME"
    "length (replicate 255 (0 :: u8)) = NS_MAXCDNAME" "5 + 6 \<le> length ?msg"
    using t(3) by (simp_all add: raw_label_def NS_MAXCDNAME_def)
  obtain out msg' ptrs' where r: "dn_comp [99, 0x2E, 66, 0] (replicate 255 0) ?msg 5 6 (Some [0]) (Some 5) = Some (out, msg', Some ptrs')"
    "\<not> isl out" "case out of Inl e \<Rightarrow> e = EMSGSIZE \<and> ptrs' = [0]
      | Inr len \<Rightarrow> drop (5 + len) msg' = drop (5 + len) ?msg \<and> ptrs_ok msg' (5 + len) ptrs' \<and>
        (\<exists>ls'. map (map mklower) ls' = [[99], [98]] \<and> dn_expand msg' 5 NS_MAXDNAME = Some (Inr (len, name_text ls' @ [0])))"
    using comp_then_expand[OF a p, of "Some 5", unfolded t] by auto
  then show ?thesis
    by (cases out) auto
qed

end
