(* ===== verification/Memcopy.thy ===== *)
theory Memcopy
  imports Cstring "HOL-Library.Multiset"
begin

unbundle bit_operations_syntax

text \<open>
  Copying in memory, \<open>libc/string\<close>: \<open>bcopy\<close>, which is also \<open>memcpy\<close> and the overlapping case of \<open>memmove\<close>,
  \<open>memset\<close>, \<open>memswap\<close>, \<open>memccpy\<close>, and the functions that copy strings. Memory is the list of the bytes of an
  array; \<open>base\<close> is its address, which decides the alignment, and pointers are offsets in the array. An
  access outside of the array is \<open>None\<close>. A \<open>long\<close> has four bytes. The functions for which C demands that
  source and destination are different arrays take the source as the list of its bytes.
\<close>

section \<open>bcopy\<close>

abbreviation (input) wsize :: nat where "wsize \<equiv> 4"

abbreviation (input) wmask :: nat where "wmask \<equiv> 3"

text \<open>\<open>TLOOP\<close> forward: \<open>t\<close> times copy \<open>w\<close> bytes and move both pointers up; the result is the memory, \<open>dst\<close> and \<open>src\<close>.\<close>

fun tloop_fwd :: "nat \<Rightarrow> u8 list \<Rightarrow> nat \<Rightarrow> nat \<Rightarrow> nat \<Rightarrow> (u8 list \<times> nat \<times> nat) option" where
  "tloop_fwd w m dst src 0 = Some (m, dst, src)"
| "tloop_fwd w m dst src (Suc t) =
    do { bs \<leftarrow> rdn m src w; m1 \<leftarrow> blit m dst bs; tloop_fwd w m1 (dst + w) (src + w) t }"

text \<open>\<open>TLOOP\<close> backward: \<open>t\<close> times move both pointers down and copy \<open>w\<close> bytes.\<close>

fun tloop_bwd :: "nat \<Rightarrow> u8 list \<Rightarrow> nat \<Rightarrow> nat \<Rightarrow> nat \<Rightarrow> (u8 list \<times> nat \<times> nat) option" where
  "tloop_bwd w m dst src 0 = Some (m, dst, src)"
| "tloop_bwd w m dst src (Suc t) =
    (if dst < w \<or> src < w then None
     else do { bs \<leftarrow> rdn m (src - w) w; m1 \<leftarrow> blit m (dst - w) bs; tloop_bwd w m1 (dst - w) (src - w) t })"

text \<open>\<open>TLOOP1\<close> is entered with \<open>t > 0\<close> only; with 0 it would run through all of memory.\<close>

definition tloop1 :: "(nat \<Rightarrow> 'a option) \<Rightarrow> nat \<Rightarrow> 'a option" where
  "tloop1 body t = (if t = 0 then None else body t)"

text \<open>How many bytes are copied one by one to align both pointers, whose addresses are \<open>t\<close> and \<open>dst\<close>.\<close>

definition align_fwd :: "nat \<Rightarrow> nat \<Rightarrow> nat \<Rightarrow> nat" where
  "align_fwd t dst len = (if (t XOR dst) AND wmask \<noteq> 0 \<or> len < wsize then len else wsize - (t AND wmask))"

definition align_bwd :: "nat \<Rightarrow> nat \<Rightarrow> nat \<Rightarrow> nat" where
  "align_bwd t dst len = (if (t XOR dst) AND wmask \<noteq> 0 \<or> len \<le> wsize then len else t AND wmask)"

definition bcopy :: "nat \<Rightarrow> u8 list \<Rightarrow> nat \<Rightarrow> nat \<Rightarrow> nat \<Rightarrow> u8 list option" where
  "bcopy base m src dst len =
    (if len = 0 \<or> dst = src then Some m
     else if base + dst < base + src then
       do {
         let t = base + src;
         (m, dst, src, len) \<leftarrow>
           (if (t OR (base + dst)) AND wmask \<noteq> 0 then
              do {
                let t = align_fwd t (base + dst) len;
                (m, dst, src) \<leftarrow> tloop1 (tloop_fwd 1 m dst src) t;
                Some (m, dst, src, len - t)
              }
            else Some (m, dst, src, len));
         (m, dst, src) \<leftarrow> tloop_fwd wsize m dst src (len div wsize);
         (m, dst, src) \<leftarrow> tloop_fwd 1 m dst src (len AND wmask);
         Some m
       }
     else
       do {
         let src = src + len;
         let dst = dst + len;
         let t = base + src;
         (m, dst, src, len) \<leftarrow>
           (if (t OR (base + dst)) AND wmask \<noteq> 0 then
              do {
                let t = align_bwd t (base + dst) len;
                (m, dst, src) \<leftarrow> tloop1 (tloop_bwd 1 m dst src) t;
                Some (m, dst, src, len - t)
              }
            else Some (m, dst, src, len));
         (m, dst, src) \<leftarrow> tloop_bwd wsize m dst src (len div wsize);
         (m, dst, src) \<leftarrow> tloop_bwd 1 m dst src (len AND wmask);
         Some m
       })"

text \<open>\<open>memcpy.c\<close> is \<open>bcopy.c\<close> with \<open>MEMCOPY\<close> defined.\<close>

definition memcpy :: "nat \<Rightarrow> u8 list \<Rightarrow> nat \<Rightarrow> nat \<Rightarrow> nat \<Rightarrow> u8 list option" where
  "memcpy base m dst src len = bcopy base m src dst len"

definition memmove :: "nat \<Rightarrow> u8 list \<Rightarrow> nat \<Rightarrow> nat \<Rightarrow> nat \<Rightarrow> u8 list option" where
  "memmove base m dst src n =
    (if dst < src \<or> dst - src \<ge> n then memcpy base m dst src n else bcopy base m src dst n)"

section \<open>memset, memswap and memccpy\<close>

fun memset :: "u8 list \<Rightarrow> nat \<Rightarrow> int \<Rightarrow> nat \<Rightarrow> u8 list option" where
  "memset m q c 0 = Some m"
| "memset m q c (Suc n) = do { m1 \<leftarrow> wr m q (of_int c); memset m1 (q + 1) c n }"

fun memswap :: "u8 list \<Rightarrow> nat \<Rightarrow> nat \<Rightarrow> nat \<Rightarrow> u8 list option" where
  "memswap m p q 0 = Some m"
| "memswap m p q (Suc n) =
    do {
      tmp \<leftarrow> rd m p;
      x \<leftarrow> rd m q;
      m1 \<leftarrow> wr m p x;
      m2 \<leftarrow> wr m1 q tmp;
      memswap m2 (p + 1) (q + 1) n
    }"

text \<open>
  The loop of \<open>memccpy\<close>; \<open>ch\<close> is the character copied last, as an \<open>int\<close>. The result is the destination
  array and the pointer returned.
\<close>

fun memccpy_loop :: "u8 list \<Rightarrow> nat \<Rightarrow> u8 list \<Rightarrow> int \<Rightarrow> nat \<Rightarrow> int \<Rightarrow> (u8 list \<times> nat option) option" where
  "memccpy_loop m q p c n ch =
    (if ch = c \<or> n = 0 then Some (m, if n = 0 \<and> ch \<noteq> c then None else Some q)
     else
       (case p of
         [] \<Rightarrow> None
       | x # p' \<Rightarrow> do { m1 \<leftarrow> wr m q x; memccpy_loop m1 (q + 1) p' c (n - 1) (uint x) }))"

declare memccpy_loop.simps [simp del]

definition memccpy :: "u8 list \<Rightarrow> nat \<Rightarrow> u8 list \<Rightarrow> int \<Rightarrow> nat \<Rightarrow> (u8 list \<times> nat option) option" where
  "memccpy m dst src c n = memccpy_loop m dst src c n (uint (of_int (NOT (uint (of_int c :: u8))) :: u8))"

section \<open>Copying strings\<close>

fun strcpy :: "u8 list \<Rightarrow> nat \<Rightarrow> u8 list \<Rightarrow> u8 list option" where
  "strcpy m to [] = None"
| "strcpy m to (c # fr) = do { m1 \<leftarrow> wr m to c; if c \<noteq> 0 then strcpy m1 (to + 1) fr else Some m1 }"

text \<open>\<open>for (; *s; ++s);\<close> gives the offset of the final NUL.\<close>

definition str_end :: "u8 list \<Rightarrow> nat \<Rightarrow> nat option" where
  "str_end m s = map_option (\<lambda>k. s + k) (strlen (drop s m))"

text \<open>\<open>while ((*s++ = *append++) != 0);\<close> is the loop of \<open>strcpy\<close>.\<close>

definition strcat :: "u8 list \<Rightarrow> nat \<Rightarrow> u8 list \<Rightarrow> u8 list option" where
  "strcat m s app = do { s1 \<leftarrow> str_end m s; strcpy m s1 app }"

fun strncpy_loop :: "u8 list \<Rightarrow> nat \<Rightarrow> u8 list \<Rightarrow> nat \<Rightarrow> u8 list option" where
  "strncpy_loop m d [] n = None"
| "strncpy_loop m d (c # s) n =
    do {
      m1 \<leftarrow> wr m d c;
      if c = 0 then memset m1 (d + 1) 0 (n - 1)
      else if n - 1 \<noteq> 0 then strncpy_loop m1 (d + 1) s (n - 1)
      else Some m1
    }"

definition strncpy :: "u8 list \<Rightarrow> nat \<Rightarrow> u8 list \<Rightarrow> nat \<Rightarrow> u8 list option" where
  "strncpy m dst src n = (if n \<noteq> 0 then strncpy_loop m dst src n else Some m)"

text \<open>The loop of \<open>strncat\<close>, with the final \<open>*d = 0\<close>.\<close>

fun strncat_loop :: "u8 list \<Rightarrow> nat \<Rightarrow> u8 list \<Rightarrow> nat \<Rightarrow> u8 list option" where
  "strncat_loop m d [] n = None"
| "strncat_loop m d (c # s) n =
    do {
      m1 \<leftarrow> wr m d c;
      if c = 0 then wr m1 d 0
      else if n - 1 \<noteq> 0 then strncat_loop m1 (d + 1) s (n - 1)
      else wr m1 (d + 1) 0
    }"

definition strncat :: "u8 list \<Rightarrow> nat \<Rightarrow> u8 list \<Rightarrow> nat \<Rightarrow> u8 list option" where
  "strncat m dst src n = (if n \<noteq> 0 then do { d \<leftarrow> str_end m dst; strncat_loop m d src n } else Some m)"

text \<open>
  The loop of \<open>strlcpy\<close>, from the test \<open>--n != 0\<close> on; the result is the array, \<open>d\<close>, the rest of the source, the
  number of characters read and the last \<open>n\<close>.
\<close>

fun strlcpy_loop :: "u8 list \<Rightarrow> nat \<Rightarrow> u8 list \<Rightarrow> nat \<Rightarrow> nat \<Rightarrow> (u8 list \<times> nat \<times> u8 list \<times> nat \<times> nat) option" where
  "strlcpy_loop m d s k n =
    (if n - 1 \<noteq> 0 then
       (case s of
         [] \<Rightarrow> None
       | c # s' \<Rightarrow>
         do { m1 \<leftarrow> wr m d c; if c = 0 then Some (m1, d + 1, s', k + 1, n - 1) else strlcpy_loop m1 (d + 1) s' (k + 1) (n - 1) })
     else Some (m, d, s, k, n - 1))"

declare strlcpy_loop.simps [simp del]

definition strlcpy :: "u8 list \<Rightarrow> nat \<Rightarrow> u8 list \<Rightarrow> nat \<Rightarrow> (u8 list \<times> nat) option" where
  "strlcpy m dst src siz =
    do {
      (m1, d, s, k, n) \<leftarrow> (if siz \<noteq> 0 then strlcpy_loop m dst src 0 siz else Some (m, dst, src, 0, 0));
      if n = 0 then
        do { m2 \<leftarrow> (if siz \<noteq> 0 then wr m1 d 0 else Some m1); l \<leftarrow> strlen s; Some (m2, k + l) }
      else Some (m1, k - 1)
    }"

text \<open>\<open>while (n-- != 0 && *d != 0) d++;\<close> gives \<open>dlen\<close>.\<close>

fun strlcat_end :: "u8 list \<Rightarrow> nat \<Rightarrow> nat option" where
  "strlcat_end d 0 = Some 0"
| "strlcat_end [] (Suc n) = None"
| "strlcat_end (c # d) (Suc n) = (if c \<noteq> 0 then map_option Suc (strlcat_end d n) else Some 0)"

text \<open>The copying loop of \<open>strlcat\<close>; the result is the array, \<open>d\<close> and the number of characters read.\<close>

fun strlcat_loop :: "u8 list \<Rightarrow> nat \<Rightarrow> u8 list \<Rightarrow> nat \<Rightarrow> (u8 list \<times> nat \<times> nat) option" where
  "strlcat_loop m d [] n = None"
| "strlcat_loop m d (c # s) n =
    (if c \<noteq> 0 then
       do {
         (m1, d1, n1) \<leftarrow> (if n \<noteq> 1 then do { m1 \<leftarrow> wr m d c; Some (m1, d + 1, n - 1) } else Some (m, d, n));
         (m2, d2, k) \<leftarrow> strlcat_loop m1 d1 s n1;
         Some (m2, d2, k + 1)
       }
     else Some (m, d, 0))"

definition strlcat :: "u8 list \<Rightarrow> nat \<Rightarrow> u8 list \<Rightarrow> nat \<Rightarrow> (u8 list \<times> nat) option" where
  "strlcat m dst src siz =
    do {
      dlen \<leftarrow> strlcat_end (drop dst m) siz;
      if siz - dlen = 0 then do { l \<leftarrow> strlen src; Some (m, dlen + l) }
      else
        do {
          (m1, d, k) \<leftarrow> strlcat_loop m (dst + dlen) src (siz - dlen);
          m2 \<leftarrow> wr m1 d 0;
          Some (m2, dlen + k)
        }
    }"

text \<open>The copies: \<open>mem\<close> is the array \<open>malloc\<close> returned, with arbitrary contents, or null.\<close>

definition strdup :: "(nat \<Rightarrow> u8 list option) \<Rightarrow> u8 list \<Rightarrow> u8 list option option" where
  "strdup malloc str =
    do {
      l \<leftarrow> strlen str;
      case malloc (l + 1) of
        None \<Rightarrow> Some None
      | Some copy \<Rightarrow> do { bs \<leftarrow> rdn str 0 (l + 1); m1 \<leftarrow> blit copy 0 bs; Some (Some m1) }
    }"

definition strndup :: "(nat \<Rightarrow> u8 list option) \<Rightarrow> u8 list \<Rightarrow> nat \<Rightarrow> u8 list option option" where
  "strndup malloc s n =
    do {
      slen \<leftarrow> strlen s;
      let n = (if slen < n then slen else n);
      case malloc (n + 1) of
        None \<Rightarrow> Some None
      | Some copy \<Rightarrow> do { bs \<leftarrow> rdn s 0 n; m1 \<leftarrow> blit copy 0 bs; m2 \<leftarrow> wr m1 n 0; Some (Some m2) }
    }"

definition strxfrm :: "u8 list \<Rightarrow> nat \<Rightarrow> u8 list \<Rightarrow> nat \<Rightarrow> (u8 list \<times> nat) option" where
  "strxfrm m s1 s2 n =
    do {
      l \<leftarrow> strlen s2;
      let len = l + 1;
      let n = (if len < n then len else n);
      bs \<leftarrow> rdn s2 0 n;
      m1 \<leftarrow> blit m s1 bs;
      Some (m1, len)
    }"

section \<open>Blocks that move\<close>

text \<open>The array after the \<open>n\<close> elements at \<open>s\<close> have been moved to \<open>d\<close>.\<close>

definition moved :: "'a list \<Rightarrow> nat \<Rightarrow> nat \<Rightarrow> nat \<Rightarrow> 'a list" where
  "moved m d s n = map (\<lambda>k. if d \<le> k \<and> k < d + n then m ! (s + (k - d)) else m ! k) [0..<length m]"

lemma length_moved [simp]: "length (moved m d s n) = length m"
  by (simp add: moved_def)

lemma nth_moved: "k < length m \<Longrightarrow> moved m d s n ! k = (if d \<le> k \<and> k < d + n then m ! (s + (k - d)) else m ! k)"
  by (simp add: moved_def)

lemma moved_0 [simp]: "moved m d s 0 = m"
  by (auto intro!: nth_equalityI simp: nth_moved)

lemma moved_blit:
  "s + n \<le> length m \<Longrightarrow> d + n \<le> length m \<Longrightarrow> blit m d (take n (drop s m)) = Some (moved m d s n)"
  by (auto intro!: nth_equalityI simp: blit_def nth_moved nth_append add.commute min_def)

lemma copy_w:
  "s + n \<le> length m \<Longrightarrow> d + n \<le> length m \<Longrightarrow> rdn m s n \<bind> blit m d = Some (moved m d s n)"
  by (simp add: rdn_def moved_blit)

lemma moved_fwd:
  "d \<le> s \<Longrightarrow> s + a + b \<le> length m \<Longrightarrow> moved (moved m d s a) (d + a) (s + a) b = moved m d s (a + b)"
  by (auto intro!: nth_equalityI simp: nth_moved)

lemma moved_bwd:
  "s \<le> d \<Longrightarrow> d + a + b \<le> length m \<Longrightarrow> moved (moved m (d + a) (s + a) b) d s a = moved m d s (a + b)"
  by (auto intro!: nth_equalityI simp: nth_moved)

lemma tloop_fwd_moved:
  "dst \<le> src \<Longrightarrow> src + t * w \<le> length m \<Longrightarrow>
    tloop_fwd w m dst src t = Some (moved m dst src (t * w), dst + t * w, src + t * w)"
proof (induction t arbitrary: m dst src)
  case (Suc t)
  have "rdn m src w \<bind> blit m dst = Some (moved m dst src w)"
    using Suc.prems by (intro copy_w) auto
  then have "tloop_fwd w m dst src (Suc t) = tloop_fwd w (moved m dst src w) (dst + w) (src + w) t"
    by (auto simp: bind_eq_Some_conv)
  also have "\<dots> = Some (moved (moved m dst src w) (dst + w) (src + w) (t * w), dst + w + t * w, src + w + t * w)"
    using Suc.prems by (intro Suc.IH) auto
  finally show ?case
    using Suc.prems moved_fwd[of dst src w "t * w" m] by (simp add: algebra_simps)
qed simp

lemma tloop_bwd_moved:
  "src \<le> dst \<Longrightarrow> dst + t * w \<le> length m \<Longrightarrow>
    tloop_bwd w m (dst + t * w) (src + t * w) t = Some (moved m dst src (t * w), dst, src)"
proof (induction t arbitrary: m)
  case (Suc t)
  have "rdn m (src + t * w) w \<bind> blit m (dst + t * w) = Some (moved m (dst + t * w) (src + t * w) w)"
    using Suc.prems by (intro copy_w) auto
  then have "tloop_bwd w m (dst + Suc t * w) (src + Suc t * w) (Suc t) =
      tloop_bwd w (moved m (dst + t * w) (src + t * w) w) (dst + t * w) (src + t * w) t"
    by (auto simp: bind_eq_Some_conv algebra_simps)
  also have "\<dots> = Some (moved (moved m (dst + t * w) (src + t * w) w) dst src (t * w), dst, src)"
    using Suc.prems by (intro Suc.IH) auto
  finally show ?case
    using Suc.prems moved_bwd[of src dst "t * w" w m] by (simp add: algebra_simps)
qed simp

lemma mask3: "x AND 3 = take_bit 2 x" "x AND 3 = x mod 4" for x :: nat
proof -
  show "x AND 3 = take_bit 2 x"
    by (simp add: take_bit_eq_mask mask_eq_exp_minus_1)
  then show "x AND 3 = x mod 4"
    by (simp add: take_bit_eq_mod)
qed

lemma or_mask: "(x OR y) AND 3 = 0 \<longleftrightarrow> x AND 3 = 0 \<and> y AND 3 = 0" for x y :: nat
  unfolding mask3(1) by (auto simp: bit_eq_iff bit_simps)

lemma xor_mask: "(x XOR y) AND 3 = 0 \<longleftrightarrow> x AND 3 = y AND 3" for x y :: nat
  unfolding mask3(1) by (auto simp: bit_eq_iff bit_simps)

text \<open>The three loops of a forward copy move all bytes.\<close>

lemma fwd_words:
  assumes "dst \<le> src" "src + n \<le> length m"
  shows "do { (m, dst, src) \<leftarrow> tloop_fwd 4 m dst src (n div 4); (m, dst, src) \<leftarrow> tloop_fwd 1 m dst src (n AND 3); Some m } =
    Some (moved m dst src n)"
proof -
  have n: "n div 4 * 4 + n mod 4 = n"
    by simp
  have "tloop_fwd 4 m dst src (n div 4) = Some (moved m dst src (n div 4 * 4), dst + n div 4 * 4, src + n div 4 * 4)"
    using assms n by (intro tloop_fwd_moved) linarith+
  moreover have "tloop_fwd 1 (moved m dst src (n div 4 * 4)) (dst + n div 4 * 4) (src + n div 4 * 4) (n mod 4 ) =
      Some (moved (moved m dst src (n div 4 * 4)) (dst + n div 4 * 4) (src + n div 4 * 4) (n mod 4),
        dst + n div 4 * 4 + n mod 4, src + n div 4 * 4 + n mod 4)"
    using assms n tloop_fwd_moved[of _ _ "n mod 4" 1] by simp
  ultimately show ?thesis
    using moved_fwd[of dst src "n div 4 * 4" "n mod 4" m] assms n by (simp add: mask3(2))
qed

lemma bwd_words:
  assumes "src \<le> dst" "dst + n \<le> length m"
  shows "do { (m, dst, src) \<leftarrow> tloop_bwd 4 m (dst + n) (src + n) (n div 4); (m, dst, src) \<leftarrow> tloop_bwd 1 m dst src (n AND 3); Some m } =
    Some (moved m dst src n)"
proof -
  let ?a = "n mod 4" and ?b = "n div 4 * 4"
  have n: "?a + ?b = n"
    by simp
  have "tloop_bwd 4 m (dst + ?a + ?b) (src + ?a + ?b) (n div 4) = Some (moved m (dst + ?a) (src + ?a) ?b, dst + ?a, src + ?a)"
    using assms n by (intro tloop_bwd_moved) linarith+
  moreover have "tloop_bwd 1 (moved m (dst + ?a) (src + ?a) ?b) (dst + ?a) (src + ?a) ?a =
      Some (moved (moved m (dst + ?a) (src + ?a) ?b) dst src ?a, dst, src)"
    using assms n tloop_bwd_moved[of src dst ?a 1] by simp
  ultimately show ?thesis
    using moved_bwd[of src dst ?a ?b m] assms n by (simp add: mask3(2) add.assoc)
qed

text \<open>The number of bytes copied to align the pointers is at least one and at most all.\<close>

lemma align_bounds:
  fixes t d n :: nat
  assumes "n \<noteq> 0" "\<not> (t AND 3 = 0 \<and> d AND 3 = 0)"
  shows "1 \<le> align_fwd t d n \<and> align_fwd t d n \<le> n" "1 \<le> align_bwd t d n \<and> align_bwd t d n \<le> n"
proof -
  have "t AND 3 < 4"
    by (simp add: mask3(2))
  then show "1 \<le> align_fwd t d n \<and> align_fwd t d n \<le> n" "1 \<le> align_bwd t d n \<and> align_bwd t d n \<le> n"
    using assms xor_mask[of t d] by (auto simp: align_fwd_def align_bwd_def)
qed

lemma bcopy_fwd:
  assumes "dst < src" "src + n \<le> length m" "n \<noteq> 0"
  shows "bcopy base m src dst n = Some (moved m dst src n)"
proof (cases "(base + src) AND 3 = 0 \<and> (base + dst) AND 3 = 0")
  case True
  then show ?thesis
    using assms fwd_words[of dst src n m] by (simp add: bcopy_def or_mask)
next
  case False
  define k where "k = align_fwd (base + src) (base + dst) n"
  have k: "1 \<le> k" "k \<le> n"
    using align_bounds(1)[OF assms(3) False] by (simp_all add: k_def)
  have "tloop1 (tloop_fwd 1 m dst src) k = Some (moved m dst src k, dst + k, src + k)"
    using k assms tloop_fwd_moved[of dst src k 1 m] by (simp add: tloop1_def)
  then have "bcopy base m src dst n = Some (moved (moved m dst src k) (dst + k) (src + k) (n - k))"
    using assms False k fwd_words[of "dst + k" "src + k" "n - k" "moved m dst src k"]
    by (simp add: bcopy_def or_mask Let_def flip: k_def)
  then show ?thesis
    using moved_fwd[of dst src k "n - k" m] assms k by simp
qed

lemma bcopy_bwd:
  assumes "src < dst" "dst + n \<le> length m" "n \<noteq> 0"
  shows "bcopy base m src dst n = Some (moved m dst src n)"
proof (cases "(base + (src + n)) AND 3 = 0 \<and> (base + (dst + n)) AND 3 = 0")
  case True
  then show ?thesis
    using assms bwd_words[of src dst n m] by (simp add: bcopy_def or_mask)
next
  case False
  define k where "k = align_bwd (base + (src + n)) (base + (dst + n)) n"
  have k: "1 \<le> k" "k \<le> n"
    using align_bounds(2)[OF assms(3) False] by (simp_all add: k_def)
  then have "tloop1 (tloop_bwd 1 m (dst + n) (src + n)) k =
      Some (moved m (dst + (n - k)) (src + (n - k)) k, dst + (n - k), src + (n - k))"
    using assms tloop_bwd_moved[of "src + (n - k)" "dst + (n - k)" k 1 m] by (simp add: tloop1_def)
  then have "bcopy base m src dst n = Some (moved (moved m (dst + (n - k)) (src + (n - k)) k) dst src (n - k))"
    using assms False k bwd_words[of src dst "n - k" "moved m (dst + (n - k)) (src + (n - k)) k"]
    by (simp add: bcopy_def or_mask Let_def flip: k_def)
  then show ?thesis
    using moved_bwd[of src dst "n - k" k m] assms k by simp
qed

lemma moved_same [simp]: "moved m d d n = m"
  by (auto intro!: nth_equalityI simp: nth_moved)

lemma bcopy_moved:
  assumes "src + n \<le> length m" "dst + n \<le> length m"
  shows "bcopy base m src dst n = Some (moved m dst src n)"
proof (cases "n = 0 \<or> dst = src")
  case False
  then show ?thesis
    using assms bcopy_fwd[of dst src n m base] bcopy_bwd[of src dst n m base] by (cases "dst < src") auto
qed (auto simp: bcopy_def)

section \<open>Blocks that change places\<close>

text \<open>The array after the \<open>n\<close> elements at \<open>p\<close> and at \<open>q\<close> have changed places; blocks that overlap are left.\<close>

definition exch_up :: "'a list \<Rightarrow> nat \<Rightarrow> nat \<Rightarrow> nat \<Rightarrow> 'a list" where
  "exch_up m p q n =
    take p m @ take n (drop q m) @ take (q - p - n) (drop (p + n) m) @ take n (drop p m) @ drop (q + n) m"

definition exch :: "'a list \<Rightarrow> nat \<Rightarrow> nat \<Rightarrow> nat \<Rightarrow> 'a list" where
  "exch m p q n = (if p + n \<le> q then exch_up m p q n else if q + n \<le> p then exch_up m q p n else m)"

definition apart :: "nat \<Rightarrow> nat \<Rightarrow> nat \<Rightarrow> bool" where
  "apart p q n \<longleftrightarrow> p = q \<or> p + n \<le> q \<or> q + n \<le> p"

lemma exch_blocks:
  "length B = length D \<Longrightarrow> n = length B \<Longrightarrow> p = length A \<Longrightarrow> q = length A + length B + length C \<Longrightarrow>
    exch (A @ B @ C @ D @ E) p q n = A @ D @ C @ B @ E"
  by (simp add: exch_def exch_up_def)

lemma exch_up_0 [simp]: "p \<le> q \<Longrightarrow> exch_up m p q 0 = m"
  by (simp add: exch_up_def) (metis append_take_drop_id drop_drop le_add_diff_inverse2)

lemma exch_0 [simp]: "exch m p q 0 = m"
  by (simp add: exch_def)

lemma exch_same [simp]: "exch m p p n = m"
  by (simp add: exch_def)

lemma exch_sym: "exch m p q n = exch m q p n"
proof (cases "n = 0")
  case False
  then show ?thesis
    by (simp add: exch_def)
qed simp

text \<open>Every exchange of blocks that are apart is one of the shape above.\<close>

lemma blocks_of:
  assumes "p + n \<le> q" "q + n \<le> length m"
  obtains A B C D E where "m = A @ B @ C @ D @ E" "length A = p" "length B = n" "length D = n" "p + n + length C = q"
proof -
  have "m = take p m @ take n (drop p m) @ take (q - (p + n)) (drop (p + n) m) @ take n (drop q m) @ drop n (drop q m)"
  proof -
    have "take n (drop q m) @ drop n (drop q m) = drop q m"
      by (rule append_take_drop_id)
    moreover have "take (q - (p + n)) (drop (p + n) m) @ drop q m = drop (p + n) m"
      using append_take_drop_id[of "q - (p + n)" "drop (p + n) m"] assms by simp
    moreover have "take n (drop p m) @ drop (p + n) m = drop p m"
      using append_take_drop_id[of n "drop p m"] by (simp add: add.commute)
    ultimately show ?thesis
      by simp
  qed
  then show ?thesis
    using assms by (intro that[of "take p m" "take n (drop p m)" "take (q - (p + n)) (drop (p + n) m)" "take n (drop q m)"]) auto
qed

lemma exch_cases:
  assumes "apart p q n" "p + n \<le> length m" "q + n \<le> length m"
    "\<And>A B C D E p q. m = A @ B @ C @ D @ E \<Longrightarrow> length A = p \<Longrightarrow> length B = n \<Longrightarrow> length D = n \<Longrightarrow> p + n + length C = q \<Longrightarrow>
      P p q (A @ D @ C @ B @ E)"
    "\<And>p q. P p q (exch m p q n) \<Longrightarrow> P q p (exch m p q n)" "P p p m"
  shows "P p q (exch m p q n)"
proof -
  have *: "P p q (exch m p q n)" if pq: "p + n \<le> q" "q + n \<le> length m" for p q
  proof -
    obtain A B C D E where b: "m = A @ B @ C @ D @ E" "length A = p" "length B = n" "length D = n" "p + n + length C = q"
      using blocks_of[OF pq] .
    then have "exch m p q n = A @ D @ C @ B @ E"
      by (auto intro: exch_blocks)
    then show ?thesis
      using assms(4)[OF b] by simp
  qed
  consider "p = q" | "p + n \<le> q" | "q + n \<le> p"
    using assms(1) by (auto simp: apart_def)
  then show ?thesis
  proof cases
    case 3
    then show ?thesis
      using *[of q p] assms(2,5) exch_sym[of m p q n] by auto
  qed (use * assms in auto)
qed

lemma mset_exch:
  assumes "apart p q n" "p + n \<le> length m" "q + n \<le> length m"
  shows "mset (exch m p q n) = mset m"
  by (rule exch_cases[OF assms, where P = "\<lambda>_ _ r. mset r = mset m"]) auto

lemma length_exch [simp]:
  assumes "apart p q n" "p + n \<le> length m" "q + n \<le> length m"
  shows "length (exch m p q n) = length m"
  using mset_exch[OF assms] by (rule mset_eq_length)

lemma exch_step:
  assumes "apart p q (a + b)" "p + (a + b) \<le> length m" "q + (a + b) \<le> length m"
  shows "exch (exch m p q a) (p + a) (q + a) b = exch m p q (a + b)"
proof (rule exch_cases[OF assms, where P = "\<lambda>p q r. exch (exch m p q a) (p + a) (q + a) b = r"])
  fix A B C D E p q
  assume m: "m = A @ B @ C @ D @ E" "length A = p" "length B = a + b" "length D = a + b" "p + (a + b) + length C = q"
  define B1 B2 D1 D2 where d: "B1 = take a B" "B2 = drop a B" "D1 = take a D" "D2 = drop a D"
  have BD: "B = B1 @ B2" "D = D1 @ D2"
    by (simp_all add: d)
  have l: "length B1 = a" "length B2 = b" "length D1 = a" "length D2 = b"
    using m by (simp_all add: d)
  have "exch (A @ B1 @ (B2 @ C) @ D1 @ (D2 @ E)) p q a = A @ D1 @ (B2 @ C) @ B1 @ (D2 @ E)"
    by (rule exch_blocks) (use m l in auto)
  moreover have "exch ((A @ D1) @ B2 @ (C @ B1) @ D2 @ E) (p + a) (q + a) b = (A @ D1) @ D2 @ (C @ B1) @ B2 @ E"
    by (rule exch_blocks) (use m l in auto)
  ultimately show "exch (exch m p q a) (p + a) (q + a) b = A @ D @ C @ B @ E"
    by (simp add: m(1) BD)
qed (simp_all add: exch_sym)

lemma exch_1:
  assumes "i < length m" "j < length m"
  shows "exch m i j 1 = m[i := m ! j, j := m ! i]"
proof -
  have 1: "apart i j 1" "i + 1 \<le> length m" "j + 1 \<le> length m"
    using assms by (auto simp: apart_def)
  show ?thesis
  proof (rule exch_cases[OF 1, where P = "\<lambda>i j r. r = m[i := m ! j, j := m ! i]"])
    fix A B C D E p q
    assume m: "m = A @ B @ C @ D @ E" "length A = p" "length B = 1" "length D = 1" "p + 1 + length C = q"
    obtain b d where "B = [b]" "D = [d]"
      using m(3,4) by (auto simp: length_Suc_conv)
    then show "A @ D @ C @ B @ E = m[p := m ! q, q := m ! p]"
      using m by (auto simp: nth_append list_update_append)
  next
    fix p q
    assume "exch m p q 1 = m[p := m ! q, q := m ! p]"
    then show "exch m p q 1 = m[q := m ! p, p := m ! q]"
      by (cases "p = q") (simp_all add: list_update_swap)
  qed simp
qed

lemma memswap_exch:
  "apart p q n \<Longrightarrow> p + n \<le> length m \<Longrightarrow> q + n \<le> length m \<Longrightarrow> memswap m p q n = Some (exch m p q n)"
proof (induction n arbitrary: m p q)
  case (Suc n)
  have e: "exch m p q 1 = m[p := m ! q, q := m ! p]"
    using Suc.prems by (intro exch_1) auto
  have "memswap m p q (Suc n) = memswap (exch m p q 1) (p + 1) (q + 1) n"
    unfolding e using Suc.prems by (simp add: rd_def wr_def)
  also have "\<dots> = Some (exch (exch m p q 1) (p + 1) (q + 1) n)"
    using Suc.prems by (intro Suc.IH) (auto simp: apart_def e)
  also have "exch (exch m p q 1) (p + 1) (q + 1) n = exch m p q (Suc n)"
    using exch_step[of p q 1 n m] Suc.prems by simp
  finally show ?case .
qed simp

section \<open>Strings in a buffer\<close>

lemma wr_blit: "wr m d c \<bind> (\<lambda>m1. blit m1 (d + 1) xs) = blit m d (c # xs)"
  by (auto simp: wr_def blit_def take_Suc_conv_app_nth)

lemma blit_1: "blit m d [c] = wr m d c"
  by (auto simp: wr_def blit_def upd_conv_take_nth_drop)

lemma blit_Nil: "d \<le> length m \<Longrightarrow> blit m d [] = Some m"
  by (simp add: blit_def)

lemma wr_length: "wr m d c = Some m1 \<Longrightarrow> length m1 = length m"
  by (auto simp: wr_def split: if_splits)

lemma wr_ok: "d < length m \<Longrightarrow> \<exists>m1. wr m d c = Some m1 \<and> length m1 = length m"
  by (simp add: wr_def)

text \<open>A loop that writes one byte and goes on writes a block.\<close>

lemma wr_then:
  assumes "d < length m" "\<And>m1. length m1 = length m \<Longrightarrow> f m1 = blit m1 (d + 1) xs"
  shows "wr m d c \<bind> f = blit m d (c # xs)"
  using assms by (auto simp: wr_blit[symmetric] wr_def)

lemma memset_blit: "q + n \<le> length m \<Longrightarrow> memset m q c n = blit m q (replicate n (of_int c))"
proof (induction n arbitrary: m q)
  case (Suc n)
  show ?case
    unfolding memset.simps replicate_Suc by (rule wr_then) (use Suc in auto)
qed (simp add: blit_Nil)

lemma strcpy_blit: "0 \<notin> set x \<Longrightarrow> strcpy m d (x @ 0 # r) = blit m d (x @ [0])"
proof (induction x arbitrary: m d)
  case Nil
  then show ?case
    by (cases "wr m d 0") (simp_all add: blit_1)
next
  case (Cons c x)
  then show ?case
    using wr_blit[of m d c "x @ [0]"] by simp
qed

lemma strncpy_loop_blit:
  "0 \<notin> set x \<Longrightarrow> n \<noteq> 0 \<Longrightarrow> d + n \<le> length m \<Longrightarrow>
    strncpy_loop m d (x @ 0 # r) n = blit m d (take n x @ replicate (n - length x) 0)"
proof (induction x arbitrary: m d n)
  case Nil
  obtain k where n: "n = Suc k"
    using Nil.prems(2) by (cases n) auto
  have "wr m d 0 \<bind> (\<lambda>m1. memset m1 (d + 1) 0 k) = blit m d (0 # replicate k 0)"
    by (rule wr_then) (use Nil n memset_blit[of "d + 1" k _ 0] in auto)
  then show ?case
    by (simp add: n)
next
  case (Cons c x)
  obtain k where n: "n = Suc k"
    using Cons.prems(2) by (cases n) auto
  show ?case
  proof (cases "k = 0")
    case True
    then show ?thesis
      using Cons.prems by (cases "wr m d c") (simp_all add: n blit_1)
  next
    case False
    have "wr m d c \<bind> (\<lambda>m1. strncpy_loop m1 (d + 1) (x @ 0 # r) k) = blit m d (c # take k x @ replicate (k - length x) 0)"
      by (rule wr_then) (use Cons False n in auto)
    then show ?thesis
      using False Cons.prems by (simp add: n)
  qed
qed

lemma strncpy_blit:
  "0 \<notin> set x \<Longrightarrow> d + n \<le> length m \<Longrightarrow> strncpy m d (x @ 0 # r) n = blit m d (take n x @ replicate (n - length x) 0)"
  by (simp add: strncpy_def strncpy_loop_blit blit_Nil)

text \<open>A string \<open>y\<close> in the buffer \<open>m\<close> at \<open>d\<close>.\<close>

definition str_at :: "u8 list \<Rightarrow> nat \<Rightarrow> u8 list \<Rightarrow> bool" where
  "str_at m d y \<longleftrightarrow> d \<le> length m \<and> 0 \<notin> set y \<and> (\<exists>r. drop d m = y @ 0 # r)"

lemma str_at_end: "str_at m d y \<Longrightarrow> str_end m d = Some (d + length y)"
  by (auto simp: str_at_def str_end_def)

lemma str_at_bound: "str_at m d y \<Longrightarrow> d + length y < length m"
proof -
  assume "str_at m d y"
  then obtain r where "d \<le> length m" "drop d m = y @ 0 # r"
    by (auto simp: str_at_def)
  then show ?thesis
    using length_drop[of d m] by simp
qed

lemma strcat_blit: "str_at m d y \<Longrightarrow> 0 \<notin> set x \<Longrightarrow> strcat m d (x @ 0 # r) = blit m (d + length y) (x @ [0])"
  by (simp add: strcat_def str_at_end strcpy_blit)

lemma strncat_loop_blit:
  "0 \<notin> set x \<Longrightarrow> n \<noteq> 0 \<Longrightarrow> d + min n (length x) < length m \<Longrightarrow>
    strncat_loop m d (x @ 0 # r) n = blit m d (take n x @ [0])"
proof (induction x arbitrary: m d n)
  case Nil
  then show ?case
    by (simp add: blit_1 wr_def)
next
  case (Cons c x)
  obtain k where n: "n = Suc k"
    using Cons.prems(2) by (cases n) auto
  have "wr m d c \<bind> (\<lambda>m1. if k \<noteq> 0 then strncat_loop m1 (d + 1) (x @ 0 # r) k else wr m1 (d + 1) 0) = blit m d (c # take k x @ [0])"
    by (rule wr_then) (use Cons n in \<open>auto simp: blit_1\<close>)
  then show ?case
    using Cons.prems by (cases k) (simp_all add: n)
qed

lemma strncat_blit:
  "str_at m d y \<Longrightarrow> 0 \<notin> set x \<Longrightarrow> d + length y + min n (length x) < length m \<Longrightarrow>
    strncat m d (x @ 0 # r) n = (if n = 0 then Some m else blit m (d + length y) (take n x @ [0]))"
  by (simp add: strncat_def str_at_end strncat_loop_blit)

lemma strlcpy_loop_exact:
  "0 \<notin> set x \<Longrightarrow> n \<noteq> 0 \<Longrightarrow> d + min n (Suc (length x)) \<le> length m \<Longrightarrow>
    \<exists>m1. strlcpy_loop m d (x @ 0 # r) k n =
      (if n \<le> length x + 1 then Some (m1, d + (n - 1), drop (n - 1) x @ 0 # r, k + (n - 1), 0)
       else Some (m1, d + length x + 1, r, k + length x + 1, n - 1 - length x)) \<and>
      (if n \<le> length x + 1 then wr m1 (d + (n - 1)) 0 else Some m1) = blit m d (take (n - 1) x @ [0])"
proof (induction x arbitrary: m d k n)
  case Nil
  then show ?case
    by (auto simp: strlcpy_loop.simps wr_def blit_1)
next
  case (Cons c x)
  show ?case
  proof (cases "n = 1")
    case True
    then show ?thesis
      using Cons.prems by (simp add: strlcpy_loop.simps blit_1)
  next
    case False
    then obtain j where n: "n = Suc (Suc j)"
      using Cons.prems(2) by (metis One_nat_def not0_implies_Suc)
    obtain m1 where m1: "wr m d c = Some m1" "length m1 = length m"
      using wr_ok[of d m c] Cons.prems(3) n by auto
    have "strlcpy_loop m d ((c # x) @ 0 # r) k n = strlcpy_loop m1 (d + 1) (x @ 0 # r) (k + 1) (n - 1)"
      using Cons.prems n m1 by (subst strlcpy_loop.simps) simp
    moreover have "blit m d (c # take j x @ [0]) = blit m1 (d + 1) (take j x @ [0])"
      using wr_blit[of m d c "take j x @ [0]"] m1 by simp
    ultimately show ?thesis
      using Cons.IH[of "n - 1" "d + 1" m1 "k + 1"] Cons.prems n m1(2) by auto
  qed
qed

lemma strlcat_end_string:
  "0 \<notin> set y \<Longrightarrow> strlcat_end (y @ 0 # r) siz = Some (min siz (length y))"
proof (induction y arbitrary: siz)
  case Nil
  then show ?case
    by (cases siz) auto
next
  case (Cons c y)
  then show ?case
    by (cases siz) auto
qed

lemma strlcat_loop_exact:
  "0 \<notin> set x \<Longrightarrow> n \<noteq> 0 \<Longrightarrow> d + min n (Suc (length x)) \<le> length m \<Longrightarrow>
    \<exists>m1 d1. strlcat_loop m d (x @ 0 # r) n = Some (m1, d1, length x) \<and> wr m1 d1 0 = blit m d (take (n - 1) x @ [0])"
proof (induction x arbitrary: m d n)
  case Nil
  then show ?case
    by (simp add: blit_1)
next
  case (Cons c x)
  show ?case
  proof (cases "n = 1")
    case True
    then show ?thesis
      using Cons.IH[of 1 d m] Cons.prems by auto
  next
    case False
    then obtain j where n: "n = Suc (Suc j)"
      using Cons.prems(2) by (metis One_nat_def not0_implies_Suc)
    obtain m1 where m1: "wr m d c = Some m1" "length m1 = length m"
      using wr_ok[of d m c] Cons.prems(3) n by auto
    have "blit m d (c # take j x @ [0]) = blit m1 (d + 1) (take j x @ [0])"
      using wr_blit[of m d c "take j x @ [0]"] m1 by simp
    then show ?thesis
      using Cons.IH[of "n - 1" "d + 1" m1] Cons.prems n m1 by auto
  qed
qed

text \<open>What a string written at \<open>d + k\<close> leaves in a buffer of \<open>siz\<close> bytes at \<open>d\<close>, whose first \<open>k\<close> bytes hold \<open>y\<close>.\<close>

lemma blit_string:
  assumes "blit m (d + length y) (z @ [0]) = Some m1" "take (length y) (drop d m) = y" "0 \<notin> set (y @ z)"
    "length y + length z < siz" "d + siz \<le> length m"
  shows "length m1 = length m \<and> take d m1 = take d m \<and> drop (d + siz) m1 = drop (d + siz) m \<and> str_at m1 d (y @ z)"
proof -
  have m1: "m1 = take (d + length y) m @ z @ 0 # drop (d + length y + length z + 1) m"
    using assms(1) by (auto simp: blit_def split: if_splits)
  have t: "take (d + length y) m = take d m @ y"
    using assms(2) take_add[of d "length y" m] by simp
  have "drop d m1 = y @ z @ 0 # drop (d + length y + length z + 1) m"
    using assms(4,5) by (simp add: m1 t)
  moreover have "drop (d + siz) m1 = drop (d + siz) m"
    using assms(4,5) by (simp add: m1 t drop_Cons' add.commute)
  ultimately show ?thesis
    using assms(3-5) by (auto simp: m1 t str_at_def)
qed

lemma blit_fits: "d + length bs \<le> length m \<Longrightarrow> \<exists>m1. blit m d bs = Some m1"
  by (simp add: blit_def)

lemma strlcpy_blit:
  assumes "0 \<notin> set x" "siz \<noteq> 0" "d + siz \<le> length m"
  obtains m1 where "strlcpy m d (x @ 0 # r) siz = Some (m1, length x)" "blit m d (take (siz - 1) x @ [0]) = Some m1"
proof -
  have "d + min siz (Suc (length x)) \<le> length m"
    using assms(3) by simp
  from strlcpy_loop_exact[OF assms(1,2) this, of r 0] obtain m0 where m0: "strlcpy_loop m d (x @ 0 # r) 0 siz =
      (if siz \<le> length x + 1 then Some (m0, d + (siz - 1), drop (siz - 1) x @ 0 # r, siz - 1, 0)
       else Some (m0, d + length x + 1, r, length x + 1, siz - 1 - length x))"
    "(if siz \<le> length x + 1 then wr m0 (d + (siz - 1)) 0 else Some m0) = blit m d (take (siz - 1) x @ [0])"
    by auto
  have "\<exists>m1. blit m d (take (siz - 1) x @ [0]) = Some m1"
    using assms by (intro blit_fits) auto
  then obtain m1 where m1: "blit m d (take (siz - 1) x @ [0]) = Some m1"
    by blast
  have "0 \<notin> set (drop (siz - 1) x)"
    using assms(1) by (meson in_set_dropD)
  then show ?thesis
    using m0 m1 assms by (intro that[of m1]) (auto simp: strlcpy_def split: if_splits)
qed

lemma strlcat_blit:
  assumes "0 \<notin> set x" "str_at m d y" "length y < siz" "d + siz \<le> length m"
  obtains m1 where "strlcat m d (x @ 0 # r) siz = Some (m1, length y + length x)"
    "blit m (d + length y) (take (siz - length y - 1) x @ [0]) = Some m1"
proof -
  have e: "strlcat_end (drop d m) siz = Some (length y)"
    using assms(2,3) strlcat_end_string by (auto simp: str_at_def)
  have "d + length y + min (siz - length y) (Suc (length x)) \<le> length m" "siz - length y \<noteq> 0"
    using assms(3,4) by auto
  from strlcat_loop_exact[OF assms(1) this(2,1), of r] obtain m0 d0 where m0: "strlcat_loop m (d + length y) (x @ 0 # r) (siz - length y) = Some (m0, d0, length x)"
    "wr m0 d0 0 = blit m (d + length y) (take (siz - length y - 1) x @ [0])"
    by auto
  have "\<exists>m1. blit m (d + length y) (take (siz - length y - 1) x @ [0]) = Some m1"
    using assms by (intro blit_fits) auto
  then obtain m1 where "blit m (d + length y) (take (siz - length y - 1) x @ [0]) = Some m1"
    by blast
  then show ?thesis
    using e m0 assms(3) by (intro that[of m1]) (auto simp: strlcat_def)
qed

section \<open>Properties\<close>

text \<open>
  C28. Copying is right for every length, alignment and overlap: \<open>memmove\<close>, \<open>bcopy\<close> and the \<open>memcpy\<close> made from it move
  the \<open>n\<close> bytes at \<open>src\<close> as they were before the call to \<open>dst\<close> and change no other byte, although they go
  by words, forward or backward, and \<open>memmove\<close> uses \<open>memcpy\<close> on blocks that overlap.
\<close>

theorem memmove_exact:
  assumes "src + n \<le> length m" "dst + n \<le> length m"
  defines "r \<equiv> Some (take dst m @ take n (drop src m) @ drop (dst + n) m)"
  shows "memmove base m dst src n = r \<and> memcpy base m dst src n = r \<and> bcopy base m src dst n = r"
proof -
  have "bcopy base m src dst n = r"
    using bcopy_moved[OF assms(1,2)] moved_blit[OF assms(1,2)] assms(1,2) by (simp add: r_def blit_def)
  then show ?thesis
    by (simp add: memmove_def memcpy_def)
qed

theorem memmove_exact_witness:
  "memmove 1 [10, 11, 12, 13, 14, 15, 16, 17, 18] 2 1 6 = Some [10, 11, 11, 12, 13, 14, 15, 16, 18] \<and>
   bcopy 3 [10, 11, 12, 13, 14, 15, 16, 17, 18] 2 1 6 = Some [10, 12, 13, 14, 15, 16, 17, 17, 18]"
  using memmove_exact[of 1 6 "[10, 11, 12, 13, 14, 15, 16, 17, 18]" 2 1]
    memmove_exact[of 2 6 "[10, 11, 12, 13, 14, 15, 16, 17, 18]" 1 3] by simp

text \<open>
  The bounded string functions keep their promise: for any source string and a buffer of \<open>siz\<close> bytes,
  \<open>strlcpy\<close> and \<open>strlcat\<close> return the length of the string they tried to make, change no byte outside of the
  buffer, and leave in it that string cut to \<open>siz - 1\<close> characters and terminated; only a buffer without
  room for a NUL is left as it was.
\<close>

theorem strl_exact:
  assumes "0 \<notin> set x" "str_at m d y" "d + siz \<le> length m"
  shows "\<exists>m1 m2. strlcpy m d (x @ 0 # r) siz = Some (m1, length x) \<and>
    strlcat m d (x @ 0 # r) siz = Some (m2, min siz (length y) + length x) \<and>
    (\<forall>m' \<in> {m1, m2}. length m' = length m \<and> take d m' = take d m \<and> drop (d + siz) m' = drop (d + siz) m) \<and>
    (if siz = 0 then m1 = m else str_at m1 d (take (siz - 1) x)) \<and>
    (if siz \<le> length y then m2 = m else str_at m2 d (take (siz - 1) (y @ x)))"
proof -
  have "\<exists>m1. strlcpy m d (x @ 0 # r) siz = Some (m1, length x) \<and>
    length m1 = length m \<and> take d m1 = take d m \<and> drop (d + siz) m1 = drop (d + siz) m \<and>
    (if siz = 0 then m1 = m else str_at m1 d (take (siz - 1) x))"
  proof (cases "siz = 0")
    case False
    obtain m1 where m1: "strlcpy m d (x @ 0 # r) siz = Some (m1, length x)" "blit m d (take (siz - 1) x @ [0]) = Some m1"
      using strlcpy_blit[OF assms(1) False assms(3)] .
    have "0 \<notin> set ([] @ take (siz - 1) x)" "length [] + length (take (siz - 1) x) < siz"
      using assms(1) False by (auto dest: in_set_takeD)
    from blit_string[OF _ _ this assms(3)] show ?thesis
      using m1 False by simp
  qed (use assms(1) in \<open>simp add: strlcpy_def\<close>)
  moreover have "\<exists>m2. strlcat m d (x @ 0 # r) siz = Some (m2, min siz (length y) + length x) \<and>
    length m2 = length m \<and> take d m2 = take d m \<and> drop (d + siz) m2 = drop (d + siz) m \<and>
    (if siz \<le> length y then m2 = m else str_at m2 d (take (siz - 1) (y @ x)))"
  proof (cases "siz \<le> length y")
    case True
    then have "strlcat_end (drop d m) siz = Some siz"
      using assms(2) strlcat_end_string[of y _ siz] by (auto simp: str_at_def)
    then show ?thesis
      using True assms(1) by (simp add: strlcat_def)
  next
    case False
    then have "length y < siz"
      by simp
    from strlcat_blit[OF assms(1,2) this assms(3)] obtain m2 where
      m2: "strlcat m d (x @ 0 # r) siz = Some (m2, length y + length x)"
      "blit m (d + length y) (take (siz - length y - 1) x @ [0]) = Some m2" .
    have "take (length y) (drop d m) = y" "0 \<notin> set (y @ take (siz - length y - 1) x)"
      using assms(1,2) by (auto simp: str_at_def dest: in_set_takeD)
    from blit_string[OF m2(2) this _ assms(3)] show ?thesis
      using m2(1) False by auto
  qed
  ultimately show ?thesis
    by blast
qed

theorem strl_exact_witness:
  "\<exists>m2. strlcat [97, 0, 7, 7, 7, 9] 0 [98, 99, 100, 101, 0] 5 = Some (m2, 5) \<and> str_at m2 0 [97, 98, 99, 100]"
proof -
  have "str_at [97, 0, 7, 7, 7, 9] 0 [97]"
    by (auto simp: str_at_def)
  from strl_exact[OF _ this, of "[98, 99, 100, 101]" 5 "[]"] show ?thesis
    by auto
qed

end
