(* ===== verification/Strtok.thy ===== *)
theory Strtok
  imports Memcopy
begin

text \<open>
  Cutting a string into tokens, \<open>libc/string/strsep.c\<close> and \<open>strtok.c\<close>: both write NULs into the string they
  cut. Memory and pointers are as in the theory on copying; \<open>None\<close> is the null pointer.
\<close>

section \<open>strsep and strtok\<close>

text \<open>
  The loop of \<open>strsep\<close>, which is also the second one of \<open>strtok_r\<close>: up to the first delimiter or NUL. The
  result is the memory and the pointer behind the token.
\<close>

function strsep_loop :: "u8 list \<Rightarrow> nat \<Rightarrow> u8 list \<Rightarrow> (u8 list \<times> nat option) option" where
  "strsep_loop m s delim =
    (case rd m s of
      None \<Rightarrow> None
    | Some c \<Rightarrow>
      (case in_span0 c delim of
        None \<Rightarrow> None
      | Some True \<Rightarrow>
        if c = 0 then Some (m, None)
        else (case wr m s 0 of None \<Rightarrow> None | Some m1 \<Rightarrow> Some (m1, Some (s + 1)))
      | Some False \<Rightarrow> strsep_loop m (s + 1) delim))"
  by pat_completeness auto
termination
  by (relation "measure (\<lambda>(m, s, delim). length m - s)") (auto simp: rd_def split: if_splits)

declare strsep_loop.simps [simp del]

text \<open>The result is the token, the memory and \<open>*stringp\<close>.\<close>

definition strsep :: "u8 list \<Rightarrow> nat option \<Rightarrow> u8 list \<Rightarrow> (nat option \<times> u8 list \<times> nat option) option" where
  "strsep m stringp delim =
    (case stringp of
      None \<Rightarrow> Some (None, m, None)
    | Some tok \<Rightarrow> (case strsep_loop m tok delim of None \<Rightarrow> None | Some (m1, s) \<Rightarrow> Some (Some tok, m1, s)))"

text \<open>The loop at \<open>cont\<close>: over leading delimiters, to the first other character or \<open>None\<close> at the final NUL.\<close>

function strtok_skip :: "u8 list \<Rightarrow> nat \<Rightarrow> u8 list \<Rightarrow> nat option option" where
  "strtok_skip m s delim =
    (case rd m s of
      None \<Rightarrow> None
    | Some c \<Rightarrow>
      (case in_span c delim of
        None \<Rightarrow> None
      | Some True \<Rightarrow> strtok_skip m (s + 1) delim
      | Some False \<Rightarrow> Some (if c = 0 then None else Some s)))"
  by pat_completeness auto
termination
  by (relation "measure (\<lambda>(m, s, delim). length m - s)") (auto simp: rd_def split: if_splits)

declare strtok_skip.simps [simp del]

text \<open>The result is the token, the memory and \<open>*last\<close>.\<close>

definition strtok_r ::
  "u8 list \<Rightarrow> nat option \<Rightarrow> u8 list \<Rightarrow> nat option \<Rightarrow> (nat option \<times> u8 list \<times> nat option) option" where
  "strtok_r m s delim lst =
    (case (if s = None then lst else s) of
      None \<Rightarrow> Some (None, m, None)
    | Some p \<Rightarrow>
      (case strtok_skip m p delim of
        None \<Rightarrow> None
      | Some None \<Rightarrow> Some (None, m, None)
      | Some (Some tok) \<Rightarrow>
        (case strsep_loop m (tok + 1) delim of None \<Rightarrow> None | Some (m1, s1) \<Rightarrow> Some (Some tok, m1, s1))))"

text \<open>\<open>strtok\<close> keeps \<open>last\<close> in a static variable.\<close>

definition strtok ::
  "u8 list \<Rightarrow> nat option \<Rightarrow> u8 list \<Rightarrow> nat option \<Rightarrow> (nat option \<times> u8 list \<times> nat option) option" where
  "strtok m s delim static_last = strtok_r m s delim static_last"

section \<open>One call\<close>

lemma in_span_iff: "0 \<notin> set D \<Longrightarrow> in_span c (D @ 0 # e) = Some (c \<in> set D)"
  by (induction D) auto

lemma in_span0_iff: "0 \<notin> set D \<Longrightarrow> in_span0 c (D @ 0 # e) = Some (c \<in> set D \<or> c = 0)"
  by (induction D) auto

lemma str_at_Cons:
  "str_at m p (c # x) \<longleftrightarrow> c \<noteq> 0 \<and> rd m p = Some c \<and> str_at m (p + 1) x"
proof -
  have "drop p m = c # y \<longleftrightarrow> p < length m \<and> m ! p = c \<and> drop (p + 1) m = y" for y
    by (metis Cons_nth_drop_Suc Suc_eq_plus1 drop_all length_drop length_Cons linorder_not_less list.distinct(1) list.inject)
  then show ?thesis
    by (auto simp: str_at_def rd_def split: if_splits)
qed

lemma str_at_Nil: "str_at m p [] \<longleftrightarrow> rd m p = Some 0"
proof
  assume "str_at m p []"
  then show "rd m p = Some 0"
    using str_at_bound[of m p "[]"] hd_drop_conv_nth[of p m] by (auto simp: str_at_def rd_def)
next
  assume "rd m p = Some 0"
  then show "str_at m p []"
    using Cons_nth_drop_Suc[of p m] by (auto simp: str_at_def rd_def split: if_splits intro: sym)
qed

lemma strsep_loop_exact:
  assumes "0 \<notin> set D"
  shows "str_at m p x \<Longrightarrow>
    strsep_loop m p (D @ 0 # e) =
      (let T = takeWhile (\<lambda>c. c \<notin> set D) x
       in Some (if length T = length x then (m, None) else (m[p + length T := 0], Some (p + length T + 1))))"
proof (induction x arbitrary: p)
  case Nil
  then show ?case
    using assms by (subst strsep_loop.simps) (simp add: str_at_Nil in_span0_iff)
next
  case (Cons c x)
  then have c: "rd m p = Some c" "c \<noteq> 0" "str_at m (p + 1) x" "p < length m"
    by (auto simp: str_at_Cons rd_def split: if_splits)
  show ?case
    using c Cons.IH[OF c(3)] assms by (subst strsep_loop.simps) (auto simp: in_span0_iff wr_def Let_def)
qed

lemma str_at_cut:
  assumes "str_at m p (T @ d # R)"
  shows "str_at (m[p + length T := 0]) p T" "str_at (m[p + length T := 0]) (p + length T + 1) R"
proof -
  let ?m = "m[p + length T := 0]"
  obtain r where r: "drop p m = T @ d # R @ 0 # r" and z: "0 \<notin> set T" "0 \<notin> set R" and l: "p \<le> length m"
    using assms by (auto simp: str_at_def)
  have d: "drop p ?m = T @ 0 # R @ 0 # r"
    by (simp add: drop_update_swap r list_update_append)
  then have "drop (p + length T + 1) ?m = drop (length T + 1) (T @ 0 # R @ 0 # r)"
    using drop_drop[of "length T + 1" p ?m] by (simp only: ac_simps)
  moreover have "p + length T + 1 \<le> length ?m"
    using str_at_bound[OF assms] by simp
  ultimately show "str_at ?m p T" "str_at ?m (p + length T + 1) R"
    using d z l by (auto simp: str_at_def)
qed

lemma strtok_skip_exact:
  assumes "0 \<notin> set D"
  shows "str_at m p x \<Longrightarrow>
    strtok_skip m p (D @ 0 # e) =
      (let S = takeWhile (\<lambda>c. c \<in> set D) x in Some (if length S = length x then None else Some (p + length S)))"
proof (induction x arbitrary: p)
  case Nil
  then show ?case
    using assms by (subst strtok_skip.simps) (simp add: str_at_Nil in_span_iff)
next
  case (Cons c x)
  then have c: "rd m p = Some c" "c \<noteq> 0" "str_at m (p + 1) x"
    by (auto simp: str_at_Cons)
  show ?case
    using c Cons.IH[OF c(3)] assms by (subst strtok_skip.simps) (auto simp: in_span_iff Let_def)
qed

lemma str_at_suffix: "str_at m p (x @ y) \<Longrightarrow> str_at m (p + length x) y"
  by (induction x arbitrary: p) (force simp: str_at_Cons)+

text \<open>The string at a pointer.\<close>

definition string_at :: "u8 list \<Rightarrow> nat \<Rightarrow> u8 list" where
  "string_at m p = takeWhile (\<lambda>c. c \<noteq> 0) (drop p m)"

lemma takeWhile_string: "0 \<notin> set x \<Longrightarrow> takeWhile (\<lambda>c. c \<noteq> 0) (x @ 0 # r) = (x :: u8 list)"
  by (induction x) auto

lemma string_at_eq: "str_at m p x \<Longrightarrow> string_at m p = x"
  by (auto simp: str_at_def string_at_def takeWhile_string)

text \<open>The fields of a string, which may be empty, and its words, which may not.\<close>

function fields :: "u8 list \<Rightarrow> u8 list \<Rightarrow> u8 list list" where
  "fields D x =
    (case dropWhile (\<lambda>c. c \<notin> set D) x of [] \<Rightarrow> [x] | d # y \<Rightarrow> takeWhile (\<lambda>c. c \<notin> set D) x # fields D y)"
  by pat_completeness auto
termination
proof (relation "measure (\<lambda>(D, x). length x)")
  fix D x :: "u8 list" and d y
  assume "dropWhile (\<lambda>c. c \<notin> set D) x = d # y"
  then show "((D, y), D, x) \<in> measure (\<lambda>(D, x). length x)"
    using length_dropWhile_le[of "\<lambda>c. c \<notin> set D" x] by simp
qed simp

declare fields.simps [simp del]

definition "words" :: "u8 list \<Rightarrow> u8 list \<Rightarrow> u8 list list" where
  "words D x = filter (\<lambda>w. w \<noteq> []) (fields D x)"

text \<open>\<open>k\<close> calls in a row, and the tokens they give.\<close>

fun strsep_calls :: "nat \<Rightarrow> u8 list \<Rightarrow> nat option \<Rightarrow> u8 list \<Rightarrow> u8 list option list option" where
  "strsep_calls 0 m s delim = Some []"
| "strsep_calls (Suc k) m s delim =
    do {
      (tok, m1, s1) \<leftarrow> strsep m s delim;
      ts \<leftarrow> strsep_calls k m1 s1 delim;
      Some (map_option (string_at m1) tok # ts)
    }"

fun strtok_calls :: "nat \<Rightarrow> u8 list \<Rightarrow> nat option \<Rightarrow> u8 list \<Rightarrow> nat option \<Rightarrow> u8 list option list option" where
  "strtok_calls 0 m s delim lst = Some []"
| "strtok_calls (Suc k) m s delim lst =
    do {
      (tok, m1, lst1) \<leftarrow> strtok_r m s delim lst;
      ts \<leftarrow> strtok_calls k m1 None delim lst1;
      Some (map_option (string_at m1) tok # ts)
    }"

text \<open>The first \<open>k\<close> of the tokens \<open>ts\<close>, and null when they are used up.\<close>

fun then_null :: "nat \<Rightarrow> u8 list list \<Rightarrow> u8 list option list" where
  "then_null 0 ts = []"
| "then_null (Suc k) [] = None # then_null k []"
| "then_null (Suc k) (t # ts) = Some t # then_null k ts"

lemma calls_null:
  "strsep_calls k m None delim = Some (then_null k [])" "strtok_calls k m None delim None = Some (then_null k [])"
  by (induction k) (simp_all add: strsep_def strtok_r_def)

lemma strsep_calls_fields:
  assumes "0 \<notin> set D"
  shows "str_at m p x \<Longrightarrow> strsep_calls k m (Some p) (D @ 0 # e) = Some (then_null k (fields D x))"
proof (induction k arbitrary: m p x)
  case (Suc k)
  let ?T = "takeWhile (\<lambda>c. c \<notin> set D) x"
  show ?case
  proof (cases "dropWhile (\<lambda>c. c \<notin> set D) x")
    case Nil
    then have "?T = x"
      by (metis append_Nil2 takeWhile_dropWhile_id)
    then have "strsep_loop m p (D @ 0 # e) = Some (m, None)"
      using strsep_loop_exact[OF assms Suc.prems, of e] by (simp only: Let_def if_True refl)
    moreover have "fields D x = [x]"
      using Nil by (subst fields.simps) (simp del: dropWhile_eq_Nil_conv)
    ultimately show ?thesis
      using Suc.prems by (simp add: strsep_def calls_null string_at_eq)
  next
    case (Cons d y)
    then have x: "x = ?T @ d # y"
      by (metis takeWhile_dropWhile_id)
    note cut = str_at_cut[OF Suc.prems[unfolded arg_cong[OF x, of "str_at m p"]]]
    have "length ?T \<noteq> length x"
      using arg_cong[OF x, of length] by simp
    then have "strsep m (Some p) (D @ 0 # e) = Some (Some p, m[p + length ?T := 0], Some (p + length ?T + 1))"
      using strsep_loop_exact[OF assms Suc.prems, of e] by (simp add: strsep_def Let_def)
    then show ?thesis
      using Suc.IH[OF cut(2)] cut(1) Cons by (simp add: fields.simps[of D x] string_at_eq)
  qed
qed simp

lemma words_delim: "d \<in> set D \<Longrightarrow> words D (d # y) = words D y"
  by (simp add: words_def fields.simps[of D "d # y"])

lemma words_skip: "words D (dropWhile (\<lambda>c. c \<in> set D) x) = words D x"
  by (induction x) (auto simp: words_delim)

lemma words_Nil [simp]: "words D [] = []"
  by (simp add: words_def fields.simps)

text \<open>One call of \<open>strtok_r\<close> that starts at a string \<open>x\<close>.\<close>

lemma strtok_none:
  assumes "0 \<notin> set D" "str_at m p x" "dropWhile (\<lambda>c. c \<in> set D) x = []" "s = Some p \<or> s = None \<and> lst = Some p"
  shows "strtok_r m s (D @ 0 # e) lst = Some (None, m, None)" "words D x = []"
proof -
  have "takeWhile (\<lambda>c. c \<in> set D) x = x"
    using assms(3) by (metis append_Nil2 takeWhile_dropWhile_id)
  then have "strtok_skip m p (D @ 0 # e) = Some None"
    using strtok_skip_exact[OF assms(1,2), of e] by (simp only: Let_def if_True refl)
  then show "strtok_r m s (D @ 0 # e) lst = Some (None, m, None)"
    using assms(4) by (auto simp: strtok_r_def)
  show "words D x = []"
    using words_skip[of D x] by (simp only: assms(3) words_Nil)
qed

lemma strtok_some:
  assumes "0 \<notin> set D" "str_at m p x" "dropWhile (\<lambda>c. c \<in> set D) x = c # y" "s = Some p \<or> s = None \<and> lst = Some p"
  obtains tok m' r where "strtok_r m s (D @ 0 # e) lst = Some (Some tok, m', r)"
    "case r of None \<Rightarrow> words D x = [string_at m' tok]
     | Some q \<Rightarrow> \<exists>z. str_at m' q z \<and> words D x = string_at m' tok # words D z"
proof -
  let ?S = "takeWhile (\<lambda>c. c \<in> set D) x" and ?T = "takeWhile (\<lambda>c. c \<notin> set D) y"
  define tok where "tok = p + length ?S"
  have x: "x = ?S @ c # y"
    using takeWhile_dropWhile_id[of "\<lambda>c. c \<in> set D" x] by (simp only: assms(3))
  have c: "c \<notin> set D"
    using hd_dropWhile[of "\<lambda>c. c \<in> set D" x] assms(3) by simp
  have "str_at m p (?S @ c # y)"
    using assms(2) by (simp only: x[symmetric])
  then have st: "str_at m tok (c # y)"
    unfolding tok_def by (rule str_at_suffix)
  have sk: "strtok_skip m p (D @ 0 # e) = Some (Some tok)"
    using strtok_skip_exact[OF assms(1,2), of e] arg_cong[OF x, of length] by (simp add: tok_def Let_def)
  have sl: "strsep_loop m (tok + 1) (D @ 0 # e) =
      Some (if length ?T = length y then (m, None) else (m[tok + 1 + length ?T := 0], Some (tok + 1 + length ?T + 1)))"
    using strsep_loop_exact[OF assms(1), of m "tok + 1" y e] st by (simp add: str_at_Cons Let_def)
  have w: "words D x = words D (c # y)"
    using words_skip[of D x] by (simp only: assms(3))
  show ?thesis
  proof (cases "dropWhile (\<lambda>c. c \<notin> set D) y")
    case Nil
    then have "length ?T = length y"
      by (metis append_Nil2 takeWhile_dropWhile_id)
    then have "strtok_r m s (D @ 0 # e) lst = Some (Some tok, m, None)"
      using sk sl assms(4) by (auto simp: strtok_r_def)
    moreover have "words D (c # y) = [c # y]"
      using Nil c by (simp add: words_def fields.simps[of D "c # y"] del: dropWhile_eq_Nil_conv)
    ultimately show ?thesis
      using string_at_eq[OF st] w by (intro that) auto
  next
    case (Cons d z)
    then have y: "y = ?T @ d # z"
      by (metis takeWhile_dropWhile_id)
    then have ne: "length ?T \<noteq> length y"
      by (metis length_append list.size(4) less_add_Suc1 less_irrefl add_Suc_right)
    have "str_at m tok ((c # ?T) @ d # z)"
      using st by (simp only: y[symmetric] append_Cons)
    note cut = str_at_cut[OF this]
    have "strtok_r m s (D @ 0 # e) lst = Some (Some tok, m[tok + length (c # ?T) := 0], Some (tok + length (c # ?T) + 1))"
      using sk sl ne assms(4) by (auto simp: strtok_r_def)
    moreover have "words D (c # y) = (c # ?T) # words D z"
      using Cons c by (simp add: words_def fields.simps[of D "c # y"])
    ultimately show ?thesis
      using cut string_at_eq[OF cut(1)] w by (intro that) auto
  qed
qed

lemma strtok_calls_words:
  assumes "0 \<notin> set D"
  shows "str_at m p x \<Longrightarrow> s = Some p \<or> s = None \<and> lst = Some p \<Longrightarrow>
    strtok_calls k m s (D @ 0 # e) lst = Some (then_null k (words D x))"
proof (induction k arbitrary: m p x s lst)
  case (Suc k)
  show ?case
  proof (cases "dropWhile (\<lambda>c. c \<in> set D) x")
    case Nil
    then show ?thesis
      using strtok_none[OF assms Suc.prems(1) Nil Suc.prems(2)] by (simp add: calls_null)
  next
    case (Cons c y)
    obtain tok m' r where r: "strtok_r m s (D @ 0 # e) lst = Some (Some tok, m', r)"
      "case r of None \<Rightarrow> words D x = [string_at m' tok]
       | Some q \<Rightarrow> \<exists>z. str_at m' q z \<and> words D x = string_at m' tok # words D z"
      by (rule strtok_some[OF assms Suc.prems(1) Cons Suc.prems(2)])
    then show ?thesis
      using Suc.IH by (cases r) (auto simp: calls_null)
  qed
qed simp

text \<open>
  C29. Calling \<open>strsep\<close> or \<open>strtok_r\<close> again and again on a string gives its fields, or its words, in order, and then
  null for ever: \<open>strsep\<close> gives every field between two delimiters, empty ones too, and \<open>strtok_r\<close> those
  that are not empty. Each token is a terminated string when it is returned.
\<close>

theorem tokens_exact:
  assumes "str_at m p x" "0 \<notin> set D"
  shows "strsep_calls k m (Some p) (D @ 0 # e) = Some (then_null k (fields D x)) \<and>
    strtok_calls k m (Some p) (D @ 0 # e) lst = Some (then_null k (filter (\<lambda>w. w \<noteq> []) (fields D x)))"
  using strsep_calls_fields[OF assms(2,1)] strtok_calls_words[OF assms(2,1)] by (simp add: words_def)

theorem tokens_exact_witness:
  "strtok_calls 3 [44, 97, 98, 44, 59, 99, 0, 9] (Some 0) [44, 59, 0] None = Some [Some [97, 98], Some [99], None] \<and>
   strsep_calls 5 [44, 97, 98, 44, 59, 99, 0, 9] (Some 0) [44, 59, 0] =
     Some [Some [], Some [97, 98], Some [], Some [99], None]"
proof -
  have s: "str_at [44, 97, 98, 44, 59, 99, 0, 9] 0 [44, 97, 98, 44, 59, 99]" "(0 :: u8) \<notin> set [44, 59]"
    by (auto simp: str_at_def)
  have f: "fields [44, 59] [44, 97, 98, 44, 59, 99] = [[], [97, 98], [], [99]]"
    by (simp add: fields.simps)
  show ?thesis
    using tokens_exact[OF s, of 3 "[]" None, unfolded f] tokens_exact[OF s, of 5 "[]" None, unfolded f]
    by (simp add: eval_nat_numeral)
qed

end
