(* ===== verification/Sort.thy ===== *)
theory Sort
  imports Memcopy
begin

text \<open>
  Sorting and searching of arrays, \<open>libc/stdlib/qsort.c\<close> and \<open>bsearch.c\<close>. Memory is the list of the bytes of an
  array at the address \<open>base\<close> and pointers are offsets in it; an access outside of the array is \<open>None\<close>, and so
  is a loop that does not end. The comparison function is a parameter, a function of the contents of the
  two objects it is given. A \<open>long\<close> has four bytes. Sizes are below the largest \<open>int\<close>, as those of all objects are.

  The second half is the same algorithm on lists of objects, and the proofs that it sorts and that the code
  on bytes implements it.
\<close>

section \<open>Swapping\<close>

fun swapcode :: "nat \<Rightarrow> u8 list \<Rightarrow> nat \<Rightarrow> nat \<Rightarrow> nat \<Rightarrow> u8 list option" where
  "swapcode w m pi pj i =
    do {
      t \<leftarrow> rdn m pi w;
      u \<leftarrow> rdn m pj w;
      m \<leftarrow> blit m pi u;
      m \<leftarrow> blit m pj t;
      if i - 1 > 0 then swapcode w m (pi + w) (pj + w) (i - 1) else Some m
    }"

declare swapcode.simps [simp del]

text \<open>\<open>SWAPINIT\<close>: 0 for objects of the size of a \<open>long\<close>, 1 for several of them, both aligned, and else 2.\<close>

definition swapinit :: "nat \<Rightarrow> nat \<Rightarrow> nat" where
  "swapinit addr es = (if addr mod 4 \<noteq> 0 \<or> es mod 4 \<noteq> 0 then 2 else if es = 4 then 0 else 1)"

definition swapfunc :: "u8 list \<Rightarrow> nat \<Rightarrow> nat \<Rightarrow> nat \<Rightarrow> nat \<Rightarrow> u8 list option" where
  "swapfunc m a b n swaptype =
    (if swaptype \<le> 1 then swapcode 4 m a b (n div 4) else swapcode 1 m a b (n div 1))"

definition swap_obj :: "u8 list \<Rightarrow> nat \<Rightarrow> nat \<Rightarrow> nat \<Rightarrow> nat \<Rightarrow> u8 list option" where
  "swap_obj m a b es swaptype =
    (if swaptype = 0 then
       do { t \<leftarrow> rdn m a 4; u \<leftarrow> rdn m b 4; m \<leftarrow> blit m a u; blit m b t }
     else swapfunc m a b es swaptype)"

definition vecswap :: "u8 list \<Rightarrow> nat \<Rightarrow> nat \<Rightarrow> nat \<Rightarrow> nat \<Rightarrow> u8 list option" where
  "vecswap m a b n swaptype = (if n > 0 then swapfunc m a b n swaptype else Some m)"

section \<open>qsort\<close>

type_synonym compar = "u8 list \<Rightarrow> u8 list \<Rightarrow> int"

text \<open>The call of the comparison function on the objects at two pointers.\<close>

definition call_cmp :: "compar \<Rightarrow> nat \<Rightarrow> u8 list \<Rightarrow> nat \<Rightarrow> nat \<Rightarrow> int option" where
  "call_cmp cmp es m p q = do { x \<leftarrow> rdn m p es; y \<leftarrow> rdn m q es; Some (cmp x y) }"

definition med3 :: "compar \<Rightarrow> nat \<Rightarrow> u8 list \<Rightarrow> nat \<Rightarrow> nat \<Rightarrow> nat \<Rightarrow> nat option" where
  "med3 cmp es m a b c =
    do {
      ab \<leftarrow> call_cmp cmp es m a b;
      bc \<leftarrow> call_cmp cmp es m b c;
      if ab < 0 then
        if bc < 0 then Some b else do { ac \<leftarrow> call_cmp cmp es m a c; Some (if ac < 0 then c else a) }
      else
        if bc > 0 then Some b else do { ac \<leftarrow> call_cmp cmp es m a c; Some (if ac < 0 then a else c) }
    }"

text \<open>The two loops of the insertion sort; \<open>st\<close> is the \<open>swaptype\<close>, \<open>end\<close> is \<open>a + n * es\<close>.\<close>

partial_function (option) insert_loop :: "compar \<Rightarrow> nat \<Rightarrow> nat \<Rightarrow> u8 list \<Rightarrow> nat \<Rightarrow> nat \<Rightarrow> u8 list option" where
  "insert_loop cmp es st m a pl =
    (if pl > a then
       do {
         r \<leftarrow> call_cmp cmp es m (pl - es) pl;
         if r > 0 then do { m \<leftarrow> swap_obj m pl (pl - es) es st; insert_loop cmp es st m a (pl - es) } else Some m
       }
     else Some m)"

partial_function (option) insertion_sort :: "compar \<Rightarrow> nat \<Rightarrow> nat \<Rightarrow> u8 list \<Rightarrow> nat \<Rightarrow> nat \<Rightarrow> nat \<Rightarrow> u8 list option" where
  "insertion_sort cmp es st m a end pm =
    (if pm < end then do { m \<leftarrow> insert_loop cmp es st m a pm; insertion_sort cmp es st m a end (pm + es) }
     else Some m)"

text \<open>
  The two inner loops of the partition, with the memory, the pointers they move and \<open>swap_cnt\<close> as results.
  In the second one \<open>pc\<close> is above \<open>a\<close>, since \<open>pb\<close> is.
\<close>

partial_function (option) scan_left ::
  "compar \<Rightarrow> nat \<Rightarrow> nat \<Rightarrow> nat \<Rightarrow> nat \<Rightarrow> u8 list \<Rightarrow> nat \<Rightarrow> nat \<Rightarrow> bool \<Rightarrow> (u8 list \<times> nat \<times> nat \<times> bool) option" where
  "scan_left cmp es st a pc m pa pb sc =
    (if pb \<le> pc then
       do {
         r \<leftarrow> call_cmp cmp es m pb a;
         if r < 0 then scan_left cmp es st a pc m pa (pb + es) sc
         else if r = 0 then
           do { m \<leftarrow> swap_obj m pa pb es st; scan_left cmp es st a pc m (pa + es) (pb + es) True }
         else Some (m, pa, pb, sc)
       }
     else Some (m, pa, pb, sc))"

partial_function (option) scan_right ::
  "compar \<Rightarrow> nat \<Rightarrow> nat \<Rightarrow> nat \<Rightarrow> nat \<Rightarrow> u8 list \<Rightarrow> nat \<Rightarrow> nat \<Rightarrow> bool \<Rightarrow> (u8 list \<times> nat \<times> nat \<times> bool) option" where
  "scan_right cmp es st a pb m pc pd sc =
    (if pb \<le> pc then
       do {
         r \<leftarrow> call_cmp cmp es m pc a;
         if r > 0 then scan_right cmp es st a pb m (pc - es) pd sc
         else if r = 0 then
           do { m \<leftarrow> swap_obj m pc pd es st; scan_right cmp es st a pb m (pc - es) (pd - es) True }
         else Some (m, pc, pd, sc)
       }
     else Some (m, pc, pd, sc))"

record part_state =
  ps_mem :: "u8 list"
  ps_a :: nat
  ps_b :: nat
  ps_c :: nat
  ps_d :: nat
  ps_cnt :: bool

partial_function (option) partition_loop ::
  "compar \<Rightarrow> nat \<Rightarrow> nat \<Rightarrow> nat \<Rightarrow> u8 list \<Rightarrow> nat \<Rightarrow> nat \<Rightarrow> nat \<Rightarrow> nat \<Rightarrow> bool \<Rightarrow> part_state option" where
  "partition_loop cmp es st a m pa pb pc pd sc =
    do {
      (m, pa, pb, sc) \<leftarrow> scan_left cmp es st a pc m pa pb sc;
      (m, pc, pd, sc) \<leftarrow> scan_right cmp es st a pb m pc pd sc;
      if pb > pc then Some \<lparr>ps_mem = m, ps_a = pa, ps_b = pb, ps_c = pc, ps_d = pd, ps_cnt = sc\<rparr>
      else do { m \<leftarrow> swap_obj m pb pc es st; partition_loop cmp es st a m pa (pb + es) (pc - es) pd True }
    }"

text \<open>The choice of the pivot.\<close>

definition pivot :: "compar \<Rightarrow> nat \<Rightarrow> u8 list \<Rightarrow> nat \<Rightarrow> nat \<Rightarrow> nat option" where
  "pivot cmp es m a n =
    (let pm = a + (n div 2) * es
     in if n > 7 then
          do {
            let pl = a;
            let pn = a + (n - 1) * es;
            (pl, pm, pn) \<leftarrow>
              (if n > 40 then
                 do {
                   let d = (n div 8) * es;
                   pl \<leftarrow> med3 cmp es m pl (pl + d) (pl + 2 * d);
                   pm \<leftarrow> med3 cmp es m (pm - d) pm (pm + d);
                   pn \<leftarrow> med3 cmp es m (pn - 2 * d) (pn - d) pn;
                   Some (pl, pm, pn)
                 }
               else Some (pl, pm, pn));
            med3 cmp es m pl pm pn
          }
        else Some pm)"

partial_function (option) qsort :: "compar \<Rightarrow> nat \<Rightarrow> nat \<Rightarrow> u8 list \<Rightarrow> nat \<Rightarrow> nat \<Rightarrow> u8 list option" where
  "qsort cmp es base m a n =
    (let st = swapinit (base + a) es
     in if n < 7 then insertion_sort cmp es st m a (a + n * es) (a + es)
        else
          do {
            pm \<leftarrow> pivot cmp es m a n;
            m \<leftarrow> swap_obj m a pm es st;
            ps \<leftarrow> partition_loop cmp es st a m (a + es) (a + es) (a + (n - 1) * es) (a + (n - 1) * es) False;
            if \<not> ps_cnt ps then insertion_sort cmp es st (ps_mem ps) a (a + n * es) (a + es)
            else
              do {
                let pn = a + n * es;
                let r = min (ps_a ps - a) (ps_b ps - ps_a ps);
                m \<leftarrow> vecswap (ps_mem ps) a (ps_b ps - r) r st;
                let r = min (ps_d ps - ps_c ps) (pn - ps_d ps - es);
                m \<leftarrow> vecswap m (ps_b ps) (pn - r) r st;
                let r = ps_b ps - ps_a ps;
                m \<leftarrow> (if r > es then qsort cmp es base m a (r div es) else Some m);
                let r = ps_d ps - ps_c ps;
                if r > es then qsort cmp es base m (pn - r) (r div es) else Some m
              }
          })"

section \<open>bsearch\<close>

text \<open>The loop; \<open>lim\<close> is an \<open>int\<close>, and the call of \<open>compar\<close> gets the key and the object at \<open>p\<close>.\<close>

partial_function (option) bsearch_loop ::
  "('k \<Rightarrow> u8 list \<Rightarrow> int) \<Rightarrow> 'k \<Rightarrow> u8 list \<Rightarrow> nat \<Rightarrow> nat \<Rightarrow> int \<Rightarrow> nat option option" where
  "bsearch_loop compar key m sz b lim =
    (if lim \<noteq> 0 then
       do {
         let p = int b + (lim div 2) * int sz;
         x \<leftarrow> (if p < 0 then None else rdn m (nat p) sz);
         let cmp = compar key x;
         if cmp > 0 then bsearch_loop compar key m sz (nat p + sz) ((lim - 1) div 2)
         else if cmp = 0 then Some (Some (nat p))
         else bsearch_loop compar key m sz b (lim div 2)
       }
     else Some None)"

text \<open>\<open>nmemb\<close> is converted to \<open>int\<close>.\<close>

definition bsearch :: "('k \<Rightarrow> u8 list \<Rightarrow> int) \<Rightarrow> 'k \<Rightarrow> u8 list \<Rightarrow> nat \<Rightarrow> nat \<Rightarrow> nat \<Rightarrow> nat option option" where
  "bsearch compar key m base0 nmemb sz =
    bsearch_loop compar key m sz base0 (sint (of_nat nmemb :: 32 word))"

section \<open>The algorithm on lists of objects\<close>

text \<open>
  The same steps on the list of the objects, with positions for pointers; \<open>c\<close> and \<open>d\<close> are one more than the
  positions of \<open>pc\<close> and \<open>pd\<close>.
\<close>

primrec l_insert :: "('a \<Rightarrow> 'a \<Rightarrow> int) \<Rightarrow> nat \<Rightarrow> 'a list \<Rightarrow> 'a list" where
  "l_insert cmp 0 xs = xs"
| "l_insert cmp (Suc l) xs = (if cmp (xs ! l) (xs ! Suc l) > 0 then l_insert cmp l (exch xs (Suc l) l 1) else xs)"

primrec l_insertion :: "('a \<Rightarrow> 'a \<Rightarrow> int) \<Rightarrow> nat \<Rightarrow> nat \<Rightarrow> 'a list \<Rightarrow> 'a list" where
  "l_insertion cmp 0 k xs = xs"
| "l_insertion cmp (Suc j) k xs = l_insertion cmp j (k + 1) (l_insert cmp k xs)"

definition l_med3 :: "('a \<Rightarrow> 'a \<Rightarrow> int) \<Rightarrow> 'a list \<Rightarrow> nat \<Rightarrow> nat \<Rightarrow> nat \<Rightarrow> nat" where
  "l_med3 cmp xs a b c =
    (if cmp (xs ! a) (xs ! b) < 0 then
       if cmp (xs ! b) (xs ! c) < 0 then b else if cmp (xs ! a) (xs ! c) < 0 then c else a
     else if cmp (xs ! b) (xs ! c) > 0 then b else if cmp (xs ! a) (xs ! c) < 0 then a else c)"

definition l_pivot :: "('a \<Rightarrow> 'a \<Rightarrow> int) \<Rightarrow> 'a list \<Rightarrow> nat" where
  "l_pivot cmp xs =
    (let n = length xs; d = n div 8; m = n div 2
     in if n > 40 then
          l_med3 cmp xs (l_med3 cmp xs 0 d (2 * d)) (l_med3 cmp xs (m - d) m (m + d))
            (l_med3 cmp xs (n - 1 - 2 * d) (n - 1 - d) (n - 1))
        else if n > 7 then l_med3 cmp xs 0 m (n - 1)
        else m)"

function l_left :: "('a \<Rightarrow> 'a \<Rightarrow> int) \<Rightarrow> nat \<Rightarrow> 'a list \<Rightarrow> nat \<Rightarrow> nat \<Rightarrow> bool \<Rightarrow> 'a list \<times> nat \<times> nat \<times> bool" where
  "l_left cmp c xs a b sc =
    (if b < c then
       if cmp (xs ! b) (xs ! 0) < 0 then l_left cmp c xs a (b + 1) sc
       else if cmp (xs ! b) (xs ! 0) = 0 then l_left cmp c (exch xs a b 1) (a + 1) (b + 1) True
       else (xs, a, b, sc)
     else (xs, a, b, sc))"
  by pat_completeness auto
termination
  by (relation "measure (\<lambda>(cmp, c, xs, a, b, sc). c - b)") auto

function l_right :: "('a \<Rightarrow> 'a \<Rightarrow> int) \<Rightarrow> nat \<Rightarrow> 'a list \<Rightarrow> nat \<Rightarrow> nat \<Rightarrow> bool \<Rightarrow> 'a list \<times> nat \<times> nat \<times> bool" where
  "l_right cmp b xs c d sc =
    (if b < c then
       if cmp (xs ! (c - 1)) (xs ! 0) > 0 then l_right cmp b xs (c - 1) d sc
       else if cmp (xs ! (c - 1)) (xs ! 0) = 0 then l_right cmp b (exch xs (c - 1) (d - 1) 1) (c - 1) (d - 1) True
       else (xs, c, d, sc)
     else (xs, c, d, sc))"
  by pat_completeness auto
termination
  by (relation "measure (\<lambda>(cmp, b, xs, c, d, sc). c)") auto

declare l_left.simps [simp del] l_right.simps [simp del]

lemma l_left_mono: "l_left cmp c xs a b sc = (xs', a', b', sc') \<Longrightarrow> b \<le> b'"
proof (induction cmp c xs a b sc rule: l_left.induct)
  case (1 cmp c xs a b sc)
  then show ?case
    by (subst (asm) (3) l_left.simps) (auto split: if_splits)
qed

lemma l_right_mono: "l_right cmp b xs c d sc = (xs', c', d', sc') \<Longrightarrow> c' \<le> c"
proof (induction cmp b xs c d sc rule: l_right.induct)
  case (1 cmp b xs c d sc)
  then show ?case
    by (subst (asm) (3) l_right.simps) (auto split: if_splits)
qed

function l_part :: "('a \<Rightarrow> 'a \<Rightarrow> int) \<Rightarrow> 'a list \<Rightarrow> nat \<Rightarrow> nat \<Rightarrow> nat \<Rightarrow> nat \<Rightarrow> bool \<Rightarrow> 'a list \<times> nat \<times> nat \<times> nat \<times> nat \<times> bool" where
  "l_part cmp xs a b c d sc =
    (case l_left cmp c xs a b sc of
      (xs, a, b, sc) \<Rightarrow>
        (case l_right cmp b xs c d sc of
          (xs, c, d, sc) \<Rightarrow>
            if b < c then l_part cmp (exch xs b (c - 1) 1) a (b + 1) (c - 1) d True
            else (xs, a, b, c, d, sc)))"
  by pat_completeness auto
termination
  by (relation "measure (\<lambda>(cmp, xs, a, b, c, d, sc). c - b)") (auto dest!: l_left_mono[OF sym] l_right_mono[OF sym])

declare l_part.simps [simp del]

text \<open>
  The state of the partition by the classes \<open>f\<close> of the objects relative to the pivot: equal up to \<open>a\<close>, smaller up
  to \<open>b\<close>, not yet seen up to \<open>c\<close>, greater up to \<open>d\<close>, and equal again.
\<close>

definition part_at :: "nat \<Rightarrow> nat \<Rightarrow> nat \<Rightarrow> nat \<Rightarrow> nat \<Rightarrow> int \<Rightarrow> bool" where
  "part_at a b c d i v \<longleftrightarrow>
    (if i < a then v = 0 else if i < b then v < 0 else if i < c then True else if i < d then v > 0 else v = 0)"

definition part_inv :: "('a \<Rightarrow> int) \<Rightarrow> 'a \<Rightarrow> 'a list \<Rightarrow> nat \<Rightarrow> nat \<Rightarrow> nat \<Rightarrow> nat \<Rightarrow> bool" where
  "part_inv f p xs a b c d \<longleftrightarrow>
    1 \<le> a \<and> a \<le> b \<and> b \<le> c \<and> c \<le> d \<and> d \<le> length xs \<and> xs ! 0 = p \<and>
    (\<forall>i. 1 \<le> i \<and> i < length xs \<longrightarrow> part_at a b c d i (f (xs ! i)))"

lemma part_invI:
  assumes "1 \<le> a" "a \<le> b" "b \<le> c" "c \<le> d" "d \<le> length xs" "xs ! 0 = p"
    "\<And>i. 1 \<le> i \<Longrightarrow> i < length xs \<Longrightarrow> part_at a b c d i (f (xs ! i))"
  shows "part_inv f p xs a b c d"
  using assms by (simp add: part_inv_def)

lemma part_inv_left:
  assumes "part_inv f p xs a b c d" "b < c"
  shows "f (xs ! b) < 0 \<Longrightarrow> part_inv f p xs a (b + 1) c d"
    "f (xs ! b) = 0 \<Longrightarrow> part_inv f p (exch xs a b 1) (a + 1) (b + 1) c d"
proof -
  have l: "a < length xs" "b < length xs" "1 \<le> a" "a \<le> b" "c \<le> d" "d \<le> length xs" "xs ! 0 = p"
    and at: "\<And>i. 1 \<le> i \<Longrightarrow> i < length xs \<Longrightarrow> part_at a b c d i (f (xs ! i))"
    using assms by (auto simp: part_inv_def)
  show "part_inv f p xs a (b + 1) c d" if "f (xs ! b) < 0"
  proof (rule part_invI)
    show "part_at a (b + 1) c d i (f (xs ! i))" if "1 \<le> i" "i < length xs" for i
      using at[OF that] \<open>f (xs ! b) < 0\<close> by (cases "i = b") (auto simp: part_at_def split: if_splits)
  qed (use l assms in auto)
  show "part_inv f p (exch xs a b 1) (a + 1) (b + 1) c d" if "f (xs ! b) = 0"
    unfolding exch_1[OF l(1,2)]
  proof (rule part_invI)
    show "part_at (a + 1) (b + 1) c d i (f (xs[a := xs ! b, b := xs ! a] ! i))"
      if "1 \<le> i" "i < length (xs[a := xs ! b, b := xs ! a])" for i
      using at[of i] at[of a] that \<open>f (xs ! b) = 0\<close> l assms(2)
      by (auto simp: part_at_def nth_list_update split: if_splits)
  qed (use l assms in auto)
qed

lemma part_inv_right:
  assumes "part_inv f p xs a b (Suc c) d" "b < Suc c"
  shows "f (xs ! c) > 0 \<Longrightarrow> part_inv f p xs a b c d"
    "f (xs ! c) = 0 \<Longrightarrow> part_inv f p (exch xs c (d - 1) 1) a b c (d - 1)"
proof -
  obtain e where d: "d = Suc e"
    using assms by (cases d) (auto simp: part_inv_def)
  have l: "c < length xs" "e < length xs" "1 \<le> a" "a \<le> b" "c \<le> e" "xs ! 0 = p"
    and at: "\<And>i. 1 \<le> i \<Longrightarrow> i < length xs \<Longrightarrow> part_at a b (Suc c) (Suc e) i (f (xs ! i))"
    using assms by (auto simp: part_inv_def d)
  show "part_inv f p xs a b c d" if "f (xs ! c) > 0"
  proof (rule part_invI)
    show "part_at a b c d i (f (xs ! i))" if "1 \<le> i" "i < length xs" for i
      using at[OF that] \<open>f (xs ! c) > 0\<close> l assms(2)
      by (cases "i = c") (auto simp: part_at_def d split: if_splits)
  qed (use l assms d in auto)
  show "part_inv f p (exch xs c (d - 1) 1) a b c (d - 1)" if "f (xs ! c) = 0"
    unfolding d diff_Suc_1 exch_1[OF l(1,2)]
  proof (rule part_invI)
    show "part_at a b c e i (f (xs[c := xs ! e, e := xs ! c] ! i))"
      if "1 \<le> i" "i < length (xs[c := xs ! e, e := xs ! c])" for i
      using at[of i] at[of e] that \<open>f (xs ! c) = 0\<close> l assms(2)
      by (auto simp: part_at_def nth_list_update split: if_splits)
  qed (use l assms in auto)
qed

lemma part_inv_swap:
  assumes "part_inv f p xs a b (Suc c) d" "b < c" "f (xs ! b) > 0" "f (xs ! c) < 0"
  shows "part_inv f p (exch xs b c 1) a (b + 1) c d"
proof -
  have l: "b < length xs" "c < length xs" "1 \<le> a" "a \<le> b" "c < d" "d \<le> length xs" "xs ! 0 = p"
    and at: "\<And>i. 1 \<le> i \<Longrightarrow> i < length xs \<Longrightarrow> part_at a b (Suc c) d i (f (xs ! i))"
    using assms by (auto simp: part_inv_def)
  show ?thesis
    unfolding exch_1[OF l(1,2)]
  proof (rule part_invI)
    show "part_at a (b + 1) c d i (f (xs[b := xs ! c, c := xs ! b] ! i))"
      if "1 \<le> i" "i < length (xs[b := xs ! c, c := xs ! b])" for i
      using at[of i] that assms(2-4) l
      by (auto simp: part_at_def nth_list_update split: if_splits)
  qed (use l assms in auto)
qed

lemma mset_exch_1: "i < length xs \<Longrightarrow> j < length xs \<Longrightarrow> mset (exch xs i j 1) = mset xs"
  by (rule mset_exch) (auto simp: apart_def)

lemma l_left_inv:
  "part_inv (\<lambda>x. cmp x p) p xs a b c d \<Longrightarrow> l_left cmp c xs a b sc = (xs', a', b', sc') \<Longrightarrow>
    part_inv (\<lambda>x. cmp x p) p xs' a' b' c d \<and> mset xs' = mset xs \<and> (b' < c \<longrightarrow> cmp (xs' ! b') p > 0)"
proof (induction cmp c xs a b sc rule: l_left.induct)
  case (1 cmp c xs a b sc)
  have p: "xs ! 0 = p" "a < length xs \<or> \<not> b < c" "b < length xs \<or> \<not> b < c"
    using 1(3) by (auto simp: part_inv_def)
  consider "\<not> b < c" | "b < c" "cmp (xs ! b) p < 0" | "b < c" "cmp (xs ! b) p = 0" | "b < c" "cmp (xs ! b) p > 0"
    by linarith
  then show ?case
  proof cases
    case 2
    then show ?thesis
      using 1(1) part_inv_left(1)[OF 1(3)] 1(4) p(1) by (simp add: l_left.simps[of cmp c xs])
  next
    case 3
    then show ?thesis
      using 1(2) part_inv_left(2)[OF 1(3)] 1(4) p mset_exch_1[of a xs b] by (simp add: l_left.simps[of cmp c xs])
  qed (use 1(3,4) p(1) in \<open>auto simp: l_left.simps[of cmp c xs]\<close>)
qed

lemma l_right_inv:
  "part_inv (\<lambda>x. cmp x p) p xs a b c d \<Longrightarrow> l_right cmp b xs c d sc = (xs', c', d', sc') \<Longrightarrow>
    part_inv (\<lambda>x. cmp x p) p xs' a b c' d' \<and> mset xs' = mset xs \<and>
    (b < c' \<longrightarrow> cmp (xs' ! (c' - 1)) p < 0 \<and> xs' ! b = xs ! b)"
proof (induction cmp b xs c d sc rule: l_right.induct)
  case (1 cmp b xs c d sc)
  have p: "xs ! 0 = p" "c - 1 < length xs \<or> \<not> b < c" "d - 1 < length xs \<or> \<not> b < c" "c \<le> d"
    using 1(3) by (auto simp: part_inv_def)
  consider "\<not> b < c" | "b < c" "cmp (xs ! (c - 1)) p > 0" | "b < c" "cmp (xs ! (c - 1)) p = 0" | "b < c" "cmp (xs ! (c - 1)) p < 0"
    by linarith
  then show ?case
  proof cases
    case 2
    then have "part_inv (\<lambda>x. cmp x p) p xs a b (c - 1) d"
      using part_inv_right(1)[of "\<lambda>x. cmp x p" p xs a b "c - 1" d] 1(3) by simp
    then show ?thesis
      using 2 1(1) 1(4) p(1) by (simp add: l_right.simps[of cmp b xs])
  next
    case 3
    then have i: "part_inv (\<lambda>x. cmp x p) p (exch xs (c - 1) (d - 1) 1) a b (c - 1) (d - 1)"
      using part_inv_right(2)[of "\<lambda>x. cmp x p" p xs a b "c - 1" d] 1(3) by simp
    have r: "l_right cmp b (exch xs (c - 1) (d - 1) 1) (c - 1) (d - 1) True = (xs', c', d', sc')"
      using 3 1(4) p(1) by (simp add: l_right.simps[of cmp b xs])
    have "b < c' \<longrightarrow> exch xs (c - 1) (d - 1) 1 ! b = xs ! b"
      using l_right_mono[OF r] p 3(1) exch_1[of "c - 1" xs "d - 1"] by auto
    then show ?thesis
      using 1(2)[OF _ _ _ i r] 3 p mset_exch_1[of "c - 1" xs "d - 1"] by simp
  qed (use 1(3,4) p(1) in \<open>auto simp: l_right.simps[of cmp b xs]\<close>)
qed

text \<open>One round of the partition.\<close>

lemma l_part_round:
  assumes "part_inv (\<lambda>x. cmp x p) p xs a b c d" "l_left cmp c xs a b sc = (xs1, a1, b1, sc1)"
    "l_right cmp b1 xs1 c d sc1 = (xs2, c2, d2, sc2)"
  shows "part_inv (\<lambda>x. cmp x p) p xs1 a1 b1 c d" "part_inv (\<lambda>x. cmp x p) p xs2 a1 b1 c2 d2"
    "mset xs1 = mset xs" "mset xs2 = mset xs"
    "b1 < c2 \<Longrightarrow> part_inv (\<lambda>x. cmp x p) p (exch xs2 b1 (c2 - 1) 1) a1 (b1 + 1) (c2 - 1) d2"
    "b1 < c2 \<Longrightarrow> mset (exch xs2 b1 (c2 - 1) 1) = mset xs"
proof -
  note li = l_left_inv[OF assms(1,2)]
  note ri = l_right_inv[OF conjunct1[OF li] assms(3)]
  show i: "part_inv (\<lambda>x. cmp x p) p xs1 a1 b1 c d" "part_inv (\<lambda>x. cmp x p) p xs2 a1 b1 c2 d2"
    "mset xs1 = mset xs" "mset xs2 = mset xs"
    using li ri by auto
  assume b: "b1 < c2"
  have s: "cmp (xs2 ! b1) p > 0" "cmp (xs2 ! (c2 - 1)) p < 0"
    using b li ri l_right_mono[OF assms(3)] by auto
  then have "b1 \<noteq> c2 - 1"
    by auto
  with b have "b1 < c2 - 1"
    by simp
  then show "part_inv (\<lambda>x. cmp x p) p (exch xs2 b1 (c2 - 1) 1) a1 (b1 + 1) (c2 - 1) d2"
    by (intro part_inv_swap) (use i s in auto)
  have "mset (exch xs2 b1 (c2 - 1) 1) = mset xs2"
    using i(2) b by (intro mset_exch_1) (auto simp: part_inv_def)
  then show "mset (exch xs2 b1 (c2 - 1) 1) = mset xs"
    using i(4) by simp
qed

lemma l_part_inv:
  "part_inv (\<lambda>x. cmp x p) p xs a b c d \<Longrightarrow> l_part cmp xs a b c d sc = (xs', a', b', c', d', sc') \<Longrightarrow>
    part_inv (\<lambda>x. cmp x p) p xs' a' b' b' d' \<and> c' = b' \<and> mset xs' = mset xs"
proof (induction cmp xs a b c d sc rule: l_part.induct)
  case (1 cmp xs a b c d sc)
  obtain xs1 a1 b1 sc1 where l: "l_left cmp c xs a b sc = (xs1, a1, b1, sc1)"
    by (metis prod_cases4)
  obtain xs2 c2 d2 sc2 where r: "l_right cmp b1 xs1 c d sc1 = (xs2, c2, d2, sc2)"
    by (metis prod_cases4)
  note i = l_part_round[OF 1(2) l r]
  show ?case
  proof (cases "b1 < c2")
    case True
    then show ?thesis
      using 1(1)[OF l[symmetric] refl refl r[symmetric] refl refl True i(5)[OF True]] 1(3) i(6)[OF True] l r
      by (simp add: l_part.simps[of cmp xs])
  next
    case False
    then have "c2 = b1"
      using i(2) by (auto simp: part_inv_def)
    then show ?thesis
      using 1(3) i l r by (simp add: l_part.simps[of cmp xs])
  qed
qed

text \<open>The partition of a whole list by its first element.\<close>

lemma part_inv_start: "xs \<noteq> [] \<Longrightarrow> part_inv f (xs ! 0) xs 1 1 (length xs) (length xs)"
  by (cases xs) (auto simp: part_inv_def part_at_def)

lemma l_part_bounds:
  assumes "xs \<noteq> []" "l_part cmp xs 1 1 (length xs) (length xs) sc = (xs', a, b, c, d, sc')"
  shows "1 \<le> a" "a \<le> b" "b = c" "c \<le> d" "d \<le> length xs" "length xs' = length xs" "mset xs' = mset xs"
proof -
  note i = l_part_inv[OF part_inv_start[OF assms(1)] assms(2)]
  then have "length xs' = length xs"
    using mset_eq_length by blast
  with i show "1 \<le> a" "a \<le> b" "b = c" "c \<le> d" "d \<le> length xs" "length xs' = length xs" "mset xs' = mset xs"
    by (auto simp: part_inv_def)
qed

text \<open>The two calls of \<open>vecswap\<close> bring the equal objects to the middle.\<close>

definition l_gather :: "'a list \<Rightarrow> nat \<Rightarrow> nat \<Rightarrow> nat \<Rightarrow> nat \<Rightarrow> 'a list" where
  "l_gather xs a b c d =
    (let n = length xs; r = min a (b - a); xs = exch xs 0 (b - r) r; r = min (d - c) (n - d) in exch xs b (n - r) r)"

function l_qsort :: "('a \<Rightarrow> 'a \<Rightarrow> int) \<Rightarrow> 'a list \<Rightarrow> 'a list" where
  "l_qsort cmp xs =
    (let n = length xs
     in if n < 7 then l_insertion cmp (n - 1) 1 xs
        else
          (case l_part cmp (exch xs 0 (l_pivot cmp xs) 1) 1 1 n n False of
            (ys, a, b, c, d, sc) \<Rightarrow>
              if \<not> sc then l_insertion cmp (n - 1) 1 ys
              else
                let zs = l_gather ys a b c d; i = b - a; j = d - c
                in (if i > 1 then l_qsort cmp (take i zs) else take i zs) @ drop i (take (n - j) zs) @
                   (if j > 1 then l_qsort cmp (drop (n - j) zs) else drop (n - j) zs)))"
  by pat_completeness auto

lemma l_med3_in: "l_med3 cmp xs a b c \<in> {a, b, c}"
  by (simp add: l_med3_def)

lemma l_med3_less: "a < n \<Longrightarrow> b < n \<Longrightarrow> c < n \<Longrightarrow> l_med3 cmp xs a b c < n"
  using l_med3_in[of cmp xs a b c] by auto

lemma l_pivot_less: "xs \<noteq> [] \<Longrightarrow> l_pivot cmp xs < length xs"
  unfolding l_pivot_def Let_def by (auto intro!: l_med3_less)

lemma exch_swaps:
  "exch (P @ X @ Y @ R) (length P) (length P + length X + length Y - min (length X) (length Y)) (min (length X) (length Y)) =
    P @ (if length X \<le> length Y then drop (length Y - length X) Y @ take (length Y - length X) Y @ X
         else Y @ drop (length Y) X @ take (length Y) X) @ R"
proof (cases "length X \<le> length Y")
  case True
  let ?k = "length Y - length X"
  have "exch (P @ X @ take ?k Y @ drop ?k Y @ R) (length P) (length P + length X + length Y - length X) (length X) =
      P @ drop ?k Y @ take ?k Y @ X @ R"
    using True by (intro exch_blocks) auto
  moreover have "take ?k Y @ drop ?k Y @ R = Y @ R"
    by (simp flip: append_assoc)
  ultimately show ?thesis
    using True by (simp add: min_def)
next
  case False
  let ?k = "length Y"
  have "exch (P @ take ?k X @ drop ?k X @ Y @ R) (length P) (length P + length X + length Y - length Y) (length Y) =
      P @ Y @ drop ?k X @ take ?k X @ R"
    using False by (intro exch_blocks) auto
  moreover have "take ?k X @ drop ?k X @ Y @ R = X @ Y @ R"
    by (simp flip: append_assoc)
  ultimately show ?thesis
    using False by (simp add: min_def)
qed

lemma exch_gathers:
  obtains X' Y' where "exch (P @ X @ Y @ R) (length P) (length P + length X + length Y - min (length X) (length Y)) (min (length X) (length Y))
      = P @ Y' @ X' @ R" "mset X' = mset X" "mset Y' = mset Y"
proof (cases "length X \<le> length Y")
  case True
  show ?thesis
  proof (rule that)
    show "exch (P @ X @ Y @ R) (length P) (length P + length X + length Y - min (length X) (length Y)) (min (length X) (length Y))
      = P @ (drop (length Y - length X) Y @ take (length Y - length X) Y) @ X @ R"
      using exch_swaps[of P X Y R] True by simp
    show "mset (drop (length Y - length X) Y @ take (length Y - length X) Y) = mset Y"
      by (metis append_take_drop_id mset_append add.commute)
  qed simp
next
  case False
  show ?thesis
  proof (rule that)
    show "exch (P @ X @ Y @ R) (length P) (length P + length X + length Y - min (length X) (length Y)) (min (length X) (length Y))
      = P @ Y @ (drop (length Y) X @ take (length Y) X) @ R"
      using exch_swaps[of P X Y R] False by simp
    show "mset (drop (length Y) X @ take (length Y) X) = mset X"
      by (metis append_take_drop_id mset_append add.commute)
  qed simp
qed

text \<open>What \<open>l_gather\<close> makes of the four parts of a list.\<close>

lemma l_gather_parts:
  fixes xs :: "'a list"
  assumes "xs = E1 @ L @ G @ E2"
  obtains L' E1' E2' G' where
    "l_gather xs (length E1) (length (E1 @ L)) (length (E1 @ L)) (length (E1 @ L @ G)) = L' @ E1' @ E2' @ G'"
    "mset L' = mset L" "mset E1' = mset E1" "mset E2' = mset E2" "mset G' = mset G"
proof -
  obtain E1' L' where 1: "exch ([] @ E1 @ L @ (G @ E2)) (length ([] :: 'a list)) (length ([] :: 'a list) + length E1 + length L - min (length E1) (length L))
      (min (length E1) (length L)) = [] @ L' @ E1' @ (G @ E2)" "mset E1' = mset E1" "mset L' = mset L"
    by (rule exch_gathers[of "[]" E1 L "G @ E2"]) (rule that)
  have l: "length L' = length L" "length E1' = length E1"
    using 1 mset_eq_length by blast+
  obtain G' E2' where 2: "exch ((L' @ E1') @ G @ E2 @ []) (length (L' @ E1')) (length (L' @ E1') + length G + length E2 - min (length G) (length E2))
      (min (length G) (length E2)) = (L' @ E1') @ E2' @ G' @ []" "mset G' = mset G" "mset E2' = mset E2"
    by (rule exch_gathers[of "L' @ E1'" G E2 "[]"]) (rule that)
  have "l_gather xs (length E1) (length (E1 @ L)) (length (E1 @ L)) (length (E1 @ L @ G)) = L' @ E1' @ E2' @ G'"
    using 1(1) 2(1) l by (simp add: l_gather_def assms Let_def add.commute add.left_commute)
  then show ?thesis
    using 1 2 that by blast
qed

lemma cut4:
  assumes "a \<le> b" "b \<le> d" "d \<le> length xs"
  obtains E1 L G E2 where "xs = E1 @ L @ G @ E2" "a = length E1" "b = length (E1 @ L)" "d = length (E1 @ L @ G)"
proof
  show "xs = take a xs @ take (b - a) (drop a xs) @ take (d - b) (drop b xs) @ drop d xs"
    using assms by (metis append_take_drop_id drop_drop le_add_diff_inverse2)
qed (use assms in auto)

lemma l_gather_mset:
  assumes "a \<le> b" "b = c" "c \<le> d" "d \<le> length xs"
  shows "mset (l_gather xs a b c d) = mset xs"
proof -
  obtain E1 L G E2 where x: "xs = E1 @ L @ G @ E2" "a = length E1" "b = length (E1 @ L)" "d = length (E1 @ L @ G)"
    using cut4[of a b d xs] assms by blast
  show ?thesis
    by (rule l_gather_parts[OF x(1)]) (use x assms(2) in \<open>simp add: ac_simps\<close>)
qed

lemma length_exch_1: "i < length xs \<Longrightarrow> j < length xs \<Longrightarrow> length (exch xs i j 1) = length xs"
  using mset_exch_1[of i xs j] by (rule mset_eq_length)

lemma l_qsort_smaller:
  assumes "\<not> length xs < 7" "l_part cmp (exch xs 0 (l_pivot cmp xs) 1) 1 1 (length xs) (length xs) False = (ys, a, b, c, d, sc)"
  shows "length (take (b - a) (l_gather ys a b c d)) < length xs"
    "length (drop (length xs - (d - c)) (l_gather ys a b c d)) < length xs"
    "mset (l_gather ys a b c d) = mset xs" "mset ys = mset xs" "b - a + (d - c) \<le> length xs" "a \<le> b" "b = c" "c \<le> d" "1 \<le> a"
proof -
  have ne: "xs \<noteq> []"
    using assms(1) by auto
  let ?xs = "exch xs 0 (l_pivot cmp xs) 1"
  have x: "mset ?xs = mset xs" "length ?xs = length xs"
    using mset_exch_1[of 0 xs] length_exch_1[of 0 xs] l_pivot_less[OF ne] ne by auto
  then have "?xs \<noteq> []"
    using ne by auto
  note p = l_part_bounds[OF this, of cmp False ys a b c d sc, unfolded x, OF assms(2)]
  have g: "mset (l_gather ys a b c d) = mset ys"
    using p by (intro l_gather_mset) auto
  then have "length (l_gather ys a b c d) = length xs"
    using p(6) mset_eq_length by metis
  with p g show "length (take (b - a) (l_gather ys a b c d)) < length xs"
    "length (drop (length xs - (d - c)) (l_gather ys a b c d)) < length xs"
    "mset (l_gather ys a b c d) = mset xs" "mset ys = mset xs" "b - a + (d - c) \<le> length xs" "a \<le> b" "b = c" "c \<le> d" "1 \<le> a"
    by auto
qed

termination l_qsort
proof (relation "measure (\<lambda>(cmp, xs). length xs)", goal_cases)
  case (2 cmp xs n ys t1 a t2 b t3 c t4 d sc zs i j)
  then show ?case
    using l_qsort_smaller(1)[of xs cmp ys a b c d sc] by simp
next
  case (3 cmp xs n ys t1 a t2 b t3 c t4 d sc zs i j)
  then show ?case
    using l_qsort_smaller(2)[of xs cmp ys a b c d sc] by simp
qed simp

declare l_qsort.simps [simp del]

section \<open>The algorithm sorts\<close>

text \<open>Insertion from the right end, on the reversed list.\<close>

fun insr :: "('a \<Rightarrow> 'a \<Rightarrow> int) \<Rightarrow> 'a list \<Rightarrow> 'a \<Rightarrow> 'a list" where
  "insr cmp [] x = [x]"
| "insr cmp (y # ys) x = (if cmp y x > 0 then y # insr cmp ys x else x # y # ys)"

lemma l_insert_insr: "l_insert cmp (length ys) (rev ys @ x # B) = rev (insr cmp ys x) @ B"
proof (induction ys arbitrary: B)
  case (Cons y ys)
  have "exch (rev ys @ y # x # B) (Suc (length ys)) (length ys) 1 = rev ys @ x # y # B"
    using exch_blocks[of "[y]" "[x]" 1 "length ys" "rev ys" "Suc (length ys)" "[]" B] by (simp add: exch_sym)
  then show ?case
    using Cons by (simp add: nth_append)
qed simp

lemma mset_insr [simp]: "mset (insr cmp ys x) = add_mset x (mset ys)"
  by (induction ys) auto

lemma insr_simps [simp]: "length (insr cmp ys x) = Suc (length ys)" "set (insr cmp ys x) = insert x (set ys)"
  by (induction ys) auto

lemma l_insert_at:
  "k < length xs \<Longrightarrow> l_insert cmp k xs = rev (insr cmp (rev (take k xs)) (xs ! k)) @ drop (Suc k) xs"
  using l_insert_insr[of cmp "rev (take k xs)" "xs ! k" "drop (Suc k) xs"] by (simp add: id_take_nth_drop[symmetric] min_def)

lemma l_insert_mset [simp]: "k < length xs \<Longrightarrow> mset (l_insert cmp k xs) = mset xs"
  by (subst (2) id_take_nth_drop[of k xs]) (simp_all add: l_insert_at)

lemma l_insertion_mset: "k + j \<le> length xs \<Longrightarrow> mset (l_insertion cmp j k xs) = mset xs"
proof (induction j arbitrary: k xs)
  case (Suc j)
  then have "mset (l_insert cmp k xs) = mset xs"
    by simp
  moreover from this have "length (l_insert cmp k xs) = length xs"
    by (rule mset_eq_length)
  ultimately show ?case
    using Suc by simp
qed simp

lemma part_classes:
  assumes "part_inv f p (E1 @ L @ G @ E2) (length E1) (length (E1 @ L)) (length (E1 @ L)) (length (E1 @ L @ G))"
  shows "\<forall>x \<in> set (E1 @ E2). x = p \<or> f x = 0" "\<forall>x \<in> set L. f x < 0" "\<forall>x \<in> set G. f x > 0"
proof -
  let ?xs = "E1 @ L @ G @ E2"
  have p: "?xs ! 0 = p"
    and at: "\<And>i. 1 \<le> i \<Longrightarrow> i < length ?xs \<Longrightarrow> part_at (length E1) (length (E1 @ L)) (length (E1 @ L)) (length (E1 @ L @ G)) i (f (?xs ! i))"
    and l: "1 \<le> length E1"
    using assms unfolding part_inv_def by blast+
  have "x = p \<or> f x = 0" if x: "x \<in> set E1" for x
  proof -
    obtain k where k: "k < length E1" "x = E1 ! k"
      using x by (metis in_set_conv_nth)
    then show ?thesis
      using p at[of k] by (cases "k = 0") (simp_all add: part_at_def nth_append_left)
  qed
  moreover have "f x = 0" if x: "x \<in> set E2" for x
  proof -
    obtain k where k: "k < length E2" "x = E2 ! k"
      using x by (metis in_set_conv_nth)
    then show ?thesis
      using l at[of "length (E1 @ L @ G) + k"] nth_append_length_plus[of "E1 @ L @ G" E2 k] by (simp add: part_at_def)
  qed
  ultimately show "\<forall>x \<in> set (E1 @ E2). x = p \<or> f x = 0"
    by auto
  show "\<forall>x \<in> set L. f x < 0"
  proof
    fix x assume "x \<in> set L"
    then obtain k where k: "k < length L" "x = L ! k"
      by (metis in_set_conv_nth)
    then show "f x < 0"
      using l at[of "length E1 + k"] nth_append_length_plus[of E1 "L @ G @ E2" k] by (simp add: part_at_def nth_append_left)
  qed
  show "\<forall>x \<in> set G. f x > 0"
  proof
    fix x assume "x \<in> set G"
    then obtain k where k: "k < length G" "x = G ! k"
      by (metis in_set_conv_nth)
    then show "f x > 0"
      using l at[of "length (E1 @ L) + k"] nth_append_length_plus[of "E1 @ L" "G @ E2" k] by (simp add: part_at_def nth_append_left)
  qed
qed

text \<open>One round: either an insertion sort, or a partition into three parts of which the outer ones are sorted.\<close>

lemma l_qsort_round:
  obtains (insertion) ys where "mset ys = mset xs" "l_qsort cmp xs = l_insertion cmp (length xs - 1) 1 ys"
  | (partition) p L E G where "mset (L @ E @ G) = mset xs" "p \<in> set xs" "length L < length xs" "length G < length xs"
      "\<forall>x \<in> set L. cmp x p < 0" "\<forall>x \<in> set E. x = p \<or> cmp x p = 0" "\<forall>x \<in> set G. cmp x p > 0"
      "l_qsort cmp xs = (if length L > 1 then l_qsort cmp L else L) @ E @ (if length G > 1 then l_qsort cmp G else G)"
proof (cases "length xs < 7")
  case True
  then show ?thesis
    by (intro insertion[of xs]) (simp_all add: l_qsort.simps)
next
  case False
  let ?xs = "exch xs 0 (l_pivot cmp xs) 1" and ?n = "length xs"
  obtain ys a b c d sc where p: "l_part cmp ?xs 1 1 ?n ?n False = (ys, a, b, c, d, sc)"
    by (metis prod_cases6)
  note q = l_qsort_smaller[OF False p]
  show ?thesis
  proof (cases sc)
    case True
    have ne: "xs \<noteq> []"
      using False by auto
    have x: "mset ?xs = mset xs" "length ?xs = ?n"
      using mset_exch_1[of 0 xs] length_exch_1[of 0 xs] l_pivot_less[OF ne] ne by auto
    then have ne': "?xs \<noteq> []"
      using ne by auto
    define pv where "pv = ?xs ! 0"
    have "pv \<in> set ?xs"
      using ne' by (simp add: pv_def)
    then have pv: "pv \<in> set xs"
      using x(1) by (metis set_mset_mset)
    have pi: "part_inv (\<lambda>x. cmp x pv) pv ys a b b d"
      using l_part_inv[OF part_inv_start[OF ne', of "\<lambda>x. cmp x pv", folded pv_def, unfolded x(2)] p] by simp
    have "d \<le> length ys"
      using pi by (simp add: part_inv_def)
    then obtain E1 L G E2 where y: "ys = E1 @ L @ G @ E2" "a = length E1" "b = length (E1 @ L)" "d = length (E1 @ L @ G)"
      using cut4[of a b d ys] q(6-8) by blast
    note cl = part_classes[OF pi[unfolded y]]
    obtain L' E1' E2' G' where g: "l_gather ys a b c d = L' @ E1' @ E2' @ G'"
      "mset L' = mset L" "mset E1' = mset E1" "mset E2' = mset E2" "mset G' = mset G"
      using l_gather_parts[OF y(1)] y(2-4) q(7) by metis
    have s: "set L' = set L" "set (E1' @ E2') = set (E1 @ E2)" "set G' = set G"
      using g(2-5) by (metis set_append set_mset_mset)+
    have l: "length L' = b - a" "length G' = d - c" "length (L' @ E1' @ E2' @ G') = ?n"
      using mset_eq_length[OF g(2)] mset_eq_length[OF g(5)] mset_eq_length[OF q(3)] g(1) q(7) y(2-4) by simp_all
    then have n: "?n - (d - c) = length (L' @ E1' @ E2')"
      by simp
    have parts: "take (b - a) (l_gather ys a b c d) = L'" "drop (?n - (d - c)) (l_gather ys a b c d) = G'"
      "drop (b - a) (take (?n - (d - c)) (l_gather ys a b c d)) = E1' @ E2'"
      unfolding g(1) n by (simp_all add: l(1)[symmetric])
    show ?thesis
    proof (rule partition[of L' "E1' @ E2'" G' pv])
      show "mset (L' @ (E1' @ E2') @ G') = mset xs"
        using q(3) g(1) by simp
      show "l_qsort cmp xs = (if length L' > 1 then l_qsort cmp L' else L') @ (E1' @ E2') @ (if length G' > 1 then l_qsort cmp G' else G')"
        by (subst l_qsort.simps) (simp only: Let_def p prod.case True False if_True if_False not_True_eq_False parts l(1,2))
    next
      show "length L' < ?n" "length G' < ?n"
        using q(1,2) unfolding parts by simp_all
    qed (use cl s pv in auto)
  next
    case f: False
    then show ?thesis
      using False p q(4) by (intro insertion[of ys]) (simp_all add: l_qsort.simps[of cmp xs] Let_def)
  qed
qed

lemma l_qsort_mset: "mset (l_qsort cmp xs) = mset xs"
proof (induction "length xs" arbitrary: xs rule: less_induct)
  case less
  show ?case
  proof (cases rule: l_qsort_round[of xs cmp])
    case (insertion ys)
    then show ?thesis
      using l_insertion_mset[of 1 "length xs - 1" ys cmp] mset_eq_length[OF insertion(1)] by (cases xs) auto
  next
    case (partition p L E G)
    then show ?thesis
      using less[of L] less[of G] by auto
  qed
qed

context comparison
begin

lemma insr_sorted:
  "sorted_wrt (\<lambda>u v. cmp v u \<le> 0) ys \<Longrightarrow> x \<in> A \<Longrightarrow> set ys \<subseteq> A \<Longrightarrow> sorted_wrt (\<lambda>u v. cmp v u \<le> 0) (insr cmp ys x)"
proof (induction ys)
  case (Cons y ys)
  show ?case
  proof (cases "cmp y x > 0")
    case True
    then have "cmp x y \<le> 0"
      using anti[of x y] Cons.prems by auto
    then show ?thesis
      using True Cons by auto
  next
    case False
    then have "cmp v x \<le> 0" if "v \<in> set ys" for v
      using trans[of v y x] that Cons.prems by auto
    then show ?thesis
      using False Cons.prems by auto
  qed
qed simp

lemma insertion_sorted:
  "sorted_wrt (\<lambda>u v. cmp u v \<le> 0) (take k xs) \<Longrightarrow> k + j = length xs \<Longrightarrow> set xs \<subseteq> A \<Longrightarrow>
    sorted_wrt (\<lambda>u v. cmp u v \<le> 0) (l_insertion cmp j k xs)"
proof (induction j arbitrary: k xs)
  case (Suc j)
  then have k: "k < length xs"
    by simp
  let ?i = "insr cmp (rev (take k xs)) (xs ! k)"
  have m: "mset (l_insert cmp k xs) = mset xs"
    using k by simp
  have l: "length ?i = k + 1"
    using k by simp
  have "sorted_wrt (\<lambda>u v. cmp v u \<le> 0) ?i"
    using Suc.prems k by (intro insr_sorted) (auto simp: sorted_wrt_rev dest: in_set_takeD)
  then have "sorted_wrt (\<lambda>u v. cmp u v \<le> 0) (take (k + 1) (l_insert cmp k xs))"
    using l by (simp add: l_insert_at[OF k] sorted_wrt_rev)
  then show ?case
    using Suc mset_eq_length[OF m] mset_eq_setD[OF m] by simp
qed simp

lemma qsort_sorted: "set xs \<subseteq> A \<Longrightarrow> sorted_wrt (\<lambda>u v. cmp u v \<le> 0) (l_qsort cmp xs)"
proof (induction "length xs" arbitrary: xs rule: less_induct)
  case less
  show ?case
  proof (cases rule: l_qsort_round[of xs cmp])
    case (insertion ys)
    have l: "length ys = length xs" "set ys \<subseteq> A"
      using mset_eq_length[OF insertion(1)] mset_eq_setD[OF insertion(1)] less.prems by auto
    show ?thesis
    proof (cases ys)
      case Nil
      then show ?thesis
        using l insertion(2) by simp
    next
      case (Cons y zs)
      then show ?thesis
        using l insertion_sorted[of 1 ys "length xs - 1"] insertion(2) by simp
    qed
  next
    case (partition p L E G)
    define L' G' where d: "L' = (if length L > 1 then l_qsort cmp L else L)" "G' = (if length G > 1 then l_qsort cmp G else G)"
    have sub: "set L \<subseteq> A" "set E \<subseteq> A" "set G \<subseteq> A" "p \<in> A"
      using mset_eq_setD[OF partition(1)] partition(2) less.prems by auto
    have short: "sorted_wrt (\<lambda>u v. cmp u v \<le> 0) ys" if "\<not> length ys > 1" for ys
      using that by (cases ys rule: list.exhaust) (auto simp: length_greater_0_conv)
    have s: "sorted_wrt (\<lambda>u v. cmp u v \<le> 0) L'" "sorted_wrt (\<lambda>u v. cmp u v \<le> 0) G'"
      using less(1)[OF partition(3) sub(1)] less(1)[OF partition(4) sub(3)] short by (auto simp: d)
    have set': "set L' = set L" "set G' = set G"
      using mset_eq_setD[OF l_qsort_mset[of cmp L]] mset_eq_setD[OF l_qsort_mset[of cmp G]] by (simp_all add: d)
    have E: "cmp x p = 0 \<and> cmp p x = 0" if x: "x \<in> set E" for x
    proof -
      have "x \<in> A"
        using x sub(2) by auto
      then show ?thesis
        using x partition(6) sub(4) cmp_refl[of p] eq_iff[of x p] by auto
    qed
    have le: "cmp x y \<le> 0" if "cmp x p \<le> 0" "cmp p y \<le> 0" "x \<in> A" "y \<in> A" for x y
      using trans[OF that(3) sub(4) that(4)] that(1,2) by blast
    have G: "cmp p x \<le> 0" if x: "x \<in> set G" for x
    proof -
      have "x \<in> A" "cmp x p > 0"
        using x sub(3) partition(7) by auto
      then show ?thesis
        using sub(4) le_iff[of p x] by auto
    qed
    have "sorted_wrt (\<lambda>u v. cmp u v \<le> 0) E"
    proof (rule sorted_wrt_mono_rel)
      show "sorted_wrt (\<lambda>_ _. True) E"
        by simp
      show "cmp x y \<le> 0" if "x \<in> set E" "y \<in> set E" for x y
        using E[OF that(1)] E[OF that(2)] that sub(2) by - (rule le; auto)
    qed
    moreover have "cmp x y \<le> 0" if "x \<in> set L" "y \<in> set E" for x y
      using partition(5) E[OF that(2)] that sub(1,2) by - (rule le; auto)
    moreover have "cmp x y \<le> 0" if "x \<in> set L" "y \<in> set G" for x y
      using partition(5) G[OF that(2)] that sub(1,3) by - (rule le; auto)
    moreover have "cmp x y \<le> 0" if "x \<in> set E" "y \<in> set G" for x y
      using E[OF that(1)] G[OF that(2)] that sub(2,3) by - (rule le; auto)
    ultimately have "sorted_wrt (\<lambda>u v. cmp u v \<le> 0) (L' @ E @ G')"
      using s set' by (auto simp: sorted_wrt_append)
    then show ?thesis
      using partition(8) by (simp add: d)
  qed
qed

end

section \<open>The code on bytes\<close>

text \<open>An array of objects of \<open>es\<close> bytes, between other bytes.\<close>

definition uni :: "nat \<Rightarrow> u8 list list \<Rightarrow> bool" where
  "uni es xs \<longleftrightarrow> (\<forall>x \<in> set xs. length x = es)"

definition img :: "u8 list \<Rightarrow> u8 list list \<Rightarrow> u8 list \<Rightarrow> u8 list" where
  "img pre xs post = pre @ concat xs @ post"

lemma length_concat_uni: "uni es xs \<Longrightarrow> length (concat xs) = length xs * es"
  by (induction xs) (auto simp: uni_def)

lemma length_img: "uni es xs \<Longrightarrow> length (img pre xs post) = length pre + length xs * es + length post"
  by (simp add: img_def length_concat_uni)

lemma uni_append [simp]: "uni es (xs @ ys) \<longleftrightarrow> uni es xs \<and> uni es ys"
  by (auto simp: uni_def)

lemma uni_mset: "uni es xs \<Longrightarrow> mset ys = mset xs \<Longrightarrow> uni es ys"
  using mset_eq_setD by (fastforce simp: uni_def)

lemma uni_exch: "uni es xs \<Longrightarrow> apart i j c \<Longrightarrow> i + c \<le> length xs \<Longrightarrow> j + c \<le> length xs \<Longrightarrow> uni es (exch xs i j c)"
  using mset_exch uni_mset by blast

lemma rdn_img:
  assumes "uni es xs" "i < length xs"
  shows "rdn (img pre xs post) (length pre + i * es) es = Some (xs ! i)"
proof -
  have t: "uni es (take i xs)" "length (xs ! i) = es"
    using assms by (auto simp: uni_def dest: in_set_takeD)
  have "concat xs = concat (take i xs) @ xs ! i @ concat (drop (Suc i) xs)"
    using id_take_nth_drop[OF assms(2)] by (metis concat.simps(2) concat_append)
  moreover have "length (concat (take i xs)) = i * es"
    using length_concat_uni[OF t(1)] assms(2) by simp
  ultimately show ?thesis
    using t(2) by (simp add: rdn_def img_def)
qed

lemma call_cmp_img:
  "uni es xs \<Longrightarrow> i < length xs \<Longrightarrow> j < length xs \<Longrightarrow>
    call_cmp cmp es (img pre xs post) (length pre + i * es) (length pre + j * es) = Some (cmp (xs ! i) (xs ! j))"
  by (simp add: call_cmp_def rdn_img)

lemma exch_img:
  assumes "uni es xs" "apart i j c" "i + c \<le> length xs" "j + c \<le> length xs"
  shows "exch (img pre xs post) (length pre + i * es) (length pre + j * es) (c * es) = img pre (exch xs i j c) post"
proof (rule exch_cases[OF assms(2-4), where P = "\<lambda>i j r. exch (img pre xs post) (length pre + i * es) (length pre + j * es) (c * es) = img pre r post"])
  fix A B C D E p q
  assume x: "xs = A @ B @ C @ D @ E" "length A = p" "length B = c" "length D = c" "p + c + length C = q"
  have l: "length (concat A) = p * es" "length (concat B) = c * es" "length (concat C) = length C * es" "length (concat D) = c * es"
    using assms(1) x length_concat_uni by auto
  have "exch ((pre @ concat A) @ concat B @ concat C @ concat D @ (concat E @ post)) (length pre + p * es) (length pre + q * es) (c * es)
      = (pre @ concat A) @ concat D @ concat C @ concat B @ (concat E @ post)"
    by (rule exch_blocks) (use l x(5) in \<open>auto simp: algebra_simps\<close>)
  then show "exch (img pre xs post) (length pre + p * es) (length pre + q * es) (c * es) = img pre (A @ D @ C @ B @ E) post"
    by (simp add: img_def x(1))
qed (simp_all add: exch_sym)

text \<open>The bytes of two blocks change places.\<close>

definition swap_bytes :: "u8 list \<Rightarrow> nat \<Rightarrow> nat \<Rightarrow> nat \<Rightarrow> u8 list option" where
  "swap_bytes m p q w = do { t \<leftarrow> rdn m p w; u \<leftarrow> rdn m q w; m1 \<leftarrow> blit m p u; blit m1 q t }"

lemma swap_bytes_up:
  assumes "p + w \<le> q" "q + w \<le> length m"
  shows "swap_bytes m p q w = Some (exch m p q w)" "swap_bytes m q p w = Some (exch m p q w)"
proof -
  obtain A B C D E where m: "m = A @ B @ C @ D @ E" "length A = p" "length B = w" "length D = w" "p + w + length C = q"
    using blocks_of[OF assms] .
  have "exch m p q w = A @ D @ C @ B @ E"
    using m by (auto intro: exch_blocks)
  moreover have "swap_bytes m p q w = Some (A @ D @ C @ B @ E)" "swap_bytes m q p w = Some (A @ D @ C @ B @ E)"
    using m by (auto simp: swap_bytes_def rdn_def blit_def)
  ultimately show "swap_bytes m p q w = Some (exch m p q w)" "swap_bytes m q p w = Some (exch m p q w)"
    by simp_all
qed

lemma swap_bytes_exch:
  assumes "apart p q w" "p + w \<le> length m" "q + w \<le> length m"
  shows "swap_bytes m p q w = Some (exch m p q w)"
proof -
  have "blit m p (take w (drop p m)) = Some m"
    using moved_blit[of p w m p] assms(2) by simp
  then have "swap_bytes m p p w = Some m"
    using assms(2) by (simp add: swap_bytes_def rdn_def)
  then show ?thesis
    using assms swap_bytes_up[of p w q m] swap_bytes_up[of q w p m] exch_sym[of m p q w] by (auto simp: apart_def)
qed

lemma swapcode_exch:
  "1 \<le> k \<Longrightarrow> apart p q (k * w) \<Longrightarrow> p + k * w \<le> length m \<Longrightarrow> q + k * w \<le> length m \<Longrightarrow>
    swapcode w m p q k = Some (exch m p q (k * w))"
proof (induction k arbitrary: m p q)
  case (Suc k)
  have a: "apart p q w" "p + w \<le> length m" "q + w \<le> length m"
    using Suc.prems by (auto simp: apart_def)
  have s: "swapcode w m p q (Suc k) = swap_bytes m p q w \<bind> (\<lambda>m. if k > 0 then swapcode w m (p + w) (q + w) k else Some m)"
    by (subst swapcode.simps) (simp add: swap_bytes_def cong: if_cong)
  have l: "length (exch m p q w) = length m"
    using a by simp
  show ?case
  proof (cases "k = 0")
    case True
    then show ?thesis
      using s swap_bytes_exch[OF a] by simp
  next
    case False
    have "swapcode w (exch m p q w) (p + w) (q + w) k = Some (exch (exch m p q w) (p + w) (q + w) (k * w))"
      using False Suc.prems l by (intro Suc.IH) (auto simp: apart_def)
    also have "exch (exch m p q w) (p + w) (q + w) (k * w) = exch m p q (w + k * w)"
      using Suc.prems by (intro exch_step) auto
    finally show ?thesis
      using s swap_bytes_exch[OF a] False by simp
  qed
qed simp

text \<open>A \<open>swaptype\<close> that fits the size of the objects.\<close>

definition fits :: "nat \<Rightarrow> nat \<Rightarrow> bool" where
  "fits es st \<longleftrightarrow> 0 < es \<and> (st = 0 \<longrightarrow> es = 4) \<and> (st \<le> 1 \<longrightarrow> 4 dvd es)"

lemma fits_swapinit: "0 < es \<Longrightarrow> fits es (swapinit addr es)"
  by (auto simp: fits_def swapinit_def)

lemma swapfunc_img:
  assumes "uni es xs" "fits es st" "apart i j c" "i + c \<le> length xs" "j + c \<le> length xs" "0 < c"
  shows "swapfunc (img pre xs post) (length pre + i * es) (length pre + j * es) (c * es) st = Some (img pre (exch xs i j c) post)"
proof -
  let ?m = "img pre xs post" and ?p = "length pre + i * es" and ?q = "length pre + j * es"
  have a: "apart ?p ?q (c * es)"
  proof -
    have "i * es + c * es \<le> j * es" if "i + c \<le> j" for i j
      using mult_le_mono1[OF that, of es] by (simp add: distrib_right)
    then show ?thesis
      using assms(3) by (auto simp: apart_def)
  qed
  have "(i + c) * es \<le> length xs * es" "(j + c) * es \<le> length xs * es"
    using assms(4,5) by (simp_all add: mult_le_mono1)
  then have b: "?p + c * es \<le> length ?m" "?q + c * es \<le> length ?m"
    by (simp_all add: length_img[OF assms(1)] distrib_right)
  have "swapfunc ?m ?p ?q (c * es) st = Some (exch ?m ?p ?q (c * es))"
  proof (cases "st \<le> 1")
    case True
    then obtain k where k: "es = 4 * k" "0 < k"
      using assms(2) by (auto simp: fits_def)
    have "swapcode 4 ?m ?p ?q (c * k) = Some (exch ?m ?p ?q (c * k * 4))"
      using a b k assms(6) by (intro swapcode_exch) (auto simp: ac_simps)
    then show ?thesis
      using True k by (simp add: swapfunc_def ac_simps)
  next
    case False
    have "swapcode 1 ?m ?p ?q (c * es) = Some (exch ?m ?p ?q (c * es * 1))"
      using a b assms(2,6) by (intro swapcode_exch) (auto simp: fits_def)
    then show ?thesis
      using False by (simp add: swapfunc_def)
  qed
  then show ?thesis
    using exch_img[OF assms(1,3-5), of pre post] by simp
qed

lemma swap_obj_img:
  assumes "uni es xs" "fits es st" "i < length xs" "j < length xs"
  shows "swap_obj (img pre xs post) (length pre + i * es) (length pre + j * es) es st = Some (img pre (exch xs i j 1) post)"
proof -
  have a: "apart i j 1" "i + 1 \<le> length xs" "j + 1 \<le> length xs"
    using assms(3,4) by (auto simp: apart_def)
  note s = swapfunc_img[OF assms(1,2) a zero_less_one, of pre post]
  show ?thesis
  proof (cases "st = 0")
    case True
    then have "es = 4"
      using assms(2) by (simp add: fits_def)
    then have "swap_obj (img pre xs post) (length pre + i * es) (length pre + j * es) es st = swapfunc (img pre xs post) (length pre + i * es) (length pre + j * es) (1 * es) st"
      using True by (simp add: swap_obj_def swapfunc_def swapcode.simps)
    then show ?thesis
      using s by simp
  qed (use s in \<open>simp add: swap_obj_def\<close>)
qed

lemma vecswap_img:
  assumes "uni es xs" "fits es st" "apart i j c" "i + c \<le> length xs" "j + c \<le> length xs"
  shows "vecswap (img pre xs post) (length pre + i * es) (length pre + j * es) (c * es) st = Some (img pre (exch xs i j c) post)"
  using swapfunc_img[OF assms, of pre post] assms(2) by (cases "c = 0") (auto simp: vecswap_def fits_def)

text \<open>The address of the object \<open>i\<close>.\<close>

definition ptr :: "u8 list \<Rightarrow> nat \<Rightarrow> nat \<Rightarrow> nat" where
  "ptr pre es i = length pre + i * es"

lemma ptr_simps:
  "ptr pre es 0 = length pre" "ptr pre es i + es = ptr pre es (Suc i)" "length pre + es = ptr pre es 1"
  "ptr pre es (Suc i) - es = ptr pre es i"
  by (simp_all add: ptr_def)

lemma ptr_order:
  assumes "0 < es"
  shows "ptr pre es i < ptr pre es j \<longleftrightarrow> i < j" "ptr pre es i \<le> ptr pre es j \<longleftrightarrow> i \<le> j" "length pre < ptr pre es i \<longleftrightarrow> 0 < i"
  using assms by (simp_all add: ptr_def)

lemma ptr_cmp:
  "uni es xs \<Longrightarrow> i < length xs \<Longrightarrow> j < length xs \<Longrightarrow>
    call_cmp cmp es (img pre xs post) (ptr pre es i) (ptr pre es j) = Some (cmp (xs ! i) (xs ! j))"
  by (simp add: ptr_def call_cmp_img)

lemma ptr_cmp0:
  "uni es xs \<Longrightarrow> i < length xs \<Longrightarrow>
    call_cmp cmp es (img pre xs post) (ptr pre es i) (length pre) = Some (cmp (xs ! i) (xs ! 0))"
  using ptr_cmp[of es xs i 0 cmp pre post] by (cases xs) (auto simp: ptr_simps)

lemma ptr_swap:
  assumes "uni es xs" "fits es st" "i < length xs" "j < length xs"
  shows "swap_obj (img pre xs post) (ptr pre es i) (ptr pre es j) es st = Some (img pre (exch xs i j 1) post)"
    "uni es (exch xs i j 1)" "length (exch xs i j 1) = length xs"
  using swap_obj_img[OF assms] uni_mset[OF assms(1) mset_exch_1[OF assms(3,4)]] length_exch_1[OF assms(3,4)]
  by (simp_all add: ptr_def)

lemma insert_loop_img:
  assumes "fits es st"
  shows "uni es xs \<Longrightarrow> l < length xs \<Longrightarrow>
    insert_loop cmp es st (img pre xs post) (length pre) (ptr pre es l) = Some (img pre (l_insert cmp l xs) post)"
proof (induction l arbitrary: xs)
  case 0
  then show ?case
    by (simp add: insert_loop.simps ptr_simps)
next
  case (Suc l)
  then have l: "l < length xs"
    by simp
  have "0 < es"
    using assms by (simp add: fits_def)
  then show ?case
    using Suc.IH[OF ptr_swap(2)[OF Suc.prems(1) assms Suc.prems(2) l]] Suc.prems l
    by (subst insert_loop.simps)
      (simp add: ptr_order ptr_simps ptr_cmp[OF Suc.prems(1)] ptr_swap[OF Suc.prems(1) assms] del: One_nat_def)
qed

lemma insertion_sort_img:
  assumes "fits es st"
  shows "uni es xs \<Longrightarrow> k + j = length xs \<Longrightarrow>
    insertion_sort cmp es st (img pre xs post) (length pre) (ptr pre es (length xs)) (ptr pre es k) =
      Some (img pre (l_insertion cmp j k xs) post)"
proof (induction j arbitrary: k xs)
  case 0
  then show ?case
    by (simp add: insertion_sort.simps)
next
  case (Suc j)
  then have k: "k < length xs"
    by simp
  have m: "mset (l_insert cmp k xs) = mset xs"
    using k by simp
  note x = uni_mset[OF Suc.prems(1) m] mset_eq_length[OF m]
  have "0 < es"
    using assms by (simp add: fits_def)
  then show ?case
    using Suc.IH[OF x(1), of "Suc k"] x(2) k Suc.prems insert_loop_img[OF assms Suc.prems(1) k, of cmp pre post]
    by (subst insertion_sort.simps) (simp add: ptr_order ptr_simps)
qed

lemma insertion_sort_all:
  assumes "fits es st" "uni es xs"
  shows "insertion_sort cmp es st (img pre xs post) (length pre) (ptr pre es (length xs)) (ptr pre es 1) =
      Some (img pre (l_insertion cmp (length xs - 1) 1 xs) post)"
proof (cases xs)
  case Nil
  then show ?thesis
    by (simp add: insertion_sort.simps ptr_def)
next
  case (Cons y ys)
  then show ?thesis
    using insertion_sort_img[OF assms, of 1 "length xs - 1" cmp pre post] by simp
qed

lemma scan_left_img:
  assumes "fits es st"
  shows "uni es xs \<Longrightarrow> a \<le> b \<Longrightarrow> c < length xs \<Longrightarrow>
    scan_left cmp es st (length pre) (ptr pre es c) (img pre xs post) (ptr pre es a) (ptr pre es b) sc =
      (case l_left cmp (Suc c) xs a b sc of (xs', a', b', sc') \<Rightarrow> Some (img pre xs' post, ptr pre es a', ptr pre es b', sc'))"
proof (induction cmp "Suc c" xs a b sc rule: l_left.induct)
  case (1 cmp xs a b sc)
  have es: "0 < es"
    using assms by (simp add: fits_def)
  note x = 1(3)
  show ?case
  proof (cases "b \<le> c")
    case True
    then have l: "a < length xs" "b < length xs" "b < Suc c"
      using 1(4,5) by auto
    note s = ptr_swap[OF x assms l(1,2)]
    show ?thesis
      using 1(1)[OF l(3) _ x] 1(2)[OF l(3) _ _ s(2)] 1(4,5) True l s(1,3) ptr_cmp0[OF x l(2), of cmp pre post]
      by (subst scan_left.simps, subst l_left.simps) (simp add: es ptr_order ptr_simps)
  next
    case False
    then show ?thesis
      by (subst scan_left.simps, subst l_left.simps) (simp add: es ptr_order)
  qed
qed

lemma scan_right_img:
  assumes "fits es st" "1 \<le> b"
  shows "uni es xs \<Longrightarrow> b \<le> c \<Longrightarrow> c \<le> d \<Longrightarrow> d \<le> length xs \<Longrightarrow>
    scan_right cmp es st (length pre) (ptr pre es b) (img pre xs post) (ptr pre es (c - 1)) (ptr pre es (d - 1)) sc =
      (case l_right cmp b xs c d sc of
        (xs', c', d', sc') \<Rightarrow> Some (img pre xs' post, ptr pre es (c' - 1), ptr pre es (d' - 1), sc'))"
  using assms(2)
proof (induction cmp b xs c d sc rule: l_right.induct)
  case (1 cmp b xs c d sc)
  have es: "0 < es"
    using assms by (simp add: fits_def)
  note x = 1(3)
  show ?case
  proof (cases "b < c")
    case True
    then obtain c' d' where c: "c = Suc (Suc c')" "d = Suc (Suc d')"
      using 1(5,7) by (metis One_nat_def Suc_le_D Suc_le_lessD less_imp_Suc_add order.trans add_Suc less_eq_Suc_le)
    then have l: "Suc c' < length xs" "Suc d' < length xs" "b \<le> Suc c'" "c' \<le> d'"
      using 1(4-6) True by auto
    then have l': "c - 1 < length xs" "d - 1 < length xs"
      by (simp_all add: c)
    note s = ptr_swap[OF x assms(1) l']
    show ?thesis
      using 1(1)[OF True _ x] 1(2)[OF True _ _ s(2)] 1(7) l s(1,3) ptr_cmp0[OF x l(1), of cmp pre post]
      unfolding c
      by (subst scan_right.simps, subst l_right.simps) (simp add: es ptr_order ptr_simps)
  next
    case False
    then have "c - 1 < b"
      using 1(4,7) by auto
    then have "\<not> ptr pre es b \<le> ptr pre es (c - 1)"
      by (simp add: es ptr_order)
    with False show ?thesis
      by (subst scan_right.simps, subst l_right.simps) simp
  qed
qed

lemma partition_loop_img:
  assumes "fits es st"
  shows "part_inv (\<lambda>x. cmp x p) p xs a b c d \<Longrightarrow> uni es xs \<Longrightarrow>
    partition_loop cmp es st (length pre) (img pre xs post) (ptr pre es a) (ptr pre es b) (ptr pre es (c - 1)) (ptr pre es (d - 1)) sc =
      (case l_part cmp xs a b c d sc of
        (xs', a', b', c', d', sc') \<Rightarrow>
          Some \<lparr>ps_mem = img pre xs' post, ps_a = ptr pre es a', ps_b = ptr pre es b', ps_c = ptr pre es (c' - 1),
            ps_d = ptr pre es (d' - 1), ps_cnt = sc'\<rparr>)"
proof (induction cmp xs a b c d sc rule: l_part.induct)
  case (1 cmp xs a b c d sc)
  have es: "0 < es"
    using assms by (simp add: fits_def)
  obtain xs1 a1 b1 sc1 where l: "l_left cmp c xs a b sc = (xs1, a1, b1, sc1)"
    by (metis prod_cases4)
  obtain xs2 c2 d2 sc2 where r: "l_right cmp b1 xs1 c d sc1 = (xs2, c2, d2, sc2)"
    by (metis prod_cases4)
  note i = l_part_round[OF 1(2) l r]
  have u: "uni es xs1" "uni es xs2"
    using uni_mset[OF 1(3)] i by auto
  have B: "1 \<le> a" "a \<le> b" "b \<le> c" "c \<le> d" "d \<le> length xs" "1 \<le> b1" "b1 \<le> c" "d \<le> length xs1"
    "1 \<le> a1" "b1 \<le> c2" "c2 \<le> d2" "d2 \<le> length xs2"
    using 1(2) i(1,2) by (auto simp: part_inv_def)
  have sl: "scan_left cmp es st (length pre) (ptr pre es (c - 1)) (img pre xs post) (ptr pre es a) (ptr pre es b) sc =
      Some (img pre xs1 post, ptr pre es a1, ptr pre es b1, sc1)"
    using scan_left_img[OF assms 1(3), of a b "c - 1" cmp pre post sc] B l by simp
  have sr: "scan_right cmp es st (length pre) (ptr pre es b1) (img pre xs1 post) (ptr pre es (c - 1)) (ptr pre es (d - 1)) sc1 =
      Some (img pre xs2 post, ptr pre es (c2 - 1), ptr pre es (d2 - 1), sc2)"
    using scan_right_img[OF assms B(6) u(1), of c d cmp pre post sc1] B r by simp
  show ?case
  proof (cases "b1 < c2")
    case True
    then have "b1 < length xs2" "c2 - 1 < length xs2"
      using B by auto
    note s = ptr_swap[OF u(2) assms this]
    have "\<not> ptr pre es (c2 - 1) < ptr pre es b1"
      using True by (simp add: es ptr_order)
    moreover have "ptr pre es (c2 - 1) - es = ptr pre es (c2 - 1 - 1)"
      using True B by (cases "c2 - 1") (auto simp: ptr_simps)
    ultimately show ?thesis
      using sl sr s True l r 1(1)[OF l[symmetric] refl refl r[symmetric] refl refl True i(5)[OF True] s(2)]
      by (subst partition_loop.simps, subst l_part.simps) (simp add: ptr_simps)
  next
    case False
    then have "c2 - 1 < b1"
      using B by auto
    then have "ptr pre es (c2 - 1) < ptr pre es b1"
      by (simp add: es ptr_order)
    then show ?thesis
      using sl sr False l r by (subst partition_loop.simps, subst l_part.simps) simp
  qed
qed

lemma med3_img:
  "uni es xs \<Longrightarrow> i < length xs \<Longrightarrow> j < length xs \<Longrightarrow> k < length xs \<Longrightarrow>
    med3 cmp es (img pre xs post) (ptr pre es i) (ptr pre es j) (ptr pre es k) = Some (ptr pre es (l_med3 cmp xs i j k))"
  by (simp add: med3_def l_med3_def ptr_cmp)

lemma ptr_arith:
  "ptr pre es i + k * es = ptr pre es (i + k)" "k \<le> i \<Longrightarrow> ptr pre es i - k * es = ptr pre es (i - k)"
  "length pre + k * es = ptr pre es k"
proof -
  show "ptr pre es i + k * es = ptr pre es (i + k)" "length pre + k * es = ptr pre es k"
    by (simp_all add: ptr_def distrib_right)
  show "ptr pre es i - k * es = ptr pre es (i - k)" if "k \<le> i"
    using mult_le_mono1[OF that, of es] by (simp add: ptr_def diff_mult_distrib)
qed

lemma pivot_img:
  assumes "uni es xs" "7 \<le> length xs"
  shows "pivot cmp es (img pre xs post) (length pre) (length xs) = Some (ptr pre es (l_pivot cmp xs))"
proof -
  let ?n = "length xs"
  let ?d = "?n div 8" and ?m = "?n div 2"
  note med = med3_img[OF assms(1), where cmp = cmp and pre = pre and post = post]
  show ?thesis
  proof (cases "?n > 40")
    case True
    have n0: "0 < ?n" "?d < ?n"
      using True by auto
    have b: "2 * ?d < ?n" "?m + ?d < ?n" "?d \<le> ?m" "2 * ?d \<le> ?n - 1" "?d \<le> ?n - 1"
      using True by auto
    have p: "length pre + ?d * es = ptr pre es ?d" "length pre + 2 * (?d * es) = ptr pre es (2 * ?d)"
      "ptr pre es ?m - ?d * es = ptr pre es (?m - ?d)" "ptr pre es ?m + ?d * es = ptr pre es (?m + ?d)"
      "ptr pre es (?n - 1) - 2 * (?d * es) = ptr pre es (?n - 1 - 2 * ?d)"
      "ptr pre es (?n - 1) - ?d * es = ptr pre es (?n - 1 - ?d)"
      by (rule ptr_arith(3) ptr_arith(3)[of pre "2 * ?d" es, unfolded mult.assoc] ptr_arith(2)[OF b(3)] ptr_arith(1)
        ptr_arith(2)[OF b(4), unfolded mult.assoc] ptr_arith(2)[OF b(5)])+
    have 1: "med3 cmp es (img pre xs post) (length pre) (ptr pre es ?d) (ptr pre es (2 * ?d)) = Some (ptr pre es (l_med3 cmp xs 0 ?d (2 * ?d)))"
      using med[OF n0 b(1)] by (simp add: ptr_simps)
    have 2: "med3 cmp es (img pre xs post) (ptr pre es (?m - ?d)) (ptr pre es ?m) (ptr pre es (?m + ?d)) = Some (ptr pre es (l_med3 cmp xs (?m - ?d) ?m (?m + ?d)))"
      using b by (intro med) auto
    have 3: "med3 cmp es (img pre xs post) (ptr pre es (?n - 1 - 2 * ?d)) (ptr pre es (?n - 1 - ?d)) (ptr pre es (?n - 1)) = Some (ptr pre es (l_med3 cmp xs (?n - 1 - 2 * ?d) (?n - 1 - ?d) (?n - 1)))"
      using b by (intro med) auto
    have 4: "l_med3 cmp xs 0 ?d (2 * ?d) < ?n" "l_med3 cmp xs (?m - ?d) ?m (?m + ?d) < ?n"
      "l_med3 cmp xs (?n - 1 - 2 * ?d) (?n - 1 - ?d) (?n - 1) < ?n"
      using b by (auto intro!: l_med3_less)
    show ?thesis
      using True med[OF 4] unfolding pivot_def l_pivot_def Let_def
      by (simp add: 1 2 3 p ptr_arith(3)[of pre ?m es] ptr_arith(3)[of pre "?n - 1" es] del: One_nat_def diff_diff_left)
  next
    case False
    have "0 < ?n" "?m < ?n" "?n - 1 < ?n"
      using assms(2) by auto
    then show ?thesis
      using False med[of 0 ?m "?n - 1"] by (auto simp: pivot_def l_pivot_def Let_def ptr_arith(3)[of pre ?m es] ptr_arith(3)[of pre "?n - 1" es] ptr_simps(1) simp del: One_nat_def)
  qed
qed

text \<open>The objects gathered by the two calls of \<open>vecswap\<close>.\<close>

lemma min_ptr: "min (i * es) (j * es) = min i j * es" for es :: nat
  by (simp add: min_def)

lemma gather_img:
  assumes "fits es st" "uni es xs" "a \<le> b" "b = c" "c \<le> d" "d \<le> length xs"
  shows "do {
      m \<leftarrow> vecswap (img pre xs post) (length pre) (ptr pre es (b - min a (b - a))) (min a (b - a) * es) st;
      vecswap m (ptr pre es b) (ptr pre es (length xs - min (d - c) (length xs - d))) (min (d - c) (length xs - d) * es) st
    } = Some (img pre (l_gather xs a b c d) post)"
proof -
  let ?r = "min a (b - a)" and ?n = "length xs"
  let ?s = "min (d - c) (?n - d)" and ?x = "exch xs 0 (b - ?r) ?r"
  have 1: "apart 0 (b - ?r) ?r" "0 + ?r \<le> ?n" "b - ?r + ?r \<le> ?n"
    using assms(3-6) by (auto simp: apart_def)
  note m = mset_exch[OF 1]
  have x: "uni es ?x" "length ?x = ?n"
    using uni_mset[OF assms(2) m] mset_eq_length[OF m] by auto
  have 2: "apart b (?n - ?s) ?s" "b + ?s \<le> length ?x" "?n - ?s + ?s \<le> length ?x"
    using assms(3-6) x(2) by (auto simp: apart_def min_def)
  have "vecswap (img pre xs post) (length pre) (ptr pre es (b - ?r)) (?r * es) st = Some (img pre ?x post)"
    using vecswap_img[OF assms(2,1) 1, of pre post] by (simp add: ptr_def)
  moreover have "vecswap (img pre ?x post) (ptr pre es b) (ptr pre es (?n - ?s)) (?s * es) st = Some (img pre (exch ?x b (?n - ?s) ?s) post)"
    using vecswap_img[OF x(1) assms(1) 2, of pre post] by (simp add: ptr_def)
  ultimately show ?thesis
    by (simp add: l_gather_def Let_def)
qed

lemma ptr_diff: "j \<le> i \<Longrightarrow> ptr pre es i - ptr pre es j = (i - j) * es"
  by (simp add: ptr_def diff_mult_distrib)

text \<open>The recursive calls, on the first and on the last objects.\<close>

lemma qsort_front:
  assumes "\<And>pre post. qsort cmp es base (img pre (take i zs) post) (length pre) (length (take i zs)) = Some (img pre L post)"
    "i \<le> length zs"
  shows "qsort cmp es base (img pre zs post) (length pre) i = Some (img pre (L @ drop i zs) post)"
proof -
  have "img pre zs post = img pre (take i zs) (concat (drop i zs) @ post)"
    by (simp add: img_def) (metis append_take_drop_id concat_append append.assoc)
  then show ?thesis
    using assms(1)[of pre "concat (drop i zs) @ post"] length_take[of i zs] min_absorb2[OF assms(2)] by (simp add: img_def)
qed

lemma qsort_back:
  assumes "\<And>pre post. qsort cmp es base (img pre (drop k zs) post) (length pre) (length (drop k zs)) = Some (img pre G post)"
    "uni es zs" "k \<le> length zs"
  shows "qsort cmp es base (img pre zs post) (ptr pre es k) (length zs - k) = Some (img pre (take k zs @ G) post)"
proof -
  have "uni es (take k zs)"
    using assms(2) by (auto simp: uni_def dest: in_set_takeD)
  then have "length (pre @ concat (take k zs)) = ptr pre es k"
    using length_concat_uni[of es "take k zs"] assms(3) by (simp add: ptr_def)
  moreover have "img pre zs post = img (pre @ concat (take k zs)) (drop k zs) post"
    by (simp add: img_def) (metis append_take_drop_id concat_append append.assoc)
  ultimately show ?thesis
    using assms(1)[of "pre @ concat (take k zs)" post] by (simp add: img_def)
qed

text \<open>What is done after the partition.\<close>

lemma qsort_rest:
  assumes "0 < es" "uni es zs" "length zs = n" "i + j \<le> n"
    "\<And>pre post. 1 < i \<Longrightarrow> qsort cmp es base (img pre (take i zs) post) (length pre) (length (take i zs)) = Some (img pre (l_qsort cmp (take i zs)) post)"
    "\<And>pre post. 1 < j \<Longrightarrow> qsort cmp es base (img pre (drop (n - j) zs) post) (length pre) (length (drop (n - j) zs)) = Some (img pre (l_qsort cmp (drop (n - j) zs)) post)"
  shows "do {
      m \<leftarrow> (if i * es > es then qsort cmp es base (img pre zs post) (length pre) (i * es div es) else Some (img pre zs post));
      if j * es > es then qsort cmp es base m (ptr pre es (n - j)) (j * es div es) else Some m
    } = Some (img pre ((if i > 1 then l_qsort cmp (take i zs) else take i zs) @ drop i (take (n - j) zs) @
          (if j > 1 then l_qsort cmp (drop (n - j) zs) else drop (n - j) zs)) post)"
proof -
  define L G where d: "L = (if i > 1 then l_qsort cmp (take i zs) else take i zs)"
    "G = (if j > 1 then l_qsort cmp (drop (n - j) zs) else drop (n - j) zs)"
  have g: "k * es > es \<longleftrightarrow> k > 1" "k * es div es = k" for k
    using assms(1) by auto
  have m: "mset L = mset (take i zs)"
    by (simp add: d l_qsort_mset)
  have l: "length L = i"
    using mset_eq_length[OF m] assms(3,4) by simp
  let ?z = "L @ drop i zs"
  have "mset ?z = mset zs"
    using m by (metis append_take_drop_id mset_append)
  then have z: "uni es ?z" "length ?z = n"
    using uni_mset[OF assms(2)] mset_eq_length assms(3) by blast+
  have dz: "drop (n - j) ?z = drop (n - j) zs" "take (n - j) ?z = L @ drop i (take (n - j) zs)"
    using l assms(4) by (simp_all add: drop_take)
  have 1: "(if i > 1 then qsort cmp es base (img pre zs post) (length pre) i else Some (img pre zs post)) = Some (img pre ?z post)"
    using qsort_front[OF assms(5), of pre post] assms(3,4) by (simp add: d)
  have "qsort cmp es base (img pre ?z post) (ptr pre es (n - j)) (length ?z - (n - j)) = Some (img pre (take (n - j) ?z @ G) post)" if j: "1 < j"
  proof (rule qsort_back[OF _ z(1)])
    show "qsort cmp es base (img pre (drop (n - j) ?z) post) (length pre) (length (drop (n - j) ?z)) = Some (img pre G post)" for pre post
      using assms(6)[OF j] j unfolding dz(1) d(2) by simp
  qed (unfold z(2), simp)
  moreover have "length ?z - (n - j) = j"
    using z(2) assms(4) by simp
  moreover have "take (n - j) ?z @ G = ?z" if "\<not> 1 < j"
  proof -
    have "G = drop (n - j) ?z"
      using that by (simp only: d(2) dz(1) if_False)
    then show ?thesis
      by (simp only: append_take_drop_id)
  qed
  ultimately have "(if j > 1 then qsort cmp es base (img pre ?z post) (ptr pre es (n - j)) j else Some (img pre ?z post)) =
      Some (img pre (take (n - j) ?z @ G) post)"
    by auto
  then show ?thesis
    using 1 unfolding g d[symmetric] dz(2) by simp
qed

lemma qsort_img:
  assumes "0 < es"
  shows "uni es xs \<Longrightarrow> qsort cmp es base (img pre xs post) (length pre) (length xs) = Some (img pre (l_qsort cmp xs) post)"
proof (induction "length xs" arbitrary: xs pre post rule: less_induct)
  case less
  let ?st = "swapinit (base + length pre) es" and ?n = "length xs"
  have f: "fits es ?st"
    using assms by (rule fits_swapinit)
  show ?case
  proof (cases "?n < 7")
    case True
    then show ?thesis
      using insertion_sort_all[OF f less.prems, of cmp pre post]
      by (subst qsort.simps, subst l_qsort.simps) (simp only: Let_def if_True ptr_arith(3), simp only: ptr_simps(3))
  next
    case False
    let ?x = "exch xs 0 (l_pivot cmp xs) 1"
    have ne: "xs \<noteq> []" "0 < ?n" "7 \<le> ?n"
      using False by auto
    note sw = ptr_swap[OF less.prems f ne(2) l_pivot_less[OF ne(1), of cmp]]
    obtain ys a b c d sc where p: "l_part cmp ?x 1 1 ?n ?n False = (ys, a, b, c, d, sc)"
      by (metis prod_cases6)
    note q = l_qsort_smaller[OF False p]
    have y: "uni es ys" "length ys = ?n"
      using uni_mset[OF less.prems q(4)] mset_eq_length[OF q(4)] by auto
    have "?x \<noteq> []"
      using sw(3) ne by auto
    then have pi: "part_inv (\<lambda>x. cmp x (?x ! 0)) (?x ! 0) ?x 1 1 ?n ?n"
      using part_inv_start[of ?x "\<lambda>x. cmp x (?x ! 0)"] sw(3) by simp
    have pl: "partition_loop cmp es ?st (length pre) (img pre ?x post) (ptr pre es 1) (ptr pre es 1) (ptr pre es (?n - 1)) (ptr pre es (?n - 1)) False =
        Some \<lparr>ps_mem = img pre ys post, ps_a = ptr pre es a, ps_b = ptr pre es b, ps_c = ptr pre es (c - 1), ps_d = ptr pre es (d - 1), ps_cnt = sc\<rparr>"
      using partition_loop_img[where cmp = cmp and p = "?x ! 0", OF f pi sw(2), of pre post False] by (simp only: p prod.case)
    have d: "d \<le> ?n" "1 \<le> d" "1 \<le> c"
      using l_part_inv[where cmp = cmp and p = "?x ! 0", OF pi p] y(2) by (auto simp: part_inv_def)
    let ?z = "l_gather ys a b c d"
    have z: "uni es ?z" "length ?z = ?n"
      using uni_mset[OF less.prems q(3)] mset_eq_length[OF q(3)] by auto
    have pv: "pivot cmp es (img pre xs post) (length pre) ?n = Some (ptr pre es (l_pivot cmp xs))"
      using pivot_img[OF less.prems ne(3)] .
    have sw0: "swap_obj (img pre xs post) (length pre) (ptr pre es (l_pivot cmp xs)) es ?st = Some (img pre ?x post)"
      using sw(1)[of pre post] by (simp only: ptr_simps(1))
    have start: "qsort cmp es base (img pre xs post) (length pre) ?n =
      (if \<not> sc then insertion_sort cmp es ?st (img pre ys post) (length pre) (ptr pre es ?n) (ptr pre es 1)
       else
         do {
           let r = min (ptr pre es a - length pre) (ptr pre es b - ptr pre es a);
           m \<leftarrow> vecswap (img pre ys post) (length pre) (ptr pre es b - r) r ?st;
           let r = min (ptr pre es (d - 1) - ptr pre es (c - 1)) (ptr pre es ?n - ptr pre es (d - 1) - es);
           m \<leftarrow> vecswap m (ptr pre es b) (ptr pre es ?n - r) r ?st;
           let r = ptr pre es b - ptr pre es a;
           m \<leftarrow> (if r > es then qsort cmp es base m (length pre) (r div es) else Some m);
           let r = ptr pre es (d - 1) - ptr pre es (c - 1);
           if r > es then qsort cmp es base m (ptr pre es ?n - r) (r div es) else Some m
         })"
      using False pv sw0 pl unfolding qsort.simps[of cmp es base "img pre xs post" "length pre" ?n] ptr_arith(3) Let_def
      unfolding ptr_simps(3) by (simp del: One_nat_def cong: if_cong)
    show ?thesis
    proof (cases sc)
      case True
      have r: "ptr pre es a - length pre = a * es" "ptr pre es b - ptr pre es a = (b - a) * es"
        "ptr pre es (d - 1) - ptr pre es (c - 1) = (d - c) * es" "ptr pre es ?n - ptr pre es (d - 1) - es = (?n - d) * es"
        using q(6-9) d ptr_diff[of "d - 1" ?n pre es] ptr_diff[of "c - 1" "d - 1" pre es] ptr_diff[of a b pre es]
        by (simp_all add: ptr_def diff_mult_distrib)
      have s: "ptr pre es b - min a (b - a) * es = ptr pre es (b - min a (b - a))"
        "ptr pre es ?n - min (d - c) (?n - d) * es = ptr pre es (?n - min (d - c) (?n - d))"
        "ptr pre es ?n - (d - c) * es = ptr pre es (?n - (d - c))"
        using q(6-9) d by (intro ptr_arith(2); auto)+
      note g = gather_img[OF f y(1) q(6-8), of pre post, unfolded y(2), OF d(1)]
      have "qsort cmp es base (img pre xs post) (length pre) ?n =
        do {
          m \<leftarrow> (if (b - a) * es > es then qsort cmp es base (img pre ?z post) (length pre) ((b - a) * es div es) else Some (img pre ?z post));
          if (d - c) * es > es then qsort cmp es base m (ptr pre es (?n - (d - c))) ((d - c) * es div es) else Some m
        }"
        using g True unfolding start Let_def r min_ptr s by (auto simp: bind_eq_Some_conv)
      also have "\<dots> = Some (img pre ((if b - a > 1 then l_qsort cmp (take (b - a) ?z) else take (b - a) ?z) @ drop (b - a) (take (?n - (d - c)) ?z) @
          (if d - c > 1 then l_qsort cmp (drop (?n - (d - c)) ?z) else drop (?n - (d - c)) ?z)) post)"
      proof (rule qsort_rest[OF assms z q(5)])
        show "qsort cmp es base (img pre (take (b - a) ?z) post) (length pre) (length (take (b - a) ?z)) = Some (img pre (l_qsort cmp (take (b - a) ?z)) post)" for pre post
          using less.hyps[OF q(1)] z(1) by (auto simp: uni_def dest: in_set_takeD)
        show "qsort cmp es base (img pre (drop (?n - (d - c)) ?z) post) (length pre) (length (drop (?n - (d - c)) ?z)) = Some (img pre (l_qsort cmp (drop (?n - (d - c)) ?z)) post)" for pre post
          using less.hyps[OF q(2)] z(1) by (auto simp: uni_def dest: in_set_dropD)
      qed
      also have "\<dots> = Some (img pre (l_qsort cmp xs) post)"
        using False True p by (subst (3) l_qsort.simps) (simp only: Let_def prod.case if_True if_False not_True_eq_False)
      finally show ?thesis .
    next
      case f': False
      then show ?thesis
        using False p insertion_sort_all[OF f y(1), of cmp pre post] y(2) unfolding start
        by (subst l_qsort.simps) (simp add: Let_def)
    qed
  qed
qed

text \<open>The objects of an array.\<close>

definition objects :: "nat \<Rightarrow> u8 list \<Rightarrow> nat \<Rightarrow> nat \<Rightarrow> u8 list list" where
  "objects es m a n = map (\<lambda>i. take es (drop (a + i * es) m)) [0..<n]"

lemma objects_simps: "length (objects es m a n) = n" "i < n \<Longrightarrow> objects es m a n ! i = take es (drop (a + i * es) m)"
  by (simp_all add: objects_def)

lemma objects_uni: "a + n * es \<le> length m \<Longrightarrow> uni es (objects es m a n)"
proof -
  assume m: "a + n * es \<le> length m"
  have "min (length m - (a + i * es)) es = es" if "i < n" for i
  proof -
    have "Suc i * es \<le> n * es"
      using that by (simp add: mult_le_mono1 del: mult_Suc)
    then have "a + i * es + es \<le> length m"
      using m by simp
    then show ?thesis
      by linarith
  qed
  then show ?thesis
    by (auto simp: uni_def objects_def)
qed

lemma objects_rdn: "a + n * es \<le> length m \<Longrightarrow> i < n \<Longrightarrow> rdn m (a + i * es) es = Some (objects es m a n ! i)"
proof -
  assume m: "a + n * es \<le> length m" and i: "i < n"
  have "Suc i * es \<le> n * es"
    using i by (simp add: mult_le_mono1 del: mult_Suc)
  then show ?thesis
    using m i by (simp add: rdn_def objects_simps)
qed

lemma objects_Suc: "objects es m a (Suc n) = objects es m a n @ [take es (drop (a + n * es) m)]"
  by (simp add: objects_def)

lemma objects_concat: "a + n * es \<le> length m \<Longrightarrow> take (n * es) (drop a m) = concat (objects es m a n)"
proof (induction n)
  case (Suc n)
  have "take (n * es + es) (drop a m) = take (n * es) (drop a m) @ take es (drop (n * es) (drop a m))"
    by (rule take_add)
  then show ?case
    using Suc by (simp add: objects_Suc add.commute)
qed (simp add: objects_def)

lemma img_objects: "a + n * es \<le> length m \<Longrightarrow> img (take a m) (objects es m a n) (drop (a + n * es) m) = m"
  using objects_concat[of a n es m] by (simp add: img_def) (metis append_take_drop_id drop_drop add.commute)

lemma objects_img:
  assumes "uni es xs"
  shows "objects es (img pre xs post) (length pre) (length xs) = xs"
proof (rule nth_equalityI)
  fix i assume "i < length (objects es (img pre xs post) (length pre) (length xs))"
  then have i: "i < length xs"
    by (simp add: objects_simps)
  then show "objects es (img pre xs post) (length pre) (length xs) ! i = xs ! i"
    using rdn_img[OF assms i, of pre post] by (auto simp: objects_simps rdn_def split: if_splits)
qed (simp add: objects_simps)

lemma qsort_objects:
  assumes "0 < es" "a + n * es \<le> length m"
  obtains m' where "qsort cmp es base m a n = Some m'" "objects es m' a n = l_qsort cmp (objects es m a n)"
    "length m' = length m" "take a m' = take a m" "drop (a + n * es) m' = drop (a + n * es) m"
proof -
  let ?x = "objects es m a n" and ?pre = "take a m" and ?post = "drop (a + n * es) m"
  have x: "uni es ?x" "length ?x = n" "length ?pre = a"
    using objects_uni[OF assms(2)] assms(2) by (simp_all add: objects_simps)
  have y: "uni es (l_qsort cmp ?x)" "length (l_qsort cmp ?x) = n"
    using uni_mset[OF x(1) l_qsort_mset] mset_eq_length[OF l_qsort_mset[of cmp ?x]] x(2) by simp_all
  let ?m = "img ?pre (l_qsort cmp ?x) ?post"
  have "qsort cmp es base m a n = Some ?m"
    using qsort_img[OF assms(1) x(1), of cmp base ?pre ?post] unfolding x(2,3) img_objects[OF assms(2)] .
  moreover have "objects es ?m a n = l_qsort cmp ?x"
    using objects_img[OF y(1), of ?pre ?post] unfolding x(3) y(2) .
  moreover have "length ?m = length m" "take a ?m = take a m" "drop (a + n * es) ?m = drop (a + n * es) m"
    using length_concat_uni[OF y(1)] assms(2) by (simp_all add: img_def y(2) add.commute)
  ultimately show ?thesis
    using that by blast
qed

section \<open>Binary search\<close>

text \<open>
  The array is in order for the key: first the objects before it, then those that match, then those after it.
\<close>

definition ordered_for :: "('k \<Rightarrow> 'a \<Rightarrow> int) \<Rightarrow> 'k \<Rightarrow> 'a list \<Rightarrow> bool" where
  "ordered_for compar key xs \<longleftrightarrow>
    (\<forall>i j. i < j \<and> j < length xs \<longrightarrow>
      (compar key (xs ! j) > 0 \<longrightarrow> compar key (xs ! i) > 0) \<and> (compar key (xs ! i) < 0 \<longrightarrow> compar key (xs ! j) < 0))"

lemma bsearch_loop_found:
  assumes "a + n * sz \<le> length m" "ordered_for compar key (objects sz m a n)"
  shows "b + lim \<le> n \<Longrightarrow>
    (\<forall>i < b. compar key (objects sz m a n ! i) > 0) \<Longrightarrow> (\<forall>i. b + lim \<le> i \<and> i < n \<longrightarrow> compar key (objects sz m a n ! i) < 0) \<Longrightarrow>
    \<exists>r. bsearch_loop compar key m sz (a + b * sz) (int lim) = Some r \<and>
      (case r of None \<Rightarrow> \<forall>i < n. compar key (objects sz m a n ! i) \<noteq> 0
       | Some p \<Rightarrow> \<exists>i < n. p = a + i * sz \<and> compar key (objects sz m a n ! i) = 0)"
proof (induction lim arbitrary: b rule: less_induct)
  case (less lim)
  let ?x = "objects sz m a n" and ?i = "b + lim div 2"
  have o: "compar key (?x ! j) > 0 \<Longrightarrow> compar key (?x ! i) > 0" "compar key (?x ! i) < 0 \<Longrightarrow> compar key (?x ! j) < 0"
    if "i < j" "j < n" for i j
    using assms(2) that by (auto simp: ordered_for_def objects_simps)
  show ?case
  proof (cases "lim = 0")
    case True
    have "compar key (?x ! i) \<noteq> 0" if "i < n" for i
      using less.prems(2)[rule_format, of i] less.prems(3)[rule_format, of i] that True by (cases "i < b") auto
    with True show ?thesis
      by (subst bsearch_loop.simps) simp
  next
    case False
    then have i: "?i < n"
      using less.prems(1) by linarith
    define P where "P = a + ?i * sz"
    have p: "int (a + b * sz) + int lim div 2 * int sz = int P"
      by (simp add: P_def distrib_right zdiv_int)
    have x: "rdn m P sz = Some (?x ! ?i)"
      using objects_rdn[OF assms(1) i] by (simp only: P_def)
    have l: "(int lim - 1) div 2 = int ((lim - 1) div 2)" "int lim div 2 = int (lim div 2)"
      using False by (simp_all add: zdiv_int of_nat_diff)
    have "bsearch_loop compar key m sz (a + b * sz) (int lim) =
        (if compar key (?x ! ?i) > 0 then bsearch_loop compar key m sz (P + sz) (int ((lim - 1) div 2))
         else if compar key (?x ! ?i) = 0 then Some (Some P)
         else bsearch_loop compar key m sz (a + b * sz) (int (lim div 2)))"
      using False x by (subst bsearch_loop.simps, unfold Let_def p, unfold l) simp
    moreover have "P + sz = a + (?i + 1) * sz"
      by (simp add: P_def)
    ultimately have step: "bsearch_loop compar key m sz (a + b * sz) (int lim) =
        (if compar key (?x ! ?i) > 0 then bsearch_loop compar key m sz (a + (?i + 1) * sz) (int ((lim - 1) div 2))
         else if compar key (?x ! ?i) = 0 then Some (Some (a + ?i * sz))
         else bsearch_loop compar key m sz (a + b * sz) (int (lim div 2)))"
      by (simp only: P_def)
    consider "compar key (?x ! ?i) > 0" | "compar key (?x ! ?i) = 0" | "compar key (?x ! ?i) < 0"
      by linarith
    then show ?thesis
    proof cases
      case 1
      have "compar key (?x ! j) > 0" if "j < ?i + 1" for j
        using 1 o(1)[of j ?i] i that by (cases "j = ?i") auto
      moreover have "?i + 1 + (lim - 1) div 2 = b + lim"
        using False by presburger
      ultimately show ?thesis
        using less.IH[of "(lim - 1) div 2" "?i + 1"] less.prems 1 False step by auto
    next
      case 2
      then show ?thesis
        using step i by auto
    next
      case 3
      have "compar key (?x ! j) < 0" if "b + lim div 2 \<le> j" "j < n" for j
        using 3 o(2)[of ?i j] that by (cases "j = ?i") auto
      moreover have "bsearch_loop compar key m sz (a + b * sz) (int lim) = bsearch_loop compar key m sz (a + b * sz) (int (lim div 2))"
        using step 3 by simp
      ultimately show ?thesis
        using less.IH[of "lim div 2" b] less.prems(1,2) False by auto
    qed
  qed
qed

lemma bsearch_found:
  assumes "a + n * sz \<le> length m" "n < 2 ^ 31" "ordered_for compar key (objects sz m a n)"
  shows "\<exists>r. bsearch compar key m a n sz = Some r \<and>
    (case r of None \<Rightarrow> \<forall>x \<in> set (objects sz m a n). compar key x \<noteq> 0
     | Some p \<Rightarrow> \<exists>i < n. p = a + i * sz \<and> compar key (objects sz m a n ! i) = 0)"
proof -
  have "sint (of_nat n :: 32 word) = int n"
    using assms(2) by (simp add: signed_of_nat signed_take_bit_int_eq_self)
  then have "bsearch compar key m a n sz = bsearch_loop compar key m sz (a + 0 * sz) (int n)"
    by (simp add: bsearch_def)
  moreover obtain r where "bsearch_loop compar key m sz (a + 0 * sz) (int n) = Some r"
    "case r of None \<Rightarrow> \<forall>i < n. compar key (objects sz m a n ! i) \<noteq> 0
     | Some p \<Rightarrow> \<exists>i < n. p = a + i * sz \<and> compar key (objects sz m a n ! i) = 0"
    using bsearch_loop_found[OF assms(1,3), of 0 n] by auto
  ultimately show ?thesis
    by (intro exI[of _ r]) (auto simp: all_set_conv_all_nth objects_simps(1) split: option.splits)
qed

section \<open>Properties\<close>

text \<open>
  C27. \<open>qsort\<close> always returns, for every comparison function, even one that contradicts itself: it stays in the
  array, changes no byte outside of the \<open>n\<close> objects of \<open>es\<close> bytes at \<open>a\<close>, and permutes these as whole objects,
  whatever their size and alignment.
\<close>

theorem qsort_returns:
  assumes "0 < es" "a + n * es \<le> length m"
  shows "\<exists>m'. qsort cmp es base m a n = Some m' \<and> length m' = length m \<and> take a m' = take a m \<and>
    drop (a + n * es) m' = drop (a + n * es) m \<and> mset (objects es m' a n) = mset (objects es m a n)"
proof -
  obtain m' where "qsort cmp es base m a n = Some m'" "objects es m' a n = l_qsort cmp (objects es m a n)"
    "length m' = length m" "take a m' = take a m" "drop (a + n * es) m' = drop (a + n * es) m"
    using qsort_objects[OF assms] .
  then show ?thesis
    using l_qsort_mset[of cmp] by auto
qed

theorem qsort_returns_witness:
  "\<exists>m'. qsort (\<lambda>x y. 1) 2 1 [9, 3, 1, 2, 7, 1, 5, 8] 1 3 = Some m' \<and> take 1 m' = [9] \<and> drop 7 m' = [8]"
  using qsort_returns[of 2 1 3 "[9, 3, 1, 2, 7, 1, 5, 8]" "\<lambda>x y. 1" 1] by auto

text \<open>
  C26. What \<open>qsort\<close> has sorted \<open>bsearch\<close> searches: when the comparison function is a total preorder, the objects are in
  order after \<open>qsort\<close>, and \<open>bsearch\<close> on the sorted array returns, for any key of the size of an object, an object
  that matches it, or null when the array before sorting had none.
\<close>

theorem sort_then_search:
  assumes "0 < es" "a + n * es \<le> length m" "n < 2 ^ 31" "comparison cmp {x. length x = es}" "length key = es"
  shows "\<exists>m' r. qsort cmp es base m a n = Some m' \<and> sorted_wrt (\<lambda>x y. cmp x y \<le> 0) (objects es m' a n) \<and>
    bsearch cmp key m' a n es = Some r \<and>
    (case r of None \<Rightarrow> \<forall>x \<in> set (objects es m a n). cmp key x \<noteq> 0
     | Some p \<Rightarrow> \<exists>i < n. p = a + i * es \<and> cmp key (objects es m' a n ! i) = 0)"
proof -
  obtain m' where m': "qsort cmp es base m a n = Some m'" "objects es m' a n = l_qsort cmp (objects es m a n)"
    "length m' = length m"
    using qsort_objects[OF assms(1,2)] .
  let ?x = "objects es m' a n"
  have A: "set (objects es m a n) \<subseteq> {x. length x = es}"
    using objects_uni[OF assms(2)] by (auto simp: uni_def)
  have s: "sorted_wrt (\<lambda>x y. cmp x y \<le> 0) ?x"
    using comparison.qsort_sorted[OF assms(4) A] m'(2) by simp
  have e: "set ?x = set (objects es m a n)"
    unfolding m'(2) by (rule mset_eq_setD[OF l_qsort_mset])
  have "ordered_for cmp key ?x"
    unfolding ordered_for_def
  proof (intro allI impI conjI; elim conjE)
    fix i j assume ij: "i < j" "j < length ?x"
    then have x: "?x ! i \<in> {x. length x = es}" "?x ! j \<in> {x. length x = es}" "key \<in> {x. length x = es}"
      using A e assms(5) nth_mem[of i ?x] nth_mem[of j ?x] by auto
    have le: "cmp (?x ! i) (?x ! j) \<le> 0"
      using s ij by (simp add: sorted_wrt_iff_nth_less)
    show "cmp key (?x ! i) > 0" if "cmp key (?x ! j) > 0"
      using that le comparison.trans[OF assms(4) x(3,1,2)] by linarith
    show "cmp key (?x ! j) < 0" if "cmp key (?x ! i) < 0"
      using that le comparison.trans[OF assms(4) x(1,2,3)] comparison.le_iff[OF assms(4) x(2,3)] comparison.le_iff[OF assms(4) x(1,3)]
      by linarith
  qed
  then obtain r where "bsearch cmp key m' a n es = Some r"
    "case r of None \<Rightarrow> \<forall>x \<in> set ?x. cmp key x \<noteq> 0 | Some p \<Rightarrow> \<exists>i < n. p = a + i * es \<and> cmp key (?x ! i) = 0"
    using bsearch_found[of a n es m' cmp key] assms(2,3) m'(3) by auto
  then show ?thesis
    using m'(1) e s by (intro exI[of _ m'] exI[of _ r]) (auto split: option.splits)
qed

theorem sort_then_search_witness:
  "\<exists>m' p. qsort (\<lambda>x y. the (memcmp x y 2)) 2 0 [3, 1, 2, 7, 1, 5] 0 3 = Some m' \<and>
    bsearch (\<lambda>x y. the (memcmp x y 2)) [2, 7] m' 0 3 2 = Some (Some p)"
proof -
  have c: "comparison (\<lambda>x y. the (memcmp x y 2)) {x. length x = 2}"
    by (rule memcmp.by_key[of _ id 2]) auto
  have o: "objects 2 [3, 1, 2, 7, 1, 5] 0 3 = [[3, 1], [2, 7], [1, 5]]"
    by (simp add: objects_def eval_nat_numeral)
  have z: "the (memcmp [2, 7] [2, 7] 2) = 0"
    by code_simp
  have "length [2, 7 :: u8] = 2"
    by simp
  from sort_then_search[OF _ _ _ c this, of 0 3 "[3, 1, 2, 7, 1, 5]" 0, unfolded o] obtain m' r where
    "qsort (\<lambda>x y. the (memcmp x y 2)) 2 0 [3, 1, 2, 7, 1, 5] 0 3 = Some m'"
    "bsearch (\<lambda>x y. the (memcmp x y 2)) [2, 7] m' 0 3 2 = Some r"
    "case r of None \<Rightarrow> \<forall>x \<in> set [[3, 1], [2, 7], [1, 5]]. the (memcmp [2, 7] x 2) \<noteq> 0
     | Some p \<Rightarrow> \<exists>i < 3. p = 0 + i * 2 \<and> the (memcmp [2, 7] (objects 2 m' 0 3 ! i) 2) = 0"
    by auto
  then show ?thesis
    using z by (cases r) auto
qed

end
