(* ===== verification/Time64.thy ===== *)
theory Time64
  imports Bionic_Prelude "HOL-Library.Signed_Division"
begin

text \<open>
  Calendar time in 64 bits, \<open>libc/bionic/time64.c\<close>. \<open>Time64_T\<close> and \<open>Year\<close> are unbounded integers: for the values of
  the fields of a \<open>tm\<close> and all 64-bit times no intermediate result leaves 64 bits. Division and remainder are
  those of C, which truncate. An \<open>assert\<close> that fails and an access outside of a table are \<open>None\<close>; the null pointer a
  function returns is \<open>Some None\<close>. \<open>time64_config.h\<close> selects the system's \<open>localtime_r\<close> for times of 32 bits and
  no system function for \<open>gmtime64_r\<close>; \<open>localtime_r\<close> and \<open>mktime\<close> are parameters.
\<close>

section \<open>Dates and tables\<close>

record tm =
  tm_sec :: int
  tm_min :: int
  tm_hour :: int
  tm_mday :: int
  tm_mon :: int
  tm_year :: int
  tm_wday :: int
  tm_yday :: int
  tm_isdst :: int
  tm_gmtoff :: int
  tm_zone :: string

definition days_in_month :: "int list list" where
  "days_in_month =
    [[31, 28, 31, 30, 31, 30, 31, 31, 30, 31, 30, 31],
     [31, 29, 31, 30, 31, 30, 31, 31, 30, 31, 30, 31]]"

definition julian_days_by_month :: "int list list" where
  "julian_days_by_month =
    [[0, 31, 59, 90, 120, 151, 181, 212, 243, 273, 304, 334],
     [0, 31, 60, 91, 121, 152, 182, 213, 244, 274, 305, 335]]"

definition length_of_year :: "bool \<Rightarrow> int" where
  "length_of_year leap = (if leap then 366 else 365)"

text \<open>The entry of a table for a kind of year and a month.\<close>

definition month_entry :: "int list list \<Rightarrow> bool \<Rightarrow> int \<Rightarrow> int option" where
  "month_entry t leap mon = (if 0 \<le> mon \<and> mon < 12 then Some (t ! (if leap then 1 else 0) ! nat mon) else None)"

abbreviation (input) days_in_gregorian_cycle :: int where
  "days_in_gregorian_cycle \<equiv> 365 * 400 + 100 - 4 + 1"

abbreviation (input) seconds_in_gregorian_cycle :: int where
  "seconds_in_gregorian_cycle \<equiv> days_in_gregorian_cycle * 60 * 60 * 24"

definition IS_LEAP :: "int \<Rightarrow> bool" where
  "IS_LEAP n \<longleftrightarrow> (n + 1900) smod 400 = 0 \<or> (n + 1900) smod 4 = 0 \<and> (n + 1900) smod 100 \<noteq> 0"

text \<open>\<open>WRAP(a, b, m)\<close>: the new \<open>a\<close> and \<open>b\<close>.\<close>

definition WRAP :: "int \<Rightarrow> int \<Rightarrow> int \<Rightarrow> int \<times> int" where
  "WRAP a b m = (if a < 0 then (a + m, b - 1) else (a, b))"

definition is_exception_century :: "int \<Rightarrow> bool" where
  "is_exception_century year \<longleftrightarrow> year smod 100 = 0 \<and> \<not> year smod 400 = 0"

section \<open>timegm64\<close>

text \<open>The two loops over the years.\<close>

function days_up :: "int \<Rightarrow> int \<Rightarrow> int \<Rightarrow> int" where
  "days_up year orig_year days =
    (if year < orig_year then days_up (year + 1) orig_year (days + length_of_year (IS_LEAP year)) else days)"
  by pat_completeness auto
termination
  by (relation "measure (\<lambda>(year, orig_year, days). nat (orig_year - year))") auto

function days_down :: "int \<Rightarrow> int \<Rightarrow> int \<Rightarrow> int" where
  "days_down year orig_year days =
    (let days = days - length_of_year (IS_LEAP year); year = year - 1
     in if year \<ge> orig_year then days_down year orig_year days else days)"
  by pat_completeness auto
termination
  by (relation "measure (\<lambda>(year, orig_year, days). nat (year - orig_year))") auto

declare days_up.simps [simp del] days_down.simps [simp del]

definition timegm64 :: "tm \<Rightarrow> int option" where
  "timegm64 date =
    (let orig_year = tm_year date;
         cycles = (if orig_year > 100 then (orig_year - 100) sdiv 400
                   else if orig_year < - 300 then (orig_year - 100) sdiv 400 else 0);
         orig_year = orig_year - cycles * 400;
         days = cycles * days_in_gregorian_cycle;
         days = (if orig_year > 70 then days_up 70 orig_year days
                 else if orig_year < 70 then days_down 69 orig_year days
                 else days)
     in do {
       j \<leftarrow> month_entry julian_days_by_month (IS_LEAP orig_year) (tm_mon date);
       let days = days + j + (tm_mday date - 1);
       Some (days * 60 * 60 * 24 + tm_hour date * 60 * 60 + tm_min date * 60 + tm_sec date)
     })"

section \<open>gmtime64_r\<close>

text \<open>\<open>IS_LEAP\<close> adds 1900 to the \<open>int\<close> \<open>tm_year\<close>: a sum that overflows is undefined, and like a failed \<open>assert\<close>.\<close>

definition check_tm :: "tm \<Rightarrow> bool" where
  "check_tm t \<longleftrightarrow>
    tm_sec t \<ge> 0 \<and> tm_sec t \<le> 61 \<and> tm_min t \<ge> 0 \<and> tm_min t \<le> 59 \<and> tm_hour t \<ge> 0 \<and> tm_hour t \<le> 23 \<and>
    tm_mday t \<ge> 1 \<and> tm_year t + 1900 < 2 ^ 31 \<and>
    (case month_entry days_in_month (IS_LEAP (tm_year t)) (tm_mon t) of None \<Rightarrow> False | Some d \<Rightarrow> tm_mday t \<le> d) \<and>
    tm_mon t \<ge> 0 \<and> tm_mon t \<le> 11 \<and> tm_wday t \<ge> 0 \<and> tm_wday t \<le> 6 \<and>
    tm_yday t \<ge> 0 \<and> tm_yday t \<le> length_of_year (IS_LEAP (tm_year t)) \<and>
    tm_gmtoff t \<ge> - 24 * 60 * 60 \<and> tm_gmtoff t \<le> 24 * 60 * 60"

abbreviation (input) CHEAT_DAYS :: int where "CHEAT_DAYS \<equiv> 1199145600 div 24 div 60 div 60"

abbreviation (input) CHEAT_YEARS :: int where "CHEAT_YEARS \<equiv> 108"

text \<open>The loops over years and months, forward; the results are \<open>m\<close> and the year, and \<open>m\<close> and the month.\<close>

function years_up :: "int \<Rightarrow> int \<Rightarrow> int \<times> int" where
  "years_up m year =
    (if m \<ge> length_of_year (IS_LEAP year) then years_up (m - length_of_year (IS_LEAP year)) (year + 1) else (m, year))"
  by pat_completeness auto
termination
  by (relation "measure (\<lambda>(m, year). nat m)") (auto simp: length_of_year_def split: if_splits)

lemma month_entry_pos: "month_entry days_in_month leap mon = Some d \<Longrightarrow> 28 \<le> d \<and> d \<le> 31"
proof -
  assume a: "month_entry days_in_month leap mon = Some d"
  have "list_all (\<lambda>x. 28 \<le> x \<and> x \<le> 31) (days_in_month ! 0) \<and> list_all (\<lambda>x. 28 \<le> x \<and> x \<le> 31) (days_in_month ! 1) \<and>
      length (days_in_month ! 0) = 12 \<and> length (days_in_month ! 1) = 12"
    by (simp add: days_in_month_def)
  moreover have "d = days_in_month ! (if leap then 1 else 0) ! nat mon" "nat mon < 12"
    using a by (auto simp: month_entry_def split: if_splits)
  ultimately show ?thesis
    by (auto simp: list_all_length split: if_splits)
qed

function months_up :: "bool \<Rightarrow> int \<Rightarrow> int \<Rightarrow> (int \<times> int) option" where
  "months_up leap m mon =
    (case month_entry days_in_month leap mon of
      None \<Rightarrow> None
    | Some d \<Rightarrow> if m \<ge> d then months_up leap (m - d) (mon + 1) else Some (m, mon))"
  by pat_completeness auto
termination
  by (relation "measure (\<lambda>(leap, m, mon). nat m)") (auto dest: month_entry_pos)

text \<open>The same backward.\<close>

function years_down :: "int \<Rightarrow> int \<Rightarrow> int \<times> int" where
  "years_down m year =
    (if m < - length_of_year (IS_LEAP year) then years_down (m + length_of_year (IS_LEAP year)) (year - 1) else (m, year))"
  by pat_completeness auto
termination
  by (relation "measure (\<lambda>(m, year). nat (- m))") (auto simp: length_of_year_def split: if_splits)

function months_down :: "bool \<Rightarrow> int \<Rightarrow> int \<Rightarrow> (int \<times> int) option" where
  "months_down leap m mon =
    (case month_entry days_in_month leap mon of
      None \<Rightarrow> None
    | Some d \<Rightarrow> if m < - d then months_down leap (m + d) (mon - 1) else Some (m + d, mon))"
  by pat_completeness auto
termination
  by (relation "measure (\<lambda>(leap, m, mon). nat (- m))") (auto dest: month_entry_pos)

declare years_up.simps [simp del] months_up.simps [simp del] years_down.simps [simp del] months_down.simps [simp del]

text \<open>From the days since the epoch to the year, the month, and the day of the month from 0.\<close>

definition civil :: "int \<Rightarrow> (int \<times> int \<times> int) option" where
  "civil tday =
    (let (year, m) = (if tday \<ge> CHEAT_DAYS then (CHEAT_YEARS, tday - CHEAT_DAYS) else (70, tday))
     in if m \<ge> 0 then
          let cycles = m sdiv days_in_gregorian_cycle;
              (m, year) = years_up (m - cycles * days_in_gregorian_cycle) (year + cycles * 400)
          in map_option (\<lambda>(m, mon). (year, mon, m)) (months_up (IS_LEAP year) m 0)
        else
          let year = year - 1;
              cycles = m sdiv days_in_gregorian_cycle + 1;
              (m, year) = years_down (m - cycles * days_in_gregorian_cycle) (year + cycles * 400)
          in map_option (\<lambda>(m, mon). (year, mon, m)) (months_down (IS_LEAP year) m 11))"

definition gmtime64_r :: "int \<Rightarrow> tm option option" where
  "gmtime64_r in_time =
    (let sec = in_time smod 60; time = in_time sdiv 60;
         min = time smod 60; time = time sdiv 60;
         hour = time smod 24; tday = time sdiv 24;
         (sec, min) = WRAP sec min 60;
         (min, hour) = WRAP min hour 60;
         (hour, tday) = WRAP hour tday 24;
         wday = (tday + 4) smod 7;
         wday = (if wday < 0 then wday + 7 else wday)
     in do {
       (year, mon, m) \<leftarrow> civil tday;
       if year < - (2 ^ 31) \<or> year \<ge> 2 ^ 31 then Some None
       else
         do {
           j \<leftarrow> month_entry julian_days_by_month (IS_LEAP year) mon;
           let p = \<lparr>tm_sec = sec, tm_min = min, tm_hour = hour, tm_mday = m + 1, tm_mon = mon, tm_year = year,
                    tm_wday = wday, tm_yday = j + m, tm_isdst = 0, tm_gmtoff = 0, tm_zone = ''UTC''\<rparr>;
           if check_tm p then Some (Some p) else None
         }
     })"

section \<open>The days before a year\<close>

definition year_start :: "int \<Rightarrow> int" where
  "year_start y = 365 * (y - 70) + (y + 1899) div 4 - (y + 1899) div 100 + (y + 1899) div 400 - 477"

lemma smod_0_iff: "(a::int) smod k = 0 \<longleftrightarrow> a mod k = 0"
  by (auto simp: signed_modulo_int_def mod_eq_0_iff_dvd sgn_if dvd_abs_iff)

lemma IS_LEAP_mod: "IS_LEAP n \<longleftrightarrow> (n + 1900) mod 400 = 0 \<or> (n + 1900) mod 4 = 0 \<and> (n + 1900) mod 100 \<noteq> 0"
  by (simp add: IS_LEAP_def smod_0_iff)

lemma div_pred: "0 < k \<Longrightarrow> (x + 1) div k = x div k + (if (x + 1) mod k = 0 then 1 else (0::int))"
proof -
  assume k: "0 < k"
  let ?q = "(x + 1) div k" and ?r = "(x + 1) mod k"
  have e: "x = k * ?q + (?r - 1)" by (simp add: algebra_simps)
  have r: "0 \<le> ?r" "?r < k" using k by simp_all
  show ?thesis
  proof (cases "?r = 0")
    case True
    have "x div k = ?q - 1"
      by (rule int_div_pos_eq [of _ _ _ "k - 1"]) (use e True k in \<open>simp_all add: right_diff_distrib\<close>)
    then show ?thesis using True by simp
  next
    case False
    have "x div k = ?q"
      by (rule int_div_pos_eq [of _ _ _ "?r - 1"]) (use e False k r in simp_all)
    then show ?thesis using False by simp
  qed
qed

lemma year_start_Suc: "year_start (y + 1) = year_start y + length_of_year (IS_LEAP y)"
proof -
  have m: "(y + 1900) mod 400 = 0 \<Longrightarrow> (y + 1900) mod 100 = 0" "(y + 1900) mod 100 = 0 \<Longrightarrow> (y + 1900) mod 4 = 0"
    using mod_mod_cancel [of 100 400 "y + 1900"] mod_mod_cancel [of 4 100 "y + 1900"] by simp_all
  have d: "(y + 1900) div k = (y + 1899) div k + (if (y + 1900) mod k = 0 then 1 else 0)" if "0 < k" for k
    using div_pred [OF that, of "y + 1899"] by (simp only: add.assoc) simp
  have e: "year_start (y + 1) = 365 * (y - 70) + 365 + (y + 1900) div 4 - (y + 1900) div 100 + (y + 1900) div 400 - 477"
    by (simp add: year_start_def add.commute [of 1900])
  have "x + 365 + b4 - b100 + b400 - 477 = x + a4 - a100 + a400 - 477 + (if l400 \<or> l4 \<and> \<not> l100 then 366 else 365)"
    if "b4 = a4 + (if l4 then 1 else 0)" "b100 = a100 + (if l100 then 1 else 0)" "b400 = a400 + (if l400 then 1 else 0)"
      "l400 \<Longrightarrow> l100" "l100 \<Longrightarrow> l4"
    for x a4 a100 a400 b4 b100 b400 :: int and l4 l100 l400
    using that by (cases l4; cases l100; cases l400) simp_all
  from this [OF d [of 4] d [of 100] d [of 400] m, of "365 * (y - 70)"] show ?thesis
    unfolding e unfolding year_start_def length_of_year_def IS_LEAP_mod by (simp only: zero_less_numeral simp_thms)
qed

lemma year_start_cycle: "year_start (y + c * 400) = year_start y + c * days_in_gregorian_cycle"
proof -
  have "(y + c * 400 + 1899) div 4 = (y + 1899) div 4 + c * 100"
    "(y + c * 400 + 1899) div 100 = (y + 1899) div 100 + c * 4"
    "(y + c * 400 + 1899) div 400 = (y + 1899) div 400 + c"
    using div_mult_self1 [of 4 "y + 1899" "c * 100"] div_mult_self1 [of 100 "y + 1899" "c * 4"]
      div_mult_self1 [of 400 "y + 1899" c] by (simp_all add: ac_simps)
  then show ?thesis by (simp add: year_start_def)
qed

lemma IS_LEAP_cycle: "IS_LEAP (y + c * 400) = IS_LEAP y"
proof -
  have "(y + c * 400 + 1900) mod 4 = (y + 1900) mod 4" "(y + c * 400 + 1900) mod 100 = (y + 1900) mod 100"
    "(y + c * 400 + 1900) mod 400 = (y + 1900) mod 400"
    using mod_mult_self1 [of "y + 1900" "c * 100" 4] mod_mult_self1 [of "y + 1900" "c * 4" 100]
      mod_mult_self1 [of "y + 1900" c 400] by (simp_all add: ac_simps)
  then show ?thesis by (simp add: IS_LEAP_mod)
qed

lemma year_start_70: "year_start 70 = 0" and year_start_108: "year_start 108 = CHEAT_DAYS"
  by (simp_all add: year_start_def)

lemma days_up_exact: "year \<le> orig_year \<Longrightarrow> days_up year orig_year days = days + (year_start orig_year - year_start year)"
proof (induction year orig_year days rule: days_up.induct)
  case (1 year orig_year days)
  show ?case using 1 by (subst days_up.simps) (auto simp: year_start_Suc)
qed

lemma days_down_exact:
  "orig_year \<le> year \<Longrightarrow> days_down year orig_year days = days + (year_start orig_year - year_start (year + 1))"
proof (induction year orig_year days rule: days_down.induct)
  case (1 year orig_year days)
  show ?case
  proof (cases "year - 1 \<ge> orig_year")
    case True
    then show ?thesis using 1(1) [OF refl refl] year_start_Suc [of year] by (subst days_down.simps) (simp add: Let_def)
  next
    case False
    then have "orig_year = year" using 1(2) by simp
    then show ?thesis using year_start_Suc [of year] by (subst days_down.simps) (simp add: Let_def)
  qed
qed

text \<open>\<open>timegm64\<close> counts the days before the year, before the month, and in the month.\<close>

lemma timegm64_eq:
  "timegm64 date = map_option (\<lambda>j. (year_start (tm_year date) + j + tm_mday date - 1) * 86400 +
    tm_hour date * 3600 + tm_min date * 60 + tm_sec date)
    (month_entry julian_days_by_month (IS_LEAP (tm_year date)) (tm_mon date))"
proof -
  let ?y = "tm_year date"
  define c where "c = (if ?y > 100 then (?y - 100) sdiv 400 else if ?y < - 300 then (?y - 100) sdiv 400 else 0)"
  define y0 where "y0 = ?y - c * 400"
  have y: "?y = y0 + c * 400" by (simp add: y0_def)
  have d: "(if y0 > 70 then days_up 70 y0 (c * days_in_gregorian_cycle)
      else if y0 < 70 then days_down 69 y0 (c * days_in_gregorian_cycle) else c * days_in_gregorian_cycle) = year_start ?y"
    unfolding y year_start_cycle using year_start_70 by (simp add: days_up_exact days_down_exact)
  have l: "IS_LEAP ?y = IS_LEAP y0" unfolding y by (rule IS_LEAP_cycle)
  show ?thesis
    unfolding timegm64_def Let_def c_def [symmetric] y0_def [symmetric] d l
    by (cases "month_entry julian_days_by_month (IS_LEAP y0) (tm_mon date)") (simp_all add: algebra_simps)
qed

section \<open>The time of day and the day of the week\<close>

lemma sdiv_smod: "(a::int) = a sdiv k * k + a smod k"
  by (simp add: sdiv_mult_smod_eq)

lemma smod_bounds: "0 < k \<Longrightarrow> - k < (a::int) smod k \<and> a smod k < k"
  using smod_int_range [of k a] by (cases "a < 0") (auto simp: signed_modulo_int_def sgn_if)

lemma smod_wrap: "0 < k \<Longrightarrow> (if (a::int) smod k < 0 then a smod k + k else a smod k) = a mod k"
proof -
  assume k: "0 < k"
  have "a mod k = (a smod k) mod k"
    by (subst sdiv_smod [of a k]) simp
  then show ?thesis
    using smod_bounds [OF k, of a] mod_pos_pos_trivial [of "a smod k" k] mod_pos_pos_trivial [of "a smod k + k" k] by auto
qed

lemma WRAP_exact:
  assumes "WRAP a b m = (a', b')" "- m \<le> a" "a < m"
  shows "0 \<le> a' \<and> a' < m \<and> a' + b' * m = a + b * m"
  using assms by (auto simp: WRAP_def left_diff_distrib split: if_splits)

section \<open>The month of a day\<close>

lemma month_cases: "0 \<le> mon \<Longrightarrow> mon < 12 \<Longrightarrow> mon \<in> {0, 1, 2, 3, 4, 5, 6, 7, 8, 9, 10, 11::int}"
  by (simp only: insert_iff empty_iff) presburger

lemma month_entry_table: "0 \<le> mon \<Longrightarrow> mon < 12 \<Longrightarrow> \<exists>d j. month_entry days_in_month leap mon = Some d \<and>
    month_entry julian_days_by_month leap mon = Some j \<and>
    (if mon = 11 then j + d = length_of_year leap else month_entry julian_days_by_month leap (mon + 1) = Some (j + d)) \<and>
    (if mon = 0 then j = 0 else 0 < j)"
  using month_cases [of mon]
  by (cases leap) (auto simp: month_entry_def days_in_month_def julian_days_by_month_def length_of_year_def)

lemma month_entry_Some: "month_entry t leap mon = Some d \<Longrightarrow> 0 \<le> mon \<and> mon < 12"
  by (simp add: month_entry_def split: if_splits)

text \<open>A month and a day from 0 that the tables allow, with the day of the year.\<close>

definition day_of_year :: "bool \<Rightarrow> int \<Rightarrow> int \<Rightarrow> int \<Rightarrow> bool" where
  "day_of_year leap mon m yday \<longleftrightarrow>
    (\<exists>d j. month_entry days_in_month leap mon = Some d \<and> month_entry julian_days_by_month leap mon = Some j \<and>
      0 \<le> m \<and> m < d \<and> yday = j + m)"

lemma months_up_exact:
  assumes "month_entry julian_days_by_month leap mon = Some j" "0 \<le> m" "j + m < length_of_year leap"
  shows "\<exists>m' mon'. months_up leap m mon = Some (m', mon') \<and> day_of_year leap mon' m' (j + m)"
  using assms
proof (induction leap m mon arbitrary: j rule: months_up.induct)
  case (1 leap m mon)
  note prems = "1.prems" and IH = "1.IH"
  have r: "0 \<le> mon" "mon < 12" using month_entry_Some [OF prems(1)] by simp_all
  obtain d where d: "month_entry days_in_month leap mon = Some d"
      "if mon = 11 then j + d = length_of_year leap else month_entry julian_days_by_month leap (mon + 1) = Some (j + d)"
    using month_entry_table [OF r, of leap] prems(1) by auto
  show ?case
  proof (cases "m \<ge> d")
    case True
    then have "mon \<noteq> 11" using d(2) prems(3) by auto
    then show ?thesis
      using IH [OF d(1) True, of "j + d"] d prems True by (subst months_up.simps) (simp add: algebra_simps)
  next
    case False
    then show ?thesis using d prems by (subst months_up.simps) (auto simp: day_of_year_def)
  qed
qed

lemma months_down_exact:
  assumes "month_entry julian_days_by_month leap mon = Some j" "month_entry days_in_month leap mon = Some d"
    "m < 0" "0 \<le> j + d + m"
  shows "\<exists>m' mon'. months_down leap m mon = Some (m', mon') \<and> day_of_year leap mon' m' (j + d + m)"
  using assms
proof (induction leap m mon arbitrary: j d rule: months_down.induct)
  case (1 leap m mon)
  note prems = "1.prems" and IH = "1.IH"
  have r: "0 \<le> mon" "mon < 12" using month_entry_Some [OF prems(1)] by simp_all
  show ?case
  proof (cases "m < - d")
    case True
    then have "mon \<noteq> 0" using month_entry_table [OF r, of leap] prems by auto
    then obtain d' j' where "month_entry days_in_month leap (mon - 1) = Some d'"
        "month_entry julian_days_by_month leap (mon - 1) = Some j'" "j = j' + d'"
      using month_entry_table [of "mon - 1" leap] r prems(1) by auto
    then show ?thesis
      using IH [OF prems(2) True, of j' d'] prems True by (subst months_down.simps) (simp add: algebra_simps)
  next
    case False
    then show ?thesis using prems by (subst months_down.simps) (auto simp: day_of_year_def algebra_simps)
  qed
qed

lemma years_up_exact:
  "0 \<le> m \<Longrightarrow> years_up m year = (m', year') \<Longrightarrow>
    0 \<le> m' \<and> m' < length_of_year (IS_LEAP year') \<and> year_start year' + m' = year_start year + m"
proof (induction m year rule: years_up.induct)
  case (1 m year)
  note prems = "1.prems" and IH = "1.IH"
  show ?case
  proof (cases "m \<ge> length_of_year (IS_LEAP year)")
    case True
    then have "years_up (m - length_of_year (IS_LEAP year)) (year + 1) = (m', year')"
      using prems(2) by (subst (asm) years_up.simps) simp
    then show ?thesis using IH [OF True] True year_start_Suc [of year] by simp
  next
    case False
    then show ?thesis using prems by (subst (asm) years_up.simps) simp
  qed
qed

lemma years_down_exact:
  "m < 0 \<Longrightarrow> years_down m year = (m', year') \<Longrightarrow>
    - length_of_year (IS_LEAP year') \<le> m' \<and> m' < 0 \<and> year_start (year' + 1) + m' = year_start (year + 1) + m"
proof (induction m year rule: years_down.induct)
  case (1 m year)
  note prems = "1.prems" and IH = "1.IH"
  show ?case
  proof (cases "m < - length_of_year (IS_LEAP year)")
    case True
    then have "years_down (m + length_of_year (IS_LEAP year)) (year - 1) = (m', year')"
      using prems(2) by (subst (asm) years_down.simps) simp
    then show ?thesis using IH [OF True] True year_start_Suc [of year] by simp
  next
    case False
    then show ?thesis using prems by (subst (asm) years_down.simps) simp
  qed
qed

lemma civil_exact:
  "\<exists>year mon m yday. civil tday = Some (year, mon, m) \<and> day_of_year (IS_LEAP year) mon m yday \<and>
    0 \<le> yday \<and> yday < length_of_year (IS_LEAP year) \<and> tday = year_start year + yday"
proof -
  define y0 m0 where "y0 = (if tday \<ge> CHEAT_DAYS then CHEAT_YEARS else 70)" and "m0 = tday - year_start y0"
  have p: "(if tday \<ge> CHEAT_DAYS then (CHEAT_YEARS, tday - CHEAT_DAYS) else (70, tday)) = (y0, m0)"
    by (simp add: y0_def m0_def year_start_70 year_start_108)
  show ?thesis
  proof (cases "m0 \<ge> 0")
    case True
    define c where "c = m0 sdiv days_in_gregorian_cycle"
    have c: "m0 - c * days_in_gregorian_cycle = m0 smod days_in_gregorian_cycle"
      using sdiv_smod [of m0 days_in_gregorian_cycle] by (simp add: c_def)
    have nn: "0 \<le> m0 - c * days_in_gregorian_cycle"
      unfolding c using True by (simp add: signed_modulo_int_def sgn_if)
    obtain m year where y: "years_up (m0 - c * days_in_gregorian_cycle) (y0 + c * 400) = (m, year)"
      by fastforce
    have e: "0 \<le> m" "m < length_of_year (IS_LEAP year)" "year_start year + m = tday"
      using years_up_exact [OF nn y] year_start_cycle [of y0 c] by (simp_all add: m0_def)
    have "month_entry julian_days_by_month (IS_LEAP year) 0 = Some 0"
      by (simp add: month_entry_def julian_days_by_month_def)
    from months_up_exact [OF this e(1)] e(2) obtain m' mon' where
      "months_up (IS_LEAP year) m 0 = Some (m', mon')" "day_of_year (IS_LEAP year) mon' m' m" by auto
    then have "civil tday = Some (year, mon', m') \<and> day_of_year (IS_LEAP year) mon' m' m"
      using True y unfolding civil_def p by (simp add: c_def Let_def)
    then show ?thesis using e by blast
  next
    case False
    define c where "c = m0 sdiv days_in_gregorian_cycle + 1"
    have c: "m0 - c * days_in_gregorian_cycle = m0 smod days_in_gregorian_cycle - days_in_gregorian_cycle"
      using sdiv_smod [of m0 days_in_gregorian_cycle] by (simp add: c_def)
    have nn: "m0 - c * days_in_gregorian_cycle < 0"
      unfolding c using smod_bounds [of days_in_gregorian_cycle m0] by simp
    obtain m year where y: "years_down (m0 - c * days_in_gregorian_cycle) (y0 - 1 + c * 400) = (m, year)"
      by fastforce
    have e: "- length_of_year (IS_LEAP year) \<le> m" "m < 0" "year_start (year + 1) + m = tday"
      using years_down_exact [OF nn y] year_start_cycle [of y0 c] by (simp_all add: m0_def)
    obtain d j where dj: "month_entry days_in_month (IS_LEAP year) 11 = Some d"
        "month_entry julian_days_by_month (IS_LEAP year) 11 = Some j" "j + d = length_of_year (IS_LEAP year)"
      using month_entry_table [of 11 "IS_LEAP year"] by auto
    from months_down_exact [OF dj(2,1) e(2)] e(1) dj(3) obtain m' mon' where
      "months_down (IS_LEAP year) m 11 = Some (m', mon')"
      "day_of_year (IS_LEAP year) mon' m' (length_of_year (IS_LEAP year) + m)" by auto
    then have "civil tday = Some (year, mon', m') \<and>
        day_of_year (IS_LEAP year) mon' m' (length_of_year (IS_LEAP year) + m)"
      using False y unfolding civil_def p by (simp add: c_def Let_def)
    moreover have "tday = year_start year + (length_of_year (IS_LEAP year) + m)"
      using e(3) year_start_Suc [of year] by simp
    moreover have "0 \<le> length_of_year (IS_LEAP year) + m" "length_of_year (IS_LEAP year) + m < length_of_year (IS_LEAP year)"
      using e(1,2) by simp_all
    ultimately show ?thesis by blast
  qed
qed

text \<open>The parts of a time, as the theorems speak of them.\<close>

definition day_of :: "int \<Rightarrow> int" where "day_of t = t div 86400"

definition hour_of :: "int \<Rightarrow> int" where "hour_of t = t mod 86400 div 3600"

definition min_of :: "int \<Rightarrow> int" where "min_of t = t mod 3600 div 60"

definition sec_of :: "int \<Rightarrow> int" where "sec_of t = t mod 60"

definition week_day :: "int \<Rightarrow> int" where "week_day d = (d + 4) mod 7"

lemma day_time_unique:
  assumes "t = s + mi * 60 + h * 3600 + d * (86400::int)" "0 \<le> s" "s < 60" "0 \<le> mi" "mi < 60" "0 \<le> h" "h < 24"
  shows "s = sec_of t" "mi = min_of t" "h = hour_of t" "d = day_of t"
  unfolding sec_of_def min_of_def hour_of_def day_of_def
proof -
  have a: "t = 60 * (mi + h * 60 + d * 1440) + s" "t = 3600 * (h + d * 24) + (mi * 60 + s)"
    "t = 86400 * d + (h * 3600 + mi * 60 + s)" using assms(1) by simp_all
  show "d = t div 86400" using int_div_pos_eq [OF a(3)] assms by simp
  show "s = t mod 60" using int_mod_pos_eq [OF a(1)] assms by simp
  have "t mod 3600 = 60 * mi + s" using int_mod_pos_eq [OF a(2)] assms by simp
  from int_div_pos_eq [OF this] show "mi = t mod 3600 div 60" using assms by simp
  have "t mod 86400 = 3600 * h + (mi * 60 + s)" using int_mod_pos_eq [OF a(3)] assms by simp
  from int_div_pos_eq [OF this] show "h = t mod 86400 div 3600" using assms by simp
qed

definition gm_fields :: "int \<Rightarrow> int \<Rightarrow> int \<Rightarrow> int \<Rightarrow> int \<Rightarrow> tm" where
  "gm_fields t year mon m yday =
    \<lparr>tm_sec = sec_of t, tm_min = min_of t, tm_hour = hour_of t, tm_mday = m + 1, tm_mon = mon,
     tm_year = year, tm_wday = week_day (day_of t), tm_yday = yday, tm_isdst = 0, tm_gmtoff = 0, tm_zone = ''UTC''\<rparr>"

lemma gmtime64_split:
  "gmtime64_r t = do {
     (year, mon, m) \<leftarrow> civil (day_of t);
     if year < - (2 ^ 31) \<or> year \<ge> 2 ^ 31 then Some None
     else do {
       j \<leftarrow> month_entry julian_days_by_month (IS_LEAP year) mon;
       let p = gm_fields t year mon m (j + m);
       if check_tm p then Some (Some p) else None
     }
   }"
proof -
  define s1 t1 where "s1 = t smod 60" and "t1 = t sdiv 60"
  define mi1 t2 where "mi1 = t1 smod 60" and "t2 = t1 sdiv 60"
  define h1 d1 where "h1 = t2 smod 24" and "d1 = t2 sdiv 24"
  note defs = s1_def t1_def mi1_def t2_def h1_def d1_def
  have t: "t = t1 * 60 + s1" "t1 = t2 * 60 + mi1" "t2 = d1 * 24 + h1"
    unfolding defs by (rule sdiv_smod)+
  have b: "- 60 < s1" "s1 < 60" "- 60 < mi1" "mi1 < 60" "- 24 < h1" "h1 < 24"
    unfolding s1_def mi1_def h1_def by (simp_all add: smod_bounds)
  obtain s mi2 where w1: "WRAP s1 mi1 60 = (s, mi2)" by fastforce
  obtain mi h2 where w2: "WRAP mi2 h1 60 = (mi, h2)" by fastforce
  obtain h d where w3: "WRAP h2 d1 24 = (h, d)" by fastforce
  have e1: "0 \<le> s" "s < 60" "s + mi2 * 60 = s1 + mi1 * 60" using WRAP_exact [OF w1] b by simp_all
  have m2: "- 60 \<le> mi2" "mi2 < 60" using w1 b by (auto simp: WRAP_def split: if_splits)
  have e2: "0 \<le> mi" "mi < 60" "mi + h2 * 60 = mi2 + h1 * 60" using WRAP_exact [OF w2 m2] by simp_all
  have h2: "- 24 \<le> h2" "h2 < 24" using w2 b by (auto simp: WRAP_def split: if_splits)
  have e3: "0 \<le> h" "h < 24" "h + d * 24 = h2 + d1 * 24" using WRAP_exact [OF w3 h2] by simp_all
  have "t = s + mi * 60 + h * 3600 + d * 86400" using t e1(3) e2(3) e3(3) by simp
  note u = day_time_unique [OF this e1(1,2) e2(1,2) e3(1,2)]
  have g: "gm_fields t year mon m yday =
      \<lparr>tm_sec = s, tm_min = mi, tm_hour = h, tm_mday = m + 1, tm_mon = mon, tm_year = year, tm_wday = week_day d,
       tm_yday = yday, tm_isdst = 0, tm_gmtoff = 0, tm_zone = ''UTC''\<rparr>" for year mon m yday
    unfolding gm_fields_def u(1-3) [symmetric] u(4) [symmetric] ..
  show ?thesis
    unfolding gmtime64_r_def Let_def
    unfolding s1_def [symmetric] t1_def [symmetric]
    unfolding mi1_def [symmetric] t2_def [symmetric]
    unfolding h1_def [symmetric] d1_def [symmetric]
    unfolding w1 prod.case w2 w3 smod_wrap [of 7, simplified] week_day_def [symmetric] u(1-3) [symmetric] u(4) [symmetric] g
    by (rule refl)
qed

lemma day_time_bounds:
  "0 \<le> sec_of t" "sec_of t \<le> 59" "0 \<le> min_of t" "min_of t \<le> 59" "0 \<le> hour_of t" "hour_of t \<le> 23"
  "0 \<le> week_day d" "week_day d \<le> 6" "t = day_of t * 86400 + hour_of t * 3600 + min_of t * 60 + sec_of t"
proof -
  have a: "x mod k \<le> k - 1" if "0 < k" for x k :: int using pos_mod_bound [OF that, of x] by simp
  show "0 \<le> sec_of t" "0 \<le> min_of t" "0 \<le> hour_of t" "0 \<le> week_day d"
    by (simp_all add: sec_of_def min_of_def hour_of_def week_day_def pos_imp_zdiv_nonneg_iff)
  show "sec_of t \<le> 59" "week_day d \<le> 6" using a [of 60 t] a [of 7] by (simp_all add: sec_of_def week_day_def)
  show "min_of t \<le> 59" using zdiv_mono1 [OF a [of 3600 t], of 60] by (simp add: min_of_def)
  show "hour_of t \<le> 23" using zdiv_mono1 [OF a [of 86400 t], of 3600] by (simp add: hour_of_def)
  have "t = t div 86400 * 86400 + t mod 86400" "t mod 86400 = t mod 86400 div 3600 * 3600 + t mod 3600"
    "t mod 3600 = t mod 3600 div 60 * 60 + t mod 60"
    using div_mult_mod_eq [of "t mod 86400" 3600] div_mult_mod_eq [of "t mod 3600" 60]
      mod_mod_cancel [of 3600 86400 t] mod_mod_cancel [of 60 3600 t] by simp_all
  then show "t = day_of t * 86400 + hour_of t * 3600 + min_of t * 60 + sec_of t"
    unfolding sec_of_def min_of_def hour_of_def day_of_def by (simp only: add.assoc)
qed

lemma day_bounds: "day_of t * 86400 \<le> t \<and> t < (day_of t + 1) * 86400"
  using day_time_bounds [of t] by simp

lemma gm_fields_ok:
  assumes "day_of_year (IS_LEAP year) mon m yday" "yday < length_of_year (IS_LEAP year)" "0 \<le> yday"
  shows "check_tm (gm_fields t year mon m yday) \<longleftrightarrow> year + 1900 < 2 ^ 31"
    "day_of t = year_start year + yday \<Longrightarrow> timegm64 (gm_fields t year mon m yday) = Some t"
proof -
  obtain d j where dj: "month_entry days_in_month (IS_LEAP year) mon = Some d"
      "month_entry julian_days_by_month (IS_LEAP year) mon = Some j" "0 \<le> m" "m < d" "yday = j + m"
    using assms(1) by (auto simp: day_of_year_def)
  have mon: "0 \<le> mon" "mon \<le> 11" using month_entry_Some [OF dj(1)] by simp_all
  show "check_tm (gm_fields t year mon m yday) \<longleftrightarrow> year + 1900 < 2 ^ 31"
    using dj mon day_time_bounds(1-6) [of t] day_time_bounds(7,8) [of "day_of t"] assms(2,3) by (simp add: check_tm_def gm_fields_def)
  assume td: "day_of t = year_start year + yday"
  show "timegm64 (gm_fields t year mon m yday) = Some t"
    using dj(2,5) td day_time_bounds(9) [of t] by (simp add: timegm64_eq gm_fields_def)
qed

text \<open>
  C37. \<open>gmtime64_r\<close> finds the year \<open>y\<close> of every time. A year that does not fit into an \<open>int\<close> gives the null pointer; for the last
  1900 years of that range \<open>IS_LEAP\<close> overflows when the result is checked; otherwise it returns a date that passes its
  own check, that \<open>timegm64\<close> converts back to the time, and whose day of the year and day of the week are right.
\<close>

theorem gmtime64_exact:
  "\<exists>y. year_start y * 86400 \<le> t \<and> t < year_start (y + 1) * 86400 \<and>
    (if y < - (2 ^ 31) \<or> y \<ge> 2 ^ 31 then gmtime64_r t = Some None
     else if y + 1900 \<ge> 2 ^ 31 then gmtime64_r t = None
     else \<exists>p. gmtime64_r t = Some (Some p) \<and> check_tm p \<and> tm_sec p \<le> 59 \<and> timegm64 p = Some t \<and>
       tm_year p = y \<and> tm_yday p = day_of t - year_start y \<and> tm_wday p = week_day (day_of t))"
proof -
  obtain year mon m yday where c: "civil (day_of t) = Some (year, mon, m)" "day_of_year (IS_LEAP year) mon m yday"
      "0 \<le> yday" "yday < length_of_year (IS_LEAP year)" "day_of t = year_start year + yday"
    using civil_exact by blast
  obtain j where j: "month_entry julian_days_by_month (IS_LEAP year) mon = Some j" "yday = j + m"
    using c(2) by (auto simp: day_of_year_def)
  note ok = gm_fields_ok [OF c(2,4,3)]
  have gm: "gmtime64_r t = (if year < - (2 ^ 31) \<or> year \<ge> 2 ^ 31 then Some None
      else if year + 1900 < 2 ^ 31 then Some (Some (gm_fields t year mon m yday)) else None)"
    using ok(1) by (simp add: gmtime64_split c(1) j)
  have b: "year_start year * 86400 \<le> t" "t < year_start (year + 1) * 86400"
    using day_bounds [of t] c(5) c(3,4) year_start_Suc [of year] by simp_all
  have f: "tm_year (gm_fields t year mon m yday) = year" "tm_yday (gm_fields t year mon m yday) = yday"
      "tm_wday (gm_fields t year mon m yday) = week_day (day_of t)"
    by (simp_all add: gm_fields_def)
  have "tm_sec (gm_fields t year mon m yday) \<le> 59" using day_time_bounds(2) by (simp add: gm_fields_def)
  then show ?thesis
    using b gm ok(1) [of t] ok(2) [OF c(5)] f c(5) by (intro exI [of _ year]) simp
qed

end
