(* ===== verification/Safe_Year.thy ===== *)
theory Safe_Year
  imports Time64
begin

text \<open>
  The years that stand for those the system's 32-bit time functions cannot handle, \<open>libc/bionic/time64.c\<close>: the
  tables, \<open>cycle_offset\<close> and \<open>safe_year\<close>. \<open>None\<close> is a failed \<open>assert\<close>.
\<close>

section \<open>Safe years\<close>

definition safe_years_high :: "int list" where
  "safe_years_high =
    [2016, 2017, 2018, 2019, 2020, 2021, 2022, 2023, 2024, 2025, 2026, 2027, 2028, 2029,
     2030, 2031, 2032, 2033, 2034, 2035, 2036, 2037, 2010, 2011, 2012, 2013, 2014, 2015]"

definition safe_years_low :: "int list" where
  "safe_years_low =
    [1996, 1997, 1998, 1971, 1972, 1973, 1974, 1975, 1976, 1977, 1978, 1979, 1980, 1981,
     1982, 1983, 1984, 1985, 1986, 1987, 1988, 1989, 1990, 1991, 1992, 1993, 1994, 1995]"

abbreviation (input) MAX_SAFE_YEAR :: int where "MAX_SAFE_YEAR \<equiv> 2037"

abbreviation (input) MIN_SAFE_YEAR :: int where "MIN_SAFE_YEAR \<equiv> 1971"

abbreviation (input) SOLAR_CYCLE_LENGTH :: int where "SOLAR_CYCLE_LENGTH \<equiv> 28"

definition cycle_offset :: "int \<Rightarrow> int" where
  "cycle_offset year =
    (let start_year = 2000; year_diff = year - start_year;
         year_diff = (if year > start_year then year_diff - 1 else year_diff);
         exceptions = year_diff sdiv 100 - year_diff sdiv 400
     in exceptions * 16)"

definition safe_year :: "int \<Rightarrow> int option" where
  "safe_year year =
    (if year \<ge> MIN_SAFE_YEAR \<and> year \<le> MAX_SAFE_YEAR then Some year
     else
       let year_cycle = year + cycle_offset year;
           year_cycle = (if year < MIN_SAFE_YEAR then year_cycle - 8 else year_cycle);
           year_cycle = (if is_exception_century year then year_cycle + 11 else year_cycle);
           year_cycle = (if is_exception_century (year - 1) then year_cycle + 17 else year_cycle);
           year_cycle = year_cycle smod SOLAR_CYCLE_LENGTH;
           year_cycle = (if year_cycle < 0 then SOLAR_CYCLE_LENGTH + year_cycle else year_cycle)
       in if \<not> (year_cycle \<ge> 0 \<and> year_cycle < SOLAR_CYCLE_LENGTH) then None
          else
            let safe_year = (if year < MIN_SAFE_YEAR then safe_years_low ! nat year_cycle
                             else safe_years_high ! nat year_cycle)
            in if safe_year \<le> MAX_SAFE_YEAR \<and> safe_year \<ge> MIN_SAFE_YEAR then Some safe_year else None)"

section \<open>A safe year has the calendar of the year\<close>

text \<open>Two years as \<open>tm_year\<close> counts them: both start on the same day of the week, and they and the years before them agree on leap days.\<close>

definition same_calendar :: "int \<Rightarrow> int \<Rightarrow> bool" where
  "same_calendar y s \<longleftrightarrow>
    week_day (year_start y) = week_day (year_start s) \<and> (IS_LEAP y \<longleftrightarrow> IS_LEAP s) \<and> (IS_LEAP (y - 1) \<longleftrightarrow> IS_LEAP (s - 1))"

definition safe_for :: "int \<Rightarrow> bool" where
  "safe_for year = (case safe_year year of None \<Rightarrow> False
    | Some s \<Rightarrow> MIN_SAFE_YEAR \<le> s \<and> s \<le> MAX_SAFE_YEAR \<and> same_calendar (year - 1900) (s - 1900))"

lemma safe_for_table: "list_all safe_for [2038..2437]" "list_all safe_for [1571..1970]"
  by code_simp+

lemma sdiv_shift:
  "0 \<le> (d::int) \<Longrightarrow> 0 \<le> k \<Longrightarrow> (d + k * 400) sdiv 100 = d sdiv 100 + k * 4"
  "0 \<le> d \<Longrightarrow> 0 \<le> k \<Longrightarrow> (d + k * 400) sdiv 400 = d sdiv 400 + k"
proof -
  assume d: "0 \<le> d" and k: "0 \<le> k"
  have p: "x sdiv b = x div b" if "0 \<le> x" "0 < b" for x b :: int
    using that by (auto simp: signed_divide_int_def sgn_if)
  show "(d + k * 400) sdiv 100 = d sdiv 100 + k * 4" using p d k div_mult_self1 [of 100 d "k * 4"] by simp
  show "(d + k * 400) sdiv 400 = d sdiv 400 + k" using p d k div_mult_self1 [of 400 d k] by simp
qed

lemma sdiv_uminus: "(- d) sdiv k = - (d sdiv (k::int))"
  by (simp add: signed_divide_int_def)

lemma exception_cycle: "is_exception_century (y + k * 400) = is_exception_century y"
proof -
  have "(y + k * 400) mod 100 = y mod 100" "(y + k * 400) mod 400 = y mod 400"
    using mod_mult_self1 [of y "k * 4" 100] by (simp_all add: mult.commute)
  then show ?thesis by (simp add: is_exception_century_def smod_0_iff)
qed

lemma cycle_offset_cycle:
  "2000 < y \<Longrightarrow> 0 \<le> k \<Longrightarrow> cycle_offset (y + k * 400) = cycle_offset y + k * 48"
  "y \<le> 2000 \<Longrightarrow> 0 \<le> k \<Longrightarrow> cycle_offset (y - k * 400) = cycle_offset y - k * 48"
proof -
  assume k: "0 \<le> k"
  show "cycle_offset (y + k * 400) = cycle_offset y + k * 48" if "2000 < y"
    using sdiv_shift [of "y - 2001" k] k that by (simp add: cycle_offset_def Let_def algebra_simps)
  show "cycle_offset (y - k * 400) = cycle_offset y - k * 48" if "y \<le> 2000"
  proof -
    have n: "(y - k * 400 - 2000) sdiv b = - ((2000 - y + k * 400) sdiv b)" "(y - 2000) sdiv b = - ((2000 - y) sdiv b)" for b
      using sdiv_uminus [of "2000 - y + k * 400" b] sdiv_uminus [of "2000 - y" b] by (simp_all add: algebra_simps)
    have "\<not> y - k * 400 > 2000" "\<not> y > 2000" using k that by simp_all
    then have "cycle_offset (y - k * 400) = (- ((2000 - y + k * 400) sdiv 100) - - ((2000 - y + k * 400) sdiv 400)) * 16"
      "cycle_offset y = (- ((2000 - y) sdiv 100) - - ((2000 - y) sdiv 400)) * 16"
      unfolding cycle_offset_def Let_def by (simp_all only: n if_False)
    then show ?thesis using sdiv_shift [of "2000 - y" k] k that by simp
  qed
qed

text \<open>Outside of the safe years the tables are indexed by a position in the cycle of 28 years.\<close>

definition cycle_position :: "int \<Rightarrow> int" where
  "cycle_position year = (year + cycle_offset year + (if year < MIN_SAFE_YEAR then - 8 else 0) +
    (if is_exception_century year then 11 else 0) + (if is_exception_century (year - 1) then 17 else 0)) mod 28"

lemma safe_year_position:
  assumes "year < MIN_SAFE_YEAR \<or> year > MAX_SAFE_YEAR"
  shows "safe_year year =
    (let s = (if year < MIN_SAFE_YEAR then safe_years_low else safe_years_high) ! nat (cycle_position year)
     in if s \<le> MAX_SAFE_YEAR \<and> s \<ge> MIN_SAFE_YEAR then Some s else None)"
proof -
  have w: "(if a smod 28 < 0 then 28 + a smod 28 else a smod 28) = a mod 28" for a :: int
    using smod_wrap [of 28 a] by (cases "a smod 28 < 0") (simp_all add: add.commute)
  show ?thesis
    using assms unfolding safe_year_def Let_def w cycle_position_def by (auto simp: algebra_simps)
qed

lemma same_calendar_cycle: "same_calendar (y + k * 400) s = same_calendar y s"
proof -
  have "week_day (year_start (y + k * 400)) = (year_start y + 4 + k * 20871 * 7) mod 7"
    by (simp add: week_day_def year_start_cycle algebra_simps)
  then have "week_day (year_start (y + k * 400)) = week_day (year_start y)"
    unfolding mod_mult_self1 week_day_def .
  moreover have "IS_LEAP (y + k * 400 - 1) = IS_LEAP (y - 1)"
    using IS_LEAP_cycle [of "y - 1" k] by (simp add: algebra_simps)
  ultimately show ?thesis by (simp add: same_calendar_def IS_LEAP_cycle)
qed

lemma safe_for_cycle:
  assumes "y > MAX_SAFE_YEAR \<and> 0 \<le> k \<or> y < MIN_SAFE_YEAR \<and> k \<le> 0"
  shows "safe_for (y + k * 400) = safe_for y"
proof -
  have o: "cycle_offset (y + k * 400) = cycle_offset y + k * 48"
    using cycle_offset_cycle(1) [of y k] cycle_offset_cycle(2) [of y "- k"] assms by auto
  have r: "(y + k * 400 < MIN_SAFE_YEAR) = (y < MIN_SAFE_YEAR)" "(y + k * 400 > MAX_SAFE_YEAR) = (y > MAX_SAFE_YEAR)"
    using assms by auto
  have e: "is_exception_century (y + k * 400 - 1) = is_exception_century (y - 1)"
    using exception_cycle [of "y - 1" k] by (simp add: algebra_simps)
  have "cycle_position (y + k * 400) = (y + cycle_offset y + (if y < MIN_SAFE_YEAR then - 8 else 0) +
      (if is_exception_century y then 11 else 0) + (if is_exception_century (y - 1) then 17 else 0) + k * 16 * 28) mod 28"
    unfolding cycle_position_def o e r exception_cycle by (simp add: algebra_simps)
  then have "cycle_position (y + k * 400) = cycle_position y"
    unfolding mod_mult_self1 cycle_position_def .
  then have "safe_year (y + k * 400) = safe_year y"
    using assms r by (subst (1 2) safe_year_position) auto
  moreover have "same_calendar (y + k * 400 - 1900) s = same_calendar (y - 1900) s" for s
    using same_calendar_cycle [of "y - 1900" k s] by (simp add: algebra_simps)
  ultimately show ?thesis by (simp add: safe_for_def cong: option.case_cong)
qed

lemma safe_for_all: "safe_for year"
proof -
  have t: "safe_for y" if "2038 \<le> y \<and> y \<le> 2437 \<or> 1571 \<le> y \<and> y \<le> 1970" for y
    using safe_for_table that unfolding list_all_iff set_upto by (metis atLeastAtMost_iff)
  consider "MIN_SAFE_YEAR \<le> year \<and> year \<le> MAX_SAFE_YEAR" | "year > MAX_SAFE_YEAR" | "year < MIN_SAFE_YEAR" by linarith
  then show ?thesis
  proof cases
    case 1
    then show ?thesis by (simp add: safe_for_def safe_year_def same_calendar_def)
  next
    case 2
    define y k where "y = 2038 + (year - 2038) mod 400" and "k = (year - 2038) div 400"
    have "year = y + k * 400" "2038 \<le> y" "y \<le> 2437" "0 \<le> k"
      using 2 div_mult_mod_eq [of "year - 2038" 400] pos_mod_bound [of 400 "year - 2038"]
      by (simp_all add: y_def k_def pos_imp_zdiv_nonneg_iff)
    then show ?thesis using safe_for_cycle [of y k] t [of y] by simp
  next
    case 3
    define q r where "q = (1970 - year) div 400" and "r = (1970 - year) mod 400"
    define y k where "y = 1970 - r" and "k = - q"
    have e: "q * 400 + r = 1970 - year" unfolding q_def r_def by (rule div_mult_mod_eq)
    have b: "0 \<le> r" "r < 400" "0 \<le> q" using 3 by (simp_all add: r_def q_def pos_imp_zdiv_nonneg_iff)
    have "year = y + k * 400" "1571 \<le> y" "y \<le> 1970" "k \<le> 0"
      using e b by (simp_all add: y_def k_def)
    then show ?thesis using safe_for_cycle [of y k] t [of y] by simp
  qed
qed

lemma safe_year_self: "MIN_SAFE_YEAR \<le> year \<Longrightarrow> year \<le> MAX_SAFE_YEAR \<Longrightarrow> safe_year year = Some year"
  by (simp add: safe_year_def)

lemma safe_year_ex:
  "\<exists>s. safe_year year = Some s \<and> MIN_SAFE_YEAR \<le> s \<and> s \<le> MAX_SAFE_YEAR \<and> same_calendar (year - 1900) (s - 1900)"
  using safe_for_all [of year] by (simp add: safe_for_def split: option.splits)

text \<open>
  Every year has a safe year, one of 1971 to 2037 that the system's 32-bit functions can handle: the assertions of
  \<open>safe_year\<close> hold, and the safe year starts on the same day of the week, is a leap year exactly when the year is, and
  follows a leap year exactly when the year does. Safe years stand for themselves.
\<close>

theorem safe_year_matches:
  "\<exists>s. safe_year year = Some s \<and> MIN_SAFE_YEAR \<le> s \<and> s \<le> MAX_SAFE_YEAR \<and> same_calendar (year - 1900) (s - 1900) \<and>
    (if MIN_SAFE_YEAR \<le> year \<and> year \<le> MAX_SAFE_YEAR then s = year else True)"
  using safe_year_ex [of year] safe_year_self [of year] by auto

end
