(* ===== verification/Localtime64.thy ===== *)
theory Localtime64
  imports Safe_Year
begin

text \<open>
  Local time in 64 bits, the rest of \<open>libc/bionic/time64.c\<close>. The system's \<open>localtime_r\<close> and \<open>mktime\<close> handle times of
  32 bits and are parameters: \<open>localtime_r\<close> returns the date or null, \<open>mktime\<close> the time and the date it normalises.
  As \<open>USE_TM64\<close> is not defined, \<open>copy_tm_to_TM\<close> and \<open>copy_TM_to_tm\<close> copy the structure. The outer \<open>None\<close> is a failed
  \<open>assert\<close>, an undefined operation (an \<open>int\<close> that overflows, a date that was never written) or a loop that does not end.
\<close>

section \<open>mktime64\<close>

text \<open>The loop from \<open>right_year\<close> to \<open>left_year\<close>.\<close>

partial_function (option) between_loop :: "int \<Rightarrow> int \<Rightarrow> int \<Rightarrow> int \<Rightarrow> int option" where
  "between_loop left_year increment right_year seconds =
    (if left_year \<noteq> right_year
     then between_loop left_year increment (right_year + increment)
            (seconds + length_of_year (IS_LEAP (right_year - 1900)) * 60 * 60 * 24)
     else Some seconds)"

definition seconds_between_years :: "int \<Rightarrow> int \<Rightarrow> int option" where
  "seconds_between_years left_year right_year =
    (let increment = (if left_year > right_year then 1 else - 1);
         (left_year, seconds) =
           (if left_year > 2400 then
              let cycles = (left_year - 2400) sdiv 400 in (left_year - cycles * 400, cycles * seconds_in_gregorian_cycle)
            else if left_year < 1600 then
              let cycles = (left_year - 1600) sdiv 400 in (left_year + cycles * 400, cycles * seconds_in_gregorian_cycle)
            else (left_year, 0))
     in map_option (\<lambda>seconds. seconds * increment) (between_loop left_year increment right_year seconds))"

definition mktime64 :: "(tm \<Rightarrow> int \<times> tm) \<Rightarrow> tm \<Rightarrow> int option" where
  "mktime64 mktime input_date =
    (let year = tm_year input_date + 1900
     in if year \<ge> 2 ^ 31 then None
        else if MIN_SAFE_YEAR \<le> year \<and> year \<le> MAX_SAFE_YEAR then Some (fst (mktime input_date))
        else do {
          s \<leftarrow> safe_year year;
          let (time, safe_date) = mktime (input_date\<lparr>tm_year := s - 1900\<rparr>);
          d \<leftarrow> seconds_between_years year (tm_year safe_date + 1900);
          Some (time + d)
        })"

definition timelocal64 :: "(tm \<Rightarrow> int \<times> tm) \<Rightarrow> tm \<Rightarrow> int option" where
  "timelocal64 mktime date = mktime64 mktime date"

section \<open>localtime64_r\<close>

abbreviation (input) SYSTEM_LOCALTIME_MAX :: int where "SYSTEM_LOCALTIME_MAX \<equiv> 2147483647"

abbreviation (input) SYSTEM_LOCALTIME_MIN :: int where "SYSTEM_LOCALTIME_MIN \<equiv> - 2147483647"

definition localtime64_r :: "(int \<Rightarrow> tm option) \<Rightarrow> int \<Rightarrow> tm option option" where
  "localtime64_r localtime_r time =
    (if time \<le> SYSTEM_LOCALTIME_MAX \<and> time \<ge> SYSTEM_LOCALTIME_MIN then
       (case localtime_r time of
         None \<Rightarrow> None
       | Some safe_date \<Rightarrow> if check_tm safe_date then Some (Some safe_date) else None)
     else
       (case gmtime64_r time of
         None \<Rightarrow> None
       | Some None \<Rightarrow> Some None
       | Some (Some gm_tm) \<Rightarrow>
           let orig_year = tm_year gm_tm
           in do {
             gm_tm \<leftarrow>
               (if tm_year gm_tm > 2037 - 1900 \<or> tm_year gm_tm < 1970 - 1900
                then if tm_year gm_tm + 1900 \<ge> 2 ^ 31 then None
                     else map_option (\<lambda>s. gm_tm\<lparr>tm_year := s - 1900\<rparr>) (safe_year (tm_year gm_tm + 1900))
                else Some gm_tm);
             safe_time \<leftarrow> timegm64 gm_tm;
             (case localtime_r safe_time of
               None \<Rightarrow> Some None
             | Some safe_date \<Rightarrow>
                 let month_diff = tm_mon safe_date - tm_mon gm_tm;
                     year = (if month_diff = 11 then orig_year - 1 else orig_year);
                     year = (if month_diff = - 11 then year + 1 else year);
                     local_tm = safe_date\<lparr>tm_year := year\<rparr>;
                     local_tm = (if \<not> IS_LEAP year \<and> tm_yday local_tm = 365
                                 then local_tm\<lparr>tm_yday := tm_yday local_tm - 1\<rparr> else local_tm)
                 in if year < - (2 ^ 31) \<or> year + 1900 \<ge> 2 ^ 31 then None
                    else if check_tm local_tm then Some (Some local_tm) else None)
           }))"

section \<open>asctime64_r and ctime64_r\<close>

definition wday_name :: "string list" where
  "wday_name = [''Sun'', ''Mon'', ''Tue'', ''Wed'', ''Thu'', ''Fri'', ''Sat'']"

definition mon_name :: "string list" where
  "mon_name = [''Jan'', ''Feb'', ''Mar'', ''Apr'', ''May'', ''Jun'', ''Jul'', ''Aug'', ''Sep'', ''Oct'', ''Nov'', ''Dec'']"

definition valid_tm_wday :: "tm \<Rightarrow> bool" where
  "valid_tm_wday date \<longleftrightarrow> 0 \<le> tm_wday date \<and> tm_wday date \<le> 6"

definition valid_tm_mon :: "tm \<Rightarrow> bool" where
  "valid_tm_mon date \<longleftrightarrow> 0 \<le> tm_mon date \<and> tm_mon date \<le> 11"

text \<open>What \<open>sprintf\<close> writes for \<open>%d\<close>, for \<open>%3d\<close> (a width) and for \<open>%.2d\<close> (a precision).\<close>

fun digits :: "nat \<Rightarrow> string" where
  "digits n = (if n < 10 then [char_of (48 + n)] else digits (n div 10) @ [char_of (48 + n mod 10)])"

declare digits.simps [simp del]

definition fmt_d :: "int \<Rightarrow> string" where
  "fmt_d i = (if i < 0 then ''-'' else []) @ digits (nat \<bar>i\<bar>)"

definition fmt_3d :: "int \<Rightarrow> string" where
  "fmt_3d i = replicate (3 - length (fmt_d i)) (CHR '' '') @ fmt_d i"

definition fmt_p2d :: "int \<Rightarrow> string" where
  "fmt_p2d i = (if i < 0 then ''-'' else []) @
    replicate (2 - length (digits (nat \<bar>i\<bar>))) (CHR ''0'') @ digits (nat \<bar>i\<bar>)"

text \<open>The characters before the null character that \<open>sprintf\<close> appends; \<open>Some None\<close> is the null pointer.\<close>

definition asctime64_r :: "tm \<Rightarrow> string option option" where
  "asctime64_r date =
    (if \<not> valid_tm_wday date \<or> \<not> valid_tm_mon date then Some None
     else if tm_year date + 1900 \<ge> 2 ^ 31 then None
     else Some (Some (wday_name ! nat (tm_wday date) @ '' '' @ mon_name ! nat (tm_mon date) @ fmt_3d (tm_mday date) @
       '' '' @ fmt_p2d (tm_hour date) @ '':'' @ fmt_p2d (tm_min date) @ '':'' @ fmt_p2d (tm_sec date) @
       '' '' @ fmt_d (1900 + tm_year date) @ [char_of (10::nat)])))"

text \<open>\<open>ctime64_r\<close> does not look at the result of \<open>localtime64_r\<close>: after a null pointer it formats a date that was never written.\<close>

definition ctime64_r :: "(int \<Rightarrow> tm option) \<Rightarrow> int \<Rightarrow> string option option" where
  "ctime64_r localtime_r time =
    (case localtime64_r localtime_r time of Some (Some date) \<Rightarrow> asctime64_r date | _ \<Rightarrow> None)"

section \<open>The date of a time\<close>

text \<open>The fields of \<open>p\<close> are those of the time \<open>u\<close>, counted from the epoch without an offset.\<close>

definition date_of :: "tm \<Rightarrow> int \<Rightarrow> bool" where
  "date_of p u \<longleftrightarrow> tm_sec p = sec_of u \<and> tm_min p = min_of u \<and> tm_hour p = hour_of u \<and>
    day_of_year (IS_LEAP (tm_year p)) (tm_mon p) (tm_mday p - 1) (tm_yday p) \<and>
    0 \<le> tm_yday p \<and> tm_yday p < length_of_year (IS_LEAP (tm_year p)) \<and>
    day_of u = year_start (tm_year p) + tm_yday p \<and> tm_wday p = week_day (day_of u)"

lemma year_start_mono: "y \<le> y' \<Longrightarrow> year_start y \<le> year_start y'"
proof (induction rule: int_ge_induct)
  case (step y')
  then show ?case using year_start_Suc [of y'] by (simp add: length_of_year_def split: if_splits)
qed simp

lemma year_start_less: "y < y' \<Longrightarrow> year_start y + length_of_year (IS_LEAP y) \<le> year_start y'"
  using year_start_mono [of "y + 1" y'] year_start_Suc [of y] by simp

lemma year_unique:
  assumes "year_start y + a = year_start y' + a'" "0 \<le> a" "a < length_of_year (IS_LEAP y)"
    "0 \<le> a'" "a' < length_of_year (IS_LEAP y')"
  shows "y = y' \<and> a = a'"
proof -
  have "\<not> y < y'" "\<not> y' < y" using assms year_start_less [of y y'] year_start_less [of y' y] by auto
  then show ?thesis using assms(1) by auto
qed

lemma julian_less:
  assumes "mon < mon'" "month_entry julian_days_by_month leap mon = Some j" "month_entry days_in_month leap mon = Some d"
    "month_entry julian_days_by_month leap mon' = Some j'"
  shows "j + d \<le> j'"
proof -
  have "mon + 1 \<le> mon'" using assms(1) by simp
  then show ?thesis using assms(2-4)
  proof (induction arbitrary: j' rule: int_ge_induct)
    case base
    then show ?case using month_entry_table [of mon leap] month_entry_Some [OF base(3)] month_entry_Some [OF base(1)] by auto
  next
    case (step i)
    have "0 \<le> i" "i < 12" "i \<noteq> 11"
      using step.hyps month_entry_Some [OF step.prems(1)] month_entry_Some [OF step.prems(3)] by auto
    then obtain di ji where "month_entry days_in_month leap i = Some di" "month_entry julian_days_by_month leap i = Some ji"
        "j' = ji + di"
      using month_entry_table [of i leap] step.prems(3) by auto
    then show ?case using step.IH [OF step.prems(1,2)] month_entry_pos [of leap i di] by auto
  qed
qed

lemma day_of_year_unique:
  assumes "day_of_year leap mon m yday" "day_of_year leap mon' m' yday"
  shows "mon = mon' \<and> m = m'"
proof -
  obtain d j where dj: "month_entry days_in_month leap mon = Some d" "month_entry julian_days_by_month leap mon = Some j"
      "0 \<le> m" "m < d" "yday = j + m"
    using assms(1) by (auto simp: day_of_year_def)
  obtain d' j' where dj': "month_entry days_in_month leap mon' = Some d'" "month_entry julian_days_by_month leap mon' = Some j'"
      "0 \<le> m'" "m' < d'" "yday = j' + m'"
    using assms(2) by (auto simp: day_of_year_def)
  have "\<not> mon < mon'" "\<not> mon' < mon"
    using julian_less [of mon mon' leap j d j'] julian_less [of mon' mon leap j' d' j] dj dj' by auto
  then show ?thesis using dj dj' by auto
qed

lemma date_of_unique:
  assumes "date_of p u" "date_of q u"
  shows "tm_year p = tm_year q" "tm_mon p = tm_mon q" "tm_mday p = tm_mday q" "tm_yday p = tm_yday q"
    "tm_wday p = tm_wday q" "tm_hour p = tm_hour q" "tm_min p = tm_min q" "tm_sec p = tm_sec q"
proof -
  have y: "tm_year p = tm_year q \<and> tm_yday p = tm_yday q"
    using assms by (intro year_unique) (auto simp: date_of_def)
  then have "tm_mon p = tm_mon q \<and> tm_mday p - 1 = tm_mday q - 1"
    using assms by (intro day_of_year_unique [of "IS_LEAP (tm_year p)" _ _ "tm_yday p"]) (auto simp: date_of_def)
  then show "tm_year p = tm_year q" "tm_mon p = tm_mon q" "tm_mday p = tm_mday q" "tm_yday p = tm_yday q"
    "tm_wday p = tm_wday q" "tm_hour p = tm_hour q" "tm_min p = tm_min q" "tm_sec p = tm_sec q"
    using y assms by (auto simp: date_of_def)
qed

lemma gmtime64_r_iff:
  "gmtime64_r u = Some (Some p) \<longleftrightarrow> date_of p u \<and> - (2 ^ 31) \<le> tm_year p \<and> tm_year p + 1900 < 2 ^ 31 \<and>
    tm_isdst p = 0 \<and> tm_gmtoff p = 0 \<and> tm_zone p = ''UTC''"
proof -
  obtain year mon m yday where c: "civil (day_of u) = Some (year, mon, m)" "day_of_year (IS_LEAP year) mon m yday"
      "0 \<le> yday" "yday < length_of_year (IS_LEAP year)" "day_of u = year_start year + yday"
    using civil_exact by blast
  obtain j where j: "month_entry julian_days_by_month (IS_LEAP year) mon = Some j" "yday = j + m"
    using c(2) by (auto simp: day_of_year_def)
  let ?g = "gm_fields u year mon m yday"
  have gm: "gmtime64_r u = (if year < - (2 ^ 31) \<or> year \<ge> 2 ^ 31 then Some None
      else if year + 1900 < 2 ^ 31 then Some (Some ?g) else None)"
    using gm_fields_ok(1) [OF c(2,4,3)] by (simp add: gmtime64_split c(1) j)
  have d: "date_of ?g u" using c by (simp add: date_of_def gm_fields_def)
  have y: "tm_year ?g = year" by (simp add: gm_fields_def)
  have "p = ?g" if "date_of p u" "tm_isdst p = 0" "tm_gmtoff p = 0" "tm_zone p = ''UTC''"
    using date_of_unique [OF that(1) d] that(2-4) by (intro tm.equality) (simp_all add: gm_fields_def)
  moreover have "tm_isdst ?g = 0" "tm_gmtoff ?g = 0" "tm_zone ?g = ''UTC''" by (simp_all add: gm_fields_def)
  ultimately show ?thesis using gm d y date_of_unique(1) [of p u ?g] by auto
qed

lemma date_of_timegm64: "date_of p u \<Longrightarrow> timegm64 p = Some u"
  using day_time_bounds(9) [of u] by (auto simp: date_of_def timegm64_eq day_of_year_def)

lemma date_of_check_tm:
  assumes "date_of p u" "tm_year p + 1900 < 2 ^ 31" "\<bar>tm_gmtoff p\<bar> \<le> 86400"
  shows "check_tm p"
proof -
  obtain d j where d: "month_entry days_in_month (IS_LEAP (tm_year p)) (tm_mon p) = Some d"
      "0 \<le> tm_mday p - 1" "tm_mday p - 1 < d"
    using assms(1) by (auto simp: date_of_def day_of_year_def)
  moreover have "0 \<le> tm_mon p" "tm_mon p \<le> 11" using month_entry_Some [OF d(1)] by simp_all
  ultimately show ?thesis
    using assms day_time_bounds(1-6) [of u] day_time_bounds(7,8) [of "day_of u"] by (auto simp: check_tm_def date_of_def)
qed

section \<open>Moving a date to a year with the same calendar\<close>

lemma day_parts_shift:
  "sec_of (k * 86400 + x) = sec_of x" "min_of (k * 86400 + x) = min_of x" "hour_of (k * 86400 + x) = hour_of x"
  "day_of (k * 86400 + x) = k + day_of x"
proof -
  have "k * 86400 + x = sec_of x + min_of x * 60 + hour_of x * 3600 + (k + day_of x) * 86400"
    using day_time_bounds(9) [of x] by simp
  from day_time_unique [OF this] day_time_bounds(1-6) [of x]
  show "sec_of (k * 86400 + x) = sec_of x" "min_of (k * 86400 + x) = min_of x" "hour_of (k * 86400 + x) = hour_of x"
    "day_of (k * 86400 + x) = k + day_of x" by simp_all
qed

lemma week_day_add: "week_day a = week_day b \<Longrightarrow> week_day (a + k) = week_day (b + k)"
  using mod_add_cong [of "a + 4" 7 "b + 4" k k] by (simp only: week_day_def ac_simps)

lemma day_of_year_0: "day_of_year leap 0 0 0"
  by (simp add: day_of_year_def month_entry_def days_in_month_def julian_days_by_month_def)

text \<open>A date \<open>k\<close> days later, in the same year, the next or the previous one.\<close>

lemma date_of_move:
  assumes "date_of q (s + x)" "same_calendar y Y" "s = year_start Y * 86400 + r" "t = year_start y * 86400 + r"
    "tm_year q = Y \<or> tm_year q = Y - 1 \<or> tm_year q = Y + 1 \<and> tm_yday q = 0"
  shows "date_of (q\<lparr>tm_year := tm_year q - Y + y\<rparr>) (t + x)"
proof -
  have parts: "sec_of (t + x) = sec_of (s + x)" "min_of (t + x) = min_of (s + x)" "hour_of (t + x) = hour_of (s + x)"
    "day_of (t + x) = day_of (s + x) + (year_start y - year_start Y)"
    using day_parts_shift [of "year_start y" "r + x"] day_parts_shift [of "year_start Y" "r + x"]
    unfolding assms(3,4) add.assoc by simp_all
  have d: "day_of (s + x) = year_start (tm_year q) + tm_yday q" using assms(1) by (simp add: date_of_def)
  have w: "week_day (day_of (t + x)) = week_day (day_of (s + x))"
    using week_day_add [of "year_start y" "year_start Y" "day_of (s + x) - year_start Y"] assms(2)
    by (simp add: parts same_calendar_def algebra_simps)
  have l: "length_of_year (IS_LEAP y) = length_of_year (IS_LEAP Y)"
    "length_of_year (IS_LEAP (y - 1)) = length_of_year (IS_LEAP (Y - 1))"
    using assms(2) by (simp_all add: same_calendar_def)
  have year: "year_start (tm_year q - Y + y) = year_start (tm_year q) + (year_start y - year_start Y)"
    using assms(5) year_start_Suc [of y] year_start_Suc [of Y] year_start_Suc [of "y - 1"] year_start_Suc [of "Y - 1"] l
    by (auto simp: add.commute)
  have "day_of_year (IS_LEAP (tm_year q - Y + y)) (tm_mon q) (tm_mday q - 1) (tm_yday q) \<and>
      tm_yday q < length_of_year (IS_LEAP (tm_year q - Y + y))"
  proof (cases "tm_year q = Y + 1")
    case True
    then have "tm_yday q = 0" using assms(5) by auto
    moreover have "tm_mon q = 0 \<and> tm_mday q - 1 = 0"
      using assms(1) calculation by (intro day_of_year_unique [OF _ day_of_year_0 [of "IS_LEAP (tm_year q)"]]) (simp add: date_of_def)
    ultimately show ?thesis using day_of_year_0 by (simp add: length_of_year_def)
  next
    case False
    then have "IS_LEAP (tm_year q - Y + y) = IS_LEAP (tm_year q)" using assms(2,5) by (auto simp: same_calendar_def)
    then show ?thesis using assms(1) by (simp add: date_of_def)
  qed
  then show ?thesis using assms(1) parts w year by (simp add: date_of_def)
qed

lemma first_last_day:
  "day_of_year leap mon m 0 \<Longrightarrow> mon = 0"
  "day_of_year leap mon m (length_of_year leap - 1) \<Longrightarrow> mon = 11"
proof -
  show "mon = 0" if "day_of_year leap mon m 0"
    using day_of_year_unique [OF that day_of_year_0] by simp
  have "day_of_year leap 11 30 (length_of_year leap - 1)"
    by (simp add: day_of_year_def month_entry_def days_in_month_def julian_days_by_month_def length_of_year_def)
  then show "mon = 11" if "day_of_year leap mon m (length_of_year leap - 1)"
    using day_of_year_unique [OF that] by blast
qed

lemma month_far:
  assumes "day_of_year leap mon m yday" "day_of_year leap mon' m' yday'" "yday' \<le> yday + 1"
  shows "mon' - mon \<noteq> 11"
proof
  assume "mon' - mon = 11"
  moreover have "0 \<le> mon" "mon' < 12" using assms(1,2) by (auto simp: day_of_year_def dest!: month_entry_Some)
  ultimately have "mon = 0" "mon' = 11" by simp_all
  then have "yday < 31" "334 \<le> yday'"
    using assms(1,2)
    by (auto simp: day_of_year_def month_entry_def days_in_month_def julian_days_by_month_def split: if_splits)
  then show False using assms(3) by simp
qed

text \<open>A local date is in the year of the date without offset or at an end of a year next to it.\<close>

lemma near_year:
  assumes "date_of g u" "date_of q (u + x)" "\<bar>x\<bar> \<le> 86400"
  shows "tm_year q = tm_year g \<and> tm_mon q - tm_mon g \<noteq> 11 \<and> tm_mon q - tm_mon g \<noteq> - 11 \<or>
    tm_year q = tm_year g - 1 \<and> tm_mon q = 11 \<and> tm_mon g = 0 \<or>
    tm_year q = tm_year g + 1 \<and> tm_yday q = 0 \<and> tm_mon q = 0 \<and> tm_mon g = 11"
proof -
  let ?Y = "tm_year g" and ?yd = "tm_yday g"
  have "day_of (u + x) \<le> day_of u + 1 \<and> day_of u - 1 \<le> day_of (u + x)"
    using day_time_bounds(1-6,9) [of u] day_time_bounds(1-6,9) [of "u + x"] assms(3) by linarith
  moreover have d: "day_of u = year_start ?Y + ?yd" "day_of (u + x) = year_start (tm_year q) + tm_yday q"
      "0 \<le> ?yd" "?yd < length_of_year (IS_LEAP ?Y)" "0 \<le> tm_yday q" "tm_yday q < length_of_year (IS_LEAP (tm_year q))"
      "day_of_year (IS_LEAP ?Y) (tm_mon g) (tm_mday g - 1) ?yd"
      "day_of_year (IS_LEAP (tm_year q)) (tm_mon q) (tm_mday q - 1) (tm_yday q)"
    using assms(1,2) by (simp_all add: date_of_def)
  ultimately have n: "\<bar>year_start (tm_year q) + tm_yday q - (year_start ?Y + ?yd)\<bar> \<le> 1" by linarith
  consider "tm_year q = ?Y" | "tm_year q < ?Y" | "tm_year q > ?Y" by linarith
  then show ?thesis
  proof cases
    case 1
    then have "\<bar>tm_yday q - ?yd\<bar> \<le> 1" using n by simp
    then have "tm_mon q - tm_mon g \<noteq> 11" "tm_mon g - tm_mon q \<noteq> 11"
      using month_far [OF d(7), of "tm_mon q"] month_far [of "IS_LEAP ?Y" "tm_mon q" "tm_mday q - 1" "tm_yday q", OF _ d(7)]
        d(8) 1 by auto
    then show ?thesis using 1 by simp
  next
    case 2
    then have "tm_year q + 1 \<le> ?Y" by simp
    have "tm_year q = ?Y - 1"
    proof (rule ccontr)
      assume "tm_year q \<noteq> ?Y - 1"
      then have "year_start (tm_year q + 1) + 365 \<le> year_start ?Y"
        using 2 year_start_less [of "tm_year q + 1" ?Y] by (auto simp: length_of_year_def split: if_splits)
      then show False using n d(3-6) year_start_Suc [of "tm_year q"] by simp
    qed
    moreover have "?yd = 0" "tm_yday q = length_of_year (IS_LEAP (tm_year q)) - 1"
      using n d(3-6) year_start_less [OF 2] by linarith+
    ultimately show ?thesis using d(7,8) first_last_day by metis
  next
    case 3
    have "tm_year q = ?Y + 1"
    proof (rule ccontr)
      assume "tm_year q \<noteq> ?Y + 1"
      then have "year_start (?Y + 1) + 365 \<le> year_start (tm_year q)"
        using 3 year_start_less [of "?Y + 1" "tm_year q"] by (auto simp: length_of_year_def split: if_splits)
      then show False using n d(3-6) year_start_Suc [of ?Y] by simp
    qed
    moreover have "tm_yday q = 0" "?yd = length_of_year (IS_LEAP ?Y) - 1"
      using n d(3-6) year_start_less [OF 3] by linarith+
    ultimately show ?thesis using d(7,8) first_last_day by metis
  qed
qed

section \<open>localtime64_r extends localtime_r to all times\<close>

definition local_fields :: "tm \<Rightarrow> int \<Rightarrow> int \<Rightarrow> string \<Rightarrow> tm" where
  "local_fields g off dst name = g\<lparr>tm_isdst := dst, tm_gmtoff := off, tm_zone := name\<rparr>"

text \<open>
  What is known of \<open>localtime_r\<close>: for a time \<open>s\<close> of 32 bits it fills in the date of \<open>s + off s\<close>, where the offset is at
  most a day, and says which offset, name and daylight saving flag apply.
\<close>

definition zone_rule :: "(int \<Rightarrow> tm option) \<Rightarrow> (int \<Rightarrow> int) \<Rightarrow> (int \<Rightarrow> int) \<Rightarrow> (int \<Rightarrow> string) \<Rightarrow> bool" where
  "zone_rule localtime_r off dst name \<longleftrightarrow> (\<forall>s. \<bar>s\<bar> \<le> 2147483647 \<longrightarrow> \<bar>off s\<bar> \<le> 86400 \<and>
    (\<exists>g. gmtime64_r (s + off s) = Some (Some g) \<and> localtime_r s = Some (local_fields g (off s) (dst s) (name s))))"

lemma date_of_local_fields [simp]:
  "date_of (local_fields g off dst name) u = date_of g u" "date_of (local_fields g off dst name\<lparr>tm_year := y\<rparr>) u = date_of (g\<lparr>tm_year := y\<rparr>) u"
  by (simp_all add: date_of_def local_fields_def)

lemma local_fields_sel [simp]:
  "tm_year (local_fields g off dst name) = tm_year g" "tm_mon (local_fields g off dst name) = tm_mon g"
  "tm_yday (local_fields g off dst name) = tm_yday g" "tm_gmtoff (local_fields g off dst name) = off"
  "local_fields g off dst name\<lparr>tm_year := y\<rparr> = local_fields (g\<lparr>tm_year := y\<rparr>) off dst name"
  by (simp_all add: local_fields_def)

lemma date_of_bounds: "date_of g u \<Longrightarrow> year_start (tm_year g) * 86400 \<le> u \<and> u < year_start (tm_year g + 1) * 86400"
  using day_bounds [of u] year_start_Suc [of "tm_year g"] by (auto simp: date_of_def)

lemma date_of_32_bits: "date_of g u \<Longrightarrow> 70 \<le> tm_year g \<Longrightarrow> tm_year g \<le> 137 \<Longrightarrow> 0 \<le> u \<and> u \<le> 2145916799"
  using date_of_bounds [of g u] year_start_mono [of 70 "tm_year g"] year_start_mono [of "tm_year g + 1" 138]
  by (simp add: year_start_def [of 70] year_start_def [of 138])

text \<open>The same date in a year with the same calendar.\<close>

lemma same_date:
  assumes "date_of g t" "same_calendar (tm_year g) Y"
  defines "s \<equiv> t + (year_start Y - year_start (tm_year g)) * 86400"
  shows "date_of (g\<lparr>tm_year := Y\<rparr>) s"
proof -
  have c: "same_calendar Y (tm_year g)" using assms(2) by (simp add: same_calendar_def)
  have "t = year_start (tm_year g) * 86400 + (t - year_start (tm_year g) * 86400)"
    "s = year_start Y * 86400 + (t - year_start (tm_year g) * 86400)" by (simp_all add: s_def)
  from date_of_move [OF _ c this, of g 0] assms(1) show ?thesis by simp
qed

text \<open>The year that \<open>localtime64_r\<close> fills in, from the difference of the months.\<close>

definition local_year :: "int \<Rightarrow> int \<Rightarrow> int" where
  "local_year year month_diff =
    (let year = (if month_diff = 11 then year - 1 else year) in if month_diff = - 11 then year + 1 else year)"

lemma localtime64_far:
  assumes zone: "zone_rule localtime_r off dst name" and g: "date_of g t"
    and Y: "same_calendar (tm_year g) Y" "70 \<le> Y" "Y \<le> 137"
    and s: "date_of (g\<lparr>tm_year := Y\<rparr>) s"
    and y: "- (2 ^ 31) < tm_year g" "tm_year g + 1901 < 2 ^ 31"
  shows "\<exists>q g'. \<bar>s\<bar> \<le> 2147483647 \<and> \<bar>off s\<bar> \<le> 86400 \<and> localtime_r s = Some q \<and>
    gmtime64_r (t + off s) = Some (Some g') \<and>
    q\<lparr>tm_year := local_year (tm_year g) (tm_mon q - tm_mon g)\<rparr> = local_fields g' (off s) (dst s) (name s)"
proof -
  have s32: "\<bar>s\<bar> \<le> 2147483647" using date_of_32_bits [OF s] Y(2,3) by simp
  obtain g2 where g2: "gmtime64_r (s + off s) = Some (Some g2)"
      "localtime_r s = Some (local_fields g2 (off s) (dst s) (name s))" and o: "\<bar>off s\<bar> \<le> 86400"
    using zone s32 by (auto simp: zone_rule_def)
  have d2: "date_of g2 (s + off s)" "tm_isdst g2 = 0" "tm_gmtoff g2 = 0" "tm_zone g2 = ''UTC''"
    using g2(1) by (simp_all add: gmtime64_r_iff)
  let ?y = "tm_year g2 - Y + tm_year g"
  note near = near_year [OF s d2(1) o, simplified]
  have "s = year_start Y * 86400 + (s - year_start Y * 86400)"
    "t = year_start (tm_year g) * 86400 + (s - year_start Y * 86400)"
    using date_of_timegm64 [OF s] date_of_timegm64 [OF g] Y(1) by (auto simp: timegm64_eq same_calendar_def)
  from date_of_move [OF d2(1) Y(1) this] near have m: "date_of (g2\<lparr>tm_year := ?y\<rparr>) (t + off s)" by blast
  have r: "- (2 ^ 31) \<le> ?y \<and> ?y + 1900 < 2 ^ 31" using near y by auto
  have gm: "gmtime64_r (t + off s) = Some (Some (g2\<lparr>tm_year := ?y\<rparr>))"
    using m r d2 by (simp add: gmtime64_r_iff)
  have "local_year (tm_year g) (tm_mon g2 - tm_mon g) = ?y"
    using near by (auto simp: local_year_def)
  then show ?thesis using s32 o g2(2) gm by simp
qed

lemma localtime64_r_far:
  assumes "\<not> \<bar>t\<bar> \<le> 2147483647" "gmtime64_r t = Some (Some g)" "tm_year g > 2037 - 1900 \<or> tm_year g < 1970 - 1900"
    "tm_year g + 1900 < 2 ^ 31" "safe_year (tm_year g + 1900) = Some Y" "timegm64 (g\<lparr>tm_year := Y - 1900\<rparr>) = Some s"
    "localtime_r s = Some q"
  shows "localtime64_r localtime_r t =
    (let year = local_year (tm_year g) (tm_mon q - tm_mon g); l = q\<lparr>tm_year := year\<rparr>;
         l = (if \<not> IS_LEAP year \<and> tm_yday l = 365 then l\<lparr>tm_yday := tm_yday l - 1\<rparr> else l)
     in if year < - (2 ^ 31) \<or> year + 1900 \<ge> 2 ^ 31 then None else if check_tm l then Some (Some l) else None)"
proof -
  have n: "(t \<le> 2147483647 \<and> t \<ge> - 2147483647) = False" using assms(1) by (auto simp: abs_le_iff)
  have f: "(tm_year g > 2037 - 1900 \<or> tm_year g < 1970 - 1900) = True" "(tm_year g + 1900 \<ge> 2 ^ 31) = False"
    using assms(3,4) by auto
  have m: "tm_mon (g\<lparr>tm_year := Y - 1900\<rparr>) = tm_mon g" by simp
  show ?thesis
    unfolding localtime64_r_def n if_False assms(2) option.case Let_def local_year_def
    unfolding f if_True if_False assms(5) option.map Option.bind.simps assms(6,7) option.case m
    by (rule refl)
qed

lemma localtime64_dates:
  assumes zone: "zone_rule localtime_r off dst name" and gm: "gmtime64_r t = Some (Some g)"
    and y: "- (2 ^ 31) < tm_year g" "tm_year g + 1901 < 2 ^ 31"
  shows "\<exists>s g'. \<bar>s\<bar> \<le> 2147483647 \<and>
    (if \<bar>t\<bar> \<le> 2147483647 then s = t
     else \<exists>Y. safe_year (tm_year g + 1900) = Some Y \<and> timegm64 (g\<lparr>tm_year := Y - 1900\<rparr>) = Some s) \<and>
    gmtime64_r (t + off s) = Some (Some g') \<and>
    localtime64_r localtime_r t = Some (Some (local_fields g' (off s) (dst s) (name s)))"
proof (cases "\<bar>t\<bar> \<le> 2147483647")
  case True
  then obtain g' where g': "gmtime64_r (t + off t) = Some (Some g')" "\<bar>off t\<bar> \<le> 86400"
      "localtime_r t = Some (local_fields g' (off t) (dst t) (name t))"
    using zone by (auto simp: zone_rule_def)
  then have "check_tm (local_fields g' (off t) (dst t) (name t))"
    by (intro date_of_check_tm [of _ "t + off t"]) (simp_all add: gmtime64_r_iff)
  then have "localtime64_r localtime_r t = Some (Some (local_fields g' (off t) (dst t) (name t)))"
    using True g'(3) by (simp add: localtime64_r_def abs_le_iff)
  then show ?thesis using True g'(1) by (intro exI [of _ t] exI [of _ g']) simp
next
  case False
  have d: "date_of g t" using gm by (simp add: gmtime64_r_iff)
  have far: "tm_year g > 2037 - 1900 \<or> tm_year g < 1970 - 1900"
    using date_of_32_bits [OF d] False by (cases "70 \<le> tm_year g \<and> tm_year g \<le> 137") auto
  obtain Y where Y: "safe_year (tm_year g + 1900) = Some Y" "1971 \<le> Y" "Y \<le> 2037" "same_calendar (tm_year g) (Y - 1900)"
    using safe_year_ex [of "tm_year g + 1900"] by auto
  define s where "s = t + (year_start (Y - 1900) - year_start (tm_year g)) * 86400"
  have s: "date_of (g\<lparr>tm_year := Y - 1900\<rparr>) s" unfolding s_def by (rule same_date [OF d Y(4)])
  obtain q g' where q: "\<bar>s\<bar> \<le> 2147483647" "\<bar>off s\<bar> \<le> 86400" "localtime_r s = Some q"
      "gmtime64_r (t + off s) = Some (Some g')"
      "q\<lparr>tm_year := local_year (tm_year g) (tm_mon q - tm_mon g)\<rparr> = local_fields g' (off s) (dst s) (name s)"
    using localtime64_far [OF zone d Y(4) _ _ s y] Y(2,3) by auto
  have d': "date_of g' (t + off s)" "- (2 ^ 31) \<le> tm_year g'" "tm_year g' + 1900 < 2 ^ 31"
    using q(4) by (simp_all add: gmtime64_r_iff)
  have yr: "local_year (tm_year g) (tm_mon q - tm_mon g) = tm_year g'" "tm_yday q = tm_yday g'"
    using arg_cong [OF q(5), of tm_year] arg_cong [OF q(5), of tm_yday] by simp_all
  have ok: "check_tm (local_fields g' (off s) (dst s) (name s))"
    using d' q(2) by (intro date_of_check_tm [of _ "t + off s"]) simp_all
  have leap: "(\<not> IS_LEAP (tm_year g') \<and> tm_yday g' = 365) = False"
    using d'(1) by (auto simp: date_of_def length_of_year_def)
  have "localtime64_r localtime_r t = Some (Some (local_fields g' (off s) (dst s) (name s)))"
    using y(2) d'(2,3) ok leap yr q(5) by (subst localtime64_r_far [where localtime_r = localtime_r, OF False gm far _ Y(1) date_of_timegm64 [OF s] q(3)])
      (auto simp: Let_def)
  then show ?thesis using False q(1,4) Y(1) date_of_timegm64 [OF s] by (intro exI [of _ s] exI [of _ g']) auto
qed

section \<open>mktime64 extends mktime, and undoes localtime64_r\<close>

lemma between_loop_up:
  "R \<le> L \<Longrightarrow> between_loop L 1 R seconds = Some (seconds + (year_start (L - 1900) - year_start (R - 1900)) * 86400)"
proof (induction "nat (L - R)" arbitrary: R seconds)
  case 0
  then show ?case by (subst between_loop.simps) simp
next
  case (Suc n)
  have "year_start (R + 1 - 1900) = year_start (R - 1900) + length_of_year (IS_LEAP (R - 1900))"
    using year_start_Suc [of "R - 1900"] by (simp add: algebra_simps)
  then show ?case using Suc(1) [of "R + 1"] Suc(2) by (subst between_loop.simps) (simp add: algebra_simps)
qed

lemma between_loop_down:
  "L \<le> R \<Longrightarrow> between_loop L (- 1) R seconds = Some (seconds + (year_start (R - 1899) - year_start (L - 1899)) * 86400)"
proof (induction "nat (R - L)" arbitrary: R seconds)
  case 0
  then show ?case by (subst between_loop.simps) simp
next
  case (Suc n)
  have "year_start (R - 1899) = year_start (R - 1 - 1899) + length_of_year (IS_LEAP (R - 1900))"
    using year_start_Suc [of "R - 1900"] by (simp add: algebra_simps)
  then show ?case using Suc(1) [of "R - 1"] Suc(2) by (subst between_loop.simps) (simp add: algebra_simps)
qed

text \<open>
  The loop downward counts the years after \<open>left_year\<close> up to \<open>right_year\<close> instead of those before \<open>right_year\<close>, which
  is the same where both years have the same length.
\<close>

lemma seconds_between_years_exact:
  assumes R: "1971 \<le> R" "R \<le> 2037" and leap: "IS_LEAP (L - 1900) = IS_LEAP (R - 1900)"
  shows "seconds_between_years L R = Some ((year_start (L - 1900) - year_start (R - 1900)) * 86400)"
proof -
  have cyc: "year_start (L + c * 400 - k) = year_start (L - k) + c * days_in_gregorian_cycle" for c k
    using year_start_cycle [of "L - k" c] by (simp add: algebra_simps)
  have len: "year_start (L - 1899) - year_start (R - 1899) = year_start (L - 1900) - year_start (R - 1900)"
    using year_start_Suc [of "L - 1900"] year_start_Suc [of "R - 1900"] leap by simp
  consider "L > 2400" | "L < 1600" | "1600 \<le> L" "L \<le> 2400" by linarith
  then show ?thesis
  proof cases
    case 1
    define c where "c = (L - 2400) sdiv 400"
    have "L - 2400 = c * 400 + (L - 2400) smod 400" unfolding c_def by (rule sdiv_smod)
    moreover have "0 \<le> (L - 2400) smod 400" using 1 by (simp add: signed_modulo_int_def sgn_if)
    ultimately have "R \<le> L - c * 400" using R by simp
    from between_loop_up [OF this] show ?thesis
      using 1 R cyc [of "- c" 1900] by (simp add: seconds_between_years_def c_def [symmetric] algebra_simps)
  next
    case 2
    define c where "c = (L - 1600) sdiv 400"
    have "L - 1600 = c * 400 + (L - 1600) smod 400" unfolding c_def by (rule sdiv_smod)
    moreover have "- 400 < (L - 1600) smod 400" "(L - 1600) smod 400 \<le> 0"
      using smod_bounds [of 400 "L - 1600"] 2 by (simp_all add: signed_modulo_int_def sgn_if)
    ultimately have "c \<le> 0" using 2 by linarith
    then have "L + c * 400 \<le> R" using R 2 by simp
    from between_loop_down [OF this] show ?thesis
      using 2 R cyc [of c 1899] len by (simp add: seconds_between_years_def c_def [symmetric] algebra_simps)
  next
    case 3
    then show ?thesis
      using between_loop_up [of R L 0] between_loop_down [of L R 0] len by (auto simp: seconds_between_years_def)
  qed
qed

text \<open>
  What is known of \<open>mktime\<close>: for a valid date in a safe year it returns the time of the date less the offset of the zone
  at that date, and it does not change the year.
\<close>

definition mktime_rule :: "(tm \<Rightarrow> int \<times> tm) \<Rightarrow> (tm \<Rightarrow> int) \<Rightarrow> bool" where
  "mktime_rule mktime off \<longleftrightarrow> (\<forall>q. check_tm q \<and> MIN_SAFE_YEAR \<le> tm_year q + 1900 \<and> tm_year q + 1900 \<le> MAX_SAFE_YEAR \<longrightarrow>
    (\<exists>q'. mktime q = (the (timegm64 q) - off q, q') \<and> tm_year q' = tm_year q))"

lemma mktime64_exact:
  assumes rule: "mktime_rule mktime off" and q: "check_tm q"
  shows "\<exists>u Y. timegm64 q = Some u \<and> safe_year (tm_year q + 1900) = Some Y \<and>
    mktime64 mktime q = Some (u - off (q\<lparr>tm_year := Y - 1900\<rparr>))"
proof -
  obtain Y where Y: "safe_year (tm_year q + 1900) = Some Y" "1971 \<le> Y" "Y \<le> 2037" "same_calendar (tm_year q) (Y - 1900)"
    using safe_year_ex [of "tm_year q + 1900"] by auto
  let ?q = "q\<lparr>tm_year := Y - 1900\<rparr>"
  have leap: "IS_LEAP (Y - 1900) = IS_LEAP (tm_year q)" using Y(4) by (simp add: same_calendar_def)
  obtain j where j: "month_entry julian_days_by_month (IS_LEAP (tm_year q)) (tm_mon q) = Some j"
    using q month_entry_table [of "tm_mon q" "IS_LEAP (tm_year q)"] by (auto simp: check_tm_def)
  have y: "tm_year q + 1900 < 2 ^ 31" using q by (simp add: check_tm_def)
  have "check_tm ?q" using q leap Y(3) by (auto simp: check_tm_def split: option.splits)
  then obtain q' where q': "mktime ?q = (the (timegm64 ?q) - off ?q, q')" "tm_year q' = Y - 1900"
    using rule Y(2,3) by (auto simp: mktime_rule_def)
  have t: "the (timegm64 ?q) + (year_start (tm_year q) - year_start (Y - 1900)) * 86400 = the (timegm64 q)"
    using j leap by (simp add: timegm64_eq)
  have "mktime64 mktime q = Some (the (timegm64 q) - off ?q)"
  proof (cases "MIN_SAFE_YEAR \<le> tm_year q + 1900 \<and> tm_year q + 1900 \<le> MAX_SAFE_YEAR")
    case True
    then have "Y = tm_year q + 1900" using Y(1) safe_year_self [of "tm_year q + 1900"] by simp
    then show ?thesis using True y q'(1) by (simp add: mktime64_def)
  next
    case False
    have "seconds_between_years (tm_year q + 1900) (tm_year q' + 1900) =
        Some ((year_start (tm_year q) - year_start (Y - 1900)) * 86400)"
      using seconds_between_years_exact [of Y "tm_year q + 1900"] Y(2,3) leap q'(2) by simp
    then show ?thesis using False y Y(1) q'(1) t by (auto simp: mktime64_def Let_def)
  qed
  moreover have "timegm64 q = Some (the (timegm64 q))" using j by (simp add: timegm64_eq)
  ultimately show ?thesis using Y(1) by blast
qed

text \<open>A zone with a constant offset.\<close>

definition fixed_zone :: "int \<Rightarrow> int \<Rightarrow> tm option" where
  "fixed_zone off s = (case gmtime64_r (s + off) of Some (Some g) \<Rightarrow> Some (local_fields g off 0 ''LMT'') | _ \<Rightarrow> None)"

definition fixed_mktime :: "int \<Rightarrow> tm \<Rightarrow> int \<times> tm" where
  "fixed_mktime off q = (the (timegm64 q) - off, q)"

lemma gmtime64_defined:
  assumes "\<bar>u\<bar> \<le> 3000000000"
  shows "\<exists>g. gmtime64_r u = Some (Some g)"
proof -
  obtain year mon m yday where c: "day_of_year (IS_LEAP year) mon m yday"
      "0 \<le> yday" "yday < length_of_year (IS_LEAP year)" "day_of u = year_start year + yday"
    using civil_exact by blast
  let ?g = "gm_fields u year mon m yday"
  have d: "date_of ?g u" "tm_year ?g = year" using c by (simp_all add: date_of_def gm_fields_def)
  have "year_start (- 100) = - 62091" "year_start 200 = 47482" by (simp_all add: year_start_def)
  then have "- 100 \<le> year" "year \<le> 200"
    using date_of_bounds [OF d(1)] d(2) assms year_start_mono [of "year + 1" "- 100"] year_start_mono [of 200 year]
    by (auto simp: abs_le_iff not_less [symmetric])
  then have "gmtime64_r u = Some (Some ?g)" using d by (simp add: gmtime64_r_iff gm_fields_def)
  then show ?thesis ..
qed

lemma fixed_zone_rule: "\<bar>off\<bar> \<le> 86400 \<Longrightarrow> zone_rule (fixed_zone off) (\<lambda>_. off) (\<lambda>_. 0) (\<lambda>_. ''LMT'')"
proof -
  assume o: "\<bar>off\<bar> \<le> 86400"
  have "\<exists>g. gmtime64_r (s + off) = Some (Some g)" if "\<bar>s\<bar> \<le> 2147483647" for s
    using that o by (intro gmtime64_defined) (simp add: abs_le_iff)
  then show ?thesis using o by (fastforce simp: zone_rule_def fixed_zone_def)
qed

lemma fixed_mktime_rule: "mktime_rule (fixed_mktime off) (\<lambda>_. off)"
  by (simp add: mktime_rule_def fixed_mktime_def)

text \<open>
  C38. \<open>localtime64_r\<close> extends a \<open>localtime_r\<close> that works for 32 bits to all times: whatever the zone, the date it returns is
  the date of the time plus the offset the zone has at a time of 32 bits, which is the time itself or the same moment
  of its safe year. The year is right at both ends of a year, and the assertions hold.
\<close>

theorem localtime64_exact:
  assumes zone: "zone_rule localtime_r off dst name" and gm: "gmtime64_r t = Some (Some g)"
    and y: "- (2 ^ 31) < tm_year g" "tm_year g + 1901 < 2 ^ 31"
  shows "\<exists>s g'. \<bar>s\<bar> \<le> 2147483647 \<and>
    (if \<bar>t\<bar> \<le> 2147483647 then s = t
     else \<exists>Y. safe_year (tm_year g + 1900) = Some Y \<and> timegm64 (g\<lparr>tm_year := Y - 1900\<rparr>) = Some s) \<and>
    gmtime64_r (t + off s) = Some (Some g') \<and>
    localtime64_r localtime_r t = Some (Some (local_fields g' (off s) (dst s) (name s)))"
  using assms by (rule localtime64_dates)

lemma gmtime64_2100:
  "gmtime64_r 4102443000 = Some (Some \<lparr>tm_sec = 0, tm_min = 30, tm_hour = 23, tm_mday = 31, tm_mon = 11, tm_year = 199,
     tm_wday = 4, tm_yday = 364, tm_isdst = 0, tm_gmtoff = 0, tm_zone = ''UTC''\<rparr>)"
  by code_simp

theorem localtime64_exact_witness:
  "\<exists>g'. gmtime64_r 4102446600 = Some (Some g') \<and>
    localtime64_r (fixed_zone 3600) 4102443000 = Some (Some (local_fields g' 3600 0 ''LMT''))"
  using localtime64_exact [OF fixed_zone_rule [of 3600] gmtime64_2100] by auto



section \<open>The length of a date in text\<close>

lemma digits_length: "n < 10 ^ k \<Longrightarrow> 0 < k \<Longrightarrow> length (digits n) \<le> k"
proof (induction n arbitrary: k rule: digits.induct)
  case (1 n)
  show ?case
  proof (cases "n < 10")
    case False
    then obtain k' where k: "k = Suc k'" "0 < k'" using 1(2,3) by (cases k; cases "k - 1") auto
    have "n div 10 < 10 ^ k'" using 1(2) k by (simp add: less_mult_imp_div_less)
    then show ?thesis using 1(1) [OF False _ k(2)] False k(1) by (subst digits.simps) simp
  qed (use 1(3) in \<open>subst digits.simps, simp\<close>)
qed

lemma fmt_d_length: "nat \<bar>i\<bar> < 10 ^ k \<Longrightarrow> 0 < k \<Longrightarrow> length (fmt_d i) \<le> Suc k"
  using digits_length [of "nat \<bar>i\<bar>" k] by (cases "i < 0") (simp_all add: fmt_d_def)

text \<open>
  \<open>asctime64_r\<close> and \<open>ctime64_r\<close> write a valid date within the 35 bytes of \<open>Static_Return_String\<close>, with the final null
  character, whatever its year.
\<close>

theorem asctime64_fits:
  assumes "check_tm date" "- (2 ^ 31) \<le> tm_year date"
  shows "\<exists>s. asctime64_r date = Some (Some s) \<and> length s + 1 \<le> 35"
proof -
  have c: "0 \<le> tm_sec date" "tm_sec date \<le> 61" "0 \<le> tm_min date" "tm_min date \<le> 59" "0 \<le> tm_hour date" "tm_hour date \<le> 23"
      "1 \<le> tm_mday date" "tm_mday date \<le> 31" "0 \<le> tm_mon date" "tm_mon date \<le> 11" "0 \<le> tm_wday date" "tm_wday date \<le> 6"
      "tm_year date + 1900 < 2 ^ 31"
    using assms(1) month_entry_pos by (auto simp: check_tm_def split: option.splits) fastforce
  have p2: "length (fmt_p2d i) \<le> 2" if "0 \<le> i" "i \<le> 61" for i
    using digits_length [of "nat i" 2] that by (simp add: fmt_p2d_def)
  have d3: "length (fmt_3d (tm_mday date)) \<le> 3"
  proof -
    have "nat (tm_mday date) < 10 ^ 2" using c by (simp add: nat_less_iff)
    from digits_length [OF this] c show ?thesis by (simp add: fmt_3d_def fmt_d_def)
  qed
  have y: "length (fmt_d (1900 + tm_year date)) \<le> 11"
  proof -
    have "nat \<bar>1900 + tm_year date\<bar> < 10 ^ 10" using c assms(2) by (simp add: nat_less_iff abs_less_iff)
    from fmt_d_length [OF this] show ?thesis by simp
  qed
  have "list_all (\<lambda>s. length s = 3) wday_name" "list_all (\<lambda>s. length s = 3) mon_name"
      "length wday_name = 7" "length mon_name = 12"
    by (simp_all add: wday_name_def mon_name_def)
  then have w: "n < 7 \<Longrightarrow> length (wday_name ! n) = 3" and m: "k < 12 \<Longrightarrow> length (mon_name ! k) = 3" for n k
    by (simp_all add: list_all_length)
  show ?thesis
    using c w [of "nat (tm_wday date)"] m [of "nat (tm_mon date)"] d3 y p2 [of "tm_hour date"] p2 [of "tm_min date"]
      p2 [of "tm_sec date"]
    by (simp add: asctime64_r_def valid_tm_wday_def valid_tm_mon_def)
qed

theorem asctime64_fits_witness:
  "\<exists>s. asctime64_r \<lparr>tm_sec = 0, tm_min = 30, tm_hour = 23, tm_mday = 31, tm_mon = 11, tm_year = 199,
     tm_wday = 4, tm_yday = 364, tm_isdst = 0, tm_gmtoff = 0, tm_zone = ''UTC''\<rparr> = Some (Some s) \<and> length s + 1 \<le> 35"
  by (rule asctime64_fits) (code_simp, simp)

end
