(* ===== verification/Environ.thy ===== *)
theory Environ
  imports Memcopy
begin

text \<open>
  The environment, \<open>libc/stdlib/getenv.c\<close>, \<open>setenv.c\<close> and \<open>putenv.c\<close>. \<open>environ\<close> is null or the list of the entries before
  its final null pointer; an entry is the array of bytes it points to, from its first character to the end of the
  allocated block. A pointer into a string is the list of the bytes from there on. Reads and writes outside
  of a block are \<open>None\<close>. The allocator is a parameter; \<open>realloc\<close> tells only whether the array of pointers can grow,
  since its contents are kept. Lengths stay below the largest \<open>int\<close>.
\<close>

type_synonym env = "u8 list list option"

section \<open>The functions\<close>

text \<open>\<open>for (np = name; *np && *np != '='; ++np)\<close>: the length of the name.\<close>

fun name_len :: "u8 list \<Rightarrow> nat option" where
  "name_len [] = None"
| "name_len (c # np) = (if c = 0 \<or> c = 61 then Some 0 else map_option Suc (name_len np))"

text \<open>The inner loop of \<open>__findenv\<close>: \<open>i\<close> and \<open>cp\<close> when it ends.\<close>

fun env_match :: "u8 list \<Rightarrow> nat \<Rightarrow> u8 list \<Rightarrow> (nat \<times> u8 list) option" where
  "env_match np i [] = (if i = 0 then Some (0, []) else None)"
| "env_match np i (c # cp) =
    (if i = 0 then Some (0, c # cp)
     else if c = 0 then Some (i, c # cp)
     else (case np of [] \<Rightarrow> None | n # np \<Rightarrow> if c \<noteq> n then Some (i, cp) else env_match np (i - 1) cp))"

fun findenv_loop :: "u8 list \<Rightarrow> nat \<Rightarrow> u8 list list \<Rightarrow> nat \<Rightarrow> (nat \<times> u8 list) option option" where
  "findenv_loop name len [] offset = Some None"
| "findenv_loop name len (e # p) offset =
    (case env_match name len e of
      None \<Rightarrow> None
    | Some (i, cp) \<Rightarrow>
        if i = 0 then
          (case cp of
            [] \<Rightarrow> None
          | c # cp \<Rightarrow> if c = 61 then Some (Some (offset, cp)) else findenv_loop name len p (offset + 1))
        else findenv_loop name len p (offset + 1))"

text \<open>\<open>__findenv\<close>: the offset of the entry and its value, or null.\<close>

definition findenv :: "env \<Rightarrow> u8 list option \<Rightarrow> (nat \<times> u8 list) option option" where
  "findenv environ name =
    (case (name, environ) of
      (Some name, Some es) \<Rightarrow> do { len \<leftarrow> name_len name; findenv_loop name len es 0 }
    | _ \<Rightarrow> Some None)"

definition getenv :: "env \<Rightarrow> u8 list option \<Rightarrow> u8 list option option" where
  "getenv environ name = map_option (map_option snd) (findenv environ name)"

text \<open>\<open>while ((*C++ = *value++))\<close>: the new contents of the memory at \<open>C\<close>.\<close>

fun copy_value :: "u8 list \<Rightarrow> u8 list \<Rightarrow> u8 list option" where
  "copy_value (d # C) (v # val) = (if v = 0 then Some (0 # C) else map_option (Cons v) (copy_value C val))"
| "copy_value _ _ = None"

text \<open>The two loops that fill the new entry.\<close>

fun fill_entry :: "u8 list \<Rightarrow> u8 list \<Rightarrow> u8 list \<Rightarrow> u8 list option" where
  "fill_entry (d # C) (n # name) val =
    (if n = 0 \<or> n = 61 then map_option (Cons 61) (copy_value C val) else map_option (Cons n) (fill_entry C name val))"
| "fill_entry _ _ _ = None"

text \<open>The end of \<open>setenv\<close>: a block for the entry at \<open>offset\<close>. Without memory a null pointer is stored there.\<close>

definition store_entry ::
  "(nat \<Rightarrow> u8 list option) \<Rightarrow> u8 list list \<Rightarrow> nat \<Rightarrow> u8 list \<Rightarrow> u8 list \<Rightarrow> nat \<Rightarrow> (env \<times> int) option" where
  "store_entry malloc es offset name val l_value =
    do {
      l \<leftarrow> name_len name;
      case malloc (l + l_value + 2) of
        None \<Rightarrow> Some (Some (take offset es), - 1)
      | Some C \<Rightarrow> do { e \<leftarrow> fill_entry C name val; Some (Some (es[offset := e]), 0) }
    }"

definition setenv ::
  "(nat \<Rightarrow> u8 list option) \<Rightarrow> (nat \<Rightarrow> bool) \<Rightarrow> env \<Rightarrow> u8 list \<Rightarrow> u8 list \<Rightarrow> bool \<Rightarrow> (env \<times> int) option" where
  "setenv malloc realloc environ name val rewrite =
    do {
      val \<leftarrow> (case val of [] \<Rightarrow> None | c # val' \<Rightarrow> Some (if c = 61 then val' else val));
      l_value \<leftarrow> strlen val;
      f \<leftarrow> findenv environ (Some name);
      (case (f, environ) of
        (Some (offset, C), Some es) \<Rightarrow>
          if \<not> rewrite then Some (environ, 0)
          else do {
            l \<leftarrow> strlen C;
            if l \<ge> l_value then
              do {
                C' \<leftarrow> copy_value C val;
                let e = es ! offset;
                Some (Some (es[offset := take (length e - length C) e @ C']), 0)
              }
            else store_entry malloc es offset name val l_value
          }
      | (None, Some es) \<Rightarrow>
          let cnt = length es
          in if \<not> realloc (cnt + 2) then Some (environ, - 1)
             else store_entry malloc (es @ [[]]) cnt name val l_value
      | (_, None) \<Rightarrow> None)
    }"

lemma findenv_loop_bound: "findenv_loop name len es off = Some (Some (k, C)) \<Longrightarrow> off \<le> k \<and> k < off + length es"
proof (induction es arbitrary: off)
  case (Cons e es)
  then show ?case by (auto split: option.splits prod.splits if_splits list.splits dest!: Cons.IH)
qed simp

text \<open>\<open>unsetenv\<close>: as long as the name is found the later pointers move down.\<close>

function unset_loop :: "u8 list \<Rightarrow> nat \<Rightarrow> u8 list list \<Rightarrow> u8 list list option" where
  "unset_loop name len es =
    (case findenv_loop name len es 0 of
      None \<Rightarrow> None
    | Some None \<Rightarrow> Some es
    | Some (Some (offset, C)) \<Rightarrow> unset_loop name len (take offset es @ drop (offset + 1) es))"
  by pat_completeness auto
termination
  by (relation "measure (\<lambda>(name, len, es). length es)") (auto dest: findenv_loop_bound)

declare unset_loop.simps [simp del]

definition unsetenv :: "env \<Rightarrow> u8 list \<Rightarrow> (env \<times> int) option" where
  "unsetenv environ name =
    (case environ of
      None \<Rightarrow> Some (None, 0)
    | Some es \<Rightarrow> do { len \<leftarrow> name_len name; es' \<leftarrow> unset_loop name len es; Some (Some es', 0) })"

definition putenv ::
  "(nat \<Rightarrow> u8 list option) \<Rightarrow> (nat \<Rightarrow> bool) \<Rightarrow> env \<Rightarrow> u8 list \<Rightarrow> (env \<times> int) option" where
  "putenv malloc realloc environ str =
    do {
      d \<leftarrow> strdup malloc str;
      (case d of
        None \<Rightarrow> Some (environ, - 1)
      | Some p \<Rightarrow>
          do {
            equal \<leftarrow> strchr p 61;
            (case equal of
              None \<Rightarrow> Some (environ, - 1)
            | Some k \<Rightarrow> setenv malloc realloc environ (p[k := 0]) (drop (k + 1) p) True)
          })
    }"

section \<open>The variables of an environment\<close>

definition entry_str :: "u8 list \<Rightarrow> u8 list" where
  "entry_str e = takeWhile (\<lambda>c. c \<noteq> 0) e"

definition entry_value :: "u8 list \<Rightarrow> u8 list \<Rightarrow> u8 list option" where
  "entry_value n s = (if take (length n + 1) s = n @ [61] then Some (drop (length n + 1) s) else None)"

text \<open>The value of a name: that of the first entry for it.\<close>

fun env_view :: "u8 list list \<Rightarrow> u8 list \<Rightarrow> u8 list option" where
  "env_view [] n = None"
| "env_view (e # es) n = (case entry_value n (entry_str e) of None \<Rightarrow> env_view es n | Some v \<Rightarrow> Some v)"

definition env_ok :: "u8 list list \<Rightarrow> bool" where
  "env_ok es \<longleftrightarrow> (\<forall>e \<in> set es. 0 \<in> set e)"

definition var_name :: "u8 list \<Rightarrow> bool" where
  "var_name n \<longleftrightarrow> 0 \<notin> set n \<and> 61 \<notin> set n"

lemma name_len_eq: "var_name n \<Longrightarrow> name_len (n @ 0 # t) = Some (length n)"
  by (induction n) (auto simp: var_name_def)

lemma entry_str_Cons [simp]: "entry_str (c # e) = (if c = 0 then [] else c # entry_str e)"
  by (simp add: entry_str_def)

lemma entry_str_append [simp]: "0 \<notin> set n \<Longrightarrow> entry_str (n @ e) = n @ entry_str e"
  by (induction n) auto

lemma env_match_exact:
  "0 \<in> set e \<Longrightarrow> var_name n \<Longrightarrow> \<exists>i cp. env_match (n @ t) (length n) e = Some (i, cp) \<and>
    (if i = 0 then e = n @ cp \<and> 0 \<in> set cp else take (length n) (entry_str e) \<noteq> n)"
proof (induction n arbitrary: e)
  case Nil
  then show ?case by (cases e) auto
next
  case (Cons a n)
  obtain c e' where e: "e = c # e'" using Cons.prems(1) by (cases e) auto
  have n: "var_name n" "a \<noteq> 0" using Cons.prems(2) by (auto simp: var_name_def)
  show ?case
  proof (cases "c \<noteq> 0 \<and> c = a")
    case True
    then have "0 \<in> set e'" using Cons.prems(1) e by auto
    from Cons.IH [OF this n(1)] True show ?thesis using e by fastforce
  qed (use e n in auto)
qed

lemma entry_value_eq: "var_name n \<Longrightarrow> 0 \<in> set cp \<Longrightarrow>
    entry_value n (entry_str (n @ cp)) = (if hd cp = 61 then Some (entry_str (tl cp)) else None)"
  by (cases cp) (auto simp: entry_value_def var_name_def)

lemma entry_value_other:
  assumes "var_name n" "var_name m" "m \<noteq> n"
  shows "entry_value m (n @ 61 # s) = None"
proof (rule ccontr)
  assume "\<not> ?thesis"
  then have e: "take (length m + 1) (n @ 61 # s) = m @ [61]" by (auto simp: entry_value_def split: if_splits)
  then have "m @ 61 # drop (length m + 1) (n @ 61 # s) = n @ 61 # s"
    using append_take_drop_id [of "length m + 1" "n @ 61 # s"] by simp
  then have "takeWhile (\<lambda>c. c \<noteq> 61) (m @ 61 # drop (length m + 1) (n @ 61 # s)) = takeWhile (\<lambda>c. c \<noteq> 61) (n @ 61 # s)"
    by simp
  then show False using assms by (auto simp: var_name_def takeWhile_append split: if_splits)
qed

text \<open>\<open>__findenv\<close> stops at the first entry for the name.\<close>

lemma findenv_loop_exact:
  assumes "env_ok es" "var_name n"
  shows "\<exists>f. findenv_loop (n @ 0 # t) (length n) es off = Some f \<and>
    (case f of
      None \<Rightarrow> env_view es n = None
    | Some (k, C) \<Rightarrow> \<exists>a b. es = a @ (n @ 61 # C) # b \<and> k = off + length a \<and> env_view a n = None \<and> 0 \<in> set C)"
  using assms
proof (induction es arbitrary: off)
  case (Cons e es)
  note n = \<open>var_name n\<close>
  have e: "0 \<in> set e" "env_ok es" using Cons.prems(1) by (auto simp: env_ok_def)
  obtain i cp where m: "env_match (n @ 0 # t) (length n) e = Some (i, cp)"
      "if i = 0 then e = n @ cp \<and> 0 \<in> set cp else take (length n) (entry_str e) \<noteq> n"
    using env_match_exact [OF e(1) n] by blast
  obtain f where f: "findenv_loop (n @ 0 # t) (length n) es (off + 1) = Some f"
      "case f of None \<Rightarrow> env_view es n = None
       | Some (k, C) \<Rightarrow> \<exists>a b. es = a @ (n @ 61 # C) # b \<and> k = off + 1 + length a \<and> env_view a n = None \<and> 0 \<in> set C"
    using Cons.IH [OF e(2) n, of "off + 1"] by blast
  show ?case
  proof (cases "i = 0 \<and> hd cp = 61")
    case True
    then obtain C where "cp = 61 # C" "0 \<in> set C" using m(2) by (cases cp) auto
    then have "findenv_loop (n @ 0 # t) (length n) (e # es) off = Some (Some (off, C))" "e # es = [] @ (n @ 61 # C) # es"
      using m True by auto
    then show ?thesis using \<open>0 \<in> set C\<close> by (intro exI [of _ "Some (off, C)"]) fastforce
  next
    case False
    have v: "entry_value n (entry_str e) = None"
    proof (cases "i = 0")
      case True
      then show ?thesis using False m(2) entry_value_eq [OF n] by auto
    next
      case nz: False
      then have "take (length n + 1) (entry_str e) \<noteq> n @ [61]" using m(2) by (metis add.commute append_eq_conv_conj le_add2 min.absorb1 take_take)
      then show ?thesis by (simp add: entry_value_def)
    qed
    have "findenv_loop (n @ 0 # t) (length n) (e # es) off = Some f"
      using m False f(1) by (cases cp) (auto split: if_splits)
    moreover have "case f of None \<Rightarrow> env_view (e # es) n = None
       | Some (k, C) \<Rightarrow> \<exists>a b. e # es = a @ (n @ 61 # C) # b \<and> k = off + length a \<and> env_view a n = None \<and> 0 \<in> set C"
    proof (cases f)
      case (Some kC)
      obtain k C where kC: "kC = (k, C)" by fastforce
      obtain a b where "es = a @ (n @ 61 # C) # b" "k = off + 1 + length a" "env_view a n = None" "0 \<in> set C"
        using f(2) Some kC by auto
      then have "e # es = (e # a) @ (n @ 61 # C) # b \<and> k = off + length (e # a) \<and> env_view (e # a) n = None \<and> 0 \<in> set C"
        using v by simp
      then show ?thesis unfolding Some kC option.case prod.case by (intro exI)
    qed (use f(2) v in simp)
    ultimately show ?thesis by blast
  qed
qed simp

section \<open>What the functions do to the variables\<close>

lemma env_view_append: "env_view (a @ b) n = (case env_view a n of None \<Rightarrow> env_view b n | Some v \<Rightarrow> Some v)"
  by (induction a) (auto split: option.splits)

lemma env_view_entry: "var_name n \<Longrightarrow> 0 \<in> set C \<Longrightarrow> env_view ((n @ 61 # C) # b) n = Some (entry_str C)"
  using entry_value_eq [of n "61 # C"] by simp

lemma env_view_other: "var_name n \<Longrightarrow> var_name m \<Longrightarrow> m \<noteq> n \<Longrightarrow> env_view ((n @ 61 # C) # b) m = env_view b m"
  using entry_value_other [of n m "entry_str C"] by (simp add: var_name_def)

lemma env_view_put:
  assumes "var_name n" "env_view a n = None" "0 \<in> set C" "var_name m"
  shows "env_view (a @ (n @ 61 # C) # b) m = (if m = n then Some (entry_str C) else env_view (a @ b) m)"
  using assms env_view_entry [of n C b] env_view_other [of n m C b] by (auto simp: env_view_append split: option.splits)

lemma copy_value_exact:
  "0 \<notin> set v \<Longrightarrow> length v < length C \<Longrightarrow> copy_value C (v @ 0 # r) = Some (v @ 0 # drop (length v + 1) C)"
proof (induction v arbitrary: C)
  case Nil
  then show ?case by (cases C) auto
next
  case (Cons a v)
  then show ?case by (cases C) auto
qed

lemma fill_entry_exact:
  "var_name n \<Longrightarrow> 0 \<notin> set v \<Longrightarrow> length C = length n + length v + 2 \<Longrightarrow>
    fill_entry C (n @ 0 # t) (v @ 0 # r) = Some (n @ 61 # v @ [0])"
proof (induction n arbitrary: C)
  case Nil
  then show ?case by (cases C) (auto simp: copy_value_exact)
next
  case (Cons a n)
  then show ?case by (cases C) (auto simp: var_name_def)
qed

definition allocates :: "(nat \<Rightarrow> u8 list option) \<Rightarrow> bool" where
  "allocates malloc \<longleftrightarrow> (\<forall>n. \<exists>blk. malloc n = Some blk \<and> length blk = n)"

lemma store_entry_exact:
  assumes "allocates malloc" "var_name n" "0 \<notin> set v"
  shows "store_entry malloc es off (n @ 0 # t) (v @ 0 # r) (length v) = Some (Some (es[off := n @ 61 # v @ [0]]), 0)"
proof -
  obtain C where "malloc (length n + length v + 2) = Some C" "length C = length n + length v + 2"
    using assms(1) unfolding allocates_def by blast
  then show ?thesis using fill_entry_exact [OF assms(2,3)] by (simp add: store_entry_def name_len_eq [OF assms(2)])
qed

text \<open>\<open>setenv\<close> drops one leading \<open>=\<close> of the value.\<close>

definition set_value :: "u8 list \<Rightarrow> u8 list" where
  "set_value v = (case v of c # v' \<Rightarrow> if c = 61 then v' else v | [] \<Rightarrow> v)"

lemma set_value_case: "0 \<notin> set v \<Longrightarrow> (case v @ 0 # r of [] \<Rightarrow> None | c # v' \<Rightarrow> Some (if c = 61 then v' else v @ 0 # r)) =
    Some (set_value v @ 0 # r)" "0 \<notin> set v \<Longrightarrow> 0 \<notin> set (set_value v)"
  by (cases v; auto simp: set_value_def)+

lemma setenv_exact:
  assumes "allocates malloc" "\<And>k. realloc k" "env_ok es" "var_name n" "0 \<notin> set v"
  shows "\<exists>es'. setenv malloc realloc (Some es) (n @ 0 # t) (v @ 0 # r) rewrite = Some (Some es', 0) \<and> env_ok es' \<and>
    (\<forall>m. var_name m \<longrightarrow> env_view es' m =
      (if m = n \<and> (rewrite \<or> env_view es n = None) then Some (set_value v) else env_view es m))"
proof -
  let ?v = "set_value v"
  note v = set_value_case(2) [OF assms(5)]
  obtain f where f: "findenv_loop (n @ 0 # t) (length n) es 0 = Some f"
      "case f of None \<Rightarrow> env_view es n = None
       | Some (k, C) \<Rightarrow> \<exists>a b. es = a @ (n @ 61 # C) # b \<and> k = length a \<and> env_view a n = None \<and> 0 \<in> set C"
    using findenv_loop_exact [OF assms(3,4), of t 0] unfolding add_0 by blast
  have fe: "findenv (Some es) (Some (n @ 0 # t)) = Some f" using f(1) by (simp add: findenv_def name_len_eq [OF assms(4)])
  show ?thesis
  proof (cases f)
    case None
    let ?es = "es @ [n @ 61 # ?v @ [0]]"
    have "setenv malloc realloc (Some es) (n @ 0 # t) (v @ 0 # r) rewrite = Some (Some ?es, 0)"
      using assms(2) fe None store_entry_exact [OF assms(1,4) v, of "es @ [[]]" "length es" t r]
      by (simp add: setenv_def set_value_case(1) [OF assms(5)] v Let_def)
    moreover have "env_ok ?es" using assms(3) by (auto simp: env_ok_def)
    moreover have "env_view ?es m = (if m = n then Some ?v else env_view es m)" if "var_name m" for m
      using env_view_put [OF assms(4) _ _ that, of es "?v @ [0]" "[]"] f(2) None v by simp
    ultimately show ?thesis using f(2) None by fastforce
  next
    case (Some kC)
    obtain k C where kC: "kC = (k, C)" by fastforce
    obtain a b where ab: "es = a @ (n @ 61 # C) # b" "k = length a" "env_view a n = None" "0 \<in> set C"
      using f(2) Some kC by auto
    have some: "env_view es n = Some (entry_str C)" using env_view_put [OF assms(4) ab(3,4) assms(4)] ab(1) by simp
    show ?thesis
    proof (cases rewrite)
      case False
      then have "setenv malloc realloc (Some es) (n @ 0 # t) (v @ 0 # r) rewrite = Some (Some es, 0)"
        using fe Some kC by (simp add: setenv_def set_value_case(1) [OF assms(5)] v)
      then show ?thesis using assms(3) False some by auto
    next
      case True
      obtain C' where C': "setenv malloc realloc (Some es) (n @ 0 # t) (v @ 0 # r) rewrite =
          Some (Some (a @ (n @ 61 # C') # b), 0)" "0 \<in> set C'" "entry_str C' = ?v"
      proof (cases "length (cstr C) - 1 \<ge> length ?v")
        case long: True
        have "length (cstr C) \<le> length C" using ab(4) by (induction C) (auto simp: cstr_def)
        moreover have "cstr C \<noteq> []" using ab(4) by (cases C) (auto simp: cstr_def)
        ultimately have "length ?v < length C" using long by (cases "cstr C") auto
        from copy_value_exact [OF v this, of r] show ?thesis
          using that [of "?v @ 0 # drop (length ?v + 1) C"] fe Some kC True ab strlen_cstr [OF ab(4)] long v
          by (simp add: setenv_def set_value_case(1) [OF assms(5)] Let_def)
      next
        case short: False
        show ?thesis
          using that [of "?v @ [0]"] fe Some kC True ab strlen_cstr [OF ab(4)] short v
            store_entry_exact [OF assms(1,4) v, of es k t r]
          by (simp add: setenv_def set_value_case(1) [OF assms(5)] Let_def)
      qed
      have "env_view (a @ (n @ 61 # C') # b) m = (if m = n then Some ?v else env_view es m)" if "var_name m" for m
        using env_view_put [OF assms(4) ab(3) C'(2) that, of b] env_view_put [OF assms(4) ab(3,4) that, of b] ab(1) C'(3) by simp
      moreover have "env_ok (a @ (n @ 61 # C') # b)" using assms(3) ab(1) C'(2) by (auto simp: env_ok_def)
      ultimately show ?thesis using C'(1) True by auto
    qed
  qed
qed

lemma unset_loop_exact:
  assumes "env_ok es" "var_name n"
  shows "\<exists>es'. unset_loop (n @ 0 # t) (length n) es = Some es' \<and> env_ok es' \<and>
    (\<forall>m. var_name m \<longrightarrow> env_view es' m = (if m = n then None else env_view es m))"
  using assms(1)
proof (induction "length es" arbitrary: es rule: less_induct)
  case less
  obtain f where f: "findenv_loop (n @ 0 # t) (length n) es 0 = Some f"
      "case f of None \<Rightarrow> env_view es n = None
       | Some (k, C) \<Rightarrow> \<exists>a b. es = a @ (n @ 61 # C) # b \<and> k = length a \<and> env_view a n = None \<and> 0 \<in> set C"
    using findenv_loop_exact [OF less.prems assms(2), of t 0] unfolding add_0 by blast
  show ?case
  proof (cases f)
    case None
    then show ?thesis using f less.prems by (subst unset_loop.simps) auto
  next
    case (Some kC)
    obtain k C where kC: "kC = (k, C)" by fastforce
    obtain a b where ab: "es = a @ (n @ 61 # C) # b" "k = length a" "env_view a n = None" "0 \<in> set C"
      using f(2) Some kC by auto
    have "env_ok (a @ b)" using less.prems ab(1) by (auto simp: env_ok_def)
    from less.hyps [OF _ this] ab(1) obtain es' where es': "unset_loop (n @ 0 # t) (length n) (a @ b) = Some es'" "env_ok es'"
        "\<And>m. var_name m \<Longrightarrow> env_view es' m = (if m = n then None else env_view (a @ b) m)" by auto
    have "unset_loop (n @ 0 # t) (length n) es = Some es'"
      using f(1) Some kC ab(1,2) es'(1) by (subst unset_loop.simps) simp
    then show ?thesis using es' env_view_put [OF assms(2) ab(3,4), of _ b] ab(1) by auto
  qed
qed

lemma unsetenv_exact:
  assumes "env_ok es" "var_name n"
  shows "\<exists>es'. unsetenv (Some es) (n @ 0 # t) = Some (Some es', 0) \<and> env_ok es' \<and>
    (\<forall>m. var_name m \<longrightarrow> env_view es' m = (if m = n then None else env_view es m))"
  using unset_loop_exact [OF assms, of t] by (auto simp: unsetenv_def name_len_eq [OF assms(2)])

lemma getenv_exact:
  assumes "env_ok es" "var_name n"
  shows "\<exists>p. getenv (Some es) (Some (n @ 0 # t)) = Some p \<and> map_option entry_str p = env_view es n"
proof -
  obtain f where f: "findenv_loop (n @ 0 # t) (length n) es 0 = Some f"
      "case f of None \<Rightarrow> env_view es n = None
       | Some (k, C) \<Rightarrow> \<exists>a b. es = a @ (n @ 61 # C) # b \<and> k = length a \<and> env_view a n = None \<and> 0 \<in> set C"
    using findenv_loop_exact [OF assms, of t 0] unfolding add_0 by blast
  then show ?thesis
    using env_view_put [OF assms(2) _ _ assms(2)]
    by (cases f) (fastforce simp: getenv_def findenv_def name_len_eq [OF assms(2)])+
qed

lemma strchr_equal: "61 \<notin> set n \<Longrightarrow> 0 \<notin> set n \<Longrightarrow> strchr (n @ 61 # v) 61 = Some (Some (length n))"
proof (induction n)
  case (Cons a n)
  have "uint a \<noteq> 61" using Cons.prems(1) by (metis list.set_intros(1) of_int_numeral word_of_int_uint)
  then show ?case using Cons by simp
qed simp

lemma putenv_exact:
  assumes "allocates malloc" "\<And>k. realloc k" "env_ok es" "var_name n" "0 \<notin> set v"
  shows "\<exists>es'. putenv malloc realloc (Some es) (n @ 61 # v @ 0 # r) = Some (Some es', 0) \<and> env_ok es' \<and>
    (\<forall>m. var_name m \<longrightarrow> env_view es' m = (if m = n then Some (set_value v) else env_view es m))"
proof -
  let ?s = "n @ 61 # v @ [0]"
  have l: "strlen (n @ 61 # v @ 0 # r) = Some (length n + length v + 1)"
    using strlen_string [of "n @ 61 # v" r] assms(4,5) by (simp add: var_name_def)
  obtain C where C: "malloc (length n + length v + 1 + 1) = Some C" "length C = length n + length v + 1 + 1"
    using assms(1) unfolding allocates_def by blast
  have "strdup malloc (n @ 61 # v @ 0 # r) = Some (Some ?s)"
    using l C by (simp add: strdup_def rdn_def blit_def)
  moreover have "strchr ?s 61 = Some (Some (length n))" using assms(4) by (intro strchr_equal) (simp_all add: var_name_def)
  moreover have "?s[length n := 0] = n @ 0 # v @ [0]" by simp
  moreover have "drop (length n + 1) ?s = v @ 0 # []" by simp
  ultimately have "putenv malloc realloc (Some es) (n @ 61 # v @ 0 # r) =
      setenv malloc realloc (Some es) (n @ 0 # v @ [0]) (v @ 0 # []) True"
    by (simp add: putenv_def)
  then show ?thesis using setenv_exact [where realloc = realloc and t = "v @ [0]" and r = "[]" and rewrite = True, OF assms] by simp
qed

section \<open>Sequences of calls\<close>

datatype env_call = Set "u8 list" "u8 list" bool | Unset "u8 list" | Put "u8 list" "u8 list"

fun env_exec :: "(nat \<Rightarrow> u8 list option) \<Rightarrow> (nat \<Rightarrow> bool) \<Rightarrow> env \<Rightarrow> env_call \<Rightarrow> (env \<times> int) option" where
  "env_exec malloc realloc environ (Set n v rewrite) = setenv malloc realloc environ (n @ [0]) (v @ [0]) rewrite"
| "env_exec malloc realloc environ (Unset n) = unsetenv environ (n @ [0])"
| "env_exec malloc realloc environ (Put n v) = putenv malloc realloc environ (n @ 61 # v @ [0])"

fun env_run :: "(nat \<Rightarrow> u8 list option) \<Rightarrow> (nat \<Rightarrow> bool) \<Rightarrow> env \<Rightarrow> env_call list \<Rightarrow> env option" where
  "env_run malloc realloc environ [] = Some environ"
| "env_run malloc realloc environ (c # cs) =
    (case env_exec malloc realloc environ c of
      None \<Rightarrow> None
    | Some (environ', rval) \<Rightarrow> if rval = 0 then env_run malloc realloc environ' cs else None)"

fun call_ok :: "env_call \<Rightarrow> bool" where
  "call_ok (Set n v rewrite) = (var_name n \<and> 0 \<notin> set v)"
| "call_ok (Unset n) = var_name n"
| "call_ok (Put n v) = (var_name n \<and> 0 \<notin> set v)"

text \<open>What a call means for the map from names to values.\<close>

fun var_upd :: "env_call \<Rightarrow> (u8 list \<rightharpoonup> u8 list) \<Rightarrow> (u8 list \<rightharpoonup> u8 list)" where
  "var_upd (Set n v rewrite) V = (if rewrite \<or> V n = None then V(n \<mapsto> set_value v) else V)"
| "var_upd (Unset n) V = V(n := None)"
| "var_upd (Put n v) V = V(n \<mapsto> set_value v)"

lemma env_exec_exact:
  assumes "allocates malloc" "\<And>k. realloc k" "env_ok es" "call_ok c" "\<And>m. var_name m \<Longrightarrow> env_view es m = V m"
  shows "\<exists>es'. env_exec malloc realloc (Some es) c = Some (Some es', 0) \<and> env_ok es' \<and>
    (\<forall>m. var_name m \<longrightarrow> env_view es' m = var_upd c V m)"
proof (cases c)
  case (Set n v rewrite)
  then have n: "var_name n" "0 \<notin> set v" using assms(4) by simp_all
  obtain es' where "setenv malloc realloc (Some es) (n @ 0 # []) (v @ 0 # []) rewrite = Some (Some es', 0)" "env_ok es'"
      "\<forall>m. var_name m \<longrightarrow> env_view es' m =
        (if m = n \<and> (rewrite \<or> env_view es n = None) then Some (set_value v) else env_view es m)"
    using setenv_exact [where realloc = realloc and t = "[]" and r = "[]" and rewrite = rewrite, OF assms(1-3) n] by blast
  then show ?thesis using Set assms(5) n(1) by auto
next
  case (Unset n)
  then obtain es' where "unsetenv (Some es) (n @ 0 # []) = Some (Some es', 0)" "env_ok es'"
      "\<forall>m. var_name m \<longrightarrow> env_view es' m = (if m = n then None else env_view es m)"
    using unsetenv_exact [OF assms(3), of n "[]"] assms(4) by auto
  then show ?thesis using Unset assms(5) by auto
next
  case (Put n v)
  then have n: "var_name n" "0 \<notin> set v" using assms(4) by simp_all
  obtain es' where "putenv malloc realloc (Some es) (n @ 61 # v @ 0 # []) = Some (Some es', 0)" "env_ok es'"
      "\<forall>m. var_name m \<longrightarrow> env_view es' m = (if m = n then Some (set_value v) else env_view es m)"
    using putenv_exact [where realloc = realloc and r = "[]", OF assms(1-3) n] by blast
  then show ?thesis using Put assms(5) by auto
qed

text \<open>
  C31. The environment is a map from names to values: after any sequence of \<open>setenv\<close>, \<open>unsetenv\<close> and \<open>putenv\<close> calls, with
  memory available, \<open>getenv\<close> returns for every name what the sequence makes of the variables there were, whatever the
  entries before were, duplicates included; every call succeeds, and no access leaves its block, also where a value is
  written over an old one. A leading \<open>=\<close> of a value is dropped.
\<close>

theorem environment_exact:
  assumes "allocates malloc" "\<And>k. realloc k" "env_ok es" "list_all call_ok cs"
  shows "\<exists>es'. env_run malloc realloc (Some es) cs = Some (Some es') \<and>
    (\<forall>m. var_name m \<longrightarrow> (\<exists>p. getenv (Some es') (Some (m @ [0])) = Some p \<and>
      map_option entry_str p = fold var_upd cs (env_view es) m))"
proof -
  have "\<exists>es'. env_run malloc realloc (Some es) cs = Some (Some es') \<and> env_ok es' \<and>
      (\<forall>m. var_name m \<longrightarrow> env_view es' m = fold var_upd cs V m)"
    if "env_ok es" "\<And>m. var_name m \<Longrightarrow> env_view es m = V m" for V
    using assms(4) that
  proof (induction cs arbitrary: es V)
    case (Cons c cs)
    have c: "call_ok c" using Cons.prems(1) by simp
    obtain es1 where es1: "env_exec malloc realloc (Some es) c = Some (Some es1, 0)" "env_ok es1"
        "\<And>m. var_name m \<Longrightarrow> env_view es1 m = var_upd c V m"
      using env_exec_exact [where realloc = realloc, OF assms(1,2) Cons.prems(2) c Cons.prems(3)] by blast
    then show ?case using Cons.IH [OF _ es1(2,3)] Cons.prems(1) by auto
  qed auto
  from this [OF assms(3) refl] show ?thesis using getenv_exact [where t = "[]"] by fastforce
qed

theorem environment_exact_witness:
  "\<exists>es'. env_run (\<lambda>n. Some (replicate n 0)) (\<lambda>_. True) (Some [[65, 61, 49, 50, 0], [66, 61, 0], [65, 61, 51, 0]])
      [Set [66] [55, 56] True, Put [65] [57], Unset [65], Set [67] [61, 33] False] = Some (Some es') \<and>
    (\<forall>m. var_name m \<longrightarrow> (\<exists>p. getenv (Some es') (Some (m @ [0])) = Some p \<and> map_option entry_str p =
      fold var_upd [Set [66] [55, 56] True, Put [65] [57], Unset [65], Set [67] [61, 33] False]
        (env_view [[65, 61, 49, 50, 0], [66, 61, 0], [65, 61, 51, 0]]) m))"
  by (rule environment_exact) (auto simp: allocates_def env_ok_def var_name_def)

text \<open>Where memory runs out, a failed \<open>setenv\<close> of a variable that exists cuts off the environment at its entry.\<close>

lemma setenv_out_of_memory:
  "setenv (\<lambda>_. None) (\<lambda>_. True) (Some [[65, 61, 49, 0], [66, 61, 50, 0]]) [65, 0] [49, 50, 0] True = Some (Some [], - 1)"
  by code_simp

text \<open>\<open>putenv\<close> loses the first character of a value that starts with \<open>=\<close>.\<close>

lemma putenv_equal_sign:
  "putenv (\<lambda>n. Some (replicate n 0)) (\<lambda>_. True) (Some []) [65, 61, 61, 66, 0] = Some (Some [[65, 61, 66, 0]], 0)"
  by code_simp

end
