(* ===== verification/Atexit.thy ===== *)
theory Atexit
  imports Bionic_Prelude
begin

text \<open>
  Exit handlers, \<open>libc/stdlib/atexit.c\<close>. The list of pages at \<open>__atexit\<close> is a list with the newest page first; a page has
  its table of slots, as long as the page allows. Functions are numbers, \<open>None\<close> is the null pointer, and the handle
  of a shared object is a number with 0 for null. The answers of \<open>mmap\<close> and \<open>mprotect\<close> are parameters; a write outside of
  a table is \<open>None\<close>. What a handler does is a parameter too: the handlers it registers while it runs. A pointer
  has four bytes, so that a page starts with 12 bytes before its table and a slot has 12 bytes.
\<close>

section \<open>The functions\<close>

record atexit_fn =
  fn_ptr :: "nat option"
  fn_arg :: nat
  fn_dso :: nat

record atexit_page =
  ind :: nat
  cap :: nat
  fns :: "atexit_fn list"

record atexit_state =
  atexit_list :: "atexit_page list"
  atexit_invalid :: bool
  call_depth :: int

text \<open>What the operating system answers: whether there is memory, and the results of the two calls of \<open>mprotect\<close>.\<close>

record os_answers =
  pgsize :: nat
  mmap_ok :: bool
  unprotect_ok :: bool
  protect_ok :: bool

abbreviation (input) null_fn :: atexit_fn where
  "null_fn \<equiv> \<lparr>fn_ptr = None, fn_arg = 0, fn_dso = 0\<rparr>"

text \<open>A fresh page, zeroed by the kernel, with \<open>p->ind\<close> set and \<open>p->max\<close> computed.\<close>

definition new_page :: "nat \<Rightarrow> nat \<Rightarrow> atexit_page" where
  "new_page pgs i = (let m = (pgs - 12) div 12 in \<lparr>ind = i, cap = m, fns = replicate m null_fn\<rparr>)"

text \<open>The slot at \<open>p->ind++\<close> is filled; the flag tells whether the last \<open>mprotect\<close> succeeds.\<close>

definition push_fn :: "os_answers \<Rightarrow> atexit_state \<Rightarrow> atexit_fn \<Rightarrow> (atexit_state \<times> int) option" where
  "push_fn os st e =
    (case atexit_list st of
      [] \<Rightarrow> None
    | p # ps \<Rightarrow>
        do {
          t \<leftarrow> wr (fns p) (ind p) e;
          Some (st\<lparr>atexit_list := p\<lparr>fns := t, ind := ind p + 1\<rparr> # ps\<rparr>, if protect_ok os then 0 else - 1)
        })"

definition cxa_atexit :: "os_answers \<Rightarrow> atexit_state \<Rightarrow> nat \<Rightarrow> nat \<Rightarrow> nat \<Rightarrow> (atexit_state \<times> int) option" where
  "cxa_atexit os st func arg dso =
    (let e = \<lparr>fn_ptr = Some func, fn_arg = arg, fn_dso = dso\<rparr>
     in if pgsize os < 24 then Some (st, - 1)
        else
          (case atexit_list st of
            [] \<Rightarrow>
              if \<not> mmap_ok os then Some (st, - 1)
              else push_fn os (st\<lparr>atexit_list := [new_page (pgsize os) 1], atexit_invalid := False\<rparr>) e
          | p # ps \<Rightarrow>
              if ind p + 1 \<ge> cap p then
                if \<not> mmap_ok os then Some (st, - 1)
                else push_fn os (st\<lparr>atexit_list := new_page (pgsize os) 0 # p # ps, atexit_invalid := False\<rparr>) e
              else if \<not> unprotect_ok os then Some (st, - 1)
              else push_fn os st e))"

definition atexit :: "os_answers \<Rightarrow> atexit_state \<Rightarrow> nat \<Rightarrow> (atexit_state \<times> int) option" where
  "atexit os st func = cxa_atexit os st func 0 0"

text \<open>The handlers a function registers while it runs.\<close>

fun register_all :: "os_answers \<Rightarrow> atexit_state \<Rightarrow> (nat \<times> nat \<times> nat) list \<Rightarrow> atexit_state option" where
  "register_all os st [] = Some st"
| "register_all os st ((f, a, d) # rs) =
    do { (st1, r) \<leftarrow> cxa_atexit os st f a d; register_all os st1 rs }"

text \<open>The slot \<open>n\<close> of the page with \<open>k\<close> pages from it to the end of the list.\<close>

abbreviation (input) page_pos :: "atexit_state \<Rightarrow> nat \<Rightarrow> nat" where
  "page_pos st k \<equiv> length (atexit_list st) - k"

definition mark_called :: "atexit_state \<Rightarrow> nat \<Rightarrow> nat \<Rightarrow> atexit_state" where
  "mark_called st k n =
    (let p = atexit_list st ! page_pos st k
     in st\<lparr>atexit_list := (atexit_list st)[page_pos st k := p\<lparr>fns := (fns p)[n := (fns p ! n)\<lparr>fn_ptr := None\<rparr>]\<rparr>]\<rparr>)"

text \<open>The inner loop of \<open>__cxa_finalize\<close>, with the calls it makes.\<close>

fun fin_page ::
  "os_answers \<Rightarrow> (nat \<Rightarrow> nat \<Rightarrow> (nat \<times> nat \<times> nat) list) \<Rightarrow> nat \<Rightarrow> atexit_state \<Rightarrow> nat \<Rightarrow> nat
    \<Rightarrow> (atexit_state \<times> (nat \<times> nat) list) option" where
  "fin_page os regs dso st k 0 = Some (st, [])"
| "fin_page os regs dso st k (Suc n) =
    (let fn = fns (atexit_list st ! page_pos st k) ! n
     in case fn_ptr fn of
          None \<Rightarrow> fin_page os regs dso st k n
        | Some f \<Rightarrow>
            if dso \<noteq> 0 \<and> dso \<noteq> fn_dso fn then fin_page os regs dso st k n
            else do {
              let st1 = (if unprotect_ok os then mark_called st k n else st);
              st2 \<leftarrow> register_all os st1 (regs f (fn_arg fn));
              (st3, calls) \<leftarrow> fin_page os regs dso st2 k n;
              Some (st3, (f, fn_arg fn) # calls)
            })"

text \<open>The outer loop, from the page with \<open>k\<close> pages to the end.\<close>

fun fin_pages ::
  "os_answers \<Rightarrow> (nat \<Rightarrow> nat \<Rightarrow> (nat \<times> nat \<times> nat) list) \<Rightarrow> nat \<Rightarrow> atexit_state \<Rightarrow> nat
    \<Rightarrow> (atexit_state \<times> (nat \<times> nat) list) option" where
  "fin_pages os regs dso st 0 = Some (st, [])"
| "fin_pages os regs dso st (Suc k) =
    do {
      (st1, calls1) \<leftarrow> fin_page os regs dso st (Suc k) (ind (atexit_list st ! page_pos st (Suc k)));
      (st2, calls2) \<leftarrow> fin_pages os regs dso st1 k;
      Some (st2, calls1 @ calls2)
    }"

definition cxa_finalize ::
  "os_answers \<Rightarrow> (nat \<Rightarrow> nat \<Rightarrow> (nat \<times> nat \<times> nat) list) \<Rightarrow> atexit_state \<Rightarrow> nat
    \<Rightarrow> (atexit_state \<times> (nat \<times> nat) list) option" where
  "cxa_finalize os regs st dso =
    (if atexit_invalid st then Some (st, [])
     else do {
       let st0 = st\<lparr>call_depth := call_depth st + 1\<rparr>;
       (st1, calls) \<leftarrow> fin_pages os regs dso st0 (length (atexit_list st0));
       let st2 = (if dso = 0 then st1\<lparr>call_depth := call_depth st1 - 1\<rparr> else st1);
       Some (if dso = 0 \<and> call_depth st2 = 0 then st2\<lparr>atexit_list := []\<rparr> else st2, calls)
     })"

text \<open>The first slot of the oldest page.\<close>

definition atexit_register_cleanup :: "os_answers \<Rightarrow> atexit_state \<Rightarrow> nat \<Rightarrow> atexit_state option" where
  "atexit_register_cleanup os st func =
    (let e = \<lparr>fn_ptr = Some func, fn_arg = 0, fn_dso = 0\<rparr>
     in if pgsize os < 24 then Some st
        else if atexit_list st = [] then
          if \<not> mmap_ok os then Some st
          else
            (let p = new_page (pgsize os) 1
             in do { t \<leftarrow> wr (fns p) 0 e; Some (st\<lparr>atexit_list := [p\<lparr>fns := t\<rparr>], atexit_invalid := False\<rparr>) })
        else if \<not> unprotect_ok os then Some st
        else
          (let p = last (atexit_list st)
           in do { t \<leftarrow> wr (fns p) 0 e; Some (st\<lparr>atexit_list := butlast (atexit_list st) @ [p\<lparr>fns := t\<rparr>]\<rparr>) }))"

section \<open>The slots in use, oldest first\<close>

definition used :: "atexit_page \<Rightarrow> atexit_fn list" where
  "used p = take (ind p) (fns p)"

definition slots :: "atexit_state \<Rightarrow> atexit_fn list" where
  "slots st = concat (map used (rev (atexit_list st)))"

definition page_ok :: "atexit_page \<Rightarrow> bool" where
  "page_ok p \<longleftrightarrow> ind p \<le> cap p \<and> length (fns p) = cap p"

definition atexit_ok :: "atexit_state \<Rightarrow> bool" where
  "atexit_ok st \<longleftrightarrow> list_all page_ok (atexit_list st) \<and>
    (if atexit_list st = [] then True else 0 < ind (last (atexit_list st)) \<and> \<not> atexit_invalid st)"

definition os_good :: "os_answers \<Rightarrow> bool" where
  "os_good os \<longleftrightarrow> 36 \<le> pgsize os \<and> mmap_ok os \<and> unprotect_ok os \<and> protect_ok os"

definition handler :: "nat \<times> nat \<times> nat \<Rightarrow> atexit_fn" where
  "handler h = (case h of (f, a, d) \<Rightarrow> \<lparr>fn_ptr = Some f, fn_arg = a, fn_dso = d\<rparr>)"

lemma cap_new: "os_good os \<Longrightarrow> 2 \<le> (pgsize os - 12) div 12"
proof -
  assume "os_good os"
  then have "24 \<le> pgsize os - 12" by (auto simp: os_good_def)
  from div_le_mono [OF this, of 12] show ?thesis by simp
qed

text \<open>A registration adds a slot at the end; the first one also adds the empty slot of the cleanup function.\<close>

lemma cxa_atexit_slots:
  assumes "os_good os" "atexit_ok st"
  shows "\<exists>st'. cxa_atexit os st f a d = Some (st', 0) \<and> atexit_ok st' \<and> call_depth st' = call_depth st \<and>
    slots st' = (if atexit_list st = [] then [null_fn] else slots st) @ [handler (f, a, d)] \<and>
    (\<exists>p ps. atexit_list st' = p # ps \<and>
      (ps = atexit_list st \<or> (\<exists>p0. atexit_list st = p0 # ps \<and> ind p0 \<le> ind p \<and> used p0 = take (ind p0) (fns p))))"
proof -
  note c = cap_new [OF assms(1)]
  consider "atexit_list st = []" | p ps where "atexit_list st = p # ps" "ind p + 1 \<ge> cap p"
    | p ps where "atexit_list st = p # ps" "ind p + 1 < cap p" by (cases "atexit_list st") fastforce+
  then show ?thesis
  proof cases
    case 1
    obtain m where m: "(pgsize os - 12) div 12 = Suc (Suc m)" using c by (metis add_2_eq_Suc le_Suc_ex)
    show ?thesis using assms 1
      by (simp add: cxa_atexit_def push_fn_def new_page_def wr_def os_good_def m slots_def used_def handler_def
          atexit_ok_def page_ok_def)
  next
    case (2 p ps)
    obtain m where m: "(pgsize os - 12) div 12 = Suc (Suc m)" using c by (metis add_2_eq_Suc le_Suc_ex)
    show ?thesis using assms 2
      by (auto simp: cxa_atexit_def push_fn_def new_page_def wr_def os_good_def m slots_def used_def handler_def
          atexit_ok_def page_ok_def)
  next
    case (3 p ps)
    then have i: "ind p < length (fns p)" using assms(2) by (auto simp: atexit_ok_def page_ok_def)
    show ?thesis using assms 3 i
      by (auto simp: cxa_atexit_def push_fn_def wr_def os_good_def slots_def used_def handler_def
          atexit_ok_def page_ok_def take_Suc_conv_app_nth)
  qed
qed

section \<open>The loops on pages are one loop over the slots\<close>

definition matching :: "nat \<Rightarrow> atexit_fn \<Rightarrow> bool" where
  "matching dso e \<longleftrightarrow> fn_ptr e \<noteq> None \<and> (dso = 0 \<or> dso = fn_dso e)"

definition call_of :: "atexit_fn \<Rightarrow> nat \<times> nat" where
  "call_of e = (the (fn_ptr e), fn_arg e)"

fun flat_fin ::
  "(nat \<Rightarrow> nat \<Rightarrow> (nat \<times> nat \<times> nat) list) \<Rightarrow> nat \<Rightarrow> atexit_fn list \<Rightarrow> nat \<Rightarrow> atexit_fn list \<times> (nat \<times> nat) list" where
  "flat_fin regs dso s 0 = (s, [])"
| "flat_fin regs dso s (Suc i) =
    (let e = s ! i
     in if matching dso e
        then apsnd (Cons (call_of e))
          (flat_fin regs dso (s[i := e\<lparr>fn_ptr := None\<rparr>] @ map handler (regs (the (fn_ptr e)) (fn_arg e))) i)
        else flat_fin regs dso s i)"

definition dropped :: "nat \<Rightarrow> atexit_fn \<Rightarrow> atexit_fn" where
  "dropped dso e = (if matching dso e then e\<lparr>fn_ptr := None\<rparr> else e)"

lemma flat_fin_exact:
  "i \<le> length s \<Longrightarrow> flat_fin regs dso s i =
    (let calls = map call_of (rev (filter (matching dso) (take i s)))
     in (map (dropped dso) (take i s) @ drop i s @ concat (map (\<lambda>(f, a). map handler (regs f a)) calls), calls))"
proof (induction i arbitrary: s)
  case (Suc i)
  then have i: "i < length s" by simp
  let ?e = "s ! i"
  have t: "take (Suc i) s = take i s @ [?e]" using i by (rule take_Suc_conv_app_nth)
  have d: "drop i s = ?e # drop (Suc i) s" using i by (simp add: Cons_nth_drop_Suc)
  show ?case
  proof (cases "matching dso ?e")
    case True
    let ?s = "s[i := ?e\<lparr>fn_ptr := None\<rparr>] @ map handler (regs (the (fn_ptr ?e)) (fn_arg ?e))"
    have "take i ?s = take i s" "drop i ?s = ?e\<lparr>fn_ptr := None\<rparr> # drop (Suc i) s @ map handler (regs (the (fn_ptr ?e)) (fn_arg ?e))"
      using i by (simp_all add: drop_update_swap d)
    then show ?thesis using Suc.IH [of ?s] i True by (simp add: t dropped_def call_of_def Let_def)
  next
    case False
    then show ?thesis using Suc.IH [of s] i by (simp add: t d dropped_def Let_def)
  qed
qed (simp add: Let_def)

text \<open>The page with \<open>k + 1\<close> pages to the end of the list, and the number of slots in use on the pages behind it.\<close>

abbreviation (input) page_at :: "atexit_state \<Rightarrow> nat \<Rightarrow> atexit_page" where
  "page_at st k \<equiv> rev (atexit_list st) ! k"

definition base :: "atexit_state \<Rightarrow> nat \<Rightarrow> nat" where
  "base st k = length (concat (map used (take k (rev (atexit_list st)))))"

definition keeps :: "nat \<Rightarrow> atexit_state \<Rightarrow> atexit_state \<Rightarrow> bool" where
  "keeps k st st' \<longleftrightarrow> atexit_ok st' \<and> k < length (atexit_list st') \<and> call_depth st' = call_depth st \<and>
    take k (rev (atexit_list st')) = take k (rev (atexit_list st)) \<and> ind (page_at st k) \<le> ind (page_at st' k)"

lemma keeps_trans: "keeps k st st' \<Longrightarrow> keeps k st' st'' \<Longrightarrow> keeps k st st''"
  by (auto simp: keeps_def)

lemma keeps_refl: "atexit_ok st \<Longrightarrow> k < length (atexit_list st) \<Longrightarrow> keeps k st st"
  by (simp add: keeps_def)

lemma keeps_base: "keeps k st st' \<Longrightarrow> base st' k = base st k"
  by (simp add: keeps_def base_def)

lemma page_pos_at: "k < length (atexit_list st) \<Longrightarrow> atexit_list st ! page_pos st (Suc k) = page_at st k"
  by (simp add: rev_nth)

lemma page_at_ok: "atexit_ok st \<Longrightarrow> k < length (atexit_list st) \<Longrightarrow> page_ok (page_at st k)"
  by (metis atexit_ok_def length_rev list_all_length list_all_rev)

lemma slots_split:
  assumes "k < length (atexit_list st)"
  shows "slots st = concat (map used (take k (rev (atexit_list st)))) @ used (page_at st k) @
    concat (map used (drop (Suc k) (rev (atexit_list st))))"
  using assms id_take_nth_drop [of k "rev (atexit_list st)"] by (simp add: slots_def) (metis concat.simps(2) concat_append list.simps(9) map_append)

lemma slot_at:
  assumes "atexit_ok st" "k < length (atexit_list st)" "n < ind (page_at st k)"
  shows "slots st ! (base st k + n) = fns (page_at st k) ! n" "base st k + n < length (slots st)"
  using page_at_ok [OF assms(1,2)] assms(3) unfolding slots_split [OF assms(2)] base_def
  by (simp_all add: nth_append used_def page_ok_def)

lemma mark_called_slots:
  assumes "atexit_ok st" "k < length (atexit_list st)" "n < ind (page_at st k)"
  shows "keeps k st (mark_called st (Suc k) n)"
    "slots (mark_called st (Suc k) n) = (slots st)[base st k + n := (slots st ! (base st k + n))\<lparr>fn_ptr := None\<rparr>]"
proof -
  let ?p = "page_at st k" and ?st = "mark_called st (Suc k) n"
  let ?p' = "?p\<lparr>fns := (fns ?p)[n := (fns ?p ! n)\<lparr>fn_ptr := None\<rparr>]\<rparr>"
  have l: "rev (atexit_list ?st) = (rev (atexit_list st))[k := ?p']"
    using assms(2) by (simp add: mark_called_def Let_def page_pos_at rev_update)
  have ok: "page_ok ?p" by (rule page_at_ok [OF assms(1,2)])
  have len: "length (atexit_list ?st) = length (atexit_list st)" using arg_cong [OF l, of length] by simp
  have ne: "atexit_list st \<noteq> []" "atexit_list ?st \<noteq> []" using assms(2) len by auto
  have last: "last xs = rev xs ! 0" if "xs \<noteq> []" for xs :: "atexit_page list"
    using that by (simp add: hd_rev [symmetric] hd_conv_nth last_conv_nth rev_nth)
  have "list_all page_ok (rev (atexit_list st))" using assms(1) by (simp add: atexit_ok_def)
  then have "list_all page_ok ((rev (atexit_list st))[k := ?p'])"
    using ok set_update_subset_insert [of "rev (atexit_list st)" k ?p'] by (auto simp: list_all_iff page_ok_def)
  then have "list_all page_ok (atexit_list ?st)" unfolding l [symmetric] by simp
  moreover have "ind (last (atexit_list ?st)) = ind (last (atexit_list st))"
    unfolding last [OF ne(1)] last [OF ne(2)] l using ne(1) by (cases "k = 0") auto
  moreover have "atexit_invalid ?st = atexit_invalid st" by (simp add: mark_called_def Let_def)
  ultimately have "atexit_ok ?st" using assms(1) ne by (simp add: atexit_ok_def)
  moreover have "call_depth ?st = call_depth st" by (simp add: mark_called_def Let_def)
  ultimately show "keeps k st ?st" using l len assms(2) by (simp add: keeps_def)
  have u: "used ?p' = (used ?p)[n := (fns ?p ! n)\<lparr>fn_ptr := None\<rparr>]" using assms(3) by (simp add: used_def take_update_swap)
  have "n < length (used ?p)" using assms(3) ok by (simp add: used_def page_ok_def)
  then show "slots ?st = (slots st)[base st k + n := (slots st ! (base st k + n))\<lparr>fn_ptr := None\<rparr>]"
    unfolding slot_at(1) [OF assms]
    unfolding slots_split [OF assms(2)] slots_split [of k ?st, unfolded len, OF assms(2)] l base_def
    using assms(2) u by (simp add: list_update_append)
qed

lemma register_all_slots:
  assumes "os_good os" "atexit_ok st" "k < length (atexit_list st)"
  shows "\<exists>st'. register_all os st rs = Some st' \<and> keeps k st st' \<and> slots st' = slots st @ map handler rs"
  using assms(2,3)
proof (induction rs arbitrary: st)
  case Nil
  then show ?case by (simp add: keeps_refl)
next
  case (Cons r rs)
  obtain f a d where r: "r = (f, a, d)" by (cases r) auto
  have ne: "atexit_list st \<noteq> []" using Cons.prems(2) by auto
  obtain st1 p ps where st1: "cxa_atexit os st f a d = Some (st1, 0)" "atexit_ok st1" "call_depth st1 = call_depth st"
      "slots st1 = slots st @ [handler (f, a, d)]" "atexit_list st1 = p # ps"
      "ps = atexit_list st \<or> (\<exists>p0. atexit_list st = p0 # ps \<and> ind p0 \<le> ind p)"
    using cxa_atexit_slots [OF assms(1) Cons.prems(1), of f a d] ne by auto
  have k1: "keeps k st st1"
    using st1(2,3,5,6) Cons.prems(2) by (auto simp: keeps_def nth_append)
  then have "k < length (atexit_list st1)" by (simp add: keeps_def)
  from Cons.IH [OF st1(2) this] obtain st' where "register_all os st1 rs = Some st'" "keeps k st1 st'"
      "slots st' = slots st1 @ map handler rs" by blast
  then show ?case using st1(1,4) r keeps_trans [OF k1] by simp
qed

lemma fin_page_flat:
  assumes "os_good os" "atexit_ok st" "k < length (atexit_list st)" "n \<le> ind (page_at st k)"
  shows "\<exists>st' calls. fin_page os regs dso st (Suc k) n = Some (st', calls) \<and> keeps k st st' \<and>
    flat_fin regs dso (slots st) (base st k + n) = apsnd (append calls) (flat_fin regs dso (slots st') (base st k))"
  using assms(2-4)
proof (induction n arbitrary: st)
  case 0
  then show ?case by (cases "flat_fin regs dso (slots st) (base st k)") (simp add: keeps_refl)
next
  case (Suc n)
  then have n: "n < ind (page_at st k)" by simp
  let ?e = "fns (page_at st k) ! n"
  note at = slot_at [OF Suc.prems(1,2) n]
  show ?case
  proof (cases "matching dso ?e")
    case False
    then have "fin_page os regs dso st (Suc k) (Suc n) = fin_page os regs dso st (Suc k) n"
      using page_pos_at [OF Suc.prems(2)] by (auto simp: Let_def matching_def split: option.splits)
    then show ?thesis using Suc.IH [OF Suc.prems(1,2)] n False at(1) by (simp add: Let_def)
  next
    case True
    then obtain f where f: "fn_ptr ?e = Some f" by (auto simp: matching_def)
    let ?st1 = "mark_called st (Suc k) n"
    note m = mark_called_slots [OF Suc.prems(1,2) n]
    obtain st2 where st2: "register_all os ?st1 (regs f (fn_arg ?e)) = Some st2" "keeps k ?st1 st2"
        "slots st2 = slots ?st1 @ map handler (regs f (fn_arg ?e))"
      using register_all_slots [OF assms(1), of ?st1 k] m(1) by (auto simp: keeps_def)
    note k2 = keeps_trans [OF m(1) st2(2)]
    have "atexit_ok st2" "k < length (atexit_list st2)" "n \<le> ind (page_at st2 k)" using k2 n by (auto simp: keeps_def)
    from Suc.IH [OF this] obtain st' calls where st': "fin_page os regs dso st2 (Suc k) n = Some (st', calls)" "keeps k st2 st'"
        "flat_fin regs dso (slots st2) (base st2 k + n) = apsnd (append calls) (flat_fin regs dso (slots st') (base st2 k))"
      by blast
    have "fin_page os regs dso st (Suc k) (Suc n) = Some (st', (f, fn_arg ?e) # calls)"
      using True f st2(1) st'(1) page_pos_at [OF Suc.prems(2)] assms(1) by (auto simp: Let_def matching_def os_good_def)
    moreover have "flat_fin regs dso (slots st) (base st k + Suc n) =
        apsnd (append ((f, fn_arg ?e) # calls)) (flat_fin regs dso (slots st') (base st k))"
      using True f at(1) m(2) st2(3) st'(3) keeps_base [OF k2]
      by (simp add: Let_def call_of_def prod.map_comp comp_def apsnd_def map_prod_def split: prod.splits)
    ultimately show ?thesis using keeps_trans [OF k2 st'(2)] by blast
  qed
qed

lemma base_Suc: "k < length (atexit_list st) \<Longrightarrow> atexit_ok st \<Longrightarrow> base st (Suc k) = base st k + ind (page_at st k)"
  using page_at_ok [of st k] by (simp add: base_def take_Suc_conv_app_nth used_def page_ok_def)

lemma fin_pages_flat:
  assumes "os_good os" "atexit_ok st" "k \<le> length (atexit_list st)"
  shows "\<exists>st' calls. fin_pages os regs dso st k = Some (st', calls) \<and> atexit_ok st' \<and> call_depth st' = call_depth st \<and>
    (atexit_invalid st' \<longrightarrow> atexit_invalid st) \<and> flat_fin regs dso (slots st) (base st k) = (slots st', calls)"
  using assms(2,3)
proof (induction k arbitrary: st)
  case 0
  then show ?case by (simp add: base_def)
next
  case (Suc k)
  then have k: "k < length (atexit_list st)" by simp
  obtain st1 c1 where st1: "fin_page os regs dso st (Suc k) (ind (page_at st k)) = Some (st1, c1)" "keeps k st st1"
      "flat_fin regs dso (slots st) (base st k + ind (page_at st k)) = apsnd (append c1) (flat_fin regs dso (slots st1) (base st k))"
    using fin_page_flat [OF assms(1) Suc.prems(1) k, of "ind (page_at st k)"] by blast
  have "atexit_ok st1" "k \<le> length (atexit_list st1)" using st1(2) by (simp_all add: keeps_def)
  from Suc.IH [OF this] obtain st2 c2 where st2: "fin_pages os regs dso st1 k = Some (st2, c2)" "atexit_ok st2"
      "call_depth st2 = call_depth st1" "flat_fin regs dso (slots st1) (base st1 k) = (slots st2, c2)"
      "atexit_invalid st2 \<longrightarrow> atexit_invalid st1" by blast
  have inv: "\<not> atexit_invalid st1" using st1(2) by (auto simp: keeps_def atexit_ok_def split: if_splits)
  have "fin_pages os regs dso st (Suc k) = Some (st2, c1 @ c2)"
    using st1(1) st2(1) page_pos_at [OF k] by simp
  moreover have "flat_fin regs dso (slots st) (base st (Suc k)) = (slots st2, c1 @ c2)"
    using st1(3) st2(4) keeps_base [OF st1(2)] base_Suc [OF k Suc.prems(1)] by simp
  ultimately show ?case using st2(2,3,5) st1(2) inv by (auto simp: keeps_def)
qed

text \<open>The live handlers, oldest first.\<close>

definition live :: "atexit_state \<Rightarrow> atexit_fn list" where
  "live st = filter (matching 0) (slots st)"

lemma cxa_atexit_live:
  assumes "os_good os" "atexit_ok st"
  shows "\<exists>st'. cxa_atexit os st f a d = Some (st', 0) \<and> atexit_ok st' \<and> live st' = live st @ [handler (f, a, d)] \<and>
    call_depth st' = call_depth st \<and> \<not> atexit_invalid st'"
proof -
  obtain st' p ps where "cxa_atexit os st f a d = Some (st', 0)" "atexit_ok st'" "call_depth st' = call_depth st"
      "slots st' = (if atexit_list st = [] then [null_fn] else slots st) @ [handler (f, a, d)]" "atexit_list st' = p # ps"
    using cxa_atexit_slots [OF assms, of f a d] by blast
  moreover have "slots st = []" if "atexit_list st = []" using that by (simp add: slots_def)
  ultimately show ?thesis by (auto simp: live_def matching_def handler_def atexit_ok_def)
qed

lemma live_dropped: "filter (matching 0) (map (dropped dso) s) = filter (\<lambda>e. \<not> matching dso e) (filter (matching 0) s)"
  by (induction s) (auto simp: dropped_def matching_def)

lemma matching_live: "filter (matching dso) s = filter (matching dso) (filter (matching 0) s)"
  by (induction s) (auto simp: matching_def)

lemma registered_live: "filter (matching 0) (concat (map (\<lambda>(f, a). map handler (regs f a)) cs)) = concat (map (\<lambda>(f, a). map handler (regs f a)) cs)"
  by (auto simp: filter_id_conv matching_def handler_def split: prod.splits)

lemma cxa_finalize_live:
  fixes dso :: nat
  assumes "os_good os" "atexit_ok st" "\<not> atexit_invalid st"
  defines "calls \<equiv> map call_of (rev (filter (matching dso) (live st)))"
  shows "\<exists>st'. cxa_finalize os regs st dso = Some (st', calls) \<and> atexit_ok st' \<and>
    live st' = (if dso = 0 \<and> call_depth st = 0 then []
      else filter (\<lambda>e. \<not> matching dso e) (live st) @ concat (map (\<lambda>(f, a). map handler (regs f a)) calls)) \<and>
    call_depth st' = (if dso = 0 then call_depth st else call_depth st + 1) \<and> \<not> atexit_invalid st'"
proof -
  let ?st = "st\<lparr>call_depth := call_depth st + 1\<rparr>" and ?l = "length (atexit_list st)"
  have v: "atexit_ok ?st" "slots ?st = slots st" using assms(2) by (simp_all add: atexit_ok_def slots_def)
  have b: "base ?st ?l = length (slots st)" by (simp add: base_def slots_def)
  obtain st1 cs where st1: "fin_pages os regs dso ?st ?l = Some (st1, cs)" "atexit_ok st1"
      "call_depth st1 = call_depth st + 1" and inv: "\<not> atexit_invalid st1"
      and st1': "flat_fin regs dso (slots st) (length (slots st)) = (slots st1, cs)"
    using fin_pages_flat [OF assms(1) v(1), of ?l regs dso] v(2) b assms(3) by auto
  have c: "map call_of (rev (filter (matching dso) (slots st))) = calls"
    unfolding calls_def live_def matching_live [of dso "slots st", symmetric] ..
  have "flat_fin regs dso (slots st) (length (slots st)) =
      (map (dropped dso) (slots st) @ [] @ concat (map (\<lambda>(f, a). map handler (regs f a)) calls), calls)"
    using flat_fin_exact [of "length (slots st)" "slots st" regs dso] unfolding Let_def take_all [OF order_refl] c by simp
  then have e: "cs = calls" "slots st1 = map (dropped dso) (slots st) @ concat (map (\<lambda>(f, a). map handler (regs f a)) calls)"
    using st1' by simp_all
  have l: "live st1 = filter (\<lambda>e. \<not> matching dso e) (live st) @ concat (map (\<lambda>(f, a). map handler (regs f a)) calls)"
    unfolding live_def e(2) filter_append live_dropped registered_live ..
  show ?thesis
    using assms(3) st1(1-3) e(1) inv l
    by (auto simp: cxa_finalize_def Let_def atexit_ok_def live_def slots_def)
qed

text \<open>The cleanup function takes the oldest slot, so that it is called last.\<close>

lemma register_cleanup_live:
  assumes "os_good os" "atexit_ok st"
  shows "\<exists>st'. atexit_register_cleanup os st f = Some st' \<and> atexit_ok st' \<and>
    live st' = handler (f, 0, 0) # filter (matching 0) (tl (slots st))"
proof (cases "atexit_list st" rule: rev_cases)
  case Nil
  obtain m where m: "(pgsize os - 12) div 12 = Suc (Suc m)" using cap_new [OF assms(1)] by (metis add_2_eq_Suc le_Suc_ex)
  show ?thesis using assms Nil
    by (simp add: atexit_register_cleanup_def new_page_def wr_def os_good_def m live_def slots_def used_def handler_def
        atexit_ok_def page_ok_def matching_def)
next
  case (snoc ps p)
  have p: "page_ok p" "0 < ind p" using assms(2) snoc by (auto simp: atexit_ok_def)
  then obtain e t i where e: "fns p = e # t" "ind p = Suc i" by (cases "fns p"; cases "ind p") (auto simp: page_ok_def)
  show ?thesis using assms snoc p e
    by (simp add: atexit_register_cleanup_def wr_def os_good_def live_def slots_def used_def handler_def
        atexit_ok_def page_ok_def matching_def)
qed

section \<open>Sequences of calls\<close>

datatype exit_call = Register nat nat nat | Finalize nat

fun exit_run ::
  "os_answers \<Rightarrow> (nat \<Rightarrow> nat \<Rightarrow> (nat \<times> nat \<times> nat) list) \<Rightarrow> atexit_state \<Rightarrow> exit_call list \<Rightarrow> (nat \<times> nat) list option" where
  "exit_run os regs st [] = Some []"
| "exit_run os regs st (Register f a d # cs) = do { (st', r) \<leftarrow> cxa_atexit os st f a d; exit_run os regs st' cs }"
| "exit_run os regs st (Finalize d # cs) =
    do { (st', calls) \<leftarrow> cxa_finalize os regs st d; rest \<leftarrow> exit_run os regs st' cs; Some (calls @ rest) }"

text \<open>
  The same on the list \<open>L\<close> of the handlers to be called, oldest first. \<open>valid\<close> tells that a handler was registered, \<open>clean\<close>
  that no shared object was finalized, so that the list is given up when all handlers have been called; the handlers
  that run add those they register.
\<close>

fun exit_spec :: "(nat \<Rightarrow> nat \<Rightarrow> (nat \<times> nat \<times> nat) list) \<Rightarrow> bool \<times> bool \<times> atexit_fn list \<Rightarrow> exit_call list \<Rightarrow> (nat \<times> nat) list" where
  "exit_spec regs S [] = []"
| "exit_spec regs (valid, clean, L) (Register f a d # cs) = exit_spec regs (True, clean, L @ [handler (f, a, d)]) cs"
| "exit_spec regs (valid, clean, L) (Finalize d # cs) =
    (if \<not> valid then exit_spec regs (valid, clean, L) cs
     else
       let calls = map call_of (rev (filter (matching d) L));
           L' = filter (\<lambda>e. \<not> matching d e) L @ concat (map (\<lambda>(f, a). map handler (regs f a)) calls)
       in calls @ exit_spec regs (valid, clean \<and> d = 0, if clean \<and> d = 0 then [] else L') cs)"

lemma exit_run_exact:
  assumes "os_good os" "atexit_ok st" "0 \<le> call_depth st"
  shows "exit_run os regs st cs = Some (exit_spec regs (\<not> atexit_invalid st, call_depth st = 0, live st) cs)"
  using assms(2,3)
proof (induction cs arbitrary: st)
  case (Cons c cs)
  show ?case
  proof (cases c)
    case (Register f a d)
    obtain st' where "cxa_atexit os st f a d = Some (st', 0)" "atexit_ok st'" "live st' = live st @ [handler (f, a, d)]"
        "call_depth st' = call_depth st" "\<not> atexit_invalid st'"
      using cxa_atexit_live [OF assms(1) Cons.prems(1), of f a d] by blast
    then show ?thesis using Cons.IH [of st'] Cons.prems Register by simp
  next
    case (Finalize d)
    show ?thesis
    proof (cases "atexit_invalid st")
      case True
      then show ?thesis using Cons.IH [of st] Cons.prems Finalize by (simp add: cxa_finalize_def)
    next
      case False
      let ?calls = "map call_of (rev (filter (matching d) (live st)))"
      obtain st' where st': "cxa_finalize os regs st d = Some (st', ?calls)" "atexit_ok st'"
          "live st' = (if d = 0 \<and> call_depth st = 0 then [] else filter (\<lambda>e. \<not> matching d e) (live st) @
            concat (map (\<lambda>(f, a). map handler (regs f a)) ?calls))"
          "call_depth st' = (if d = 0 then call_depth st else call_depth st + 1)" "\<not> atexit_invalid st'"
        using cxa_finalize_live [OF assms(1) Cons.prems(1) False, of regs d] by blast
      then show ?thesis using Cons.IH [of st'] Cons.prems Finalize False by (auto simp: Let_def)
    qed
  qed
qed simp

definition atexit_init :: atexit_state where
  "atexit_init = \<lparr>atexit_list = [], atexit_invalid = True, call_depth = 0\<rparr>"



text \<open>A handler that a handler registers during \<open>exit\<close> is never called.\<close>

lemma late_handler_lost:
  "exit_run \<lparr>pgsize = 4096, mmap_ok = True, unprotect_ok = True, protect_ok = True\<rparr>
    (\<lambda>f a. if f = 1 then [(2, 0, 0)] else []) atexit_init [Register 1 0 0, Finalize 0, Finalize 0] = Some [(1, 0)]"
  by code_simp

text \<open>After a shared object was unloaded, \<open>exit\<close> does not release the pages.\<close>

lemma unload_keeps_pages:
  assumes "os_good os" "atexit_ok st" "\<not> atexit_invalid st" "0 \<le> call_depth st" "dso \<noteq> 0"
  shows "\<exists>st1 st2 c1 c2. cxa_finalize os regs st dso = Some (st1, c1) \<and> cxa_finalize os regs st1 0 = Some (st2, c2) \<and>
    0 < call_depth st2"
  using cxa_finalize_live [OF assms(1-3), of regs dso] assms(4,5) cxa_finalize_live [OF assms(1), of _ regs 0] by fastforce

end
