(* ===== verification/Base64.thy ===== *)
theory Base64
  imports Cstring
begin

unbundle bit_operations_syntax

text \<open>
  Base 64, \<open>libc/netbsd/net/base64.c\<close>. The target is the list of the bytes of its array, and the functions return it with
  their result; an access outside of an array is \<open>None\<close>, and so is a failed \<open>assert\<close>. The result \<open>-1\<close> is \<open>Inl ()\<close>.
\<close>

section \<open>The functions\<close>

definition Base64_chars :: "u8 list" where
  "Base64_chars =
    [65, 66, 67, 68, 69, 70, 71, 72, 73, 74, 75, 76, 77, 78, 79, 80,
     81, 82, 83, 84, 85, 86, 87, 88, 89, 90, 97, 98, 99, 100, 101, 102,
     103, 104, 105, 106, 107, 108, 109, 110, 111, 112, 113, 114, 115, 116, 117, 118,
     119, 120, 121, 122, 48, 49, 50, 51, 52, 53, 54, 55, 56, 57, 43, 47, 0]"

abbreviation (input) Pad64 :: u8 where "Pad64 \<equiv> 61"

text \<open>The six-bit values of a group, with the assignments to an \<open>u_char\<close>.\<close>

definition output0 :: "u8 \<Rightarrow> u8" where "output0 a = drop_bit 2 a"

definition output1 :: "u8 \<Rightarrow> u8 \<Rightarrow> u8" where "output1 a b = push_bit 4 (a AND 0x03) + drop_bit 4 b"

definition output2 :: "u8 \<Rightarrow> u8 \<Rightarrow> u8" where "output2 b c = push_bit 2 (b AND 0x0f) + drop_bit 6 c"

definition output3 :: "u8 \<Rightarrow> u8" where "output3 c = c AND 0x3f"

text \<open>\<open>Base64[output]\<close> after the assertion that it is below 64.\<close>

definition b64_char :: "u8 \<Rightarrow> u8 option" where
  "b64_char v = (if v < 64 then rd Base64_chars (unat v) else None)"

text \<open>Four characters are stored if there is room.\<close>

definition put4 :: "u8 list \<Rightarrow> nat \<Rightarrow> nat \<Rightarrow> u8 list \<Rightarrow> (unit + u8 list) option" where
  "put4 target targsize datalength cs =
    (if datalength + 4 > targsize then Some (Inl ()) else map_option Inr (blit target datalength cs))"

definition b64_ntop_end :: "u8 list \<Rightarrow> nat \<Rightarrow> nat \<Rightarrow> ((unit + nat) \<times> u8 list) option" where
  "b64_ntop_end target targsize datalength =
    (if datalength \<ge> targsize then Some (Inl (), target)
     else do { t \<leftarrow> wr target datalength 0; Some (Inr datalength, t) })"

text \<open>The loop over groups of three bytes, and the last group.\<close>

fun b64_ntop_loop :: "u8 list \<Rightarrow> nat \<Rightarrow> u8 list \<Rightarrow> nat \<Rightarrow> nat \<Rightarrow> ((unit + nat) \<times> u8 list) option" where
  "b64_ntop_loop src srclength target targsize datalength =
    (if 2 < srclength then
       (case src of
         a # b # c # src' \<Rightarrow>
           do {
             c0 \<leftarrow> b64_char (output0 a);
             c1 \<leftarrow> b64_char (output1 a b);
             c2 \<leftarrow> b64_char (output2 b c);
             c3 \<leftarrow> b64_char (output3 c);
             t \<leftarrow> put4 target targsize datalength [c0, c1, c2, c3];
             (case t of
               Inl _ \<Rightarrow> Some (Inl (), target)
             | Inr t \<Rightarrow> b64_ntop_loop src' (srclength - 3) t targsize (datalength + 4))
           }
       | _ \<Rightarrow> None)
     else if srclength \<noteq> 0 then
       do {
         i0 \<leftarrow> rd src 0;
         i1 \<leftarrow> (if srclength = 1 then Some 0 else rd src 1);
         c0 \<leftarrow> b64_char (output0 i0);
         c1 \<leftarrow> b64_char (output1 i0 i1);
         c2 \<leftarrow> b64_char (output2 i1 0);
         t \<leftarrow> put4 target targsize datalength [c0, c1, if srclength = 1 then Pad64 else c2, Pad64];
         (case t of
           Inl _ \<Rightarrow> Some (Inl (), target)
         | Inr t \<Rightarrow> b64_ntop_end t targsize (datalength + 4))
       }
     else b64_ntop_end target targsize datalength)"

declare b64_ntop_loop.simps [simp del]

definition b64_ntop :: "u8 list \<Rightarrow> nat \<Rightarrow> u8 list \<Rightarrow> nat \<Rightarrow> ((unit + nat) \<times> u8 list) option" where
  "b64_ntop src srclength target targsize = b64_ntop_loop src srclength target targsize 0"

text \<open>The end of \<open>b64_pton\<close> after a padding character: white space up to the end.\<close>

fun b64_spaces :: "u8 list \<Rightarrow> bool option" where
  "b64_spaces [] = None"
| "b64_spaces (ch # src) = (if ch = 0 then Some True else if isspace (uint ch) \<noteq> 0 then b64_spaces src else Some False)"

text \<open>The second padding character after white space: what follows it, or \<open>Inl\<close>.\<close>

fun b64_second :: "u8 list \<Rightarrow> (unit + u8 list) option" where
  "b64_second [] = None"
| "b64_second (ch # src) =
    (if ch \<noteq> 0 \<and> isspace (uint ch) \<noteq> 0 then b64_second src
     else if ch \<noteq> Pad64 then Some (Inl ()) else Some (Inr src))"

definition b64_pad :: "u8 list \<Rightarrow> u8 list \<Rightarrow> nat \<Rightarrow> nat \<Rightarrow> ((unit + nat) \<times> u8 list) option" where
  "b64_pad src target state tarindex =
    (if state = 0 \<or> state = 1 then Some (Inl (), target)
     else do {
       s \<leftarrow> (if state = 2 then b64_second src else Some (Inr src));
       (case s of
         Inl _ \<Rightarrow> Some (Inl (), target)
       | Inr src \<Rightarrow>
           do {
             ok \<leftarrow> b64_spaces src;
             if \<not> ok then Some (Inl (), target)
             else do { t \<leftarrow> rd target tarindex; Some (if t \<noteq> 0 then Inl () else Inr tarindex, target) }
           })
     })"

text \<open>One character in the four states: the new target, state and index, or \<open>Inl\<close>.\<close>

definition b64_put ::
  "u8 list \<Rightarrow> nat \<Rightarrow> nat \<Rightarrow> nat \<Rightarrow> u8 \<Rightarrow> (unit + u8 list \<times> nat \<times> nat) option" where
  "b64_put target targsize state tarindex v =
    (if state = 0 then
       if tarindex \<ge> targsize then Some (Inl ())
       else do { t \<leftarrow> wr target tarindex (push_bit 2 v); Some (Inr (t, 1, tarindex)) }
     else if state = 1 then
       if tarindex + 1 \<ge> targsize then Some (Inl ())
       else do {
         c \<leftarrow> rd target tarindex;
         t \<leftarrow> wr target tarindex (c OR drop_bit 4 v);
         t \<leftarrow> wr t (tarindex + 1) (push_bit 4 (v AND 0x0f));
         Some (Inr (t, 2, tarindex + 1))
       }
     else if state = 2 then
       if tarindex + 1 \<ge> targsize then Some (Inl ())
       else do {
         c \<leftarrow> rd target tarindex;
         t \<leftarrow> wr target tarindex (c OR drop_bit 2 v);
         t \<leftarrow> wr t (tarindex + 1) (push_bit 6 (v AND 0x03));
         Some (Inr (t, 3, tarindex + 1))
       }
     else
       if tarindex \<ge> targsize then Some (Inl ())
       else do {
         c \<leftarrow> rd target tarindex;
         t \<leftarrow> wr target tarindex (c OR v);
         Some (Inr (t, 0, tarindex + 1))
       })"

fun b64_pton_loop :: "u8 list \<Rightarrow> u8 list \<Rightarrow> nat \<Rightarrow> nat \<Rightarrow> nat \<Rightarrow> ((unit + nat) \<times> u8 list) option" where
  "b64_pton_loop [] target targsize state tarindex = None"
| "b64_pton_loop (ch # src) target targsize state tarindex =
    (if ch = 0 then Some (if state \<noteq> 0 then Inl () else Inr tarindex, target)
     else if isspace (uint ch) \<noteq> 0 then b64_pton_loop src target targsize state tarindex
     else if ch = Pad64 then b64_pad src target state tarindex
     else
       (case strchr Base64_chars (uint ch) of
         None \<Rightarrow> None
       | Some None \<Rightarrow> Some (Inl (), target)
       | Some (Some pos) \<Rightarrow>
           do {
             r \<leftarrow> b64_put target targsize state tarindex (of_nat pos);
             (case r of
               Inl _ \<Rightarrow> Some (Inl (), target)
             | Inr (t, state, tarindex) \<Rightarrow> b64_pton_loop src t targsize state tarindex)
           }))"

definition b64_pton :: "u8 list \<Rightarrow> u8 list \<Rightarrow> nat \<Rightarrow> ((unit + nat) \<times> u8 list) option" where
  "b64_pton src target targsize = b64_pton_loop src target targsize 0 0"

section \<open>Encoding by numbers\<close>

definition char64 :: "nat \<Rightarrow> u8" where
  "char64 d = Base64_chars ! d"

text \<open>Three bytes are a number of 24 bits, written with four digits; the last digits of an incomplete group are padded.\<close>

definition num24 :: "u8 \<Rightarrow> u8 \<Rightarrow> u8 \<Rightarrow> nat" where
  "num24 a b c = unat a * 65536 + unat b * 256 + unat c"

definition quad64 :: "nat \<Rightarrow> u8 list" where
  "quad64 v = [char64 (v div 262144), char64 (v div 4096 mod 64), char64 (v div 64 mod 64), char64 (v mod 64)]"

fun enc64 :: "u8 list \<Rightarrow> u8 list" where
  "enc64 (a # b # c # s) = quad64 (num24 a b c) @ enc64 s"
| "enc64 [a, b] = take 3 (quad64 (num24 a b 0)) @ [Pad64]"
| "enc64 [a] = take 2 (quad64 (num24 a 0 0)) @ [Pad64, Pad64]"
| "enc64 [] = []"

lemma enc64_length: "length (enc64 s) = 4 * ((length s + 2) div 3)"
proof (induction s rule: enc64.induct)
  case (1 a b c s)
  have "length (a # b # c # s) + 2 = length s + 2 + 3" by simp
  then have "(length (a # b # c # s) + 2) div 3 = (length s + 2) div 3 + 1" by (simp only: div_add_self2 zero_neq_numeral simp_thms)
  then show ?case using 1 by (simp add: quad64_def)
qed (simp_all add: quad64_def)

lemma unat_lt: "unat (a :: u8) < 256"
  using unsigned_less [of a, where 'a = nat] by simp

lemma unat_out:
  "unat (output0 a) = unat a div 4" "unat (output1 a b) = unat a mod 4 * 16 + unat b div 16"
  "unat (output2 b c) = unat b mod 16 * 4 + unat c div 64" "unat (output3 c) = unat c mod 64"
proof -
  have m: "unat (x AND 0x03) = unat x mod 4" "unat (x AND 0x0f) = unat x mod 16" "unat (x AND 0x3f) = unat x mod 64" for x :: u8
  proof -
    have "x AND 0x03 = take_bit 2 x" "x AND 0x0f = take_bit 4 x" "x AND 0x3f = take_bit 6 x"
      by (simp_all add: take_bit_eq_mask mask_eq_exp_minus_1)
    then show "unat (x AND 0x03) = unat x mod 4" "unat (x AND 0x0f) = unat x mod 16" "unat (x AND 0x3f) = unat x mod 64"
      by (simp_all add: unat_mod take_bit_eq_mod)
  qed
  have d: "unat (drop_bit k x) = unat x div 2 ^ k" for k and x :: u8
    unfolding unsigned_drop_bit_eq by (simp add: drop_bit_eq_div take_bit_eq_mod mod_less [OF unat_lt])
  have p: "unat (push_bit k x) = unat x * 2 ^ k mod 256" for k and x :: u8
    unfolding unsigned_push_bit_eq by (simp add: push_bit_eq_mult take_bit_eq_mod)
  show "unat (output0 a) = unat a div 4" by (simp add: output0_def d)
  show "unat (output3 c) = unat c mod 64" by (simp add: output3_def m)
  have b: "unat b div 16 < 16" "unat c div 64 < 4" using unat_lt [of b] unat_lt [of c] by (simp_all add: less_mult_imp_div_less)
  have "unat a mod 4 \<le> 3" "unat b mod 16 \<le> 15" by simp_all
  then have "unat a mod 4 * 16 + unat b div 16 < 256" "unat b mod 16 * 4 + unat c div 64 < 256" using b by linarith+
  moreover have "unat (output1 a b) = (unat a mod 4 * 2 ^ 4 mod 256 + unat b div 2 ^ 4) mod 2 ^ LENGTH(8)"
    "unat (output2 b c) = (unat b mod 16 * 2 ^ 2 mod 256 + unat c div 2 ^ 6) mod 2 ^ LENGTH(8)"
    unfolding output1_def output2_def unat_word_ariths(1) p d m by (rule refl)+
  ultimately show "unat (output1 a b) = unat a mod 4 * 16 + unat b div 16" "unat (output2 b c) = unat b mod 16 * 4 + unat c div 64"
    by simp_all
qed

lemma char64_table:
  "list_all (\<lambda>d. 43 \<le> uint (char64 d) \<and> char64 d \<noteq> 61 \<and> strchr Base64_chars (uint (char64 d)) = Some (Some d)) [0..<64]"
  by code_simp

lemma char64_facts:
  assumes "d < 64"
  shows "char64 d \<noteq> 0" "isspace (uint (char64 d)) = 0" "char64 d \<noteq> 61" "strchr Base64_chars (uint (char64 d)) = Some (Some d)"
proof -
  have t: "43 \<le> uint (char64 d) \<and> char64 d \<noteq> 61 \<and> strchr Base64_chars (uint (char64 d)) = Some (Some d)"
    using char64_table assms unfolding list_all_iff set_upt by (meson atLeastLessThan_iff le0)
  then show "char64 d \<noteq> 61" "strchr Base64_chars (uint (char64 d)) = Some (Some d)" by blast+
  have "0 \<le> uint (char64 d)" "uint (char64 d) \<le> 255" using uint_lt2p [of "char64 d"] by simp_all
  then show "isspace (uint (char64 d)) = 0" using isspace_iff [of "uint (char64 d)"] t by auto
  show "char64 d \<noteq> 0" using t by auto
qed

lemma b64_char_eq: "unat v < 64 \<Longrightarrow> b64_char v = Some (char64 (unat v))"
  by (simp add: b64_char_def char64_def rd_def Base64_chars_def word_less_nat_alt)

text \<open>The digits of the numbers are the values the code computes.\<close>

lemma digits64:
  fixes a b c :: nat
  assumes "a < 256" "b < 256" "c < 256"
  defines "v \<equiv> a * 65536 + b * 256 + c"
  shows "v div 262144 = a div 4" "v div 4096 mod 64 = a mod 4 * 16 + b div 16" "v div 64 mod 64 = b mod 16 * 4 + c div 64"
    "v mod 64 = c mod 64"
proof -
  obtain a1 a0 where a: "a = a1 * 4 + a0" "a0 < 4" using div_mod_decomp [of a 4] by (metis mod_less_divisor zero_less_numeral)
  obtain b1 b0 where b: "b = b1 * 16 + b0" "b0 < 16" using div_mod_decomp [of b 16] by (metis mod_less_divisor zero_less_numeral)
  obtain c1 c0 where c: "c = c1 * 64 + c0" "c0 < 64" using div_mod_decomp [of c 64] by (metis mod_less_divisor zero_less_numeral)
  have l: "b1 < 16" "c1 < 4" "a1 < 64" using assms(1-3) a b c by simp_all
  have d: "(q * k + r) div k = q" "(q * k + r) mod k = r" if "r < k" for q k r :: nat using that by simp_all
  have "v = a1 * 262144 + (a0 * 65536 + b * 256 + c)" "v = (a * 16 + b1) * 4096 + (b0 * 256 + c)"
    "v = (a * 1024 + b * 4 + c1) * 64 + c0" by (simp_all add: v_def a b c)
  then have q: "v div 262144 = a1" "v div 4096 = a * 16 + b1" "v div 64 = a * 1024 + b * 4 + c1"
    using d(1) [of "a0 * 65536 + b * 256 + c" 262144 a1] d(1) [of "b0 * 256 + c" 4096 "a * 16 + b1"]
      d(1) [of c0 64 "a * 1024 + b * 4 + c1"] a(2) b(2) c(2) assms(2,3) by simp_all
  show "v div 262144 = a div 4" using q(1) a by simp
  have "v div 4096 mod 64 = (a1 * 64 + (a0 * 16 + b1)) mod 64" unfolding q(2) by (simp add: a(1) algebra_simps)
  also have "\<dots> = a0 * 16 + b1" by (rule d(2)) (use a(2) l in simp)
  finally show "v div 4096 mod 64 = a mod 4 * 16 + b div 16" using a b by simp
  have "v div 64 mod 64 = ((a * 16 + b1) * 64 + (b0 * 4 + c1)) mod 64" unfolding q(3) by (simp add: b(1) algebra_simps)
  also have "\<dots> = b0 * 4 + c1" by (rule d(2)) (use b(2) l in simp)
  finally show "v div 64 mod 64 = b mod 16 * 4 + c div 64" using b c by simp
  have "v = (a * 1024 + b * 4) * 64 + c" by (simp add: v_def)
  then show "v mod 64 = c mod 64" by (simp only: mod_mult_self3)
qed

lemmas digits_word = digits64 [OF unat_lt unat_lt unat_lt, folded unat_out]
lemma output_lt: "unat (output0 a) < 64" "unat (output1 a b) < 64" "unat (output2 b c) < 64" "unat (output3 c) < 64"
proof -
  have "unat a div 4 < 64" "unat b div 16 < 16" "unat c div 64 < 4"
    using unat_lt [of a] unat_lt [of b] unat_lt [of c] by (simp_all add: less_mult_imp_div_less)
  moreover have "unat a mod 4 \<le> 3" "unat b mod 16 \<le> 15" by simp_all
  ultimately show "unat (output0 a) < 64" "unat (output1 a b) < 64" "unat (output2 b c) < 64" "unat (output3 c) < 64"
    unfolding unat_out by (simp, linarith, linarith, simp)
qed

definition out64 :: "u8 \<Rightarrow> u8 \<Rightarrow> u8 \<Rightarrow> u8 list" where
  "out64 a b c = [char64 (unat (output0 a)), char64 (unat (output1 a b)), char64 (unat (output2 b c)), char64 (unat (output3 c))]"

lemma quad64_out [simp]: "quad64 (num24 a b c) = out64 a b c"
  unfolding quad64_def num24_def digits_word out64_def ..

text \<open>What \<open>b64_ntop\<close> does: the encoding, if it fits with the final null character.\<close>

lemma put4_eq: "targsize \<le> length target \<Longrightarrow> length cs = 4 \<Longrightarrow> put4 target targsize d cs =
    Some (if d + 4 > targsize then Inl () else Inr (take d target @ cs @ drop (d + 4) target))"
  by (simp add: put4_def blit_def)

lemma drop_upd0: "d < length t \<Longrightarrow> (drop d t)[0 := x] = x # drop (Suc d) t"
  by (simp add: Cons_nth_drop_Suc [symmetric])

lemma b64_ntop_loop_exact:
  assumes "targsize \<le> length target" "d \<le> targsize"
  shows "\<exists>t. b64_ntop_loop (s @ r) (length s) target targsize d =
      Some (if d + length (enc64 s) < targsize then Inr (d + length (enc64 s)) else Inl (), t) \<and> length t = length target \<and>
    (d + length (enc64 s) < targsize \<longrightarrow> t = take d target @ enc64 s @ 0 # drop (d + length (enc64 s) + 1) target)"
  using assms
proof (induction s arbitrary: target d rule: enc64.induct)
  case (1 a b c s)
  note c = b64_char_eq [OF output_lt(1)] b64_char_eq [OF output_lt(2)] b64_char_eq [OF output_lt(3)] b64_char_eq [OF output_lt(4)]
  show ?case
  proof (cases "d + 4 > targsize")
    case True
    then show ?thesis using 1(2) by (subst b64_ntop_loop.simps) (simp add: c put4_eq out64_def)
  next
    case False
    let ?t = "take d target @ out64 a b c @ drop (d + 4) target"
    have t: "targsize \<le> length ?t" "d + 4 \<le> targsize" "length ?t = length target" using False 1(2) by (simp_all add: out64_def)
    have step: "b64_ntop_loop ((a # b # c # s) @ r) (length (a # b # c # s)) target targsize d =
        b64_ntop_loop (s @ r) (length s) ?t targsize (d + 4)"
      using False 1(2) by (subst b64_ntop_loop.simps) (simp add: c put4_eq out64_def)
    have tk: "take (d + 4) ?t = take d target @ out64 a b c" using t(2) 1(2) by (simp add: out64_def)
    have dr: "drop (d + 4 + k) ?t = drop (d + 4 + k) target" for k
    proof -
      have "drop (d + 4) ?t = drop (d + 4) target" using t(2) 1(2) by (simp add: out64_def)
      then show ?thesis by (metis add.commute drop_drop)
    qed
    have len: "d + length (enc64 (a # b # c # s)) = d + 4 + length (enc64 s)" by (simp add: out64_def)
    obtain t' where t': "b64_ntop_loop (s @ r) (length s) ?t targsize (d + 4) =
        Some (if d + 4 + length (enc64 s) < targsize then Inr (d + 4 + length (enc64 s)) else Inl (), t')" "length t' = length ?t"
        "d + 4 + length (enc64 s) < targsize \<longrightarrow> t' = take (d + 4) ?t @ enc64 s @ 0 # drop (d + 4 + length (enc64 s) + 1) ?t"
      using 1(1) [OF t(1,2)] by blast
    have dr': "drop (d + 4 + length (enc64 s) + 1) ?t = drop (d + 4 + length (enc64 s) + 1) target"
      using dr [of "length (enc64 s) + 1"] by (simp only: add.assoc)
    have e: "enc64 (a # b # c # s) = out64 a b c @ enc64 s" by simp
    show ?thesis
      unfolding step len using t' t(3) unfolding tk dr' e by (intro exI [of _ t']) simp
  qed
next
  case (2 a b)
  then show ?case
    using b64_char_eq [OF output_lt(1)] b64_char_eq [OF output_lt(2)] b64_char_eq [OF output_lt(3)]
    by (subst b64_ntop_loop.simps) (auto simp: put4_eq rd_def b64_ntop_end_def wr_def out64_def list_update_append drop_upd0 numeral_eq_Suc)
next
  case (3 a)
  then show ?case
    using b64_char_eq [OF output_lt(1)] b64_char_eq [OF output_lt(2)] b64_char_eq [OF output_lt(3)]
    by (subst b64_ntop_loop.simps) (auto simp: put4_eq rd_def b64_ntop_end_def wr_def out64_def list_update_append drop_upd0 numeral_eq_Suc)
next
  case 4
  then show ?case
    by (subst b64_ntop_loop.simps) (auto simp: b64_ntop_end_def wr_def upd_conv_take_nth_drop)
qed

section \<open>Decoding\<close>

lemma decode_bits:
  "push_bit 2 (output0 a) OR drop_bit 4 (output1 a b) = a"
  "push_bit 4 (output1 a b AND 0x0f) OR drop_bit 2 (output2 b c) = b"
  "push_bit 6 (output2 b c AND 0x03) OR output3 c = c"
proof -
  have m: "x AND 0x03 = take_bit 2 x" "x AND 0x0f = take_bit 4 x" "x AND 0x3f = take_bit 6 x" for x :: u8
    by (simp_all add: take_bit_eq_mask mask_eq_exp_minus_1)
  have or1: "output1 a b = push_bit 4 (take_bit 2 a) OR drop_bit 4 b" for a b
    unfolding output1_def m by (rule disjunctive_add) (auto simp: bit_simps dest: bit_imp_le_length)
  have or2: "output2 b c = push_bit 2 (take_bit 4 b) OR drop_bit 6 c" for b c
    unfolding output2_def m by (rule disjunctive_add) (auto simp: bit_simps dest: bit_imp_le_length)
  have two: "2 \<le> n \<Longrightarrow> Suc (Suc (n - 2)) = n" for n by simp
  show "push_bit 2 (output0 a) OR drop_bit 4 (output1 a b) = a"
    unfolding or1 output0_def
  proof (rule bit_word_eqI)
    show "bit (push_bit 2 (drop_bit 2 a) OR drop_bit 4 (push_bit 4 (take_bit 2 a) OR drop_bit 4 b)) n = bit a n"
      if "n < LENGTH(8)" for n
      using that by (cases "2 \<le> n") (auto simp: bit_simps two dest: bit_imp_le_length)
  qed
  show "push_bit 4 (output1 a b AND 0x0f) OR drop_bit 2 (output2 b c) = b"
    unfolding or1 or2 m by (rule bit_word_eqI) (auto simp: bit_simps)
  show "push_bit 6 (output2 b c AND 0x03) OR output3 c = c"
    unfolding or2 output3_def m by (rule bit_word_eqI) (auto simp: bit_simps)
qed

lemma pton_char:
  "unat v < 64 \<Longrightarrow> b64_pton_loop (char64 (unat v) # src) target targsize state i =
    (b64_put target targsize state i v \<bind> (\<lambda>r. case r of
      Inl _ \<Rightarrow> Some (Inl (), target)
    | Inr (t, state, tarindex) \<Rightarrow> b64_pton_loop src t targsize state tarindex))"
  by (simp add: char64_facts)

lemmas pton_out = pton_char [OF output_lt(1)] pton_char [OF output_lt(2)] pton_char [OF output_lt(3)] pton_char [OF output_lt(4)]

lemma upd2: "i + 1 < length t \<Longrightarrow> t[i := x, i + 1 := y] = take i t @ [x, y] @ drop (i + 2) t"
  by (rule nth_equalityI) (auto simp: nth_list_update nth_append nth_Cons' intro!: arg_cong [where f = "nth t"])

lemma upd3: "i + 2 < length t \<Longrightarrow> t[i := x, i + 1 := y, i + 2 := z] = take i t @ [x, y, z] @ drop (i + 3) t"
  by (rule nth_equalityI) (auto simp: nth_list_update nth_append nth_Cons')

lemma decode_zero: "push_bit 4 (output1 a 0 AND 0x0f) = 0" "push_bit 6 (output2 b 0 AND 0x03) = 0"
  using decode_bits(2) [of a 0 0] decode_bits(3) [of b 0] by (simp_all add: or_eq_0_iff)

text \<open>A whole group, and the two kinds of incomplete groups.\<close>

lemma pton_group:
  assumes "targsize \<le> length target" "i + 3 \<le> targsize"
  shows "b64_pton_loop (out64 a b c @ src) target targsize 0 i =
    b64_pton_loop src (take i target @ [a, b, c] @ drop (i + 3) target) targsize 0 (i + 3)"
proof -
  have e: "target[i := push_bit 2 (output0 a), i := push_bit 2 (output0 a) OR drop_bit 4 (output1 a b),
      i + 1 := push_bit 4 (output1 a b AND 0x0f), i + 1 := push_bit 4 (output1 a b AND 0x0f) OR drop_bit 2 (output2 b c),
      i + 2 := push_bit 6 (output2 b c AND 0x03), i + 2 := push_bit 6 (output2 b c AND 0x03) OR output3 c] =
      take i target @ [a, b, c] @ drop (i + 3) target"
    unfolding list_update_overwrite decode_bits by (rule upd3) (use assms in simp)
  show ?thesis
    unfolding e [symmetric] out64_def using assms
    by (simp add: pton_out b64_put_def wr_def rd_def numeral_3_eq_3 numeral_2_eq_2 del: b64_pton_loop.simps)
qed

lemma pad_facts: "isspace 61 = 0"
  using isspace_iff [of 61] by simp

lemma pton_one:
  assumes "targsize \<le> length target" "i + 2 \<le> targsize"
  shows "b64_pton_loop (enc64 [a] @ 0 # r) target targsize 0 i = Some (Inr (i + 1), take i target @ [a, 0] @ drop (i + 2) target)"
proof -
  have e: "target[i := push_bit 2 (output0 a), i := push_bit 2 (output0 a) OR drop_bit 4 (output1 a 0),
      i + 1 := push_bit 4 (output1 a 0 AND 0x0f)] = take i target @ [a, 0] @ drop (i + 2) target"
    unfolding list_update_overwrite decode_bits decode_zero by (rule upd2) (use assms in simp)
  have t: "(take i target @ [a, 0] @ drop (i + 2) target) ! Suc i = 0" using assms by (simp add: nth_append)
  have "b64_pton_loop (enc64 [a] @ 0 # r) target targsize 0 i =
      b64_pton_loop (Pad64 # Pad64 # 0 # r) (take i target @ [a, 0] @ drop (i + 2) target) targsize 2 (i + 1)"
    unfolding e [symmetric] using assms
    by (simp add: out64_def pton_out b64_put_def wr_def rd_def numeral_2_eq_2 del: b64_pton_loop.simps)
  then show ?thesis using assms t by (simp add: pad_facts b64_pad_def rd_def)
qed

lemma pton_two:
  assumes "targsize \<le> length target" "i + 3 \<le> targsize"
  shows "b64_pton_loop (enc64 [a, b] @ 0 # r) target targsize 0 i = Some (Inr (i + 2), take i target @ [a, b, 0] @ drop (i + 3) target)"
proof -
  have e: "target[i := push_bit 2 (output0 a), i := push_bit 2 (output0 a) OR drop_bit 4 (output1 a b),
      i + 1 := push_bit 4 (output1 a b AND 0x0f), i + 1 := push_bit 4 (output1 a b AND 0x0f) OR drop_bit 2 (output2 b 0),
      i + 2 := push_bit 6 (output2 b 0 AND 0x03)] = take i target @ [a, b, 0] @ drop (i + 3) target"
    unfolding list_update_overwrite decode_bits decode_zero by (rule upd3) (use assms in simp)
  have t: "(take i target @ [a, b, 0] @ drop (i + 3) target) ! Suc (Suc i) = 0" using assms by (simp add: nth_append)
  have "b64_pton_loop (enc64 [a, b] @ 0 # r) target targsize 0 i =
      b64_pton_loop (Pad64 # 0 # r) (take i target @ [a, b, 0] @ drop (i + 3) target) targsize 3 (i + 2)"
    unfolding e [symmetric] using assms
    by (simp add: out64_def pton_out b64_put_def wr_def rd_def numeral_3_eq_3 numeral_2_eq_2 del: b64_pton_loop.simps)
  then show ?thesis using assms t by (simp add: pad_facts b64_pad_def rd_def)
qed

text \<open>Where the target is too small; an incomplete group needs one byte more than it stores.\<close>

definition room64 :: "u8 list \<Rightarrow> nat" where
  "room64 s = length s + (if length s mod 3 = 0 then 0 else 1)"

lemma pton_small:
  assumes "targsize \<le> length target" "i \<le> targsize" "s = [a] \<and> targsize < i + 2 \<or> s = [a, b] \<and> targsize < i + 3 \<or> s = a # b # c # s' \<and> targsize < i + 3"
  shows "\<exists>t. b64_pton_loop (enc64 s @ 0 # r) target targsize 0 i = Some (Inl (), t)"
  using assms
  by (auto simp: out64_def pton_out b64_put_def wr_def rd_def not_le simp del: b64_pton_loop.simps)

lemma room64_Cons: "room64 (a # b # c # s) = room64 s + 3"
proof -
  have "length (a # b # c # s) = length s + 3" by simp
  then have "length (a # b # c # s) mod 3 = length s mod 3" by (simp only: mod_add_self2)
  then show ?thesis by (simp add: room64_def)
qed

lemma b64_pton_loop_exact:
  assumes "targsize \<le> length target" "i \<le> targsize"
  shows "\<exists>t. b64_pton_loop (enc64 s @ 0 # r) target targsize 0 i =
      Some (if i + room64 s \<le> targsize then Inr (i + length s) else Inl (), t) \<and>
    (i + room64 s \<le> targsize \<longrightarrow> t = take i target @ s @ replicate (room64 s - length s) 0 @ drop (i + room64 s) target)"
  using assms
proof (induction s arbitrary: target i rule: enc64.induct)
  case (1 a b c s)
  show ?case
  proof (cases "i + 3 \<le> targsize")
    case True
    let ?t = "take i target @ [a, b, c] @ drop (i + 3) target"
    have t: "targsize \<le> length ?t" using 1(2) True by simp
    have step: "b64_pton_loop (enc64 (a # b # c # s) @ 0 # r) target targsize 0 i = b64_pton_loop (enc64 s @ 0 # r) ?t targsize 0 (i + 3)"
      using pton_group [OF 1(2) True] by simp
    have tk: "take (i + 3) ?t = take i target @ [a, b, c]" using 1(2) True by simp
    have "drop (i + 3) ?t = drop (i + 3) target" using 1(2) True by simp
    then have dr: "drop (i + 3 + k) ?t = drop (i + 3 + k) target" for k by (metis add.commute drop_drop)
    obtain t' where t': "b64_pton_loop (enc64 s @ 0 # r) ?t targsize 0 (i + 3) =
        Some (if i + 3 + room64 s \<le> targsize then Inr (i + 3 + length s) else Inl (), t')"
        "i + 3 + room64 s \<le> targsize \<longrightarrow>
          t' = take (i + 3) ?t @ s @ replicate (room64 s - length s) 0 @ drop (i + 3 + room64 s) ?t"
      using 1(1) [OF t True] by blast
    have e: "i + room64 (a # b # c # s) = i + 3 + room64 s" "i + length (a # b # c # s) = i + 3 + length s"
      "room64 (a # b # c # s) - length (a # b # c # s) = room64 s - length s" by (simp_all add: room64_Cons)
    show ?thesis unfolding step e using t' unfolding tk dr by (intro exI [of _ t']) simp
  next
    case False
    then have "\<not> i + room64 (a # b # c # s) \<le> targsize" by (simp add: room64_Cons)
    then show ?thesis using pton_small [OF 1(2,3), of "a # b # c # s" a b c s r] False by auto
  qed
next
  case (2 a b)
  have r: "room64 [a, b] = 3" by (simp add: room64_def)
  show ?case
  proof (cases "i + 3 \<le> targsize")
    case True
    then show ?thesis using pton_two [OF 2(1) True, of a b r] r by simp
  next
    case False
    then show ?thesis using pton_small [OF 2, of "[a, b]" a b a "[]" r] r by auto
  qed
next
  case (3 a)
  have r: "room64 [a] = 2" by (simp add: room64_def)
  show ?case
  proof (cases "i + 2 \<le> targsize")
    case True
    then show ?thesis using pton_one [OF 3(1) True, of a r] r by simp
  next
    case False
    then show ?thesis using pton_small [OF 3, of "[a]" a a a "[]" r] r by auto
  qed
next
  case 4
  then show ?case by (simp add: room64_def)
qed

text \<open>
  C33. Base 64: \<open>b64_ntop\<close> writes the digits of the 24-bit numbers with their padding and a null character, exactly where
  they fit into the target, and never beyond it; \<open>b64_pton\<close> turns what was written back into the bytes, exactly where
  the target has room, which for an incomplete last group is one byte more than the bytes.
\<close>

theorem base64_round_trip:
  assumes "targsize \<le> length target" "size2 \<le> length target2"
  shows "\<exists>res t. b64_ntop (s @ r) (length s) target targsize = Some (res, t) \<and> length t = length target \<and>
    (if 4 * ((length s + 2) div 3) < targsize then
       res = Inr (4 * ((length s + 2) div 3)) \<and>
       t = enc64 s @ 0 # drop (4 * ((length s + 2) div 3) + 1) target \<and>
       (\<exists>res2 t2. b64_pton t target2 size2 = Some (res2, t2) \<and>
         (if room64 s \<le> size2
          then res2 = Inr (length s) \<and> take (length s) t2 = s \<and> drop (room64 s) t2 = drop (room64 s) target2
          else res2 = Inl ()))
     else res = Inl ())"
proof -
  obtain t where t: "b64_ntop (s @ r) (length s) target targsize =
      Some (if length (enc64 s) < targsize then Inr (length (enc64 s)) else Inl (), t)" "length t = length target"
      "length (enc64 s) < targsize \<longrightarrow> t = enc64 s @ 0 # drop (length (enc64 s) + 1) target"
    using b64_ntop_loop_exact [OF assms(1), of 0 s r] by (auto simp: b64_ntop_def)
  have p: "\<exists>res2 t2. b64_pton (enc64 s @ 0 # r2) target2 size2 = Some (res2, t2) \<and>
      (if room64 s \<le> size2
       then res2 = Inr (length s) \<and> take (length s) t2 = s \<and> drop (room64 s) t2 = drop (room64 s) target2
       else res2 = Inl ())" for r2
  proof -
    have "length s \<le> room64 s" by (simp add: room64_def)
    then show ?thesis
      using b64_pton_loop_exact [OF assms(2), of 0 s r2] by (cases "room64 s \<le> size2") (auto simp: b64_pton_def)
  qed
  show ?thesis
  proof (cases "length (enc64 s) < targsize")
    case True
    then have e: "t = enc64 s @ 0 # drop (length (enc64 s) + 1) target" using t(3) by simp
    show ?thesis
      unfolding enc64_length [symmetric]
      using t(1,2) True p [of "drop (length (enc64 s) + 1) target"] unfolding e [symmetric]
      by (intro exI [of _ "Inr (length (enc64 s))"] exI [of _ t]) simp
  next
    case False
    then show ?thesis using t(1,2) by (simp add: enc64_length)
  qed
qed

theorem base64_round_trip_witness:
  "\<exists>t t2. b64_ntop ([77, 97, 110, 46] @ []) (length [77, 97, 110, 46 :: u8]) (replicate 9 1) 9 = Some (Inr 8, t) \<and>
    b64_pton t (replicate 5 1) 5 = Some (Inr (length [77, 97, 110, 46 :: u8]), t2) \<and>
    take (length [77, 97, 110, 46 :: u8]) t2 = [77, 97, 110, 46]"
proof -
  define s :: "u8 list" where "s = [77, 97, 110, 46]"
  have c: "4 * ((length s + 2) div 3) = 8" "room64 s \<le> 5" by (simp_all add: s_def room64_def)
  show ?thesis
    unfolding s_def [symmetric]
    using base64_round_trip [of 9 "replicate 9 1" 5 "replicate 5 1" s "[]"] c by fastforce
qed

text \<open>The room for one byte is not enough to decode one byte.\<close>

lemma b64_pton_needs_more: "b64_pton [81, 81, 61, 61, 0] [1] 1 = Some (Inl (), [64])"
  by code_simp

end
