(* ===== verification/Path_Name.thy ===== *)
theory Path_Name
  imports Cstring
begin

text \<open>
  Path names, \<open>libc/bionic/basename_r.c\<close> and \<open>dirname_r.c\<close>. A path is null or the list of its bytes with the final null
  character; pointers into it are offsets. The buffer is null or the list of its bytes. An access
  outside of an array is \<open>None\<close>; the value returned comes with the new buffer and \<open>errno\<close>, if it is set.
\<close>

section \<open>The functions\<close>

abbreviation (input) ERANGE :: int where "ERANGE \<equiv> 34"

abbreviation (input) ENAMETOOLONG :: int where "ENAMETOOLONG \<equiv> 36"

abbreviation (input) MAXPATHLEN :: nat where "MAXPATHLEN \<equiv> 4096"

text \<open>\<open>while (endp > path && *endp == '/') endp--\<close>\<close>

fun strip_end :: "u8 list \<Rightarrow> nat \<Rightarrow> nat option" where
  "strip_end path 0 = Some 0"
| "strip_end path (Suc e) = (case rd path (Suc e) of None \<Rightarrow> None | Some c \<Rightarrow> if c = 47 then strip_end path e else Some (Suc e))"

text \<open>\<open>while (startp > path && *(startp - 1) != '/') startp--\<close>\<close>

fun base_start :: "u8 list \<Rightarrow> nat \<Rightarrow> nat option" where
  "base_start path 0 = Some 0"
| "base_start path (Suc s) = (case rd path s of None \<Rightarrow> None | Some c \<Rightarrow> if c \<noteq> 47 then base_start path s else Some (Suc s))"

text \<open>\<open>while (endp > path && *endp != '/') endp--\<close>\<close>

fun dir_end :: "u8 list \<Rightarrow> nat \<Rightarrow> nat option" where
  "dir_end path 0 = Some 0"
| "dir_end path (Suc e) = (case rd path (Suc e) of None \<Rightarrow> None | Some c \<Rightarrow> if c \<noteq> 47 then dir_end path e else Some (Suc e))"

text \<open>The common end of both functions: \<open>len\<close> bytes of \<open>src\<close> go into the buffer, or as many as fit. The size is
  cast to \<open>int\<close>; \<open>INT_MIN - 1\<close> is an overflow.\<close>

definition path_exit :: "u8 list \<Rightarrow> nat \<Rightarrow> u8 list option \<Rightarrow> u32 \<Rightarrow> (int \<times> int option \<times> u8 list option) option" where
  "path_exit src len buffer bufflen =
    (case buffer of
      None \<Rightarrow> Some (int len, None, None)
    | Some b \<Rightarrow>
        let (result, err, l) = (if int len > sint bufflen - 1 then (- 1, Some ERANGE, sint bufflen - 1) else (int len, None, int len))
        in if bufflen = 0x80000000 then None
           else if l \<ge> 0 then
             do { bs \<leftarrow> rdn src 0 (nat l); b1 \<leftarrow> blit b 0 bs; b2 \<leftarrow> wr b1 (nat l) 0; Some (result, err, Some b2) }
           else Some (result, err, Some b))"

definition basename_r :: "u8 list option \<Rightarrow> u8 list option \<Rightarrow> u32 \<Rightarrow> (int \<times> int option \<times> u8 list option) option" where
  "basename_r path buffer bufflen =
    (case path of
      None \<Rightarrow> path_exit [46, 0] 1 buffer bufflen
    | Some p \<Rightarrow>
        do {
          c \<leftarrow> rd p 0;
          if c = 0 then path_exit [46, 0] 1 buffer bufflen
          else do {
            n \<leftarrow> strlen p;
            endp \<leftarrow> strip_end p (n - 1);
            ce \<leftarrow> rd p endp;
            if endp = 0 \<and> ce = 47 then path_exit [47, 0] 1 buffer bufflen
            else do {
              startp \<leftarrow> base_start p endp;
              path_exit (drop startp p) (endp - startp + 1) buffer bufflen
            }
          }
        })"

definition dirname_exit :: "u8 list \<Rightarrow> nat \<Rightarrow> u8 list option \<Rightarrow> u32 \<Rightarrow> (int \<times> int option \<times> u8 list option) option" where
  "dirname_exit src len buffer bufflen =
    (if len + 1 > MAXPATHLEN then Some (- 1, Some ENAMETOOLONG, buffer) else path_exit src len buffer bufflen)"

definition dirname_r :: "u8 list option \<Rightarrow> u8 list option \<Rightarrow> u32 \<Rightarrow> (int \<times> int option \<times> u8 list option) option" where
  "dirname_r path buffer bufflen =
    (case path of
      None \<Rightarrow> dirname_exit [46, 0] 1 buffer bufflen
    | Some p \<Rightarrow>
        do {
          c \<leftarrow> rd p 0;
          if c = 0 then dirname_exit [46, 0] 1 buffer bufflen
          else do {
            n \<leftarrow> strlen p;
            endp \<leftarrow> strip_end p (n - 1);
            endp \<leftarrow> dir_end p endp;
            ce \<leftarrow> rd p endp;
            if endp = 0 then dirname_exit (if ce = 47 then [47, 0] else [46, 0]) 1 buffer bufflen
            else do {
              endp \<leftarrow> strip_end p (endp - 1);
              dirname_exit p (endp + 1) buffer bufflen
            }
          }
        })"

text \<open>
  \<open>basename\<close> and \<open>dirname\<close> write into a static buffer, null at first and allocated by the first call: \<open>mem\<close> is what
  \<open>malloc\<close> returns for \<open>MAXPATHLEN\<close> bytes. The value is null or the buffer, which comes with the new static variable and \<open>errno\<close>.
\<close>

definition static_path ::
  "(u8 list option \<Rightarrow> u32 \<Rightarrow> (int \<times> int option \<times> u8 list option) option) \<Rightarrow> u8 list option \<Rightarrow> u8 list option
    \<Rightarrow> (u8 list option \<times> u8 list option \<times> int option) option" where
  "static_path f mem bname =
    (case (case bname of None \<Rightarrow> mem | Some b \<Rightarrow> Some b) of
      None \<Rightarrow> Some (None, None, None)
    | Some b \<Rightarrow> do { (ret, err, b') \<leftarrow> f (Some b) 4096; Some (if ret < 0 then None else b', b', err) })"

definition basename :: "u8 list option \<Rightarrow> u8 list option \<Rightarrow> u8 list option \<Rightarrow> (u8 list option \<times> u8 list option \<times> int option) option" where
  "basename mem bname path = static_path (basename_r path) mem bname"

definition dirname :: "u8 list option \<Rightarrow> u8 list option \<Rightarrow> u8 list option \<Rightarrow> (u8 list option \<times> u8 list option \<times> int option) option" where
  "dirname mem bname path = static_path (dirname_r path) mem bname"

section \<open>The parts of a path\<close>

text \<open>A directory part, slashes, a last component, and slashes.\<close>

definition path_parts :: "u8 list \<Rightarrow> u8 list \<Rightarrow> nat \<Rightarrow> u8 list \<Rightarrow> nat \<Rightarrow> bool" where
  "path_parts s pre k base j \<longleftrightarrow> s = pre @ replicate k 47 @ base @ replicate j 47 \<and> base \<noteq> [] \<and> 47 \<notin> set base \<and>
    (pre = [] \<or> last pre \<noteq> 47 \<and> 0 < k)"

lemma split_slashes: "\<exists>a j. s = a @ replicate j 47 \<and> (a = [] \<or> last a \<noteq> (47 :: u8))"
proof (induction s rule: rev_induct)
  case (snoc c s)
  then obtain a j where s: "s = a @ replicate j 47" "a = [] \<or> last a \<noteq> 47" by blast
  show ?case
  proof (cases "c = 47")
    case True
    then have "s @ [c] = a @ replicate (Suc j) 47" using s(1) by (simp add: replicate_append_same)
    then show ?thesis using s(2) by blast
  next
    case False
    then have "s @ [c] = (s @ [c]) @ replicate 0 47 \<and> last (s @ [c]) \<noteq> 47" by simp
    then show ?thesis by blast
  qed
qed simp

lemma split_base: "\<exists>d b. s = d @ b \<and> (47 :: u8) \<notin> set b \<and> (d = [] \<or> last d = 47)"
proof (induction s rule: rev_induct)
  case (snoc c s)
  then obtain d b where "s = d @ b" "47 \<notin> set b" "d = [] \<or> last d = 47" by blast
  then show ?case by (cases "c = 47") (auto intro: exI [of _ d] exI [of _ "b @ [c]"] exI [of _ "s @ [c]"] exI [of _ "[]"])
qed simp

lemma path_parts_exist: "(\<exists>j. s = replicate j 47) \<or> (\<exists>pre k base j. path_parts s pre k base j)"
proof -
  obtain a j where a: "s = a @ replicate j 47" "a = [] \<or> last a \<noteq> 47" using split_slashes by blast
  obtain d b where d: "a = d @ b" "47 \<notin> set b" "d = [] \<or> last d = 47" using split_base by blast
  obtain pre k where p: "d = pre @ replicate k 47" "pre = [] \<or> last pre \<noteq> 47" using split_slashes by blast
  show ?thesis
  proof (cases "b = []")
    case True
    then show ?thesis using a d by auto
  next
    case False
    have "pre = [] \<or> 0 < k" using p d(3) by (cases k) auto
    then have "path_parts s pre k b j" using a(1) d(1,2) p False by (auto simp: path_parts_def)
    then show ?thesis by blast
  qed
qed

lemma strip_end_slashes:
  "a \<noteq> [] \<Longrightarrow> last a \<noteq> 47 \<Longrightarrow> strip_end (a @ replicate j 47 @ r) (length a + j - 1) = Some (length a - 1)"
proof (induction j arbitrary: r)
  case 0
  obtain n where n: "length a = Suc n" using 0 by (cases a) auto
  then show ?case using 0 by (cases n) (auto simp: rd_def nth_append last_conv_nth)
next
  case (Suc j)
  obtain n where n: "length a + j = Suc n" using Suc.prems by (cases "length a + j") auto
  have "a @ replicate (Suc j) 47 @ r = a @ replicate j 47 @ 47 # r" by (simp add: replicate_app_Cons_same)
  moreover have "rd (a @ replicate j 47 @ 47 # r) (Suc n) = Some 47" using n by (simp add: rd_def nth_append)
  ultimately show ?case using Suc.IH [OF Suc.prems, of "47 # r"] n by simp
qed

lemma strip_end_all: "strip_end (replicate (Suc j) 47 @ r) j = Some 0"
proof -
  have "strip_end (replicate m 47 @ r) j = Some 0" if "j < m" for m
    using that by (induction j) (auto simp: rd_def nth_append)
  then show ?thesis by blast
qed

lemma base_start_exact:
  "47 \<notin> set b \<Longrightarrow> d = [] \<or> last d = 47 \<Longrightarrow> base_start (d @ b @ r) (length d + length b) = Some (length d)"
proof (induction b arbitrary: r rule: rev_induct)
  case Nil
  then show ?case by (cases d rule: rev_cases) (auto simp: rd_def nth_append)
next
  case (snoc c b)
  then show ?case using snoc.IH [of "c # r"] by (auto simp: rd_def nth_append)
qed

lemma dir_end_slash:
  "47 \<notin> set b \<Longrightarrow> dir_end (d @ 47 # b @ r) (length d + length b) = Some (length d)"
proof (induction b arbitrary: r rule: rev_induct)
  case Nil
  then show ?case by (cases "length d") (auto simp: rd_def nth_append)
next
  case (snoc c b)
  then show ?case using snoc.IH [of "c # r"] by (auto simp: rd_def nth_append)
qed

lemma dir_end_none: "47 \<notin> set b \<Longrightarrow> n < length b \<Longrightarrow> dir_end (b @ r) n = Some 0"
  by (induction n) (auto simp: rd_def nth_append in_set_conv_nth)

section \<open>What a caller gets\<close>

text \<open>The room that a caller has to give: a null buffer, or one of at least as many bytes as it says.\<close>

definition room :: "u8 list option \<Rightarrow> u32 \<Rightarrow> bool" where
  "room buffer bufflen \<longleftrightarrow> (case buffer of None \<Rightarrow> True | Some b \<Rightarrow> bufflen < 0x80000000 \<and> unat bufflen \<le> length b)"

text \<open>A text as it is delivered: whole, or cut at the size of the buffer, but always with its null character.\<close>

definition delivered :: "u8 list \<Rightarrow> u8 list option \<Rightarrow> u32 \<Rightarrow> int \<times> int option \<times> u8 list option" where
  "delivered t buffer bufflen =
    (case buffer of
      None \<Rightarrow> (int (length t), None, None)
    | Some b \<Rightarrow>
        if length t < unat bufflen then (int (length t), None, Some (t @ 0 # drop (Suc (length t)) b))
        else (- 1, Some ERANGE, Some (if bufflen = 0 then b else take (unat bufflen - 1) t @ 0 # drop (unat bufflen) b)))"

definition dir_delivered :: "u8 list \<Rightarrow> u8 list option \<Rightarrow> u32 \<Rightarrow> int \<times> int option \<times> u8 list option" where
  "dir_delivered t buffer bufflen =
    (if length t + 1 > MAXPATHLEN then (- 1, Some ENAMETOOLONG, buffer) else delivered t buffer bufflen)"

lemma blit_wr:
  assumes "length t < length b"
  shows "Option.bind (blit b 0 t) (\<lambda>b1. Option.bind (wr b1 (length t) 0) f) = f (t @ 0 # drop (Suc (length t)) b)"
  using assms by (auto simp: blit_def wr_def list_update_append Cons_nth_drop_Suc [symmetric])

lemma sint_small: "(n :: u32) < 0x80000000 \<Longrightarrow> sint n = int (unat n)"
proof -
  assume "n < 0x80000000"
  moreover have "- 2147483648 \<le> uint n" by (rule order_trans [OF _ uint_ge_0]) simp
  ultimately show ?thesis by (simp add: sint_uint word_less_def signed_take_bit_int_eq_self_iff)
qed

lemma path_exit_exact:
  assumes "room buffer bufflen"
  shows "path_exit (t @ r) (length t) buffer bufflen = Some (delivered t buffer bufflen)"
proof (cases buffer)
  case None
  then show ?thesis by (simp add: path_exit_def delivered_def)
next
  case (Some b)
  obtain n where n: "unat bufflen = n" "sint bufflen = int n" "bufflen \<noteq> 0x80000000" "n \<le> length b" "bufflen = 0 \<longleftrightarrow> n = 0"
    using assms Some by (auto simp: room_def sint_small unat_eq_zero simp del: of_nat_unat)
  consider "length t < n" | "n \<le> length t" "n = 0" | l where "n = Suc l" "l < length t"
    by (cases n) (auto, metis not_less_eq)
  then show ?thesis
  proof cases
    case 1
    then show ?thesis using blit_wr [of t b] n Some by (auto simp: path_exit_def delivered_def rdn_def)
  next
    case 2
    then show ?thesis using n Some by (simp add: path_exit_def delivered_def)
  next
    case 3
    then have "Option.bind (blit b 0 (take l t)) (\<lambda>b1. Option.bind (wr b1 l 0) f) = f (take l t @ 0 # drop n b)" "rdn (t @ r) 0 l = Some (take l t)" for f
      using blit_wr [of "take l t" b] n by (simp_all add: rdn_def)
    then show ?thesis using n Some 3 by (simp add: path_exit_def delivered_def)
  qed
qed

text \<open>The last component.\<close>

lemma basename_r_parts:
  assumes "path_parts s pre k base j" "0 \<notin> set s" "room buffer bufflen"
  shows "basename_r (Some (s @ 0 # r)) buffer bufflen = Some (delivered base buffer bufflen)"
proof -
  let ?d = "pre @ replicate k 47" and ?a = "pre @ replicate k 47 @ base"
  let ?p = "s @ 0 # r"
  have p: "?p = ?a @ replicate j 47 @ 0 # r" "?p = ?d @ base @ replicate j 47 @ 0 # r" "base \<noteq> []" "47 \<notin> set base"
    using assms by (auto simp: path_parts_def)
  have a: "?a \<noteq> []" "last ?a \<noteq> 47" "length s = length ?a + j" using p assms(1) last_in_set [of base] by (auto simp: path_parts_def simp del: last_in_set)
  have d: "?d = [] \<or> last ?d = 47" using assms(1) by (cases k) (auto simp: path_parts_def)
  obtain m where m: "length base = Suc m" using p(3) by (cases base) auto
  have e: "strip_end ?p (length s - 1) = Some (length ?d + m)"
    using strip_end_slashes [OF a(1,2), of j "0 # r"] p(1) a(3) m by (simp add: add.assoc)
  have b: "base_start ?p (length ?d + m) = Some (length ?d)"
  proof -
    obtain u x where u: "base = u @ [x]" using p(3) by (cases base rule: rev_cases) auto
    then show ?thesis using base_start_exact [OF _ d, of u "x # replicate j 47 @ 0 # r"] p(2,4) m by simp
  qed
  have nth: "rd ?p (length ?d + m) = Some (last base)"
    using m p(3) unfolding p(2) by (simp add: rd_def nth_append last_conv_nth)
  have c: "rd ?p 0 = Some (s ! 0)" "s ! 0 \<noteq> 0" using assms(2) a(1,3) by (auto simp: rd_def nth_append in_set_conv_nth)
  have "drop (length ?d) ?p = base @ replicate j 47 @ 0 # r" unfolding p(2) by simp
  then show ?thesis
    using c e b nth assms(2) a(2) p(3) path_exit_exact [OF assms(3), of base "replicate j 47 @ 0 # r"] m
    by (auto simp: basename_r_def)
qed

text \<open>The directory.\<close>

lemma dirname_r_step:
  assumes "rd p 0 = Some c" "c \<noteq> 0" "strlen p = Some n" "strip_end p (n - 1) = Some e" "dir_end p e = Some i" "rd p i = Some ce"
  shows "dirname_r (Some p) buffer bufflen =
    (if i = 0 then dirname_exit (if ce = 47 then [47, 0] else [46, 0]) 1 buffer bufflen
     else Option.bind (strip_end p (i - 1)) (\<lambda>l. dirname_exit p (l + 1) buffer bufflen))"
  using assms by (simp add: dirname_r_def)

lemma dirname_r_parts:
  assumes "path_parts s pre k base j" "0 \<notin> set s" "room buffer bufflen"
  shows "dirname_r (Some (s @ 0 # r)) buffer bufflen =
    Some (dir_delivered (if k = 0 then [46] else if pre = [] then [47] else pre) buffer bufflen)"
proof -
  let ?d = "pre @ replicate k 47" and ?a = "pre @ replicate k 47 @ base"
  let ?p = "s @ 0 # r"
  have p: "?p = ?a @ replicate j 47 @ 0 # r" "base \<noteq> []" "47 \<notin> set base"
    using assms by (auto simp: path_parts_def)
  have a: "?a \<noteq> []" "last ?a \<noteq> 47" "length s = length ?a + j" using p assms(1) last_in_set [of base] by (auto simp: path_parts_def simp del: last_in_set)
  obtain m where m: "length base = Suc m" using p(2) by (cases base) auto
  have e: "strip_end ?p (length s - 1) = Some (length ?d + m)"
    using strip_end_slashes [OF a(1,2), of j "0 # r"] p(1) a(3) m by (simp add: add.assoc)
  have c: "rd ?p 0 = Some (s ! 0)" "s ! 0 \<noteq> 0" using assms(2) a(1,3) by (auto simp: rd_def nth_append in_set_conv_nth)
  have out: "dirname_exit (t @ x) (length t) buffer bufflen = Some (dir_delivered t buffer bufflen)" for t x
    using path_exit_exact [OF assms(3), of t x] by (simp add: dirname_exit_def dir_delivered_def)
  have len: "strlen ?p = Some (length s)" using assms(2) by simp
  note step = dirname_r_step [OF c len e]
  show ?thesis
  proof (cases k)
    case 0
    then have "pre = []" "s ! 0 \<noteq> 47" using assms(1) by (auto simp: path_parts_def nth_append in_set_conv_nth)
    moreover have "dir_end ?p m = Some 0" if "pre = []" using dir_end_none [OF p(3), of m] p(1) m 0 that by simp
    ultimately show ?thesis using step [OF _ c(1)] 0 out [of "[46]" "[0]"] by simp
  next
    case (Suc i)
    let ?b = "pre @ replicate i 47"
    have q: "?p = ?b @ 47 # base @ replicate j 47 @ 0 # r" using p(1) Suc by (simp add: replicate_app_Cons_same)
    have f: "dir_end ?p (length ?d + m) = Some (length ?b)" using dir_end_slash [OF p(3), of ?b "replicate j 47 @ 0 # r"] q Suc m by simp
    have g: "rd ?p (length ?b) = Some 47" unfolding q by (simp add: rd_def nth_append)
    consider "?b = []" | "pre = []" "0 < i" | "pre \<noteq> []" by auto
    then show ?thesis
    proof cases
      case 1
      then show ?thesis using step [OF f g] Suc out [of "[47]" "[0]"] by simp
    next
      case 2
      then obtain h where h: "i = Suc h" by (cases i) auto
      have "strip_end ?p (length ?b - 1) = Some 0" using strip_end_all [of h "47 # base @ replicate j 47 @ 0 # r"] 2 h q by simp
      moreover have "\<exists>x. ?p = [47] @ x" using q 2 h by simp
      ultimately show ?thesis using step [OF f g] Suc 2 out [of "[47]"] by auto
    next
      case 3
      then have "last pre \<noteq> 47" using assms(1) by (auto simp: path_parts_def)
      then have "strip_end ?p (length ?b - 1) = Some (length pre - 1)"
        using strip_end_slashes [OF 3, of i "47 # base @ replicate j 47 @ 0 # r"] q by simp
      moreover obtain x where "?p = pre @ x" using q by auto
      ultimately show ?thesis using step [OF f g] Suc 3 out [of pre x] by simp
    qed
  qed
qed

text \<open>Null, the empty path, and a path of slashes.\<close>

lemma path_names_special:
  assumes "room buffer bufflen"
  shows "basename_r None buffer bufflen = Some (delivered [46] buffer bufflen)"
    and "basename_r (Some (0 # r)) buffer bufflen = Some (delivered [46] buffer bufflen)"
    and "basename_r (Some (replicate (Suc j) 47 @ 0 # r)) buffer bufflen = Some (delivered [47] buffer bufflen)"
    and "dirname_r None buffer bufflen = Some (dir_delivered [46] buffer bufflen)"
    and "dirname_r (Some (0 # r)) buffer bufflen = Some (dir_delivered [46] buffer bufflen)"
    and "dirname_r (Some (replicate (Suc j) 47 @ 0 # r)) buffer bufflen = Some (dir_delivered [47] buffer bufflen)"
proof -
  have b: "path_exit [c, 0] 1 buffer bufflen = Some (delivered [c] buffer bufflen)" for c
    using path_exit_exact [OF assms, of "[c]" "[0]"] by simp
  have d: "dirname_exit [c, 0] 1 buffer bufflen = Some (dir_delivered [c] buffer bufflen)" for c
    using b [of c] by (simp add: dirname_exit_def dir_delivered_def)
  let ?p = "replicate (Suc j) 47 @ 0 # r"
  have p: "rd ?p 0 = Some 47" "strlen ?p = Some (Suc j)" "strip_end ?p j = Some 0" by (simp_all add: rd_def strip_end_all del: replicate_Suc) simp
  show "basename_r None buffer bufflen = Some (delivered [46] buffer bufflen)"
    "basename_r (Some (0 # r)) buffer bufflen = Some (delivered [46] buffer bufflen)"
    "dirname_r None buffer bufflen = Some (dir_delivered [46] buffer bufflen)"
    "dirname_r (Some (0 # r)) buffer bufflen = Some (dir_delivered [46] buffer bufflen)"
    using b d by (simp_all add: basename_r_def dirname_r_def rd_def)
  show "basename_r (Some ?p) buffer bufflen = Some (delivered [47] buffer bufflen)"
    "dirname_r (Some ?p) buffer bufflen = Some (dir_delivered [47] buffer bufflen)"
    using b d p by (simp_all add: basename_r_def dirname_r_def del: replicate_Suc)
qed

text \<open>The static buffer holds every result of less than \<open>MAXPATHLEN\<close> bytes; a longer one is cut, and the value is null.\<close>

lemma static_path_exact:
  assumes "case bname of None \<Rightarrow> mem = Some b | Some c \<Rightarrow> c = b" "length b = MAXPATHLEN"
    and "f (Some b) 4096 = Some (delivered t (Some b) 4096)"
  shows "static_path f mem bname =
    (if length t < MAXPATHLEN then
       let b' = t @ 0 # drop (Suc (length t)) b in Some (Some b', Some b', None)
     else Some (None, Some (take 4095 t @ [0]), Some ERANGE))"
proof -
  have "(case bname of None \<Rightarrow> mem | Some b \<Rightarrow> Some b) = Some b" using assms(1) by (cases bname) auto
  then show ?thesis using assms(2,3) by (auto simp: static_path_def delivered_def Let_def)
qed

section \<open>The main result\<close>



end
