(* ===== verification/Inet4.thy ===== *)
theory Inet4
  imports Memcopy
begin

text \<open>
  The text of network addresses in four bytes, \<open>libc/inet/inet_pton.c\<close>, \<open>inet_ntop.c\<close>, \<open>inet_aton.c\<close>, \<open>inet_addr.c\<close> and
  \<open>inet_ntoa.c\<close>, and of Ethernet addresses, \<open>ether_aton.c\<close> and \<open>ether_ntoa.c\<close>. An address is the list of its bytes in
  memory, that is in network order; a text that is read is the list of the bytes from the pointer on, with its null
  character; a buffer that is written is an array with an offset. An access outside of an array is \<open>None\<close>. The
  contents that a local array has when the function starts are an argument. As on ARM, \<open>char\<close> is unsigned.
\<close>

section \<open>Formatted output\<close>

text \<open>
  \<open>snprintf\<close>, where \<open>t\<close> is the text that \<open>vfprintf\<close> makes of the format and its arguments: as much of it as fits goes into
  the array, with a null character, and the length of the whole text is returned.
\<close>

definition snprintf_text :: "u8 list \<Rightarrow> nat \<Rightarrow> nat \<Rightarrow> u8 list \<Rightarrow> (u8 list \<times> int) option" where
  "snprintf_text m str n t =
    (let n = (if int n > 0x7fffffff then 0x7fffffff else n)
     in if n = 0 then Some (m, int (length t))
        else do { m1 \<leftarrow> blit m str (take (n - 1) t @ [0]); Some (m1, int (length t)) })"

text \<open>The conversions \<open>%u\<close>, \<open>%x\<close> and \<open>%02x\<close>.\<close>

definition xdigit_char :: "nat \<Rightarrow> u8" where
  "xdigit_char d = word_of_nat (if d < 10 then 48 + d else 87 + d)"

fun fmt_base :: "nat \<Rightarrow> nat \<Rightarrow> u8 list" where
  "fmt_base b n = (if n < b \<or> b < 2 then [xdigit_char n] else fmt_base b (n div b) @ [xdigit_char (n mod b)])"

declare fmt_base.simps [simp del]

abbreviation fmt_u :: "nat \<Rightarrow> u8 list" where "fmt_u \<equiv> fmt_base 10"

abbreviation fmt_x :: "nat \<Rightarrow> u8 list" where "fmt_x \<equiv> fmt_base 16"

definition fmt_02x :: "nat \<Rightarrow> u8 list" where
  "fmt_02x n = (if length (fmt_x n) < 2 then 48 # fmt_x n else fmt_x n)"

section \<open>Dotted quads\<close>

abbreviation (input) ENOSPC :: int where "ENOSPC \<equiv> 28"

definition quad_text :: "u8 \<Rightarrow> u8 \<Rightarrow> u8 \<Rightarrow> u8 \<Rightarrow> u8 list" where
  "quad_text a b c d = fmt_u (unat a) @ 46 # fmt_u (unat b) @ 46 # fmt_u (unat c) @ 46 # fmt_u (unat d)"

text \<open>The value says whether the pointer returned is \<open>dst\<close> or null.\<close>

definition inet_ntop4 :: "u8 list \<Rightarrow> u8 list \<Rightarrow> nat \<Rightarrow> u8 list \<Rightarrow> nat \<Rightarrow> nat \<Rightarrow> (bool \<times> int option \<times> u8 list) option" where
  "inet_ntop4 stk src s m dst siz =
    do {
      a \<leftarrow> rd src s; b \<leftarrow> rd src (s + 1); c \<leftarrow> rd src (s + 2); d \<leftarrow> rd src (s + 3);
      (tmp, l) \<leftarrow> snprintf_text stk 0 siz (quad_text a b c d);
      if l \<le> 0 \<or> nat l \<ge> siz then Some (False, Some ENOSPC, m)
      else do { (m1, _) \<leftarrow> strlcpy m dst tmp siz; Some (True, None, m1) }
    }"

definition dec_digits :: "u8 list" where
  "dec_digits = [48, 49, 50, 51, 52, 53, 54, 55, 56, 57, 0]"

text \<open>The loop of \<open>inet_pton4\<close>; the inner \<open>None\<close> is \<open>return (0)\<close>.\<close>

fun pton4_loop :: "u8 list \<Rightarrow> u8 list \<Rightarrow> nat \<Rightarrow> bool \<Rightarrow> nat \<Rightarrow> (nat \<times> u8 list) option option" where
  "pton4_loop [] tmp tp saw_digit octets = None"
| "pton4_loop (ch # src) tmp tp saw_digit octets =
    (if ch = 0 then Some (Some (octets, tmp))
     else case strchr dec_digits (uint ch) of
       None \<Rightarrow> None
     | Some (Some pch) \<Rightarrow>
         do {
           v \<leftarrow> rd tmp tp;
           let new = unat v * 10 + pch;
           if new > 255 then Some None
           else if \<not> saw_digit \<and> octets + 1 > 4 then Some None
           else do {
             tmp \<leftarrow> wr tmp tp (word_of_nat new);
             pton4_loop src tmp tp True (if saw_digit then octets else octets + 1)
           }
         }
     | Some None \<Rightarrow>
         if ch = 46 \<and> saw_digit then
           if octets = 4 then Some None
           else do { tmp \<leftarrow> wr tmp (tp + 1) 0; pton4_loop src tmp (tp + 1) False octets }
         else Some None)"

definition inet_pton4 :: "u8 list \<Rightarrow> u8 list \<Rightarrow> u8 list \<Rightarrow> nat \<Rightarrow> (int \<times> u8 list) option" where
  "inet_pton4 stk src m dst =
    do {
      tmp \<leftarrow> wr stk 0 0;
      r \<leftarrow> pton4_loop src tmp 0 False 0;
      case r of
        None \<Rightarrow> Some (0, m)
      | Some (octets, tmp) \<Rightarrow>
          if octets < 4 then Some (0, m)
          else do { bs \<leftarrow> rdn tmp 0 4; m1 \<leftarrow> blit m dst bs; Some (1, m1) }
    }"

section \<open>The older functions\<close>

text \<open>
  The inner loop of \<open>inet_aton\<close>: the character \<open>c\<close> is the first of the list. It gives the number, modulo \<open>2\<^sup>3\<^sup>2\<close>, and the
  rest of the text.
\<close>

fun aton_digits :: "u32 \<Rightarrow> u32 \<Rightarrow> u8 list \<Rightarrow> (u32 \<times> u8 list) option" where
  "aton_digits base val [] = None"
| "aton_digits base val (c # cp) =
    (if isascii (uint c) \<and> isdigit (uint c) \<noteq> 0 then aton_digits base (val * base + (ucast c - 48)) cp
     else if base = 16 \<and> isascii (uint c) \<and> isxdigit (uint c) \<noteq> 0 then
       aton_digits base (push_bit 4 val OR (ucast c + 10 - (if islower (uint c) \<noteq> 0 then 97 else 65))) cp
     else Some (val, c # cp))"

definition aton_number :: "u8 list \<Rightarrow> (u32 \<times> u8 list) option option" where
  "aton_number cp =
    do {
      c \<leftarrow> rd cp 0;
      if isdigit (uint c) = 0 then Some None
      else if c = 48 then do {
        c \<leftarrow> rd cp 1;
        r \<leftarrow> (if c = 120 \<or> c = 88 then aton_digits 16 0 (drop 2 cp) else aton_digits 8 0 (drop 1 cp));
        Some (Some r)
      }
      else do { r \<leftarrow> aton_digits 10 0 cp; Some (Some r) }
    }"

text \<open>The outer loop; \<open>k\<close> more parts can be stored. It gives the parts, the last number and the rest.\<close>

fun aton_loop :: "nat \<Rightarrow> u32 list \<Rightarrow> u8 list \<Rightarrow> (u32 list \<times> u32 \<times> u8 list) option option" where
  "aton_loop k parts cp =
    do {
      n \<leftarrow> aton_number cp;
      case n of
        None \<Rightarrow> Some None
      | Some (val, cp) \<Rightarrow>
          do {
            c \<leftarrow> rd cp 0;
            if c = 46 then (case k of 0 \<Rightarrow> Some None | Suc k \<Rightarrow> aton_loop k (parts @ [val]) (drop 1 cp))
            else Some (Some (parts, val, cp))
          }
    }"

declare aton_loop.simps [simp del]

text \<open>The switch on the number of parts.\<close>

fun aton_concoct :: "u32 list \<Rightarrow> u32 \<Rightarrow> u32 option" where
  "aton_concoct [] val = Some val"
| "aton_concoct [p0] val = (if val > 0xffffff \<or> p0 > 0xff then None else Some (val OR push_bit 24 p0))"
| "aton_concoct [p0, p1] val =
    (if val > 0xffff \<or> p0 > 0xff \<or> p1 > 0xff then None else Some (val OR (push_bit 24 p0 OR push_bit 16 p1)))"
| "aton_concoct [p0, p1, p2] val =
    (if val > 0xff \<or> p0 > 0xff \<or> p1 > 0xff \<or> p2 > 0xff then None
     else Some (val OR (push_bit 24 p0 OR push_bit 16 p1 OR push_bit 8 p2)))"
| "aton_concoct parts val = Some val"

text \<open>The bytes of \<open>htonl\<close> in memory.\<close>

definition htonl_bytes :: "u32 \<Rightarrow> u8 list" where
  "htonl_bytes v = [ucast (drop_bit 24 v), ucast (drop_bit 16 v), ucast (drop_bit 8 v), ucast v]"

text \<open>\<open>addr\<close> is null or the four bytes it points to.\<close>

definition inet_aton :: "u8 list \<Rightarrow> u8 list option \<Rightarrow> (int \<times> u8 list option) option" where
  "inet_aton cp addr =
    do {
      r \<leftarrow> aton_loop 3 [] cp;
      case r of
        None \<Rightarrow> Some (0, addr)
      | Some (parts, val, cp) \<Rightarrow>
          do {
            c \<leftarrow> rd cp 0;
            if c \<noteq> 0 \<and> (\<not> isascii (uint c) \<or> isspace (uint c) = 0) then Some (0, addr)
            else (case aton_concoct parts val of
                None \<Rightarrow> Some (0, addr)
              | Some val \<Rightarrow> Some (1, map_option (\<lambda>_. htonl_bytes val) addr))
          }
    }"

definition inet_addr :: "u8 list \<Rightarrow> u8 list \<Rightarrow> u8 list option" where
  "inet_addr stk cp =
    do {
      (ok, val) \<leftarrow> inet_aton cp (Some stk);
      if ok \<noteq> 0 then val else Some [255, 255, 255, 255]
    }"

text \<open>\<open>b\<close> is the static buffer of \<open>18\<close> bytes.\<close>

definition inet_ntoa :: "u8 list \<Rightarrow> u8 list \<Rightarrow> u8 list option" where
  "inet_ntoa b p =
    do {
      p0 \<leftarrow> rd p 0; p1 \<leftarrow> rd p 1; p2 \<leftarrow> rd p 2; p3 \<leftarrow> rd p 3;
      (b, _) \<leftarrow> snprintf_text b 0 18 (quad_text p0 p1 p2 p3);
      Some b
    }"

section \<open>Ethernet addresses\<close>

definition xdigit :: "u8 \<Rightarrow> int" where
  "xdigit c =
    (let d = (uint c - 48) mod 2 ^ 32 in if d < 10 then d
     else let d = (uint c - 97) mod 2 ^ 32 in if d < 6 then 10 + d
     else let d = (uint c - 65) mod 2 ^ 32 in if d < 6 then 10 + d
     else - 1)"

text \<open>The loop for the \<open>k\<close> last bytes. The value says whether the pointer returned is \<open>addr\<close> or null.\<close>

fun ether_loop :: "nat \<Rightarrow> u8 list \<Rightarrow> u8 list \<Rightarrow> (bool \<times> u8 list) option" where
  "ether_loop 0 asc addr = do { c \<leftarrow> rd asc 0; Some (c = 0, addr) }"
| "ether_loop (Suc k) asc addr =
    do {
      c0 \<leftarrow> rd asc 0;
      if xdigit c0 < 0 then Some (False, addr)
      else do {
        c1 \<leftarrow> rd asc 1;
        if xdigit c1 < 0 then Some (False, addr)
        else do {
          addr \<leftarrow> wr addr (5 - k) (word_of_int (xdigit c0 * 16 + xdigit c1));
          if k > 0 then do {
            c \<leftarrow> rd asc 2;
            if c \<noteq> 58 then Some (False, addr) else ether_loop k (drop 3 asc) addr
          }
          else ether_loop k (drop 2 asc) addr
        }
      }
    }"

definition ether_aton_r :: "u8 list \<Rightarrow> u8 list \<Rightarrow> (bool \<times> u8 list) option" where
  "ether_aton_r asc addr = ether_loop 6 asc addr"

definition ether_ntoa_r :: "u8 list \<Rightarrow> u8 list \<Rightarrow> u8 list option" where
  "ether_ntoa_r addr buf =
    do {
      a0 \<leftarrow> rd addr 0; a1 \<leftarrow> rd addr 1; a2 \<leftarrow> rd addr 2; a3 \<leftarrow> rd addr 3; a4 \<leftarrow> rd addr 4; a5 \<leftarrow> rd addr 5;
      (buf, _) \<leftarrow> snprintf_text buf 0 18
        (fmt_02x (unat a0) @ 58 # fmt_02x (unat a1) @ 58 # fmt_02x (unat a2) @ 58 # fmt_02x (unat a3) @ 58 #
         fmt_02x (unat a4) @ 58 # fmt_02x (unat a5));
      Some buf
    }"

text \<open>\<open>ether_aton\<close> and \<open>ether_ntoa\<close> use a static variable, the first argument.\<close>

definition ether_aton :: "u8 list \<Rightarrow> u8 list \<Rightarrow> (bool \<times> u8 list) option" where
  "ether_aton addr asc = ether_aton_r asc addr"

definition ether_ntoa :: "u8 list \<Rightarrow> u8 list \<Rightarrow> u8 list option" where
  "ether_ntoa buf addr = ether_ntoa_r addr buf"

section \<open>Digits\<close>

lemma byte_le [simp]: "unat (b :: u8) \<le> 255"
  using unsigned_less [of b, where ?'a = nat] by simp

lemma unat_byte: "n \<le> 255 \<Longrightarrow> unat (word_of_nat n :: u8) = n"
  by (simp add: unat_of_nat)

definition is_dec :: "u8 \<Rightarrow> bool" where
  "is_dec c \<longleftrightarrow> 48 \<le> c \<and> c \<le> 57"

definition dec_of :: "u8 \<Rightarrow> nat" where
  "dec_of c = unat c - 48"

lemma strchr_byte: "strchr (a # p) (uint c) =
    (if c = a then Some (Some 0) else if a = 0 then Some None else map_option (map_option Suc) (strchr p (uint c)))"
proof -
  have "uint a = uint c \<longleftrightarrow> c = a" by (auto simp only: word_uint_eq_iff)
  then show ?thesis by (simp only: strchr.simps)
qed

lemma strchr_search:
  "0 \<notin> set p \<Longrightarrow> c \<noteq> 0 \<Longrightarrow> strchr (p @ 0 # r) (uint c) = Some (if c \<in> set p then Some (length (takeWhile (\<lambda>a. a \<noteq> c) p)) else None)"
  by (induction p) (auto simp: strchr_byte simp del: strchr.simps)

lemma is_dec_set: "is_dec c \<longleftrightarrow> c \<in> {48, 49, 50, 51, 52, 53, 54, 55, 56, 57}"
proof
  assume "is_dec c"
  then have "unat c \<in> {48, 49, 50, 51, 52, 53, 54, 55, 56, 57}" by (simp add: is_dec_def word_le_nat_alt) presburger
  then have "word_of_nat (unat c) \<in> (\<lambda>n. word_of_nat n :: u8) ` {48, 49, 50, 51, 52, 53, 54, 55, 56, 57}" by (rule imageI)
  then show "c \<in> {48, 49, 50, 51, 52, 53, 54, 55, 56, 57}" by simp
qed (auto simp: is_dec_def)

lemma strchr_dec: "c \<noteq> 0 \<Longrightarrow> strchr dec_digits (uint c) = Some (if is_dec c then Some (dec_of c) else None)"
  using strchr_search [of "[48, 49, 50, 51, 52, 53, 54, 55, 56, 57]" c "[]"] by (auto simp: is_dec_set dec_digits_def dec_of_def)

lemma xdigit_table:
  "list_all (\<lambda>n. xdigit (xdigit_char n) = int n \<and> (n < 10 \<longrightarrow> is_dec (xdigit_char n) \<and> dec_of (xdigit_char n) = n)) [0..<16]"
  by code_simp

section \<open>What is read as a dotted quad\<close>

text \<open>The parts of a text between full stops, and the number that a part stands for after the number \<open>v\<close>.\<close>

fun split_dots :: "u8 list \<Rightarrow> u8 list list" where
  "split_dots [] = [[]]"
| "split_dots (c # s) = (if c = 46 then [] # split_dots s else (c # hd (split_dots s)) # tl (split_dots s))"

definition dec_val :: "nat \<Rightarrow> u8 list \<Rightarrow> nat" where
  "dec_val v p = foldl (\<lambda>a c. a * 10 + dec_of c) v p"

lemma dec_val_simps [simp]: "dec_val v [] = v" "dec_val v (c # p) = dec_val (v * 10 + dec_of c) p"
  by (simp_all add: dec_val_def)

lemma dec_val_ge: "v \<le> dec_val v p"
proof (induction p arbitrary: v)
  case (Cons c p)
  have "v \<le> v * 10 + dec_of c" by simp
  also have "\<dots> \<le> dec_val v (c # p)" using Cons by simp
  finally show ?case .
qed simp

definition part_ok :: "u8 list \<Rightarrow> bool" where
  "part_ok p \<longleftrightarrow> p \<noteq> [] \<and> list_all is_dec p \<and> dec_val 0 p \<le> 255"

definition quad_ok :: "u8 list \<Rightarrow> bool" where
  "quad_ok s \<longleftrightarrow> length (split_dots s) = 4 \<and> list_all part_ok (split_dots s)"

definition quad_bytes :: "u8 list \<Rightarrow> u8 list" where
  "quad_bytes s = map (\<lambda>p. word_of_nat (dec_val 0 p)) (split_dots s)"

lemma split_dots_Cons: "split_dots s = hd (split_dots s) # tl (split_dots s)"
  by (cases s) auto

definition pton4_end :: "(nat \<times> u8 list) option \<Rightarrow> u8 list option" where
  "pton4_end r = (case r of None \<Rightarrow> None | Some (octets, tmp) \<Rightarrow> if octets < 4 then None else Some tmp)"

lemma is_dec_dot: "is_dec c \<Longrightarrow> c \<noteq> 46 \<and> c \<noteq> 0"
  by (auto simp: is_dec_def)

lemma pton4_loop_exact:
  assumes "0 \<notin> set s" "tp < 4" "length tmp = 4" "saw \<or> tmp ! tp = 0"
  shows "map_option pton4_end (pton4_loop (s @ 0 # r) tmp tp saw (if saw then tp + 1 else tp)) =
    Some (let p = hd (split_dots s); ps = tl (split_dots s); v = dec_val (unat (tmp ! tp)) p
      in if tp + length ps = 3 \<and> (saw \<or> p \<noteq> []) \<and> list_all is_dec p \<and> v \<le> 255 \<and> list_all part_ok ps
         then Some (take tp tmp @ word_of_nat v # map (\<lambda>p. word_of_nat (dec_val 0 p)) ps) else None)"
  using assms
proof (induction s arbitrary: tmp tp saw)
  case Nil
  then show ?case by (auto simp: pton4_end_def Let_def take_Suc_conv_app_nth [symmetric])
next
  case (Cons c s)
  then have c: "c \<noteq> 0" "strchr dec_digits (uint c) = Some (if is_dec c then Some (dec_of c) else None)"
    using strchr_dec by auto
  consider (big) "is_dec c" "\<not> unat (tmp ! tp) * 10 + dec_of c \<le> 255" | (digit) "is_dec c" "unat (tmp ! tp) * 10 + dec_of c \<le> 255"
    | (dot) "c = 46" "\<not> is_dec c" "saw" "tp < 3" | (bad) "\<not> is_dec c" "c = 46 \<longrightarrow> \<not> saw \<or> tp = 3"
    using Cons.prems(2) by (cases "tp = 3") (blast, fastforce)
  then show ?case
  proof cases
    case big
    then have "\<not> dec_val (unat (tmp ! tp) * 10 + dec_of c) p \<le> 255" for p using dec_val_ge order_trans by metis
    then show ?thesis using big c Cons.prems is_dec_dot [of c] by (simp add: rd_def pton4_end_def Let_def)
  next
    case digit
    let ?n = "unat (tmp ! tp) * 10 + dec_of c"
    have "pton4_loop ((c # s) @ 0 # r) tmp tp saw (if saw then tp + 1 else tp) =
        pton4_loop (s @ 0 # r) (tmp[tp := word_of_nat ?n]) tp True (tp + 1)"
      using digit c Cons.prems by (simp add: rd_def wr_def Let_def del: of_nat_add of_nat_mult)
    then show ?thesis using Cons.IH [of tp "tmp[tp := word_of_nat ?n]" True] unat_byte [OF digit(2)] digit(1) Cons.prems is_dec_dot [of c]
      by (auto simp: Let_def simp del: of_nat_add of_nat_mult)
  next
    case dot
    then show ?thesis using Cons.IH [of "tp + 1" "tmp[tp + 1 := 0]" False] c Cons.prems split_dots_Cons [of s]
      by (cases "split_dots s") (auto simp: wr_def part_ok_def take_Suc_conv_app_nth Let_def)
  next
    case bad
    then show ?thesis using c Cons.prems split_dots_Cons [of s] by (auto simp: pton4_end_def Let_def)
  qed
qed

text \<open>The function accepts the dotted quads and stores their bytes; it leaves the target alone otherwise.\<close>

lemma inet_pton4_exact:
  assumes "0 \<notin> set s" "length stk = 4" "dst + 4 \<le> length m"
  shows "inet_pton4 stk (s @ 0 # r) m dst =
    (if quad_ok s then Some (1, take dst m @ quad_bytes s @ drop (dst + 4) m) else Some (0, m))"
proof -
  have e: "map_option pton4_end (pton4_loop (s @ 0 # r) (stk[0 := 0]) 0 False 0) = Some (if quad_ok s then Some (quad_bytes s) else None)"
    using pton4_loop_exact [of s 0 "stk[0 := 0]" False r] assms split_dots_Cons [of s]
    by (cases "split_dots s") (auto simp: Let_def quad_ok_def quad_bytes_def part_ok_def)
  then obtain x where x: "pton4_loop (s @ 0 # r) (stk[0 := 0]) 0 False 0 = Some x" "pton4_end x = (if quad_ok s then Some (quad_bytes s) else None)"
    by auto
  have "length (quad_bytes s) = 4" if "quad_ok s" using that by (simp add: quad_ok_def quad_bytes_def)
  then show ?thesis using x assms
    by (auto simp: inet_pton4_def wr_def rdn_def blit_def pton4_end_def split: option.splits prod.splits if_splits)
qed

section \<open>What is printed\<close>

lemma xdigit_char_dec: "d < 10 \<Longrightarrow> is_dec (xdigit_char d) \<and> dec_of (xdigit_char d) = d"
  using xdigit_table by (simp add: list_all_iff)

lemma dec_val_append [simp]: "dec_val v (p @ q) = dec_val (dec_val v p) q"
  by (simp add: dec_val_def)

lemma fmt_u_dec: "list_all is_dec (fmt_u n) \<and> dec_val 0 (fmt_u n) = n \<and> fmt_u n \<noteq> []"
proof (induction "10 :: nat" n rule: fmt_base.induct)
  case (1 n)
  show ?case
  proof (cases "n < 10")
    case True
    then show ?thesis using xdigit_char_dec by (simp add: fmt_base.simps [of 10 n])
  next
    case False
    then show ?thesis using 1 xdigit_char_dec [of "n mod 10"] by (simp add: fmt_base.simps [of 10 n])
  qed
qed

lemma length_fmt: "n < b ^ Suc k \<Longrightarrow> 2 \<le> b \<Longrightarrow> length (fmt_base b n) \<le> Suc k"
proof (induction k arbitrary: n)
  case 0
  then show ?case by (simp add: fmt_base.simps [of b n])
next
  case (Suc k)
  have "n div b < b ^ Suc k" using Suc.prems by (simp add: less_mult_imp_div_less mult.commute)
  then show ?case using Suc by (simp add: fmt_base.simps [of b n])
qed

lemma split_dots_dec: "list_all is_dec p \<Longrightarrow> split_dots p = [p]" "list_all is_dec p \<Longrightarrow> split_dots (p @ 46 # s) = p # split_dots s"
  by (induction p) (auto dest: is_dec_dot)

lemma quad_text_ok: "quad_ok (quad_text a b c d)" "quad_bytes (quad_text a b c d) = [a, b, c, d]"
  using fmt_u_dec by (simp_all add: quad_ok_def quad_bytes_def quad_text_def split_dots_dec part_ok_def)

lemma quad_text_length: "length (quad_text a b c d) \<le> 15" "quad_text a b c d \<noteq> []" "0 \<notin> set (quad_text a b c d)"
proof -
  have "length (fmt_u (unat x)) \<le> 3" for x :: u8 using length_fmt [of "unat x" 10 2] byte_le [of x] by simp
  from this [of a] this [of b] this [of c] this [of d] show "length (quad_text a b c d) \<le> 15" by (simp add: quad_text_def)
  show "quad_text a b c d \<noteq> []" by (simp add: quad_text_def)
  have "0 \<notin> set (fmt_u n)" for n using fmt_u_dec [of n] is_dec_dot by (auto simp: list_all_iff)
  then show "0 \<notin> set (quad_text a b c d)" by (simp add: quad_text_def)
qed

text \<open>\<open>inet_ntop4\<close> writes the quad where it fits, and gives \<open>ENOSPC\<close> and leaves the target alone where it does not.\<close>

lemma snprintf_fits:
  assumes "str + length t < length m" "length t < n" "n < 2 ^ 31"
  shows "snprintf_text m str n t = Some (take str m @ t @ 0 # drop (str + length t + 1) m, int (length t))"
  using assms by (simp add: snprintf_text_def blit_def)

lemma inet_ntop4_exact:
  assumes "src = pre @ [a, b, c, d] @ post" "length stk = 16" "dst + siz \<le> length m" "siz < 2 ^ 31"
  shows "inet_ntop4 stk src (length pre) m dst siz =
    (let t = quad_text a b c d in
     if siz \<le> length t then Some (False, Some ENOSPC, m)
     else Some (True, None, take dst m @ t @ 0 # drop (dst + length t + 1) m))"
proof -
  let ?t = "quad_text a b c d"
  note t = quad_text_length [of a b c d]
  have r: "rd src (length pre) = Some a" "rd src (length pre + 1) = Some b" "rd src (length pre + 2) = Some c" "rd src (length pre + 3) = Some d"
    using assms(1) by (simp_all add: rd_def nth_append)
  show ?thesis
  proof (cases "siz \<le> length ?t")
    case True
    have "snprintf_text stk 0 siz ?t \<noteq> None \<and> (\<forall>x l. snprintf_text stk 0 siz ?t = Some (x, l) \<longrightarrow> l = int (length ?t))"
      using True t assms(2) by (auto simp: snprintf_text_def blit_def Let_def split: if_splits)
    then obtain x where "snprintf_text stk 0 siz ?t = Some (x, int (length ?t))" by auto
    then show ?thesis using r True by (simp add: inet_ntop4_def Let_def)
  next
    case False
    then have "snprintf_text stk 0 siz ?t = Some (?t @ 0 # drop (length ?t + 1) stk, int (length ?t))"
      using snprintf_fits [of 0 ?t stk siz] t assms by simp
    moreover obtain m1 where "strlcpy m dst (?t @ 0 # drop (length ?t + 1) stk) siz = Some (m1, length ?t)" "blit m dst (take (siz - 1) ?t @ [0]) = Some m1"
      using strlcpy_blit [OF t(3)] assms(3) False by (metis le0 le_zero_eq)
    ultimately show ?thesis using r t(2) False by (auto simp: inet_ntop4_def Let_def blit_def split: if_splits)
  qed
qed

section \<open>The older functions on a dotted quad\<close>

lemma uint_byte_range [simp]: "0 \<le> uint (c :: u8)" "uint (c :: u8) < 256"
  using uint_lt2p [of c] by simp_all

lemma isdigit_byte: "isdigit (uint c) \<noteq> 0 \<longleftrightarrow> is_dec c"
  by (subst isdigit_iff) (auto simp: is_dec_def word_le_def)

lemma isascii_dec: "is_dec c \<Longrightarrow> isascii (uint c)"
  by (simp add: is_dec_def isascii_def word_le_def)

lemma dec_word: "is_dec c \<Longrightarrow> (ucast c :: u32) - 48 = word_of_nat (dec_of c)"
  by (auto simp: is_dec_set dec_of_def)

lemma aton_digits_dec:
  "list_all is_dec p \<Longrightarrow> \<not> is_dec c \<Longrightarrow> base \<noteq> 16 \<Longrightarrow> base = 10 \<or> p = [] \<Longrightarrow>
    aton_digits base (word_of_nat v) (p @ c # r) = Some (word_of_nat (dec_val v p), c # r)"
proof (induction p arbitrary: v)
  case (Cons d p)
  then have "(word_of_nat v * base + (ucast d - 48) :: u32) = word_of_nat (v * 10 + dec_of d)" by (simp add: dec_word)
  then show ?case using Cons isdigit_byte [of d] isascii_dec [of d] by (simp del: of_nat_add of_nat_mult)
qed (use isdigit_byte [of c] in auto)

lemma fmt_u_head: "n \<noteq> 0 \<Longrightarrow> hd (fmt_u n) \<noteq> 48"
proof (induction "10 :: nat" n rule: fmt_base.induct)
  case (1 n)
  have "d = 0" if "d < 10" "xdigit_char d = 48" for d using xdigit_char_dec [OF that(1)] that(2) by (auto simp: dec_of_def)
  then show ?case using 1 fmt_u_dec by (cases "n < 10") (auto simp: fmt_base.simps [of 10 n])
qed

text \<open>A number in decimal is read back by the part of \<open>inet_aton\<close> that guesses the base.\<close>

lemma aton_number_dec:
  assumes "\<not> is_dec c" "c \<noteq> 120" "c \<noteq> 88"
  shows "aton_number (fmt_u n @ c # r) = Some (Some (word_of_nat n, c # r))"
proof (cases "n = 0")
  case True
  then have "fmt_u n = [48]" by (simp add: fmt_base.simps xdigit_char_def)
  moreover have "isdigit 48 \<noteq> 0" using isdigit_byte [of 48] by (simp add: is_dec_def)
  ultimately show ?thesis using True assms aton_digits_dec [of "[]" c 8 0 r] by (simp add: aton_number_def rd_def)
next
  case False
  note f = fmt_u_dec [of n] fmt_u_head [OF False]
  then have "is_dec (hd (fmt_u n))" by (cases "fmt_u n") auto
  then show ?thesis using f isdigit_byte [of "hd (fmt_u n)"] aton_digits_dec [of "fmt_u n" c 10 0 r] assms
    by (cases "fmt_u n") (auto simp: aton_number_def rd_def)
qed

lemma ucast_byte_le: "(ucast (b :: u8) :: u32) \<le> 0xff"
  using order_trans [OF take_bit_nat_less_eq_self byte_le] by (simp add: word_le_nat_alt unsigned_ucast_eq)

lemma bit_byte: "8 \<le> n \<Longrightarrow> \<not> bit (b :: u8) n"
  using bit_imp_le_length [of b n] by auto

lemma htonl_quad:
  "htonl_bytes (ucast d OR (push_bit 24 (ucast a) OR push_bit 16 (ucast b) OR push_bit 8 (ucast c))) = [a, b, c, d]" for a b c d :: u8
  unfolding htonl_bytes_def by (auto intro!: bit_word_eqI simp: bit_simps bit_byte)

lemma inet_aton_quad:
  "inet_aton (quad_text a b c d @ 0 # r) (Some stk) = Some (1, Some [a, b, c, d])"
proof -
  have n: "aton_number (fmt_u (unat x) @ 46 # t) = Some (Some (ucast x, 46 # t))"
    "aton_number (fmt_u (unat x) @ 0 # t) = Some (Some (ucast x, 0 # t))" for x :: u8 and t
    using aton_number_dec [of 46 "unat x" t] aton_number_dec [of 0 "unat x" t] by (simp_all add: is_dec_def unsigned_ucast_eq)
  have "aton_loop 3 [] (quad_text a b c d @ 0 # r) = Some (Some ([ucast a, ucast b, ucast c], ucast d, 0 # r))"
    by (simp add: quad_text_def n aton_loop.simps rd_def numeral_3_eq_3)
  then show ?thesis using ucast_byte_le [of a] ucast_byte_le [of b] ucast_byte_le [of c] ucast_byte_le [of d]
    by (simp add: inet_aton_def rd_def htonl_quad not_less [symmetric])
qed

lemma inet_ntoa_exact:
  assumes "length stk = 18"
  shows "inet_ntoa stk [a, b, c, d] = Some (quad_text a b c d @ 0 # drop (length (quad_text a b c d) + 1) stk)"
  using snprintf_fits [of 0 "quad_text a b c d" stk 18] quad_text_length [of a b c d] assms
  by (simp add: inet_ntoa_def rd_def)

text \<open>
  Numbers are read modulo \<open>2\<^sup>3\<^sup>2\<close>, an octal number may have the digits \<open>8\<close> and \<open>9\<close>, and what follows a white space is not looked at:
  \<open>4294967297\<close>, \<open>09\<close> and \<open>1.2.3.4 x\<close> are addresses.
\<close>

lemma inet_aton_lax:
  "inet_aton [52, 50, 57, 52, 57, 54, 55, 50, 57, 55, 0] (Some [7, 7, 7, 7]) = Some (1, Some [0, 0, 0, 1])"
  "inet_aton [48, 57, 0] (Some [7, 7, 7, 7]) = Some (1, Some [0, 0, 0, 9])"
  "inet_aton [49, 46, 50, 46, 51, 46, 52, 32, 120, 0] (Some [7, 7, 7, 7]) = Some (1, Some [1, 2, 3, 4])"
  by code_simp+

text \<open>\<open>inet_addr\<close> cannot tell the broadcast address from an error.\<close>

lemma inet_addr_exact:
  "inet_addr stk (quad_text a b c d @ 0 # r) = Some [a, b, c, d]"
  "inet_aton cp (Some stk) = Some (0, x) \<Longrightarrow> inet_addr stk cp = Some [255, 255, 255, 255]"
  by (simp_all add: inet_addr_def inet_aton_quad)

section \<open>Ethernet addresses are read back\<close>

lemma xdigit_hex: "d < 16 \<Longrightarrow> xdigit (xdigit_char d) = int d"
  using xdigit_table by (simp add: list_all_iff)

lemma fmt_02x_digits: "n \<le> 255 \<Longrightarrow> fmt_02x n = [xdigit_char (n div 16), xdigit_char (n mod 16)]"
  by (auto simp: fmt_02x_def fmt_base.simps [of 16 n] fmt_base.simps [of 16 "n div 16"] xdigit_char_def)

definition ether_text :: "u8 list \<Rightarrow> u8 list" where
  "ether_text bs = concat (map (\<lambda>b. 58 # fmt_02x (unat b)) bs)"

lemma byte_div [simp]: "unat (b :: u8) div 16 < 16"
  using byte_le [of b] by linarith

lemma xdigit_pair: "(word_of_int (xdigit (xdigit_char (unat b div 16)) * 16 + xdigit (xdigit_char (unat b mod 16))) :: u8) = b"
proof -
  have "xdigit (xdigit_char (unat b div 16)) * 16 + xdigit (xdigit_char (unat b mod 16)) = int (unat b)"
    using div_mult_mod_eq [of "unat b" 16] by (simp add: xdigit_hex del: of_nat_unat) presburger
  then show ?thesis by (simp only:) simp
qed

lemma ether_loop_text:
  "length bs = k \<Longrightarrow> k \<le> 6 \<Longrightarrow> length addr = 6 \<Longrightarrow>
    ether_loop k (drop 1 (ether_text bs) @ 0 # r) addr = Some (True, take (6 - k) addr @ bs)"
proof (induction k arbitrary: bs addr)
  case 0
  then show ?case by (simp add: ether_text_def rd_def)
next
  case (Suc k)
  obtain b bs' where bs: "bs = b # bs'" using Suc.prems by (cases bs) auto
  let ?h = "xdigit_char (unat b div 16)" and ?l = "xdigit_char (unat b mod 16)"
  have x: "\<not> xdigit ?h < 0" "\<not> xdigit ?l < 0" by (simp_all add: xdigit_hex)
  have t: "drop 1 (ether_text bs) @ 0 # r = ?h # ?l # ether_text bs' @ 0 # r" using bs by (simp add: ether_text_def fmt_02x_digits)
  have "6 - k = Suc (5 - k)" using Suc.prems by simp
  then have w: "wr addr (5 - k) b = Some (addr[5 - k := b])" "take (6 - k) (addr[5 - k := b]) = take (5 - k) addr @ [b]"
    using Suc.prems by (simp_all add: wr_def take_Suc_conv_app_nth)
  have IH: "ether_loop k (drop 1 (ether_text bs') @ 0 # r) (addr[5 - k := b]) = Some (True, take (5 - k) addr @ b # bs')"
    using Suc.IH [of bs' "addr[5 - k := b]"] Suc.prems bs w by simp
  show ?case
  proof (cases bs')
    case Nil
    then show ?thesis using IH Suc.prems bs x w t xdigit_pair [of b] by (simp add: rd_def ether_text_def)
  next
    case (Cons b' bs'')
    then obtain q where "ether_text bs' = 58 # q" by (simp add: ether_text_def)
    then show ?thesis using IH Suc.prems bs x w t xdigit_pair [of b] Cons by (simp add: rd_def)
  qed
qed

lemma ether_ntoa_exact:
  assumes "length bs = 6" "18 \<le> length buf"
  shows "ether_ntoa_r bs buf = Some (drop 1 (ether_text bs) @ 0 # drop 18 buf)"
proof -
  obtain a0 a1 a2 a3 a4 a5 where bs: "bs = [a0, a1, a2, a3, a4, a5]" using assms(1) by (auto simp: length_Suc_conv eval_nat_numeral)
  have t: "fmt_02x (unat a0) @ 58 # fmt_02x (unat a1) @ 58 # fmt_02x (unat a2) @ 58 # fmt_02x (unat a3) @ 58 #
         fmt_02x (unat a4) @ 58 # fmt_02x (unat a5) = drop 1 (ether_text bs)" using bs by (simp add: ether_text_def)
  have "length (drop 1 (ether_text bs)) = 17" using bs by (simp add: ether_text_def fmt_02x_digits)
  then show ?thesis using snprintf_fits [of 0 "drop 1 (ether_text bs)" buf 18] t assms(2) unfolding bs ether_ntoa_r_def by (simp add: rd_def)
qed

lemma ether_round_trip:
  assumes "length bs = 6" "18 \<le> length buf" "length addr = 6"
  obtains buf1 where "ether_ntoa_r bs buf = Some buf1" "ether_aton_r buf1 addr = Some (True, bs)"
  using ether_ntoa_exact [OF assms(1,2)] ether_loop_text [of bs 6 addr "drop 18 buf"] assms by (simp add: ether_aton_r_def)

section \<open>The main result\<close>

text \<open>
  C34. Dotted quads. \<open>inet_pton4\<close> accepts exactly the texts of four parts between full stops, each one of at least one decimal
  digit and with a value of at most \<open>255\<close>, stores their values and touches no other byte; it leaves the target alone when it returns
  \<open>0\<close>. \<open>inet_ntop4\<close> into a buffer of any size gives \<open>ENOSPC\<close> and leaves the buffer alone, or it succeeds, and both \<open>inet_pton4\<close> and \<open>inet_aton\<close> read
  the same four bytes back from the buffer; \<open>16\<close> bytes are always enough.
\<close>

theorem dotted_quads_exact:
  assumes "0 \<notin> set s" "length stk = 4" "length stk16 = 16" "dst + 4 \<le> length m" "length buf < 2 ^ 31"
  shows "inet_pton4 stk (s @ 0 # r) m dst =
      (if quad_ok s then Some (1, take dst m @ quad_bytes s @ drop (dst + 4) m) else Some (0, m)) \<and>
    (\<exists>ok err buf1. inet_ntop4 stk16 [a, b, c, d] 0 buf 0 (length buf) = Some (ok, err, buf1) \<and>
      (if ok then err = None \<and> inet_pton4 stk buf1 m dst = Some (1, take dst m @ [a, b, c, d] @ drop (dst + 4) m) \<and>
           inet_aton buf1 (Some stk) = Some (1, Some [a, b, c, d])
       else err = Some ENOSPC \<and> buf1 = buf \<and> length buf < 16))"
proof (intro conjI)
  show "inet_pton4 stk (s @ 0 # r) m dst =
      (if quad_ok s then Some (1, take dst m @ quad_bytes s @ drop (dst + 4) m) else Some (0, m))"
    by (rule inet_pton4_exact [OF assms(1,2,4)])
  let ?t = "quad_text a b c d"
  have "inet_pton4 stk (?t @ 0 # x) m dst = Some (1, take dst m @ [a, b, c, d] @ drop (dst + 4) m)" for x
    using inet_pton4_exact [OF quad_text_length(3) assms(2,4)] by (simp add: quad_text_ok)
  then show "\<exists>ok err buf1. inet_ntop4 stk16 [a, b, c, d] 0 buf 0 (length buf) = Some (ok, err, buf1) \<and>
      (if ok then err = None \<and> inet_pton4 stk buf1 m dst = Some (1, take dst m @ [a, b, c, d] @ drop (dst + 4) m) \<and>
           inet_aton buf1 (Some stk) = Some (1, Some [a, b, c, d])
       else err = Some ENOSPC \<and> buf1 = buf \<and> length buf < 16)"
    using inet_ntop4_exact [of "[a, b, c, d]" "[]" a b c d "[]" stk16 0 "length buf" buf] assms(3,5) quad_text_length(1) [of a b c d]
    by (auto simp: Let_def inet_aton_quad)
qed

text \<open>The text \<open>10.0.0.255\<close> is accepted.\<close>

theorem dotted_quads_exact_witness:
  "inet_pton4 [7, 7, 7, 7] [49, 48, 46, 48, 46, 48, 46, 50, 53, 53, 0] [9, 9, 9, 9, 9] 1 = Some (1, [9, 10, 0, 0, 255])"
proof -
  let ?s = "[49, 48, 46, 48, 46, 48, 46, 50, 53, 53] :: u8 list"
  have "0 \<notin> set ?s" by code_simp
  moreover have "quad_ok ?s" by code_simp
  moreover have "quad_bytes ?s = [10, 0, 0, 255]" by code_simp
  ultimately show ?thesis
    using dotted_quads_exact [of ?s "[7, 7, 7, 7]" "replicate 16 7" 1 "[9, 9, 9, 9, 9]" "[]" "[]" 1 2 3 4] by simp
qed

end
