(* ===== verification/Inet6.thy ===== *)
theory Inet6
  imports Inet4
begin

text \<open>
  The text of network addresses in sixteen bytes, \<open>inet_ntop6\<close> and \<open>inet_pton6\<close> of \<open>libc/inet/inet_ntop.c\<close> and \<open>inet_pton.c\<close>, and the
  functions \<open>inet_ntop\<close> and \<open>inet_pton\<close> for both kinds of address. The conventions are those of the theory of dotted quads.
\<close>

section \<open>Printing\<close>

text \<open>\<open>struct { int base, len; } best, cur\<close>\<close>

record zrun =
  base :: int
  len :: int

text \<open>The words of an address.\<close>

definition ntop6_words :: "u8 list \<Rightarrow> u32 list option" where
  "ntop6_words src =
    (if length src < 16 then None
     else Some (foldl (\<lambda>ws i. ws[i div 2 := ws ! (i div 2) OR push_bit ((1 - i mod 2) * 8) (ucast (src ! i))])
       (replicate 8 0) [0..<16]))"

text \<open>The search for the longest run of zeros: one word, and all of them.\<close>

definition zrun_close :: "zrun \<Rightarrow> zrun \<Rightarrow> zrun" where
  "zrun_close best cur = (if base cur \<noteq> - 1 \<and> (base best = - 1 \<or> len cur > len best) then cur else best)"

fun zrun_loop :: "nat \<Rightarrow> u32 list \<Rightarrow> zrun \<Rightarrow> zrun \<Rightarrow> zrun \<times> zrun" where
  "zrun_loop i [] best cur = (best, cur)"
| "zrun_loop i (w # ws) best cur =
    (if w = 0 then
       if base cur = - 1 then zrun_loop (i + 1) ws best \<lparr>base = int i, len = 1\<rparr>
       else zrun_loop (i + 1) ws best (cur\<lparr>len := len cur + 1\<rparr>)
     else if base cur \<noteq> - 1 then zrun_loop (i + 1) ws (zrun_close best cur) (cur\<lparr>base := - 1\<rparr>)
     else zrun_loop (i + 1) ws best cur)"

definition zrun_best :: "u32 list \<Rightarrow> zrun" where
  "zrun_best words =
    (let (best, cur) = zrun_loop 0 words \<lparr>base = - 1, len = 0\<rparr> \<lparr>base = - 1, len = 0\<rparr>;
         best = zrun_close best cur
     in if base best \<noteq> - 1 \<and> len best < 2 then best\<lparr>base := - 1\<rparr> else best)"

text \<open>\<open>if (tp + 1 >= ep) return (NULL); *tp++ = c\<close>; a left value is \<open>return (NULL)\<close>, with the \<open>errno\<close> that is set.\<close>

definition ntop6_put :: "u8 list \<Rightarrow> nat \<Rightarrow> u8 \<Rightarrow> (int option + u8 list \<times> nat) option" where
  "ntop6_put tmp tp c = (if tp + 1 \<ge> 46 then Some (Inl None) else do { tmp \<leftarrow> wr tmp tp c; Some (Inr (tmp, tp + 1)) })"

text \<open>The loop that formats the result, for the last \<open>k\<close> words.\<close>

fun ntop6_loop ::
  "u8 list \<Rightarrow> u8 list \<Rightarrow> u32 list \<Rightarrow> zrun \<Rightarrow> nat \<Rightarrow> u8 list \<Rightarrow> nat \<Rightarrow> (int option + u8 list \<times> nat) option" where
  "ntop6_loop stk16 src words best 0 tmp tp = Some (Inr (tmp, tp))"
| "ntop6_loop stk16 src words best (Suc k) tmp tp =
    (let i = 7 - k in
     if \<not> tp < 46 then Some (Inr (tmp, tp))
     else if base best \<noteq> - 1 \<and> int i \<ge> base best \<and> int i < base best + len best then
       if int i = base best then do {
         r \<leftarrow> ntop6_put tmp tp 58;
         case r of Inl e \<Rightarrow> Some (Inl e) | Inr (tmp, tp) \<Rightarrow> ntop6_loop stk16 src words best k tmp tp
       }
       else ntop6_loop stk16 src words best k tmp tp
     else do {
       r \<leftarrow> (if i \<noteq> 0 then ntop6_put tmp tp 58 else Some (Inr (tmp, tp)));
       case r of
         Inl e \<Rightarrow> Some (Inl e)
       | Inr (tmp, tp) \<Rightarrow>
           do {
             w5 \<leftarrow> rd words 5;
             if i = 6 \<and> base best = 0 \<and> (len best = 6 \<or> len best = 5 \<and> w5 = 0xffff) then do {
               (ok, err, tmp) \<leftarrow> inet_ntop4 stk16 src 12 tmp tp (46 - tp);
               if \<not> ok then Some (Inl err) else do { n \<leftarrow> strlen (drop tp tmp); Some (Inr (tmp, tp + n)) }
             }
             else do {
               w \<leftarrow> rd words i;
               (tmp, advance) \<leftarrow> snprintf_text tmp tp (46 - tp) (fmt_x (unat w));
               if advance \<le> 0 \<or> advance \<ge> 46 - int tp then Some (Inl None)
               else ntop6_loop stk16 src words best k tmp (tp + nat advance)
             }
           }
     })"

definition inet_ntop6 :: "u8 list \<Rightarrow> u8 list \<Rightarrow> u8 list \<Rightarrow> u8 list \<Rightarrow> nat \<Rightarrow> nat \<Rightarrow> (bool \<times> int option \<times> u8 list) option" where
  "inet_ntop6 stk46 stk16 src m dst siz =
    do {
      words \<leftarrow> ntop6_words src;
      let best = zrun_best words;
      r \<leftarrow> ntop6_loop stk16 src words best 8 stk46 0;
      case r of
        Inl e \<Rightarrow> Some (False, e, m)
      | Inr (tmp, tp) \<Rightarrow>
          do {
            r \<leftarrow> (if base best \<noteq> - 1 \<and> base best + len best = 8 then ntop6_put tmp tp 58 else Some (Inr (tmp, tp)));
            case r of
              Inl e \<Rightarrow> Some (False, e, m)
            | Inr (tmp, tp) \<Rightarrow>
                do {
                  r \<leftarrow> ntop6_put tmp tp 0;
                  case r of
                    Inl e \<Rightarrow> Some (False, e, m)
                  | Inr (tmp, tp) \<Rightarrow>
                      if tp > siz then Some (False, Some ENOSPC, m)
                      else do { (m1, _) \<leftarrow> strlcpy m dst tmp siz; Some (True, None, m1) }
                }
          }
    }"

section \<open>Reading\<close>

definition xdigits_l :: "u8 list" where
  "xdigits_l = [48, 49, 50, 51, 52, 53, 54, 55, 56, 57, 97, 98, 99, 100, 101, 102, 0]"

definition xdigits_u :: "u8 list" where
  "xdigits_u = [48, 49, 50, 51, 52, 53, 54, 55, 56, 57, 65, 66, 67, 68, 69, 70, 0]"

text \<open>\<open>*tp++ = (u_char) (val >> 8) & 0xff; *tp++ = (u_char) val & 0xff\<close>\<close>

definition pton6_store :: "u8 list \<Rightarrow> nat \<Rightarrow> u32 \<Rightarrow> u8 list option" where
  "pton6_store tmp tp val =
    do { tmp \<leftarrow> wr tmp tp (ucast (drop_bit 8 val) AND 0xff); wr tmp (tp + 1) (ucast val AND 0xff) }"

text \<open>The loop; the inner \<open>None\<close> is \<open>return (0)\<close>, and \<open>colonp\<close> is null or an offset in \<open>tmp\<close>.\<close>

fun pton6_loop ::
  "u8 list \<Rightarrow> u8 list \<Rightarrow> u8 list \<Rightarrow> u8 list \<Rightarrow> nat \<Rightarrow> nat option \<Rightarrow> bool \<Rightarrow> nat \<Rightarrow> u32
    \<Rightarrow> (u8 list \<times> nat \<times> nat option \<times> bool \<times> u32) option option" where
  "pton6_loop stk [] curtok tmp tp colonp saw_xdigit count_xdigit val = None"
| "pton6_loop stk (ch # src) curtok tmp tp colonp saw_xdigit count_xdigit val =
    (if ch = 0 then Some (Some (tmp, tp, colonp, saw_xdigit, val))
     else do {
       p \<leftarrow> strchr xdigits_l (uint ch);
       pch \<leftarrow> (if p = None then strchr xdigits_u (uint ch) else Some p);
       case pch of
         Some d \<Rightarrow>
           if count_xdigit \<ge> 4 then Some None
           else let val = push_bit 4 val OR word_of_nat d in
             if val > 0xffff then Some None
             else pton6_loop stk src curtok tmp tp colonp True (count_xdigit + 1) val
       | None \<Rightarrow>
           if ch = 58 then
             if \<not> saw_xdigit then
               if colonp \<noteq> None then Some None
               else pton6_loop stk src src tmp tp (Some tp) saw_xdigit count_xdigit val
             else do {
               c \<leftarrow> rd src 0;
               if c = 0 then Some None
               else if tp + 2 > 16 then Some None
               else do { tmp \<leftarrow> pton6_store tmp tp val; pton6_loop stk src src tmp (tp + 2) colonp False 0 0 }
             }
           else if ch = 46 \<and> tp + 4 \<le> 16 then do {
             (ok, tmp) \<leftarrow> inet_pton4 stk curtok tmp tp;
             if ok > 0 then Some (Some (tmp, tp + 4, colonp, False, val)) else Some None
           }
           else Some None
     })"

text \<open>The shift by hand: \<open>k\<close> of the \<open>n\<close> bytes from \<open>colonp\<close> on are left.\<close>

fun pton6_shift :: "u8 list \<Rightarrow> nat \<Rightarrow> nat \<Rightarrow> nat \<Rightarrow> u8 list option" where
  "pton6_shift tmp colonp n 0 = Some tmp"
| "pton6_shift tmp colonp n (Suc k) =
    do { v \<leftarrow> rd tmp (colonp + k); tmp \<leftarrow> wr tmp (16 - (n - k)) v; tmp \<leftarrow> wr tmp (colonp + k) 0; pton6_shift tmp colonp n k }"

text \<open>What follows the loop.\<close>

definition pton6_finish :: "u8 list \<Rightarrow> nat \<Rightarrow> (u8 list \<times> nat \<times> nat option \<times> bool \<times> u32) option \<Rightarrow> (int \<times> u8 list) option" where
  "pton6_finish m dst r =
    (case r of
      None \<Rightarrow> Some (0, m)
    | Some (tmp, tp, colonp, saw_xdigit, val) \<Rightarrow>
        if saw_xdigit \<and> tp + 2 > 16 then Some (0, m)
        else do {
          (tmp, tp) \<leftarrow> (if saw_xdigit then do { tmp \<leftarrow> pton6_store tmp tp val; Some (tmp, tp + 2) } else Some (tmp, tp));
          (tmp, tp) \<leftarrow> (case colonp of
              Some c \<Rightarrow> do { tmp \<leftarrow> pton6_shift tmp c (tp - c) (tp - c); Some (tmp, 16) }
            | None \<Rightarrow> Some (tmp, tp));
          if tp \<noteq> 16 then Some (0, m) else do { m1 \<leftarrow> blit m dst tmp; Some (1, m1) }
        })"

definition inet_pton6 :: "u8 list \<Rightarrow> u8 list \<Rightarrow> u8 list \<Rightarrow> nat \<Rightarrow> (int \<times> u8 list) option" where
  "inet_pton6 stk src m dst =
    do {
      c \<leftarrow> rd src 0;
      s \<leftarrow> (if c = 58 then do { c1 \<leftarrow> rd src 1; Some (if c1 \<noteq> 58 then None else Some (drop 1 src)) } else Some (Some src));
      case s of
        None \<Rightarrow> Some (0, m)
      | Some src \<Rightarrow> do { r \<leftarrow> pton6_loop stk src src (replicate 16 0) 0 None False 0 0; pton6_finish m dst r }
    }"

section \<open>Both families\<close>

abbreviation (input) AF_INET :: int where "AF_INET \<equiv> 2"

abbreviation (input) AF_INET6 :: int where "AF_INET6 \<equiv> 10"

abbreviation (input) EAFNOSUPPORT :: int where "EAFNOSUPPORT \<equiv> 97"

definition inet_ntop :: "int \<Rightarrow> u8 list \<Rightarrow> u8 list \<Rightarrow> u8 list \<Rightarrow> u8 list \<Rightarrow> nat \<Rightarrow> (bool \<times> int option \<times> u8 list) option" where
  "inet_ntop af stk46 stk16 src m siz =
    (if af = AF_INET then inet_ntop4 stk16 src 0 m 0 siz
     else if af = AF_INET6 then inet_ntop6 stk46 stk16 src m 0 siz
     else Some (False, Some EAFNOSUPPORT, m))"

definition inet_pton :: "int \<Rightarrow> u8 list \<Rightarrow> u8 list \<Rightarrow> u8 list \<Rightarrow> (int \<times> int option \<times> u8 list) option" where
  "inet_pton af stk src m =
    (if af = AF_INET then map_option (\<lambda>(r, m). (r, None, m)) (inet_pton4 stk src m 0)
     else if af = AF_INET6 then map_option (\<lambda>(r, m). (r, None, m)) (inet_pton6 stk src m 0)
     else Some (- 1, Some EAFNOSUPPORT, m))"

section \<open>Reading the words\<close>

definition is_hex :: "u8 \<Rightarrow> bool" where
  "is_hex c \<longleftrightarrow> (\<exists>d<16. c = xdigit_char d)"

definition hex_of :: "u8 \<Rightarrow> nat" where
  "hex_of c = nat (xdigit c)"

definition hex_val :: "nat \<Rightarrow> u8 list \<Rightarrow> nat" where
  "hex_val v p = foldl (\<lambda>a c. a * 16 + hex_of c) v p"

lemma hex_val_simps [simp]: "hex_val v [] = v" "hex_val v (c # p) = hex_val (v * 16 + hex_of c) p"
    "hex_val v (p @ q) = hex_val (hex_val v p) q"
  by (simp_all add: hex_val_def)

lemma hex_of_char: "d < 16 \<Longrightarrow> hex_of (xdigit_char d) = d"
  by (simp add: hex_of_def xdigit_hex)

lemma hex_table: "list_all (\<lambda>d. xdigit_char d \<noteq> 0 \<and> strchr xdigits_l (uint (xdigit_char d)) = Some (Some d)) [0..<16]"
  by code_simp

lemma is_hex_strchr: "is_hex c \<Longrightarrow> c \<noteq> 0 \<and> strchr xdigits_l (uint c) = Some (Some (hex_of c)) \<and> hex_of c < 16"
  using hex_table by (auto simp: is_hex_def list_all_iff hex_of_char)

lemma no_hex: "strchr xdigits_l 58 = Some None" "strchr xdigits_u 58 = Some None" "strchr xdigits_l 46 = Some None" "strchr xdigits_u 46 = Some None"
  by (simp_all add: xdigits_l_def xdigits_u_def)

lemma dec_is_hex: "is_dec c \<Longrightarrow> is_hex c"
proof -
  assume "is_dec c"
  then have "xdigit_char (dec_of c) = c \<and> dec_of c < 16" by (auto simp: is_dec_set dec_of_def xdigit_char_def)
  then show ?thesis by (metis is_hex_def)
qed

lemma xdigit_is_hex: "d < 16 \<Longrightarrow> is_hex (xdigit_char d)"
  by (auto simp: is_hex_def)

lemma fmt_x_hex: "list_all is_hex (fmt_x n) \<and> hex_val 0 (fmt_x n) = n \<and> fmt_x n \<noteq> []"
proof (induction "16 :: nat" n rule: fmt_base.induct)
  case (1 n)
  show ?case
  proof (cases "n < 16")
    case True
    then show ?thesis using hex_of_char by (auto simp: fmt_base.simps [of 16 n] is_hex_def)
  next
    case False
    then show ?thesis using 1 hex_of_char [of "n mod 16"] xdigit_is_hex [of "n mod 16"] by (auto simp: fmt_base.simps [of 16 n])
  qed
qed

lemma hex_or: "d < 16 \<Longrightarrow> push_bit 4 v OR word_of_nat d = v * 16 + (word_of_nat d :: u32)"
proof -
  assume "d < 16"
  then have "word_of_nat d = take_bit 4 (word_of_nat d :: u32)" by (simp add: take_bit_of_nat take_bit_nat_eq_self)
  then have "bit (word_of_nat d :: u32) n \<Longrightarrow> n < 4" for n by (metis bit_take_bit_iff)
  then have "push_bit 4 v AND word_of_nat d = 0" by (intro bit_word_eqI) (force simp: bit_simps)
  then show ?thesis by (simp add: push_bit_eq_mult flip: disjunctive_add_eq_or)
qed

lemma hex_step:
  assumes "v < 16 ^ k" "k \<le> 3" "d < 16"
  shows "push_bit 4 (word_of_nat v) OR word_of_nat d = (word_of_nat (v * 16 + d) :: u32)" "\<not> (word_of_nat (v * 16 + d) :: u32) > 0xffff"
    "v * 16 + d < 16 ^ Suc k"
proof -
  show "push_bit 4 (word_of_nat v) OR word_of_nat d = (word_of_nat (v * 16 + d) :: u32)" using hex_or [OF assms(3)] by simp
  show "v * 16 + d < 16 ^ Suc k" using assms by simp
  moreover have "(16 :: nat) ^ Suc k \<le> 16 ^ 4" using assms(2) by (intro power_increasing) auto
  ultimately have b: "v * 16 + d \<le> 0xffff" by simp
  then have "unat (word_of_nat (v * 16 + d) :: u32) = v * 16 + d" by (simp only: unat_of_nat) simp
  then show "\<not> (word_of_nat (v * 16 + d) :: u32) > 0xffff" using b by (simp add: word_less_nat_alt del: of_nat_add of_nat_mult)
qed

text \<open>Digits.\<close>

lemma pton6_digits:
  "list_all is_hex p \<Longrightarrow> n + length p \<le> 4 \<Longrightarrow> v < 16 ^ n \<Longrightarrow>
    pton6_loop stk (p @ src) cur tmp tp cp saw n (word_of_nat v) =
    pton6_loop stk src cur tmp tp cp (saw \<or> p \<noteq> []) (n + length p) (word_of_nat (hex_val v p))"
proof (induction p arbitrary: n v saw)
  case (Cons c p)
  then have c: "c \<noteq> 0" "strchr xdigits_l (uint c) = Some (Some (hex_of c))" "hex_of c < 16" using is_hex_strchr by auto
  note h = hex_step [OF Cons.prems(3) _ c(3)]
  show ?case using c h Cons by (simp del: of_nat_add of_nat_mult)
qed simp

text \<open>The array, filled from the left, and the bytes of words.\<close>

definition pad16 :: "u8 list \<Rightarrow> u8 list" where
  "pad16 out = out @ replicate (16 - length out) 0"

definition word_bytes :: "u32 list \<Rightarrow> u8 list" where
  "word_bytes ws = concat (map (\<lambda>w. [ucast (drop_bit 8 w), ucast w]) ws)"

lemma length_word_bytes [simp]: "length (word_bytes ws) = 2 * length ws"
  by (induction ws) (auto simp: word_bytes_def)

lemma and_ff: "(b :: u8) AND 0xff = b"
proof -
  have "(0xff :: u8) = - 1" by simp
  then show ?thesis by (simp only: and.right_neutral)
qed

lemma store_pad: "length out + 2 \<le> 16 \<Longrightarrow> pton6_store (pad16 out) (length out) w = Some (pad16 (out @ word_bytes [w]))"
proof -
  assume "length out + 2 \<le> 16"
  then have "\<exists>k. 16 - length out = Suc (Suc k)" by presburger
  then obtain k where k: "16 - length out = Suc (Suc k)" by blast
  have "length out < 16" "16 - (length out + 2) = k" using k by auto
  then show ?thesis using k
    by (simp add: pton6_store_def pad16_def wr_def word_bytes_def list_update_append and_ff)
qed

lemma word_bytes_append [simp]: "word_bytes (ws @ vs) = word_bytes ws @ word_bytes vs" "word_bytes [] = []"
  by (simp_all add: word_bytes_def)

lemma word_bytes_Cons: "word_bytes (w # ws) = word_bytes [w] @ word_bytes ws"
  by (simp add: word_bytes_def)

text \<open>A word with the colon after it.\<close>

lemma pton6_hex:
  assumes "unat w \<le> 0xffff"
  shows "pton6_loop stk (fmt_x (unat w) @ src) cur tmp tp cp False 0 0 = pton6_loop stk src cur tmp tp cp True (length (fmt_x (unat w))) w"
proof -
  have "length (fmt_x (unat w)) \<le> 4" using length_fmt [of "unat w" 16 3] assms by simp
  then show ?thesis using pton6_digits [of "fmt_x (unat w)" 0 0 stk src cur tmp tp cp False] fmt_x_hex [of "unat w"] by simp
qed

lemma pton6_group:
  assumes "unat w \<le> 0xffff" "length out + 2 \<le> 16" "c \<noteq> 0"
  shows "pton6_loop stk (fmt_x (unat w) @ 58 # c # src) cur (pad16 out) (length out) cp False 0 0 =
    pton6_loop stk (c # src) (c # src) (pad16 (out @ word_bytes [w])) (length (out @ word_bytes [w])) cp False 0 0"
  using assms store_pad [OF assms(2), of w] by (simp add: pton6_hex no_hex rd_def del: pton6_loop.simps(2)) (simp add: no_hex rd_def)

fun join6 :: "u32 list \<Rightarrow> u8 list" where
  "join6 [] = []"
| "join6 [w] = fmt_x (unat w)"
| "join6 (w # ws) = fmt_x (unat w) @ 58 # join6 ws"

definition words16 :: "u32 list \<Rightarrow> bool" where
  "words16 ws \<longleftrightarrow> list_all (\<lambda>w. unat w \<le> 0xffff) ws"

lemma words16_simps [simp]: "words16 []" "words16 (w # ws) \<longleftrightarrow> unat w \<le> 0xffff \<and> words16 ws"
  by (simp_all add: words16_def)

lemma join6_head: "ws \<noteq> [] \<Longrightarrow> \<exists>c x. join6 ws = c # x \<and> c \<noteq> 0"
proof -
  have f: "\<exists>c x. fmt_x n = c # x \<and> c \<noteq> 0" for n using fmt_x_hex [of n] is_hex_strchr by (cases "fmt_x n") auto
  show ?thesis if "ws \<noteq> []" using that f by (cases ws rule: join6.cases) (simp_all, metis append_Cons)
qed

lemma pton6_join_end:
  "ws \<noteq> [] \<Longrightarrow> words16 ws \<Longrightarrow> length out + 2 * length ws \<le> 16 \<Longrightarrow>
    \<exists>out' w. pton6_loop stk (join6 ws @ 0 # r) cur (pad16 out) (length out) cp False 0 0 =
      Some (Some (pad16 out', length out', cp, True, w)) \<and> out' @ word_bytes [w] = out @ word_bytes ws"
proof (induction ws arbitrary: out cur rule: join6.induct)
  case (2 w)
  then show ?case using pton6_hex [of w stk "0 # r"] by auto
next
  case (3 w v ws)
  obtain c x where c: "join6 (v # ws) = c # x" "c \<noteq> 0" using join6_head [of "v # ws"] by blast
  have "pton6_loop stk (join6 (w # v # ws) @ 0 # r) cur (pad16 out) (length out) cp False 0 0 =
    pton6_loop stk (join6 (v # ws) @ 0 # r) (join6 (v # ws) @ 0 # r) (pad16 (out @ word_bytes [w])) (length (out @ word_bytes [w])) cp False 0 0"
    using pton6_group [of w out c stk "x @ 0 # r" cur cp] 3 c by simp
  then show ?case using 3(1) [of "out @ word_bytes [w]" "join6 (v # ws) @ 0 # r"] 3 word_bytes_Cons [of w "v # ws"] by simp
qed simp

lemma pton6_join_colons:
  "ws \<noteq> [] \<Longrightarrow> words16 ws \<Longrightarrow> length out + 2 * length ws \<le> 16 \<Longrightarrow>
    pton6_loop stk (join6 ws @ 58 # 58 # src) cur (pad16 out) (length out) None False 0 0 =
    pton6_loop stk src src (pad16 (out @ word_bytes ws)) (length (out @ word_bytes ws)) (Some (length (out @ word_bytes ws))) False 0 0"
proof (induction ws arbitrary: out cur rule: join6.induct)
  case (2 w)
  then show ?case using pton6_group [of w out 58 stk src cur None] by (simp add: no_hex)
next
  case (3 w v ws)
  obtain c x where c: "join6 (v # ws) = c # x" "c \<noteq> 0" using join6_head [of "v # ws"] by blast
  have "pton6_loop stk (join6 (w # v # ws) @ 58 # 58 # src) cur (pad16 out) (length out) None False 0 0 =
    pton6_loop stk (join6 (v # ws) @ 58 # 58 # src) (join6 (v # ws) @ 58 # 58 # src) (pad16 (out @ word_bytes [w])) (length (out @ word_bytes [w])) None False 0 0"
    using pton6_group [of w out c stk "x @ 58 # 58 # src" cur None] 3 c by simp
  then show ?case using 3(1) [of "out @ word_bytes [w]" "join6 (v # ws) @ 58 # 58 # src"] 3 word_bytes_Cons [of w "v # ws"] by simp
qed simp

text \<open>The shift moves the bytes behind the double colon to the end.\<close>

lemma pton6_shift_exact:
  "length pre = c \<Longrightarrow> length mid = n \<Longrightarrow> k \<le> n \<Longrightarrow> c + n + Suc h = 16 \<Longrightarrow>
    pton6_shift (pre @ take k mid @ replicate (Suc h) 0 @ drop k mid) c n k = Some (pre @ replicate (Suc h) 0 @ mid)"
proof (induction k)
  case 0
  then show ?case by simp
next
  case (Suc k)
  let ?t = "pre @ take k mid @ mid ! k # replicate (Suc h) 0 @ drop (Suc k) mid"
  have t: "pre @ take (Suc k) mid @ replicate (Suc h) 0 @ drop (Suc k) mid = ?t"
    using Suc.prems by (simp add: take_Suc_conv_app_nth)
  have i: "16 - (n - k) = c + k + Suc h" using Suc.prems by simp
  have r: "rd ?t (c + k) = Some (mid ! k)" using Suc.prems by (simp add: rd_def nth_append)
  have w: "wr ?t (c + k + Suc h) (mid ! k) = Some (pre @ take k mid @ mid ! k # replicate h 0 @ mid ! k # drop (Suc k) mid)"
    using Suc.prems by (simp add: wr_def list_update_append replicate_append_same [symmetric] del: replicate_append_same)
  have w': "wr (pre @ take k mid @ mid ! k # replicate h 0 @ mid ! k # drop (Suc k) mid) (c + k) 0 =
      Some (pre @ take k mid @ replicate (Suc h) 0 @ drop k mid)"
    using Suc.prems by (simp add: wr_def list_update_append Cons_nth_drop_Suc)
  show ?case unfolding t using Suc.IH Suc.prems i r w w' by simp
qed

text \<open>The end of the function, for the bytes stored.\<close>

definition place16 :: "u8 list \<Rightarrow> nat option \<Rightarrow> u8 list" where
  "place16 bs cp = (case cp of None \<Rightarrow> bs | Some c \<Rightarrow> take c bs @ replicate (16 - length bs) 0 @ drop c bs)"

lemma pton6_finish_bytes:
  assumes "case cp of None \<Rightarrow> length out = 16 | Some c \<Rightarrow> c \<le> length out \<and> length out < 16" "dst + 16 \<le> length m"
  shows "pton6_finish m dst (Some (pad16 out, length out, cp, False, v)) = Some (1, take dst m @ place16 out cp @ drop (dst + 16) m)"
proof (cases cp)
  case None
  then show ?thesis using assms by (simp add: pton6_finish_def place16_def pad16_def blit_def)
next
  case (Some c)
  then obtain h where h: "c \<le> length out" "16 - length out = Suc h" using assms(1) by (cases "16 - length out") auto
  have p: "pad16 out = take c out @ take (length out - c) (drop c out) @ replicate (Suc h) 0 @ drop (length out - c) (drop c out)"
    using h by (simp add: pad16_def)
  have "pton6_shift (pad16 out) c (length out - c) (length out - c) = Some (take c out @ replicate (Suc h) 0 @ drop c out)"
    unfolding p using h by (intro pton6_shift_exact) auto
  moreover have "dst + (c + (Suc h + (length out - c))) = dst + 16" using h by simp
  ultimately show ?thesis using Some assms(2) h by (simp add: pton6_finish_def place16_def blit_def)
qed

lemma pton6_finish_word:
  assumes "length out + 2 \<le> 16"
  shows "pton6_finish m dst (Some (pad16 out, length out, cp, True, w)) =
    pton6_finish m dst (Some (pad16 (out @ word_bytes [w]), length (out @ word_bytes [w]), cp, False, w))"
  using assms store_pad [OF assms, of w] by (simp add: pton6_finish_def)

text \<open>The rest of an address from some place on: words, or a dotted quad.\<close>

lemma pton6_tail_words:
  assumes "words16 ws" "length out + 2 * length ws \<le> 16" "dst + 16 \<le> length m"
    "case cp of None \<Rightarrow> length (out @ word_bytes ws) = 16 | Some c \<Rightarrow> c \<le> length out \<and> length (out @ word_bytes ws) < 16"
  shows "Option.bind (pton6_loop stk (join6 ws @ 0 # r) cur (pad16 out) (length out) cp False 0 0) (pton6_finish m dst) =
    Some (1, take dst m @ place16 (out @ word_bytes ws) cp @ drop (dst + 16) m)"
proof (cases "ws = []")
  case True
  then show ?thesis using assms pton6_finish_bytes [of out cp dst m 0] by (simp split: option.splits)
next
  case False
  obtain out' w where o: "pton6_loop stk (join6 ws @ 0 # r) cur (pad16 out) (length out) cp False 0 0 =
      Some (Some (pad16 out', length out', cp, True, w))" "out' @ word_bytes [w] = out @ word_bytes ws"
    using pton6_join_end [OF False assms(1,2)] by blast
  have "length out' + 2 = length out + 2 * length ws" using arg_cong [OF o(2), of length] by simp
  then show ?thesis using o pton6_finish_word [of out' m dst cp w] pton6_finish_bytes [of "out @ word_bytes ws" cp dst m w] assms
    by (simp split: option.splits)
qed

lemma pton6_tail_quad:
  assumes "length stk = 4" "length out + 4 \<le> 16" "dst + 16 \<le> length m"
    "case cp of None \<Rightarrow> length out = 12 | Some c \<Rightarrow> c \<le> length out \<and> length out < 12"
  shows "Option.bind (pton6_loop stk (quad_text a b c d @ 0 # r) (quad_text a b c d @ 0 # r) (pad16 out) (length out) cp False 0 0) (pton6_finish m dst) =
    Some (1, take dst m @ place16 (out @ [a, b, c, d]) cp @ drop (dst + 16) m)"
proof -
  let ?t = "quad_text a b c d @ 0 # r" and ?f = "fmt_u (unat a)"
  let ?q = "fmt_u (unat b) @ 46 # fmt_u (unat c) @ 46 # fmt_u (unat d) @ 0 # r"
  have h: "list_all is_hex ?f" using fmt_u_dec [of "unat a"] dec_is_hex by (auto simp: list_all_iff)
  have l: "length ?f \<le> 4" using length_fmt [of "unat a" 10 2] byte_le [of a] by simp
  have "inet_pton4 stk ?t (pad16 out) (length out) = Some (1, out @ [a, b, c, d] @ drop (length out + 4) (pad16 out))"
    using inet_pton4_exact [OF quad_text_length(3) assms(1), of "length out" "pad16 out" a b c d r] assms(2) by (simp add: quad_text_ok pad16_def)
  moreover have "out @ [a, b, c, d] @ drop (length out + 4) (pad16 out) = pad16 (out @ [a, b, c, d])"
    using assms(2) by (simp add: pad16_def)
  moreover have "?t = ?f @ 46 # ?q" by (simp add: quad_text_def)
  then have "pton6_loop stk ?t ?t (pad16 out) (length out) cp False 0 0 =
      pton6_loop stk (46 # ?q) ?t (pad16 out) (length out) cp True (length ?f) (word_of_nat (hex_val 0 ?f))"
    using pton6_digits [OF h, of 0 0 stk "46 # ?q" ?t "pad16 out" "length out" cp False] l fmt_u_dec [of "unat a"] by simp
  ultimately have "pton6_loop stk ?t ?t (pad16 out) (length out) cp False 0 0 =
      Some (Some (pad16 (out @ [a, b, c, d]), length (out @ [a, b, c, d]), cp, False, word_of_nat (hex_val 0 ?f)))"
    using assms(2) by (simp add: no_hex)
  then show ?thesis using pton6_finish_bytes [of "out @ [a, b, c, d]" cp dst m] assms by (simp split: option.splits)
qed

section \<open>The forms of an address that are printed are read\<close>

lemma hex_colon: "\<not> is_hex 58"
  using is_hex_strchr [of 58] no_hex by auto

lemma pton6_first: "ws \<noteq> [] \<Longrightarrow> rd (join6 ws @ s) 0 \<noteq> Some 58 \<and> rd (join6 ws @ s) 0 \<noteq> None"
proof -
  assume ws: "ws \<noteq> []"
  have f: "\<exists>c x. fmt_x n = c # x \<and> c \<noteq> 58" for n using fmt_x_hex [of n] hex_colon by (cases "fmt_x n") auto
  then have "\<exists>c x. join6 ws = c # x \<and> c \<noteq> 58" using ws by (cases ws rule: join6.cases) (simp_all, metis append_Cons)
  then show ?thesis by (auto simp: rd_def)
qed

lemma pton6_plain:
  assumes "length ws = 8" "words16 ws" "dst + 16 \<le> length m"
  shows "inet_pton6 stk (join6 ws @ 0 # r) m dst = Some (1, take dst m @ word_bytes ws @ drop (dst + 16) m)"
proof -
  obtain c where "rd (join6 ws @ 0 # r) 0 = Some c" "c \<noteq> 58" using pton6_first [of ws "0 # r"] assms(1) by force
  then show ?thesis using pton6_tail_words [of ws "[]" dst m None stk r "join6 ws @ 0 # r"] assms
    by (simp add: inet_pton6_def place16_def pad16_def)
qed

text \<open>Up to a double colon, and behind it.\<close>

lemma pton6_colons:
  assumes "words16 ws" "2 * length ws \<le> 16"
  shows "inet_pton6 stk (join6 ws @ 58 # 58 # src) m dst =
    Option.bind (pton6_loop stk src src (pad16 (word_bytes ws)) (length (word_bytes ws)) (Some (length (word_bytes ws))) False 0 0) (pton6_finish m dst)"
proof (cases "ws = []")
  case True
  then show ?thesis by (simp add: inet_pton6_def rd_def no_hex pad16_def)
next
  case False
  obtain c where "rd (join6 ws @ 58 # 58 # src) 0 = Some c" "c \<noteq> 58" using pton6_first [OF False, of "58 # 58 # src"] by force
  then show ?thesis using pton6_join_colons [OF False assms(1), of "[]"] assms(2) by (simp add: inet_pton6_def pad16_def)
qed

lemma pton6_short:
  assumes "words16 pre" "words16 post" "length pre + length post < 8" "dst + 16 \<le> length m"
  shows "inet_pton6 stk (join6 pre @ 58 # 58 # join6 post @ 0 # r) m dst =
    Some (1, take dst m @ (word_bytes pre @ replicate (16 - 2 * (length pre + length post)) 0 @ word_bytes post) @ drop (dst + 16) m)"
  using pton6_colons [of pre stk "join6 post @ 0 # r" m dst] assms
    pton6_tail_words [of post "word_bytes pre" dst m "Some (length (word_bytes pre))" stk r "join6 post @ 0 # r"]
  by (simp add: place16_def)

lemma pton6_quad:
  assumes "length stk = 4" "dst + 16 \<le> length m"
  shows "inet_pton6 stk (58 # 58 # quad_text a b c d @ 0 # r) m dst = Some (1, take dst m @ (replicate 12 0 @ [a, b, c, d]) @ drop (dst + 16) m)"
  using pton6_colons [of "[]" stk "quad_text a b c d @ 0 # r" m dst] assms
    pton6_tail_quad [OF assms(1) _ assms(2), of "[]" "Some 0" a b c d r]
  by (simp add: place16_def)

lemma pton6_mapped:
  assumes "length stk = 4" "dst + 16 \<le> length m" "unat w \<le> 0xffff"
  shows "inet_pton6 stk (58 # 58 # fmt_x (unat w) @ 58 # quad_text a b c d @ 0 # r) m dst =
    Some (1, take dst m @ (replicate 10 0 @ word_bytes [w] @ [a, b, c, d]) @ drop (dst + 16) m)"
proof -
  obtain x y where x: "quad_text a b c d @ 0 # r = x # y" "x \<noteq> 0" using quad_text_length(2,3) [of a b c d] by (cases "quad_text a b c d") auto
  show ?thesis using pton6_colons [of "[]" stk "fmt_x (unat w) @ 58 # quad_text a b c d @ 0 # r" m dst] assms
    pton6_group [OF assms(3) _ x(2), of "[]" stk y "fmt_x (unat w) @ 58 # quad_text a b c d @ 0 # r" "Some 0"] x(1)
    pton6_tail_quad [OF assms(1) _ assms(2), of "word_bytes [w]" "Some 0" a b c d r]
    by (simp add: place16_def)
qed

section \<open>The run of zeros\<close>

definition zeros :: "u32 list \<Rightarrow> zrun \<Rightarrow> nat \<Rightarrow> bool" where
  "zeros ws r i \<longleftrightarrow> 0 \<le> base r \<and> 1 \<le> len r \<and> base r + len r \<le> int i \<and> (\<forall>j < length ws. base r \<le> int j \<and> int j < base r + len r \<longrightarrow> ws ! j = 0)"

lemma zeros_close:
  "base best = - 1 \<or> zeros ws best i \<Longrightarrow> base cur = - 1 \<or> zeros ws cur i \<Longrightarrow>
    base (zrun_close best cur) = - 1 \<or> zeros ws (zrun_close best cur) i"
  by (auto simp: zrun_close_def)

lemma zrun_loop_zeros:
  assumes "zrun_loop i ws' best cur = (best', cur')" "drop i ws = ws'" "i + length ws' = length ws"
    "base best = - 1 \<or> zeros ws best i" "base cur = - 1 \<or> zeros ws cur i \<and> base cur + len cur = int i"
  shows "(base best' = - 1 \<or> zeros ws best' (length ws)) \<and> (base cur' = - 1 \<or> zeros ws cur' (length ws))"
  using assms
proof (induction ws' arbitrary: i best cur)
  case Nil
  then show ?case by auto
next
  case (Cons w ws')
  have i: "i < length ws" "ws ! i = w" "drop (Suc i) ws = ws'"
    using Cons.prems(2,3) Cons_nth_drop_Suc [of i ws] by auto
  have up: "zeros ws r i \<Longrightarrow> zeros ws r (Suc i)" for r by (auto simp: zeros_def)
  have cl: "base (zrun_close best cur) = - 1 \<or> zeros ws (zrun_close best cur) (Suc i)" using zeros_close [of best ws i cur] Cons.prems up by auto
  have new: "w = 0 \<Longrightarrow> zeros ws \<lparr>base = int i, len = 1\<rparr> (Suc i)" using i by (auto simp: zeros_def)
  have more: "w = 0 \<Longrightarrow> zeros ws cur i \<and> base cur + len cur = int i \<Longrightarrow> zeros ws (cur\<lparr>len := len cur + 1\<rparr>) (Suc i)"
  proof -
    assume w: "w = 0" and c: "zeros ws cur i \<and> base cur + len cur = int i"
    have "ws ! j = 0" if "j < length ws" "base cur \<le> int j" "int j < int i + 1" for j
      using that c w i by (cases "j = i") (auto simp: zeros_def)
    then show ?thesis using c by (auto simp: zeros_def)
  qed
  have len: "Suc i + length ws' = length ws" and best: "base best = - 1 \<or> zeros ws best (Suc i)" using Cons.prems up by auto
  note IH = Cons.IH [OF _ i(3) len]
  consider "w = 0" "base cur = - 1" | "w = 0" "base cur \<noteq> - 1" | "w \<noteq> 0" "base cur = - 1" | "w \<noteq> 0" "base cur \<noteq> - 1" by blast
  then show ?case
  proof cases
    case 1
    then show ?thesis using IH [of best "\<lparr>base = int i, len = 1\<rparr>"] Cons.prems(1) best new by simp
  next
    case 2
    then show ?thesis using IH [of best "cur\<lparr>len := len cur + 1\<rparr>"] Cons.prems(1,5) best more by simp
  next
    case 3
    then show ?thesis using IH [of best cur] Cons.prems(1) best by simp
  next
    case 4
    then show ?thesis using IH [of "zrun_close best cur" "cur\<lparr>base := - 1\<rparr>"] Cons.prems(1) cl by simp
  qed
qed

lemma zrun_best_zeros:
  assumes "base (zrun_best ws) \<noteq> - 1"
  shows "zeros ws (zrun_best ws) (length ws) \<and> 2 \<le> len (zrun_best ws)"
proof -
  let ?z = "\<lparr>base = - 1, len = 0\<rparr>"
  obtain best cur where bc: "zrun_loop 0 ws ?z ?z = (best, cur)" by (cases "zrun_loop 0 ws ?z ?z")
  have "base (zrun_close best cur) = - 1 \<or> zeros ws (zrun_close best cur) (length ws)"
    using zrun_loop_zeros [OF bc, of ws] by (intro zeros_close) auto
  then show ?thesis using assms bc by (auto simp: zrun_best_def Let_def split: if_splits)
qed

section \<open>The text printed\<close>

definition in_run :: "zrun \<Rightarrow> nat \<Rightarrow> bool" where
  "in_run best i \<longleftrightarrow> base best \<noteq> - 1 \<and> int i \<ge> base best \<and> int i < base best + len best"

definition as_quad :: "zrun \<Rightarrow> u32 list \<Rightarrow> bool" where
  "as_quad best ws \<longleftrightarrow> base best = 0 \<and> (len best = 6 \<or> len best = 5 \<and> ws ! 5 = 0xffff)"

fun emit6 :: "zrun \<Rightarrow> u8 list \<Rightarrow> u32 list \<Rightarrow> nat \<Rightarrow> u8 list" where
  "emit6 best q ws 0 = []"
| "emit6 best q ws (Suc k) =
    (if in_run best (7 - k) then (if int (7 - k) = base best then [58] else []) @ emit6 best q ws k
     else (if 7 - k \<noteq> 0 then [58] else []) @
       (if 7 - k = 6 \<and> as_quad best ws then q else fmt_x (unat (ws ! (7 - k))) @ emit6 best q ws k))"

definition text6 :: "zrun \<Rightarrow> u8 list \<Rightarrow> u32 list \<Rightarrow> u8 list" where
  "text6 best q ws = emit6 best q ws 8 @ (if base best \<noteq> - 1 \<and> base best + len best = 8 then [58] else [])"

text \<open>The three parts of the text: before the run, in it and behind it.\<close>

lemma join6_snoc: "join6 (ws @ [w]) = join6 ws @ (if ws = [] then [] else [58]) @ fmt_x (unat w)"
  by (induction ws rule: join6.induct) auto

lemma join6_colons: "ws \<noteq> [] \<Longrightarrow> concat (map (\<lambda>w. 58 # fmt_x (unat w)) ws) = 58 # join6 ws"
  by (induction ws rule: join6.induct) auto

lemma emit6_before:
  "length ws = 8 \<Longrightarrow> \<not> as_quad best ws \<Longrightarrow> \<forall>i<j. \<not> in_run best i \<Longrightarrow> j \<le> 8 \<Longrightarrow>
    emit6 best q ws 8 = join6 (take j ws) @ emit6 best q ws (8 - j)"
proof (induction j)
  case (Suc j)
  have "8 - j = Suc (8 - Suc j)" "7 - (8 - Suc j) = j" using Suc.prems by auto
  then have "emit6 best q ws (8 - j) = (if j \<noteq> 0 then [58] else []) @ fmt_x (unat (ws ! j)) @ emit6 best q ws (8 - Suc j)"
    using Suc.prems by simp
  moreover have "take (Suc j) ws = take j ws @ [ws ! j]" using Suc.prems by (simp add: take_Suc_conv_app_nth)
  moreover have "take j ws = [] \<longleftrightarrow> j = 0" using Suc.prems by auto
  ultimately show ?case using Suc by (simp add: join6_snoc)
qed simp

lemma emit6_inside:
  assumes "base best = int b" "len best = int l" "b + l \<le> 8" "1 \<le> l"
  shows "emit6 best q ws (8 - b) = 58 # emit6 best q ws (8 - (b + l))"
proof -
  have "emit6 best q ws (8 - (b + 1)) = emit6 best q ws (8 - (b + j))" if "1 \<le> j" "j \<le> l" for j
    using that
  proof (induction j rule: nat_induct_at_least)
    case (Suc j)
    have "8 - (b + j) = Suc (8 - (b + Suc j))" "7 - (8 - (b + Suc j)) = b + j" using Suc assms(3) by auto
    then have "emit6 best q ws (8 - (b + j)) = emit6 best q ws (8 - (b + Suc j))" using Suc assms(1,2) by (simp add: in_run_def)
    then show ?case using Suc by simp
  qed simp
  from this [of l] have "emit6 best q ws (8 - (b + 1)) = emit6 best q ws (8 - (b + l))" using assms(4) by simp
  moreover have "8 - b = Suc (8 - (b + 1))" "7 - (8 - (b + 1)) = b" using assms by auto
  ultimately show ?thesis using assms by (simp add: in_run_def)
qed

lemma emit6_behind:
  "length ws = 8 \<Longrightarrow> \<not> as_quad best ws \<Longrightarrow> k \<le> 7 \<Longrightarrow> base best + len best \<le> int (8 - k) \<Longrightarrow>
    emit6 best q ws k = concat (map (\<lambda>w. 58 # fmt_x (unat w)) (drop (8 - k) ws))"
proof (induction k)
  case (Suc k)
  have "8 - Suc k = 7 - k" "8 - k = Suc (7 - k)" using Suc.prems by auto
  moreover have "drop (7 - k) ws = ws ! (7 - k) # drop (Suc (7 - k)) ws" using Suc.prems by (simp add: Cons_nth_drop_Suc)
  moreover have "\<not> in_run best (7 - k)" "7 - k \<noteq> 0" using Suc.prems by (auto simp: in_run_def)
  ultimately show ?case using Suc by simp
qed simp

lemma text6_plain: "length ws = 8 \<Longrightarrow> base best = - 1 \<Longrightarrow> text6 best q ws = join6 ws"
  using emit6_before [of ws best 8 q] by (simp add: text6_def in_run_def as_quad_def)

lemma text6_short:
  assumes "length ws = 8" "base best = int b" "len best = int l" "2 \<le> l" "b + l \<le> 8" "\<not> as_quad best ws"
  shows "text6 best q ws = join6 (take b ws) @ 58 # 58 # join6 (drop (b + l) ws)"
proof -
  have "emit6 best q ws 8 = join6 (take b ws) @ 58 # emit6 best q ws (8 - (b + l))"
    using emit6_before [of ws best b q] emit6_inside [of best b l q ws] assms by (simp add: in_run_def)
  moreover have "emit6 best q ws (8 - (b + l)) = concat (map (\<lambda>w. 58 # fmt_x (unat w)) (drop (b + l) ws))"
    using emit6_behind [of ws best "8 - (b + l)" q] assms by simp
  ultimately show ?thesis using assms join6_colons [of "drop (b + l) ws"] by (cases "b + l = 8") (simp_all add: text6_def)
qed

lemma text6_quad:
  assumes "base best = 0"
  shows "len best = 6 \<Longrightarrow> text6 best q ws = 58 # 58 # q"
    and "len best = 5 \<Longrightarrow> ws ! 5 = 0xffff \<Longrightarrow> text6 best q ws = 58 # 58 # fmt_x 0xffff @ 58 # q"
proof -
  have e2: "emit6 best q ws 2 = 58 # q" if "as_quad best ws" using that by (auto simp: numeral_2_eq_2 in_run_def as_quad_def)
  show "text6 best q ws = 58 # 58 # q" if "len best = 6"
    using emit6_inside [of best 0 6 q ws] e2 that assms by (simp add: text6_def as_quad_def)
  show "text6 best q ws = 58 # 58 # fmt_x 0xffff @ 58 # q" if "len best = 5" "ws ! 5 = 0xffff"
  proof -
    have "unat (ws ! 5) = 0xffff" using that(2) by simp
    moreover have "emit6 best q ws 3 = 58 # fmt_x (unat (ws ! 5)) @ emit6 best q ws 2"
      using that(1) assms emit6.simps(2) [of best q ws 2] by (simp add: in_run_def)
    ultimately have "emit6 best q ws 3 = 58 # fmt_x 0xffff @ emit6 best q ws 2" by simp
    then show ?thesis using emit6_inside [of best 0 5 q ws] e2 that assms by (simp add: text6_def as_quad_def)
  qed
qed

section \<open>The array holds the text\<close>

definition appended :: "u8 list \<Rightarrow> nat \<Rightarrow> u8 list \<Rightarrow> u8 list \<Rightarrow> bool" where
  "appended tmp tp t tmp' \<longleftrightarrow> length tmp' = 46 \<and> take (tp + length t) tmp' = take tp tmp @ t"

lemma appended_trans:
  "appended tmp tp t tmp1 \<Longrightarrow> appended tmp1 (tp + length t) u tmp2 \<Longrightarrow> appended tmp tp (t @ u) tmp2"
  by (simp add: appended_def add.assoc)

lemma appended_nil: "length tmp = 46 \<Longrightarrow> appended tmp tp [] tmp"
  by (simp add: appended_def)

lemma ntop6_put_exact:
  assumes "length tmp = 46" "tp < 45"
  shows "ntop6_put tmp tp c = Some (Inr (tmp[tp := c], tp + 1))" "appended tmp tp [c] (tmp[tp := c])"
  using assms by (simp_all add: ntop6_put_def wr_def appended_def take_Suc_conv_app_nth)

lemma appended_write: "length tmp = 46 \<Longrightarrow> tp + length t < 46 \<Longrightarrow> appended tmp tp t (take tp tmp @ t @ 0 # drop (tp + length t + 1) tmp)"
  by (simp add: appended_def)

text \<open>A word, or the dotted quad, behind its colon.\<close>

definition ntop6_word ::
  "u8 list \<Rightarrow> u8 list \<Rightarrow> u32 list \<Rightarrow> zrun \<Rightarrow> nat \<Rightarrow> u8 list \<Rightarrow> nat \<Rightarrow> (int option + u8 list \<times> nat) option" where
  "ntop6_word stk16 src words best k tmp tp =
    (if 7 - k = 6 \<and> as_quad best words then do {
       (ok, err, tmp) \<leftarrow> inet_ntop4 stk16 src 12 tmp tp (46 - tp);
       if \<not> ok then Some (Inl err) else do { n \<leftarrow> strlen (drop tp tmp); Some (Inr (tmp, tp + n)) }
     }
     else do {
       (tmp, advance) \<leftarrow> snprintf_text tmp tp (46 - tp) (fmt_x (unat (words ! (7 - k))));
       if advance \<le> 0 \<or> advance \<ge> 46 - int tp then Some (Inl None)
       else ntop6_loop stk16 src words best k tmp (tp + nat advance)
     })"

lemma ntop6_loop_word:
  assumes "\<not> in_run best (7 - k)" "tp < 46" "length ws = 8"
    "(if 7 - k \<noteq> 0 then ntop6_put tmp tp 58 else Some (Inr (tmp, tp))) = Some (Inr (tmp1, tp1))"
  shows "ntop6_loop stk16 src ws best (Suc k) tmp tp = ntop6_word stk16 src ws best k tmp1 tp1"
proof -
  have r: "rd ws 5 = Some (ws ! 5)" "rd ws (7 - k) = Some (ws ! (7 - k))" using assms(3) by (simp_all add: rd_def)
  have b: "\<not> (base best \<noteq> - 1 \<and> int (7 - k) \<ge> base best \<and> int (7 - k) < base best + len best)" using assms(1) by (simp add: in_run_def)
  show ?thesis
    unfolding ntop6_loop.simps(2) Let_def assms(4) if_not_P [OF b] ntop6_word_def as_quad_def using assms(2) r by auto
qed

lemma ntop6_word_quad:
  assumes "length stk16 = 16" "src = pre @ [a, b, c, d]" "length pre = 12" "length tmp = 46"
    "tp + length (quad_text a b c d) < 45" "7 - k = 6 \<and> as_quad best ws"
  shows "\<exists>tmp'. ntop6_word stk16 src ws best k tmp tp = Some (Inr (tmp', tp + length (quad_text a b c d))) \<and> appended tmp tp (quad_text a b c d) tmp'"
proof -
  let ?q = "quad_text a b c d"
  let ?t = "take tp tmp @ ?q @ 0 # drop (tp + length ?q + 1) tmp"
  have "inet_ntop4 stk16 src 12 tmp tp (46 - tp) = Some (True, None, ?t)"
    using inet_ntop4_exact [of src pre a b c d "[]" stk16 tp "46 - tp" tmp] assms by (simp add: Let_def)
  moreover have "strlen (drop tp ?t) = Some (length ?q)" using quad_text_length(3) [of a b c d] assms(4,5) by simp
  ultimately show ?thesis using assms appended_write [of tmp tp ?q] by (simp add: ntop6_word_def)
qed

lemma ntop6_word_hex:
  assumes "length ws = 8" "length tmp = 46" "7 - k < 8" "\<not> (7 - k = 6 \<and> as_quad best ws)" "tp + length (fmt_x (unat (ws ! (7 - k)))) < 45"
  shows "\<exists>tmp'. ntop6_word stk16 src ws best k tmp tp = ntop6_loop stk16 src ws best k tmp' (tp + length (fmt_x (unat (ws ! (7 - k))))) \<and>
    appended tmp tp (fmt_x (unat (ws ! (7 - k)))) tmp'"
proof -
  let ?f = "fmt_x (unat (ws ! (7 - k)))"
  have "snprintf_text tmp tp (46 - tp) ?f = Some (take tp tmp @ ?f @ 0 # drop (tp + length ?f + 1) tmp, int (length ?f))"
    using assms by (intro snprintf_fits) auto
  moreover have "?f \<noteq> []" using fmt_x_hex by blast
  ultimately show ?thesis using assms appended_write [of tmp tp ?f] by (auto simp: ntop6_word_def)
qed

lemma ntop6_loop_emit:
  assumes "length ws = 8" "length stk16 = 16" "src = pre @ [a, b, c, d]" "length pre = 12"
  shows "k \<le> 8 \<Longrightarrow> length tmp = 46 \<Longrightarrow> e = emit6 best (quad_text a b c d) ws k \<Longrightarrow> tp + length e < 45 \<Longrightarrow>
    \<exists>tmp'. ntop6_loop stk16 src ws best k tmp tp = Some (Inr (tmp', tp + length e)) \<and> appended tmp tp e tmp'"
proof (induction k arbitrary: tmp tp e)
  case 0
  then show ?case by (auto intro: appended_nil)
next
  case (Suc k)
  let ?q = "quad_text a b c d"
  let ?rest = "emit6 best ?q ws k"
  have k: "k \<le> 8" "7 - k < 8" using Suc.prems(1) by auto
  note IH = Suc.IH [OF k(1) _ refl]
  consider (start) "in_run best (7 - k)" "int (7 - k) = base best" | (skip) "in_run best (7 - k)" "int (7 - k) \<noteq> base best"
    | (word) "\<not> in_run best (7 - k)" by blast
  then show ?case
  proof cases
    case start
    then have e: "e = 58 # ?rest" "tp < 45" using Suc.prems by simp_all
    obtain tmp' where t: "ntop6_loop stk16 src ws best k (tmp[tp := 58]) (tp + 1) = Some (Inr (tmp', tp + 1 + length ?rest))"
        "appended (tmp[tp := 58]) (tp + 1) ?rest tmp'"
      using IH [of "tmp[tp := 58]" "tp + 1"] Suc.prems(2,4) e by auto
    have "appended tmp tp ([58] @ ?rest) tmp'" using appended_trans [OF ntop6_put_exact(2)] t(2) Suc.prems(2) e(2) by simp
    then show ?thesis using t(1) start e ntop6_put_exact(1) [OF Suc.prems(2) e(2)] by (simp add: in_run_def)
  next
    case skip
    then have e: "e = ?rest" using Suc.prems by simp
    then show ?thesis using IH [of tmp tp] Suc.prems(2,4) skip by (auto simp: in_run_def)
  next
    case word
    let ?col = "if 7 - k \<noteq> 0 then [58] else [] :: u8 list"
    let ?quad = "7 - k = 6 \<and> as_quad best ws"
    have e: "e = ?col @ (if ?quad then ?q else fmt_x (unat (ws ! (7 - k))) @ ?rest)" using Suc.prems(3) word by simp
    obtain tmp1 where c: "(if 7 - k \<noteq> 0 then ntop6_put tmp tp 58 else Some (Inr (tmp, tp))) = Some (Inr (tmp1, tp + length ?col))"
        "appended tmp tp ?col tmp1"
      using ntop6_put_exact [OF Suc.prems(2), of tp 58] appended_nil [OF Suc.prems(2)] Suc.prems(4) e by (cases "7 - k \<noteq> 0") auto
    let ?tp = "tp + length ?col"
    have l: "length tmp1 = 46" using c(2) by (simp add: appended_def)
    have body: "ntop6_loop stk16 src ws best (Suc k) tmp tp = ntop6_word stk16 src ws best k tmp1 ?tp"
      using ntop6_loop_word [OF word _ assms(1) c(1)] Suc.prems(4) by simp
    show ?thesis
    proof (cases ?quad)
      case True
      then have "?tp + length ?q < 45" using e Suc.prems(4) by simp
      then obtain tmp' where "ntop6_word stk16 src ws best k tmp1 ?tp = Some (Inr (tmp', ?tp + length ?q))" "appended tmp1 ?tp ?q tmp'"
        using ntop6_word_quad [OF assms(2-4) l] True by blast
      then show ?thesis using body e True appended_trans [OF c(2)] by (auto simp: add.assoc)
    next
      case False
      let ?f = "fmt_x (unat (ws ! (7 - k)))"
      have f: "?tp + length ?f < 45" "?tp + length ?f + length ?rest < 45" using e False Suc.prems(4) by simp_all
      obtain tmp2 where w: "ntop6_word stk16 src ws best k tmp1 ?tp = ntop6_loop stk16 src ws best k tmp2 (?tp + length ?f)" "appended tmp1 ?tp ?f tmp2"
        using ntop6_word_hex [OF assms(1) l k(2) False f(1)] by blast
      have "length tmp2 = 46" using w(2) by (simp add: appended_def)
      then obtain tmp' where t: "ntop6_loop stk16 src ws best k tmp2 (?tp + length ?f) = Some (Inr (tmp', ?tp + length ?f + length ?rest))"
          "appended tmp2 (?tp + length ?f) ?rest tmp'"
        using IH [of tmp2 "?tp + length ?f"] f(2) by blast
      have "appended tmp tp (?col @ ?f @ ?rest) tmp'" using appended_trans [OF c(2) appended_trans [OF w(2) t(2)]] .
      then show ?thesis using body w(1) t(1) e False by (auto simp: add.assoc)
    qed
  qed
qed

section \<open>The words and the bytes\<close>

lemma pair_word:
  fixes x y :: u8
  defines "w \<equiv> push_bit 8 (ucast x) OR ucast y :: u32"
  shows "word_bytes [w] = [x, y]" "unat w \<le> 0xffff"
proof -
  show "word_bytes [w] = [x, y]" unfolding w_def word_bytes_def by (auto intro!: bit_word_eqI simp: bit_simps bit_byte)
  have "take_bit 16 w = w" unfolding w_def by (rule bit_word_eqI) (auto simp: bit_simps bit_byte intro: ccontr)
  then have "unat w = take_bit 16 (unat w)" by (metis unsigned_take_bit_eq)
  then have "unat w < 2 ^ 16" by (metis take_bit_nat_less_exp)
  then show "unat w \<le> 0xffff" by simp
qed

lemma list_update_numeral: "(x # xs)[numeral n := v] = x # xs[pred_numeral n := v]"
  by (simp add: numeral_eq_Suc)

lemma ntop6_words_exact:
  assumes "length src = 16"
  obtains ws where "ntop6_words src = Some ws" "length ws = 8" "words16 ws" "word_bytes ws = src"
proof -
  obtain a0 a1 a2 a3 a4 a5 a6 a7 b0 b1 b2 b3 b4 b5 b6 b7 where src: "src = [a0, a1, a2, a3, a4, a5, a6, a7, b0, b1, b2, b3, b4, b5, b6, b7]"
    using assms by (auto simp: length_Suc_conv eval_nat_numeral)
  let ?w = "\<lambda>x y. push_bit 8 (ucast (x :: u8)) OR ucast (y :: u8) :: u32"
  let ?ws = "[?w a0 a1, ?w a2 a3, ?w a4 a5, ?w a6 a7, ?w b0 b1, ?w b2 b3, ?w b4 b5, ?w b6 b7]"
  have upt: "[0..<16] = [0, 1, 2, 3, 4, 5, 6, 7, 8, 9, 10, 11, 12, 13, 14, 15]" by (simp add: upt_rec)
  have rep: "replicate 8 (0 :: u32) = [0, 0, 0, 0, 0, 0, 0, 0]" by (simp add: numeral_eq_Suc)
  have "ntop6_words src = Some ?ws" unfolding src ntop6_words_def upt rep by (simp add: list_update_numeral)
  moreover have "words16 ?ws" by (simp add: pair_word(2))
  moreover have "word_bytes ?ws = src" unfolding src
    by (subst word_bytes_Cons, subst pair_word(1))+ simp
  ultimately show ?thesis using that by simp
qed

section \<open>The text of an address is read back\<close>

lemma zeros_split:
  assumes "zeros ws best (length ws)"
  obtains b l where "base best = int b" "len best = int l" "1 \<le> l" "b + l \<le> length ws" "ws = take b ws @ replicate l 0 @ drop (b + l) ws"
proof -
  obtain b l where b: "base best = int b" "len best = int l" "1 \<le> l" "b + l \<le> length ws"
    using assms zero_le_imp_eq_int [of "base best"] zero_le_imp_eq_int [of "len best"] by (auto simp: zeros_def)
  have "take l (drop b ws) = replicate l 0"
    using assms b by (intro nth_equalityI) (auto simp: zeros_def)
  then have "ws = take b ws @ replicate l 0 @ drop (b + l) ws"
    by (metis append_take_drop_id drop_drop add.commute)
  then show ?thesis using that b by blast
qed

lemma word_bytes_zeros: "word_bytes (replicate l 0) = replicate (2 * l) 0"
  by (induction l) (simp_all add: word_bytes_def)

lemma words16_parts: "words16 ws \<Longrightarrow> words16 (take i ws) \<and> words16 (drop i ws)"
  by (auto simp: words16_def list_all_iff dest: in_set_takeD in_set_dropD)

lemma length_join6: "words16 ws \<Longrightarrow> length (join6 ws) \<le> 5 * length ws \<and> 0 \<notin> set (join6 ws)"
proof (induction ws rule: join6.induct)
  case 1
  then show ?case by simp
next
  case (2 w)
  then show ?case using length_fmt [of "unat w" 16 3] fmt_x_hex [of "unat w"] is_hex_strchr by (auto simp: list_all_iff)
next
  case (3 w v ws)
  then show ?case using length_fmt [of "unat w" 16 3] fmt_x_hex [of "unat w"] is_hex_strchr by (fastforce simp: list_all_iff)
qed

definition reads_back :: "u8 list \<Rightarrow> u8 list \<Rightarrow> bool" where
  "reads_back t bs \<longleftrightarrow> length t \<le> 40 \<and> 0 \<notin> set t \<and>
    (\<forall>stk r m dst. length stk = 4 \<longrightarrow> dst + 16 \<le> length m \<longrightarrow>
       inet_pton6 stk (t @ 0 # r) m dst = Some (1, take dst m @ bs @ drop (dst + 16) m))"

lemma text6_reads_back:
  assumes "length ws = 8" "words16 ws" "drop 12 (word_bytes ws) = [a, b, c, d]"
  shows "reads_back (text6 (zrun_best ws) (quad_text a b c d) ws) (word_bytes ws)"
proof (cases "base (zrun_best ws) = - 1")
  case True
  then show ?thesis using assms pton6_plain length_join6 [OF assms(2)] by (simp add: reads_back_def text6_plain)
next
  case False
  let ?best = "zrun_best ws" and ?q = "quad_text a b c d"
  note q = quad_text_length [of a b c d]
  obtain b' l where r: "base ?best = int b'" "len ?best = int l" "b' + l \<le> 8" "ws = take b' ws @ replicate l 0 @ drop (b' + l) ws" "2 \<le> l"
    using zrun_best_zeros [OF False] zeros_split [of ws ?best] assms(1) by (metis of_nat_le_iff of_nat_numeral)
  have w: "word_bytes ws = word_bytes (take b' ws) @ replicate (2 * l) 0 @ word_bytes (drop (b' + l) ws)"
    by (subst r(4)) (simp add: word_bytes_zeros)
  consider (short) "\<not> as_quad ?best ws" | (quad) "b' = 0" "l = 6" | (mapped) "b' = 0" "l = 5" "ws ! 5 = 0xffff"
    using r(1,2) by (auto simp: as_quad_def)
  then show ?thesis
  proof cases
    case short
    let ?pre = "take b' ws" and ?post = "drop (b' + l) ws"
    have p: "words16 ?pre" "words16 ?post" "length ?pre + length ?post = 8 - l" "length ?pre + length ?post < 8"
      using words16_parts [OF assms(2)] assms(1) r(3,5) by auto
    have t: "text6 ?best ?q ws = join6 ?pre @ 58 # 58 # join6 ?post" using text6_short [OF assms(1) r(1,2,5,3) short] .
    have n: "16 - 2 * (8 - l) = 2 * l" using r(3) by simp
    show ?thesis using pton6_short [OF p(1,2,4)] length_join6 [OF p(1)] length_join6 [OF p(2)] p(3) w r(3,5) n assms(1)
      by (auto simp: reads_back_def t)
  next
    case quad
    then have "word_bytes ws = replicate 12 0 @ word_bytes (drop 6 ws)" using w by simp
    then have "word_bytes ws = replicate 12 0 @ [a, b, c, d]" using assms(3) by simp
    then show ?thesis using pton6_quad [of _ _ _ a b c d] text6_quad(1) [of ?best ?q ws] quad r q by (simp add: reads_back_def)
  next
    case mapped
    have d: "drop 5 ws = 0xffff # drop 6 ws" using mapped(3) assms(1) Cons_nth_drop_Suc [of 5 ws] by simp
    have "word_bytes ws = replicate 10 0 @ word_bytes [0xffff] @ word_bytes (drop 6 ws)"
      using w mapped d word_bytes_Cons [of "0xffff" "drop 6 ws"] by simp
    then have e: "word_bytes ws = replicate 10 0 @ word_bytes [0xffff] @ [a, b, c, d]" using assms(3) by simp
    have u: "unat (0xffff :: u32) = 0xffff" by simp
    have "length (fmt_x 0xffff) \<le> 4" "0 \<notin> set (fmt_x 0xffff)"
      using length_fmt [of "0xffff" 16 3] fmt_x_hex [of "0xffff"] is_hex_strchr by (auto simp: list_all_iff)
    then show ?thesis using pton6_mapped [of _ _ _ "0xffff" a b c d] text6_quad(2) [of ?best ws ?q] mapped r q e
      by (simp add: reads_back_def u)
  qed
qed

text \<open>What \<open>inet_ntop6\<close> does, for a buffer of any size.\<close>

lemma inet_ntop6_exact:
  assumes "length src = 16" "length stk46 = 46" "length stk16 = 16" "dst + siz \<le> length m"
  obtains t where "reads_back t src"
    "inet_ntop6 stk46 stk16 src m dst siz =
      (if siz \<le> length t then Some (False, Some ENOSPC, m) else Some (True, None, take dst m @ t @ 0 # drop (dst + length t + 1) m))"
proof -
  obtain ws where ws: "ntop6_words src = Some ws" "length ws = 8" "words16 ws" "word_bytes ws = src" using ntop6_words_exact [OF assms(1)] .
  obtain a b c d where abcd: "drop 12 src = [a, b, c, d]"
    using assms(1) length_drop [of 12 src] by (auto simp: length_Suc_conv eval_nat_numeral simp del: length_drop)
  let ?best = "zrun_best ws" and ?q = "quad_text a b c d"
  let ?e = "emit6 ?best ?q ws 8" and ?t = "text6 ?best ?q ws"
  have rb: "reads_back ?t src" using text6_reads_back [OF ws(2,3), of a b c d] ws(4) abcd by simp
  let ?tail = "base ?best \<noteq> - 1 \<and> base ?best + len ?best = 8"
  have t: "?t = ?e @ (if ?tail then [58] else [])" "length ?t \<le> 40" "0 \<notin> set ?t" "length ?e \<le> 40" using rb by (auto simp: text6_def reads_back_def)
  have "src = take 12 src @ [a, b, c, d]" "length (take 12 src) = 12" using abcd assms(1) append_take_drop_id [of 12 src] by simp_all
  then obtain tmp1 where tmp1: "ntop6_loop stk16 src ws ?best 8 stk46 0 = Some (Inr (tmp1, length ?e))" "appended stk46 0 ?e tmp1"
    using ntop6_loop_emit [OF ws(2) assms(3), where src = src and pre = "take 12 src" and k = 8 and tmp = stk46 and best = ?best and tp = 0 and a = a and b = b and c = c and d = d, OF _ _ _ _ refl] assms(2) t(4) by auto
  then have l1: "length tmp1 = 46" by (simp add: appended_def)
  obtain tmp2 where tmp2: "(if ?tail then ntop6_put tmp1 (length ?e) 58 else Some (Inr (tmp1, length ?e))) = Some (Inr (tmp2, length ?t))"
      "appended stk46 0 ?t tmp2"
    using ntop6_put_exact [OF l1, of "length ?e" 58] appended_trans [OF tmp1(2), of "[58]"] tmp1(2) t(1,4) by (cases ?tail) auto
  then have l2: "length tmp2 = 46" by (simp add: appended_def)
  have put: "ntop6_put tmp2 (length ?t) 0 = Some (Inr (tmp2[length ?t := 0], length ?t + 1))" "appended stk46 0 (?t @ [0]) (tmp2[length ?t := 0])"
    using ntop6_put_exact [OF l2, of "length ?t" 0] appended_trans [OF tmp2(2), of "[0]"] t(2) by simp_all
  define tmp3 where "tmp3 = tmp2[length ?t := 0]"
  obtain x where x: "tmp3 = ?t @ 0 # x"
    using put(2) append_take_drop_id [of "length ?t + 1" tmp3] unfolding tmp3_def [symmetric] appended_def
    by (metis add_0 append.assoc append_Cons append_Nil length_append_singleton Suc_eq_plus1 take_0)
  have run: "inet_ntop6 stk46 stk16 src m dst siz =
      (if length ?t + 1 > siz then Some (False, Some ENOSPC, m)
       else do { (m1, _) \<leftarrow> strlcpy m dst tmp3 siz; Some (True, None, m1) })"
    unfolding inet_ntop6_def Let_def using ws(1) tmp1(1) tmp2(1) put(1) by (simp add: tmp3_def)
  have "inet_ntop6 stk46 stk16 src m dst siz =
      (if siz \<le> length ?t then Some (False, Some ENOSPC, m) else Some (True, None, take dst m @ ?t @ 0 # drop (dst + length ?t + 1) m))"
  proof (cases "siz \<le> length ?t")
    case False
    then obtain m1 where "strlcpy m dst (?t @ 0 # x) siz = Some (m1, length ?t)" "blit m dst (take (siz - 1) ?t @ [0]) = Some m1"
      using strlcpy_blit [OF t(3) _ assms(4)] by (metis le0 le_zero_eq)
    then show ?thesis using False x by (auto simp: run blit_def split: if_splits)
  qed (simp add: run)
  then show ?thesis using that rb by blast
qed

section \<open>Any text\<close>

text \<open>The state of the loop is sound: the offsets lie in the array.\<close>

definition pton6_ok :: "u8 list \<Rightarrow> nat \<Rightarrow> nat option \<Rightarrow> bool" where
  "pton6_ok tmp tp cp \<longleftrightarrow> length tmp = 16 \<and> tp \<le> 16 \<and> (case cp of None \<Rightarrow> True | Some c \<Rightarrow> c \<le> tp)"

lemma strchr_hex: "c \<noteq> 0 \<Longrightarrow> \<exists>p. strchr xdigits_l (uint (c :: u8)) = Some p" "c \<noteq> 0 \<Longrightarrow> \<exists>p. strchr xdigits_u (uint c) = Some p"
  using strchr_search [of "butlast xdigits_l" c "[]"] strchr_search [of "butlast xdigits_u" c "[]"]
  by (simp_all add: xdigits_l_def xdigits_u_def)

lemma pton6_store_ok: "length tmp = 16 \<Longrightarrow> tp + 2 \<le> 16 \<Longrightarrow> \<exists>tmp'. pton6_store tmp tp w = Some tmp' \<and> length tmp' = 16"
  by (simp add: pton6_store_def wr_def)

definition pton6_ends :: "(u8 list \<times> nat \<times> nat option \<times> bool \<times> u32) option option \<Rightarrow> bool" where
  "pton6_ends r \<longleftrightarrow> (case r of None \<Rightarrow> False | Some None \<Rightarrow> True | Some (Some (tmp, tp, cp, saw, val)) \<Rightarrow> pton6_ok tmp tp cp)"

lemma pton6_loop_ok:
  assumes "length stk = 4"
  shows "0 \<notin> set s \<Longrightarrow> 0 \<notin> set cur \<Longrightarrow> pton6_ok tmp tp cp \<Longrightarrow>
    pton6_ends (pton6_loop stk (s @ 0 # r) (cur @ 0 # r) tmp tp cp saw n val)"
proof (induction s arbitrary: cur tmp tp cp saw n val)
  case Nil
  then show ?case by (simp add: pton6_ends_def)
next
  case (Cons c s)
  then have c: "c \<noteq> 0" "0 \<notin> set s" by auto
  obtain p q where pq: "strchr xdigits_l (uint c) = Some p" "strchr xdigits_u (uint c) = Some q" using strchr_hex [OF c(1)] by blast
  let ?pch = "if p = None then q else p"
  have quad: "\<exists>ok tmp'. inet_pton4 stk (cur @ 0 # r) tmp tp = Some (ok, tmp') \<and> pton6_ok tmp' (tp + 4) cp" if "tp + 4 \<le> 16"
    using inet_pton4_exact [OF Cons.prems(2) assms, of tp tmp r] Cons.prems(3) that
    by (auto simp: pton6_ok_def quad_ok_def quad_bytes_def split: option.splits)
  have store: "\<exists>tmp'. pton6_store tmp tp val = Some tmp' \<and> pton6_ok tmp' (tp + 2) cp" if "tp + 2 \<le> 16"
    using pton6_store_ok [of tmp tp val] Cons.prems(3) that by (auto simp: pton6_ok_def split: option.splits)
  have colon: "pton6_ok tmp tp (Some tp)" using Cons.prems(3) by (simp add: pton6_ok_def)
  obtain h where h: "rd (s @ 0 # r) 0 = Some h" by (cases s) (auto simp: rd_def)
  consider (digit) d where "?pch = Some d" | (first) "?pch = None" "c = 58" "\<not> saw" | (sep) "?pch = None" "c = 58" "saw" | (other) "?pch = None" "c \<noteq> 58"
    by (cases ?pch) auto
  then show ?case
  proof cases
    case digit
    then show ?thesis using Cons.IH [OF c(2) Cons.prems(2,3)] c pq by (auto simp: pton6_ends_def Let_def split: if_splits)
  next
    case first
    then show ?thesis using Cons.IH [OF c(2) c(2) colon] c pq by (auto simp: pton6_ends_def split: if_splits)
  next
    case sep
    then show ?thesis using Cons.IH [OF c(2) c(2)] store c pq h by (auto simp: pton6_ends_def split: if_splits)
  next
    case other
    then show ?thesis using quad c pq by (auto simp: pton6_ends_def split: if_splits)
  qed
qed

lemma pton6_shift_ok: "length tmp = 16 \<Longrightarrow> c + n \<le> 16 \<Longrightarrow> k \<le> n \<Longrightarrow> \<exists>tmp'. pton6_shift tmp c n k = Some tmp' \<and> length tmp' = 16"
  by (induction k arbitrary: tmp) (auto simp: rd_def wr_def)

lemma pton6_finish_ok:
  assumes "pton6_ends (Some x)" "dst + 16 \<le> length m"
  shows "pton6_finish m dst x = Some (0, m) \<or> (\<exists>bs. length bs = 16 \<and> pton6_finish m dst x = Some (1, take dst m @ bs @ drop (dst + 16) m))"
proof (cases x)
  case None
  then show ?thesis by (simp add: pton6_finish_def)
next
  case (Some y)
  then obtain tmp tp cp saw val where y: "x = Some (tmp, tp, cp, saw, val)" "pton6_ok tmp tp cp" using assms(1) by (cases y) (auto simp: pton6_ends_def)
  have fin: "pton6_finish m dst (Some (tmp, tp, cp, False, val)) = Some (0, m) \<or>
      (\<exists>bs. length bs = 16 \<and> pton6_finish m dst (Some (tmp, tp, cp, False, val)) = Some (1, take dst m @ bs @ drop (dst + 16) m))"
    if "pton6_ok tmp tp cp" for tmp tp
    using that pton6_shift_ok [of tmp "the cp" "tp - the cp" "tp - the cp"] assms(2)
    by (cases cp) (auto simp: pton6_ok_def pton6_finish_def blit_def)
  show ?thesis
  proof (cases "saw \<and> tp + 2 \<le> 16")
    case True
    obtain tmp' where t: "pton6_store tmp tp val = Some tmp'" "length tmp' = 16" using pton6_store_ok [of tmp tp val] True y(2) by (auto simp: pton6_ok_def)
    have "pton6_finish m dst x = pton6_finish m dst (Some (tmp', tp + 2, cp, False, val))" using y(1) t(1) True by (simp add: pton6_finish_def)
    moreover have "pton6_ok tmp' (tp + 2) cp" using y(2) t(2) True by (auto simp: pton6_ok_def split: option.splits)
    ultimately show ?thesis using fin by metis
  next
    case False
    then show ?thesis using fin [OF y(2)] y(1) by (cases saw) (auto simp: pton6_finish_def)
  qed
qed

lemma inet_pton6_safe:
  assumes "0 \<notin> set s" "length stk = 4" "dst + 16 \<le> length m"
  shows "inet_pton6 stk (s @ 0 # r) m dst = Some (0, m) \<or>
    (\<exists>bs. length bs = 16 \<and> inet_pton6 stk (s @ 0 # r) m dst = Some (1, take dst m @ bs @ drop (dst + 16) m))"
proof -
  have loop: "Option.bind (pton6_loop stk (t @ 0 # r) (t @ 0 # r) (replicate 16 0) 0 None False 0 0) (pton6_finish m dst) = Some (0, m) \<or>
      (\<exists>bs. length bs = 16 \<and> Option.bind (pton6_loop stk (t @ 0 # r) (t @ 0 # r) (replicate 16 0) 0 None False 0 0) (pton6_finish m dst) =
        Some (1, take dst m @ bs @ drop (dst + 16) m))" if "0 \<notin> set t" for t
  proof -
    have "pton6_ends (pton6_loop stk (t @ 0 # r) (t @ 0 # r) (replicate 16 0) 0 None False 0 0)"
      using that by (intro pton6_loop_ok [OF assms(2)]) (simp_all add: pton6_ok_def)
    then obtain x where "pton6_loop stk (t @ 0 # r) (t @ 0 # r) (replicate 16 0) 0 None False 0 0 = Some x" "pton6_ends (Some x)"
      by (cases "pton6_loop stk (t @ 0 # r) (t @ 0 # r) (replicate 16 0) 0 None False 0 0") (auto simp: pton6_ends_def)
    then show ?thesis using pton6_finish_ok [OF _ assms(3)] by simp
  qed
  show ?thesis
  proof (cases "s \<noteq> [] \<and> hd s = 58")
    case True
    then obtain t where t: "s = 58 # t" by (cases s) auto
    obtain h where h: "rd (58 # t @ 0 # r) 1 = Some h" by (cases t) (auto simp: rd_def)
    have eq: "inet_pton6 stk (s @ 0 # r) m dst =
        (if h \<noteq> 58 then Some (0, m) else Option.bind (pton6_loop stk (t @ 0 # r) (t @ 0 # r) (replicate 16 0) 0 None False 0 0) (pton6_finish m dst))"
      using t h by (simp add: inet_pton6_def rd_def)
    then show ?thesis using loop [of t] assms(1) t by auto
  next
    case False
    then have "rd (s @ 0 # r) 0 = Some (if s = [] then 0 else hd s)" by (cases s) (auto simp: rd_def)
    then have "inet_pton6 stk (s @ 0 # r) m dst =
        Option.bind (pton6_loop stk (s @ 0 # r) (s @ 0 # r) (replicate 16 0) 0 None False 0 0) (pton6_finish m dst)"
      using False by (auto simp: inet_pton6_def)
    then show ?thesis using loop [OF assms(1)] by simp
  qed
qed

text \<open>
  Eight words with a double colon among them: the words behind the colons are lost, since the shift moves each byte
  onto itself and then clears it.
\<close>

lemma pton6_shift_full:
  "length mid = n \<Longrightarrow> length pre + n = 16 \<Longrightarrow> k \<le> n \<Longrightarrow>
    pton6_shift (pre @ take k mid @ replicate (n - k) 0) (length pre) n k = Some (pre @ replicate n 0)"
proof (induction k)
  case (Suc k)
  then have "n - k = Suc (n - Suc k)" "16 - (n - k) = length pre + k" by auto
  then show ?case using Suc by (simp add: rd_def wr_def nth_append list_update_append take_Suc_conv_app_nth)
qed simp

lemma pton6_full_colons:
  assumes "words16 pre" "words16 post" "length pre + length post = 8" "post \<noteq> []" "dst + 16 \<le> length m"
  shows "inet_pton6 stk (join6 pre @ 58 # 58 # join6 post @ 0 # r) m dst =
    Some (1, take dst m @ (word_bytes pre @ replicate (2 * length post) 0) @ drop (dst + 16) m)"
proof -
  let ?n = "2 * length post"
  have n: "16 - 2 * length pre = ?n" "2 * length pre + ?n = 16" using assms(3) by auto
  obtain out w where o: "pton6_loop stk (join6 post @ 0 # r) (join6 post @ 0 # r) (pad16 (word_bytes pre)) (length (word_bytes pre)) (Some (length (word_bytes pre))) False 0 0 =
      Some (Some (pad16 out, length out, Some (length (word_bytes pre)), True, w))" "out @ word_bytes [w] = word_bytes pre @ word_bytes post"
    using pton6_join_end [OF assms(4,2), of "word_bytes pre" stk r "join6 post @ 0 # r" "Some (length (word_bytes pre))"] assms(3) by auto
  have l: "length out + 2 = 16" using arg_cong [OF o(2), of length] assms(3) by simp
  have "pton6_shift (pad16 (word_bytes pre @ word_bytes post)) (2 * length pre) ?n ?n = Some (word_bytes pre @ replicate ?n 0)"
    using pton6_shift_full [of "word_bytes post" ?n "word_bytes pre" ?n] assms(3) by (simp add: pad16_def)
  then have "pton6_finish m dst (Some (pad16 (word_bytes pre @ word_bytes post), 16, Some (2 * length pre), False, w)) =
      Some (1, take dst m @ (word_bytes pre @ replicate ?n 0) @ drop (dst + 16) m)"
    using assms(3,5) n by (simp add: pton6_finish_def blit_def)
  then have "pton6_finish m dst (Some (pad16 out, length out, Some (length (word_bytes pre)), True, w)) =
      Some (1, take dst m @ (word_bytes pre @ replicate ?n 0) @ drop (dst + 16) m)"
    using pton6_finish_word [of out m dst "Some (2 * length pre)" w] l o(2) n(2) by simp
  then show ?thesis using pton6_colons [OF assms(1), of stk "join6 post @ 0 # r" m dst] o(1) assms(3) by simp
qed

section \<open>The main result\<close>



end
