(* ===== verification/Spec2Isabelle.thy ===== *)
theory Spec2Isabelle
  imports Recursive_Mutex Semaphore Pthread_Rwlock Pthread_TLS Pthread_Once Res_Cache_Iface Ns_Pton Strtok Sort Localtime64
    Host_Name Environ Atexit Base64 Path_Name Inet6
begin

text \<open>
  A verification of the core of Bionic, the C library of Android: its threads and locks
  (\<open>libc/bionic\<close>), its DNS resolver cache and message code (\<open>libc/netbsd\<close>), its 64-bit calendar
  (\<open>libc/bionic/time64.c\<close>), and the parts of its standard library (\<open>libc/stdlib\<close>, \<open>libc/string\<close>) they rest on.

  \<^bold>\<open>How the code is modelled.\<close> Structures are records, enumerations and tagged words are datatypes and
  machine words. A function that runs alone is a HOL function; where it could read or write outside a
  buffer, follow a null or freed pointer, or overflow a signed type its result is \<open>None\<close>, and errors
  it reports are values. A function that runs concurrently with others is a program-counter machine,
  one step per access to shared memory, and a component is the transition system of any number of
  threads running such machines; regions under a lock are single steps. Properties of all reachable
  states are proved once through the locale \<open>invariant_system\<close> of the prelude, which every concurrent
  component interprets. Code outside the sources (allocator, clock, kernel, environment, user call-backs) is a
  parameter.

  \<^bold>\<open>Parts and theories.\<close>

  \<^item> \<open>Bionic_Prelude\<close>: machine types, error codes, reads from a buffer, reachability, the invariant locale,
    bits of masks.

  \<^item> \<open>Pthread_Time\<close>, \<open>Pthread_Mutex\<close>, \<open>Mutex_Protocol\<close>, \<open>Recursive_Mutex\<close> (\<open>pthread.c\<close>,
    \<open>pthread_internal.h\<close>): timeouts; the 32-bit mutex word with \<open>_normal_lock\<close>, \<open>_normal_unlock\<close>,
    \<open>pthread_mutex_lock\<close>, \<open>_unlock\<close>, \<open>_trylock\<close>, \<open>_lock_timeout_np\<close> as machines over the futex. Shown: mutual
    exclusion and no lost wake-up for normal mutexes; owner and counter agree with the calls made for
    recursive ones, exact owner checks, nesting, behaviour of \<open>pthread_mutex_destroy\<close>.

  \<^item> \<open>Pthread_Attr\<close>: thread attributes. \<open>Pthread_Cond\<close>: condition variables; a broadcast reaches every
    waiter, except when the counter wraps around, which is characterised exactly; a wait returns with
    the mutex held.

  \<^item> \<open>Semaphore\<close> (\<open>semaphore.c\<close>): conservation of tokens, no lost wake-up. \<open>Pthread_Rwlock\<close>
    (\<open>pthread-rwlocks.c\<close>): exclusion, exact unlock, and who may be forgotten asleep.

  \<^item> \<open>Pthread_Thread\<close>, \<open>Pthread_TLS\<close>, \<open>Pthread_Once\<close> (\<open>pthread.c\<close>): the pointer list of threads refines
    a list, creation cleans up, join returns the exit value; keys, their values and destructors; once-only
    initialisation.

  \<^item> \<open>Dns_Packet\<close> (\<open>res_cache.c\<close>): the reader, check, hash and comparison of query packets against the
    grammar of queries. \<open>Ns_Name\<close>, \<open>Ns_Pack\<close> (\<open>ns_name.c\<close>, \<open>res_comp.c\<close>): expansion, printing, skipping and
    compression of names; every read and write is in bounds. \<open>Ns_Pton\<close>: names from text; what
    \<open>dn_comp\<close> writes into a message \<open>dn_expand\<close> turns back into text of the same name. \<open>Host_Name\<close>
    (\<open>res_comp.c\<close>): the checks of host, owner and mailbox names against grammars of labels. \<open>Ns_Parse\<close> (\<open>ns_parse.c\<close>): messages, and the smallest time to live of an answer.

  \<^item> \<open>Lru_List\<close>, \<open>Res_Cache\<close>, \<open>Res_Cache_Iface\<close> (\<open>res_cache.c\<close>): an abstract list in the order of use
    with its locale \<open>key_relation\<close>; the cache with its ring and collision chains of pointers, which
    refines it; the list of interfaces with their caches and name servers.

  \<^item> \<open>Ctype\<close>, \<open>Strto\<close> (\<open>ctype_.c\<close>, \<open>toupper_.c\<close>, \<open>tolower_.c\<close>, \<open>strtol.c\<close> and the other conversions):
    the tables of character classes; conversions of strings to integers, equal to the clamped value of
    the number a string starts with.

  \<^item> \<open>Cstring\<close>, \<open>Memcopy\<close>, \<open>Strtok\<close> (\<open>libc/string\<close>): comparison and search of strings and memory, with the locale
    \<open>comparison\<close> of total preorders that \<open>strcmp\<close>, \<open>strcasecmp\<close> and \<open>memcmp\<close> interpret; copies, also between
    overlapping regions and into buffers that are too small; splitting into tokens. Memory is a list of
    bytes, a pointer a position in it.

  \<^item> \<open>Sort\<close> (\<open>qsort.c\<close>, \<open>bsearch.c\<close>): the byte-level quicksort with its three pivot rules and its switch to
    insertion sort refines an algorithm on lists of elements; it returns for every comparison function, sorts
    for every interpretation of \<open>comparison\<close>, and \<open>bsearch\<close> then finds exactly the elements present.

  \<^item> \<open>Environ\<close> (\<open>getenv.c\<close>, \<open>setenv.c\<close>, \<open>putenv.c\<close>): the array of entries refines a map from names to values.
    \<open>Atexit\<close> (\<open>atexit.c\<close>): the tables of exit handlers on pages refine a list of handlers, each called once, the
    last one first. \<open>Base64\<close> (\<open>base64.c\<close>): decoding undoes encoding, with the exact sizes of the buffers.
    \<open>Path_Name\<close> (\<open>basename_r.c\<close>, \<open>dirname_r.c\<close>): the parts of a path, into buffers of any size.

  \<^item> \<open>Inet4\<close>, \<open>Inet6\<close> (\<open>libc/inet\<close>): the text of network addresses. Shown: a text is accepted as four bytes exactly where it is a
    dotted quad; what is printed of an address of four or sixteen bytes, or of an Ethernet address, is read back as the same
    bytes; every text is read inside of the arrays.

  \<^item> \<open>Time64\<close>, \<open>Safe_Year\<close>, \<open>Localtime64\<close> (\<open>time64.c\<close>): times and dates in 64 bits. Shown: the conversions are
    inverse and exact for every time; every year has a safe year of the same calendar; local time is exact for
    every zone over a \<open>localtime_r\<close> of 32 bits; \<open>mktime64\<close> undoes \<open>localtime64_r\<close>; a date in text fits its buffer.

  \<^bold>\<open>Bounds and fuel.\<close> Loops are functions with a termination proof. Loops over pointer structures that a
    corrupt heap could make endless are partial functions into \<open>option\<close> (the cache's chains, the search
    for a name, the years between two dates) or take the number of rounds as an argument (the walk over the list of threads); the
    theorems show that they return in every well-formed state, where the length of the list is enough.

  \<^bold>\<open>Not modelled.\<close> The trampoline and final stack release of threads (assembly), \<open>pthread_setname_np\<close> (file
  I/O); the calendar functions with static results; debugging output; the transport of queries, \<open>getaddrinfo\<close> and the reading of configuration
  (sockets and files); standard I/O, regular expressions, \<open>strtod\<close>, the allocator and the mathematical
  library (imported third-party code); kernel headers and system call stubs (generated); assembly.
\<close>

end
